(* ===== verification/Prelude.thy ===== *)
theory Prelude
  imports Complex_Main "HOL-Library.Product_Lexorder" "HOL-Library.List_Lexorder"
    "HOL-Library.Char_ord" "HOL-Library.Sublist" "HOL-Library.Multiset"
begin

text \<open>
  Shared material of the development: the lemma collections, the errors Python raises,
  dynamically typed values read from JSON and YAML, insertion-ordered dictionaries, the string
  operations of \<open>str\<close> the services use, and the generic state-machine contract every stateful
  component instantiates.

  A Python \<open>str\<close> is a \<open>string\<close> (one \<open>char\<close> per code point, so code points above 255 are out of
  range of the model); an \<open>int\<close> is an \<open>int\<close>; a clock reading in seconds is a \<open>real\<close>.
\<close>

named_theorems model_defs \<open>definitions that automation unfolds\<close>
named_theorems inv_intros \<open>preservation of a component's invariant by its operations\<close>

section \<open>Errors as values\<close>

datatype py_error =
    KeyError string
  | ValueError
  | TypeError
  | IndexError
  | AttributeError
  | RuntimeError
  | ZeroDivisionError
  | OSError
  | OverflowError
  | DockerError

type_synonym 'a result = "py_error + 'a"

definition bindE :: "'a result \<Rightarrow> ('a \<Rightarrow> 'b result) \<Rightarrow> 'b result" where
  "bindE m f = (case m of Inl e \<Rightarrow> Inl e | Inr x \<Rightarrow> f x)"

lemma bindE_simps [simp]: "bindE (Inl e) f = Inl e" "bindE (Inr x) f = f x"
  by (simp_all add: bindE_def)

lemma bindE_eq_Inr: "bindE m f = Inr y \<longleftrightarrow> (\<exists>x. m = Inr x \<and> f x = Inr y)"
  by (cases m) auto

text \<open>A list comprehension whose body may raise: the first error ends it.\<close>

fun mapE :: "('a \<Rightarrow> 'b result) \<Rightarrow> 'a list \<Rightarrow> 'b list result" where
  "mapE f [] = Inr []"
| "mapE f (x # xs) = bindE (f x) (\<lambda>y. bindE (mapE f xs) (\<lambda>ys. Inr (y # ys)))"

lemma mapE_Inr_length: "mapE f xs = Inr ys \<Longrightarrow> length ys = length xs"
  by (induction xs arbitrary: ys) (auto simp: bindE_eq_Inr)

lemma mapE_Inr_set: "mapE f xs = Inr ys \<Longrightarrow> y \<in> set ys \<Longrightarrow> \<exists>x\<in>set xs. f x = Inr y"
  by (induction xs arbitrary: ys) (auto simp: bindE_eq_Inr)

section \<open>Dynamically typed values\<close>

datatype json =
    JNull
  | JBool bool
  | JInt int
  | JReal real
  | JStr string
  | JList "json list"
  | JObj "(string \<times> json) list"

type_synonym jobj = "(string \<times> json) list"

text \<open>\<open>bool(v)\<close>: what \<open>if v\<close>, \<open>not v\<close>, \<open>v or d\<close> decide on.\<close>

fun truthy :: "json \<Rightarrow> bool" where
  "truthy JNull = False"
| "truthy (JBool b) = b"
| "truthy (JInt i) = (i \<noteq> 0)"
| "truthy (JReal r) = (r \<noteq> 0)"
| "truthy (JStr s) = (s \<noteq> [])"
| "truthy (JList xs) = (xs \<noteq> [])"
| "truthy (JObj kvs) = (kvs \<noteq> [])"

definition or_else :: "json \<Rightarrow> json \<Rightarrow> json" where
  "or_else v d = (if truthy v then v else d)"

section \<open>Insertion-ordered dictionaries\<close>

text \<open>
  A dict is an association list in insertion order: storing at a present key keeps its place,
  storing at a new key appends.
\<close>

fun dset :: "'k \<Rightarrow> 'v \<Rightarrow> ('k \<times> 'v) list \<Rightarrow> ('k \<times> 'v) list" where
  "dset k v [] = [(k, v)]"
| "dset k v ((k', v') # d) = (if k = k' then (k, v) # d else (k', v') # dset k v d)"

definition dpop :: "'k \<Rightarrow> ('k \<times> 'v) list \<Rightarrow> ('k \<times> 'v) list" where
  "dpop k d = filter (\<lambda>kv. fst kv \<noteq> k) d"

definition dkeys :: "('k \<times> 'v) list \<Rightarrow> 'k list" where
  "dkeys d = map fst d"

definition dget :: "('k \<times> 'v) list \<Rightarrow> 'k \<Rightarrow> 'v \<Rightarrow> 'v" where
  "dget d k v = (case map_of d k of None \<Rightarrow> v | Some x \<Rightarrow> x)"

definition dict_ok :: "('k \<times> 'v) list \<Rightarrow> bool" where
  "dict_ok d \<longleftrightarrow> distinct (map fst d)"

lemma map_of_dset [simp]: "map_of (dset k v d) = (map_of d)(k \<mapsto> v)"
  by (induction k v d rule: dset.induct) (auto simp: fun_eq_iff)

lemma map_of_dpop [simp]: "map_of (dpop k d) = (map_of d)(k := None)"
  by (induction d) (auto simp: dpop_def fun_eq_iff)

lemma fst_set_dset [simp]: "fst ` set (dset k v d) = insert k (fst ` set d)"
  by (induction k v d rule: dset.induct) auto

lemma fst_set_dpop [simp]: "fst ` set (dpop k d) = fst ` set d - {k}"
  by (auto simp: dpop_def)

lemma dict_ok_Nil [simp]: "dict_ok []"
  by (simp add: dict_ok_def)

lemma dict_ok_dset [intro]: "dict_ok d \<Longrightarrow> dict_ok (dset k v d)"
  unfolding dict_ok_def
proof (induction k v d rule: dset.induct)
  case (2 k v k' v' d)
  have "fst ` set (dset k v d) = insert k (fst ` set d)" by simp
  with 2 show ?case by (auto simp del: fst_set_dset)
qed simp

lemma dict_ok_dpop [intro]: "dict_ok d \<Longrightarrow> dict_ok (dpop k d)"
  unfolding dict_ok_def dpop_def by (induction d) auto

lemma dpop_dset [simp]: "dpop k (dset k v d) = dpop k d"
  by (induction k v d rule: dset.induct) (auto simp: dpop_def)

lemma dset_dset [simp]: "dset k v (dset k w d) = dset k v d"
  by (induction k w d rule: dset.induct) auto

lemma dset_absent: "k \<notin> fst ` set d \<Longrightarrow> dset k v d = d @ [(k, v)]"
  by (induction k v d rule: dset.induct) auto

lemma map_of_eq_Some_dict_ok: "dict_ok d \<Longrightarrow> (k, v) \<in> set d \<Longrightarrow> map_of d k = Some v"
  by (simp add: dict_ok_def)

text \<open>How many entries satisfy a test, and what storing and removing do to that number.\<close>

definition dcount :: "('v \<Rightarrow> bool) \<Rightarrow> ('k \<times> 'v) list \<Rightarrow> nat" where
  "dcount P d = length (filter (\<lambda>kv. P (snd kv)) d)"

lemma dcount_fresh: "map_of d k = None \<Longrightarrow> dcount P (dset k v d) = dcount P d + (if P v then 1 else 0)"
  unfolding dcount_def by (induction k v d rule: dset.induct) (auto split: if_splits)

lemma dcount_set:
  "map_of d k = Some u \<Longrightarrow>
     dcount P (dset k v d) + (if P u then 1 else 0) = dcount P d + (if P v then 1 else 0)"
  unfolding dcount_def by (induction k v d rule: dset.induct) (auto split: if_splits)

lemma filter_absent: "k \<notin> fst ` set d \<Longrightarrow> filter (\<lambda>kv. fst kv \<noteq> k) d = d"
  by (induction d) auto

lemma dcount_pop:
  "dict_ok d \<Longrightarrow> map_of d k = Some u \<Longrightarrow> dcount P (dpop k d) + (if P u then 1 else 0) = dcount P d"
proof (induction d)
  case (Cons x d)
  obtain k' v where x: "x = (k', v)" by force
  show ?case
  proof (cases "k' = k")
    case True
    then have "dpop k (x # d) = d"
      using Cons.prems x by (auto simp: dpop_def dict_ok_def filter_absent)
    then show ?thesis using Cons.prems x True by (simp add: dcount_def)
  next
    case False
    then have "dcount P (dpop k d) + (if P u then 1 else 0) = dcount P d"
      using Cons x by (auto simp: dict_ok_def)
    then show ?thesis using x False by (simp add: dcount_def dpop_def)
  qed
qed simp

section \<open>The \<open>str\<close> operations the services use\<close>

definition py_space :: "char \<Rightarrow> bool" where
  "py_space c \<longleftrightarrow> (let n = (of_char c :: nat)
     in 9 \<le> n \<and> n \<le> 13 \<or> 28 \<le> n \<and> n \<le> 32 \<or> n = 133 \<or> n = 160)"

definition lstrip :: "string \<Rightarrow> string" where
  "lstrip s = dropWhile py_space s"

definition rstrip :: "string \<Rightarrow> string" where
  "rstrip s = rev (dropWhile py_space (rev s))"

definition strip :: "string \<Rightarrow> string" where
  "strip s = rstrip (lstrip s)"

definition starts_with :: "string \<Rightarrow> string \<Rightarrow> bool" where
  "starts_with s p \<longleftrightarrow> prefix p s"

definition ends_with :: "string \<Rightarrow> string \<Rightarrow> bool" where
  "ends_with s p \<longleftrightarrow> suffix p s"

text \<open>The line feed.\<close>

definition nlc :: char where "nlc = CHR 0x0A"

definition line_break :: "char \<Rightarrow> bool" where
  "line_break c \<longleftrightarrow> (let n = (of_char c :: nat) in 10 \<le> n \<and> n \<le> 13 \<or> 28 \<le> n \<and> n \<le> 30 \<or> n = 133)"

text \<open>\<open>str.splitlines\<close>: carriage return and line feed are one break, a last break opens no line.\<close>

function lines_from :: "string \<Rightarrow> string \<Rightarrow> string list" where
  "lines_from cur [] = (if cur = [] then [] else [cur])"
| "lines_from cur (c # cs) =
     (if line_break c
      then cur # lines_from [] (if c = CHR 0x0D \<and> cs \<noteq> [] \<and> hd cs = nlc then tl cs else cs)
      else lines_from (cur @ [c]) cs)"
  by pat_completeness auto
termination by (relation "measure (\<lambda>(cur, s). length s)") auto

definition splitlines :: "string \<Rightarrow> string list" where
  "splitlines s = lines_from [] s"

text \<open>\<open>\w\<close> on the code points of the model.\<close>

definition word_char :: "char \<Rightarrow> bool" where
  "word_char c \<longleftrightarrow> (let n = (of_char c :: nat) in
     48 \<le> n \<and> n \<le> 57 \<or> 65 \<le> n \<and> n \<le> 90 \<or> n = 95 \<or> 97 \<le> n \<and> n \<le> 122
     \<or> n = 170 \<or> n = 178 \<or> n = 179 \<or> n = 181 \<or> n = 185 \<or> n = 186 \<or> 188 \<le> n \<and> n \<le> 190
     \<or> 192 \<le> n \<and> n \<noteq> 215 \<and> n \<noteq> 247)"

text \<open>Letters regardless of case, and a text that starts with or contains another that way.\<close>

definition lower_char :: "char \<Rightarrow> char" where
  "lower_char c = (let n = (of_char c :: nat)
     in if 65 \<le> n \<and> n \<le> 90 \<or> 192 \<le> n \<and> n \<le> 222 \<and> n \<noteq> 215 then char_of (n + 32) else c)"

definition prefix_nocase :: "string \<Rightarrow> string \<Rightarrow> bool" where
  "prefix_nocase p s \<longleftrightarrow> prefix (map lower_char p) (map lower_char s)"

definition occurs_nocase :: "string \<Rightarrow> string \<Rightarrow> bool" where
  "occurs_nocase w s \<longleftrightarrow> sublist (map lower_char w) (map lower_char s)"

text \<open>\<open>sep.join(xs)\<close>.\<close>

fun join :: "string \<Rightarrow> string list \<Rightarrow> string" where
  "join sep [] = []"
| "join sep [x] = x"
| "join sep (x # y # xs) = x @ sep @ join sep (y # xs)"

lemma sublist_join: "x \<in> set xs \<Longrightarrow> sublist x (join sep xs)"
proof (induction sep xs rule: join.induct)
  case (3 sep a b xs)
  show ?case
  proof (cases "x = a")
    case False
    then have "sublist x (join sep (b # xs))" using 3 by simp
    then show ?thesis by (auto simp: sublist_append)
  qed (simp add: sublist_def, metis append_Nil)
qed auto

text \<open>
  \<open>s.partition(sep)\<close> with a non-empty separator: what is before and after its first occurrence.
\<close>

fun cut :: "'a list \<Rightarrow> 'a list \<Rightarrow> ('a list \<times> 'a list) option" where
  "cut sep [] = None"
| "cut sep (c # cs) =
     (if prefix sep (c # cs) then Some ([], drop (length sep) (c # cs))
      else map_option (\<lambda>(a, b). (c # a, b)) (cut sep cs))"

lemma cut_shorter: "cut sep s = Some (a, b) \<Longrightarrow> sep \<noteq> [] \<Longrightarrow> length b < length s"
proof (induction s arbitrary: a)
  case (Cons c cs)
  then show ?case
    by (cases "prefix sep (c # cs)") (fastforce dest: prefix_length_le)+
qed simp

text \<open>\<open>s.split(sep)\<close> with a non-empty separator.\<close>

function split_on :: "'a list \<Rightarrow> 'a list \<Rightarrow> 'a list list" where
  "split_on sep s =
     (if sep = [] then [s]
      else case cut sep s of None \<Rightarrow> [s] | Some (a, b) \<Rightarrow> a # split_on sep b)"
  by pat_completeness auto
termination by (relation "measure (\<lambda>(sep, s). length s)") (auto dest: cut_shorter)

declare split_on.simps [simp del]

text \<open>Slices \<open>xs[:i]\<close> and \<open>xs[i:]\<close> with a possibly negative index.\<close>

definition slice_to :: "int \<Rightarrow> 'a list \<Rightarrow> 'a list" where
  "slice_to i xs = (if i \<ge> 0 then take (nat i) xs else take (length xs - nat (- i)) xs)"

definition slice_from :: "int \<Rightarrow> 'a list \<Rightarrow> 'a list" where
  "slice_from i xs = (if i \<ge> 0 then drop (nat i) xs else drop (length xs - nat (- i)) xs)"

text \<open>\<open>str(n)\<close> of a non-negative integer, and the characters of decimal numerals.\<close>

definition dec_char :: "nat \<Rightarrow> char" where
  "dec_char d = ''0123456789'' ! d"

fun str_nat :: "nat \<Rightarrow> string" where
  "str_nat n = (if n < 10 then [dec_char n] else str_nat (n div 10) @ [dec_char (n mod 10)])"

declare str_nat.simps [simp del]

definition digit_val :: "char \<Rightarrow> int option" where
  "digit_val c = (let n = (of_char c :: int) in if 48 \<le> n \<and> n \<le> 57 then Some (n - 48) else None)"

definition is_digit :: "char \<Rightarrow> bool" where
  "is_digit c \<longleftrightarrow> digit_val c \<noteq> None"

fun dec_val :: "nat \<Rightarrow> string \<Rightarrow> nat" where
  "dec_val acc [] = acc"
| "dec_val acc (c # cs) =
     dec_val (10 * acc + (case digit_val c of None \<Rightarrow> 0 | Some d \<Rightarrow> nat d)) cs"

lemma dec_char_table:
  "list_all (\<lambda>d. digit_val (dec_char d) = Some (int d)) [0..<10]"
  by (simp add: upt_rec dec_char_def digit_val_def)

lemma digit_val_dec_char: "d < 10 \<Longrightarrow> digit_val (dec_char d) = Some (int d)"
  using dec_char_table unfolding list_all_iff by simp

lemma str_nat_nonempty [simp]: "str_nat n \<noteq> []"
  by (simp add: str_nat.simps [of n])

lemma str_nat_digits: "\<forall>c\<in>set (str_nat n). is_digit c"
proof (induction n rule: str_nat.induct)
  case (1 n)
  then show ?case
    by (cases "n < 10") (simp_all add: str_nat.simps [of n] is_digit_def digit_val_dec_char)
qed

lemma dec_val_append: "dec_val acc (xs @ ys) = dec_val (dec_val acc xs) ys"
  by (induction acc xs rule: dec_val.induct) simp_all

lemma dec_val_str_nat: "dec_val 0 (str_nat n) = n"
proof (induction n rule: str_nat.induct)
  case (1 n)
  show ?case
  proof (cases "n < 10")
    case False
    then have "dec_val 0 (str_nat n) = 10 * (n div 10) + n mod 10"
      using 1 by (simp add: str_nat.simps [of n] dec_val_append digit_val_dec_char)
    then show ?thesis by (metis mult_div_mod_eq)
  qed (simp add: str_nat.simps [of n] digit_val_dec_char)
qed

lemma str_nat_inj [simp]: "str_nat m = str_nat n \<longleftrightarrow> m = n"
  by (metis dec_val_str_nat)

text \<open>
  \<open>int(v)\<close> on a JSON or YAML scalar. A string is stripped, may carry a sign, and its digits may be
  grouped by single underscores; a float is truncated towards zero.
\<close>

fun int_digits :: "int \<Rightarrow> bool \<Rightarrow> string \<Rightarrow> int result" where
  "int_digits acc after_digit [] = (if after_digit then Inr acc else Inl ValueError)"
| "int_digits acc after_digit (c # cs) =
     (if c = CHR ''_'' then (if after_digit then int_digits acc False cs else Inl ValueError)
      else case digit_val c of
             None \<Rightarrow> Inl ValueError
           | Some d \<Rightarrow> int_digits (10 * acc + d) True cs)"

fun int_literal :: "string \<Rightarrow> int result" where
  "int_literal (CHR ''-'' # cs) = bindE (int_digits 0 False cs) (\<lambda>i. Inr (- i))"
| "int_literal (CHR ''+'' # cs) = int_digits 0 False cs"
| "int_literal cs = int_digits 0 False cs"

fun py_int :: "json \<Rightarrow> int result" where
  "py_int (JInt i) = Inr i"
| "py_int (JBool b) = Inr (if b then 1 else 0)"
| "py_int (JReal r) = Inr (if r < 0 then - \<lfloor>- r\<rfloor> else \<lfloor>r\<rfloor>)"
| "py_int (JStr s) = int_literal (strip s)"
| "py_int v = Inl TypeError"

lemma length_lstrip_le [simp]: "length (lstrip s) \<le> length s"
  by (simp add: lstrip_def length_dropWhile_le)

lemma length_rstrip_le [simp]: "length (rstrip s) \<le> length s"
  unfolding rstrip_def by (simp add: le_trans [OF length_dropWhile_le])

lemma length_strip_le [simp]: "length (strip s) \<le> length s"
  unfolding strip_def by (rule le_trans [OF length_rstrip_le length_lstrip_le])

lemma cut_eq: "cut sep s = Some (a, b) \<Longrightarrow> s = a @ sep @ b"
proof (induction s arbitrary: a)
  case (Cons c cs)
  then show ?case
    by (cases "prefix sep (c # cs)") (auto simp: prefix_def)
qed simp

lemma cut_length: "cut sep s = Some (a, b) \<Longrightarrow> length a + length sep + length b = length s"
  using cut_eq [of sep s a b] by simp

lemma cut_first: "c \<notin> set a \<Longrightarrow> cut (c # sep) (a @ (c # sep) @ b) = Some (a, b)"
  by (induction a) (auto simp: prefix_def)

lemma cut_none: "c \<notin> set s \<Longrightarrow> cut (c # sep) s = None"
  by (induction s) auto

lemma slice_join: "slice_to i xs @ slice_from i xs = xs"
  by (simp add: slice_to_def slice_from_def)

lemma slice_append [simp]:
  "slice_to (int (length xs)) (xs @ ys) = xs" "slice_from (int (length xs)) (xs @ ys) = ys"
  by (simp_all add: slice_to_def slice_from_def)

lemma length_slice_from_le: "length (slice_from i xs) \<le> length xs"
  by (simp add: slice_from_def)

section \<open>Access to dynamically typed values\<close>

text \<open>\<open>v.get(...)\<close> needs a dict; iteration needs a list, and runs over the keys of a dict and the
  characters of a string, which the code's loop bodies then refuse.\<close>

definition as_obj :: "json \<Rightarrow> jobj result" where
  "as_obj v = (case v of JObj kvs \<Rightarrow> Inr kvs | _ \<Rightarrow> Inl AttributeError)"

definition as_items :: "json \<Rightarrow> json list result" where
  "as_items v =
     (case v of
        JList xs \<Rightarrow> Inr xs
      | JObj kvs \<Rightarrow> Inr (map (\<lambda>kv. JStr (fst kv)) kvs)
      | JStr s \<Rightarrow> Inr (map (\<lambda>c. JStr [c]) s)
      | _ \<Rightarrow> Inl TypeError)"

text \<open>\<open>v[0]\<close>, and \<open>v.get(k, d)\<close>.\<close>

fun index_first :: "json \<Rightarrow> json result" where
  "index_first (JList []) = Inl IndexError"
| "index_first (JList (v # vs)) = Inr v"
| "index_first (JStr []) = Inl IndexError"
| "index_first (JStr (c # cs)) = Inr (JStr [c])"
| "index_first (JObj o') = Inl (KeyError ''0'')"
| "index_first v = Inl TypeError"

definition get_in :: "json \<Rightarrow> string \<Rightarrow> json \<Rightarrow> json result" where
  "get_in v k d = bindE (as_obj v) (\<lambda>kvs. Inr (dget kvs k d))"

text \<open>\<open>str(v)\<close>; floats, lists and dicts are left to a parameter.\<close>

definition str_int :: "int \<Rightarrow> string" where
  "str_int i = (if i < 0 then CHR ''-'' # str_nat (nat (- i)) else str_nat (nat i))"

definition py_str :: "(json \<Rightarrow> string) \<Rightarrow> json \<Rightarrow> string" where
  "py_str rep v =
     (case v of
        JNull \<Rightarrow> ''None'' | JBool b \<Rightarrow> (if b then ''True'' else ''False'')
      | JInt i \<Rightarrow> str_int i | JStr s \<Rightarrow> s | _ \<Rightarrow> rep v)"

lemma py_space_sign: "\<not> py_space (CHR ''-'')" "\<not> py_space (CHR ''+'')"
  by (simp_all add: py_space_def)

lemma is_digit_not: "is_digit c \<Longrightarrow> \<not> py_space c \<and> c \<noteq> CHR ''-'' \<and> c \<noteq> CHR ''+'' \<and> c \<noteq> CHR ''_''"
proof (intro conjI)
  assume d: "is_digit c"
  then have "48 \<le> (of_char c :: int) \<and> (of_char c :: int) \<le> 57"
    by (auto simp: is_digit_def digit_val_def Let_def split: if_splits)
  moreover have "int (of_char c) = of_char c" by (rule of_nat_of_char)
  ultimately have "48 \<le> (of_char c :: nat) \<and> (of_char c :: nat) \<le> 57" by linarith
  then show "\<not> py_space c" by (auto simp: py_space_def Let_def)
  show "c \<noteq> CHR ''-''" "c \<noteq> CHR ''+''" "c \<noteq> CHR ''_''" using d by (auto simp: is_digit_def digit_val_def)
qed

lemma strip_unspaced: "\<forall>c\<in>set s. \<not> py_space c \<Longrightarrow> strip s = s"
proof -
  assume s: "\<forall>c\<in>set s. \<not> py_space c"
  have d: "\<forall>c\<in>set t. \<not> py_space c \<Longrightarrow> dropWhile py_space t = t" for t
    by (cases t) auto
  show ?thesis using d [of s] d [of "rev s"] s by (simp add: strip_def lstrip_def rstrip_def)
qed

lemma int_digits_dec:
  "\<forall>c\<in>set s. is_digit c \<Longrightarrow> s \<noteq> [] \<or> b \<Longrightarrow> int_digits (int acc) b s = Inr (int (dec_val acc s))"
proof (induction s arbitrary: acc b)
  case (Cons c cs)
  obtain d where d: "digit_val c = Some d" using Cons.prems(1) by (auto simp: is_digit_def)
  have "d \<ge> 0" using d by (auto simp: digit_val_def Let_def split: if_splits)
  then have "10 * int acc + d = int (10 * acc + nat d)" by simp
  moreover have "c \<noteq> CHR ''_''" using Cons.prems(1) is_digit_not by simp
  ultimately show ?case using Cons.IH [of True "10 * acc + nat d"] Cons.prems(1) d by simp
qed simp

lemma int_literal_plain: "c \<noteq> CHR ''-'' \<Longrightarrow> c \<noteq> CHR ''+'' \<Longrightarrow> int_literal (c # cs) = int_digits 0 False (c # cs)"
  by (cases "c # cs" rule: int_literal.cases) auto

lemma int_literal_str_nat: "int_literal (str_nat n) = Inr (int n)"
proof -
  obtain c cs where c: "str_nat n = c # cs" by (cases "str_nat n") auto
  then have "is_digit c" using str_nat_digits [of n] by auto
  then have "int_literal (str_nat n) = int_digits 0 False (str_nat n)"
    using is_digit_not by (simp add: c int_literal_plain)
  also have "\<dots> = Inr (int n)"
    using int_digits_dec [of "str_nat n" False 0] str_nat_digits by (simp add: dec_val_str_nat)
  finally show ?thesis .
qed

text \<open>\<open>int(str(i)) == i\<close>.\<close>

lemma py_int_str_int: "py_int (JStr (str_int i)) = Inr i"
proof -
  have "\<forall>c\<in>set (str_nat n). \<not> py_space c" for n
    using str_nat_digits is_digit_not by blast
  then have "strip (str_int i) = str_int i"
    by (intro strip_unspaced) (auto simp: str_int_def py_space_sign)
  moreover have "int_digits 0 False (str_nat n) = Inr (int n)" for n
    using int_digits_dec [of "str_nat n" False 0] str_nat_digits by (simp add: dec_val_str_nat)
  ultimately show ?thesis by (simp add: str_int_def int_literal_str_nat)
qed

lemma str_int_inj [simp]: "str_int i = str_int j \<longleftrightarrow> i = j"
  by (metis py_int_str_int sum.inject(2))

lemma py_str_truthy: "(\<And>v. rep v \<noteq> []) \<Longrightarrow> truthy v \<Longrightarrow> py_str rep v \<noteq> []"
  by (cases v) (auto simp: py_str_def str_int_def)

section \<open>State machines\<close>

text \<open>
  The contract of a component with state: an initial state, a step function labelled by what
  happens to it, and a predicate that the initial state satisfies and every step keeps. The
  client lemma is that it holds after any sequence of events.
\<close>

locale machine =
  fixes step :: "'e \<Rightarrow> 's \<Rightarrow> 's" and inv :: "'s \<Rightarrow> bool" and init :: "'s \<Rightarrow> bool"
  assumes init_inv: "init s \<Longrightarrow> inv s"
    and step_inv: "inv s \<Longrightarrow> inv (step e s)"
begin

lemma fold_inv: "inv s \<Longrightarrow> inv (fold step es s)"
  by (induction es arbitrary: s) (auto intro: step_inv)

lemma run_inv: "init s \<Longrightarrow> inv (fold step es s)"
  by (rule fold_inv [OF init_inv])

end

end
