(* ===== verification/Arbiter_Config.thy ===== *)
theory Arbiter_Config
  imports Prelude
begin

text \<open>
  \<open>arbiter/config.py\<close>: one entry of the GPU policy (\<open>JobConfig\<close>) and the loading of the job
  table (\<open>load_jobs\<close>). The YAML reader is outside the model: its result is the argument of
  \<open>load_jobs\<close>. A field of a raw entry is \<open>None\<close> when the key is absent; \<open>name\<close>, \<open>kind\<close> and
  \<open>container\<close> are strings, as the class annotates them, and the numeric fields are whatever
  scalar the file holds.
\<close>

datatype kind = KNone | KContainer | KCooperative

record raw_job =
  raw_name :: "string option"
  raw_kind :: "string option"
  raw_container :: "string option"
  raw_priority :: "json option"
  raw_required_mb :: "json option"
  raw_stop_timeout :: "json option"

record job =
  jname :: string
  jkind :: kind
  jcontainer :: string
  jpriority :: int
  jrequired_mb :: int
  jstop_timeout :: int

text \<open>The membership test against \<open>KINDS\<close>.\<close>

definition kind_of :: "string \<Rightarrow> kind option" where
  "kind_of s = (if s = ''none'' then Some KNone
     else if s = ''container'' then Some KContainer
     else if s = ''cooperative'' then Some KCooperative
     else None)"

definition int_field :: "json option \<Rightarrow> int \<Rightarrow> int result" where
  "int_field v d = py_int (case v of None \<Rightarrow> JInt d | Some x \<Rightarrow> x)"

definition JobConfig :: "raw_job \<Rightarrow> job result" where
  "JobConfig raw =
     (case raw_name raw of
        None \<Rightarrow> Inl (KeyError ''name'')
      | Some name \<Rightarrow>
         (case kind_of (case raw_kind raw of None \<Rightarrow> ''none'' | Some k \<Rightarrow> k) of
            None \<Rightarrow> Inl ValueError
          | Some k \<Rightarrow>
             bindE (int_field (raw_priority raw) 0) (\<lambda>p.
             bindE (int_field (raw_required_mb raw) 0) (\<lambda>mb.
             bindE (int_field (raw_stop_timeout raw) 10) (\<lambda>st.
               Inr \<lparr>jname = name, jkind = k,
                    jcontainer = (case raw_container raw of None \<Rightarrow> name | Some c \<Rightarrow> c),
                    jpriority = p, jrequired_mb = mb, jstop_timeout = st\<rparr>)))))"

text \<open>The sort key of the table: highest priority first, then by name.\<close>

definition job_rank :: "job \<Rightarrow> int \<times> string" where
  "job_rank j = (- jpriority j, jname j)"

text \<open>
  The job file: absent, or a document whose \<open>jobs\<close> entry may be missing (an empty document
  reads the same).
\<close>

datatype jobs_file = NoFile | JobsDoc "raw_job list option"

fun load_jobs :: "jobs_file \<Rightarrow> job list result" where
  "load_jobs NoFile = Inr []"
| "load_jobs (JobsDoc entries) =
     bindE (mapE JobConfig (case entries of None \<Rightarrow> [] | Some es \<Rightarrow> es)) (\<lambda>jobs.
       if distinct (map jname jobs) then Inr (sort_key job_rank jobs) else Inl ValueError)"

section \<open>What loading guarantees\<close>

lemma JobConfig_defaults:
  "JobConfig \<lparr>raw_name = Some n, raw_kind = None, raw_container = None, raw_priority = None,
     raw_required_mb = None, raw_stop_timeout = None\<rparr>
   = Inr \<lparr>jname = n, jkind = KNone, jcontainer = n, jpriority = 0, jrequired_mb = 0,
          jstop_timeout = 10\<rparr>"
  by (simp add: JobConfig_def kind_of_def int_field_def)

lemma load_jobs_cases:
  assumes "load_jobs f = Inr js"
  shows "js = [] \<or> (\<exists>es jobs. mapE JobConfig es = Inr jobs \<and> distinct (map jname jobs)
                              \<and> js = sort_key job_rank jobs)"
  using assms by (cases f) (auto simp: bindE_eq_Inr split: if_splits)

lemma load_jobs_distinct: "load_jobs f = Inr js \<Longrightarrow> distinct (map jname js)"
proof (drule load_jobs_cases, elim disjE exE conjE)
  fix es jobs
  assume d: "distinct (map jname jobs)" and js: "js = sort_key job_rank jobs"
  have "mset (map jname js) = mset (map jname jobs)"
    by (simp add: js)
  with d show "distinct (map jname js)"
    by (metis mset_eq_imp_distinct_iff)
qed simp

lemma load_jobs_sorted: "load_jobs f = Inr js \<Longrightarrow> sorted (map job_rank js)"
  by (drule load_jobs_cases) auto

end
