(* ===== verification/Arbiter_Reclaimers.thy ===== *)
theory Arbiter_Reclaimers
  imports Arbiter_Config
begin

text \<open>
  \<open>arbiter/reclaimers.py\<close>: a job's grip on the GPU and how it is taken back. The three classes
  are one record whose behaviour depends on the job's kind; \<open>rwanted\<close>, \<open>rlet_go\<close> (the two
  \<open>asyncio.Event\<close>s) and \<open>rlast_poll\<close> belong to \<open>CooperativeReclaimer\<close> and no operation of the
  other kinds touches them.

  A coroutine is modelled by its suspension points: an operation runs until it has to wait and
  then returns the point at which it waits; an answer from outside resumes it. What a Docker
  call or a timer answers is the environment's choice.
\<close>

section \<open>State\<close>

record reclaimer =
  rjob :: job
  rheld :: bool
  rwanted :: bool
  rlet_go :: bool
  rlast_poll :: real

definition build :: "job \<Rightarrow> reclaimer" where
  "build j = \<lparr>rjob = j, rheld = False, rwanted = False, rlet_go = False, rlast_poll = 0\<rparr>"

definition cooperative :: "reclaimer \<Rightarrow> bool" where
  "cooperative r \<longleftrightarrow> jkind (rjob r) = KCooperative"

definition contained :: "reclaimer \<Rightarrow> bool" where
  "contained r \<longleftrightarrow> jkind (rjob r) = KContainer"

definition leased :: "reclaimer \<Rightarrow> bool" where
  "leased r = rheld r"

text \<open>
  \<open>holds()\<close>: the lease, and for a container also its liveness. \<open>None\<close> when the answer needs a
  Docker round trip, the only case in which the call suspends.
\<close>

definition holds :: "reclaimer \<Rightarrow> bool option" where
  "holds r = (if \<not> rheld r then Some False else if contained r then None else Some True)"

definition grant :: "real \<Rightarrow> reclaimer \<Rightarrow> reclaimer" where
  "grant now r =
     (if cooperative r
      then r\<lparr>rheld := True, rwanted := False, rlet_go := False, rlast_poll := now\<rparr>
      else r\<lparr>rheld := True\<rparr>)"

definition forget :: "reclaimer \<Rightarrow> reclaimer" where
  "forget r =
     (if cooperative r then r\<lparr>rheld := False, rwanted := False, rlet_go := True\<rparr>
      else r\<lparr>rheld := False\<rparr>)"

definition seconds_since_poll :: "real \<Rightarrow> reclaimer \<Rightarrow> real" where
  "seconds_since_poll now r = now - rlast_poll r"

definition poll :: "real \<Rightarrow> reclaimer \<Rightarrow> reclaimer" where
  "poll now r = r\<lparr>rlast_poll := now\<rparr>"

section \<open>Taking the card back\<close>

text \<open>What an awaited call can answer.\<close>

datatype answer =
    AUp bool      \<comment> \<open>\<open>_up()\<close>: Docker answered the state query\<close>
  | AKilled       \<comment> \<open>Docker accepted the signal\<close>
  | AErr          \<comment> \<open>the Docker call raised\<close>
  | AWake         \<comment> \<open>the event or sleep being waited for came\<close>
  | ATimeout      \<comment> \<open>\<open>asyncio.wait_for\<close> gave up\<close>

text \<open>The suspension points of \<open>_kill_and_wait\<close> and of the check after it.\<close>

datatype kill_pc =
    KTerm | KTermUp | KTermSleep real | KKill | KKillUp | KKillSleep real | KFinal

datatype reclaim_pc =
    WLetGo real               \<comment> \<open>cooperative: waiting for \<open>_let_go\<close>, up to this time\<close>
  | WKill kill_pc real real   \<comment> \<open>container: end of the grace period, end of \<open>wait_for\<close>\<close>

datatype reclaim_status =
    RDone bool
  | RRaise py_error
  | RWait reclaim_pc

fun reclaim_start :: "real \<Rightarrow> real \<Rightarrow> reclaimer \<Rightarrow> reclaimer \<times> reclaim_status" where
  "reclaim_start now timeout r =
     (case jkind (rjob r) of
        KNone \<Rightarrow> (r\<lparr>rheld := False\<rparr>, RDone True)
      | KCooperative \<Rightarrow>
          if \<not> rheld r then (r, RDone True)
          else (r\<lparr>rwanted := True\<rparr>, RWait (WLetGo (now + timeout)))
      | KContainer \<Rightarrow>
          (r, RWait (WKill (if jstop_timeout (rjob r) > 0 then KTerm else KKill)
                       (now + min (of_int (jstop_timeout (rjob r))) timeout) (now + timeout))))"

text \<open>The grace loop's test \<open>time.monotonic() < deadline\<close>.\<close>

definition grace_next :: "real \<Rightarrow> real \<Rightarrow> kill_pc" where
  "grace_next now grace = (if now < grace then KTermUp else KKill)"

fun kill_resume :: "real \<Rightarrow> real \<Rightarrow> kill_pc \<Rightarrow> answer \<Rightarrow> kill_pc option" where
  "kill_resume now grace KTerm AKilled = Some (grace_next now grace)"
| "kill_resume now grace KTermUp (AUp up) = Some (if up then KTermSleep (now + 0.2) else KFinal)"
| "kill_resume now grace (KTermSleep t) AWake =
     Some (if t \<le> now then grace_next now grace else KTermSleep t)"
| "kill_resume now grace KKill AKilled = Some KKillUp"
| "kill_resume now grace KKillUp (AUp up) = Some (if up then KKillSleep (now + 0.1) else KFinal)"
| "kill_resume now grace (KKillSleep t) AWake = Some (if t \<le> now then KKillUp else KKillSleep t)"
| "kill_resume now grace k a = None"

definition awaits_docker :: "kill_pc \<Rightarrow> bool" where
  "awaits_docker k \<longleftrightarrow> k \<in> {KTerm, KTermUp, KKill, KKillUp, KFinal}"

text \<open>
  An answer that does not fit the point of suspension leaves the coroutine where it is. A Docker
  error inside \<open>_kill_and_wait\<close> is caught and refuses; in the liveness check after it, it
  escapes.
\<close>

fun reclaim_resume :: "real \<Rightarrow> reclaimer \<Rightarrow> reclaim_pc \<Rightarrow> answer \<Rightarrow> reclaimer \<times> reclaim_status"
where
  "reclaim_resume now r (WLetGo expiry) a =
     (if a = AWake \<and> rlet_go r then (r\<lparr>rheld := False\<rparr>, RDone True)
      else if a = ATimeout \<and> expiry \<le> now then (r, RDone False)
      else (r, RWait (WLetGo expiry)))"
| "reclaim_resume now r (WKill KFinal grace expiry) a =
     (case a of
        AUp True \<Rightarrow> (r, RDone False)
      | AUp False \<Rightarrow> (r\<lparr>rheld := False\<rparr>, RDone True)
      | AErr \<Rightarrow> (r, RRaise DockerError)
      | _ \<Rightarrow> (r, RWait (WKill KFinal grace expiry)))"
| "reclaim_resume now r (WKill k grace expiry) a =
     (if a = ATimeout \<and> expiry \<le> now then (r, RDone False)
      else if a = AErr \<and> awaits_docker k then (r, RDone False)
      else case kill_resume now grace k a of
             Some k' \<Rightarrow> (r, RWait (WKill k' grace expiry))
           | None \<Rightarrow> (r, RWait (WKill k grace expiry)))"

section \<open>The lease contract\<close>

text \<open>
  What the scheduler relies on: a grant leases, a \<open>forget\<close> ends the lease, a reclaim that
  reports success has ended it, and none of them changes whose lease it is.
\<close>

locale lease =
  fixes held :: "'r \<Rightarrow> bool" and owner_job :: "'r \<Rightarrow> job"
    and give :: "real \<Rightarrow> 'r \<Rightarrow> 'r" and take :: "'r \<Rightarrow> 'r"
    and resume :: "real \<Rightarrow> 'r \<Rightarrow> reclaim_pc \<Rightarrow> answer \<Rightarrow> 'r \<times> reclaim_status"
  assumes held_give [simp]: "held (give t r)"
    and held_take [simp]: "\<not> held (take r)"
    and job_give [simp]: "owner_job (give t r) = owner_job r"
    and job_take [simp]: "owner_job (take r) = owner_job r"
    and resume_done: "resume t r p a = (r', RDone True) \<Longrightarrow> \<not> held r'"
    and resume_mono: "resume t r p a = (r', st) \<Longrightarrow> held r' \<Longrightarrow> held r"
    and resume_job: "resume t r p a = (r', st) \<Longrightarrow> owner_job r' = owner_job r"
begin

fun lease_op :: "real option \<Rightarrow> 'r \<Rightarrow> 'r" where
  "lease_op (Some t) r = give t r"
| "lease_op None r = take r"

text \<open>The last word on a lease decides it.\<close>

lemma held_fold: "ops \<noteq> [] \<Longrightarrow> held (fold lease_op ops r) \<longleftrightarrow> last ops \<noteq> None"
proof (induction ops arbitrary: r rule: rev_induct)
  case (snoc x xs)
  then show ?case by (cases x) auto
qed simp

lemma job_fold: "owner_job (fold lease_op ops r) = owner_job r"
proof (induction ops arbitrary: r)
  case (Cons x xs)
  then show ?case by (cases x) auto
qed simp

text \<open>A reclaim never leases: whatever the answers, a lease that is not there stays away.\<close>

lemma not_held_resume: "\<not> held r \<Longrightarrow> \<not> held (fst (resume t r p a))"
  using resume_mono by (metis prod.collapse)

end

lemma rjob_grant [simp]: "rjob (grant t r) = rjob r"
  and rjob_forget [simp]: "rjob (forget r) = rjob r"
  and rjob_build [simp]: "rjob (build j) = j"
  and rjob_poll [simp]: "rjob (poll t r) = rjob r"
  by (simp_all add: grant_def forget_def build_def poll_def)

lemma rheld_grant [simp]: "rheld (grant t r)"
  and rheld_forget [simp]: "\<not> rheld (forget r)"
  and rheld_build [simp]: "\<not> rheld (build j)"
  and rheld_poll [simp]: "rheld (poll t r) = rheld r"
  by (simp_all add: grant_def forget_def build_def poll_def)

lemma kind_tests [simp]:
  "cooperative (grant t r) = cooperative r" "contained (grant t r) = contained r"
  "cooperative (forget r) = cooperative r" "contained (forget r) = contained r"
  "cooperative (poll t r) = cooperative r" "contained (poll t r) = contained r"
  by (simp_all add: cooperative_def contained_def)

lemma cooperative_not_contained: "cooperative r \<Longrightarrow> \<not> contained r"
  by (simp add: cooperative_def contained_def)

lemma holds_iff:
  "holds r = Some True \<longleftrightarrow> rheld r \<and> \<not> contained r"
  "holds r = Some False \<longleftrightarrow> \<not> rheld r"
  "holds r = None \<longleftrightarrow> rheld r \<and> contained r"
  by (auto simp: holds_def)

lemma reclaim_resume_fst:
  "fst (reclaim_resume now r p a) = r
   \<or> fst (reclaim_resume now r p a) = r\<lparr>rheld := False\<rparr>
     \<and> snd (reclaim_resume now r p a) = RDone True"
  by (induction now r p a rule: reclaim_resume.induct)
    (auto split: answer.splits option.splits bool.splits)

lemma reclaim_resume_rjob:
  assumes "reclaim_resume now r p a = (r', st)" shows "rjob r' = rjob r"
  using reclaim_resume_fst [of now r p a] assms by auto

lemma reclaim_resume_rheld:
  assumes "reclaim_resume now r p a = (r', st)" "rheld r'" shows "rheld r"
  using reclaim_resume_fst [of now r p a] assms by auto

lemma reclaim_resume_done:
  "reclaim_resume now r p a = (r', RDone True) \<Longrightarrow> \<not> rheld r'"
  by (induction now r p a rule: reclaim_resume.induct)
    (auto split: answer.splits option.splits bool.splits if_splits)

interpretation rl: lease rheld rjob grant forget reclaim_resume
  by unfold_locales
    (auto dest: reclaim_resume_done reclaim_resume_rheld reclaim_resume_rjob)

text \<open>
  When a cooperative reclaim reports success the job has let go; when a container's does, Docker
  has just said that the container is down.
\<close>

lemma reclaim_resume_WLetGo_done:
  "reclaim_resume now r (WLetGo e) a = (r', RDone True) \<Longrightarrow> rlet_go r \<and> a = AWake"
  by (auto split: if_splits)

lemma kill_resume_not_done:
  "k \<noteq> KFinal \<Longrightarrow> snd (reclaim_resume now r (WKill k g e) a) \<noteq> RDone True"
  by (cases k) (auto split: option.splits)

lemma reclaim_resume_WKill_done:
  "reclaim_resume now r (WKill k g e) a = (r', RDone True) \<Longrightarrow> k = KFinal \<and> a = AUp False"
  using kill_resume_not_done [of k now r g e a]
  by (cases "k = KFinal") (auto split: answer.splits bool.splits)

end
