(* ===== verification/Arbiter_Scheduler.thy ===== *)
theory Arbiter_Scheduler
  imports Arbiter_Reclaimers
begin

text \<open>
  \<open>arbiter/scheduler.py\<close>: admission to the GPU. \<open>Scheduler\<close> is the record \<open>sched\<close>; its coroutines
  are cut at their suspension points. A step runs one coroutine from where it is to its next
  suspension, which is what one turn of the event loop does; between steps any other event may
  come. \<open>acquire\<close> and \<open>reap\<close> hold \<open>self._lock\<close> from their start to their end, so at most one
  of them is suspended inside at a time (\<open>s_owner\<close>) and the others queue for the lock in order
  (\<open>s_queue\<close>, the fairness of \<open>asyncio.Lock\<close>); \<open>release\<close> takes no lock and may come at any
  suspension.

  The environment chooses the clock (\<open>Tick\<close>), what the driver reports (\<open>Gpu\<close>), what Docker
  answers and when a wait ends (\<open>Resume\<close>, \<open>ReleaseReply\<close>). The \<open>f\<close>-strings of reasons are the
  constructors of \<open>reason\<close> and \<open>detail\<close>, with what they quote as arguments.
\<close>

section \<open>State\<close>

datatype reason =
    Startup
  | Idle
  | HoldsGpu string
  | NotOutranked string string
  | CouldNotReclaim string
  | VramDidNotDrop
  | NeedsMb string int int

datatype detail = AlreadyHeld | ReclaimedFrom "string list" | NothingRunning

datatype acq_result = Granted detail | Refused reason | Raised py_error

text \<open>
  The locals of a running \<open>acquire\<close>; \<open>f_size\<close> is the size of the dict its loop iterates over,
  which the iterator compares at every step.
\<close>

record frame =
  f_job :: job
  f_timeout :: real
  f_deadline :: real
  f_stopped :: "string list"
  f_size :: nat

datatype acq_pc =
    PSelf                                       \<comment> \<open>its own \<open>holds()\<close>\<close>
  | PHolds string "string list"                 \<comment> \<open>another's \<open>holds()\<close>; the rest of the loop\<close>
  | PReclaim string "string list" reclaim_pc    \<comment> \<open>inside \<open>reclaim\<close>\<close>
  | PSettle int real real                       \<comment> \<open>last reading, end of the sleep, deadline\<close>

datatype owner =
    Free
  | Acq frame acq_pc
  | DropDead job nat        \<comment> \<open>\<open>_drop_dead_leases\<close> at this index\<close>
  | FindHolder job nat      \<comment> \<open>\<open>_holding_job\<close> at this index\<close>

datatype waiter = WaitAcquire job real | WaitReap

datatype notice_answer = NameRequired | NotCooperative | ReclaimNow bool

record sched =
  s_jobs :: "job list"
  s_recs :: "(string \<times> reclaimer) list"
  s_by_name :: "(string \<times> job) list"
  s_owner :: owner
  s_queue :: "waiter list"
  s_reason :: reason
  s_holder :: "string option"
  s_releasing :: "string list"
  s_results :: "(string \<times> acq_result) list"
  s_notices :: "(string \<times> real \<times> bool) list"
  s_told :: "(string \<times> notice_answer) list"
  s_reap_at :: "real option"
  s_now :: real
  s_total :: "int option"
  s_used :: "int option"

definition ACQUIRE_TIMEOUT :: real where "ACQUIRE_TIMEOUT = 180"
definition REAP_INTERVAL :: real where "REAP_INTERVAL = 15"
definition VRAM_SETTLE_TIMEOUT :: real where "VRAM_SETTLE_TIMEOUT = 30"
definition COOPERATIVE_STALE_AFTER :: real where "COOPERATIVE_STALE_AFTER = 120"
definition NOTICE_TIMEOUT :: real where "NOTICE_TIMEOUT = 30"

text \<open>\<open>Scheduler.__init__\<close>, at time 0 and with the reaper due at once.\<close>

definition scheduler_init :: "job list \<Rightarrow> sched" where
  "scheduler_init js = \<lparr>s_jobs = js, s_recs = map (\<lambda>j. (jname j, build j)) js,
     s_by_name = map (\<lambda>j. (jname j, j)) js, s_owner = Free, s_queue = [],
     s_reason = Startup, s_holder = None, s_releasing = [], s_results = [], s_notices = [],
     s_told = [], s_reap_at = Some 0, s_now = 0, s_total = None, s_used = None\<rparr>"

text \<open>The entry an unknown caller gets: \<open>JobConfig({"name": name, "kind": "none", "priority": 0})\<close>.\<close>

definition unknown_job :: "string \<Rightarrow> job" where
  "unknown_job n = \<lparr>jname = n, jkind = KNone, jcontainer = n, jpriority = 0, jrequired_mb = 0,
     jstop_timeout = 10\<rparr>"

text \<open>
  The two dict lookups. Both are only made for names that are in the dict (lemma
  \<open>sched_inv_lookup\<close>), so what they give for an absent one does not matter.
\<close>

definition rec_of :: "sched \<Rightarrow> string \<Rightarrow> reclaimer" where
  "rec_of s n = dget (s_recs s) n (build (unknown_job n))"

definition job_of :: "sched \<Rightarrow> string \<Rightarrow> job" where
  "job_of s n = dget (s_by_name s) n (unknown_job n)"

definition set_rec :: "string \<Rightarrow> reclaimer \<Rightarrow> sched \<Rightarrow> sched" where
  "set_rec n r s = s\<lparr>s_recs := dset n r (s_recs s)\<rparr>"

section \<open>Helpers of the class\<close>

definition job_for :: "string \<Rightarrow> sched \<Rightarrow> sched \<times> job" where
  "job_for n s =
     (case map_of (s_by_name s) n of
        Some j \<Rightarrow> (s, j)
      | None \<Rightarrow>
         let j = unknown_job n in
         (s\<lparr>s_by_name := dset n j (s_by_name s),
            s_jobs := sort_key job_rank (s_jobs s @ [j]),
            s_recs := dset n (build j) (s_recs s)\<rparr>, j))"

definition free_mb :: "sched \<Rightarrow> int option" where
  "free_mb s = (case s_total s of None \<Rightarrow> None
      | Some t \<Rightarrow> (case s_used s of None \<Rightarrow> None | Some u \<Rightarrow> Some (t - u)))"

text \<open>\<open>_fits\<close>: \<open>None\<close> when there is room, or the reason it leaves.\<close>

definition fits :: "sched \<Rightarrow> job \<Rightarrow> reason option" where
  "fits s j =
     (if jrequired_mb j = 0 then None
      else case free_mb s of
             None \<Rightarrow> None
           | Some free \<Rightarrow> if free \<ge> jrequired_mb j then None
                          else Some (NeedsMb (jname j) (jrequired_mb j) free))"

section \<open>acquire\<close>

definition finish :: "frame \<Rightarrow> acq_result \<Rightarrow> sched \<Rightarrow> sched" where
  "finish f res s = s\<lparr>s_owner := Free, s_results := s_results s @ [(jname (f_job f), res)]\<rparr>"

definition refuse :: "frame \<Rightarrow> reason \<Rightarrow> sched \<Rightarrow> sched" where
  "refuse f why s = finish f (Refused why) (s\<lparr>s_reason := why\<rparr>)"

text \<open>The end of \<open>acquire\<close>: the headroom check and the grant.\<close>

definition admit :: "frame \<Rightarrow> sched \<Rightarrow> sched" where
  "admit f s =
     (let j = f_job f; n = jname j in
      case fits s j of
        Some why \<Rightarrow> refuse f why s
      | None \<Rightarrow>
          finish f (Granted (if f_stopped f = [] then NothingRunning else ReclaimedFrom (f_stopped f)))
            ((set_rec n (grant (s_now s) (rec_of s n)) s)
               \<lparr>s_holder := Some n, s_reason := HoldsGpu n\<rparr>))"

text \<open>The head of the \<open>while\<close> of \<open>_wait_for_vram_to_settle\<close>.\<close>

definition settle_next :: "frame \<Rightarrow> int \<Rightarrow> real \<Rightarrow> sched \<Rightarrow> sched" where
  "settle_next f previous deadline s =
     (if s_now s < deadline
      then s\<lparr>s_owner := Acq f (PSettle previous (s_now s + 0.5) deadline)\<rparr>
      else refuse f VramDidNotDrop s)"

definition after_loop :: "frame \<Rightarrow> sched \<Rightarrow> sched" where
  "after_loop f s =
     (if f_stopped f = [] then admit f s
      else let timeout = max 1 (min VRAM_SETTLE_TIMEOUT (f_deadline f - s_now s)) in
           case free_mb s of
             None \<Rightarrow> admit f s
           | Some previous \<Rightarrow> settle_next f previous (s_now s + timeout) s)"

text \<open>Setting \<open>_wanted\<close> resolves every wait on it, whatever happens to the event afterwards.\<close>

definition wake_notices :: "string \<Rightarrow> sched \<Rightarrow> sched" where
  "wake_notices n s =
     s\<lparr>s_notices := map (\<lambda>(m, e, w). (m, e, w \<or> m = n)) (s_notices s)\<rparr>"

text \<open>
  What the loop body does with the state of \<open>reclaim\<close>: go on (\<open>Inr\<close>), or end or suspend (\<open>Inl\<close>).
\<close>

definition reclaim_outcome ::
  "frame \<Rightarrow> string \<Rightarrow> string list \<Rightarrow> reclaimer \<times> reclaim_status \<Rightarrow> sched \<Rightarrow> sched + sched \<times> frame"
where
  "reclaim_outcome f other rest rs s =
     (let s' = set_rec other (fst rs) s in
      case snd rs of
        RDone True \<Rightarrow> Inr (s', f\<lparr>f_stopped := f_stopped f @ [other]\<rparr>)
      | RDone False \<Rightarrow> Inl (refuse f (CouldNotReclaim other) s')
      | RRaise e \<Rightarrow> Inl (finish f (Raised e) s')
      | RWait p \<Rightarrow> Inl (s'\<lparr>s_owner := Acq f (PReclaim other rest p)\<rparr>))"

text \<open>The loop body once \<open>other\<close> is known to hold the card.\<close>

definition contend :: "frame \<Rightarrow> string \<Rightarrow> string list \<Rightarrow> sched \<Rightarrow> sched + sched \<times> frame" where
  "contend f other rest s =
     (if jpriority (job_of s other) \<ge> jpriority (f_job f)
      then Inl (refuse f (NotOutranked other (jname (f_job f))) s)
      else let r = rec_of s other;
               remaining = max 1 (f_deadline f - s_now s);
               s1 = (if cooperative r \<and> rheld r then wake_notices other s else s)
           in reclaim_outcome f other rest (reclaim_start (s_now s) remaining r) s1)"

fun acq_loop :: "frame \<Rightarrow> string list \<Rightarrow> sched \<Rightarrow> sched" where
  "acq_loop f [] s =
     (if length (s_recs s) \<noteq> f_size f then finish f (Raised RuntimeError) s else after_loop f s)"
| "acq_loop f (other # rest) s =
     (if length (s_recs s) \<noteq> f_size f then finish f (Raised RuntimeError) s
      else if other = jname (f_job f) then acq_loop f rest s
      else case holds (rec_of s other) of
             Some False \<Rightarrow> acq_loop f rest s
           | None \<Rightarrow> s\<lparr>s_owner := Acq f (PHolds other rest)\<rparr>
           | Some True \<Rightarrow>
               (case contend f other rest s of
                  Inl s' \<Rightarrow> s'
                | Inr (s', f') \<Rightarrow> acq_loop f' rest s'))"

text \<open>The entry of the loop, where the deadline is taken and the iterator made.\<close>

definition acq_enter :: "frame \<Rightarrow> sched \<Rightarrow> sched" where
  "acq_enter f s =
     acq_loop (f\<lparr>f_deadline := s_now s + f_timeout f, f_stopped := [], f_size := length (s_recs s)\<rparr>)
       (dkeys (s_recs s)) s"

definition acq_start :: "job \<Rightarrow> real \<Rightarrow> sched \<Rightarrow> sched" where
  "acq_start j timeout s =
     (let f = \<lparr>f_job = j, f_timeout = timeout, f_deadline = 0, f_stopped = [], f_size = 0\<rparr> in
      case holds (rec_of s (jname j)) of
        Some True \<Rightarrow> finish f (Granted AlreadyHeld) s
      | None \<Rightarrow> s\<lparr>s_owner := Acq f PSelf\<rparr>
      | Some False \<Rightarrow> acq_enter f s)"

fun acq_resume :: "frame \<Rightarrow> acq_pc \<Rightarrow> answer \<Rightarrow> sched \<Rightarrow> sched" where
  "acq_resume f PSelf a s =
     (case a of
        AUp True \<Rightarrow> finish f (Granted AlreadyHeld) s
      | AUp False \<Rightarrow> acq_enter f s
      | AErr \<Rightarrow> finish f (Raised DockerError) s
      | _ \<Rightarrow> s)"
| "acq_resume f (PHolds other rest) a s =
     (case a of
        AUp True \<Rightarrow> (case contend f other rest s of
                       Inl s' \<Rightarrow> s'
                     | Inr (s', f') \<Rightarrow> acq_loop f' rest s')
      | AUp False \<Rightarrow> acq_loop f rest s
      | AErr \<Rightarrow> finish f (Raised DockerError) s
      | _ \<Rightarrow> s)"
| "acq_resume f (PReclaim other rest p) a s =
     (case reclaim_outcome f other rest (reclaim_resume (s_now s) (rec_of s other) p a) s of
        Inl s' \<Rightarrow> s'
      | Inr (s', f') \<Rightarrow> acq_loop f' rest s')"
| "acq_resume f (PSettle previous wake deadline) a s =
     (if a = AWake \<and> wake \<le> s_now s
      then case free_mb s of
             None \<Rightarrow> admit f s
           | Some free \<Rightarrow> if free \<le> previous then admit f s else settle_next f free deadline s
      else s)"

section \<open>release\<close>

definition let_go :: "string \<Rightarrow> sched \<Rightarrow> sched" where
  "let_go n s =
     (let s' = set_rec n (forget (rec_of s n)) s in
      if s_holder s' = Some n then s'\<lparr>s_holder := None, s_reason := Idle\<rparr> else s')"

definition release :: "string \<Rightarrow> sched \<Rightarrow> sched" where
  "release n s =
     (let (s, j) = job_for n s in
      case holds (rec_of s (jname j)) of
        Some False \<Rightarrow> s
      | Some True \<Rightarrow> let_go (jname j) s
      | None \<Rightarrow> s\<lparr>s_releasing := s_releasing s @ [jname j]\<rparr>)"

definition release_reply :: "string \<Rightarrow> answer \<Rightarrow> sched \<Rightarrow> sched" where
  "release_reply n a s =
     (if n \<in> set (s_releasing s)
      then let s' = s\<lparr>s_releasing := remove1 n (s_releasing s)\<rparr> in
           case a of AUp True \<Rightarrow> let_go n s' | AUp False \<Rightarrow> s' | AErr \<Rightarrow> s' | _ \<Rightarrow> s
      else s)"

section \<open>reap\<close>

definition drop_lease :: "string \<Rightarrow> sched \<Rightarrow> sched" where
  "drop_lease n s = set_rec n (forget (rec_of s n)) s"

text \<open>The staleness test of a cooperative job.\<close>

definition check_stale :: "string \<Rightarrow> sched \<Rightarrow> sched" where
  "check_stale n s =
     (let r = rec_of s n in
      if cooperative r \<and> leased r \<and> seconds_since_poll (s_now s) r > COOPERATIVE_STALE_AFTER
      then drop_lease n s else s)"

text \<open>The reaper's turn is over: its result is stored and it sleeps.\<close>

definition reap_done :: "string option \<Rightarrow> sched \<Rightarrow> sched" where
  "reap_done h s =
     s\<lparr>s_holder := h,
       s_reason := (case h of Some (c # cs) \<Rightarrow> HoldsGpu (c # cs) | _ \<Rightarrow> Idle),
       s_owner := Free, s_reap_at := Some (s_now s + REAP_INTERVAL)\<rparr>"

text \<open>
  The two loops run over the live list by index; \<open>js\<close> is \<open>drop i (s_jobs s)\<close>, which a segment
  does not change.
\<close>

fun find_scan :: "nat \<Rightarrow> job list \<Rightarrow> sched \<Rightarrow> sched" where
  "find_scan i [] s = reap_done None s"
| "find_scan i (j # js) s =
     (case holds (rec_of s (jname j)) of
        Some True \<Rightarrow> reap_done (Some (jname j)) s
      | Some False \<Rightarrow> find_scan (Suc i) js s
      | None \<Rightarrow> s\<lparr>s_owner := FindHolder j i\<rparr>)"

fun drop_scan :: "nat \<Rightarrow> job list \<Rightarrow> sched \<Rightarrow> sched" where
  "drop_scan i [] s = find_scan 0 (s_jobs s) s"
| "drop_scan i (j # js) s =
     (if leased (rec_of s (jname j))
      then case holds (rec_of s (jname j)) of
             None \<Rightarrow> s\<lparr>s_owner := DropDead j i\<rparr>
           | Some False \<Rightarrow> drop_scan (Suc i) js (drop_lease (jname j) s)
           | Some True \<Rightarrow> drop_scan (Suc i) js (check_stale (jname j) s)
      else drop_scan (Suc i) js (check_stale (jname j) s))"

text \<open>\<open>run_forever\<close> logs an error of \<open>reap\<close> and sleeps; the lock is left as for any other exit.\<close>

definition reap_failed :: "sched \<Rightarrow> sched" where
  "reap_failed s = s\<lparr>s_owner := Free, s_reap_at := Some (s_now s + REAP_INTERVAL)\<rparr>"

definition drop_resume :: "job \<Rightarrow> nat \<Rightarrow> answer \<Rightarrow> sched \<Rightarrow> sched" where
  "drop_resume j i a s =
     (case a of
        AUp True \<Rightarrow> drop_scan (Suc i) (drop (Suc i) (s_jobs s)) (check_stale (jname j) s)
      | AUp False \<Rightarrow> drop_scan (Suc i) (drop (Suc i) (s_jobs s)) (drop_lease (jname j) s)
      | AErr \<Rightarrow> reap_failed s
      | _ \<Rightarrow> s)"

definition find_resume :: "job \<Rightarrow> nat \<Rightarrow> answer \<Rightarrow> sched \<Rightarrow> sched" where
  "find_resume j i a s =
     (case a of
        AUp True \<Rightarrow> reap_done (Some (jname j)) s
      | AUp False \<Rightarrow> find_scan (Suc i) (drop (Suc i) (s_jobs s)) s
      | AErr \<Rightarrow> reap_failed s
      | _ \<Rightarrow> s)"

section \<open>reclaim-notice\<close>

text \<open>\<open>gpu_reclaim_notice\<close> of \<open>arbiter/main.py\<close> up to its suspension in \<open>wait_until_wanted\<close>.\<close>

definition gpu_reclaim_notice :: "string \<Rightarrow> sched \<Rightarrow> sched" where
  "gpu_reclaim_notice n s =
     (let told = (\<lambda>x s. s\<lparr>s_told := s_told s @ [(n, x)]\<rparr>) in
      if n = [] then told NameRequired s
      else case map_of (s_recs s) n of
             None \<Rightarrow> told NotCooperative s
           | Some r \<Rightarrow>
               if \<not> cooperative r then told NotCooperative s
               else if \<not> leased r then told (ReclaimNow True) s
               else let s' = set_rec n (poll (s_now s) r) s in
                    if rwanted r then told (ReclaimNow True) s'
                    else s'\<lparr>s_notices := s_notices s' @ [(n, s_now s + NOTICE_TIMEOUT, False)]\<rparr>)"

text \<open>A wait ends: woken, or past its time; the \<open>finally\<close> of the wait notes the poll.\<close>

fun notice_ends :: "real \<Rightarrow> string \<Rightarrow> (string \<times> real \<times> bool) list
  \<Rightarrow> (bool \<times> (string \<times> real \<times> bool) list) option" where
  "notice_ends now n [] = None"
| "notice_ends now n ((m, e, w) # ws) =
     (if m = n \<and> (w \<or> e \<le> now) then Some (w, ws)
      else map_option (\<lambda>(x, ws'). (x, (m, e, w) # ws')) (notice_ends now n ws))"

definition notice_end :: "string \<Rightarrow> sched \<Rightarrow> sched" where
  "notice_end n s =
     (case notice_ends (s_now s) n (s_notices s) of
        None \<Rightarrow> s
      | Some (w, ws) \<Rightarrow>
          (set_rec n (poll (s_now s) (rec_of s n)) s)
            \<lparr>s_notices := ws, s_told := s_told s @ [(n, ReclaimNow w)]\<rparr>)"

section \<open>The machine\<close>

text \<open>The first waiter takes the free lock.\<close>

definition lock_next :: "sched \<Rightarrow> sched" where
  "lock_next s =
     (if s_owner s \<noteq> Free then s
      else case s_queue s of
             [] \<Rightarrow> s
           | WaitAcquire j timeout # ws \<Rightarrow> acq_start j timeout (s\<lparr>s_queue := ws\<rparr>)
           | WaitReap # ws \<Rightarrow> (let s' = s\<lparr>s_queue := ws\<rparr> in drop_scan 0 (s_jobs s') s'))"

definition acquire :: "string \<Rightarrow> real option \<Rightarrow> sched \<Rightarrow> sched" where
  "acquire n timeout s =
     (let timeout = (case timeout of None \<Rightarrow> ACQUIRE_TIMEOUT | Some t \<Rightarrow> t);
          (s, j) = job_for n s
      in lock_next (s\<lparr>s_queue := s_queue s @ [WaitAcquire j timeout]\<rparr>))"

text \<open>One turn of \<open>run_forever\<close>, when its sleep is over.\<close>

definition reap :: "sched \<Rightarrow> sched" where
  "reap s =
     (case s_reap_at s of
        None \<Rightarrow> s
      | Some t \<Rightarrow> if t \<le> s_now s
                  then lock_next (s\<lparr>s_reap_at := None, s_queue := s_queue s @ [WaitReap]\<rparr>) else s)"

definition resume :: "answer \<Rightarrow> sched \<Rightarrow> sched" where
  "resume a s =
     (case s_owner s of
        Free \<Rightarrow> s
      | Acq f pc \<Rightarrow> acq_resume f pc a s
      | DropDead j i \<Rightarrow> drop_resume j i a s
      | FindHolder j i \<Rightarrow> find_resume j i a s)"

datatype event =
    Acquire string "real option"
  | Release string
  | Reap
  | LockNext
  | Resume answer
  | ReleaseReply string answer
  | Notice string
  | NoticeEnd string
  | Tick real
  | Gpu "int option" "int option"

fun sched_step :: "event \<Rightarrow> sched \<Rightarrow> sched" where
  "sched_step (Acquire n t) s = acquire n t s"
| "sched_step (Release n) s = release n s"
| "sched_step Reap s = reap s"
| "sched_step LockNext s = lock_next s"
| "sched_step (Resume a) s = resume a s"
| "sched_step (ReleaseReply n a) s = release_reply n a s"
| "sched_step (Notice n) s = gpu_reclaim_notice n s"
| "sched_step (NoticeEnd n) s = notice_end n s"
| "sched_step (Tick d) s = (if d \<ge> 0 then s\<lparr>s_now := s_now s + d\<rparr> else s)"
| "sched_step (Gpu t u) s = s\<lparr>s_total := t, s_used := u\<rparr>"

definition sched_run :: "event list \<Rightarrow> sched \<Rightarrow> sched" where
  "sched_run es s = fold sched_step es s"

end
