(* ===== verification/Arbiter_Leases.thy ===== *)
theory Arbiter_Leases
  imports Arbiter_Scheduler
begin

text \<open>
  The lease discipline of the scheduler: what every operation does to the table of reclaimers,
  the invariant all of them keep, and what follows for the holders of the card.
\<close>

section \<open>The table as a function of the name\<close>

lemma rec_of_simps [simp]:
  "rec_of (s\<lparr>s_owner := x1\<rparr>) n = rec_of s n"
  "rec_of (s\<lparr>s_queue := x2\<rparr>) n = rec_of s n"
  "rec_of (s\<lparr>s_reason := x3\<rparr>) n = rec_of s n"
  "rec_of (s\<lparr>s_holder := x4\<rparr>) n = rec_of s n"
  "rec_of (s\<lparr>s_releasing := x5\<rparr>) n = rec_of s n"
  "rec_of (s\<lparr>s_results := x6\<rparr>) n = rec_of s n"
  "rec_of (s\<lparr>s_notices := x7\<rparr>) n = rec_of s n"
  "rec_of (s\<lparr>s_told := x8\<rparr>) n = rec_of s n"
  "rec_of (s\<lparr>s_reap_at := x9\<rparr>) n = rec_of s n"
  "rec_of (s\<lparr>s_now := x10\<rparr>) n = rec_of s n"
  "rec_of (s\<lparr>s_total := x11\<rparr>) n = rec_of s n"
  "rec_of (s\<lparr>s_used := x12\<rparr>) n = rec_of s n"
  by (simp_all add: rec_of_def)

lemma job_of_simps [simp]:
  "job_of (s\<lparr>s_owner := x1\<rparr>) n = job_of s n"
  "job_of (s\<lparr>s_queue := x2\<rparr>) n = job_of s n"
  "job_of (s\<lparr>s_reason := x3\<rparr>) n = job_of s n"
  "job_of (s\<lparr>s_holder := x4\<rparr>) n = job_of s n"
  "job_of (s\<lparr>s_releasing := x5\<rparr>) n = job_of s n"
  "job_of (s\<lparr>s_results := x6\<rparr>) n = job_of s n"
  "job_of (s\<lparr>s_notices := x7\<rparr>) n = job_of s n"
  "job_of (s\<lparr>s_told := x8\<rparr>) n = job_of s n"
  "job_of (s\<lparr>s_reap_at := x9\<rparr>) n = job_of s n"
  "job_of (s\<lparr>s_now := x10\<rparr>) n = job_of s n"
  "job_of (s\<lparr>s_total := x11\<rparr>) n = job_of s n"
  "job_of (s\<lparr>s_used := x12\<rparr>) n = job_of s n"
  by (simp_all add: job_of_def)

lemma rec_of_set_rec [simp]: "rec_of (set_rec m r s) n = (if n = m then r else rec_of s n)"
  by (simp add: rec_of_def set_rec_def dget_def)

lemma set_rec_fields [simp]:
  "job_of (set_rec m r s) n = job_of s n"
  "s_owner (set_rec m r s) = s_owner s" "s_now (set_rec m r s) = s_now s"
  "s_jobs (set_rec m r s) = s_jobs s" "s_by_name (set_rec m r s) = s_by_name s"
  "s_results (set_rec m r s) = s_results s" "s_holder (set_rec m r s) = s_holder s"
  "s_notices (set_rec m r s) = s_notices s" "s_queue (set_rec m r s) = s_queue s"
  "s_reason (set_rec m r s) = s_reason s" "s_total (set_rec m r s) = s_total s"
  "s_used (set_rec m r s) = s_used s" "s_releasing (set_rec m r s) = s_releasing s"
  by (simp_all add: set_rec_def job_of_def)

lemma wake_notices_simps [simp]:
  "rec_of (wake_notices m s) n = rec_of s n" "job_of (wake_notices m s) n = job_of s n"
  "s_owner (wake_notices m s) = s_owner s" "s_recs (wake_notices m s) = s_recs s"
  "s_results (wake_notices m s) = s_results s" "s_now (wake_notices m s) = s_now s"
  by (simp_all add: wake_notices_def)

text \<open>An unknown caller's entry is what the lookups give for an absent name.\<close>

lemma job_for_rec_of [simp]:
  "rec_of (fst (job_for m s)) n = (if n = m \<and> map_of (s_by_name s) m = None
     then build (unknown_job m) else rec_of s n)"
  by (auto simp: job_for_def rec_of_def dget_def Let_def split: option.splits)

lemma job_for_fields [simp]:
  "s_owner (fst (job_for m s)) = s_owner s" "s_results (fst (job_for m s)) = s_results s"
  "s_queue (fst (job_for m s)) = s_queue s" "s_now (fst (job_for m s)) = s_now s"
  "s_reason (fst (job_for m s)) = s_reason s" "s_holder (fst (job_for m s)) = s_holder s"
  "job_of (fst (job_for m s)) n = job_of s n" "snd (job_for m s) = job_of s m"
  by (auto simp: job_for_def job_of_def dget_def Let_def split: option.splits)

section \<open>The table invariant\<close>

text \<open>
  The three collections agree: the same names, each entry under its own name, each reclaimer
  built for the job of its name, and the job list in rank order.
\<close>

definition table_ok :: "sched \<Rightarrow> bool" where
  "table_ok s \<longleftrightarrow> dict_ok (s_recs s) \<and> dkeys (s_by_name s) = dkeys (s_recs s)
     \<and> (\<forall>n. jname (job_of s n) = n \<and> rjob (rec_of s n) = job_of s n)
     \<and> jname ` set (s_jobs s) = fst ` set (s_recs s)
     \<and> distinct (map jname (s_jobs s)) \<and> sorted (map job_rank (s_jobs s))"

lemma table_ok_absent: "table_ok s \<Longrightarrow> map_of (s_by_name s) m = None \<longleftrightarrow> map_of (s_recs s) m = None"
  unfolding table_ok_def dkeys_def map_of_eq_None_iff
  by (metis list.set_map)

lemma dset_present: "k \<in> fst ` set d \<Longrightarrow> map fst (dset k v d) = map fst d"
  by (induction k v d rule: dset.induct) auto

lemma dset_keys: "map fst (dset k v d) = (if k \<in> fst ` set d then map fst d else map fst d @ [k])"
  by (simp add: dset_present dset_absent)

text \<open>The names an operation may store under are those of the table.\<close>

lemma table_ok_set_rec:
  assumes "table_ok s" "m \<in> fst ` set (s_recs s)" "rjob r = rjob (rec_of s m)"
  shows "table_ok (set_rec m r s)"
proof -
  have "rec_of (s\<lparr>s_recs := dset m r (s_recs s)\<rparr>) n = (if n = m then r else rec_of s n)"
    and "job_of (s\<lparr>s_recs := dset m r (s_recs s)\<rparr>) n = job_of s n" for n
    by (simp_all add: rec_of_def job_of_def dget_def)
  with assms show ?thesis
    by (auto simp: table_ok_def set_rec_def dkeys_def dset_present)
qed

lemma table_ok_job_for:
  assumes t: "table_ok s" shows "table_ok (fst (job_for m s))"
proof (cases "map_of (s_by_name s) m")
  case (Some j)
  then show ?thesis using t by (simp add: job_for_def)
next
  case None
  then have n: "m \<notin> fst ` set (s_recs s)"
    using table_ok_absent [OF t] by (simp add: map_of_eq_None_iff)
  then have nj: "m \<notin> jname ` set (s_jobs s)" and nb: "m \<notin> fst ` set (s_by_name s)"
    using t None by (auto simp: table_ok_def map_of_eq_None_iff)
  let ?js = "sort_key job_rank (s_jobs s @ [unknown_job m])"
  have "mset (map jname ?js) = mset (map jname (s_jobs s @ [unknown_job m]))"
    by simp
  moreover have "distinct (map jname (s_jobs s @ [unknown_job m]))"
    using t nj by (simp add: table_ok_def unknown_job_def)
  ultimately have d: "distinct (map jname ?js)"
    by (metis mset_eq_imp_distinct_iff)
  have r: "rec_of (fst (job_for m s)) n = (if n = m then build (unknown_job m) else rec_of s n)" for n
    using None by simp
  have j: "job_of s m = unknown_job m"
    using None by (simp add: job_of_def dget_def)
  have f: "s_recs (fst (job_for m s)) = dset m (build (unknown_job m)) (s_recs s)"
    "s_by_name (fst (job_for m s)) = dset m (unknown_job m) (s_by_name s)"
    "s_jobs (fst (job_for m s)) = ?js"
    using None by (simp_all add: job_for_def Let_def)
  have "jname ` set ?js = insert m (jname ` set (s_jobs s))"
    by (simp add: unknown_job_def)
  then show ?thesis
    using t d n nb j unfolding table_ok_def f
    by (auto simp: r dkeys_def dset_absent dict_ok_def unknown_job_def)
qed

section \<open>The lease invariant\<close>

definition keys :: "sched \<Rightarrow> string set" where
  "keys s = fst ` set (s_recs s)"

text \<open>A lease that is not subject to a container's liveness.\<close>

definition nc_leased :: "sched \<Rightarrow> string \<Rightarrow> bool" where
  "nc_leased s n \<longleftrightarrow> rheld (rec_of s n) \<and> \<not> contained (rec_of s n)"

definition coop_ok :: "reclaimer \<Rightarrow> bool" where
  "coop_ok r \<longleftrightarrow> (cooperative r \<and> rheld r \<longrightarrow> \<not> rlet_go r)"

definition one_holder :: "sched \<Rightarrow> bool" where
  "one_holder s \<longleftrightarrow> (\<forall>m n. nc_leased s m \<and> nc_leased s n \<longrightarrow> m = n)"

definition waiter_ok :: "sched \<Rightarrow> waiter \<Rightarrow> bool" where
  "waiter_ok s w = (case w of WaitAcquire j t \<Rightarrow> jname j \<in> keys s \<and> j = job_of s (jname j)
                            | WaitReap \<Rightarrow> True)"

definition core_ok :: "sched \<Rightarrow> bool" where
  "core_ok s \<longleftrightarrow> table_ok s \<and> (\<forall>w\<in>set (s_queue s). waiter_ok s w)
     \<and> set (s_releasing s) \<subseteq> keys s \<and> fst ` set (s_notices s) \<subseteq> keys s
     \<and> (\<forall>n. coop_ok (rec_of s n)) \<and> one_holder s"

text \<open>
  While \<open>acquire\<close> runs, every such lease belongs to a job its loop has still to visit, and none
  is its own.
\<close>

definition covers :: "frame \<Rightarrow> string list \<Rightarrow> sched \<Rightarrow> bool" where
  "covers f rest s \<longleftrightarrow> set rest \<subseteq> keys s
     \<and> (\<forall>n. nc_leased s n \<longrightarrow> n \<in> set rest \<and> n \<noteq> jname (f_job f))"

definition frame_ok :: "frame \<Rightarrow> sched \<Rightarrow> bool" where
  "frame_ok f s \<longleftrightarrow> jname (f_job f) \<in> keys s \<and> f_job f = job_of s (jname (f_job f))"

definition outranked :: "frame \<Rightarrow> string \<Rightarrow> sched \<Rightarrow> bool" where
  "outranked f other s \<longleftrightarrow> jpriority (job_of s other) < jpriority (f_job f)"

fun pc_ok :: "frame \<Rightarrow> acq_pc \<Rightarrow> sched \<Rightarrow> bool" where
  "pc_ok f PSelf s = contained (rec_of s (jname (f_job f)))"
| "pc_ok f (PHolds other rest) s = (contained (rec_of s other) \<and> other \<in> keys s
     \<and> other \<noteq> jname (f_job f) \<and> covers f rest s)"
| "pc_ok f (PReclaim other rest p) s = (outranked f other s \<and> other \<noteq> jname (f_job f)
     \<and> covers f (other # rest) s
     \<and> (case p of WLetGo e \<Rightarrow> cooperative (rec_of s other) | WKill k g e \<Rightarrow> contained (rec_of s other)))"
| "pc_ok f (PSettle v w d) s = covers f [] s"

fun owner_ok :: "owner \<Rightarrow> sched \<Rightarrow> bool" where
  "owner_ok Free s = True"
| "owner_ok (Acq f pc) s = (frame_ok f s \<and> pc_ok f pc s)"
| "owner_ok (DropDead j i) s = (jname j \<in> keys s \<and> contained (rec_of s (jname j)))"
| "owner_ok (FindHolder j i) s = True"

definition sched_inv :: "sched \<Rightarrow> bool" where
  "sched_inv s \<longleftrightarrow> core_ok s \<and> owner_ok (s_owner s) s"

subsection \<open>What an update leaves alone\<close>

lemma keys_simps [simp]:
  "keys (s\<lparr>s_owner := x1\<rparr>) = keys s" "keys (s\<lparr>s_queue := x2\<rparr>) = keys s"
  "keys (s\<lparr>s_reason := x3\<rparr>) = keys s" "keys (s\<lparr>s_holder := x4\<rparr>) = keys s"
  "keys (s\<lparr>s_releasing := x5\<rparr>) = keys s" "keys (s\<lparr>s_results := x6\<rparr>) = keys s"
  "keys (s\<lparr>s_notices := x7\<rparr>) = keys s" "keys (s\<lparr>s_told := x8\<rparr>) = keys s"
  "keys (s\<lparr>s_reap_at := x9\<rparr>) = keys s" "keys (s\<lparr>s_now := x10\<rparr>) = keys s"
  "keys (s\<lparr>s_total := x11\<rparr>) = keys s" "keys (s\<lparr>s_used := x12\<rparr>) = keys s"
  "keys (set_rec m r s) = insert m (keys s)"
  by (simp_all add: keys_def set_rec_def)

lemma core_ok_simps [simp]:
  "core_ok (s\<lparr>s_owner := x1\<rparr>) = core_ok s" "core_ok (s\<lparr>s_reason := x3\<rparr>) = core_ok s"
  "core_ok (s\<lparr>s_holder := x4\<rparr>) = core_ok s" "core_ok (s\<lparr>s_results := x6\<rparr>) = core_ok s"
  "core_ok (s\<lparr>s_told := x8\<rparr>) = core_ok s" "core_ok (s\<lparr>s_reap_at := x9\<rparr>) = core_ok s"
  "core_ok (s\<lparr>s_now := x10\<rparr>) = core_ok s" "core_ok (s\<lparr>s_total := x11\<rparr>) = core_ok s"
  "core_ok (s\<lparr>s_used := x12\<rparr>) = core_ok s"
  by (simp_all add: core_ok_def table_ok_def waiter_ok_def one_holder_def nc_leased_def
      cong: waiter.case_cong)

lemma covers_simps [simp]:
  "covers f rest (s\<lparr>s_owner := x1\<rparr>) = covers f rest s"
  "covers f rest (s\<lparr>s_reason := x3\<rparr>) = covers f rest s"
  "covers (f\<lparr>f_stopped := xs\<rparr>) rest s = covers f rest s"
  "covers (f\<lparr>f_deadline := d\<rparr>) rest s = covers f rest s"
  "covers (f\<lparr>f_size := l\<rparr>) rest s = covers f rest s"
  "frame_ok f (s\<lparr>s_owner := x1\<rparr>) = frame_ok f s"
  "frame_ok (f\<lparr>f_stopped := xs\<rparr>) s = frame_ok f s"
  "frame_ok (f\<lparr>f_deadline := d\<rparr>) s = frame_ok f s"
  "frame_ok (f\<lparr>f_size := l\<rparr>) s = frame_ok f s"
  "outranked f other (s\<lparr>s_owner := x1\<rparr>) = outranked f other s"
  by (simp_all add: covers_def nc_leased_def frame_ok_def outranked_def)

text \<open>
  The general preservation lemma: a state whose keys grew, whose leases not subject to liveness
  shrank, and where nothing else the invariant reads changed.
\<close>

definition eases :: "sched \<Rightarrow> sched \<Rightarrow> bool" where
  "eases s s' \<longleftrightarrow> keys s \<subseteq> keys s' \<and> (\<forall>n. job_of s' n = job_of s n)
     \<and> (\<forall>n. rjob (rec_of s' n) = rjob (rec_of s n)) \<and> (\<forall>n. nc_leased s' n \<longrightarrow> nc_leased s n)"

lemma eases_refl [simp]: "eases s s"
  by (simp add: eases_def)

lemma eases_contained: "eases s s' \<Longrightarrow> contained (rec_of s' n) = contained (rec_of s n)"
  by (simp add: eases_def contained_def)

lemma eases_cooperative: "eases s s' \<Longrightarrow> cooperative (rec_of s' n) = cooperative (rec_of s n)"
  by (simp add: eases_def cooperative_def)

lemma eases_covers: "eases s s' \<Longrightarrow> covers f rest s \<Longrightarrow> covers f rest s'"
  unfolding eases_def covers_def by blast

lemma eases_frame: "eases s s' \<Longrightarrow> frame_ok f s \<Longrightarrow> frame_ok f s'"
  unfolding eases_def frame_ok_def by auto

lemma eases_keys: "eases s s' \<Longrightarrow> n \<in> keys s \<Longrightarrow> n \<in> keys s'"
  unfolding eases_def by auto

lemma eases_outranked: "eases s s' \<Longrightarrow> outranked f other s' = outranked f other s"
  by (simp add: eases_def outranked_def)

lemma eases_pc: "eases s s' \<Longrightarrow> pc_ok f pc s \<Longrightarrow> pc_ok f pc s'"
  by (cases pc)
    (auto simp: eases_contained eases_cooperative eases_covers eases_keys eases_outranked
      split: reclaim_pc.splits)

lemma eases_owner: "eases s s' \<Longrightarrow> owner_ok x s \<Longrightarrow> owner_ok x s'"
  by (cases x) (auto simp: eases_pc eases_frame eases_keys eases_contained)

subsection \<open>Storing a reclaimer\<close>

lemma core_ok_lookup:
  assumes "core_ok s" shows "jname (job_of s n) = n" "rjob (rec_of s n) = job_of s n"
  using assms by (auto simp: core_ok_def table_ok_def)

lemma core_ok_coop: "core_ok s \<Longrightarrow> coop_ok (rec_of s n)"
  by (simp add: core_ok_def)

lemma core_set_rec:
  assumes c: "core_ok s" and m: "m \<in> keys s" and j: "rjob r = rjob (rec_of s m)"
    and k: "coop_ok r" and o: "one_holder (set_rec m r s)"
  shows "core_ok (set_rec m r s)"
proof -
  have "table_ok (set_rec m r s)"
    using c m j by (intro table_ok_set_rec) (simp_all add: core_ok_def keys_def)
  with c k o show ?thesis
    by (auto simp: core_ok_def waiter_ok_def split: waiter.splits)
qed

lemma nc_leased_set_rec:
  "nc_leased (set_rec m r s) n = (if n = m then rheld r \<and> \<not> contained r else nc_leased s n)"
  by (simp add: nc_leased_def)

lemma one_holder_mono: "one_holder s \<Longrightarrow> (\<And>n. nc_leased s' n \<Longrightarrow> nc_leased s n) \<Longrightarrow> one_holder s'"
  unfolding one_holder_def by blast

lemma core_shrink:
  assumes "core_ok s" "m \<in> keys s" "rjob r = rjob (rec_of s m)" "coop_ok r"
    "rheld r \<Longrightarrow> rheld (rec_of s m)"
  shows "core_ok (set_rec m r s)" "eases s (set_rec m r s)"
proof -
  have "contained r = contained (rec_of s m)"
    using assms by (simp add: contained_def)
  then have n: "nc_leased (set_rec m r s) n \<Longrightarrow> nc_leased s n" for n
    using assms(5) by (simp add: nc_leased_def split: if_splits)
  have "one_holder s" using assms by (simp add: core_ok_def)
  then have "one_holder (set_rec m r s)" using n by (rule one_holder_mono)
  with assms show "core_ok (set_rec m r s)" by (intro core_set_rec)
  show "eases s (set_rec m r s)"
    using assms n by (auto simp: eases_def)
qed

lemma core_grant:
  assumes c: "core_ok s" and m: "m \<in> keys s" and n: "\<And>n. nc_leased s n \<Longrightarrow> n = m"
  shows "core_ok (set_rec m (grant t (rec_of s m)) s)"
proof (rule core_set_rec [OF c m])
  show "coop_ok (grant t (rec_of s m))"
    by (auto simp: coop_ok_def grant_def cooperative_def)
  show "one_holder (set_rec m (grant t (rec_of s m)) s)"
    using n by (auto simp: one_holder_def nc_leased_set_rec split: if_splits)
qed simp

lemma coop_ok_forget [simp]: "coop_ok (forget r)"
  by (simp add: coop_ok_def)

lemma coop_ok_poll [simp]: "coop_ok (poll t r) = coop_ok r"
  by (simp add: coop_ok_def poll_def cooperative_def)

lemma coop_ok_wanted [simp]: "coop_ok (r\<lparr>rwanted := b\<rparr>) = coop_ok r"
  by (simp add: coop_ok_def cooperative_def)

lemma coop_ok_unheld [simp]: "\<not> rheld r \<Longrightarrow> coop_ok r"
  by (simp add: coop_ok_def)

subsection \<open>acquire\<close>

lemma core_finish [simp]: "core_ok (finish f res s) = core_ok s"
  by (simp add: finish_def)

lemma core_refuse [simp]: "core_ok (refuse f why s) = core_ok s"
  by (simp add: refuse_def)

lemma inv_finish: "core_ok s \<Longrightarrow> sched_inv (finish f res s)"
  by (simp add: sched_inv_def finish_def)

lemma inv_refuse: "core_ok s \<Longrightarrow> sched_inv (refuse f why s)"
  by (simp add: refuse_def inv_finish)

lemma inv_suspend: "core_ok s \<Longrightarrow> frame_ok f s \<Longrightarrow> pc_ok f pc s
    \<Longrightarrow> sched_inv (s\<lparr>s_owner := Acq f pc\<rparr>)"
  using eases_pc [of s "s\<lparr>s_owner := Acq f pc\<rparr>" f pc]
  by (simp add: sched_inv_def eases_def nc_leased_def)

lemma inv_admit:
  assumes "core_ok s" "frame_ok f s" "covers f [] s" shows "sched_inv (admit f s)"
proof -
  have "core_ok (set_rec (jname (f_job f)) (grant (s_now s) (rec_of s (jname (f_job f)))) s)"
    using assms by (intro core_grant) (auto simp: frame_ok_def covers_def)
  with assms show ?thesis
    by (auto simp: admit_def Let_def inv_refuse inv_finish split: option.splits)
qed

lemma inv_settle_next:
  "core_ok s \<Longrightarrow> frame_ok f s \<Longrightarrow> covers f [] s \<Longrightarrow> sched_inv (settle_next f v d s)"
  by (simp add: settle_next_def inv_refuse inv_suspend)

lemma inv_after_loop:
  "core_ok s \<Longrightarrow> frame_ok f s \<Longrightarrow> covers f [] s \<Longrightarrow> sched_inv (after_loop f s)"
  by (simp add: after_loop_def inv_admit inv_settle_next split: option.splits)

text \<open>Both calls of \<open>reclaim\<close> give a reclaimer that the table may take.\<close>

definition reclaim_result_ok :: "frame \<Rightarrow> string \<Rightarrow> reclaimer \<times> reclaim_status \<Rightarrow> sched \<Rightarrow> bool" where
  "reclaim_result_ok f other rs s \<longleftrightarrow>
     rjob (fst rs) = rjob (rec_of s other) \<and> coop_ok (fst rs)
     \<and> (rheld (fst rs) \<longrightarrow> rheld (rec_of s other))
     \<and> (snd rs = RDone True \<longrightarrow> \<not> rheld (fst rs))
     \<and> (\<forall>p. snd rs = RWait p \<longrightarrow> (case p of WLetGo e \<Rightarrow> cooperative (rec_of s other)
                                         | WKill k g e \<Rightarrow> contained (rec_of s other)))"

text \<open>The loop goes on only with the invariant, and with one name fewer to cover.\<close>

definition step_ok :: "frame \<Rightarrow> string list \<Rightarrow> sched + sched \<times> frame \<Rightarrow> bool" where
  "step_ok f rest x = (case x of Inl s' \<Rightarrow> sched_inv s'
     | Inr (s', f') \<Rightarrow> core_ok s' \<and> frame_ok f' s' \<and> covers f' rest s')"

lemma reclaim_outcome_ok:
  assumes c: "core_ok s" and f: "frame_ok f s" and v: "covers f (other # rest) s"
    and o: "outranked f other s" "other \<noteq> jname (f_job f)"
    and r: "reclaim_result_ok f other rs s"
  shows "step_ok f rest (reclaim_outcome f other rest rs s)"
proof -
  let ?s = "set_rec other (fst rs) s"
  have m: "other \<in> keys s" using v by (simp add: covers_def)
  have s: "core_ok ?s" "eases s ?s"
    using core_shrink [OF c m, of "fst rs"] r by (simp_all add: reclaim_result_ok_def)
  have f': "frame_ok f ?s" and v': "covers f (other # rest) ?s"
    using s f v by (auto intro: eases_frame eases_covers)
  have gone: "covers f rest ?s" if "snd rs = RDone True"
    using v' r that by (auto simp: covers_def reclaim_result_ok_def nc_leased_set_rec split: if_splits)
  have kinds: "cooperative (rec_of ?s n) = cooperative (rec_of s n)"
    "contained (rec_of ?s n) = contained (rec_of s n)" for n
    using s(2) by (simp_all only: eases_cooperative eases_contained)
  show ?thesis
  proof (cases "snd rs")
    case (RWait p)
    then have "pc_ok f (PReclaim other rest p) ?s"
      using r o v' eases_outranked [OF s(2)] kinds
      by (auto simp: reclaim_result_ok_def simp del: rec_of_set_rec split: reclaim_pc.splits)
    then show ?thesis
      using RWait s f' by (simp add: step_ok_def reclaim_outcome_def Let_def inv_suspend)
  next
    case (RDone b)
    then show ?thesis
      using s f' gone
      by (cases b) (auto simp: step_ok_def reclaim_outcome_def Let_def intro!: inv_refuse)
  next
    case (RRaise e)
    then show ?thesis
      using s by (simp add: step_ok_def reclaim_outcome_def Let_def inv_finish)
  qed
qed

declare reclaim_start.simps [simp del]

lemma reclaim_start_ok:
  assumes "coop_ok (rec_of s other)"
  shows "reclaim_result_ok f other (reclaim_start now t (rec_of s other)) s"
  using assms unfolding reclaim_result_ok_def
  by (cases "jkind (rjob (rec_of s other))")
    (auto simp: reclaim_start.simps coop_ok_def cooperative_def contained_def split: if_splits)

lemma reclaim_resume_ok:
  assumes "coop_ok (rec_of s other)" "pc_ok f (PReclaim other rest p) s"
  shows "reclaim_result_ok f other (reclaim_resume now (rec_of s other) p a) s"
proof -
  let ?x = "reclaim_resume now (rec_of s other) p a"
  have "snd ?x = RWait q \<Longrightarrow> (case q of WLetGo e \<Rightarrow> cooperative (rec_of s other)
      | WKill k g e \<Rightarrow> contained (rec_of s other))" for q
    using assms(2)
    by (cases "(now, rec_of s other, p, a)" rule: reclaim_resume.cases)
      (auto split: answer.splits bool.splits option.splits if_splits)
  then show ?thesis
    using reclaim_resume_fst [of now "rec_of s other" p a] assms(1)
      reclaim_resume_done [of now "rec_of s other" p a "fst ?x"]
    by (auto simp: reclaim_result_ok_def) (metis prod.collapse)+
qed

lemma contend_ok:
  assumes c: "core_ok s" and f: "frame_ok f s" and v: "covers f (other # rest) s"
    and o: "other \<noteq> jname (f_job f)"
  shows "step_ok f rest (contend f other rest s)"
proof (cases "jpriority (job_of s other) \<ge> jpriority (f_job f)")
  case True
  then show ?thesis using c by (simp add: contend_def step_ok_def inv_refuse)
next
  case False
  define s1 where "s1 = (if cooperative (rec_of s other) \<and> rheld (rec_of s other)
    then wake_notices other s else s)"
  have k: "fst ` set (s_notices (wake_notices other s)) = fst ` set (s_notices s)"
    unfolding wake_notices_def by force
  have w: "core_ok (wake_notices other s)"
    using c k unfolding core_ok_def table_ok_def waiter_ok_def one_holder_def nc_leased_def keys_def
    by (simp add: wake_notices_def cong: waiter.case_cong)
  have s1: "core_ok s1" "frame_ok f s1" "covers f (other # rest) s1"
    using c f v w by (auto simp: s1_def frame_ok_def covers_def keys_def nc_leased_def)
  have r: "rec_of s1 n = rec_of s n" for n by (simp add: s1_def)
  have "outranked f other s1" using False by (simp add: outranked_def s1_def)
  moreover have "reclaim_result_ok f other
      (reclaim_start (s_now s) (max 1 (f_deadline f - s_now s)) (rec_of s other)) s1"
    using reclaim_start_ok [of s1 other] core_ok_coop [OF c] by (simp add: r)
  ultimately have "step_ok f rest (reclaim_outcome f other rest
      (reclaim_start (s_now s) (max 1 (f_deadline f - s_now s)) (rec_of s other)) s1)"
    using s1 o by (intro reclaim_outcome_ok)
  then show ?thesis using False by (simp add: contend_def Let_def s1_def)
qed

lemma covers_skip:
  "covers f (other # rest) s \<Longrightarrow> \<not> nc_leased s other \<Longrightarrow> covers f rest s"
  by (auto simp: covers_def)

lemma acq_loop_inv:
  "core_ok s \<Longrightarrow> frame_ok f s \<Longrightarrow> covers f rest s \<Longrightarrow> sched_inv (acq_loop f rest s)"
proof (induction rest arbitrary: f s)
  case Nil
  then show ?case by (simp add: inv_finish inv_after_loop)
next
  case (Cons other rest)
  note c = Cons.prems
  have m: "other \<in> keys s" using c(3) by (simp add: covers_def)
  consider (size) "length (s_recs s) \<noteq> f_size f"
    | (self) "length (s_recs s) = f_size f" "other = jname (f_job f)"
    | (docker) "length (s_recs s) = f_size f" "other \<noteq> jname (f_job f)" "holds (rec_of s other) = None"
    | (held) "length (s_recs s) = f_size f" "other \<noteq> jname (f_job f)" "holds (rec_of s other) = Some True"
    | (free) "length (s_recs s) = f_size f" "other \<noteq> jname (f_job f)" "holds (rec_of s other) = Some False"
    by (cases "holds (rec_of s other)") auto
  then show ?case
  proof cases
    case size
    then show ?thesis using c by (simp add: inv_finish)
  next
    case self
    then have "covers f rest s" using c(3) by (auto simp: covers_def)
    then show ?thesis using self Cons.IH [OF c(1,2)] by simp
  next
    case docker
    then have k: "contained (rec_of s other)" by (simp add: holds_iff)
    then have "covers f rest s" by (intro covers_skip [OF c(3)]) (simp add: nc_leased_def)
    then show ?thesis using docker k m c by (simp add: inv_suspend)
  next
    case held
    have k: "step_ok f rest (contend f other rest s)" by (rule contend_ok [OF c held(2)])
    show ?thesis
    proof (cases "contend f other rest s")
      case (Inl s')
      then show ?thesis using held k by (simp add: step_ok_def)
    next
      case (Inr x)
      then show ?thesis
        using held k Cons.IH [of "fst x" "snd x"] by (cases x) (simp add: step_ok_def)
    qed
  next
    case free
    then have "covers f rest s"
      by (intro covers_skip [OF c(3)]) (simp add: nc_leased_def holds_iff)
    then show ?thesis using free Cons.IH [OF c(1,2)] by simp
  qed
qed

lemma nc_leased_keys: "nc_leased s n \<Longrightarrow> n \<in> keys s"
  by (force simp: nc_leased_def rec_of_def dget_def keys_def build_def dest: map_of_SomeD
      split: option.splits)

lemma acq_enter_inv:
  assumes "core_ok s" "frame_ok f s" "\<not> nc_leased s (jname (f_job f))"
  shows "sched_inv (acq_enter f s)"
proof -
  have "covers f (dkeys (s_recs s)) s"
    using assms nc_leased_keys [of s]
    by (auto simp: covers_def dkeys_def keys_def)
  with assms show ?thesis unfolding acq_enter_def by (intro acq_loop_inv) simp_all
qed

lemma acq_start_inv:
  assumes "core_ok s" "waiter_ok s (WaitAcquire j t)" shows "sched_inv (acq_start j t s)"
proof -
  let ?f = "\<lparr>f_job = j, f_timeout = t, f_deadline = 0, f_stopped = [], f_size = 0\<rparr>"
  have f: "frame_ok ?f s" using assms by (simp add: waiter_ok_def frame_ok_def)
  show ?thesis
  proof (cases "holds (rec_of s (jname j))")
    case None
    then have "contained (rec_of s (jname j))" by (simp add: holds_iff)
    with None show ?thesis using assms f by (simp add: acq_start_def inv_suspend)
  next
    case (Some b)
    then show ?thesis
      using assms f acq_enter_inv [OF assms(1) f] holds_iff(2) [of "rec_of s (jname j)"]
      by (cases b) (simp_all add: acq_start_def nc_leased_def inv_finish)
  qed
qed

lemma acq_resume_inv:
  assumes "core_ok s" "frame_ok f s" "pc_ok f pc s" "s_owner s = Acq f pc"
  shows "sched_inv (acq_resume f pc a s)"
proof -
  have stay: "sched_inv s" using assms by (simp add: sched_inv_def)
  show ?thesis
  proof (cases pc)
    case PSelf
    then show ?thesis
      using assms stay
      by (auto simp: inv_finish nc_leased_def intro: acq_enter_inv split: answer.splits bool.splits)
  next
    case (PHolds other rest)
    have "step_ok f rest (contend f other rest s)"
      using assms PHolds by (intro contend_ok) (auto simp: covers_def)
    with assms PHolds stay show ?thesis
      by (auto simp: inv_finish step_ok_def intro: acq_loop_inv
          split: answer.splits bool.splits sum.splits)
  next
    case (PReclaim other rest p)
    have "step_ok f rest (reclaim_outcome f other rest
        (reclaim_resume (s_now s) (rec_of s other) p a) s)"
      using assms PReclaim reclaim_resume_ok [of s other f rest p]
      by (intro reclaim_outcome_ok) (simp_all add: core_ok_coop)
    with PReclaim show ?thesis
      by (auto simp: step_ok_def intro: acq_loop_inv split: sum.splits)
  next
    case (PSettle v w d)
    then show ?thesis
      using assms stay by (auto intro: inv_admit inv_settle_next split: option.splits)
  qed
qed

subsection \<open>The operations that take no lock\<close>

lemma inv_ease:
  "sched_inv s \<Longrightarrow> core_ok s' \<Longrightarrow> eases s s' \<Longrightarrow> s_owner s' = s_owner s \<Longrightarrow> sched_inv s'"
  by (simp add: sched_inv_def eases_owner)

lemma eases_same:
  "s_recs s' = s_recs s \<Longrightarrow> s_by_name s' = s_by_name s \<Longrightarrow> eases s s'"
  by (simp add: eases_def keys_def nc_leased_def rec_of_def job_of_def)

lemma job_for_keys: assumes "table_ok s" shows "m \<in> keys (fst (job_for m s))"
proof (cases "map_of (s_by_name s) m")
  case None
  then show ?thesis by (simp add: job_for_def keys_def Let_def)
next
  case (Some j)
  then have "map_of (s_recs s) m \<noteq> None"
    using table_ok_absent [OF assms, of m] by simp
  with Some show ?thesis by (simp add: job_for_def keys_def map_of_eq_None_iff)
qed

lemma job_for_inv:
  assumes "sched_inv s" shows "sched_inv (fst (job_for m s))" "eases s (fst (job_for m s))"
proof -
  have c: "core_ok s" and t: "table_ok s" using assms by (simp_all add: sched_inv_def core_ok_def)
  have n: "map_of (s_by_name s) m = None \<Longrightarrow> rec_of s m = build (unknown_job m)"
    using table_ok_absent [OF t] by (simp add: rec_of_def dget_def)
  then have r: "rec_of (fst (job_for m s)) n = rec_of s n" for n
    by auto
  have k: "keys s \<subseteq> keys (fst (job_for m s))"
    by (auto simp: job_for_def keys_def Let_def split: option.splits)
  have f: "s_releasing (fst (job_for m s)) = s_releasing s"
    "s_notices (fst (job_for m s)) = s_notices s"
    by (simp_all add: job_for_def Let_def split: option.splits)
  show e: "eases s (fst (job_for m s))"
    using k by (auto simp: eases_def r nc_leased_def simp del: job_for_rec_of)
  have "core_ok (fst (job_for m s))"
    using c k table_ok_job_for [OF t, of m] f
    by (auto simp: core_ok_def waiter_ok_def one_holder_def nc_leased_def r
        simp del: job_for_rec_of split: waiter.splits)
  then show "sched_inv (fst (job_for m s))"
    using inv_ease [OF assms _ e] by simp
qed

lemma inv_store:
  assumes "sched_inv s" "m \<in> keys s" "rjob r = rjob (rec_of s m)" "coop_ok r"
    "rheld r \<Longrightarrow> rheld (rec_of s m)"
  shows "sched_inv (set_rec m r s)"
  using assms core_shrink [of s m r] inv_ease [OF assms(1)] by (simp add: sched_inv_def)

lemma inv_replace:
  assumes "sched_inv s" "s_recs s' = s_recs s" "s_by_name s' = s_by_name s" "s_jobs s' = s_jobs s"
    "s_owner s' = s_owner s" "\<forall>w\<in>set (s_queue s'). waiter_ok s w"
    "set (s_releasing s') \<subseteq> keys s" "fst ` set (s_notices s') \<subseteq> keys s"
  shows "sched_inv s'"
proof (rule inv_ease [OF assms(1) _ eases_same [OF assms(2,3)] assms(5)])
  have "rec_of s' n = rec_of s n" "job_of s' n = job_of s n" for n
    using assms by (simp_all add: rec_of_def job_of_def)
  then show "core_ok s'"
    using assms by (auto simp: sched_inv_def core_ok_def table_ok_def waiter_ok_def one_holder_def
        nc_leased_def keys_def split: waiter.splits)
qed

lemma inv_same:
  assumes "s_recs s' = s_recs s" "s_by_name s' = s_by_name s" "s_jobs s' = s_jobs s"
    "s_owner s' = s_owner s" "s_queue s' = s_queue s" "s_releasing s' = s_releasing s"
    "s_notices s' = s_notices s"
  shows "sched_inv s' = sched_inv s"
proof -
  have one: "sched_inv t \<Longrightarrow> sched_inv t'" if "s_recs t' = s_recs t" "s_by_name t' = s_by_name t"
    "s_jobs t' = s_jobs t" "s_owner t' = s_owner t" "s_queue t' = s_queue t"
    "s_releasing t' = s_releasing t" "s_notices t' = s_notices t" for t t'
    using that by (intro inv_replace [of t t']) (simp_all add: sched_inv_def core_ok_def)
  show ?thesis
    by (rule iffI; rule one; assumption?) (simp_all add: assms)
qed

lemma inv_simps [simp]:
  "sched_inv (s\<lparr>s_reason := x3\<rparr>) = sched_inv s" "sched_inv (s\<lparr>s_holder := x4\<rparr>) = sched_inv s"
  "sched_inv (s\<lparr>s_results := x6\<rparr>) = sched_inv s" "sched_inv (s\<lparr>s_told := x8\<rparr>) = sched_inv s"
  "sched_inv (s\<lparr>s_reap_at := x9\<rparr>) = sched_inv s" "sched_inv (s\<lparr>s_now := x10\<rparr>) = sched_inv s"
  "sched_inv (s\<lparr>s_total := x11\<rparr>) = sched_inv s" "sched_inv (s\<lparr>s_used := x12\<rparr>) = sched_inv s"
  by (rule inv_same; simp)+

lemma sched_inv_core: "sched_inv s \<Longrightarrow> core_ok s"
  by (simp add: sched_inv_def)

lemma inv_sets:
  assumes "sched_inv s"
  shows "w \<in> set (s_queue s) \<Longrightarrow> waiter_ok s w" "set (s_releasing s) \<subseteq> keys s"
    "fst ` set (s_notices s) \<subseteq> keys s" "table_ok s"
  using assms by (simp_all add: sched_inv_def core_ok_def)

lemma let_go_inv: "sched_inv s \<Longrightarrow> n \<in> keys s \<Longrightarrow> sched_inv (let_go n s)"
  using inv_store [of s n "forget (rec_of s n)"] by (simp add: let_go_def Let_def)

lemma release_inv: assumes "sched_inv s" shows "sched_inv (release n s)"
proof -
  let ?s = "fst (job_for n s)"
  have i: "sched_inv ?s" by (rule job_for_inv [OF assms])
  have k: "n \<in> keys ?s" by (rule job_for_keys [OF inv_sets(4) [OF assms]])
  have j: "jname (job_of s n) = n" by (rule core_ok_lookup [OF sched_inv_core [OF assms]])
  have "sched_inv (?s\<lparr>s_releasing := s_releasing ?s @ [n]\<rparr>)"
    using inv_sets [OF i] k by (intro inv_replace [OF i]) auto
  moreover have "release n s = (case holds (rec_of ?s n) of Some False \<Rightarrow> ?s
      | Some True \<Rightarrow> let_go n ?s | None \<Rightarrow> ?s\<lparr>s_releasing := s_releasing ?s @ [n]\<rparr>)"
    by (simp add: release_def split_beta j del: job_for_rec_of split: option.split bool.split)
  ultimately show ?thesis
    using i let_go_inv [OF i k] by (simp del: job_for_rec_of split: option.splits bool.splits)
qed

lemma release_reply_inv: assumes "sched_inv s" shows "sched_inv (release_reply n a s)"
proof (cases "n \<in> set (s_releasing s)")
  case True
  let ?s = "s\<lparr>s_releasing := remove1 n (s_releasing s)\<rparr>"
  have "sched_inv ?s"
    using inv_sets [OF assms] set_remove1_subset [of n "s_releasing s"]
    by (intro inv_replace [OF assms]) auto
  moreover have "n \<in> keys ?s" using inv_sets [OF assms] True by auto
  ultimately show ?thesis
    using assms let_go_inv [of ?s n] by (auto simp: release_reply_def Let_def split: answer.splits bool.splits)
qed (simp add: release_reply_def assms)

lemma gpu_reclaim_notice_inv: assumes "sched_inv s" shows "sched_inv (gpu_reclaim_notice n s)"
proof (cases "map_of (s_recs s) n")
  case (Some r)
  then have r: "r = rec_of s n" and k: "n \<in> keys s"
    by (auto simp: rec_of_def dget_def keys_def dest: map_of_SomeD intro: rev_image_eqI)
  let ?s = "set_rec n (poll (s_now s) r) s"
  have i: "sched_inv ?s"
    using assms k core_ok_coop [OF sched_inv_core [OF assms]] by (intro inv_store) (simp_all add: r)
  have "sched_inv (?s\<lparr>s_notices := s_notices s @ [(n, s_now s + NOTICE_TIMEOUT, False)]\<rparr>)"
    using inv_sets [OF i] by (intro inv_replace [OF i]) auto
  then show ?thesis using assms i Some by (simp add: gpu_reclaim_notice_def Let_def)
qed (simp add: gpu_reclaim_notice_def Let_def assms)

lemma notice_ends_sub: "notice_ends now n ws = Some (w, ws') \<Longrightarrow>
    fst ` set ws' \<subseteq> fst ` set ws \<and> n \<in> fst ` set ws"
proof (induction ws arbitrary: ws')
  case (Cons x ws)
  obtain m e v where x: "x = (m, e, v)" by (cases x) auto
  show ?case
  proof (cases "m = n \<and> (v \<or> e \<le> now)")
    case True
    then show ?thesis using Cons.prems x by auto
  next
    case False
    then obtain ws1 where w: "notice_ends now n ws = Some (w, ws1)" "ws' = x # ws1"
      using Cons.prems x by (auto split: if_splits)
    then show ?thesis using Cons.IH [OF w(1)] by auto
  qed
qed simp

lemma notice_end_inv: assumes "sched_inv s" shows "sched_inv (notice_end n s)"
proof (cases "notice_ends (s_now s) n (s_notices s)")
  case (Some x)
  obtain w ws where x: "x = (w, ws)" by force
  have sub: "fst ` set ws \<subseteq> keys s" "n \<in> keys s"
    using notice_ends_sub [of "s_now s" n "s_notices s" w ws] Some x inv_sets(3) [OF assms] by (simp_all, blast+)
  let ?s = "set_rec n (poll (s_now s) (rec_of s n)) s"
  have i: "sched_inv ?s"
    using assms sub core_ok_coop [OF sched_inv_core [OF assms]] by (intro inv_store) simp_all
  have "sched_inv (?s\<lparr>s_notices := ws\<rparr>)"
    using inv_sets [OF i] sub by (intro inv_replace [OF i]) (simp_all, blast)
  then show ?thesis using Some x by (simp add: notice_end_def)
qed (simp add: notice_end_def assms)

subsection \<open>The reaper and the lock\<close>

lemma inv_own: "core_ok s \<Longrightarrow> owner_ok x s \<Longrightarrow> sched_inv (s\<lparr>s_owner := x\<rparr>)"
  using eases_owner [OF eases_same, of "s\<lparr>s_owner := x\<rparr>" s x] by (simp add: sched_inv_def)

lemma reap_done_inv: "core_ok s \<Longrightarrow> sched_inv (reap_done h s)"
  by (simp add: reap_done_def sched_inv_def)

lemma find_scan_inv: "core_ok s \<Longrightarrow> sched_inv (find_scan i js s)"
  by (induction i js s rule: find_scan.induct)
    (auto intro: reap_done_inv inv_own split: option.splits bool.splits)

lemma drop_lease_core:
  assumes "core_ok s" "n \<in> keys s"
  shows "core_ok (drop_lease n s)" "core_ok (check_stale n s)" "keys (drop_lease n s) = keys s"
    "keys (check_stale n s) = keys s" "s_jobs (check_stale n s) = s_jobs s"
    "s_jobs (drop_lease n s) = s_jobs s"
  using assms core_shrink(1) [OF assms, of "forget (rec_of s n)"]
  by (auto simp: drop_lease_def check_stale_def Let_def)

lemma drop_scan_inv:
  "core_ok s \<Longrightarrow> jname ` set js \<subseteq> keys s \<Longrightarrow> sched_inv (drop_scan i js s)"
proof (induction js arbitrary: i s)
  case Nil
  then show ?case by (simp add: find_scan_inv)
next
  case (Cons j js)
  then have k: "jname j \<in> keys s" by simp
  note d = drop_lease_core [OF Cons.prems(1) k]
  show ?case
    using Cons k d
    by (auto simp: holds_iff intro!: inv_own split: option.splits bool.splits)
qed

lemma jobs_keys: "sched_inv s \<Longrightarrow> jname ` set (s_jobs s) = keys s"
  by (simp add: sched_inv_def core_ok_def table_ok_def keys_def)

lemma reap_failed_inv: "core_ok s \<Longrightarrow> sched_inv (reap_failed s)"
  by (simp add: reap_failed_def sched_inv_def)

lemma drop_resume_inv:
  assumes "sched_inv s" "s_owner s = DropDead j i" shows "sched_inv (drop_resume j i a s)"
proof -
  have c: "core_ok s" and k: "jname j \<in> keys s" using assms by (simp_all add: sched_inv_def)
  have "jname ` set (drop (Suc i) (s_jobs s)) \<subseteq> keys s"
    using jobs_keys [OF assms(1)] set_drop_subset [of "Suc i" "s_jobs s"] by blast
  then show ?thesis
    using assms(1) c drop_lease_core [OF c k]
    by (auto simp: drop_resume_def intro!: drop_scan_inv reap_failed_inv
        split: answer.splits bool.splits)
qed

lemma find_resume_inv: "sched_inv s \<Longrightarrow> sched_inv (find_resume j i a s)"
  by (auto simp: find_resume_def dest: sched_inv_core
      intro: reap_done_inv find_scan_inv reap_failed_inv split: answer.splits bool.splits)

lemma lock_next_inv: assumes i: "sched_inv s" shows "sched_inv (lock_next s)"
proof (cases "s_owner s \<noteq> Free \<or> s_queue s = []")
  case True
  then show ?thesis using i by (auto simp: lock_next_def)
next
  case False
  then obtain w ws where w: "s_queue s = w # ws" by (cases "s_queue s") auto
  let ?s = "s\<lparr>s_queue := ws\<rparr>"
  have s: "sched_inv ?s" using inv_sets [OF i] w by (intro inv_replace [OF i]) auto
  have wo: "waiter_ok ?s w" using inv_sets(1) [OF i, of w] w by (cases w) (simp_all add: waiter_ok_def)
  show ?thesis
  proof (cases w)
    case (WaitAcquire j t)
    then show ?thesis
      using False w wo acq_start_inv [OF sched_inv_core [OF s], of j t] by (simp add: lock_next_def)
  next
    case WaitReap
    then show ?thesis
      using False w drop_scan_inv [OF sched_inv_core [OF s], of "s_jobs ?s" 0] jobs_keys [OF s]
      by (simp add: lock_next_def Let_def)
  qed
qed

lemma acquire_inv: assumes "sched_inv s" shows "sched_inv (acquire n t s)"
proof -
  let ?s = "fst (job_for n s)"
  have i: "sched_inv ?s" by (rule job_for_inv [OF assms])
  have j: "jname (job_of s n) = n" by (rule core_ok_lookup [OF sched_inv_core [OF assms]])
  have "waiter_ok ?s (WaitAcquire (job_of s n) u)" for u
    using job_for_keys [OF inv_sets(4) [OF assms], of n] j by (simp add: waiter_ok_def)
  then have "sched_inv (?s\<lparr>s_queue := s_queue ?s @ [WaitAcquire (job_of s n) u]\<rparr>)" for u
    using inv_sets [OF i] by (intro inv_replace [OF i]) auto
  then show ?thesis
    by (simp add: acquire_def split_beta Let_def lock_next_inv)
qed

lemma reap_inv: assumes "sched_inv s" shows "sched_inv (reap s)"
proof -
  have "sched_inv (s\<lparr>s_reap_at := None, s_queue := s_queue s @ [WaitReap]\<rparr>)"
    using inv_sets [OF assms] by (intro inv_replace [OF assms]) (auto simp: waiter_ok_def)
  then show ?thesis using assms by (auto simp: reap_def intro!: lock_next_inv split: option.splits)
qed

lemma resume_inv: assumes "sched_inv s" shows "sched_inv (resume a s)"
proof (cases "s_owner s")
  case (Acq f pc)
  then show ?thesis
    using assms acq_resume_inv [of s f pc a] by (simp add: resume_def sched_inv_def)
qed (use assms in \<open>auto simp: resume_def intro: drop_resume_inv find_resume_inv\<close>)

lemma sched_step_inv: "sched_inv s \<Longrightarrow> sched_inv (sched_step e s)"
  by (cases e) (auto intro: acquire_inv release_inv reap_inv lock_next_inv resume_inv
      release_reply_inv gpu_reclaim_notice_inv notice_end_inv)

text \<open>The initial scheduler over a table as \<open>load_jobs\<close> gives it.\<close>

definition sched_start :: "sched \<Rightarrow> bool" where
  "sched_start s \<longleftrightarrow> (\<exists>file js. load_jobs file = Inr js \<and> s = scheduler_init js)"

lemma map_of_jobs:
  "map_of (map (\<lambda>j. (jname j, h j)) js) n = map_option h (find (\<lambda>j. jname j = n) js)"
  by (induction js) auto

lemma sched_init_inv:
  assumes "distinct (map jname js)" "sorted (map job_rank js)" shows "sched_inv (scheduler_init js)"
proof -
  let ?s = "scheduler_init js"
  have f: "find P js = Some j \<Longrightarrow> P j" for P j
    by (auto simp: find_Some_iff)
  have r: "rec_of ?s n = build (job_of ?s n)" for n
    by (simp add: rec_of_def job_of_def dget_def scheduler_init_def map_of_jobs split: option.splits)
  have "job_of ?s n = (case find (\<lambda>j. jname j = n) js of None \<Rightarrow> unknown_job n | Some j \<Rightarrow> j)" for n
    by (simp add: job_of_def dget_def scheduler_init_def map_of_jobs split: option.splits)
  then have j: "jname (job_of ?s n) = n" for n
    by (cases "find (\<lambda>j. jname j = n) js") (auto simp: unknown_job_def dest: f)
  have "\<forall>n. jname (job_of ?s n) = n \<and> rjob (rec_of ?s n) = job_of ?s n"
    by (simp only: r j rjob_build simp_thms)
  moreover have "dict_ok (s_recs ?s)" "dkeys (s_by_name ?s) = dkeys (s_recs ?s)"
    "jname ` set (s_jobs ?s) = fst ` set (s_recs ?s)" "s_jobs ?s = js"
    using assms(1) by (simp_all add: scheduler_init_def dict_ok_def dkeys_def comp_def image_image)
  ultimately have "table_ok ?s" using assms by (simp add: table_ok_def)
  moreover have "\<not> nc_leased ?s n" for n by (simp add: nc_leased_def r)
  ultimately show ?thesis
    by (simp add: sched_inv_def core_ok_def one_holder_def r) (simp add: scheduler_init_def)
qed

lemma sched_start_inv: "sched_start s \<Longrightarrow> sched_inv s"
  unfolding sched_start_def using load_jobs_distinct load_jobs_sorted sched_init_inv by blast

interpretation arb: machine sched_step sched_inv sched_start
  by unfold_locales (auto intro: sched_start_inv sched_step_inv)

end
