(* ===== verification/Arbiter_Properties.thy ===== *)
theory Arbiter_Properties
  imports Arbiter_Leases
begin

text \<open>
  What the arbiter promises its callers, on top of the invariant of \<open>Arbiter_Leases\<close>: who may
  lose the card to whom, what a grant means, that no caller can block the lock for ever, what
  the reaper leaves behind; and two executions in which the promise of one holder, or of an
  orderly answer, is not kept.
\<close>

section \<open>Runs\<close>

lemma sched_run_inv: "load_jobs file = Inr js \<Longrightarrow> sched_inv (sched_run es (scheduler_init js))"
  unfolding sched_run_def by (rule arb.run_inv) (auto simp: sched_start_def)

lemma sched_run_simps [simp]:
  "sched_run [] s = s" "sched_run (e # es) s = sched_run es (sched_step e s)"
  "sched_run (es @ es') s = sched_run es' (sched_run es s)"
  by (simp_all add: sched_run_def)

section \<open>Whose turn it is\<close>

text \<open>The waiter that \<open>lock_next\<close> runs.\<close>

definition next_waiter :: "sched \<Rightarrow> waiter option" where
  "next_waiter s = (if s_owner s = Free \<and> s_queue s \<noteq> [] then Some (hd (s_queue s)) else None)"

text \<open>What a step runs: the acquire of a job, or the reaper.\<close>

definition waiter_job :: "waiter option \<Rightarrow> job option" where
  "waiter_job w = (case w of Some (WaitAcquire j t) \<Rightarrow> Some j | _ \<Rightarrow> None)"

fun acquirer :: "event \<Rightarrow> sched \<Rightarrow> job option" where
  "acquirer (Acquire n t) s =
     (if s_owner s = Free \<and> s_queue s = [] then Some (job_of s n) else waiter_job (next_waiter s))"
| "acquirer Reap s = waiter_job (next_waiter s)"
| "acquirer LockNext s = waiter_job (next_waiter s)"
| "acquirer (Resume a) s = (case s_owner s of Acq f pc \<Rightarrow> Some (f_job f) | _ \<Rightarrow> None)"
| "acquirer e s = None"

fun reaper_runs :: "event \<Rightarrow> sched \<Rightarrow> bool" where
  "reaper_runs (Acquire n t) s = (next_waiter s = Some WaitReap)"
| "reaper_runs Reap s = (next_waiter s = Some WaitReap \<or> s_owner s = Free \<and> s_queue s = [])"
| "reaper_runs LockNext s = (next_waiter s = Some WaitReap)"
| "reaper_runs (Resume a) s = (case s_owner s of DropDead j i \<Rightarrow> True | _ \<Rightarrow> False)"
| "reaper_runs e s = False"

section \<open>What an acquire may take\<close>

text \<open>
  From one state to a later one: leases are lost only by outranked jobs that are not
  cooperative, the jobs stay, and at most one result is reported, which if it is a new grant
  came with room and left the caller holding the card.
\<close>

definition grant_ok :: "job \<Rightarrow> sched \<Rightarrow> acq_result \<Rightarrow> bool" where
  "grant_ok j s res \<longleftrightarrow> (\<forall>d. res = Granted d \<longrightarrow> rheld (rec_of s (jname j))
     \<and> (d \<noteq> AlreadyHeld \<longrightarrow> fits s j = None \<and> s_holder s = Some (jname j)))"

definition takes :: "job \<Rightarrow> sched \<Rightarrow> sched \<Rightarrow> bool" where
  "takes j s s' \<longleftrightarrow> (\<forall>n. job_of s' n = job_of s n)
     \<and> (\<forall>n. rheld (rec_of s n) \<and> \<not> rheld (rec_of s' n) \<longrightarrow>
            jpriority (job_of s n) < jpriority j \<and> \<not> cooperative (rec_of s n))
     \<and> (\<forall>n. rjob (rec_of s' n) = rjob (rec_of s n))
     \<and> s_total s' = s_total s \<and> s_used s' = s_used s"

definition reports :: "job \<Rightarrow> sched \<Rightarrow> sched \<Rightarrow> bool" where
  "reports j s s' \<longleftrightarrow> s_results s' = s_results s
     \<or> (\<exists>res. s_results s' = s_results s @ [(jname j, res)] \<and> grant_ok j s' res)"

lemma takes_refl [simp]: "takes j s s"
  by (simp add: takes_def)

lemma takes_trans: "takes j s s' \<Longrightarrow> takes j s' s'' \<Longrightarrow> takes j s s''"
  unfolding takes_def cooperative_def by metis

lemma takes_owner [simp]: "takes j s (s'\<lparr>s_owner := x\<rparr>) = takes j s s'"
  "takes j s (finish f res s') = takes j s s'" "takes j s (refuse f why s') = takes j s s'"
  by (simp_all add: takes_def finish_def refuse_def)

lemma takes_wake [simp]: "takes j s (wake_notices n s)"
  unfolding takes_def by (simp) (simp add: wake_notices_def)

lemma fits_same: "s_total s' = s_total s \<Longrightarrow> s_used s' = s_used s \<Longrightarrow> fits s' j = fits s j"
  by (simp add: fits_def free_mb_def cong: option.case_cong)

lemma fits_fields [simp]:
  "fits (s\<lparr>s_owner := x1\<rparr>) j = fits s j" "fits (s\<lparr>s_results := x2\<rparr>) j = fits s j"
  "fits (s\<lparr>s_holder := x3\<rparr>) j = fits s j" "fits (s\<lparr>s_reason := x4\<rparr>) j = fits s j"
  "fits (s\<lparr>s_queue := x5\<rparr>) j = fits s j" "fits (set_rec m r s) j = fits s j"
  by (rule fits_same; simp)+

lemma reports_finish: "grant_ok (f_job f) s' res \<Longrightarrow> s_results s' = s_results s
    \<Longrightarrow> reports (f_job f) s (finish f res s')"
  by (auto simp: reports_def finish_def grant_ok_def)

lemma grant_ok_other [simp]: "grant_ok j s (Refused why)" "grant_ok j s (Raised e)"
  by (simp_all add: grant_ok_def)

lemma reports_refuse: "s_results s' = s_results s \<Longrightarrow> reports (f_job f) s (refuse f why s')"
  unfolding refuse_def by (rule reports_finish) simp_all

lemma reports_owner [simp]: "s_results s' = s_results s \<Longrightarrow> reports j s (s'\<lparr>s_owner := x\<rparr>)"
  by (simp add: reports_def)

lemma reports_same: "s_results s = s_results t \<Longrightarrow> reports j s s' = reports j t s'"
  by (simp add: reports_def)

lemma takes_set_rec:
  assumes "rjob r = rjob (rec_of s m)"
    "rheld (rec_of s m) \<and> \<not> rheld r \<Longrightarrow> jpriority (job_of s m) < jpriority j \<and> \<not> cooperative (rec_of s m)"
  shows "takes j s (set_rec m r s)"
  using assms by (simp add: takes_def)

lemma admit_takes: "takes (f_job f) s (admit f s)" "reports (f_job f) s (admit f s)"
proof -
  let ?n = "jname (f_job f)"
  let ?s = "(set_rec ?n (grant (s_now s) (rec_of s ?n)) s)\<lparr>s_holder := Some ?n, s_reason := HoldsGpu ?n\<rparr>"
  have t: "takes (f_job f) s ?s" by (simp add: takes_def)
  then show "takes (f_job f) s (admit f s)"
    by (auto simp: admit_def Let_def split: option.splits)
  have "grant_ok (f_job f) ?s res" if "fits s (f_job f) = None" for res
    using that by (auto simp: grant_ok_def)
  then show "reports (f_job f) s (admit f s)"
    by (auto simp: admit_def Let_def intro!: reports_finish reports_refuse split: option.splits)
qed

lemma settle_next_takes: "takes (f_job f) s (settle_next f v d s)"
    "reports (f_job f) s (settle_next f v d s)"
  by (simp_all add: settle_next_def reports_refuse)

lemma after_loop_takes: "takes (f_job f) s (after_loop f s)" "reports (f_job f) s (after_loop f s)"
  by (simp_all add: after_loop_def Let_def admit_takes settle_next_takes split: option.split)

text \<open>One turn of the loop: it ends with a report, or goes on and has reported nothing.\<close>

definition turn_ok :: "job \<Rightarrow> sched \<Rightarrow> sched + sched \<times> frame \<Rightarrow> bool" where
  "turn_ok j s x = (case x of
       Inl s' \<Rightarrow> takes j s s' \<and> reports j s s'
     | Inr (s', f') \<Rightarrow> takes j s s' \<and> s_results s' = s_results s \<and> f_job f' = j
                       \<and> (\<forall>n. coop_ok (rec_of s' n)))"

lemma outcome_takes:
  assumes j: "f_job f = j" and r: "rjob (fst rs) = rjob (rec_of s m)" and c: "\<forall>n. coop_ok (rec_of s n)"
    and k: "coop_ok (fst rs)"
    and o: "rheld (rec_of s m) \<Longrightarrow> \<not> rheld (fst rs)
      \<Longrightarrow> jpriority (job_of s m) < jpriority j \<and> \<not> cooperative (rec_of s m)"
  shows "turn_ok j s (reclaim_outcome f m rest rs s)"
proof -
  have t: "takes j s (set_rec m (fst rs) s)" using r o by (intro takes_set_rec) auto
  have f: "reports j s (finish f (Raised e) (set_rec m (fst rs) s))"
    "reports j s (refuse f why (set_rec m (fst rs) s))" for e why
    using reports_finish [of f "set_rec m (fst rs) s" "Raised e" s]
      reports_refuse [of "set_rec m (fst rs) s" s f why] j by simp_all
  show ?thesis
    using t f j c k
    by (auto simp: turn_ok_def reclaim_outcome_def Let_def split: reclaim_status.splits bool.splits)
qed

lemma contend_takes:
  assumes j: "f_job f = j" and c: "\<forall>n. coop_ok (rec_of s n)"
  shows "turn_ok j s (contend f m rest s)"
proof (cases "jpriority (job_of s m) \<ge> jpriority (f_job f)")
  case True
  then show ?thesis
    using j reports_refuse [of s s f] by (auto simp: turn_ok_def contend_def)
next
  case False
  let ?r = "rec_of s m" and ?t = "max 1 (f_deadline f - s_now s)"
  define s1 where "s1 = (if cooperative ?r \<and> rheld ?r then wake_notices m s else s)"
  have s1: "rec_of s1 n = rec_of s n" "job_of s1 n = job_of s n" "s_results s1 = s_results s"
    "takes j s s1" for n
    by (simp_all add: s1_def)
  have r: "reclaim_result_ok f m (reclaim_start (s_now s) ?t ?r) s1"
    using reclaim_start_ok [of s1 m f "s_now s" ?t] c by (simp add: s1)
  have "\<not> cooperative ?r" if "rheld ?r" "\<not> rheld (fst (reclaim_start (s_now s) ?t ?r))"
    using that by (auto simp: reclaim_start.simps cooperative_def split: kind.splits)
  then have "turn_ok j s1 (reclaim_outcome f m rest (reclaim_start (s_now s) ?t ?r) s1)"
    using r j c False by (intro outcome_takes) (auto simp: s1 reclaim_result_ok_def)
  moreover have "contend f m rest s = reclaim_outcome f m rest (reclaim_start (s_now s) ?t ?r) s1"
    using False by (simp add: contend_def Let_def s1_def)
  ultimately show ?thesis
    using takes_trans [OF s1(4)] reports_same [of s1 s j] s1(3)
    by (auto simp: turn_ok_def split: sum.splits)
qed

lemma acq_loop_takes:
  "f_job f = j \<Longrightarrow> \<forall>n. coop_ok (rec_of s n) \<Longrightarrow>
     takes j s (acq_loop f rest s) \<and> reports j s (acq_loop f rest s)"
proof (induction rest arbitrary: f s)
  case Nil
  then show ?case
    using after_loop_takes [of f s] reports_finish [of f s "Raised RuntimeError" s] by auto
next
  case (Cons m rest)
  note t = contend_takes [OF Cons.prems, of m rest]
  have fin: "reports j s (finish f (Raised RuntimeError) s)"
    using reports_finish [of f s "Raised RuntimeError" s] Cons.prems by simp
  have "takes j s (case contend f m rest s of Inl s' \<Rightarrow> s' | Inr (s', f') \<Rightarrow> acq_loop f' rest s')
      \<and> reports j s (case contend f m rest s of Inl s' \<Rightarrow> s' | Inr (s', f') \<Rightarrow> acq_loop f' rest s')"
  proof (cases "contend f m rest s")
    case (Inl s')
    then show ?thesis using t by (simp add: turn_ok_def)
  next
    case (Inr x)
    obtain s' f' where x: "x = (s', f')" by force
    then show ?thesis
      using Inr t Cons.IH [of f' s'] reports_same [of s s' j] takes_trans [of j s s']
      by (simp add: turn_ok_def)
  qed
  then show ?case
    using Cons fin by (simp split: option.splits bool.splits)
qed

lemma acq_enter_takes:
  "f_job f = j \<Longrightarrow> \<forall>n. coop_ok (rec_of s n) \<Longrightarrow> takes j s (acq_enter f s) \<and> reports j s (acq_enter f s)"
  unfolding acq_enter_def by (rule acq_loop_takes) simp_all

lemma acq_start_takes:
  assumes c: "\<forall>n. coop_ok (rec_of s n)"
  shows "takes j s (acq_start j t s) \<and> reports j s (acq_start j t s)"
proof (cases "holds (rec_of s (jname j))")
  case None
  then show ?thesis by (simp add: acq_start_def)
next
  case (Some b)
  let ?f = "\<lparr>f_job = j, f_timeout = t, f_deadline = 0, f_stopped = [], f_size = 0\<rparr>"
  have "grant_ok (f_job ?f) s (Granted AlreadyHeld)" if b
    using Some that by (simp add: grant_ok_def holds_iff)
  then show ?thesis
    using Some acq_enter_takes [OF _ c, of ?f j] reports_finish [of ?f s "Granted AlreadyHeld" s]
    by (cases b) (simp_all add: acq_start_def)
qed

text \<open>
  The one place where a grant may be reported for a lease that is gone: the caller's container
  answered, but a \<open>release\<close> came while the question was out.
\<close>

definition self_check :: "event \<Rightarrow> sched \<Rightarrow> bool" where
  "self_check e s \<longleftrightarrow> e = Resume (AUp True) \<and> (\<exists>f. s_owner s = Acq f PSelf)"

lemma acq_resume_takes:
  assumes i: "sched_inv s" and w: "s_owner s = Acq f pc"
  shows "takes (f_job f) s (acq_resume f pc a s)
    \<and> (\<not> self_check (Resume a) s \<longrightarrow> reports (f_job f) s (acq_resume f pc a s))"
proof -
  have p: "pc_ok f pc s" and c: "\<forall>n. coop_ok (rec_of s n)"
    using i w by (simp_all add: sched_inv_def core_ok_def)
  have raised: "reports (f_job f) s (finish f (Raised e) s)" for e
    by (rule reports_finish) simp_all
  have same: "reports (f_job f) s s" by (simp add: reports_def)
  have go: "takes (f_job f) s (case x of Inl s' \<Rightarrow> s' | Inr (s', f') \<Rightarrow> acq_loop f' rest s')
      \<and> reports (f_job f) s (case x of Inl s' \<Rightarrow> s' | Inr (s', f') \<Rightarrow> acq_loop f' rest s')"
    if t: "turn_ok (f_job f) s x" for x rest
  proof (cases x)
    case (Inr y)
    obtain s' f' where y: "y = (s', f')" by force
    then show ?thesis
      using Inr t acq_loop_takes [of f' "f_job f" s' rest] reports_same [of s s' "f_job f"]
        takes_trans [of "f_job f" s s']
      by (simp add: turn_ok_def)
  qed (use t in \<open>simp add: turn_ok_def\<close>)
  show ?thesis
  proof (cases pc)
    case PSelf
    then show ?thesis
      using acq_enter_takes [OF refl c, of f] raised same w
      by (auto simp: self_check_def split: answer.splits bool.splits)
  next
    case (PHolds m rest)
    then show ?thesis
      using go [OF contend_takes [OF refl c]] acq_loop_takes [OF refl c, of f rest] raised same
      by (auto split: answer.split bool.split)
  next
    case (PReclaim m rest q)
    let ?x = "reclaim_resume (s_now s) (rec_of s m) q a"
    have r: "reclaim_result_ok f m ?x s"
      using reclaim_resume_ok [of s m f rest q "s_now s" a] c p PReclaim by simp
    have "jpriority (job_of s m) < jpriority (f_job f) \<and> \<not> cooperative (rec_of s m)"
      if h: "rheld (rec_of s m)" "\<not> rheld (fst ?x)"
    proof -
      have d: "snd ?x = RDone True"
        using reclaim_resume_fst [of "s_now s" "rec_of s m" q a] h by auto
      have "\<not> cooperative (rec_of s m)"
      proof (cases q)
        case (WLetGo e)
        then have "rlet_go (rec_of s m)"
          using d reclaim_resume_WLetGo_done [of "s_now s" "rec_of s m" e a "fst ?x"]
          by (metis prod.collapse)
        then show ?thesis using c h by (auto simp: coop_ok_def)
      next
        case (WKill k g e)
        then show ?thesis using p PReclaim cooperative_not_contained by auto
      qed
      then show ?thesis using p PReclaim by (simp add: outranked_def)
    qed
    then have "turn_ok (f_job f) s (reclaim_outcome f m rest ?x s)"
      using r c by (intro outcome_takes) (auto simp: reclaim_result_ok_def)
    then show ?thesis using go PReclaim by simp
  next
    case (PSettle v u d)
    then show ?thesis
      using admit_takes [of f s] settle_next_takes [of f s] same
      by (simp split: option.split)
  qed
qed

section \<open>What any step may take\<close>

lemma job_for_same:
  assumes "sched_inv s" shows "rec_of (fst (job_for m s)) n = rec_of s n"
proof -
  have "map_of (s_by_name s) m = None \<Longrightarrow> rec_of s m = build (unknown_job m)"
    using table_ok_absent [OF inv_sets(4) [OF assms]] by (simp add: rec_of_def dget_def)
  then show ?thesis by simp
qed

lemma job_for_readings [simp]:
  "s_total (fst (job_for m s)) = s_total s" "s_used (fst (job_for m s)) = s_used s"
  by (simp_all add: job_for_def Let_def split: option.split)

lemma takes_from:
  assumes "\<And>n. rec_of t n = rec_of s n" "\<And>n. job_of t n = job_of s n" "s_results t = s_results s"
    "s_total t = s_total s" "s_used t = s_used s"
  shows "takes j t s' = takes j s s'" "reports j t s' = reports j s s'"
  using assms by (simp_all add: takes_def reports_def)

lemma lock_next_acquire:
  assumes i: "sched_inv s" and w: "waiter_job (next_waiter s) = Some j"
  shows "takes j s (lock_next s) \<and> reports j s (lock_next s)"
proof -
  obtain t ws where q: "s_owner s = Free" "s_queue s = WaitAcquire j t # ws"
    using w by (cases "s_queue s")
      (auto simp: waiter_job_def next_waiter_def split: if_splits waiter.splits)
  let ?s = "s\<lparr>s_queue := ws\<rparr>"
  have "takes j ?s (acq_start j t ?s) \<and> reports j ?s (acq_start j t ?s)"
    using i by (intro acq_start_takes) (simp add: sched_inv_def core_ok_def)
  then show ?thesis using q by (simp add: lock_next_def takes_def reports_def)
qed

lemma lock_next_idle:
  assumes "waiter_job (next_waiter s) = None" "next_waiter s \<noteq> Some WaitReap"
  shows "lock_next s = s"
  using assms by (cases "s_queue s")
    (auto simp: lock_next_def waiter_job_def next_waiter_def split: if_splits waiter.splits)

lemma acquire_eq:
  "acquire n t s = lock_next ((fst (job_for n s))\<lparr>s_queue := s_queue s @ [WaitAcquire (job_of s n)
     (case t of None \<Rightarrow> ACQUIRE_TIMEOUT | Some u \<Rightarrow> u)]\<rparr>)"
  by (simp add: acquire_def split_beta)

lemma next_waiter_enqueue:
  "s_owner s' = s_owner s \<Longrightarrow> s_queue s' = s_queue s @ [w] \<Longrightarrow>
     next_waiter s' = (if s_owner s = Free \<and> s_queue s = [] then Some w else next_waiter s)"
  by (auto simp: next_waiter_def hd_append)

lemma enqueue_inv:
  assumes "sched_inv s"
  shows "sched_inv ((fst (job_for n s))\<lparr>s_queue := s_queue s @ [WaitAcquire (job_of s n) u]\<rparr>)"
    "sched_inv (s\<lparr>s_reap_at := None, s_queue := s_queue s @ [WaitReap]\<rparr>)"
proof -
  let ?s = "fst (job_for n s)"
  have i: "sched_inv ?s" by (rule job_for_inv [OF assms])
  have j: "jname (job_of s n) = n" by (rule core_ok_lookup [OF sched_inv_core [OF assms]])
  have "waiter_ok ?s (WaitAcquire (job_of s n) u)"
    using job_for_keys [OF inv_sets(4) [OF assms], of n] j by (simp add: waiter_ok_def)
  then show "sched_inv (?s\<lparr>s_queue := s_queue s @ [WaitAcquire (job_of s n) u]\<rparr>)"
    using inv_sets [OF i] by (intro inv_replace [OF i]) auto
  show "sched_inv (s\<lparr>s_reap_at := None, s_queue := s_queue s @ [WaitReap]\<rparr>)"
    using inv_sets [OF assms] by (intro inv_replace [OF assms]) (auto simp: waiter_ok_def)
qed

text \<open>A step that runs an acquire takes and reports as that acquire may.\<close>

lemma step_takes:
  assumes i: "sched_inv s" and j: "acquirer e s = Some j"
  shows "takes j s (sched_step e s) \<and> (\<not> self_check e s \<longrightarrow> reports j s (sched_step e s))"
proof (cases e)
  case (Acquire n t)
  let ?s = "(fst (job_for n s))\<lparr>s_queue := s_queue s @ [WaitAcquire (job_of s n)
     (case t of None \<Rightarrow> ACQUIRE_TIMEOUT | Some u \<Rightarrow> u)]\<rparr>"
  have "waiter_job (next_waiter ?s) = Some j"
    using j Acquire by (subst next_waiter_enqueue [of ?s s]) (auto simp: waiter_job_def split: if_splits)
  then have "takes j ?s (lock_next ?s) \<and> reports j ?s (lock_next ?s)"
    by (rule lock_next_acquire [OF enqueue_inv(1) [OF i]])
  moreover have "takes j ?s = takes j s" "reports j ?s = reports j s"
    by (intro ext takes_from; simp add: job_for_same [OF i] del: job_for_rec_of)+
  ultimately show ?thesis using Acquire by (simp add: acquire_eq)
next
  case Reap
  let ?s = "s\<lparr>s_reap_at := None, s_queue := s_queue s @ [WaitReap]\<rparr>"
  have "waiter_job (next_waiter ?s) = Some j"
    using j Reap by (subst next_waiter_enqueue [of ?s s])
      (auto simp: waiter_job_def next_waiter_def split: if_splits)
  then have "takes j ?s (lock_next ?s) \<and> reports j ?s (lock_next ?s)"
    by (rule lock_next_acquire [OF enqueue_inv(2) [OF i]])
  moreover have "takes j ?s = takes j s" "reports j ?s = reports j s"
    by (intro ext takes_from; simp)+
  moreover have "reports j s s" by (simp add: reports_def)
  ultimately show ?thesis using Reap by (simp add: reap_def split: option.split)
next
  case LockNext
  then show ?thesis using lock_next_acquire [OF i] j by simp
next
  case (Resume a)
  then obtain f pc where o: "s_owner s = Acq f pc" "j = f_job f"
    using j by (auto split: owner.splits)
  then show ?thesis
    using Resume acq_resume_takes [OF i o(1), of a] by (simp add: resume_def)
qed (use j in simp_all)

lemma find_scan_same: "rec_of (find_scan i js s) n = rec_of s n"
  by (induction i js s rule: find_scan.induct)
    (auto simp: reap_done_def split: option.split bool.split)

lemma release_same:
  assumes "sched_inv s" "m \<noteq> n"
  shows "rec_of (release m s) n = rec_of s n" "rec_of (release_reply m a s) n = rec_of s n"
  using assms core_ok_lookup(1) [OF sched_inv_core [OF assms(1)], of m]
  by (auto simp: release_def release_reply_def let_go_def Let_def split_beta job_for_same
      simp del: job_for_rec_of split: option.split bool.split answer.split)

lemma notice_same:
  "rheld (rec_of (gpu_reclaim_notice m s) n) = rheld (rec_of s n)"
  "rheld (rec_of (notice_end m s) n) = rheld (rec_of s n)"
  by (auto simp: gpu_reclaim_notice_def notice_end_def Let_def rec_of_def [of s] dget_def
      split: option.splits)

text \<open>A step that runs neither an acquire nor the reaper ends a lease only for its releaser.\<close>

lemma step_idle:
  assumes i: "sched_inv s" and a: "acquirer e s = None" "\<not> reaper_runs e s"
    and h: "rheld (rec_of s n)" "\<not> rheld (rec_of (sched_step e s) n)"
  shows "e = Release n \<or> (\<exists>a. e = ReleaseReply n a)"
proof (cases e)
  case (Acquire m t)
  let ?s = "(fst (job_for m s))\<lparr>s_queue := s_queue s @ [WaitAcquire (job_of s m)
     (case t of None \<Rightarrow> ACQUIRE_TIMEOUT | Some u \<Rightarrow> u)]\<rparr>"
  have "lock_next ?s = ?s"
    using a Acquire by (intro lock_next_idle; subst next_waiter_enqueue [of ?s s])
      (auto simp: waiter_job_def split: if_splits)
  then show ?thesis
    using h Acquire job_for_same [OF i] by (simp add: acquire_eq del: job_for_rec_of)
next
  case Reap
  let ?s = "s\<lparr>s_reap_at := None, s_queue := s_queue s @ [WaitReap]\<rparr>"
  have "lock_next ?s = ?s"
    using a Reap by (intro lock_next_idle; subst next_waiter_enqueue [of ?s s])
      (auto simp: waiter_job_def split: if_splits)
  then show ?thesis
    using h Reap by (auto simp: reap_def split: option.splits if_splits)
next
  case LockNext
  then show ?thesis using lock_next_idle [of s] a h by simp
next
  case (Resume b)
  then show ?thesis
    using a h by (auto simp: resume_def find_resume_def reap_done_def reap_failed_def find_scan_same
        split: owner.splits answer.splits bool.splits)
next
  case (Release m)
  then show ?thesis using release_same(1) [OF i, of m n] h by (cases "m = n") simp_all
next
  case (ReleaseReply m b)
  then show ?thesis using release_same(2) [OF i, of m n b] h by (cases "m = n") simp_all
qed (use h notice_same in \<open>auto split: if_splits\<close>)

section \<open>Steps that run no acquire\<close>

definition quiet :: "sched \<Rightarrow> sched \<Rightarrow> bool" where
  "quiet s s' \<longleftrightarrow> (\<forall>n. job_of s' n = job_of s n) \<and> s_results s' = s_results s"

lemma find_scan_quiet: "quiet s (find_scan i js s)"
  by (induction i js s rule: find_scan.induct)
    (auto simp: quiet_def reap_done_def split: option.split bool.split)

lemma drop_lease_quiet: "quiet s (drop_lease n s)" "quiet s (check_stale n s)"
  by (simp_all add: quiet_def drop_lease_def check_stale_def Let_def)

lemma quiet_trans: "quiet s t \<Longrightarrow> quiet t u \<Longrightarrow> quiet s u"
  by (simp add: quiet_def)

lemma drop_scan_quiet: "quiet s (drop_scan i js s)"
proof (induction js arbitrary: i s)
  case Nil
  then show ?case by (simp add: find_scan_quiet)
next
  case (Cons j js)
  have own: "quiet s (s\<lparr>s_owner := x\<rparr>)" for x by (simp add: quiet_def)
  show ?case
    using quiet_trans [OF drop_lease_quiet(1) Cons.IH] quiet_trans [OF drop_lease_quiet(2) Cons.IH]
    by (simp add: own split: option.split bool.split)
qed

lemma reap_failed_quiet: "quiet s (reap_failed s)"
  by (simp add: quiet_def reap_failed_def)

lemma release_quiet: "quiet s (release n s)" "quiet s (release_reply n a s)"
  by (auto simp: quiet_def release_def release_reply_def let_go_def Let_def split_beta
      split: option.split bool.split answer.split)

lemma notice_quiet: "quiet s (gpu_reclaim_notice n s)" "quiet s (notice_end n s)"
  by (auto simp: quiet_def gpu_reclaim_notice_def notice_end_def Let_def split: option.split)

lemma lock_next_quiet:
  assumes "waiter_job (next_waiter s) = None" shows "quiet s (lock_next s)"
proof (cases "next_waiter s")
  case None
  then show ?thesis using lock_next_idle [OF assms] by (simp add: quiet_def)
next
  case (Some w)
  then obtain ws where "w = WaitReap" "s_owner s = Free" "s_queue s = WaitReap # ws"
    using assms by (cases "s_queue s")
      (auto simp: next_waiter_def waiter_job_def split: if_splits waiter.splits)
  moreover have "quiet s (s\<lparr>s_queue := ws\<rparr>)" by (simp add: quiet_def)
  ultimately show ?thesis
    using quiet_trans [OF _ drop_scan_quiet] by (simp add: lock_next_def Let_def)
qed

lemma step_quiet:
  assumes "acquirer e s = None" shows "quiet s (sched_step e s)"
proof (cases e)
  case (Acquire n t)
  let ?s = "(fst (job_for n s))\<lparr>s_queue := s_queue s @ [WaitAcquire (job_of s n)
     (case t of None \<Rightarrow> ACQUIRE_TIMEOUT | Some u \<Rightarrow> u)]\<rparr>"
  have "quiet ?s (lock_next ?s)"
    using assms Acquire by (intro lock_next_quiet; subst next_waiter_enqueue [of ?s s])
      (auto simp: waiter_job_def split: if_splits)
  moreover have "quiet s ?s" by (simp add: quiet_def)
  ultimately show ?thesis using Acquire quiet_trans by (auto simp: acquire_eq)
next
  case Reap
  let ?s = "s\<lparr>s_reap_at := None, s_queue := s_queue s @ [WaitReap]\<rparr>"
  have "quiet ?s (lock_next ?s)"
    using assms Reap by (intro lock_next_quiet; subst next_waiter_enqueue [of ?s s])
      (auto simp: waiter_job_def split: if_splits)
  moreover have "quiet s ?s" "quiet s s" by (simp_all add: quiet_def)
  ultimately show ?thesis
    using Reap quiet_trans [of s ?s] by (simp add: reap_def split: option.split)
next
  case LockNext
  then show ?thesis using lock_next_quiet assms by simp
next
  case (Resume a)
  have "quiet s s" by (simp add: quiet_def)
  moreover have "quiet s (reap_done h s)" for h by (simp add: quiet_def reap_done_def)
  ultimately show ?thesis
    using Resume assms quiet_trans [OF drop_lease_quiet(1) drop_scan_quiet]
      quiet_trans [OF drop_lease_quiet(2) drop_scan_quiet]
    by (auto simp: resume_def drop_resume_def find_resume_def reap_failed_quiet find_scan_quiet
        split: owner.splits answer.splits bool.splits)
qed (simp_all add: release_quiet notice_quiet, simp_all add: quiet_def)

lemma step_job_of: "sched_inv s \<Longrightarrow> job_of (sched_step e s) n = job_of s n"
  using step_takes [of s e] step_quiet [of e s]
  by (cases "acquirer e s") (auto simp: takes_def quiet_def)

lemma run_job_of: "sched_inv s \<Longrightarrow> job_of (sched_run es s) n = job_of s n"
  by (induction es arbitrary: s) (simp_all add: step_job_of sched_step_inv)

lemma init_job_of:
  "job_of (scheduler_init js) n = (case find (\<lambda>j. jname j = n) js of None \<Rightarrow> unknown_job n | Some j \<Rightarrow> j)"
  by (simp add: job_of_def dget_def scheduler_init_def map_of_jobs split: option.split)

text \<open>The job an acquire runs for is the table's.\<close>

lemma acquirer_job:
  assumes i: "sched_inv s" and j: "acquirer e s = Some j" shows "j = job_of s (jname j)"
proof -
  have n: "k = job_of s (jname k)" if "waiter_job (next_waiter s) = Some k" for k
    using that inv_sets(1) [OF i, of "hd (s_queue s)"]
    by (auto simp: waiter_job_def next_waiter_def waiter_ok_def split: if_splits waiter.splits)
  have "jname (job_of s m) = m" for m by (rule core_ok_lookup [OF sched_inv_core [OF i]])
  then show ?thesis
    using j n i by (cases e)
      (auto simp: sched_inv_def frame_ok_def split: if_splits owner.splits)
qed

section \<open>Properties\<close>

text \<open>
  C1: At most one job without a container holds a lease: after any sequence of calls, answers
  and timers, from any job file that loads. (A container's lease counts only while Docker says
  the container is up, so it is excluded here;
  \<open>restarted_container_shares_the_card\<close> shows that case.)
\<close>

theorem one_lease:
  assumes "load_jobs file = Inr js"
    and "s = sched_run es (scheduler_init js)"
    and "rheld (rec_of s m)" "jkind (rjob (rec_of s m)) \<noteq> KContainer"
    and "rheld (rec_of s n)" "jkind (rjob (rec_of s n)) \<noteq> KContainer"
  shows "m = n"
  using sched_run_inv [OF assms(1), of es] assms
  by (auto simp: sched_inv_def core_ok_def one_holder_def nc_leased_def contained_def)

text \<open>A job table like the deployed one, used by the examples.\<close>

definition raw_entry :: "string \<Rightarrow> string \<Rightarrow> int \<Rightarrow> int \<Rightarrow> raw_job" where
  "raw_entry n k p mb = \<lparr>raw_name = Some n, raw_kind = Some k, raw_container = None,
     raw_priority = Some (JInt p), raw_required_mb = Some (JInt mb), raw_stop_timeout = Some (JInt 0)\<rparr>"

definition example_file :: jobs_file where
  "example_file = JobsDoc (Some [raw_entry ''video'' ''cooperative'' 0 4096,
     raw_entry ''llm'' ''none'' 100 0, raw_entry ''trainer'' ''container'' (-10) 4096])"

definition example_job :: "string \<Rightarrow> kind \<Rightarrow> int \<Rightarrow> int \<Rightarrow> job" where
  "example_job n k p mb = \<lparr>jname = n, jkind = k, jcontainer = n, jpriority = p, jrequired_mb = mb,
     jstop_timeout = 0\<rparr>"

definition example_jobs :: "job list" where
  "example_jobs = [example_job ''llm'' KNone 100 0, example_job ''video'' KCooperative 0 4096,
     example_job ''trainer'' KContainer (-10) 4096]"

lemma example_loads: "load_jobs example_file = Inr example_jobs"
  by (simp add: example_file_def example_jobs_def raw_entry_def example_job_def JobConfig_def
      kind_of_def int_field_def job_rank_def)

text \<open>The first grant, to the video job, and the llm asking while it holds.\<close>

lemmas run_simps = acquire_def job_for_def release_def let_go_def lock_next_def acq_start_def
  acq_enter_def after_loop_def admit_def finish_def refuse_def contend_def reclaim_outcome_def
  wake_notices_def settle_next_def set_rec_def rec_of_def job_of_def dget_def dkeys_def
  holds_def contained_def cooperative_def grant_def forget_def build_def leased_def poll_def
  fits_def free_mb_def resume_def release_reply_def reclaim_start.simps scheduler_init_def example_jobs_def Let_def
  job_rank_def unknown_job_def
  example_job_def ACQUIRE_TIMEOUT_def VRAM_SETTLE_TIMEOUT_def

theorem one_lease_witness:
  "let s = sched_run [Acquire ''video'' None] (scheduler_init example_jobs)
   in rheld (rec_of s ''video'') \<and> jkind (rjob (rec_of s ''video'')) = KCooperative
      \<and> (\<forall>m. rheld (rec_of s m) \<and> jkind (rjob (rec_of s m)) \<noteq> KContainer \<longrightarrow> m = ''video'')"
proof -
  let ?s = "sched_run [Acquire ''video'' None] (scheduler_init example_jobs)"
  have h: "rheld (rec_of ?s ''video'')" "jkind (rjob (rec_of ?s ''video'')) = KCooperative"
    by (simp_all add: run_simps)
  show ?thesis
    unfolding Let_def using one_lease [OF example_loads refl, where es = "[Acquire ''video'' None]" and n = "''video''"] h
    by simp
qed

text \<open>
  C2: A lease is never taken by anything but what may take it. If a step ends a job's lease,
  then the job released it, or the reaper was at work, or the step ran the acquire of a job of
  strictly higher priority and the loser is not cooperative: a cooperative job keeps its lease
  until it lets go of it itself.
\<close>

theorem lease_lost_only_to:
  assumes "load_jobs file = Inr js" and "s = sched_run es (scheduler_init js)"
    and "rheld (rec_of s n)" "\<not> rheld (rec_of (sched_step e s) n)"
  shows "e = Release n \<or> (\<exists>a. e = ReleaseReply n a) \<or> reaper_runs e s
    \<or> (\<exists>j. acquirer e s = Some j \<and> jpriority (job_of s n) < jpriority j
           \<and> \<not> cooperative (rec_of s n))"
proof -
  have i: "sched_inv s" using sched_run_inv [OF assms(1)] assms(2) by simp
  show ?thesis
    using step_takes [OF i, of e] step_idle [OF i _ _ assms(3,4)] assms(3,4)
    by (cases "acquirer e s") (auto simp: takes_def)
qed

theorem lease_lost_only_to_witness:
  "let s = sched_run [Acquire ''trainer'' None, Acquire ''llm'' None, Resume (AUp True),
        Resume AKilled, Resume (AUp False)] (scheduler_init example_jobs)
   in rheld (rec_of s ''trainer'') \<and> \<not> rheld (rec_of (sched_step (Resume (AUp False)) s) ''trainer'')
      \<and> (\<exists>j. acquirer (Resume (AUp False)) s = Some j
             \<and> jpriority (job_of s ''trainer'') < jpriority j)"
proof -
  let ?es = "[Acquire ''trainer'' None, Acquire ''llm'' None, Resume (AUp True), Resume AKilled,
    Resume (AUp False)]"
  let ?s = "sched_run ?es (scheduler_init example_jobs)"
  have h: "rheld (rec_of ?s ''trainer'')" "\<not> rheld (rec_of (sched_step (Resume (AUp False)) ?s) ''trainer'')"
    "\<not> reaper_runs (Resume (AUp False)) ?s"
    by (simp_all add: run_simps)
  show ?thesis
    unfolding Let_def using lease_lost_only_to [OF example_loads refl h(1,2)] h by auto
qed

text \<open>
  Identity is priority: a caller that is not in the job file, whatever its name, can take
  the card only from jobs the file ranks below zero. So a typo never displaces the llm.
\<close>

theorem unknown_caller_rank:
  assumes "load_jobs file = Inr js" and "s = sched_run es (scheduler_init js)"
    and "acquirer e s = Some j" "jname j \<notin> jname ` set js"
    and "rheld (rec_of s n)" "\<not> rheld (rec_of (sched_step e s) n)"
  shows "jpriority j = 0 \<and> (\<exists>k\<in>set js. jname k = n \<and> jpriority k < 0)"
proof -
  have i: "sched_inv s" and i0: "sched_inv (scheduler_init js)"
    using sched_run_inv [OF assms(1), of es] sched_run_inv [OF assms(1), of "[]"] assms(2)
    by simp_all
  have job: "job_of s m = (case find (\<lambda>j. jname j = m) js of None \<Rightarrow> unknown_job m | Some k \<Rightarrow> k)" for m
    using run_job_of [OF i0, of es m] assms(2) by (simp add: init_job_of)
  have "find (\<lambda>k. jname k = jname j) js = None"
    using assms(4) by (metis (mono_tags, lifting) find_None_iff imageI)
  then have "job_of s (jname j) = unknown_job (jname j)" using job by simp
  then have p: "jpriority j = 0"
    using acquirer_job [OF i assms(3)] by (metis job.select_convs(4) unknown_job_def)
  have "jpriority (job_of s n) < jpriority j"
    using step_takes [OF i assms(3)] assms(5,6) by (simp add: takes_def)
  then obtain k where "find (\<lambda>j. jname j = n) js = Some k" "jpriority k < 0"
    using p job [of n] by (cases "find (\<lambda>j. jname j = n) js") (auto simp: unknown_job_def)
  then show ?thesis using p by (auto simp: find_Some_iff)
qed

theorem unknown_caller_rank_witness:
  "let s = sched_run [Acquire ''trainer'' None, Acquire ''bench'' None, Resume (AUp True),
        Resume AKilled, Resume (AUp False)] (scheduler_init example_jobs)
   in rheld (rec_of s ''trainer'') \<and> \<not> rheld (rec_of (sched_step (Resume (AUp False)) s) ''trainer'')
      \<and> (\<exists>j. acquirer (Resume (AUp False)) s = Some j \<and> jname j = ''bench'' \<and> jpriority j = 0)"
proof -
  let ?es = "[Acquire ''trainer'' None, Acquire ''bench'' None, Resume (AUp True), Resume AKilled,
    Resume (AUp False)]"
  let ?s = "sched_run ?es (scheduler_init example_jobs)"
  have h: "rheld (rec_of ?s ''trainer'')"
    "\<not> rheld (rec_of (sched_step (Resume (AUp False)) ?s) ''trainer'')"
    by (simp_all add: run_simps)
  have a: "acquirer (Resume (AUp False)) ?s = Some (unknown_job ''bench'')"
    by (simp add: run_simps)
  have n: "jname (unknown_job ''bench'') = ''bench''" "''bench'' \<notin> jname ` set example_jobs"
    by (simp_all add: unknown_job_def example_jobs_def example_job_def)
  show ?thesis
    unfolding Let_def using unknown_caller_rank [OF example_loads refl a _ h] h a n by auto
qed

lemma step_result_quiet:
  assumes "s_results (sched_step e s) \<noteq> s_results s" shows "\<exists>j. acquirer e s = Some j"
  using step_quiet [of e s] assms by (cases "acquirer e s") (auto simp: quiet_def)

text \<open>
  C3: A grant is never blind. Whenever a step reports to a caller that it newly has the card, the
  caller's lease is in the table, the arbiter names it as holder, and either the job states no
  requirement, or the driver could not be read, or at least the required memory is free.
\<close>

theorem grant_has_room:
  assumes "load_jobs file = Inr js" and "s = sched_run es (scheduler_init js)"
    and "s' = sched_step e s" "s_results s' = s_results s @ [(n, Granted d)]" "d \<noteq> AlreadyHeld"
  shows "rheld (rec_of s' n) \<and> s_holder s' = Some n
    \<and> (jrequired_mb (job_of s' n) = 0 \<or> free_mb s' = None
       \<or> (\<exists>free. free_mb s' = Some free \<and> jrequired_mb (job_of s' n) \<le> free))"
proof -
  have i: "sched_inv s" using sched_run_inv [OF assms(1)] assms(2) by simp
  obtain j where j: "acquirer e s = Some j"
    using step_result_quiet [of e s] assms by auto
  have "\<not> self_check e s"
    using assms(3-5) by (auto simp: self_check_def resume_def finish_def)
  then have "reports j s s'"
    using step_takes [OF i j] assms(3) by simp
  then have g: "jname j = n" "grant_ok j s' (Granted d)"
    using assms(4) by (auto simp: reports_def)
  have "j = job_of s' n"
    using acquirer_job [OF i j] step_job_of [OF i] g assms(3) by simp
  then show ?thesis
    using g assms(5) by (auto simp: grant_ok_def fits_def split: option.splits if_splits)
qed

theorem grant_has_room_witness:
  "let s = sched_run [Gpu (Some 24000) (Some 19000)] (scheduler_init example_jobs);
       s' = sched_step (Acquire ''video'' None) s
   in s_results s' = s_results s @ [(''video'', Granted NothingRunning)]
      \<and> rheld (rec_of s' ''video'') \<and> free_mb s' = Some 5000"
proof -
  let ?s = "sched_run [Gpu (Some 24000) (Some 19000)] (scheduler_init example_jobs)"
  have h: "s_results (sched_step (Acquire ''video'' None) ?s)
      = s_results ?s @ [(''video'', Granted NothingRunning)]"
    and f: "free_mb (sched_step (Acquire ''video'' None) ?s) = Some 5000"
    by (simp_all add: run_simps)
  show ?thesis
    unfolding Let_def using grant_has_room [OF example_loads refl refl h] h f by simp
qed

text \<open>
  A handover cannot deadlock on \<open>release\<close>. While an acquire waits, under the lock, for a
  cooperative job to let go, that job's release goes through at once and leaves the waiting
  acquire in place, and the next wake-up of the acquire gets past the job and on with its loop.
\<close>

theorem release_unblocks_acquire:
  assumes "load_jobs file = Inr js" and "s = sched_run es (scheduler_init js)"
    and "s_owner s = Acq f (PReclaim n rest (WLetGo t))" "rheld (rec_of s n)"
    and "s' = sched_step (Release n) s"
  shows "\<not> rheld (rec_of s' n) \<and> s_owner s' = s_owner s
    \<and> sched_step (Resume AWake) s'
        = acq_loop (f\<lparr>f_stopped := f_stopped f @ [n]\<rparr>) rest
            (set_rec n ((rec_of s' n)\<lparr>rheld := False\<rparr>) s')"
proof -
  have i: "sched_inv s" using sched_run_inv [OF assms(1)] assms(2) by simp
  let ?s = "fst (job_for n s)"
  have c: "cooperative (rec_of s n)" using i assms(3) by (simp add: sched_inv_def)
  have r: "rec_of ?s m = rec_of s m" for m by (rule job_for_same [OF i])
  have j: "jname (job_of s n) = n" by (rule core_ok_lookup [OF sched_inv_core [OF i]])
  have "holds (rec_of ?s n) = Some True"
    unfolding r using assms(4) c by (auto simp: holds_def dest: cooperative_not_contained)
  then have s': "s' = let_go n ?s"
    unfolding assms(5) by (simp add: release_def split_beta j del: job_for_rec_of)
  have k: "s_owner s' = s_owner s" "rec_of s' n = forget (rec_of s n)"
    by (simp_all add: s' let_go_def Let_def r del: job_for_rec_of)
  then have "rlet_go (rec_of s' n)" using c by (simp add: forget_def)
  then show ?thesis
    using k assms(3) by (simp add: resume_def reclaim_outcome_def Let_def)
qed

theorem release_unblocks_acquire_witness:
  "let s = sched_run [Acquire ''video'' None, Acquire ''llm'' None] (scheduler_init example_jobs);
       s' = sched_step (Release ''video'') s
   in rheld (rec_of s ''video'') \<and> \<not> rheld (rec_of s' ''video'') \<and> s_owner s' = s_owner s
      \<and> rheld (rec_of (sched_step (Resume AWake) s') ''llm'')"
proof -
  let ?s = "sched_run [Acquire ''video'' None, Acquire ''llm'' None] (scheduler_init example_jobs)"
  obtain f rest t where o: "s_owner ?s = Acq f (PReclaim ''video'' rest (WLetGo t))"
    by (simp add: run_simps)
  have h: "rheld (rec_of ?s ''video'')"
    "rheld (rec_of (sched_step (Resume AWake) (sched_step (Release ''video'') ?s)) ''llm'')"
    by (simp_all add: run_simps)
  show ?thesis
    unfolding Let_def using release_unblocks_acquire [OF example_loads refl o h(1) refl] h by simp
qed

text \<open>
  Asking again is free. A caller that holds the card (and is not a container) is told so at
  once: no teardown, no change of any lease, nothing but the answer.
\<close>

theorem acquire_idempotent:
  assumes "load_jobs file = Inr js" and "s = sched_run es (scheduler_init js)"
    and "rheld (rec_of s n)" "jkind (rjob (rec_of s n)) \<noteq> KContainer"
    and "s_owner s = Free" "s_queue s = []"
  shows "sched_step (Acquire n t) s = s\<lparr>s_results := s_results s @ [(n, Granted AlreadyHeld)]\<rparr>"
proof -
  have i: "sched_inv s" using sched_run_inv [OF assms(1)] assms(2) by simp
  have "n \<in> keys s"
    using assms(3,4) by (intro nc_leased_keys) (simp add: nc_leased_def contained_def)
  then have "map_of (s_by_name s) n \<noteq> None"
    using table_ok_absent [OF inv_sets(4) [OF i]] by (simp add: keys_def map_of_eq_None_iff)
  then have j: "fst (job_for n s) = s" by (auto simp: job_for_def)
  have n: "jname (job_of s n) = n" by (rule core_ok_lookup [OF sched_inv_core [OF i]])
  have "holds (rec_of s n) = Some True"
    using assms(3,4) by (simp add: holds_def contained_def)
  then show ?thesis
    using assms(5,6) n by (simp add: acquire_eq j lock_next_def acq_start_def finish_def)
qed

theorem acquire_idempotent_witness:
  "let s = sched_run [Acquire ''llm'' None] (scheduler_init example_jobs)
   in sched_step (Acquire ''llm'' None) s
      = s\<lparr>s_results := [(''llm'', Granted NothingRunning), (''llm'', Granted AlreadyHeld)]\<rparr>"
proof -
  let ?s = "sched_run [Acquire ''llm'' None] (scheduler_init example_jobs)"
  have h: "rheld (rec_of ?s ''llm'')" "jkind (rjob (rec_of ?s ''llm'')) \<noteq> KContainer"
    "s_owner ?s = Free" "s_queue ?s = []" "s_results ?s = [(''llm'', Granted NothingRunning)]"
    by (simp_all add: run_simps)
  show ?thesis
    unfolding Let_def using acquire_idempotent [OF example_loads refl h(1-4)] h(5) by simp
qed

text \<open>What the coroutine inside waits for: an answer, the clock, a reading of the driver.\<close>

fun settling :: "event \<Rightarrow> bool" where
  "settling (Resume a) = True"
| "settling (Tick d) = True"
| "settling (Gpu t u) = True"
| "settling e = False"

definition free_again :: "sched \<Rightarrow> bool" where
  "free_again s \<longleftrightarrow> (\<exists>es. length es \<le> 3 \<and> list_all settling es \<and> s_owner (sched_run es s) = Free)"

lemma free_againI:
  "s_owner (sched_run es s) = Free \<Longrightarrow> length es \<le> 3 \<Longrightarrow> list_all settling es \<Longrightarrow> free_again s"
  by (auto simp: free_again_def)

lemma free_again_finish [simp]: "s_owner (finish f res s) = Free" "s_owner (refuse f why s) = Free"
  by (simp_all add: finish_def refuse_def)

lemma free_again_owner: "s_owner s = Acq f pc \<Longrightarrow> free_again s"
proof (cases pc)
  case PSelf
  assume o: "s_owner s = Acq f pc"
  have "s_owner (sched_run [Resume AErr] s) = Free" using o PSelf by (simp add: resume_def)
  then show ?thesis by (rule free_againI) simp_all
next
  case (PHolds n rest)
  assume o: "s_owner s = Acq f pc"
  have "s_owner (sched_run [Resume AErr] s) = Free" using o PHolds by (simp add: resume_def)
  then show ?thesis by (rule free_againI) simp_all
next
  case (PReclaim n rest p)
  assume o: "s_owner s = Acq f pc"
  define t where "t = (case p of WLetGo e \<Rightarrow> e | WKill k g e \<Rightarrow> e)"
  define s1 where "s1 = sched_step (Tick \<bar>t - s_now s\<bar>) s"
  have s1: "s_owner s1 = s_owner s" "t \<le> s_now s1" by (auto simp: s1_def)
  have "s_owner (sched_step (Resume (if \<exists>g e. p = WKill KFinal g e then AErr else ATimeout)) s1) = Free"
  proof (cases p)
    case (WLetGo e)
    then show ?thesis
      using s1 o PReclaim t_def by (simp add: resume_def reclaim_outcome_def Let_def)
  next
    case (WKill k g e)
    then show ?thesis
      using s1 o PReclaim t_def by (cases k) (simp_all add: resume_def reclaim_outcome_def Let_def)
  qed
  then have "s_owner (sched_run [Tick \<bar>t - s_now s\<bar>,
      Resume (if \<exists>g e. p = WKill KFinal g e then AErr else ATimeout)] s) = Free"
    by (simp add: s1_def del: sched_step.simps)
  then show ?thesis by (rule free_againI) simp_all
next
  case (PSettle v w d)
  assume o: "s_owner s = Acq f pc"
  have "s_owner (sched_run [Gpu None None, Tick \<bar>w - s_now s\<bar>, Resume AWake] s) = Free"
    using o PSettle
    by (simp add: resume_def free_mb_def admit_def Let_def fits_def split: option.split)
  then show ?thesis by (rule free_againI) simp_all
qed

text \<open>Wherever the coroutine that holds the lock waits, the environment can end its turn.\<close>

lemma free_again_any: "free_again s"
proof (cases "s_owner s")
  case Free
  then have "s_owner (sched_run [] s) = Free" by simp
  then show ?thesis by (rule free_againI) simp_all
next
  case (Acq f pc)
  then show ?thesis by (rule free_again_owner)
next
  case (DropDead j i)
  then have "s_owner (sched_run [Resume AErr] s) = Free"
    by (simp add: resume_def drop_resume_def reap_failed_def)
  then show ?thesis by (rule free_againI) simp_all
next
  case (FindHolder j i)
  then have "s_owner (sched_run [Resume AErr] s) = Free"
    by (simp add: resume_def find_resume_def reap_failed_def)
  then show ?thesis by (rule free_againI) simp_all
qed

section \<open>The reaper\<close>

text \<open>What a whole turn of the reaper leaves when no leased job is a container.\<close>

definition stale :: "sched \<Rightarrow> string \<Rightarrow> bool" where
  "stale s n \<longleftrightarrow> cooperative (rec_of s n) \<and> rheld (rec_of s n)
     \<and> seconds_since_poll (s_now s) (rec_of s n) > COOPERATIVE_STALE_AFTER"

lemma check_stale_rec:
  "rec_of (check_stale m s) n = (if n = m \<and> stale s m then forget (rec_of s m) else rec_of s n)"
  by (simp add: check_stale_def drop_lease_def stale_def leased_def Let_def)

lemma check_stale_fields [simp]:
  "s_now (check_stale m s) = s_now s" "s_jobs (check_stale m s) = s_jobs s"
  by (simp_all add: check_stale_def drop_lease_def Let_def)

lemma find_scan_holder:
  assumes "\<forall>n. rheld (rec_of s n) \<longrightarrow> \<not> contained (rec_of s n)"
  shows "s_holder (find_scan i js s)
      = map_option jname (find (\<lambda>j. rheld (rec_of s (jname j))) js)
    \<and> s_owner (find_scan i js s) = Free \<and> s_jobs (find_scan i js s) = s_jobs s"
  using assms
proof (induction js arbitrary: i)
  case (Cons j js)
  then show ?case
    by (cases "rheld (rec_of s (jname j))") (simp_all add: holds_def reap_done_def)
qed (simp add: reap_done_def)

lemma drop_scan_effect:
  assumes "\<forall>n. rheld (rec_of s n) \<longrightarrow> \<not> contained (rec_of s n)"
  shows "\<exists>s'. drop_scan i js s = find_scan 0 (s_jobs s') s' \<and> s_jobs s' = s_jobs s
    \<and> (\<forall>n. rec_of s' n = (if n \<in> jname ` set js \<and> stale s n then forget (rec_of s n) else rec_of s n))"
  using assms
proof (induction js arbitrary: i s)
  case Nil
  then show ?case by (intro exI [of _ s]) simp
next
  case (Cons j js)
  let ?s = "check_stale (jname j) s"
  have d: "drop_scan i (j # js) s = drop_scan (Suc i) js ?s"
    using Cons.prems by (auto simp: holds_def leased_def)
  have "\<forall>n. rheld (rec_of ?s n) \<longrightarrow> \<not> contained (rec_of ?s n)"
    using Cons.prems by (simp add: check_stale_rec)
  then obtain s' where s': "drop_scan (Suc i) js ?s = find_scan 0 (s_jobs s') s'"
    "s_jobs s' = s_jobs s"
    "\<forall>n. rec_of s' n = (if n \<in> jname ` set js \<and> stale ?s n then forget (rec_of ?s n) else rec_of ?s n)"
    using Cons.IH [of ?s "Suc i"] by auto
  have st: "stale ?s n = (stale s n \<and> n \<noteq> jname j)" for n
  proof (cases "n = jname j \<and> stale s n")
    case True
    then have "rec_of ?s n = forget (rec_of s n)" by (auto simp: check_stale_rec)
    then have "\<not> stale ?s n" by (simp add: stale_def)
    then show ?thesis using True by blast
  next
    case False
    then have "rec_of ?s n = rec_of s n" by (auto simp: check_stale_rec)
    then have "stale ?s n = stale s n" by (simp add: stale_def)
    then show ?thesis using False by blast
  qed
  have eff: "\<forall>n. rec_of s' n = (if n \<in> jname ` set (j # js) \<and> stale s n
      then forget (rec_of s n) else rec_of s n)"
  proof
    fix n
    have "rec_of s' n = (if n \<in> jname ` set js \<and> stale s n \<and> n \<noteq> jname j
        then forget (rec_of ?s n) else rec_of ?s n)"
      using s'(3) [rule_format, of n] unfolding st .
    moreover have "rec_of ?s n = (if n = jname j \<and> stale s n then forget (rec_of s n) else rec_of s n)"
      by (cases "n = jname j") (simp_all add: check_stale_rec)
    ultimately show "rec_of s' n = (if n \<in> jname ` set (j # js) \<and> stale s n
        then forget (rec_of s n) else rec_of s n)"
      by (cases "n = jname j"; cases "stale s n") simp_all
  qed
  show ?case
    by (rule exI [of _ s'], intro conjI) (rule trans [OF d s'(1)], rule s'(2), rule eff)
qed

text \<open>
  The reaper clears exactly the leases of the dead. When its turn comes and no container
  holds a lease, it ends the lease of every cooperative job that has been silent for longer than
  the limit and of no other, and what it reports as holder is the first job in rank order that
  still holds a lease.
\<close>

theorem reap_clears_stale:
  assumes "load_jobs file = Inr js" and "s = sched_run es (scheduler_init js)"
    and "s_owner s = Free" "s_queue s = []" "s_reap_at s = Some t" "t \<le> s_now s"
    and "\<forall>n. rheld (rec_of s n) \<longrightarrow> jkind (rjob (rec_of s n)) \<noteq> KContainer"
    and "s' = sched_step Reap s"
  shows "(\<forall>n. rec_of s' n = (if stale s n then forget (rec_of s n) else rec_of s n))
    \<and> s_holder s' = map_option jname (find (\<lambda>j. rheld (rec_of s' (jname j))) (s_jobs s'))
    \<and> s_owner s' = Free"
proof -
  have i: "sched_inv s" using sched_run_inv [OF assms(1)] assms(2) by simp
  let ?s = "s\<lparr>s_reap_at := None, s_queue := []\<rparr>"
  have nc: "\<forall>n. rheld (rec_of ?s n) \<longrightarrow> \<not> contained (rec_of ?s n)"
    using assms(7) by (simp add: contained_def)
  have st: "stale ?s n = stale s n" for n by (simp add: stale_def)
  obtain s1 where s1: "drop_scan 0 (s_jobs ?s) ?s = find_scan 0 (s_jobs s1) s1" "s_jobs s1 = s_jobs s"
    "\<forall>n. rec_of s1 n = (if n \<in> jname ` set (s_jobs s) \<and> stale s n then forget (rec_of s n) else rec_of s n)"
    using drop_scan_effect [OF nc, of 0 "s_jobs ?s"] by (auto simp: st)
  have s': "s' = find_scan 0 (s_jobs s1) s1"
    using assms(3-6,8) s1(1) by (simp add: reap_def lock_next_def Let_def)
  have "stale s n \<Longrightarrow> n \<in> jname ` set (s_jobs s)" for n
    using nc_leased_keys [of s n] jobs_keys [OF i] assms(7)
    by (auto simp: stale_def nc_leased_def contained_def)
  then have r: "rec_of s1 n = (if stale s n then forget (rec_of s n) else rec_of s n)" for n
    using s1(3) by auto
  have "\<forall>n. rheld (rec_of s1 n) \<longrightarrow> \<not> contained (rec_of s1 n)"
    using nc by (simp add: r)
  from find_scan_holder [OF this, of 0 "s_jobs s1"] show ?thesis
    unfolding s' by (simp add: find_scan_same r)
qed

theorem reap_clears_stale_witness:
  "let s = sched_run [Acquire ''video'' None, Tick 200] (scheduler_init example_jobs);
       s' = sched_step Reap s
   in rheld (rec_of s ''video'') \<and> \<not> rheld (rec_of s' ''video'') \<and> s_owner s' = Free"
proof -
  let ?es = "[Acquire ''video'' None, Tick 200]"
  let ?s = "sched_run ?es (scheduler_init example_jobs)"
  have h: "s_owner ?s = Free" "s_queue ?s = []" "s_reap_at ?s = Some 0" "0 \<le> s_now ?s"
    and v: "rheld (rec_of ?s ''video'')" "jkind (rjob (rec_of ?s ''video'')) = KCooperative"
    and z: "stale ?s ''video''"
    by (simp_all add: run_simps stale_def seconds_since_poll_def COOPERATIVE_STALE_AFTER_def)
  have k: "\<forall>n. rheld (rec_of ?s n) \<longrightarrow> jkind (rjob (rec_of ?s n)) \<noteq> KContainer"
    by (auto simp: run_simps split: if_splits)
  show ?thesis
    unfolding Let_def using reap_clears_stale [OF example_loads refl h k refl] v z by simp
qed

section \<open>Two executions that go wrong\<close>

text \<open>
  A lease outlives its container. A container job dies while it holds the card (Docker
  reports it down), and the llm acquires before the reaper's next turn: the loop skips the dead
  job but leaves its lease. When Docker's restart policy brings the container back and it asks
  for the card, it is told that it already holds it, while the llm's lease stands.
\<close>

theorem restarted_container_shares_the_card:
  "let s = sched_run [Acquire ''trainer'' None,
        Acquire ''llm'' None, Resume (AUp False),
        Acquire ''trainer'' None, Resume (AUp True)] (scheduler_init example_jobs)
   in s_results s = [(''trainer'', Granted NothingRunning), (''llm'', Granted NothingRunning),
                     (''trainer'', Granted AlreadyHeld)]
      \<and> rheld (rec_of s ''llm'') \<and> rheld (rec_of s ''trainer'')"
  by (simp add: run_simps)

text \<open>
  An unknown caller can break another's acquire. While an acquire of the llm is suspended in
  its loop over the reclaimers, a call under a name that is not in the job file adds an entry to
  the dict being iterated, and the llm's call ends in a \<open>RuntimeError\<close> although the card is free
  for it.
\<close>

theorem unknown_caller_breaks_acquire:
  "s_results (sched_run [Acquire ''trainer'' None, Acquire ''llm'' None, Acquire ''bench'' None,
        Resume (AUp False)] (scheduler_init example_jobs))
   = [(''trainer'', Granted NothingRunning), (''llm'', Raised RuntimeError)]"
  by (simp add: run_simps)

end
