(* ===== verification/Arbiter_Answers.thy ===== *)
theory Arbiter_Answers
  imports Arbiter_Properties
begin

text \<open>
  The bookkeeping of the calls of \<open>acquire\<close>: a call is waiting for the lock, or is the one that holds it, or has
  its result. And what a job without a container that nobody outranks can rely on: once granted, its lease ends
  only by its own release.
\<close>

section \<open>Calls in progress\<close>

definition waits_for :: "string \<Rightarrow> waiter \<Rightarrow> bool" where
  "waits_for n w = (case w of WaitAcquire j t \<Rightarrow> jname j = n | WaitReap \<Rightarrow> False)"

definition runs_for :: "string \<Rightarrow> owner \<Rightarrow> bool" where
  "runs_for n x = (case x of Acq f pc \<Rightarrow> jname (f_job f) = n | _ \<Rightarrow> False)"

definition pending :: "string \<Rightarrow> sched \<Rightarrow> nat" where
  "pending n s = length (filter (waits_for n) (s_queue s)) + (if runs_for n (s_owner s) then 1 else 0)"

definition results_for :: "string \<Rightarrow> sched \<Rightarrow> nat" where
  "results_for n s = length (filter (\<lambda>x. fst x = n) (s_results s))"

definition calls_of :: "string \<Rightarrow> event list \<Rightarrow> nat" where
  "calls_of n es = length (filter (\<lambda>e. case e of Acquire m t \<Rightarrow> m = n | _ \<Rightarrow> False) es)"

text \<open>What a segment of an acquire leaves: it is suspended, or it has reported and is over.\<close>

definition carries :: "job \<Rightarrow> sched \<Rightarrow> sched \<Rightarrow> bool" where
  "carries j s s' \<longleftrightarrow> s_queue s' = s_queue s
     \<and> ((\<exists>f pc. s_owner s' = Acq f pc \<and> f_job f = j \<and> s_results s' = s_results s)
        \<or> s_owner s' = Free \<and> (\<exists>res. s_results s' = s_results s @ [(jname j, res)]))"

lemma carries_finish: "s_queue s' = s_queue s \<Longrightarrow> s_results s' = s_results s \<Longrightarrow> f_job f = j
    \<Longrightarrow> carries j s (finish f res s')"
  by (simp add: carries_def finish_def)

lemma carries_refuse: "s_queue s' = s_queue s \<Longrightarrow> s_results s' = s_results s \<Longrightarrow> f_job f = j
    \<Longrightarrow> carries j s (refuse f why s')"
  unfolding refuse_def by (rule carries_finish) simp_all

lemma carries_suspend: "s_queue s' = s_queue s \<Longrightarrow> s_results s' = s_results s \<Longrightarrow> f_job f = j
    \<Longrightarrow> carries j s (s'\<lparr>s_owner := Acq f pc\<rparr>)"
  by (simp add: carries_def)

lemma carries_same: "s_queue t = s_queue s \<Longrightarrow> s_results t = s_results s
    \<Longrightarrow> carries j t s' = carries j s s'"
  by (simp add: carries_def)

lemmas carries_intros = carries_finish carries_refuse carries_suspend

lemma admit_carries: "f_job f = j \<Longrightarrow> carries j s (admit f s)"
  by (auto simp: admit_def Let_def intro!: carries_intros split: option.split)

lemma settle_next_carries: "f_job f = j \<Longrightarrow> carries j s (settle_next f v d s)"
  by (simp add: settle_next_def carries_intros)

lemma after_loop_carries: "f_job f = j \<Longrightarrow> carries j s (after_loop f s)"
  by (simp add: after_loop_def Let_def admit_carries settle_next_carries split: option.split)

lemma outcome_carries:
  assumes "f_job f = j"
  shows "case reclaim_outcome f m rest rs s of Inl s' \<Rightarrow> carries j s s'
    | Inr (s', f') \<Rightarrow> f_job f' = j \<and> s_queue s' = s_queue s \<and> s_results s' = s_results s"
  using assms
  by (cases "snd rs") (auto simp: reclaim_outcome_def Let_def intro!: carries_intros split: bool.split)

lemma contend_carries:
  assumes "f_job f = j"
  shows "case contend f m rest s of Inl s' \<Rightarrow> carries j s s'
    | Inr (s', f') \<Rightarrow> f_job f' = j \<and> s_queue s' = s_queue s \<and> s_results s' = s_results s"
proof (cases "jpriority (job_of s m) \<ge> jpriority (f_job f)")
  case True
  then show ?thesis using assms by (simp add: contend_def carries_refuse)
next
  case False
  let ?r = "rec_of s m"
  define s1 where "s1 = (if cooperative ?r \<and> rheld ?r then wake_notices m s else s)"
  have s1: "s_queue s1 = s_queue s" "s_results s1 = s_results s"
    by (simp_all add: s1_def) (simp add: wake_notices_def)
  have "contend f m rest s
      = reclaim_outcome f m rest (reclaim_start (s_now s) (max 1 (f_deadline f - s_now s)) ?r) s1"
    using False by (simp add: contend_def Let_def s1_def)
  then show ?thesis
    using outcome_carries [OF assms, where m = m and rest = rest and s = s1
        and rs = "reclaim_start (s_now s) (max 1 (f_deadline f - s_now s)) ?r"]
    by (simp add: s1 carries_same [OF s1] split: sum.splits prod.splits)
qed

lemma turn_carries:
  assumes "case x of Inl s' \<Rightarrow> carries j s s'
      | Inr (s', f') \<Rightarrow> f_job f' = j \<and> s_queue s' = s_queue s \<and> s_results s' = s_results s"
    and "\<And>s' f'. f_job f' = j \<Longrightarrow> carries j s' (acq_loop f' rest s')"
  shows "carries j s (case x of Inl s' \<Rightarrow> s' | Inr (s', f') \<Rightarrow> acq_loop f' rest s')"
proof (cases x)
  case (Inr y)
  obtain s' f' where y: "y = (s', f')" by force
  then have "s_queue s' = s_queue s" "s_results s' = s_results s" "carries j s' (acq_loop f' rest s')"
    using assms Inr by simp_all
  then show ?thesis using Inr y carries_same [of s' s] by simp
qed (use assms in simp)

lemma acq_loop_carries: "f_job f = j \<Longrightarrow> carries j s (acq_loop f rest s)"
proof (induction rest arbitrary: f s)
  case Nil
  then show ?case by (simp add: carries_finish after_loop_carries)
next
  case (Cons m rest)
  note t = turn_carries [OF contend_carries [OF Cons.prems, where s = s and m = m and rest = rest] Cons.IH]
  show ?case
    using Cons t by (simp add: carries_finish carries_suspend split: option.split bool.split)
qed

lemma acq_start_carries: "carries j s (acq_start j t s)"
  by (auto simp: acq_start_def Let_def acq_enter_def intro!: carries_intros acq_loop_carries
      split: option.split bool.split)

lemma acq_resume_carries:
  assumes "s_owner s = Acq f pc" shows "carries (f_job f) s (acq_resume f pc a s)"
proof -
  have same: "carries (f_job f) s s" using assms by (simp add: carries_def)
  note go = turn_carries [OF _ acq_loop_carries]
  show ?thesis
  proof (cases pc)
    case PSelf
    then show ?thesis
      using same by (auto simp: acq_enter_def intro!: carries_finish acq_loop_carries
          split: answer.split bool.split)
  next
    case (PHolds m rest)
    then show ?thesis
      using same go [OF contend_carries [OF refl, where f = f and s = s]]
          acq_loop_carries [OF refl, where f = f and s = s]
      by (auto intro!: carries_finish split: answer.split bool.split)
  next
    case (PReclaim m rest q)
    then show ?thesis using go [OF outcome_carries [OF refl]] by simp
  next
    case (PSettle v u d)
    then show ?thesis
      using same by (simp add: admit_carries settle_next_carries split: option.split)
  qed
qed

section \<open>The count\<close>

definition idles :: "sched \<Rightarrow> sched \<Rightarrow> bool" where
  "idles s s' \<longleftrightarrow> s_queue s' = s_queue s \<and> s_results s' = s_results s
     \<and> (\<forall>f pc. s_owner s' \<noteq> Acq f pc)"

lemma find_scan_idles: "idles s (find_scan i js s)"
  by (induction i js s rule: find_scan.induct)
    (auto simp: idles_def reap_done_def split: option.split bool.split)

lemma drop_scan_idles: "idles s (drop_scan i js s)"
proof (induction js arbitrary: i s)
  case (Cons j js)
  have "idles s (drop_scan (Suc i) js (drop_lease (jname j) s))"
    "idles s (drop_scan (Suc i) js (check_stale (jname j) s))"
    using Cons.IH [where i = "Suc i" and s = "drop_lease (jname j) s"]
      Cons.IH [where i = "Suc i" and s = "check_stale (jname j) s"]
    by (simp_all add: idles_def drop_lease_def check_stale_def Let_def split: if_splits)
  then show ?case by (simp add: idles_def split: option.split bool.split)
qed (simp add: find_scan_idles)

definition calls_made :: "string \<Rightarrow> sched \<Rightarrow> nat" where
  "calls_made n s = pending n s + results_for n s"

lemma calls_same: "s_queue s' = s_queue s \<Longrightarrow> s_results s' = s_results s \<Longrightarrow> s_owner s' = s_owner s
    \<Longrightarrow> calls_made n s' = calls_made n s"
  by (simp add: calls_made_def pending_def results_for_def)

lemma calls_idles: "idles s s' \<Longrightarrow> (\<And>f pc. s_owner s \<noteq> Acq f pc) \<Longrightarrow> calls_made n s' = calls_made n s"
  by (auto simp: idles_def calls_made_def pending_def results_for_def runs_for_def split: owner.split)

lemma calls_carries:
  "carries (f_job f) s s' \<Longrightarrow> s_owner s = Acq f pc \<Longrightarrow> calls_made n s' = calls_made n s"
  "carries j (s\<lparr>s_queue := ws\<rparr>) s' \<Longrightarrow> s_owner s = Free \<Longrightarrow> s_queue s = WaitAcquire j t # ws
     \<Longrightarrow> calls_made n s' = calls_made n s"
  by (auto simp: carries_def calls_made_def pending_def results_for_def runs_for_def waits_for_def)

lemma lock_next_calls: "calls_made n (lock_next s) = calls_made n s"
proof (cases "s_owner s = Free \<and> s_queue s \<noteq> []")
  case True
  then obtain w ws where q: "s_owner s = Free" "s_queue s = w # ws" by (cases "s_queue s") auto
  show ?thesis
  proof (cases w)
    case (WaitAcquire j t)
    then show ?thesis
      using q calls_carries(2) [OF acq_start_carries q(1)] by (simp add: lock_next_def)
  next
    case WaitReap
    have "calls_made n (s\<lparr>s_queue := ws\<rparr>) = calls_made n s"
      using q WaitReap by (simp add: calls_made_def pending_def results_for_def waits_for_def)
    then show ?thesis
      using q WaitReap calls_idles [OF drop_scan_idles, of "s\<lparr>s_queue := ws\<rparr>" n 0 "s_jobs s"]
      by (simp add: lock_next_def Let_def)
  qed
qed (auto simp: lock_next_def split: list.split)

lemma resume_calls: "calls_made n (resume a s) = calls_made n s"
proof (cases "s_owner s")
  case (Acq f pc)
  then show ?thesis using calls_carries(1) [OF acq_resume_carries] by (simp add: resume_def)
next
  case (DropDead j i)
  have d: "calls_made n (drop_scan k js (drop_lease m s)) = calls_made n s"
    "calls_made n (drop_scan k js (check_stale m s)) = calls_made n s" for k js m
    using calls_idles [OF drop_scan_idles, of "drop_lease m s" n k js]
      calls_idles [OF drop_scan_idles, of "check_stale m s" n k js]
      calls_same [of "drop_lease m s" s n] calls_same [of "check_stale m s" s n] DropDead
    by (simp_all add: drop_lease_def check_stale_def Let_def)
  have "calls_made n (reap_failed s) = calls_made n s"
    using DropDead by (intro calls_idles) (simp_all add: idles_def reap_failed_def)
  then show ?thesis
    using d DropDead by (simp add: resume_def drop_resume_def split: answer.split bool.split)
next
  case (FindHolder j i)
  have "calls_made n (find_scan k js s) = calls_made n s" for k js
    using FindHolder by (intro calls_idles find_scan_idles) simp
  moreover have "calls_made n (reap_failed s) = calls_made n s" "calls_made n (reap_done h s) = calls_made n s" for h
    using FindHolder by (intro calls_idles; simp add: idles_def reap_failed_def reap_done_def)+
  ultimately show ?thesis
    using FindHolder by (simp add: resume_def find_resume_def split: answer.split bool.split)
qed (simp add: resume_def)

lemma release_calls:
  "calls_made n (release m s) = calls_made n s" "calls_made n (release_reply m a s) = calls_made n s"
  "calls_made n (gpu_reclaim_notice m s) = calls_made n s" "calls_made n (notice_end m s) = calls_made n s"
  by (rule calls_same; auto simp: release_def release_reply_def let_go_def gpu_reclaim_notice_def
      notice_end_def Let_def split_beta split: option.split bool.split answer.split)+

lemma calls_clock:
  "calls_made n (s\<lparr>s_now := t\<rparr>) = calls_made n s" "calls_made n (s\<lparr>s_total := x, s_used := y\<rparr>) = calls_made n s"
  by (rule calls_same; simp)+

lemma step_calls:
  assumes i: "sched_inv s"
  shows "calls_made n (sched_step e s) = calls_made n s + (case e of Acquire m t \<Rightarrow> if m = n then 1 else 0 | _ \<Rightarrow> 0)"
proof (cases e)
  case (Acquire m t)
  let ?s = "(fst (job_for m s))\<lparr>s_queue := s_queue s @ [WaitAcquire (job_of s m)
     (case t of None \<Rightarrow> ACQUIRE_TIMEOUT | Some u \<Rightarrow> u)]\<rparr>"
  have "jname (job_of s m) = m" by (rule core_ok_lookup [OF sched_inv_core [OF i]])
  then have "calls_made n ?s = calls_made n s + (if m = n then 1 else 0)"
    by (simp add: calls_made_def pending_def results_for_def waits_for_def)
  then show ?thesis using Acquire lock_next_calls by (simp add: acquire_eq)
next
  case Reap
  then show ?thesis
    using lock_next_calls [of n "s\<lparr>s_reap_at := None, s_queue := s_queue s @ [WaitReap]\<rparr>"]
    by (simp add: reap_def split: option.split)
      (simp add: calls_made_def pending_def results_for_def waits_for_def)
qed (simp_all add: lock_next_calls resume_calls release_calls calls_clock)

lemma run_calls: "sched_inv s \<Longrightarrow> calls_made n (sched_run es s) = calls_made n s + calls_of n es"
  by (induction es arbitrary: s)
    (auto simp: calls_of_def step_calls sched_step_inv split: event.split)

section \<open>Where a lease comes from\<close>

text \<open>A segment that only lets leases go, and one that may end with a grant to \<open>j\<close>.\<close>

definition sheds :: "sched \<Rightarrow> sched \<Rightarrow> bool" where
  "sheds s s' \<longleftrightarrow> (\<forall>n. rheld (rec_of s' n) \<longrightarrow> rheld (rec_of s n)) \<and> s_results s' = s_results s"

definition gains :: "job \<Rightarrow> sched \<Rightarrow> sched \<Rightarrow> bool" where
  "gains j s s' \<longleftrightarrow> (\<forall>n. rheld (rec_of s' n) \<and> \<not> rheld (rec_of s n) \<longrightarrow>
     n = jname j \<and> (\<exists>d. s_results s' = s_results s @ [(n, Granted d)]))"

lemma sheds_refl [simp]: "sheds s s"
  by (simp add: sheds_def)

lemma sheds_trans: "sheds s t \<Longrightarrow> sheds t u \<Longrightarrow> sheds s u"
  by (simp add: sheds_def)

lemma sheds_gains: "sheds s t \<Longrightarrow> gains j t u \<Longrightarrow> gains j s u"
  unfolding sheds_def gains_def by auto

lemma gains_sheds: "sheds s t \<Longrightarrow> gains j s t"
  unfolding sheds_def gains_def by auto

lemma gains_same: "\<forall>n. rheld (rec_of s' n) \<longrightarrow> rheld (rec_of s n) \<Longrightarrow> gains j s s'"
  unfolding gains_def by blast

lemma gains_finish: "\<forall>n. rheld (rec_of s' n) \<longrightarrow> rheld (rec_of s n) \<Longrightarrow> gains j s (finish f res s')"
  "\<forall>n. rheld (rec_of s' n) \<longrightarrow> rheld (rec_of s n) \<Longrightarrow> gains j s (refuse f why s')"
  by (auto simp: gains_def finish_def refuse_def)

lemma admit_gains: "gains (f_job f) s (admit f s)"
proof -
  let ?n = "jname (f_job f)"
  have "gains (f_job f) s (finish f (Granted d) (set_rec ?n (grant t (rec_of s ?n)) s
      \<lparr>s_holder := Some ?n, s_reason := HoldsGpu ?n\<rparr>))" for d t
    by (auto simp: gains_def finish_def)
  then show ?thesis by (simp add: admit_def Let_def gains_finish split: option.split)
qed

lemma settle_next_gains: "gains j s (settle_next f v d s)"
  by (simp add: settle_next_def gains_finish) (simp add: gains_def)

lemma after_loop_gains: "f_job f = j \<Longrightarrow> gains j s (after_loop f s)"
  using admit_gains [of f s] by (simp add: after_loop_def Let_def settle_next_gains split: option.split)

lemma outcome_gains:
  assumes "rheld (fst rs) \<longrightarrow> rheld (rec_of s m)"
  shows "case reclaim_outcome f m rest rs s of Inl s' \<Rightarrow> gains j s s' | Inr (s', f') \<Rightarrow> sheds s s'"
proof -
  have h: "\<forall>n. rheld (rec_of (set_rec m (fst rs) s) n) \<longrightarrow> rheld (rec_of s n)" using assms by simp
  show ?thesis
    using h by (cases "snd rs")
      (auto simp: reclaim_outcome_def Let_def gains_finish sheds_def gains_same split: bool.split)
qed

lemma contend_gains:
  "case contend f m rest s of Inl s' \<Rightarrow> gains j s s' | Inr (s', f') \<Rightarrow> sheds s s'"
proof (cases "jpriority (job_of s m) \<ge> jpriority (f_job f)")
  case True
  then show ?thesis by (simp add: contend_def gains_finish)
next
  case False
  let ?r = "rec_of s m"
  let ?x = "reclaim_start (s_now s) (max 1 (f_deadline f - s_now s)) ?r"
  define s1 where "s1 = (if cooperative ?r \<and> rheld ?r then wake_notices m s else s)"
  have s1: "rec_of s1 n = rec_of s n" "sheds s s1" for n
    by (simp_all add: s1_def sheds_def)
  have "rheld (fst ?x) \<longrightarrow> rheld ?r" by (auto simp: reclaim_start.simps split: kind.splits)
  then have "case reclaim_outcome f m rest ?x s1 of Inl s' \<Rightarrow> gains j s1 s' | Inr (s', f') \<Rightarrow> sheds s1 s'"
    by (intro outcome_gains) (simp add: s1(1))
  moreover have "contend f m rest s = reclaim_outcome f m rest ?x s1"
    using False by (simp add: contend_def Let_def s1_def)
  ultimately show ?thesis
    using sheds_gains [OF s1(2)] sheds_trans [OF s1(2)] by (auto split: sum.splits)
qed

lemma turn_gains:
  assumes "case x of Inl s' \<Rightarrow> gains j s s' | Inr (s', f') \<Rightarrow> sheds s s'"
    and "\<And>s' f'. x = Inr (s', f') \<Longrightarrow> gains j s' (acq_loop f' rest s')"
  shows "gains j s (case x of Inl s' \<Rightarrow> s' | Inr (s', f') \<Rightarrow> acq_loop f' rest s')"
  using assms sheds_gains by (cases x) auto

lemma turn_job:
  assumes "f_job f = j"
  shows "contend f m rest s = Inr (s', f') \<Longrightarrow> f_job f' = j"
    "reclaim_outcome f m rest rs s = Inr (s', f') \<Longrightarrow> f_job f' = j"
  using contend_carries [OF assms, where m = m and rest = rest and s = s]
    outcome_carries [OF assms, where m = m and rest = rest and s = s and rs = rs] by simp_all

lemma acq_loop_gains: "f_job f = j \<Longrightarrow> gains j s (acq_loop f rest s)"
proof (induction rest arbitrary: f s)
  case Nil
  then show ?case by (simp add: gains_finish after_loop_gains)
next
  case (Cons m rest)
  have "gains j s (case contend f m rest s of Inl s' \<Rightarrow> s' | Inr (s', f') \<Rightarrow> acq_loop f' rest s')"
    by (rule turn_gains [OF contend_gains Cons.IH]) (rule turn_job(1) [OF Cons.prems])
  then show ?case using Cons by (simp add: gains_finish gains_same split: option.split bool.split)
qed

lemma acq_start_gains: "gains j s (acq_start j t s)"
  by (auto simp: acq_start_def Let_def acq_enter_def gains_finish gains_same intro!: acq_loop_gains
      split: option.split bool.split)

lemma acq_resume_gains: "gains (f_job f) s (acq_resume f pc a s)"
proof (cases pc)
  case PSelf
  then show ?thesis
    by (auto simp: acq_enter_def gains_finish gains_same intro!: acq_loop_gains split: answer.split bool.split)
next
  case (PHolds m rest)
  have "gains (f_job f) s (case contend f m rest s of Inl s' \<Rightarrow> s' | Inr (s', f') \<Rightarrow> acq_loop f' rest s')"
    by (rule turn_gains [OF contend_gains acq_loop_gains]) (rule turn_job(1) [OF refl])
  then show ?thesis
    using PHolds by (simp add: gains_finish gains_same acq_loop_gains split: answer.split bool.split)
next
  case (PReclaim m rest q)
  let ?x = "reclaim_resume (s_now s) (rec_of s m) q a"
  have "rheld (fst ?x) \<longrightarrow> rheld (rec_of s m)"
    using reclaim_resume_rheld [of "s_now s" "rec_of s m" q a "fst ?x" "snd ?x"] by simp
  then have "gains (f_job f) s (case reclaim_outcome f m rest ?x s of Inl s' \<Rightarrow> s' | Inr (s', f') \<Rightarrow> acq_loop f' rest s')"
    by (intro turn_gains [OF outcome_gains acq_loop_gains]) (auto dest: turn_job(2) [OF refl])
  then show ?thesis using PReclaim by simp
next
  case (PSettle v u d)
  then show ?thesis
    by (simp add: admit_gains settle_next_gains gains_same split: option.split)
qed

lemma find_scan_sheds: "sheds s (find_scan i js s)"
  using find_scan_quiet [of s i js] by (simp add: sheds_def find_scan_same quiet_def)

lemma drop_sheds: "sheds s (drop_lease n s)" "sheds s (check_stale n s)"
  by (simp_all add: sheds_def drop_lease_def check_stale_def Let_def)

lemma drop_scan_sheds: "sheds s (drop_scan i js s)"
proof (induction js arbitrary: i s)
  case (Cons j js)
  have own: "sheds s (s\<lparr>s_owner := x\<rparr>)" for x by (simp add: sheds_def)
  show ?case
    using sheds_trans [OF drop_sheds(1) Cons.IH] sheds_trans [OF drop_sheds(2) Cons.IH]
    by (simp add: own split: option.split bool.split)
qed (simp add: find_scan_sheds)

lemma lock_next_gains: "\<exists>j. gains j s (lock_next s)"
proof (cases "s_owner s = Free \<and> s_queue s \<noteq> []")
  case True
  then obtain w ws where q: "s_owner s = Free" "s_queue s = w # ws" by (cases "s_queue s") auto
  have t: "sheds s (s\<lparr>s_queue := ws\<rparr>)" by (simp add: sheds_def)
  show ?thesis
  proof (cases w)
    case (WaitAcquire j u)
    then show ?thesis using q sheds_gains [OF t acq_start_gains] by (auto simp: lock_next_def)
  next
    case WaitReap
    then show ?thesis
      using q sheds_trans [OF t drop_scan_sheds] by (auto simp: lock_next_def Let_def intro: gains_sheds)
  qed
qed (auto simp: lock_next_def gains_def split: list.split)

lemma release_sheds: "sched_inv s \<Longrightarrow> sheds s (release m s)" "sheds s (release_reply m a s)"
  by (auto simp: sheds_def release_def release_reply_def let_go_def Let_def split_beta job_for_same
      simp del: job_for_rec_of split: option.split bool.split answer.split if_splits)

lemma resume_gains: "\<exists>j. gains j s (resume a s)"
proof (cases "s_owner s")
  case (Acq f pc)
  then have "resume a s = acq_resume f pc a s" by (simp add: resume_def)
  then show ?thesis using acq_resume_gains by metis
next
  case (DropDead j i)
  have d: "sheds s (drop_scan k js (drop_lease m s))" "sheds s (drop_scan k js (check_stale m s))" for k js m
    by (rule sheds_trans [OF drop_sheds(1) drop_scan_sheds], rule sheds_trans [OF drop_sheds(2) drop_scan_sheds])
  have "sheds s (reap_failed s)" by (simp add: sheds_def reap_failed_def)
  with d have "sheds s (drop_resume j i a s)"
    by (simp add: drop_resume_def split: answer.split bool.split)
  moreover have "resume a s = drop_resume j i a s" using DropDead by (simp add: resume_def)
  ultimately show ?thesis using gains_sheds by metis
next
  case (FindHolder j i)
  have "sheds s (reap_failed s)" "sheds s (reap_done h s)" for h
    by (simp_all add: sheds_def reap_failed_def reap_done_def)
  then have "sheds s (find_resume j i a s)"
    by (simp add: find_resume_def find_scan_sheds split: answer.split bool.split)
  moreover have "resume a s = find_resume j i a s" using FindHolder by (simp add: resume_def)
  ultimately show ?thesis using gains_sheds by metis
qed (simp add: resume_def gains_def)

text \<open>A lease begins only in a step that reports a grant to its job.\<close>

lemma step_gains:
  assumes i: "sched_inv s" and g: "\<not> rheld (rec_of s n)" "rheld (rec_of (sched_step e s) n)"
  shows "\<exists>d. s_results (sched_step e s) = s_results s @ [(n, Granted d)]"
proof -
  have "\<exists>j. gains j s (sched_step e s)"
  proof (cases e)
    case (Acquire m t)
    let ?s = "(fst (job_for m s))\<lparr>s_queue := s_queue s @ [WaitAcquire (job_of s m)
       (case t of None \<Rightarrow> ACQUIRE_TIMEOUT | Some u \<Rightarrow> u)]\<rparr>"
    have "sheds s ?s" using job_for_same [OF i] by (simp add: sheds_def del: job_for_rec_of)
    then have "\<exists>j. gains j s (lock_next ?s)" using lock_next_gains [of ?s] sheds_gains by blast
    then show ?thesis using Acquire by (simp add: acquire_eq)
  next
    case Reap
    let ?s = "s\<lparr>s_reap_at := None, s_queue := s_queue s @ [WaitReap]\<rparr>"
    have "sheds s ?s" by (simp add: sheds_def)
    then have "\<exists>j. gains j s (lock_next ?s)" using lock_next_gains [of ?s] sheds_gains by blast
    then show ?thesis using Reap gains_sheds [OF sheds_refl] by (auto simp: reap_def split: option.split)
  next
    case LockNext
    then show ?thesis using lock_next_gains by simp
  next
    case (Resume a)
    then show ?thesis using resume_gains by simp
  next
    case (Release m)
    then show ?thesis using gains_sheds [OF release_sheds(1) [OF i]] by auto
  next
    case (ReleaseReply m a)
    then show ?thesis using gains_sheds [OF release_sheds(2)] by auto
  qed (use gains_same [of "sched_step e s" s] notice_same in \<open>simp_all\<close>)
  then show ?thesis using g unfolding gains_def by blast
qed

section \<open>A lease nobody outranks\<close>

lemma check_stale_keeps: "\<not> cooperative (rec_of s n) \<Longrightarrow> rec_of (check_stale m s) n = rec_of s n"
  by (auto simp: check_stale_rec stale_def)

lemma drop_scan_keeps:
  assumes "\<not> cooperative (rec_of s n)" "\<not> contained (rec_of s n)"
  shows "rheld (rec_of s n) \<Longrightarrow> rheld (rec_of (drop_scan i js s) n)"
  using assms
proof (induction js arbitrary: i s)
  case (Cons j js)
  have d: "rec_of (drop_lease m s) n = rec_of s n" if "m \<noteq> n" for m
    using that by (simp add: drop_lease_def)
  have c: "rec_of (check_stale m s) n = rec_of s n" for m
    using Cons.prems by (simp add: check_stale_keeps)
  have h: "rheld (rec_of (drop_scan (Suc i) js t) n)" if "rec_of t n = rec_of s n" for t
    using that Cons by simp
  show ?case
  proof (cases "jname j = n")
    case True
    then have "holds (rec_of s (jname j)) = Some True" using Cons.prems by (simp add: holds_def)
    then show ?thesis using h c by simp
  next
    case False
    then show ?thesis using h c d Cons.prems by (simp split: option.split bool.split)
  qed
qed (simp add: find_scan_same)

lemma lock_next_reap_keeps:
  assumes "next_waiter s = Some WaitReap" "\<not> cooperative (rec_of s n)" "\<not> contained (rec_of s n)"
    "rheld (rec_of s n)"
  shows "rheld (rec_of (lock_next s) n)"
proof -
  obtain ws where "s_owner s = Free" "s_queue s = WaitReap # ws"
    using assms(1) by (cases "s_queue s") (auto simp: next_waiter_def split: if_splits)
  then show ?thesis
    using assms drop_scan_keeps [of "s\<lparr>s_queue := ws\<rparr>" n 0 "s_jobs s"]
    by (simp add: lock_next_def Let_def)
qed

lemma reaper_keeps:
  assumes i: "sched_inv s" and r: "reaper_runs e s"
    and k: "\<not> cooperative (rec_of s n)" "\<not> contained (rec_of s n)" and h: "rheld (rec_of s n)"
  shows "rheld (rec_of (sched_step e s) n)"
proof (cases e)
  case (Acquire m t)
  let ?s = "(fst (job_for m s))\<lparr>s_queue := s_queue s @ [WaitAcquire (job_of s m)
     (case t of None \<Rightarrow> ACQUIRE_TIMEOUT | Some u \<Rightarrow> u)]\<rparr>"
  have "next_waiter ?s = Some WaitReap"
    using r Acquire by (subst next_waiter_enqueue [of ?s s]) (auto simp: next_waiter_def split: if_splits)
  then show ?thesis
    using lock_next_reap_keeps [of ?s n] k h Acquire job_for_same [OF i]
    by (simp add: acquire_eq del: job_for_rec_of)
next
  case Reap
  let ?s = "s\<lparr>s_reap_at := None, s_queue := s_queue s @ [WaitReap]\<rparr>"
  have "next_waiter ?s = Some WaitReap"
    using r Reap by (subst next_waiter_enqueue [of ?s s]) (auto simp: next_waiter_def split: if_splits)
  then show ?thesis
    using lock_next_reap_keeps [of ?s n] k h Reap by (simp add: reap_def split: option.split)
next
  case LockNext
  then show ?thesis using lock_next_reap_keeps r k h by simp
next
  case (Resume a)
  then obtain j m where o: "s_owner s = DropDead j m" using r by (auto split: owner.splits)
  then have "contained (rec_of s (jname j))" using i by (simp add: sched_inv_def)
  then have n: "jname j \<noteq> n" using k by auto
  have "rheld (rec_of (drop_scan x js t) n)" if "rec_of t n = rec_of s n" for x js t
    using drop_scan_keeps that k h by simp
  moreover have "rec_of (drop_lease (jname j) s) n = rec_of s n"
    "rec_of (check_stale (jname j) s) n = rec_of s n"
    using n k by (simp_all add: drop_lease_def check_stale_keeps)
  ultimately show ?thesis
    using Resume o h by (simp add: resume_def drop_resume_def reap_failed_def split: answer.split bool.split)
qed (use r in simp_all)

definition first_rank :: "sched \<Rightarrow> string \<Rightarrow> bool" where
  "first_rank s n \<longleftrightarrow> jkind (job_of s n) = KNone \<and> (\<forall>m. jpriority (job_of s m) \<le> jpriority (job_of s n))"

lemma first_rank_kind:
  assumes "sched_inv s" "first_rank s n"
  shows "\<not> cooperative (rec_of s n)" "\<not> contained (rec_of s n)"
  using assms core_ok_lookup(2) [OF sched_inv_core, of s n]
  by (simp_all add: first_rank_def cooperative_def contained_def)

lemma step_first_rank: "sched_inv s \<Longrightarrow> first_rank s n \<Longrightarrow> first_rank (sched_step e s) n"
  by (simp add: first_rank_def step_job_of)

text \<open>The lease of such a job ends only by its own release.\<close>

lemma first_rank_keeps:
  assumes i: "sched_inv s" and f: "first_rank s n" and h: "rheld (rec_of s n)"
    and e: "e \<noteq> Release n" "\<And>a. e \<noteq> ReleaseReply n a"
  shows "rheld (rec_of (sched_step e s) n)"
proof (rule ccontr)
  assume l: "\<not> rheld (rec_of (sched_step e s) n)"
  show False
  proof (cases "acquirer e s")
    case None
    then show False
      using step_idle [OF i None _ h l] reaper_keeps [OF i _ first_rank_kind [OF i f] h] l e by blast
  next
    case (Some j)
    have "jpriority (job_of s n) < jpriority j"
      using step_takes [OF i Some] h l by (simp add: takes_def)
    moreover have "jpriority j \<le> jpriority (job_of s n)"
      using acquirer_job [OF i Some] f by (metis first_rank_def)
    ultimately show False by simp
  qed
qed

text \<open>A step only adds results, and a grant it adds for a job without a container comes with the lease.\<close>

lemma step_results:
  assumes i: "sched_inv s"
  shows "\<exists>rs. s_results (sched_step e s) = s_results s @ rs
    \<and> (\<forall>n d. (n, Granted d) \<in> set rs \<and> \<not> contained (rec_of s n) \<longrightarrow> rheld (rec_of (sched_step e s) n))"
proof (cases "acquirer e s")
  case None
  then show ?thesis using step_quiet [OF None] by (simp add: quiet_def)
next
  case (Some j)
  show ?thesis
  proof (cases "self_check e s")
    case True
    then obtain f where f: "e = Resume (AUp True)" "s_owner s = Acq f PSelf" by (auto simp: self_check_def)
    then have "contained (rec_of s (jname (f_job f)))" using i by (simp add: sched_inv_def)
    then show ?thesis using f by (auto simp: resume_def finish_def)
  next
    case False
    then have "reports j s (sched_step e s)" using step_takes [OF i Some] by blast
    then show ?thesis by (auto simp: reports_def grant_ok_def)
  qed
qed


text \<open>
  The calls a job has made are those still waiting for the lock, the one that holds it, and one result each for all
  the others.
\<close>

lemma answered_once:
  assumes "load_jobs file = Inr js"
  shows "calls_of n es = pending n (sched_run es (scheduler_init js))
    + length (filter (\<lambda>x. fst x = n) (s_results (sched_run es (scheduler_init js))))"
proof -
  have "sched_inv (scheduler_init js)" using sched_run_inv [OF assms, of "[]"] by simp
  then show ?thesis
    using run_calls [of "scheduler_init js" n es]
    by (simp add: calls_made_def results_for_def) (simp add: pending_def scheduler_init_def runs_for_def)
qed

end
