(* ===== verification/Arbiter_Progress.thy ===== *)
theory Arbiter_Progress
  imports Arbiter_Answers
begin

text \<open>
  How long an \<open>acquire\<close> of \<open>arbiter/scheduler.py\<close> can hold the lock. Its loops are bounded by three clocks: the
  grace period and the \<open>wait_for\<close> around a reclaim, and the deadline of \<open>_wait_for_vram_to_settle\<close>. A rank of the
  suspension points counts the turns that are left; every turn that moves the coroutine lowers it.
\<close>

section \<open>Polls before a deadline\<close>

definition polls :: "real \<Rightarrow> real \<Rightarrow> nat" where
  "polls rate t = nat \<lceil>rate * t\<rceil>"

lemma polls_mono: "t \<le> u \<Longrightarrow> 0 \<le> rate \<Longrightarrow> polls rate t \<le> polls rate u"
  unfolding polls_def by (intro nat_mono ceiling_mono mult_left_mono) simp_all

lemma polls_step: "rate * d = 1 \<Longrightarrow> 0 < rate \<Longrightarrow> 0 < t \<Longrightarrow> polls rate (t - d) + 1 = polls rate t"
proof -
  assume d: "rate * d = 1" "0 < rate" "0 < t"
  then have "rate * (t - d) = rate * t - 1" by (simp add: algebra_simps)
  moreover have "\<lceil>rate * t\<rceil> > 0" using d by simp
  moreover have "nat (c - 1) + 1 = nat c" if "c > 0" for c :: int using that by simp
  ultimately show ?thesis unfolding polls_def by (metis ceiling_diff_one)
qed

section \<open>The turns of a reclaim\<close>

text \<open>
  \<open>10\<close> and \<open>5\<close> are the polls per second after the kill and in the grace period; \<open>e\<close> is the end of the \<open>wait_for\<close>,
  \<open>g\<close> that of the grace period.
\<close>

fun kill_left :: "real \<Rightarrow> real \<Rightarrow> real \<Rightarrow> kill_pc \<Rightarrow> nat" where
  "kill_left g e now KFinal = 1"
| "kill_left g e now KKillUp = 2 * polls 10 (e - now) + 2"
| "kill_left g e now (KKillSleep t) = 2 * polls 10 (e - max t now) + 3"
| "kill_left g e now KKill = 2 * polls 10 (e - now) + 3"
| "kill_left g e now KTermUp = 2 * polls 10 (e - now) + 3 + 2 * polls 5 (g - now) + 2"
| "kill_left g e now (KTermSleep t) = 2 * polls 10 (e - max t now) + 3
     + (if max t now < g then 2 * polls 5 (g - max t now) + 3 else 1)"
| "kill_left g e now KTerm = 2 * polls 10 (e - now) + 3 + 2 * polls 5 (g - now) + 3"

fun reclaim_left :: "real \<Rightarrow> reclaim_pc \<Rightarrow> nat" where
  "reclaim_left now (WLetGo e) = 1"
| "reclaim_left now (WKill k g e) = kill_left g e now k"

text \<open>
  What a point of suspension waits for. Docker answers a call or it raises, a sleep ends when its time has come,
  and once a \<open>wait_for\<close> is over only its timeout resumes what is inside it.
\<close>

fun kill_due :: "real \<Rightarrow> kill_pc \<Rightarrow> answer \<Rightarrow> bool" where
  "kill_due now (KTermSleep t) a \<longleftrightarrow> a = AWake \<and> t \<le> now"
| "kill_due now (KKillSleep t) a \<longleftrightarrow> a = AWake \<and> t \<le> now"
| "kill_due now KTerm a \<longleftrightarrow> a \<in> {AKilled, AErr}"
| "kill_due now KKill a \<longleftrightarrow> a \<in> {AKilled, AErr}"
| "kill_due now k a \<longleftrightarrow> a \<in> {AUp True, AUp False, AErr}"

fun reclaim_due :: "real \<Rightarrow> reclaimer \<Rightarrow> reclaim_pc \<Rightarrow> answer \<Rightarrow> bool" where
  "reclaim_due now r (WLetGo e) a \<longleftrightarrow> a = ATimeout \<and> e \<le> now \<or> a = AWake \<and> rlet_go r"
| "reclaim_due now r (WKill k g e) a \<longleftrightarrow> (if k \<noteq> KFinal \<and> e \<le> now then a = ATimeout else kill_due now k a)"

definition reclaim_limit :: "real \<Rightarrow> nat" where
  "reclaim_limit t = 2 * polls 10 t + 2 * polls 5 t + 6"

lemma reclaim_left_pos: "reclaim_left now p > 0"
proof (cases p)
  case (WKill k g e)
  then show ?thesis by (cases k) simp_all
qed simp

lemma reclaim_left_mono: "now \<le> now' \<Longrightarrow> reclaim_left now' p \<le> reclaim_left now p"
proof (cases p)
  case (WKill k g e)
  assume t: "now \<le> now'"
  have m: "polls 10 (e - now') \<le> polls 10 (e - now)" "polls 5 (g - now') \<le> polls 5 (g - now)"
    "polls 10 (e - max u now') \<le> polls 10 (e - max u now)" "polls 5 (g - max u now') \<le> polls 5 (g - max u now)" for u
    by (intro polls_mono; use t in simp)+
  show ?thesis
  proof (cases k)
    case (KTermSleep u)
    have "max u now \<le> max u now'" using t by simp
    then show ?thesis using m(3,4) [of u] unfolding WKill KTermSleep reclaim_left.simps kill_left.simps by auto
  qed (use WKill m(1,2) m(3) in \<open>auto intro: add_mono\<close>)
qed simp

lemma kill_left_step:
  assumes e: "now < e" and a: "kill_due now k a"
    and r: "kill_resume now g k a = Some k'"
  shows "kill_left g e now k' < kill_left g e now k"
proof -
  have c: "polls 10 (e - now - 1 / 10) + 1 = polls 10 (e - now)" using e by (intro polls_step) simp_all
  have m: "polls 10 (e - now - 1 / 5) \<le> polls 10 (e - now)" by (intro polls_mono) simp_all
  have d: "polls 5 (g - now - 1 / 5) + 1 = polls 5 (g - now)" if "now < g" using that by (intro polls_step) simp_all
  show ?thesis
    using r a c m d
    by (cases "(now, g, k, a)" rule: kill_resume.cases)
      (auto simp: grace_next_def max_def diff_diff_eq split: if_splits)
qed

lemma kill_due_moves:
  "kill_due now k a \<Longrightarrow> k \<noteq> KFinal \<Longrightarrow> (a = AErr \<and> awaits_docker k) \<or> (\<exists>k'. kill_resume now g k a = Some k')"
  by (cases k) (auto simp: awaits_docker_def)

text \<open>What comes when it is due moves the reclaim, and leaves it fewer turns.\<close>

lemma reclaim_left_step:
  assumes a: "reclaim_due now r p a" and w: "snd (reclaim_resume now r p a) = RWait p'"
  shows "reclaim_left now p' < reclaim_left now p"
proof (cases p)
  case (WLetGo e)
  then show ?thesis using a w by (auto split: if_splits)
next
  case (WKill k g e)
  show ?thesis
  proof (cases "k = KFinal")
    case True
    then show ?thesis using a w WKill by auto
  next
    case False
    then have e: "now < e" "kill_due now k a"
      using a w WKill by (cases k; cases "e \<le> now"; simp)+
    have t: "a \<noteq> ATimeout" using e(2) by (cases k) auto
    obtain k' where "kill_resume now g k a = Some k'" "p' = WKill k' g e"
      using kill_due_moves [OF e(2) False, of g] w WKill False t by (cases k) (auto split: if_splits option.splits)
    then show ?thesis using kill_left_step [OF e] WKill by simp
  qed
qed

lemma reclaim_left_start:
  assumes "snd (reclaim_start now t r) = RWait p" "t \<le> t'"
  shows "reclaim_left now p \<le> reclaim_limit t'"
proof -
  have "polls 10 t \<le> polls 10 t'" "polls 5 (min (of_int (jstop_timeout (rjob r))) t) \<le> polls 5 t'"
    using assms(2) by (intro polls_mono; simp)+
  then show ?thesis
    using assms(1) by (cases "jkind (rjob r)") (auto simp: reclaim_start.simps reclaim_limit_def split: if_splits)
qed

section \<open>The turns of an acquire\<close>

text \<open>One turn for each \<open>holds()\<close> of another job, the reclaim after it, and two polls a second for the settling.\<close>

definition round_limit :: "real \<Rightarrow> nat" where
  "round_limit timeout = reclaim_limit (max 1 timeout) + 1"

definition SETTLE_POLLS :: nat where
  "SETTLE_POLLS = 61"

definition acquire_limit :: "real \<Rightarrow> nat \<Rightarrow> nat" where
  "acquire_limit timeout jobs = jobs * round_limit timeout + SETTLE_POLLS + 1"

fun acq_left :: "nat \<Rightarrow> real \<Rightarrow> frame \<Rightarrow> acq_pc \<Rightarrow> nat" where
  "acq_left jobs now f PSelf = acquire_limit (f_timeout f) jobs"
| "acq_left jobs now f (PHolds n rest) = Suc (length rest) * round_limit (f_timeout f) + SETTLE_POLLS"
| "acq_left jobs now f (PReclaim n rest p) = reclaim_left now p + length rest * round_limit (f_timeout f) + SETTLE_POLLS"
| "acq_left jobs now f (PSettle v wake deadline) = 1 + polls 2 (deadline - wake)"

definition left :: "nat \<Rightarrow> sched \<Rightarrow> nat" where
  "left jobs s = (case s_owner s of Acq f pc \<Rightarrow> acq_left jobs (s_now s) f pc | _ \<Rightarrow> 0)"

text \<open>The deadline was set when the loop began, so it is not further off than the caller's timeout.\<close>

definition in_time :: "real \<Rightarrow> sched \<Rightarrow> bool" where
  "in_time timeout s = (case s_owner s of
     Acq f pc \<Rightarrow> f_timeout f = timeout \<and> (pc = PSelf \<or> f_deadline f \<le> s_now s + timeout) | _ \<Rightarrow> True)"

definition ends_below :: "real \<Rightarrow> nat \<Rightarrow> real \<Rightarrow> nat \<Rightarrow> sched \<Rightarrow> bool" where
  "ends_below timeout jobs now n s \<longleftrightarrow> s_now s = now \<and> in_time timeout s \<and> left jobs s \<le> n"

lemma ends_below_free [simp]: "ends_below t jobs now n (finish f res s) \<longleftrightarrow> s_now s = now"
  "ends_below t jobs now n (refuse f why s) \<longleftrightarrow> s_now s = now"
  by (simp_all add: ends_below_def in_time_def left_def finish_def refuse_def)

lemma ends_below_mono: "ends_below t jobs now m s \<Longrightarrow> m \<le> n \<Longrightarrow> ends_below t jobs now n s"
  by (simp add: ends_below_def)

lemma now_set_rec [simp]: "s_now (set_rec n r s) = s_now s" "s_now (wake_notices n s) = s_now s"
  by (simp_all add: set_rec_def wake_notices_def)

lemma admit_below [simp]: "ends_below t jobs now n (admit f s) \<longleftrightarrow> s_now s = now"
  by (simp add: admit_def Let_def split: option.split)

lemma settle_next_below:
  assumes "f_timeout f = t" "f_deadline f \<le> s_now s + t" "deadline \<le> s_now s + 30"
  shows "ends_below t jobs (s_now s) SETTLE_POLLS (settle_next f v deadline s)"
proof -
  have "polls 2 (deadline - (s_now s + 0.5)) \<le> polls 2 30" using assms(3) by (intro polls_mono) simp_all
  then show ?thesis using assms
    by (simp add: settle_next_def) (simp add: ends_below_def in_time_def left_def SETTLE_POLLS_def polls_def)
qed

lemma after_loop_below:
  assumes "f_timeout f = t" "f_deadline f \<le> s_now s + t"
  shows "ends_below t jobs (s_now s) SETTLE_POLLS (after_loop f s)"
proof -
  have "max 1 (min VRAM_SETTLE_TIMEOUT (f_deadline f - s_now s)) \<le> 30" by (simp add: VRAM_SETTLE_TIMEOUT_def)
  then show ?thesis using assms
    by (simp add: after_loop_def Let_def settle_next_below split: option.split)
qed

text \<open>What a turn of the loop body leaves: the loop goes on with the same deadline, or the coroutine is below.\<close>

definition body_below :: "real \<Rightarrow> nat \<Rightarrow> real \<Rightarrow> nat \<Rightarrow> frame \<Rightarrow> sched + sched \<times> frame \<Rightarrow> bool" where
  "body_below t jobs now n f x \<longleftrightarrow> (case x of
     Inl s \<Rightarrow> ends_below t jobs now n s
   | Inr (s, f') \<Rightarrow> s_now s = now \<and> f_timeout f' = f_timeout f \<and> f_deadline f' = f_deadline f)"

lemma outcome_below:
  assumes "f_timeout f = t" "f_deadline f \<le> s_now s + t"
    and "\<And>p. snd rs = RWait p \<Longrightarrow> reclaim_left (s_now s) p + length rest * round_limit t + SETTLE_POLLS \<le> n"
  shows "body_below t jobs (s_now s) n f (reclaim_outcome f other rest rs s)"
  using assms
  by (auto simp: reclaim_outcome_def body_below_def Let_def split: reclaim_status.splits bool.splits)
    (simp add: ends_below_def in_time_def left_def)

lemma contend_below:
  assumes "f_timeout f = t" "f_deadline f \<le> s_now s + t"
  shows "body_below t jobs (s_now s) (Suc (length rest) * round_limit t - 1 + SETTLE_POLLS) f (contend f other rest s)"
proof (cases "jpriority (job_of s other) \<ge> jpriority (f_job f)")
  case True
  then show ?thesis by (simp add: contend_def body_below_def)
next
  case False
  let ?r = "rec_of s other" and ?t = "max 1 (f_deadline f - s_now s)"
  define s1 where "s1 = (if cooperative ?r \<and> rheld ?r then wake_notices other s else s)"
  have n: "s_now s1 = s_now s" by (simp add: s1_def)
  have "body_below t jobs (s_now s1) (Suc (length rest) * round_limit t - 1 + SETTLE_POLLS) f
      (reclaim_outcome f other rest (reclaim_start (s_now s) ?t ?r) s1)"
  proof (rule outcome_below)
    fix p assume p: "snd (reclaim_start (s_now s) ?t ?r) = RWait p"
    have "?t \<le> max 1 t" using assms(2) by simp
    from reclaim_left_start [OF p this]
    show "reclaim_left (s_now s1) p + length rest * round_limit t + SETTLE_POLLS
        \<le> Suc (length rest) * round_limit t - 1 + SETTLE_POLLS"
      by (simp add: n round_limit_def)
  qed (use assms n in simp_all)
  then show ?thesis using False by (simp add: contend_def Let_def s1_def n [unfolded s1_def])
qed

lemma acq_loop_below:
  "f_timeout f = t \<Longrightarrow> f_deadline f \<le> s_now s + t \<Longrightarrow>
     ends_below t jobs (s_now s) (length rest * round_limit t + SETTLE_POLLS) (acq_loop f rest s)"
proof (induction rest arbitrary: f s)
  case Nil
  then show ?case by (simp add: after_loop_below)
next
  case (Cons other rest)
  let ?n = "Suc (length rest) * round_limit t + SETTLE_POLLS"
  have skip: "ends_below t jobs (s_now s) ?n (acq_loop f rest s)"
    using Cons.IH [OF Cons.prems] by (rule ends_below_mono) simp
  have holds: "ends_below t jobs (s_now s) ?n (s\<lparr>s_owner := Acq f (PHolds other rest)\<rparr>)"
    using Cons.prems by (simp add: ends_below_def in_time_def left_def)
  have taken: "ends_below t jobs (s_now s) ?n (case contend f other rest s of Inl s' \<Rightarrow> s' | Inr (s', f') \<Rightarrow> acq_loop f' rest s')"
  proof (cases "contend f other rest s")
    case (Inl s')
    then show ?thesis using contend_below [OF Cons.prems, of jobs rest other]
      by (auto simp: body_below_def elim: ends_below_mono)
  next
    case (Inr x)
    obtain s' f' where x: "x = (s', f')" by force
    then have "s_now s' = s_now s" "f_timeout f' = t" "f_deadline f' \<le> s_now s' + t"
      using contend_below [OF Cons.prems, of jobs rest other] Inr Cons.prems by (simp_all add: body_below_def)
    with Cons.IH [OF this(2,3)] show ?thesis using Inr x by (auto elim: ends_below_mono)
  qed
  show ?case using skip holds taken by (simp split: option.split bool.split)
qed

lemma length_dkeys: "length (dkeys d) = length d"
  by (simp add: dkeys_def)

text \<open>What the coroutine that holds the lock waits for; of the reaper's turns nothing is asked.\<close>

definition due :: "answer \<Rightarrow> sched \<Rightarrow> bool" where
  "due a s = (case s_owner s of
     Acq f pc \<Rightarrow>
       (case pc of
          PReclaim n rest p \<Rightarrow> reclaim_due (s_now s) (rec_of s n) p a
        | PSettle v wake deadline \<Rightarrow> a = AWake \<and> wake \<le> s_now s
        | _ \<Rightarrow> a \<in> {AUp True, AUp False, AErr})
   | _ \<Rightarrow> True)"

text \<open>A turn with what was due leaves fewer.\<close>

definition fewer_left :: "real \<Rightarrow> nat \<Rightarrow> sched \<Rightarrow> sched \<Rightarrow> bool" where
  "fewer_left t jobs s s' \<longleftrightarrow> (\<exists>n < left jobs s. ends_below t jobs (s_now s) n s')"

lemma fewer_leftI: "ends_below t jobs (s_now s) n s' \<Longrightarrow> n < left jobs s \<Longrightarrow> fewer_left t jobs s s'"
  by (auto simp: fewer_left_def)

lemma fewer_left_finish:
  "s_owner s = Acq f pc \<Longrightarrow> fewer_left t jobs s (finish f res s)"
proof -
  assume o: "s_owner s = Acq f pc"
  have "left jobs s > 0" using o reclaim_left_pos
    by (cases pc) (simp_all add: left_def acquire_limit_def round_limit_def)
  then show ?thesis by (auto simp: fewer_left_def)
qed

lemma resume_self_below:
  assumes o: "s_owner s = Acq f PSelf" and t: "f_timeout f = t" and n: "length (s_recs s) \<le> jobs" and a: "due a s"
  shows "fewer_left t jobs s (acq_resume f PSelf a s)"
proof -
  have "ends_below t jobs (s_now s) (length (s_recs s) * round_limit t + SETTLE_POLLS) (acq_enter f s)"
    using acq_loop_below [of "f\<lparr>f_deadline := s_now s + f_timeout f, f_stopped := [], f_size := length (s_recs s)\<rparr>" t s jobs "dkeys (s_recs s)"] t
    by (simp add: acq_enter_def length_dkeys)
  moreover have "left jobs s = jobs * round_limit t + SETTLE_POLLS + 1" using t o by (simp add: left_def acquire_limit_def)
  then have "length (s_recs s) * round_limit t + SETTLE_POLLS < left jobs s"
    using mult_le_mono1 [OF n, of "round_limit t"] by linarith
  ultimately have "fewer_left t jobs s (acq_enter f s)" by (rule fewer_leftI)
  then show ?thesis using fewer_left_finish [OF o] a o by (auto simp: due_def)
qed

lemma body_left:
  assumes b: "body_below t jobs (s_now s) n f x" and f: "f_timeout f = t" "f_deadline f \<le> s_now s + t"
    and n: "n < left jobs s" "length rest * round_limit t + SETTLE_POLLS < left jobs s"
  shows "fewer_left t jobs s (case x of Inl s' \<Rightarrow> s' | Inr (s', f') \<Rightarrow> acq_loop f' rest s')"
proof (cases x)
  case (Inl s')
  then show ?thesis using b n(1) by (auto simp: body_below_def intro: fewer_leftI)
next
  case (Inr y)
  obtain s' f' where y: "y = (s', f')" by force
  then have k: "s_now s' = s_now s" "f_timeout f' = t" "f_deadline f' \<le> s_now s' + t"
    using b Inr f by (simp_all add: body_below_def)
  have "ends_below t jobs (s_now s) (length rest * round_limit t + SETTLE_POLLS) (acq_loop f' rest s')"
    using acq_loop_below [OF k(2,3), of jobs rest] k(1) by simp
  then show ?thesis using n(2) Inr y by (auto intro: fewer_leftI)
qed

lemma resume_holds_below:
  assumes o: "s_owner s = Acq f (PHolds n rest)" and t: "f_timeout f = t" "f_deadline f \<le> s_now s + t" and a: "due a s"
  shows "fewer_left t jobs s (acq_resume f (PHolds n rest) a s)"
proof -
  have l: "left jobs s = Suc (length rest) * round_limit t + SETTLE_POLLS" "round_limit t > 0"
    using o t by (simp_all add: left_def round_limit_def)
  have "fewer_left t jobs s (acq_loop f rest s)"
    using acq_loop_below [OF t, of jobs rest] l by (auto intro: fewer_leftI)
  moreover have "fewer_left t jobs s (case contend f n rest s of Inl s' \<Rightarrow> s' | Inr (s', f') \<Rightarrow> acq_loop f' rest s')"
    using l by (intro body_left [OF contend_below [OF t] t]) simp_all
  ultimately show ?thesis using fewer_left_finish [OF o] a o by (auto simp: due_def)
qed

lemma resume_reclaim_below:
  assumes o: "s_owner s = Acq f (PReclaim n rest p)" and t: "f_timeout f = t" "f_deadline f \<le> s_now s + t" and a: "due a s"
  shows "fewer_left t jobs s (acq_resume f (PReclaim n rest p) a s)"
proof -
  let ?rs = "reclaim_resume (s_now s) (rec_of s n) p a"
  let ?m = "reclaim_left (s_now s) p + length rest * round_limit t + SETTLE_POLLS"
  have l: "left jobs s = ?m" using o t by (simp add: left_def)
  have d: "reclaim_due (s_now s) (rec_of s n) p a" using a o by (simp add: due_def)
  have "reclaim_left (s_now s) p' + length rest * round_limit t + SETTLE_POLLS \<le> ?m - 1" if "snd ?rs = RWait p'" for p'
    using reclaim_left_step [OF d that] by linarith
  then have "body_below t jobs (s_now s) (?m - 1) f (reclaim_outcome f n rest ?rs s)"
    by (rule outcome_below [OF t])
  from body_left [OF this t, of rest] show ?thesis
    using reclaim_left_pos [of "s_now s" p] by (simp add: l)
qed

lemma resume_settle_below:
  assumes o: "s_owner s = Acq f (PSettle v wake deadline)" and t: "f_timeout f = t" "f_deadline f \<le> s_now s + t" and a: "due a s"
  shows "fewer_left t jobs s (acq_resume f (PSettle v wake deadline) a s)"
proof -
  have "fewer_left t jobs s (settle_next f v' deadline s)" if w: "wake \<le> s_now s" for v'
  proof (cases "s_now s < deadline")
    case True
    have "polls 2 (deadline - s_now s - 1 / 2) + 1 = polls 2 (deadline - s_now s)" using True by (intro polls_step) simp_all
    moreover have "polls 2 (deadline - s_now s) \<le> polls 2 (deadline - wake)" using w by (intro polls_mono) simp_all
    ultimately have "1 + polls 2 (deadline - s_now s - 1 / 2) < left jobs s" using o by (simp add: left_def)
    then show ?thesis using True t
      by (intro fewer_leftI) (simp_all add: settle_next_def ends_below_def in_time_def, simp add: left_def diff_diff_eq)
  next
    case False
    then show ?thesis using o by (intro fewer_leftI [of _ _ _ 0]) (simp_all add: settle_next_def left_def)
  qed
  moreover have "fewer_left t jobs s (admit f s)"
    using o by (intro fewer_leftI [of _ _ _ 0]) (simp_all add: left_def)
  ultimately show ?thesis using a o by (simp add: due_def split: option.split)
qed

lemma acq_resume_below:
  assumes o: "s_owner s = Acq f pc" and t: "in_time (f_timeout f) s" and n: "length (s_recs s) \<le> jobs" and a: "due a s"
  shows "fewer_left (f_timeout f) jobs s (acq_resume f pc a s)"
proof (cases pc)
  case PSelf
  then show ?thesis using resume_self_below o n a by auto
next
  case (PHolds m rest)
  then show ?thesis using resume_holds_below o t a by (auto simp: in_time_def)
next
  case (PReclaim m rest p)
  then show ?thesis using resume_reclaim_below o t a by (auto simp: in_time_def)
next
  case (PSettle v w d)
  then show ?thesis using resume_settle_below o t a by (auto simp: in_time_def)
qed

section \<open>An acquire comes to its end\<close>

text \<open>Every answer comes when it is due, and how many come.\<close>

fun timely :: "event list \<Rightarrow> sched \<Rightarrow> bool" where
  "timely [] s \<longleftrightarrow> True"
| "timely (e # es) s \<longleftrightarrow> (case e of Resume a \<Rightarrow> due a s | _ \<Rightarrow> True) \<and> timely es (sched_step e s)"

definition answers_in :: "event list \<Rightarrow> nat" where
  "answers_in es = length (filter (\<lambda>e. case e of Resume a \<Rightarrow> True | _ \<Rightarrow> False) es)"

lemma answers_in_simps [simp]:
  "answers_in [] = 0" "answers_in (e # es) = (case e of Resume a \<Rightarrow> 1 | _ \<Rightarrow> 0) + answers_in es"
  by (simp_all add: answers_in_def split: event.split)

text \<open>The arbiter knows at most so many jobs at every moment; an unknown caller is one more.\<close>

fun known :: "nat \<Rightarrow> event list \<Rightarrow> sched \<Rightarrow> bool" where
  "known jobs [] s \<longleftrightarrow> length (s_recs s) \<le> jobs"
| "known jobs (e # es) s \<longleftrightarrow> length (s_recs s) \<le> jobs \<and> known jobs es (sched_step e s)"

lemma other_step_keeps:
  assumes "s_owner s = Acq f pc" "\<And>a. e \<noteq> Resume a"
  shows "s_owner (sched_step e s) = s_owner s \<and> s_results (sched_step e s) = s_results s \<and> s_now s \<le> s_now (sched_step e s)"
  using assms
  by (cases e)
    (auto simp: acquire_eq lock_next_def reap_def release_def release_reply_def let_go_def gpu_reclaim_notice_def notice_end_def
      job_for_def set_rec_def Let_def split_beta split: option.split bool.split answer.split)

lemma in_time_later:
  "s_owner s = Acq f pc \<Longrightarrow> in_time t s \<Longrightarrow> s_owner s' = s_owner s \<Longrightarrow> s_now s \<le> s_now s' \<Longrightarrow> in_time t s' \<and> left jobs s' \<le> left jobs s"
  using reclaim_left_mono [of "s_now s" "s_now s'"]
  by (cases pc) (auto simp: in_time_def left_def)

lemma left_pos: "s_owner s = Acq f pc \<Longrightarrow> left jobs s > 0"
  using reclaim_left_pos by (cases pc) (simp_all add: left_def acquire_limit_def round_limit_def)

lemma acquire_ends_inside:
  assumes "s_owner s = Acq f pc" "f_job f = j" "in_time t s" "timely es s"
    and "known jobs es s" "answers_in es \<ge> left jobs s"
  shows "\<exists>k res. s_owner (sched_run (take k es) s) = Free \<and> s_results (sched_run (take k es) s) = s_results s @ [(jname j, res)]"
  using assms
proof (induction es arbitrary: s f pc)
  case Nil
  then show ?case using left_pos [OF Nil.prems(1), of jobs] by simp
next
  case (Cons e es)
  let ?s = "sched_step e s"
  have n: "length (s_recs s) \<le> jobs" "known jobs es ?s" using Cons.prems(5) by simp_all
  have go: ?case if "s_owner ?s = Acq f' pc'" "f_job f' = j" "s_results ?s = s_results s" "in_time t ?s" "answers_in es \<ge> left jobs ?s" for f' pc'
    using Cons.IH [OF that(1,2,4) _ n(2) that(5)] Cons.prems(4) that(3)
    by (metis timely.simps(2) sched_run_simps(2) take_Suc_Cons)
  show ?case
  proof (cases "\<exists>a. e = Resume a")
    case True
    then obtain a where a: "e = Resume a" by blast
    then have s: "?s = acq_resume f pc a s" using Cons.prems(1) by (simp add: resume_def)
    have t: "f_timeout f = t" using Cons.prems(1,3) by (simp add: in_time_def)
    have x: "due a s" using Cons.prems(4) a by simp
    consider (out) res where "s_owner ?s = Free" "s_results ?s = s_results s @ [(jname j, res)]"
      | (inn) f' pc' where "s_owner ?s = Acq f' pc'" "f_job f' = j" "s_results ?s = s_results s"
      using acq_resume_carries [OF Cons.prems(1), of a] Cons.prems(2) unfolding s carries_def by blast
    then show ?thesis
    proof cases
      case out
      then show ?thesis by (intro exI [of _ "1::nat"] exI [of _ res]) simp
    next
      case inn
      have "in_time t ?s \<and> left jobs ?s < left jobs s"
        using acq_resume_below [OF Cons.prems(1) _ n(1) x] Cons.prems(3) t
        unfolding s by (auto simp: fewer_left_def ends_below_def)
      then show ?thesis using go [OF inn] Cons.prems(6) a by simp
    qed
  next
    case False
    note k = other_step_keeps [OF Cons.prems(1), of e]
    have "in_time t ?s \<and> left jobs ?s \<le> left jobs s"
      using in_time_later [OF Cons.prems(1,3), of ?s jobs] k False by blast
    moreover have "answers_in (e # es) = answers_in es" using False by (auto split: event.split)
    ultimately show ?thesis using go [of f pc] k False Cons.prems(1,2,6) by (metis le_trans)
  qed
qed

text \<open>
  C4: An acquire that got the lock is answered. From the moment it takes the lock, whatever Docker and the driver
  answer and whatever else happens meanwhile, each answer or timer its coroutine waits for moves it on, and after as
  many of them as the limit says it has released the lock with one result for its caller. The limit is, for each
  job the arbiter knows, two turns for each of the ten polls a second after a kill and the five in the grace
  period, over the caller's timeout, and sixty polls for the memory to settle. What is relied on is that a
  \<open>wait_for\<close> whose time is over ends.
\<close>

theorem acquire_ends:
  assumes "s_owner s = Free" "s_queue s = WaitAcquire j timeout # ws"
    and "timely es (lock_next s)"
    and "length (s_recs s) \<le> jobs" "known jobs es (lock_next s)"
    and "answers_in es \<ge> acquire_limit timeout jobs"
  shows "\<exists>k res. s_owner (sched_run (take k es) (lock_next s)) = Free
    \<and> s_results (sched_run (take k es) (lock_next s)) = s_results s @ [(jname j, res)]"
proof -
  let ?s = "s\<lparr>s_queue := ws\<rparr>"
  have s: "lock_next s = acq_start j timeout ?s" using assms(1,2) by (simp add: lock_next_def)
  let ?f = "\<lparr>f_job = j, f_timeout = timeout, f_deadline = 0, f_stopped = [], f_size = 0\<rparr>"
  have "ends_below timeout jobs (s_now s) (acquire_limit timeout jobs) (acq_enter ?f ?s)"
  proof (rule ends_below_mono)
    show "ends_below timeout jobs (s_now s) (length (s_recs s) * round_limit timeout + SETTLE_POLLS) (acq_enter ?f ?s)"
      using acq_loop_below [of "?f\<lparr>f_deadline := s_now s + timeout, f_stopped := [], f_size := length (s_recs s)\<rparr>"
          timeout ?s jobs "dkeys (s_recs s)"]
      by (simp add: acq_enter_def length_dkeys)
    show "length (s_recs s) * round_limit timeout + SETTLE_POLLS \<le> acquire_limit timeout jobs"
      unfolding acquire_limit_def using mult_le_mono1 [OF assms(4), of "round_limit timeout"] by linarith
  qed
  then have b: "ends_below timeout jobs (s_now s) (acquire_limit timeout jobs) (lock_next s)"
    unfolding s acq_start_def by (auto simp: ends_below_def in_time_def left_def finish_def Let_def split: option.split bool.split)
  consider (out) res where "s_owner (lock_next s) = Free" "s_results (lock_next s) = s_results s @ [(jname j, res)]"
    | (inn) f pc where "s_owner (lock_next s) = Acq f pc" "f_job f = j" "s_results (lock_next s) = s_results s"
    using acq_start_carries [of j ?s timeout] unfolding s carries_def by auto
  then show ?thesis
  proof cases
    case out
    then show ?thesis by (intro exI [of _ "0::nat"] exI [of _ res]) simp
  next
    case inn
    have "in_time timeout (lock_next s)" "left jobs (lock_next s) \<le> answers_in es"
      using b assms(6) by (simp_all add: ends_below_def)
    with acquire_ends_inside [OF inn(1,2) _ assms(3,5)] inn(3) show ?thesis by simp
  qed
qed

text \<open>
  One container job. The lock is free and an acquire of the job, which has a lease already, is next: Docker says
  that its container is gone, so it is granted anew. The reaper's turns after it make up the number.
\<close>

definition lone_job :: job where
  "lone_job = \<lparr>jname = ''c'', jkind = KContainer, jcontainer = ''c'', jpriority = 1, jrequired_mb = 0, jstop_timeout = 10\<rparr>"

definition next_is_waiting :: sched where
  "next_is_waiting = sched_run [Acquire ''c'' (Some 1), Reap, Acquire ''c'' (Some 1), Resume (AUp True), Resume (AUp True)]
     (scheduler_init [lone_job])"

definition reaper_turns :: "event list" where
  "reaper_turns = Resume (AUp False) # concat (replicate 49 [Tick 15, Reap, Resume (AUp True), Resume (AUp True)])"

theorem acquire_ends_witness:
  "\<exists>k res. s_owner (sched_run (take k reaper_turns) (lock_next next_is_waiting)) = Free
    \<and> s_results (sched_run (take k reaper_turns) (lock_next next_is_waiting)) = s_results next_is_waiting @ [(''c'', res)]"
proof -
  have q: "s_owner next_is_waiting = Free" "s_queue next_is_waiting = WaitAcquire lone_job 1 # []"
    "length (s_recs next_is_waiting) \<le> 1" by code_simp+
  have e: "timely reaper_turns (lock_next next_is_waiting)" "known 1 reaper_turns (lock_next next_is_waiting)"
    "answers_in reaper_turns \<ge> acquire_limit 1 1" by code_simp+
  show ?thesis using acquire_ends [OF q(1,2) e(1) q(3) e(2,3)] by (simp add: lone_job_def)
qed

end
