(* ===== verification/Arbiter_Gpu.thy ===== *)
theory Arbiter_Gpu
  imports Prelude
begin

text \<open>
  \<open>arbiter/gpu.py\<close>: what \<open>nvidia-smi\<close> prints and what is concluded from it, for the headroom check of
  the scheduler and for a client that waits for its worker's memory. Each call of \<open>nvidia-smi\<close> is
  given; a wait is given as its polls, each with the clock and the two answers it may ask for.
\<close>

section \<open>float\<close>

text \<open>
  \<open>float(s)\<close>: mantissa and power of ten, before rounding to a double. Digits may be grouped by single
  underscores.
\<close>

datatype py_float = Finite int int | Infinite | NotANumber

function digit_part :: "string \<Rightarrow> string \<times> string" where
  "digit_part [] = ([], [])"
| "digit_part (c # cs) =
     (if \<not> is_digit c then ([], c # cs)
      else let (ds, r) = digit_part (case cs of u # d # r \<Rightarrow> if u = CHR ''_'' \<and> is_digit d then d # r else cs | _ \<Rightarrow> cs)
           in (c # ds, r))"
  by pat_completeness auto
termination by (relation "measure length") (auto split: list.splits)

definition signed :: "string \<Rightarrow> bool \<times> string" where
  "signed s =
     (case s of [] \<Rightarrow> (False, []) | c # r \<Rightarrow> if c = CHR ''-'' then (True, r) else if c = CHR ''+'' then (False, r) else (False, s))"

text \<open>The exponent, \<open>None\<close> if the text ends here otherwise than a number may.\<close>

definition exponent :: "string \<Rightarrow> int option" where
  "exponent s =
     (case s of
        [] \<Rightarrow> Some 0
      | c # r \<Rightarrow>
          if lower_char c \<noteq> CHR ''e'' then None
          else let (neg, r1) = signed r; (ds, rest) = digit_part r1
               in if ds = [] \<or> rest \<noteq> [] then None
                  else Some (if neg then - int (dec_val 0 ds) else int (dec_val 0 ds)))"

definition float_literal :: "string \<Rightarrow> py_float option" where
  "float_literal s =
     (let (neg, s1) = signed s in
      if map lower_char s1 = ''inf'' \<or> map lower_char s1 = ''infinity'' then Some Infinite
      else if map lower_char s1 = ''nan'' then Some NotANumber
      else let (a, r1) = digit_part s1;
               (b, r2) = (case r1 of c # r \<Rightarrow> if c = CHR ''.'' then digit_part r else ([], r1) | [] \<Rightarrow> ([], []))
           in if a @ b = [] then None
              else case exponent r2 of
                     None \<Rightarrow> None
                   | Some e \<Rightarrow>
                       let m = int (dec_val 0 (a @ b))
                       in Some (Finite (if neg then - m else m) (e - int (length b))))"

text \<open>\<open>int(v)\<close> of such a number cuts off the fraction.\<close>

definition truncated :: "int \<Rightarrow> int \<Rightarrow> int" where
  "truncated m e = (if e \<ge> 0 then m * 10 ^ nat e else sgn m * (\<bar>m\<bar> div 10 ^ nat (- e)))"

text \<open>\<open>int(float(s))\<close>.\<close>

definition int_of_float :: "string \<Rightarrow> int result" where
  "int_of_float s =
     (case float_literal (strip s) of
        None \<Rightarrow> Inl ValueError
      | Some NotANumber \<Rightarrow> Inl ValueError
      | Some Infinite \<Rightarrow> Inl OverflowError
      | Some (Finite m e) \<Rightarrow> Inr (truncated m e))"

section \<open>nvidia-smi\<close>

datatype smi = SmiMissing | SmiTimeout | SmiExit int string

datatype gpu_error = NvidiaSmiUnavailable | Other py_error

type_synonym 'a gpu = "gpu_error + 'a"

definition bindG :: "'a gpu \<Rightarrow> ('a \<Rightarrow> 'b gpu) \<Rightarrow> 'b gpu" where
  "bindG m f = (case m of Inl e \<Rightarrow> Inl e | Inr x \<Rightarrow> f x)"

definition lift_py :: "'a result \<Rightarrow> 'a gpu" where
  "lift_py m = (case m of Inl e \<Rightarrow> Inl (Other e) | Inr x \<Rightarrow> Inr x)"

lemma bindG_simps [simp]: "bindG (Inl e) f = Inl e" "bindG (Inr x) f = f x"
  by (simp_all add: bindG_def)

lemma bindG_eq_Inr: "bindG m f = Inr y \<longleftrightarrow> (\<exists>x. m = Inr x \<and> f x = Inr y)"
  by (cases m) auto

definition run_smi :: "smi \<Rightarrow> string list gpu" where
  "run_smi a =
     (case a of
        SmiExit rc out \<Rightarrow>
          if rc \<noteq> 0 then Inl NvidiaSmiUnavailable else Inr (filter (\<lambda>l. l \<noteq> []) (map strip (splitlines out)))
      | _ \<Rightarrow> Inl NvidiaSmiUnavailable)"

definition memory_mb :: "smi \<Rightarrow> int gpu" where
  "memory_mb a =
     bindG (run_smi a) (\<lambda>ls. case ls of [] \<Rightarrow> Inl NvidiaSmiUnavailable | l # _ \<Rightarrow> lift_py (int_of_float l))"

fun pid_lines :: "string list \<Rightarrow> (int \<times> int) list \<Rightarrow> (int \<times> int) list gpu" where
  "pid_lines [] d = Inr d"
| "pid_lines (l # ls) d =
     (let parts = map strip (split_on '','' l) in
      if length parts < 2 then pid_lines ls d
      else case bindE (int_of_float (parts ! 1)) (\<lambda>mb. bindE (py_int (JStr (parts ! 0))) (\<lambda>pid. Inr (pid, mb))) of
             Inr (pid, mb) \<Rightarrow> pid_lines ls (dset pid mb d)
           | Inl e \<Rightarrow> if e = ValueError then pid_lines ls d else Inl (Other e))"

definition compute_pids :: "smi \<Rightarrow> (int \<times> int) list gpu" where
  "compute_pids a = bindG (run_smi a) (\<lambda>ls. pid_lines ls [])"

definition pid_holds_gpu :: "int \<Rightarrow> smi \<Rightarrow> bool gpu" where
  "pid_holds_gpu pid a =
     (case compute_pids a of
        Inl e \<Rightarrow> if e = NvidiaSmiUnavailable then Inr False else Inl e
      | Inr d \<Rightarrow> Inr (pid \<in> fst ` set d))"

text \<open>What the scheduler reads as the free memory; \<open>Inr None\<close> means that it could not be read.\<close>

definition free_reading :: "smi \<Rightarrow> smi \<Rightarrow> int option result" where
  "free_reading total_answer used_answer =
     (case bindG (memory_mb total_answer) (\<lambda>t. bindG (memory_mb used_answer) (\<lambda>u. Inr (t - u))) of
        Inr f \<Rightarrow> Inr (Some f)
      | Inl NvidiaSmiUnavailable \<Rightarrow> Inr None
      | Inl (Other e) \<Rightarrow> Inl e)"

section \<open>Waiting for a release\<close>

record smi_poll =
  p_clock :: real
  p_apps :: smi
  p_memory :: smi

text \<open>\<open>None\<close>: still waiting when the polls given are over.\<close>

fun wait_loop :: "int \<Rightarrow> real \<Rightarrow> smi_poll list \<Rightarrow> bool gpu option" where
  "wait_loop pid deadline [] = None"
| "wait_loop pid deadline (p # ps) =
     (if \<not> p_clock p < deadline then Some (Inr False)
      else case bindG (pid_holds_gpu pid (p_apps p))
                  (\<lambda>held. if held then Inr None else bindG (memory_mb (p_memory p)) (\<lambda>others. Inr (Some others))) of
             Inr (Some others) \<Rightarrow> Some (Inr True)
           | Inr None \<Rightarrow> wait_loop pid deadline ps
           | Inl NvidiaSmiUnavailable \<Rightarrow> Some (Inr False)
           | Inl e \<Rightarrow> Some (Inl e))"

definition wait_for_release :: "int option \<Rightarrow> real \<Rightarrow> real \<Rightarrow> smi_poll list \<Rightarrow> bool gpu option" where
  "wait_for_release pid timeout start ps =
     (case pid of None \<Rightarrow> Some (Inr True) | Some p \<Rightarrow> wait_loop p (start + timeout) ps)"

definition describe :: "(real \<Rightarrow> string) \<Rightarrow> smi \<Rightarrow> smi \<Rightarrow> smi \<Rightarrow> string result" where
  "describe why apps used_answer total_answer =
     (case bindG (compute_pids apps) (\<lambda>procs. bindG (memory_mb used_answer) (\<lambda>u. bindG (memory_mb total_answer) (\<lambda>t.
             Inr (str_int u @ ''/'' @ str_int t @ '' MiB used, '' @ str_nat (length procs) @ '' compute process(es): [''
                  @ join '', '' (map str_int (sort (dkeys procs))) @ '']'')))) of
        Inr s \<Rightarrow> Inr s
      | Inl NvidiaSmiUnavailable \<Rightarrow> Inr ''unavailable''
      | Inl (Other e) \<Rightarrow> Inl e)"

section \<open>What a confirmation means\<close>

text \<open>A poll at which the worker was seen, and one that lets the wait confirm.\<close>

definition seen_at :: "int \<Rightarrow> real \<Rightarrow> smi_poll \<Rightarrow> bool" where
  "seen_at pid deadline p \<longleftrightarrow> p_clock p < deadline \<and> pid_holds_gpu pid (p_apps p) = Inr True"

definition confirms_at :: "int \<Rightarrow> real \<Rightarrow> smi_poll \<Rightarrow> bool" where
  "confirms_at pid deadline p \<longleftrightarrow> p_clock p < deadline
     \<and> ((\<exists>d. compute_pids (p_apps p) = Inr d \<and> pid \<notin> fst ` set d) \<or> compute_pids (p_apps p) = Inl NvidiaSmiUnavailable)
     \<and> (\<exists>mb. memory_mb (p_memory p) = Inr mb)"

lemma not_held_iff:
  "pid_holds_gpu pid a = Inr False
     \<longleftrightarrow> (\<exists>d. compute_pids a = Inr d \<and> pid \<notin> fst ` set d) \<or> compute_pids a = Inl NvidiaSmiUnavailable"
  by (auto simp: pid_holds_gpu_def split: sum.splits)

lemma wait_loop_seen: "seen_at pid deadline p \<Longrightarrow> wait_loop pid deadline (p # ps) = wait_loop pid deadline ps"
  by (simp add: seen_at_def)

lemma wait_loop_decides:
  "\<not> seen_at pid deadline p \<Longrightarrow> wait_loop pid deadline (p # ps) \<noteq> None
     \<and> (wait_loop pid deadline (p # ps) = Some (Inr True) \<longleftrightarrow> confirms_at pid deadline p)"
  by (cases "pid_holds_gpu pid (p_apps p)"; cases "memory_mb (p_memory p)")
    (auto simp: seen_at_def confirms_at_def not_held_iff [symmetric] split: gpu_error.splits)

lemma first_split:
  "(\<exists>qs q rs. x # xs = qs @ q # rs \<and> list_all S qs \<and> C q)
     \<longleftrightarrow> C x \<or> (S x \<and> (\<exists>qs q rs. xs = qs @ q # rs \<and> list_all S qs \<and> C q))" (is "?l \<longleftrightarrow> C x \<or> ?r")
proof
  assume "C x \<or> ?r"
  then show ?l
  proof
    assume "C x"
    then have "x # xs = [] @ x # xs \<and> list_all S [] \<and> C x" by simp
    then show ?l by blast
  next
    assume ?r
    then obtain qs q rs where "x # xs = (x # qs) @ q # rs" "list_all S (x # qs)" "C q" by auto
    then show ?l by blast
  qed
qed (auto simp: Cons_eq_append_conv, blast)

text \<open>
  A release is confirmed exactly at the first poll at which the worker is not seen, in time and with
  the memory readable: its absence from the list of processes, or a list that could not be read.
\<close>

theorem release_confirmed_iff:
  "wait_for_release (Some pid) timeout start ps = Some (Inr True)
     \<longleftrightarrow> (\<exists>qs p rs. ps = qs @ p # rs \<and> list_all (seen_at pid (start + timeout)) qs \<and> confirms_at pid (start + timeout) p)"
proof -
  have "wait_loop pid deadline ps = Some (Inr True)
     \<longleftrightarrow> (\<exists>qs p rs. ps = qs @ p # rs \<and> list_all (seen_at pid deadline) qs \<and> confirms_at pid deadline p)" for deadline
  proof (induction ps)
    case (Cons p ps)
    have "\<not> (seen_at pid deadline p \<and> confirms_at pid deadline p)"
      by (auto simp: seen_at_def confirms_at_def not_held_iff [symmetric])
    then show ?case
      using Cons.IH wait_loop_seen [of pid deadline p ps] wait_loop_decides [of pid deadline p ps]
      unfolding first_split by (cases "seen_at pid deadline p") simp_all
  qed simp
  then show ?thesis by (simp add: wait_for_release_def)
qed

text \<open>
  C31: The wait ends: each poll sleeps before the next, so with a poll interval there is an answer after
  at most one more poll than intervals fit into the timeout.
\<close>

theorem wait_ends:
  fixes interval start timeout :: real
  assumes "0 < interval" and "\<forall>i < length ps. p_clock (ps ! i) \<ge> start + interval * real i"
    and "timeout \<le> interval * real (length ps - 1)" and "ps \<noteq> []"
  shows "wait_for_release pid timeout start ps \<noteq> None"
proof -
  have still: "wait_loop q deadline qs = None \<Longrightarrow> p \<in> set qs \<Longrightarrow> p_clock p < deadline" for q deadline qs p
    by (induction qs) (auto split: if_splits sum.splits option.splits gpu_error.splits)
  have "p_clock (last ps) \<ge> start + interval * real (length ps - 1)"
    using assms(2) assms(4) by (cases ps) (auto simp: last_conv_nth)
  then have late: "\<not> p_clock (last ps) < start + timeout" using assms(3) by linarith
  show ?thesis
    using still [of _ "start + timeout" ps "last ps"] late assms(4)
    by (auto simp: wait_for_release_def split: option.splits)
qed

definition polled :: "real \<Rightarrow> string \<Rightarrow> smi_poll" where
  "polled t apps = \<lparr>p_clock = t, p_apps = SmiExit 0 apps, p_memory = SmiExit 0 (''20480'' @ [nlc])\<rparr>"

theorem wait_ends_witness:
  "wait_for_release (Some 41) 1 0 [polled 0 ''41, 900'', polled 1 ''41, 900'', polled 2 ''41, 900''] \<noteq> None
   \<and> wait_for_release (Some 41) 1 0 [polled 0 ''41, 900'', polled 1 ''41, 900'', polled 2 ''41, 900''] = Some (Inr False)"
proof (rule conjI)
  show "wait_for_release (Some 41) 1 0 [polled 0 ''41, 900'', polled 1 ''41, 900'', polled 2 ''41, 900''] \<noteq> None"
    by (rule wait_ends [where interval = 1]) (auto simp: polled_def less_Suc_eq)
qed code_simp

text \<open>
  The process list that fails and the memory query that answers a moment later confirm the release
  of a worker that may well be running; so does a worker whose memory the driver does not tell.
\<close>

lemma failed_list_confirms:
  "wait_for_release (Some 41) 60 0 [\<lparr>p_clock = 1, p_apps = SmiTimeout, p_memory = SmiExit 0 ''20480''\<rparr>] = Some (Inr True)"
  by code_simp

lemma hidden_memory_confirms:
  "wait_for_release (Some 41) 60 0 [polled 1 ''41, [N/A]''] = Some (Inr True)"
  by code_simp

text \<open>A card whose memory is not told as a number makes the scheduler's reading raise.\<close>

lemma unreadable_memory_raises: "free_reading (SmiExit 0 ''24576'') (SmiExit 0 ''[N/A]'') = Inl ValueError"
  by code_simp

lemma failed_memory_unknown: "free_reading (SmiExit 0 ''24576'') (SmiExit 9 []) = Inr None"
  by code_simp

lemma free_memory_read: "free_reading (SmiExit 0 ''24576'') (SmiExit 0 ''1024'') = Inr (Some 23552)"
  by code_simp

text \<open>A whole number, as the driver prints it, is read as it is.\<close>

lemma digit_part_digits: "\<forall>c\<in>set ds. is_digit c \<Longrightarrow> digit_part ds = (ds, [])"
proof (induction ds)
  case (Cons c cs)
  have "(case cs of u # d # r \<Rightarrow> if u = CHR ''_'' \<and> is_digit d then d # r else cs | _ \<Rightarrow> cs) = cs"
    using Cons.prems is_digit_not [of "hd cs"] by (auto simp del: digit_part.simps split: list.split)
  moreover have "digit_part cs = (cs, [])" using Cons.IH Cons.prems by simp
  ultimately show ?case using Cons.prems by (simp only: digit_part.simps Let_def prod.case) simp
qed simp

lemma digit_no_letter: "is_digit c \<Longrightarrow> lower_char c = c \<and> c \<noteq> CHR ''i'' \<and> c \<noteq> CHR ''n''"
proof (intro conjI)
  assume d: "is_digit c"
  then have "(of_char c :: int) \<le> 57" by (auto simp: is_digit_def digit_val_def Let_def split: if_splits)
  moreover have "int (of_char c) = (of_char c :: int)" by (rule of_nat_of_char)
  ultimately have "(of_char c :: nat) \<le> 57" by linarith
  then show "lower_char c = c" by (simp add: lower_char_def)
  have "\<not> is_digit (CHR ''i'')" "\<not> is_digit (CHR ''n'')" by code_simp+
  with d show "c \<noteq> CHR ''i''" "c \<noteq> CHR ''n''" by auto
qed

lemma int_of_float_str_nat: "int_of_float (str_nat n) = Inr (int n)"
proof -
  obtain c cs where s: "str_nat n = c # cs" by (cases "str_nat n") auto
  then have d: "is_digit c" using str_nat_digits [of n] by simp
  moreover have "strip (str_nat n) = str_nat n"
    using str_nat_digits [of n] is_digit_not by (intro strip_unspaced) blast
  ultimately show ?thesis
    using digit_part_digits [OF str_nat_digits, of n] is_digit_not [of c] digit_no_letter [of c] dec_val_str_nat [of n] s
    by (simp add: int_of_float_def float_literal_def signed_def exponent_def truncated_def del: digit_part.simps)
qed

end
