(* ===== verification/Proxy_Main.thy ===== *)
theory Proxy_Main
  imports Prelude
begin

text \<open>
  \<open>proxy/state.py\<close>, \<open>proxy/main.py\<close>: the requests of the swappable slot and the idle evictor.
  \<open>OrchestratorState\<close> is part of the record \<open>proxy\<close>; each request is a coroutine cut at its
  awaits (\<open>phase\<close>), and so is the evictor (\<open>evictor\<close>). \<open>asyncio.Lock\<close> is its holder and the
  queue of its waiters. What the proxy sends to the arbiter is a log (\<open>p_sent\<close>); the arbiter, the
  router and the clients are the environment, whose answers are events.

  The body of a forwarded stream, metrics and logging are not modelled.
\<close>

section \<open>Routing\<close>

text \<open>\<open>_extract_model\<close>; \<open>json.loads\<close> is a parameter that reports bad JSON as \<open>ValueError\<close>.\<close>

definition extract_model :: "(string \<Rightarrow> json result) \<Rightarrow> string \<Rightarrow> json option result" where
  "extract_model loads body =
     (if body = [] then Inr None
      else case loads body of
             Inl ValueError \<Rightarrow> Inr None
           | Inl e \<Rightarrow> Inl e
           | Inr (JObj kvs) \<Rightarrow>
               (case map_of kvs ''model'' of
                  None \<Rightarrow> Inr None | Some JNull \<Rightarrow> Inr None | Some v \<Rightarrow> Inr (Some v))
           | Inr v \<Rightarrow> Inr None)"

datatype route = Permanent | AutocompleteOff | Swappable json | NoModel

text \<open>The membership test hashes the value, which a list or a dict refuses.\<close>

definition hashable :: "json \<Rightarrow> bool" where
  "hashable v = (case v of JList xs \<Rightarrow> False | JObj kvs \<Rightarrow> False | _ \<Rightarrow> True)"

definition route_of :: "bool \<Rightarrow> json option \<Rightarrow> route result" where
  "route_of autocomplete_enabled model =
     (case model of
        None \<Rightarrow> Inr NoModel
      | Some m \<Rightarrow>
          if \<not> hashable m then Inl TypeError
          else if m = JStr ''autocomplete''
          then Inr (if autocomplete_enabled then Permanent else AutocompleteOff)
          else Inr (Swappable m))"

section \<open>State\<close>

datatype phase =
    PAcquire    \<comment> \<open>awaiting \<open>arbiter.acquire()\<close>\<close>
  | PLock       \<comment> \<open>awaiting \<open>state.lock.acquire()\<close>\<close>
  | PSend       \<comment> \<open>in \<open>_forward\<close>, up to the first byte\<close>
  | PStream     \<comment> \<open>the response stream is open\<close>

datatype evictor =
    ESleep real                     \<comment> \<open>until this time\<close>
  | EResident                       \<comment> \<open>awaiting the list of resident models\<close>
  | EUnload "string list"           \<comment> \<open>awaiting the unload of the first\<close>
  | EVerify real                    \<comment> \<open>awaiting the list again, deadline\<close>
  | EPause real real                \<comment> \<open>sleeping between two checks; deadline\<close>
  | ERelease                        \<comment> \<open>awaiting \<open>arbiter.release()\<close>\<close>

datatype message = MAcquire nat | MRelease

datatype outcome = Served int | Refused503 | Failed

record proxy =
  p_current :: "json option"
  p_lock :: "nat option"
  p_waiters :: "nat list"
  p_depth :: nat
  p_inflight :: nat
  p_last_swap :: "real option"
  p_last_request :: "real option"
  p_reqs :: "(nat \<times> phase \<times> json) list"
  p_evictor :: evictor
  p_sent :: "message list"
  p_done :: "(nat \<times> outcome) list"
  p_now :: real

definition IDLE_EVICT_SECONDS :: real where "IDLE_EVICT_SECONDS = 600"
definition IDLE_EVICT_POLL_SECONDS :: real where "IDLE_EVICT_POLL_SECONDS = 30"
definition IDLE_EVICT_UNLOAD_TIMEOUT :: real where "IDLE_EVICT_UNLOAD_TIMEOUT = 60"

definition proxy_init :: proxy where
  "proxy_init = \<lparr>p_current = None, p_lock = None, p_waiters = [], p_depth = 0, p_inflight = 0,
     p_last_swap = None, p_last_request = None, p_reqs = [],
     p_evictor = ESleep IDLE_EVICT_POLL_SECONDS, p_sent = [], p_done = [], p_now = 0\<rparr>"

text \<open>\<open>max(0, n - 1)\<close> is subtraction of natural numbers.\<close>

definition increment_queue :: "proxy \<Rightarrow> proxy" where
  "increment_queue s = s\<lparr>p_depth := p_depth s + 1\<rparr>"

definition decrement_queue :: "proxy \<Rightarrow> proxy" where
  "decrement_queue s = s\<lparr>p_depth := p_depth s - 1\<rparr>"

definition llm_request_started :: "proxy \<Rightarrow> proxy" where
  "llm_request_started s = s\<lparr>p_inflight := p_inflight s + 1\<rparr>"

definition llm_request_finished :: "proxy \<Rightarrow> proxy" where
  "llm_request_finished s = s\<lparr>p_inflight := p_inflight s - 1\<rparr>"

definition record_swap :: "json \<Rightarrow> proxy \<Rightarrow> proxy" where
  "record_swap m s = s\<lparr>p_last_swap := Some (p_now s), p_current := Some m\<rparr>"

definition record_request :: "proxy \<Rightarrow> proxy" where
  "record_request s = s\<lparr>p_last_request := Some (p_now s)\<rparr>"

definition idle_seconds :: "proxy \<Rightarrow> real option" where
  "idle_seconds s = map_option (\<lambda>t. p_now s - t) (p_last_request s)"

definition send :: "message \<Rightarrow> proxy \<Rightarrow> proxy" where
  "send x s = s\<lparr>p_sent := p_sent s @ [x]\<rparr>"

definition set_phase :: "nat \<Rightarrow> phase \<times> json \<Rightarrow> proxy \<Rightarrow> proxy" where
  "set_phase i ph s = s\<lparr>p_reqs := dset i ph (p_reqs s)\<rparr>"

section \<open>A request\<close>

text \<open>
  The end of a request: \<open>_finish\<close> and the answer. A request leaves the table here, which is what
  the flag \<open>released\<close> does: a second \<open>_finish\<close> of the same request changes nothing.
\<close>

definition finish_req :: "nat \<Rightarrow> outcome \<Rightarrow> proxy \<Rightarrow> proxy" where
  "finish_req i out s =
     (let s1 = llm_request_finished
                 (s\<lparr>p_reqs := dpop i (p_reqs s), p_done := p_done s @ [(i, out)]\<rparr>)
      in if p_inflight s1 = 0 \<and> p_depth s1 = 0 then send MRelease s1 else s1)"

text \<open>The route \<open>Swappable m\<close> up to \<open>await arbiter.acquire()\<close>.\<close>

definition request :: "nat \<Rightarrow> json \<Rightarrow> proxy \<Rightarrow> proxy" where
  "request i m s =
     (if map_of (p_reqs s) i \<noteq> None then s
      else send (MAcquire i)
             (set_phase i (PAcquire, m) (llm_request_started (record_request (increment_queue s)))))"

text \<open>The lock is ours: from \<open>state.decrement_queue()\<close> into \<open>_forward\<close>.\<close>

definition enter_slot :: "nat \<Rightarrow> json \<Rightarrow> proxy \<Rightarrow> proxy" where
  "enter_slot i m s =
     (let s1 = decrement_queue (s\<lparr>p_lock := Some i\<rparr>);
          s2 = (if truthy m \<and> p_current s1 \<noteq> Some m then record_swap m s1 else s1)
      in set_phase i (PSend, m) s2)"

datatype arb_answer = AGranted | ARefused | ARaised

text \<open>
  What \<open>ArbiterClient.acquire\<close> makes of the exchange: a transport error or any status but 200 is
  a refusal; a body that is not a JSON object raises on status 200, and on 503 only bad JSON is
  caught.
\<close>

definition client_acquire :: "(int \<times> json result) option \<Rightarrow> arb_answer" where
  "client_acquire resp =
     (case resp of
        None \<Rightarrow> ARefused
      | Some (status, body) \<Rightarrow>
          if status = 503 then
            (case body of Inr (JObj kvs) \<Rightarrow> ARefused | Inl ValueError \<Rightarrow> ARefused | _ \<Rightarrow> ARaised)
          else if status \<noteq> 200 then ARefused
          else (case body of Inr (JObj kvs) \<Rightarrow> AGranted | _ \<Rightarrow> ARaised))"

definition arbiter_reply :: "nat \<Rightarrow> arb_answer \<Rightarrow> proxy \<Rightarrow> proxy" where
  "arbiter_reply i a s =
     (case map_of (p_reqs s) i of
        Some (PAcquire, m) \<Rightarrow>
          (case a of
             AGranted \<Rightarrow>
               if p_lock s = None \<and> p_waiters s = [] then enter_slot i m s
               else set_phase i (PLock, m) (s\<lparr>p_waiters := p_waiters s @ [i]\<rparr>)
           | ARefused \<Rightarrow> finish_req i Refused503 (decrement_queue s)
           | ARaised \<Rightarrow> finish_req i Failed s)
      | _ \<Rightarrow> s)"

text \<open>The first waiter takes the free lock.\<close>

definition lock_wake :: "proxy \<Rightarrow> proxy" where
  "lock_wake s =
     (case p_waiters s of
        [] \<Rightarrow> s
      | i # is \<Rightarrow>
          if p_lock s \<noteq> None then s
          else case map_of (p_reqs s) i of
                 Some (PLock, m) \<Rightarrow> enter_slot i m (s\<lparr>p_waiters := is\<rparr>)
               | _ \<Rightarrow> s)"

text \<open>A waiter is cancelled.\<close>

definition lock_cancel :: "nat \<Rightarrow> proxy \<Rightarrow> proxy" where
  "lock_cancel i s =
     (case map_of (p_reqs s) i of
        Some (PLock, m) \<Rightarrow>
          finish_req i Failed (decrement_queue (s\<lparr>p_waiters := removeAll i (p_waiters s)\<rparr>))
      | _ \<Rightarrow> s)"

text \<open>\<open>_forward\<close>: the router answers, or the call fails and lock and refcount are dropped.\<close>

definition sent_reply :: "nat \<Rightarrow> bool \<Rightarrow> proxy \<Rightarrow> proxy" where
  "sent_reply i ok s =
     (case map_of (p_reqs s) i of
        Some (PSend, m) \<Rightarrow>
          if ok then set_phase i (PStream, m) s
          else finish_req i Failed (s\<lparr>p_lock := None\<rparr>)
      | _ \<Rightarrow> s)"

text \<open>The \<open>finally\<close> of the stream: consumed, failed or abandoned by the client.\<close>

definition stream_end :: "nat \<Rightarrow> int \<Rightarrow> proxy \<Rightarrow> proxy" where
  "stream_end i status s =
     (case map_of (p_reqs s) i of
        Some (PStream, m) \<Rightarrow> finish_req i (Served status) (s\<lparr>p_lock := None\<rparr>)
      | _ \<Rightarrow> s)"

section \<open>The idle evictor\<close>

definition evictor_sleep :: "proxy \<Rightarrow> proxy" where
  "evictor_sleep s = s\<lparr>p_evictor := ESleep (p_now s + IDLE_EVICT_POLL_SECONDS)\<rparr>"

text \<open>The loop of \<open>_idle_evictor\<close> after its sleep.\<close>

definition evictor_wake :: "proxy \<Rightarrow> proxy" where
  "evictor_wake s =
     (if p_inflight s > 0 \<or> p_depth s > 0 then evictor_sleep s
      else case idle_seconds s of
             None \<Rightarrow> evictor_sleep s
           | Some idle \<Rightarrow> if idle < IDLE_EVICT_SECONDS then evictor_sleep s
                          else s\<lparr>p_evictor := EResident\<rparr>)"

text \<open>The verification loop of \<open>_unload_resident_models\<close>.\<close>

definition verify_next :: "real \<Rightarrow> proxy \<Rightarrow> proxy" where
  "verify_next deadline s =
     (if p_now s < deadline then s\<lparr>p_evictor := EVerify deadline\<rparr> else evictor_sleep s)"

definition unload_next :: "string list \<Rightarrow> proxy \<Rightarrow> proxy" where
  "unload_next ms s =
     (if ms = [] then verify_next (p_now s + IDLE_EVICT_UNLOAD_TIMEOUT) s
      else s\<lparr>p_evictor := EUnload ms\<rparr>)"

text \<open>
  \<open>_resident_models\<close> on the router's answer: the ids whose status is not \<open>unloaded\<close>. Only
  the shape the router documents is read; anything else is an exception, as is a failed call.
\<close>

datatype evict_answer =
    AResident "string list"   \<comment> \<open>the router's list\<close>
  | AUnloaded bool            \<comment> \<open>the unload call answered 200, or did not\<close>
  | AEvictErr                 \<comment> \<open>the call raised\<close>
  | AEvictWake                \<comment> \<open>the sleep or the release is over\<close>

definition evictor_step :: "evict_answer \<Rightarrow> proxy \<Rightarrow> proxy" where
  "evictor_step a s =
     (case (p_evictor s, a) of
        (ESleep t, AEvictWake) \<Rightarrow> if t \<le> p_now s then evictor_wake s else s
      | (EResident, AResident ms) \<Rightarrow> if ms = [] then evictor_sleep s else unload_next ms s
      | (EResident, AEvictErr) \<Rightarrow> evictor_sleep s
      | (EUnload (m # ms), AUnloaded ok) \<Rightarrow> if ok then unload_next ms s else evictor_sleep s
      | (EUnload ms, AEvictErr) \<Rightarrow> evictor_sleep s
      | (EVerify d, AResident ms) \<Rightarrow>
          if ms = [] then send MRelease (s\<lparr>p_current := None, p_evictor := ERelease\<rparr>)
          else s\<lparr>p_evictor := EPause (p_now s + 2) d\<rparr>
      | (EVerify d, AEvictErr) \<Rightarrow> evictor_sleep s
      | (EPause t d, AEvictWake) \<Rightarrow> if t \<le> p_now s then verify_next d s else s
      | (ERelease, AEvictWake) \<Rightarrow> evictor_sleep s
      | _ \<Rightarrow> s)"

section \<open>The machine\<close>

datatype pevent =
    Request nat json
  | ArbiterReply nat arb_answer
  | LockWake
  | LockCancel nat
  | SentReply nat bool
  | StreamEnd nat int
  | Evictor evict_answer
  | PTick real

fun proxy_step :: "pevent \<Rightarrow> proxy \<Rightarrow> proxy" where
  "proxy_step (Request i m) s = request i m s"
| "proxy_step (ArbiterReply i a) s = arbiter_reply i a s"
| "proxy_step LockWake s = lock_wake s"
| "proxy_step (LockCancel i) s = lock_cancel i s"
| "proxy_step (SentReply i ok) s = sent_reply i ok s"
| "proxy_step (StreamEnd i st) s = stream_end i st s"
| "proxy_step (Evictor a) s = evictor_step a s"
| "proxy_step (PTick d) s = (if d \<ge> 0 then s\<lparr>p_now := p_now s + d\<rparr> else s)"

definition proxy_run :: "pevent list \<Rightarrow> proxy \<Rightarrow> proxy" where
  "proxy_run es s = fold proxy_step es s"

lemma proxy_run_simps [simp]:
  "proxy_run [] s = s" "proxy_run (e # es) s = proxy_run es (proxy_step e s)"
  "proxy_run (es @ es') s = proxy_run es' (proxy_run es s)"
  by (simp_all add: proxy_run_def)

section \<open>The bookkeeping invariant\<close>

definition waiting :: "phase \<times> json \<Rightarrow> bool" where
  "waiting x \<longleftrightarrow> fst x = PAcquire \<or> fst x = PLock"

definition active :: "phase \<times> json \<Rightarrow> bool" where
  "active x \<longleftrightarrow> fst x = PSend \<or> fst x = PStream"

text \<open>
  \<open>k\<close> is the number of queue slots lost to calls of the arbiter that raised: the depth is the
  number of waiting requests plus \<open>k\<close>. The lock is held exactly by the one active request, and
  its waiters are exactly the requests in \<open>PLock\<close>.
\<close>

definition proxy_inv :: "nat \<Rightarrow> proxy \<Rightarrow> bool" where
  "proxy_inv k s \<longleftrightarrow> dict_ok (p_reqs s)
     \<and> p_depth s = dcount waiting (p_reqs s) + k
     \<and> p_inflight s = dcount (\<lambda>x. True) (p_reqs s)
     \<and> (\<forall>i. (\<exists>x. map_of (p_reqs s) i = Some x \<and> active x) \<longleftrightarrow> p_lock s = Some i)
     \<and> distinct (p_waiters s)
     \<and> (\<forall>i. i \<in> set (p_waiters s) \<longleftrightarrow> (\<exists>m. map_of (p_reqs s) i = Some (PLock, m)))"

lemma inv_fields [simp]:
  "proxy_inv k (s\<lparr>p_current := x1\<rparr>) = proxy_inv k s" "proxy_inv k (s\<lparr>p_last_swap := x2\<rparr>) = proxy_inv k s"
  "proxy_inv k (s\<lparr>p_last_request := x3\<rparr>) = proxy_inv k s" "proxy_inv k (s\<lparr>p_evictor := x4\<rparr>) = proxy_inv k s"
  "proxy_inv k (s\<lparr>p_sent := x5\<rparr>) = proxy_inv k s" "proxy_inv k (s\<lparr>p_done := x6\<rparr>) = proxy_inv k s"
  "proxy_inv k (s\<lparr>p_now := x7\<rparr>) = proxy_inv k s"
  by (simp_all add: proxy_inv_def)

lemma inv_lockD:
  assumes "proxy_inv k s"
  shows "map_of (p_reqs s) i = Some x \<Longrightarrow> active x \<Longrightarrow> p_lock s = Some i"
    "p_lock s = Some i \<Longrightarrow> \<exists>x. map_of (p_reqs s) i = Some x \<and> active x"
    "i \<in> set (p_waiters s) \<Longrightarrow> \<exists>m. map_of (p_reqs s) i = Some (PLock, m)"
  using assms unfolding proxy_inv_def by metis+

lemma request_inv:
  assumes i: "proxy_inv k s" shows "proxy_inv k (request n m s)"
proof (cases "map_of (p_reqs s) n")
  case None
  have "dcount waiting (dset n (PAcquire, m) (p_reqs s)) = dcount waiting (p_reqs s) + 1"
    "dcount (\<lambda>x. True) (dset n (PAcquire, m) (p_reqs s)) = dcount (\<lambda>x. True) (p_reqs s) + 1"
    using dcount_fresh [OF None, of waiting "(PAcquire, m)"] dcount_fresh [OF None, of "\<lambda>x. True"]
    by (simp_all add: waiting_def)
  moreover have "p_lock s \<noteq> Some n" "n \<notin> set (p_waiters s)"
    using inv_lockD(2,3) [OF i, of n] None by auto
  moreover have "\<forall>j. (\<exists>x. map_of (dset n (PAcquire, m) (p_reqs s)) j = Some x \<and> active x)
      \<longleftrightarrow> p_lock s = Some j"
    using i None \<open>p_lock s \<noteq> Some n\<close> by (simp add: proxy_inv_def active_def)
  moreover have "\<forall>j. j \<in> set (p_waiters s)
      \<longleftrightarrow> (\<exists>x. map_of (dset n (PAcquire, m) (p_reqs s)) j = Some (PLock, x))"
    using i None \<open>n \<notin> set (p_waiters s)\<close> by (simp add: proxy_inv_def)
  ultimately show ?thesis
    using i None
    by (simp add: proxy_inv_def request_def send_def set_phase_def llm_request_started_def
        record_request_def increment_queue_def dict_ok_dset del: map_of_dset)
qed (use i in \<open>simp add: request_def\<close>)

text \<open>What is left after a request that holds or waits for nothing has finished.\<close>

lemma finish_inv:
  assumes "dict_ok (p_reqs s)" "map_of (p_reqs s) i = Some x"
    "p_depth s = dcount waiting (p_reqs s) - (if waiting x then 1 else 0) + k"
    "p_inflight s = dcount (\<lambda>x. True) (p_reqs s)"
    "\<forall>j. (\<exists>y. j \<noteq> i \<and> map_of (p_reqs s) j = Some y \<and> active y) \<longleftrightarrow> p_lock s = Some j"
    "distinct (p_waiters s)"
    "\<forall>j. j \<in> set (p_waiters s) \<longleftrightarrow> (\<exists>m. j \<noteq> i \<and> map_of (p_reqs s) j = Some (PLock, m))"
  shows "proxy_inv k (finish_req i out s)"
proof -
  have "dcount waiting (dpop i (p_reqs s)) = dcount waiting (p_reqs s) - (if waiting x then 1 else 0)"
    "dcount (\<lambda>x. True) (dpop i (p_reqs s)) = dcount (\<lambda>x. True) (p_reqs s) - 1"
    using dcount_pop [OF assms(1,2), of waiting] dcount_pop [OF assms(1,2), of "\<lambda>x. True"]
    by (simp_all split: if_splits)
  then show ?thesis
    using assms unfolding finish_req_def send_def llm_request_finished_def Let_def proxy_inv_def
    by (auto simp: dict_ok_dpop)
qed

lemma dcount_pos: "map_of d i = Some x \<Longrightarrow> P x \<Longrightarrow> dcount P d > 0"
  by (induction d) (auto simp: dcount_def split: if_splits)

text \<open>A waiting request enters the slot.\<close>

lemma enter_inv:
  assumes d: "dict_ok (p_reqs s)" and r: "map_of (p_reqs s) i = Some (ph, m)" "waiting (ph, m)"
    and c: "p_depth s = dcount waiting (p_reqs s) + k" "p_inflight s = dcount (\<lambda>x. True) (p_reqs s)"
    and l: "p_lock s = None" "\<forall>j y. map_of (p_reqs s) j = Some y \<longrightarrow> \<not> active y"
    and w: "distinct (p_waiters s)"
      "\<forall>j. j \<in> set (p_waiters s) \<longleftrightarrow> (\<exists>m. j \<noteq> i \<and> map_of (p_reqs s) j = Some (PLock, m))"
  shows "proxy_inv k (enter_slot i m s)"
proof -
  have n: "dcount waiting (dset i (PSend, m) (p_reqs s)) = dcount waiting (p_reqs s) - 1"
    "dcount (\<lambda>x. True) (dset i (PSend, m) (p_reqs s)) = dcount (\<lambda>x. True) (p_reqs s)"
    using dcount_set [OF r(1), of waiting "(PSend, m)"] r(2) dcount_set [OF r(1), of "\<lambda>x. True"]
    by (simp_all add: waiting_def)
  have "dcount waiting (p_reqs s) > 0" using dcount_pos [OF r(1), of waiting] r(2) by simp
  then have "proxy_inv k (set_phase i (PSend, m) (decrement_queue (s\<lparr>p_lock := Some i\<rparr>)))"
    using d c l w n
    by (auto simp: proxy_inv_def set_phase_def decrement_queue_def dict_ok_dset active_def)
  then show ?thesis
    by (simp add: enter_slot_def Let_def set_phase_def decrement_queue_def record_swap_def)
      (simp add: proxy_inv_def)
qed

lemma arbiter_reply_inv:
  assumes i: "proxy_inv k s"
  shows "proxy_inv k (arbiter_reply i a s)
    \<or> a = ARaised \<and> proxy_inv (Suc k) (arbiter_reply i a s)"
proof (cases "\<exists>m. map_of (p_reqs s) i = Some (PAcquire, m)")
  case False
  then have "arbiter_reply i a s = s"
    by (auto simp: arbiter_reply_def split: option.split phase.split)
  then show ?thesis using i by simp
next
  case True
  then obtain m where m: "map_of (p_reqs s) i = Some (PAcquire, m)" by blast
  have pos: "dcount waiting (p_reqs s) > 0"
    using dcount_pos [OF m, of waiting] by (simp add: waiting_def)
  have others: "\<forall>j. (\<exists>y. j \<noteq> i \<and> map_of (p_reqs s) j = Some y \<and> active y) \<longleftrightarrow> p_lock s = Some j"
    "\<forall>j. j \<in> set (p_waiters s) \<longleftrightarrow> (\<exists>m. j \<noteq> i \<and> map_of (p_reqs s) j = Some (PLock, m))"
    using i m unfolding proxy_inv_def active_def by force+
  show ?thesis
  proof (cases a)
    case AGranted
    show ?thesis
    proof (cases "p_lock s = None \<and> p_waiters s = []")
      case free: True
      have "proxy_inv k (enter_slot i m s)"
        using i m others free
        by (intro enter_inv [where ph = PAcquire]) (auto simp: proxy_inv_def waiting_def)
      then show ?thesis using AGranted m free by (simp add: arbiter_reply_def)
    next
      case False
      have "dcount waiting (dset i (PLock, m) (p_reqs s)) = dcount waiting (p_reqs s)"
        "dcount (\<lambda>x. True) (dset i (PLock, m) (p_reqs s)) = dcount (\<lambda>x. True) (p_reqs s)"
        using dcount_set [OF m, of waiting "(PLock, m)"] dcount_set [OF m, of "\<lambda>x. True"]
        by (simp_all add: waiting_def)
      then have "proxy_inv k (set_phase i (PLock, m) (s\<lparr>p_waiters := p_waiters s @ [i]\<rparr>))"
        using i others m unfolding proxy_inv_def set_phase_def
        by (auto simp: dict_ok_dset active_def)
      then show ?thesis using AGranted m False by (auto simp: arbiter_reply_def)
    qed
  next
    case ARefused
    have "proxy_inv k (finish_req i Refused503 (decrement_queue s))"
      using i m others pos
      by (intro finish_inv [of _ _ "(PAcquire, m)"])
        (simp_all add: proxy_inv_def decrement_queue_def waiting_def)
    then show ?thesis using ARefused m by (simp add: arbiter_reply_def)
  next
    case ARaised
    have "proxy_inv (Suc k) (finish_req i Failed s)"
      using i m others pos
      by (intro finish_inv [of _ _ "(PAcquire, m)"]) (simp_all add: proxy_inv_def waiting_def)
    then show ?thesis using ARaised m by (simp add: arbiter_reply_def)
  qed
qed

lemma lock_wake_inv:
  assumes i: "proxy_inv k s" shows "proxy_inv k (lock_wake s)"
proof (cases "p_waiters s")
  case (Cons w ws)
  show ?thesis
  proof (cases "p_lock s")
    case None
    obtain m where m: "map_of (p_reqs s) w = Some (PLock, m)"
      using inv_lockD(3) [OF i, of w] Cons by auto
    have q: "\<forall>j. j \<in> set ws \<longleftrightarrow> (\<exists>m. j \<noteq> w \<and> map_of (p_reqs s) j = Some (PLock, m))" "distinct ws"
      using i Cons unfolding proxy_inv_def
      by (metis distinct.simps(2) list.set_intros(2) set_ConsD, metis distinct.simps(2))
    have "\<forall>j y. map_of (p_reqs s) j = Some y \<longrightarrow> \<not> active y"
      using i None unfolding proxy_inv_def by (metis option.distinct(1))
    then have "proxy_inv k (enter_slot w m (s\<lparr>p_waiters := ws\<rparr>))"
      using i m q None
      by (intro enter_inv [where ph = PLock]) (simp_all add: proxy_inv_def waiting_def)
    then show ?thesis using Cons None m by (simp add: lock_wake_def)
  qed (use i Cons in \<open>simp add: lock_wake_def\<close>)
qed (use i in \<open>simp add: lock_wake_def\<close>)

lemma others_inv:
  assumes "proxy_inv k s" "map_of (p_reqs s) i = Some (ph, m)"
  shows "\<not> active (ph, m) \<Longrightarrow>
      \<forall>j. (\<exists>y. j \<noteq> i \<and> map_of (p_reqs s) j = Some y \<and> active y) \<longleftrightarrow> p_lock s = Some j"
    "active (ph, m) \<Longrightarrow> \<forall>j. \<not> (\<exists>y. j \<noteq> i \<and> map_of (p_reqs s) j = Some y \<and> active y)"
    "ph \<noteq> PLock \<Longrightarrow>
      \<forall>j. j \<in> set (p_waiters s) \<longleftrightarrow> (\<exists>m. j \<noteq> i \<and> map_of (p_reqs s) j = Some (PLock, m))"
    "\<forall>j. j \<in> set (removeAll i (p_waiters s)) \<longleftrightarrow> (\<exists>m. j \<noteq> i \<and> map_of (p_reqs s) j = Some (PLock, m))"
proof -
  have l: "(\<exists>x. map_of (p_reqs s) j = Some x \<and> active x) \<longleftrightarrow> p_lock s = Some j" for j
    using assms(1) by (simp add: proxy_inv_def)
  have w: "j \<in> set (p_waiters s) \<longleftrightarrow> (\<exists>m. map_of (p_reqs s) j = Some (PLock, m))" for j
    using assms(1) by (simp add: proxy_inv_def)
  show "\<not> active (ph, m) \<Longrightarrow>
      \<forall>j. (\<exists>y. j \<noteq> i \<and> map_of (p_reqs s) j = Some y \<and> active y) \<longleftrightarrow> p_lock s = Some j"
    using l assms(2) by (metis option.inject)
  show "active (ph, m) \<Longrightarrow> \<forall>j. \<not> (\<exists>y. j \<noteq> i \<and> map_of (p_reqs s) j = Some y \<and> active y)"
    using l [of i] l assms(2) by (metis option.inject)
  show "ph \<noteq> PLock \<Longrightarrow>
      \<forall>j. j \<in> set (p_waiters s) \<longleftrightarrow> (\<exists>m. j \<noteq> i \<and> map_of (p_reqs s) j = Some (PLock, m))"
    using w assms(2) by auto
  show "\<forall>j. j \<in> set (removeAll i (p_waiters s)) \<longleftrightarrow> (\<exists>m. j \<noteq> i \<and> map_of (p_reqs s) j = Some (PLock, m))"
    using w by auto
qed

lemma lock_cancel_inv:
  assumes i: "proxy_inv k s" shows "proxy_inv k (lock_cancel n s)"
proof (cases "\<exists>m. map_of (p_reqs s) n = Some (PLock, m)")
  case True
  then obtain m where m: "map_of (p_reqs s) n = Some (PLock, m)" by blast
  have pos: "dcount waiting (p_reqs s) > 0"
    using dcount_pos [OF m, of waiting] by (simp add: waiting_def)
  have "proxy_inv k (finish_req n Failed
      (decrement_queue (s\<lparr>p_waiters := removeAll n (p_waiters s)\<rparr>)))"
    using i m pos others_inv(1,4) [OF i m]
    by (intro finish_inv [of _ _ "(PLock, m)"])
      (simp_all add: proxy_inv_def decrement_queue_def waiting_def active_def distinct_removeAll)
  then show ?thesis using m by (simp add: lock_cancel_def)
next
  case False
  then have "lock_cancel n s = s" by (auto simp: lock_cancel_def split: option.split phase.split)
  then show ?thesis using i by simp
qed

text \<open>The active request leaves the slot.\<close>

lemma leave_inv:
  assumes i: "proxy_inv k s" and m: "map_of (p_reqs s) n = Some (ph, m)" "active (ph, m)"
  shows "proxy_inv k (finish_req n out (s\<lparr>p_lock := None\<rparr>))"
  using i m others_inv(2,3) [OF i m(1)]
  by (intro finish_inv [of _ _ "(ph, m)"]) (auto simp: proxy_inv_def waiting_def active_def)

lemma sent_reply_inv:
  assumes i: "proxy_inv k s" shows "proxy_inv k (sent_reply n ok s)"
proof (cases "\<exists>m. map_of (p_reqs s) n = Some (PSend, m)")
  case True
  then obtain m where m: "map_of (p_reqs s) n = Some (PSend, m)" by blast
  have c: "dcount P (dset n (PStream, m) (p_reqs s)) = dcount P (p_reqs s)"
    if "P (PStream, m) = P (PSend, m)" for P
    using dcount_set [OF m, of P "(PStream, m)"] that by simp
  have "p_lock s = Some n" using i m by (auto simp: proxy_inv_def active_def)
  then have "proxy_inv k (set_phase n (PStream, m) s)"
    using i m c [of waiting] c [of "\<lambda>x. True"] others_inv(2,3) [OF i m]
    by (auto simp: proxy_inv_def set_phase_def active_def waiting_def dict_ok_dset)
  moreover have "proxy_inv k (finish_req n Failed (s\<lparr>p_lock := None\<rparr>))"
    using i m by (rule leave_inv) (simp add: active_def)
  ultimately show ?thesis using m by (simp add: sent_reply_def)
next
  case False
  then have "sent_reply n ok s = s" by (auto simp: sent_reply_def split: option.split phase.split)
  then show ?thesis using i by simp
qed

lemma stream_end_inv:
  assumes i: "proxy_inv k s" shows "proxy_inv k (stream_end n st s)"
proof (cases "\<exists>m. map_of (p_reqs s) n = Some (PStream, m)")
  case True
  then obtain m where m: "map_of (p_reqs s) n = Some (PStream, m)" by blast
  then show ?thesis using leave_inv [OF i m] by (simp add: stream_end_def active_def)
next
  case False
  then have "stream_end n st s = s" by (auto simp: stream_end_def split: option.split phase.split)
  then show ?thesis using i by simp
qed

lemma evictor_inv: "proxy_inv k (evictor_step a s) = proxy_inv k s"
  by (cases "p_evictor s"; cases a)
    (auto simp: evictor_step_def evictor_sleep_def evictor_wake_def unload_next_def verify_next_def
      send_def split: option.split list.split)

lemma proxy_step_inv:
  assumes "proxy_inv k s"
  shows "proxy_inv k (proxy_step e s)
    \<or> (\<exists>i. e = ArbiterReply i ARaised) \<and> proxy_inv (Suc k) (proxy_step e s)"
  using assms arbiter_reply_inv [OF assms]
  by (cases e) (auto simp: request_inv lock_wake_inv lock_cancel_inv sent_reply_inv stream_end_inv
      evictor_inv)

interpretation proxy: machine proxy_step "\<lambda>s. \<exists>k. proxy_inv k s" "\<lambda>s. s = proxy_init"
proof
  show "s = proxy_init \<Longrightarrow> \<exists>k. proxy_inv k s" for s
    by (auto simp: proxy_inv_def proxy_init_def dcount_def)
  show "\<exists>k. proxy_inv k s \<Longrightarrow> \<exists>k. proxy_inv k (proxy_step e s)" for s e
    using proxy_step_inv by blast
qed

lemma proxy_run_inv: "\<exists>k. proxy_inv k (proxy_run es proxy_init)"
  unfolding proxy_run_def by (rule proxy.run_inv) simp

lemma proxy_init_inv: "proxy_inv 0 proxy_init"
  by (simp add: proxy_inv_def proxy_init_def dcount_def)

lemma proxy_run_exact:
  "proxy_inv k s \<Longrightarrow> \<forall>i. ArbiterReply i ARaised \<notin> set es \<Longrightarrow> proxy_inv k (proxy_run es s)"
proof (induction es arbitrary: s)
  case (Cons e es)
  then have "proxy_inv k (proxy_step e s)" using proxy_step_inv [of k s e] by auto
  then show ?case using Cons by simp
qed simp

section \<open>Properties\<close>

text \<open>
  C6: One request at a time reaches the swappable slot: two requests that are being forwarded or
  streamed are the same request, and it holds the lock. When no request is left, the lock is free
  and no one waits for it.
\<close>

theorem slot_exclusive:
  assumes "s = proxy_run es proxy_init"
  shows "(\<forall>i j x y. map_of (p_reqs s) i = Some x \<and> active x \<and> map_of (p_reqs s) j = Some y \<and> active y
            \<longrightarrow> i = j \<and> p_lock s = Some i)
    \<and> (p_reqs s = [] \<longrightarrow> p_lock s = None \<and> p_waiters s = [] \<and> p_inflight s = 0)"
proof -
  obtain k where k: "proxy_inv k s" using proxy_run_inv assms by blast
  have l: "map_of (p_reqs s) i = Some x \<and> active x \<Longrightarrow> p_lock s = Some i" for i x
    using inv_lockD(1) [OF k] by blast
  have "p_reqs s = [] \<Longrightarrow> p_lock s = None \<and> p_waiters s = [] \<and> p_inflight s = 0"
    using k inv_lockD(2,3) [OF k] unfolding proxy_inv_def
    by (cases "p_lock s"; cases "p_waiters s") (simp_all add: dcount_def, fastforce+)
  then show ?thesis using l by (metis option.inject)
qed

theorem slot_exclusive_witness:
  "let s = proxy_run [Request 1 (JStr ''a''), Request 2 (JStr ''b''), ArbiterReply 1 AGranted,
        ArbiterReply 2 AGranted, SentReply 1 True] proxy_init
   in map_of (p_reqs s) 1 = Some (PStream, JStr ''a'') \<and> map_of (p_reqs s) 2 = Some (PLock, JStr ''b'')
      \<and> p_lock s = Some 1"
  unfolding Let_def
  using slot_exclusive [of _ "[Request 1 (JStr ''a''), Request 2 (JStr ''b''), ArbiterReply 1 AGranted,
        ArbiterReply 2 AGranted, SentReply 1 True]", OF refl]
  by (simp add: proxy_init_def request_def send_def set_phase_def llm_request_started_def
      record_request_def increment_queue_def arbiter_reply_def enter_slot_def decrement_queue_def
      record_swap_def sent_reply_def active_def)

text \<open>
  The counters are exact. As long as no call of the arbiter raises, the queue depth is the
  number of requests waiting for the card or the lock and the in-flight count is the number of
  requests, so both return to zero when the last request ends, however it ends.
\<close>

theorem counters_exact:
  assumes "s = proxy_run es proxy_init" "\<forall>i. ArbiterReply i ARaised \<notin> set es"
  shows "p_depth s = dcount waiting (p_reqs s) \<and> p_inflight s = length (p_reqs s)"
  using proxy_run_exact [OF proxy_init_inv assms(2)] assms(1)
  by (simp add: proxy_inv_def dcount_def)

theorem counters_exact_witness:
  "let s = proxy_run [Request 1 (JStr ''a''), Request 2 (JStr ''b''), ArbiterReply 1 AGranted] proxy_init
   in p_depth s = dcount waiting (p_reqs s) \<and> p_inflight s = length (p_reqs s) \<and> p_depth s = 1"
proof -
  let ?es = "[Request 1 (JStr ''a''), Request 2 (JStr ''b''), ArbiterReply 1 AGranted]"
  have "p_depth (proxy_run ?es proxy_init) = 1"
    by (simp add: proxy_init_def request_def send_def set_phase_def llm_request_started_def
        record_request_def increment_queue_def arbiter_reply_def enter_slot_def decrement_queue_def
        record_swap_def)
  then show ?thesis
    unfolding Let_def using counters_exact [of _ ?es, OF refl] by simp
qed

text \<open>A step sends \<open>MRelease\<close> only from a request that was the last, or from the evictor's end.\<close>

definition releases :: "proxy \<Rightarrow> nat" where
  "releases s = length (filter (\<lambda>x. x = MRelease) (p_sent s))"

lemma releases_fields [simp]:
  "releases (s\<lparr>p_current := x1\<rparr>) = releases s" "releases (s\<lparr>p_lock := x2\<rparr>) = releases s"
  "releases (s\<lparr>p_waiters := x3\<rparr>) = releases s" "releases (s\<lparr>p_depth := x4\<rparr>) = releases s"
  "releases (s\<lparr>p_inflight := x5\<rparr>) = releases s" "releases (s\<lparr>p_last_swap := x6\<rparr>) = releases s"
  "releases (s\<lparr>p_last_request := x7\<rparr>) = releases s" "releases (s\<lparr>p_reqs := x8\<rparr>) = releases s"
  "releases (s\<lparr>p_evictor := x9\<rparr>) = releases s" "releases (s\<lparr>p_done := x10\<rparr>) = releases s"
  "releases (s\<lparr>p_now := x11\<rparr>) = releases s" "releases (send (MAcquire i) s) = releases s"
  by (simp_all add: releases_def send_def)

lemma releases_ops [simp]:
  "releases (decrement_queue s) = releases s" "releases (set_phase i ph s) = releases s"
  "releases (enter_slot i m s) = releases s" "releases (request i m s) = releases s"
  by (simp_all add: decrement_queue_def set_phase_def enter_slot_def record_swap_def Let_def
      request_def record_request_def increment_queue_def llm_request_started_def)

lemma finish_releases:
  "releases (finish_req i out t) \<noteq> releases t \<Longrightarrow>
     p_inflight (finish_req i out t) = 0 \<and> p_depth (finish_req i out t) = 0"
  by (auto simp: finish_req_def send_def llm_request_finished_def Let_def split: if_splits)

lemma step_releases:
  assumes "\<forall>a. e \<noteq> Evictor a" "releases (proxy_step e s) \<noteq> releases s"
  shows "p_inflight (proxy_step e s) = 0 \<and> p_depth (proxy_step e s) = 0"
proof -
  have fin: "p_inflight (finish_req i out t) = 0 \<and> p_depth (finish_req i out t) = 0"
    if "releases t = releases s" "releases (finish_req i out t) \<noteq> releases s" for i out t
    using finish_releases [of i out t] that by simp
  show ?thesis
    using assms
    by (cases e) (auto simp: arbiter_reply_def lock_wake_def lock_cancel_def sent_reply_def
        stream_end_def split: option.splits phase.splits arb_answer.splits list.splits if_splits
        dest!: fin [rotated])
qed

text \<open>
  The card is never given back under a request's feet by another request: a step of a
  request that tells the arbiter to release leaves no request in flight and none waiting.
\<close>

theorem release_when_idle:
  assumes "s = proxy_run es proxy_init" "\<forall>a. e \<noteq> Evictor a"
    and "releases (proxy_step e s) \<noteq> releases s"
  shows "p_inflight (proxy_step e s) = 0 \<and> p_depth (proxy_step e s) = 0
    \<and> p_reqs (proxy_step e s) = []"
proof -
  obtain k where k: "proxy_inv k (proxy_step e s)"
    using proxy.step_inv [OF proxy_run_inv] assms(1) by blast
  have "p_inflight (proxy_step e s) = 0 \<and> p_depth (proxy_step e s) = 0"
    using step_releases [OF assms(2,3)] .
  moreover have "p_reqs (proxy_step e s) = []"
    using k calculation by (simp add: proxy_inv_def dcount_def)
  ultimately show ?thesis by blast
qed

lemmas proxy_simps = proxy_init_def request_def send_def set_phase_def llm_request_started_def
  record_request_def increment_queue_def arbiter_reply_def enter_slot_def decrement_queue_def
  record_swap_def sent_reply_def stream_end_def finish_req_def llm_request_finished_def
  evictor_step_def evictor_sleep_def evictor_wake_def idle_seconds_def unload_next_def
  verify_next_def dpop_def IDLE_EVICT_SECONDS_def IDLE_EVICT_POLL_SECONDS_def
  IDLE_EVICT_UNLOAD_TIMEOUT_def

theorem release_when_idle_witness:
  "let s = proxy_run [Request 1 (JStr ''a''), ArbiterReply 1 AGranted, SentReply 1 True] proxy_init
   in releases s = 0 \<and> releases (proxy_step (StreamEnd 1 200) s) = 1
      \<and> p_inflight (proxy_step (StreamEnd 1 200) s) = 0"
proof -
  let ?es = "[Request 1 (JStr ''a''), ArbiterReply 1 AGranted, SentReply 1 True]"
  let ?s = "proxy_run ?es proxy_init"
  have r: "releases ?s = 0" "releases (proxy_step (StreamEnd 1 200) ?s) = 1"
    by (simp_all add: proxy_simps releases_def)
  then show ?thesis
    unfolding Let_def using release_when_idle [of ?s ?es "StreamEnd 1 200", OF refl] by simp
qed

lemma leak_step:
  assumes "proxy_inv (Suc k) s" "p_evictor s = ESleep t"
  shows "\<exists>k'. proxy_inv (Suc k') (proxy_step e s)" "\<exists>t'. p_evictor (proxy_step e s) = ESleep t'"
    "releases (proxy_step e s) = releases s"
proof -
  show i: "\<exists>k'. proxy_inv (Suc k') (proxy_step e s)" using proxy_step_inv [OF assms(1), of e] by blast
  have d: "p_depth s > 0" using assms(1) by (simp add: proxy_inv_def)
  have ev: "\<exists>t'. p_evictor (evictor_step a s) = ESleep t'" "releases (evictor_step a s) = releases s" for a
    using d assms(2)
    by (auto simp: evictor_step_def evictor_wake_def evictor_sleep_def split: evict_answer.split)
  have fe: "p_evictor (finish_req i out t) = p_evictor t" "p_evictor (enter_slot i m t) = p_evictor t"
    "p_evictor (decrement_queue t) = p_evictor t" "p_evictor (set_phase i ph t) = p_evictor t"
    for i out m ph t
    by (simp_all add: finish_req_def enter_slot_def set_phase_def decrement_queue_def record_swap_def
        send_def llm_request_finished_def Let_def)
  show "\<exists>t'. p_evictor (proxy_step e s) = ESleep t'"
    using ev assms(2) by (cases e) (auto simp: request_def send_def llm_request_started_def
        record_request_def increment_queue_def fe arbiter_reply_def lock_wake_def lock_cancel_def
        sent_reply_def stream_end_def split: option.split phase.split arb_answer.split list.split)
  show "releases (proxy_step e s) = releases s"
  proof (cases "\<exists>a. e = Evictor a")
    case True
    then show ?thesis using ev by auto
  next
    case False
    have "p_depth (proxy_step e s) > 0" using i by (auto simp: proxy_inv_def)
    then show ?thesis using False step_releases [of e s] by (metis less_irrefl)
  qed
qed

lemma leak_run:
  "proxy_inv (Suc k) s \<Longrightarrow> p_evictor s = ESleep t \<Longrightarrow> releases (proxy_run es s) = releases s
     \<and> p_depth (proxy_run es s) > 0"
proof (induction es arbitrary: k s t)
  case Nil
  then show ?case by (simp add: proxy_inv_def)
next
  case (Cons e es)
  obtain k' t' where "proxy_inv (Suc k') (proxy_step e s)" "p_evictor (proxy_step e s) = ESleep t'"
    using leak_step(1,2) [OF Cons.prems] by blast
  then show ?case using Cons.IH leak_step(3) [OF Cons.prems, of e] by simp
qed

text \<open>
  A queue slot is lost for good. Once one call of the arbiter has raised (a malformed answer,
  a cancelled wait) the depth never returns to zero, and from then on, with the evictor asleep,
  nothing the proxy does ever tells the arbiter that the card is free: neither the last request
  to end nor the idle evictor.
\<close>

theorem queue_slot_lost:
  assumes "s = proxy_run es proxy_init" "map_of (p_reqs s) i = Some (PAcquire, m)"
    and "s' = proxy_step (ArbiterReply i ARaised) s" "p_evictor s' = ESleep t"
  shows "p_depth (proxy_run es' s') > 0 \<and> releases (proxy_run es' s') = releases s'"
proof -
  obtain k where k: "proxy_inv k s" using proxy_run_inv assms(1) by blast
  obtain k' where k': "proxy_inv k' s'" using proxy.step_inv [of s] k assms(3) by blast
  have "dcount waiting (dpop i (p_reqs s)) + 1 = dcount waiting (p_reqs s)"
    using dcount_pop [of "p_reqs s" i, of _ waiting] assms(2) k
    by (auto simp: proxy_inv_def waiting_def)
  moreover have "p_depth s' = p_depth s" "p_reqs s' = dpop i (p_reqs s)"
    using assms(2,3) by (simp_all add: arbiter_reply_def finish_req_def send_def
        llm_request_finished_def Let_def)
  ultimately have "k' = Suc k"
    using k k' by (simp add: proxy_inv_def)
  then show ?thesis using leak_run [of k s' t es'] k' assms(4) by simp
qed

theorem queue_slot_lost_witness:
  "let s = proxy_run [Request 1 (JStr ''a''), ArbiterReply 1 ARaised, Request 2 (JStr ''a''),
        ArbiterReply 2 AGranted, SentReply 2 True, StreamEnd 2 200] proxy_init
   in p_depth s > 0 \<and> releases s = 0"
proof -
  let ?s = "proxy_run [Request 1 (JStr ''a'')] proxy_init"
  have h: "map_of (p_reqs ?s) 1 = Some (PAcquire, JStr ''a'')"
    "p_evictor (proxy_step (ArbiterReply 1 ARaised) ?s) = ESleep 30"
    "releases (proxy_step (ArbiterReply 1 ARaised) ?s) = 0"
    by (simp_all add: proxy_simps releases_def)
  show ?thesis
    unfolding Let_def
    using queue_slot_lost [OF refl h(1) refl h(2), of "[Request 2 (JStr ''a''),
        ArbiterReply 2 AGranted, SentReply 2 True, StreamEnd 2 200]"] h(3) by simp
qed

end
