(* ===== verification/Proxy_Forward.thy ===== *)
theory Proxy_Forward
  imports Proxy_Main
begin

text \<open>
  The stream of \<open>proxy/main.py\<close>'s \<open>_forward\<close>: chunks go to the client as they come, while the text and
  the token counts are read out of them for the log and the metrics. Chunks are ASCII
  text. \<open>json.loads\<close> is the parameter \<open>loads\<close>, \<open>None\<close> for text that is not JSON; \<open>inc\<close> is
  what a counter of the metrics library makes of an amount.
\<close>

section \<open>Reading a chunk\<close>

text \<open>\<open>choices[0].get("delta", {}).get("content") or choices[0].get("text", "")\<close>.\<close>

definition choice_text :: "json \<Rightarrow> json result" where
  "choice_text choices =
     bindE (index_first choices) (\<lambda>c.
     bindE (get_in c ''delta'' (JObj [])) (\<lambda>delta.
     bindE (get_in delta ''content'' JNull) (\<lambda>content.
       if truthy content then Inr content else get_in c ''text'' (JStr []))))"

section \<open>The preview of the first chunk\<close>

datatype preview = Cut json | Plain string

definition RESPONSE_PREVIEW_BYTES :: nat where "RESPONSE_PREVIEW_BYTES = 120"

text \<open>\<open>v[:80]\<close>.\<close>

fun slice80 :: "json \<Rightarrow> json result" where
  "slice80 (JStr s) = Inr (JStr (take 80 s))"
| "slice80 (JList vs) = Inr (JList (take 80 vs))"
| "slice80 (JObj o') = Inl (KeyError ''slice'')"
| "slice80 v = Inl TypeError"

definition preview_content :: "(string \<Rightarrow> json option) \<Rightarrow> string \<Rightarrow> preview option result" where
  "preview_content loads part =
     (if part = [] \<or> part = ''[DONE]'' then Inr None
      else case loads part of
             None \<Rightarrow> Inr None
           | Some v \<Rightarrow>
               bindE (get_in v ''choices'' (JList [])) (\<lambda>choices.
                 if \<not> truthy choices then Inr None
                 else bindE (choice_text choices) (\<lambda>content.
                        if truthy content then bindE (slice80 content) (\<lambda>p. Inr (Some (Cut p))) else Inr None)))"

definition plain_preview :: "string \<Rightarrow> preview" where
  "plain_preview s = Plain (concat (map (\<lambda>c. if c = nlc then [CHR 0x5C, CHR ''n''] else if c = CHR 0x0D then [] else [c]) s))"

definition sanitise_preview :: "(string \<Rightarrow> json option) \<Rightarrow> string \<Rightarrow> preview result" where
  "sanitise_preview loads raw =
     (let s = take RESPONSE_PREVIEW_BYTES raw in
      if \<not> starts_with s ''data:'' then Inr (plain_preview s)
      else case preview_content loads (strip (drop 5 s)) of
             Inr (Some p) \<Rightarrow> Inr p
           | Inr None \<Rightarrow> Inr (plain_preview s)
           | Inl (KeyError k) \<Rightarrow> Inr (plain_preview s)
           | Inl IndexError \<Rightarrow> Inr (plain_preview s)
           | Inl e \<Rightarrow> Inl e)"

section \<open>Text and token counts\<close>

record capture =
  full_content :: "json list"
  input_tokens :: json
  output_tokens :: json

definition capture_init :: capture where
  "capture_init = \<lparr>full_content = [], input_tokens = JInt 0, output_tokens = JInt 0\<rparr>"

text \<open>\<open>k in v\<close> and \<open>v[k]\<close> for the usage, \<open>k\<close> a text.\<close>

fun has_key :: "json \<Rightarrow> string \<Rightarrow> bool result" where
  "has_key (JObj kvs) k = Inr (k \<in> fst ` set kvs)"
| "has_key (JList vs) k = Inr (JStr k \<in> set vs)"
| "has_key (JStr s) k = Inr (sublist k s)"
| "has_key v k = Inl TypeError"

fun item_at :: "json \<Rightarrow> string \<Rightarrow> json result" where
  "item_at (JObj kvs) k = (case map_of kvs k of None \<Rightarrow> Inl (KeyError k) | Some v \<Rightarrow> Inr v)"
| "item_at v k = Inl TypeError"

definition usage_entry :: "json \<Rightarrow> string \<Rightarrow> json \<Rightarrow> json result" where
  "usage_entry usage k old = bindE (has_key usage k) (\<lambda>b. if b then item_at usage k else Inr old)"

text \<open>The body of the inner \<open>try\<close> for one event; what was recorded before an exception stays.\<close>

definition capture_usage :: "json \<Rightarrow> capture \<Rightarrow> capture \<times> bool" where
  "capture_usage usage c =
     (if \<not> truthy usage then (c, True)
      else case usage_entry usage ''completion_tokens'' (output_tokens c) of
             Inl e \<Rightarrow> (c, False)
           | Inr n \<Rightarrow>
               let c1 = c\<lparr>output_tokens := n\<rparr> in
               case usage_entry usage ''prompt_tokens'' (input_tokens c) of
                 Inl e \<Rightarrow> (c1, False)
               | Inr p \<Rightarrow> (c1\<lparr>input_tokens := p\<rparr>, True))"

definition capture_event :: "json \<Rightarrow> capture \<Rightarrow> capture \<times> bool" where
  "capture_event v c =
     (case v of
        JObj kvs \<Rightarrow>
          let choices = dget kvs ''choices'' (JList []); usage = dget kvs ''usage'' JNull in
          if \<not> truthy choices then capture_usage usage c
          else (case choice_text choices of
                  Inl e \<Rightarrow> (c, False)
                | Inr content \<Rightarrow>
                    capture_usage usage (if truthy content then c\<lparr>full_content := full_content c @ [content]\<rparr> else c))
      | _ \<Rightarrow> (c, False))"

fun capture_lines :: "(string \<Rightarrow> json option) \<Rightarrow> string list \<Rightarrow> capture \<Rightarrow> capture" where
  "capture_lines loads [] c = c"
| "capture_lines loads (l # ls) c =
     (if \<not> starts_with l ''data: '' then capture_lines loads ls c
      else let data = strip (drop 6 l) in
           if data = ''[DONE]'' then capture_lines loads ls c
           else case loads data of
                  None \<Rightarrow> c
                | Some v \<Rightarrow> let (c1, ok) = capture_event v c in if ok then capture_lines loads ls c1 else c1)"

section \<open>The stream\<close>

text \<open>
  How a stream ends. \<open>NotStarted\<close>: the client is gone before the response has begun, so the generator
  is never advanced and none of its code runs, the \<open>finally\<close> included.
\<close>

datatype source_end = SourceDone | SourceFails py_error | ClientGone | NotStarted

record passed =
  to_client :: "string list"
  captured :: capture
  broke :: "py_error option"

text \<open>The \<open>try\<close> of the generator; \<open>look\<close>: no chunk with content has been seen yet.\<close>

fun pass_chunks :: "(string \<Rightarrow> json option) \<Rightarrow> bool \<Rightarrow> string list \<Rightarrow> passed \<Rightarrow> passed" where
  "pass_chunks loads look [] p = p"
| "pass_chunks loads look (ch # chs) p =
     (case (if look \<and> ch \<noteq> [] then sanitise_preview loads ch else Inr (Plain [])) of
        Inl e \<Rightarrow> p\<lparr>broke := Some e\<rparr>
      | Inr v \<Rightarrow>
          pass_chunks loads (look \<and> ch = []) chs
            (p\<lparr>to_client := to_client p @ [ch], captured := capture_lines loads (splitlines ch) (captured p)\<rparr>))"

text \<open>\<open>"".join(full_content)\<close>.\<close>

fun joined :: "json list \<Rightarrow> string result" where
  "joined [] = Inr []"
| "joined (JStr s # vs) = bindE (joined vs) (\<lambda>t. Inr (s @ t))"
| "joined (v # vs) = Inl TypeError"

text \<open>\<open>output_tokens == 0\<close>.\<close>

fun equals_zero :: "json \<Rightarrow> bool" where
  "equals_zero (JInt i) = (i = 0)"
| "equals_zero (JReal r) = (r = 0)"
| "equals_zero (JBool b) = (\<not> b)"
| "equals_zero v = False"

definition stream_body :: "(string \<Rightarrow> json option) \<Rightarrow> string list \<Rightarrow> source_end \<Rightarrow> passed" where
  "stream_body loads chunks e =
     (let p = pass_chunks loads True chunks \<lparr>to_client = [], captured = capture_init, broke = None\<rparr> in
      if broke p \<noteq> None then p
      else case e of
             SourceDone \<Rightarrow>
               (if full_content (captured p) = [] then p
                else case joined (full_content (captured p)) of Inl e \<Rightarrow> p\<lparr>broke := Some e\<rparr> | Inr s \<Rightarrow> p)
           | SourceFails e \<Rightarrow> p\<lparr>broke := Some e\<rparr>
           | _ \<Rightarrow> p)"

text \<open>The metrics of the \<open>finally\<close>, up to the first exception.\<close>

definition output_estimate :: "capture \<Rightarrow> json result" where
  "output_estimate c =
     (if equals_zero (output_tokens c) \<and> full_content c \<noteq> []
      then bindE (joined (full_content c)) (\<lambda>s. Inr (JInt (max 1 (int (length s) div 4))))
      else Inr (output_tokens c))"

definition record_metrics :: "(json \<Rightarrow> unit result) \<Rightarrow> capture \<Rightarrow> unit result" where
  "record_metrics inc c = bindE (output_estimate c) (\<lambda>out. bindE (inc (input_tokens c)) (\<lambda>u. inc out))"

record forwarded =
  f_sent :: "string list"
  f_broke :: "py_error option"
  f_released :: bool           \<comment> \<open>slot lock released and request counted as finished\<close>

text \<open>A request without a model has no metrics to record.\<close>

definition stream_with_timing ::
  "(string \<Rightarrow> json option) \<Rightarrow> (json \<Rightarrow> unit result) \<Rightarrow> bool \<Rightarrow> string list \<Rightarrow> source_end \<Rightarrow> forwarded" where
  "stream_with_timing loads inc has_model chunks e =
     (if e = NotStarted then \<lparr>f_sent = [], f_broke = None, f_released = False\<rparr>
      else let p = stream_body loads chunks e in
      case (if has_model then record_metrics inc (captured p) else Inr ()) of
        Inl err \<Rightarrow> \<lparr>f_sent = to_client p, f_broke = Some err, f_released = False\<rparr>
      | Inr u \<Rightarrow> \<lparr>f_sent = to_client p, f_broke = broke p, f_released = True\<rparr>)"

section \<open>The client's view\<close>

fun first_preview :: "(string \<Rightarrow> json option) \<Rightarrow> string list \<Rightarrow> preview result" where
  "first_preview loads [] = Inr (Plain [])"
| "first_preview loads (ch # chs) = (if ch = [] then first_preview loads chs else sanitise_preview loads ch)"

lemma pass_chunks_quiet: "to_client (pass_chunks loads False chs p) = to_client p @ chs"
  "broke (pass_chunks loads False chs p) = broke p"
  by (induction chs arbitrary: p) auto

lemma pass_chunks_sent:
  "to_client (pass_chunks loads True chs p)
     = to_client p @ (case first_preview loads chs of Inl e \<Rightarrow> takeWhile (\<lambda>c. c = []) chs | Inr v \<Rightarrow> chs)"
proof (induction chs arbitrary: p)
  case (Cons ch chs)
  then show ?case by (cases "ch = []"; cases "sanitise_preview loads ch") (auto simp: pass_chunks_quiet split: sum.splits)
qed simp

lemma stream_body_sent: "to_client (stream_body loads chunks e) = to_client (pass_chunks loads True chunks \<lparr>to_client = [], captured = capture_init, broke = None\<rparr>)"
  "captured (stream_body loads chunks e) = captured (pass_chunks loads True chunks \<lparr>to_client = [], captured = capture_init, broke = None\<rparr>)"
  by (auto simp: stream_body_def Let_def split: source_end.splits sum.splits)

text \<open>
  The client gets the backend's chunks unchanged and in order, whatever they hold and however their text
  is read for the log, with one exception: if the preview of the first chunk with content raises, which is
  computed for a log line only, that chunk and all later ones are withheld.
\<close>

theorem stream_transparent:
  "e \<noteq> NotStarted \<Longrightarrow> f_sent (stream_with_timing loads inc has_model chunks e)
     = (case first_preview loads chunks of Inl err \<Rightarrow> takeWhile (\<lambda>c. c = []) chunks | Inr v \<Rightarrow> chunks)"
proof -
  assume "e \<noteq> NotStarted"
  then have "f_sent (stream_with_timing loads inc has_model chunks e) = to_client (stream_body loads chunks e)"
    by (auto simp: stream_with_timing_def Let_def split: sum.splits)
  then show ?thesis by (simp add: stream_body_sent pass_chunks_sent)
qed

text \<open>An event the log cannot read, in a first chunk, costs the client the whole answer.\<close>

lemma unreadable_first_event_breaks:
  "stream_with_timing (\<lambda>s. if s = ''null'' then Some JNull else None) (\<lambda>n. Inr ()) True
     [''data: null'' @ [nlc], ''data: [DONE]'' @ [nlc]] SourceDone
   = \<lparr>f_sent = [], f_broke = Some AttributeError, f_released = True\<rparr>"
  by code_simp

section \<open>Cleaning up\<close>

text \<open>What a backend that keeps to the protocol sends: texts as content, counts as numbers.\<close>

definition count_ok :: "json \<Rightarrow> bool" where
  "count_ok n \<longleftrightarrow> (\<exists>i. n = JInt i \<and> i \<ge> 0)"

definition event_ok :: "json \<Rightarrow> bool" where
  "event_ok v \<longleftrightarrow> (\<exists>kvs. v = JObj kvs
     \<and> (truthy (dget kvs ''choices'' (JList [])) \<longrightarrow> (\<exists>s. choice_text (dget kvs ''choices'' (JList [])) = Inr (JStr s)))
     \<and> (truthy (dget kvs ''usage'' JNull) \<longrightarrow>
          (\<exists>us. dget kvs ''usage'' JNull = JObj us \<and> (\<forall>k n. map_of us k = Some n \<longrightarrow> count_ok n))))"

definition capture_ok :: "capture \<Rightarrow> bool" where
  "capture_ok c \<longleftrightarrow> (\<forall>v\<in>set (full_content c). \<exists>s. v = JStr s) \<and> count_ok (input_tokens c) \<and> count_ok (output_tokens c)"

lemma usage_entry_ok:
  assumes "\<forall>k n. map_of us k = Some n \<longrightarrow> count_ok n" and "count_ok old"
  shows "\<exists>n. usage_entry (JObj us) k old = Inr n \<and> count_ok n"
proof (cases "map_of us k")
  case None
  then show ?thesis using assms(2) by (simp add: usage_entry_def map_of_eq_None_iff)
next
  case (Some n)
  then have "k \<in> fst ` set us" by (metis map_of_eq_None_iff option.distinct(1))
  with Some show ?thesis using assms(1) by (auto simp: usage_entry_def)
qed

lemma capture_event_ok: "event_ok v \<Longrightarrow> capture_ok c \<Longrightarrow> capture_ok (fst (capture_event v c))"
proof -
  have used: "capture_ok c \<Longrightarrow> capture_ok (fst (capture_usage (JObj us) c))"
    if "\<forall>k n. map_of us k = Some n \<longrightarrow> count_ok n" for us c
    using usage_entry_ok [OF that, of "output_tokens c" "''completion_tokens''"]
      usage_entry_ok [OF that, of "input_tokens c" "''prompt_tokens''"]
    by (auto simp: capture_usage_def capture_ok_def Let_def)
  assume "event_ok v" and c: "capture_ok c"
  then obtain kvs where v: "v = JObj kvs"
    "truthy (dget kvs ''choices'' (JList [])) \<Longrightarrow> \<exists>s. choice_text (dget kvs ''choices'' (JList [])) = Inr (JStr s)"
    "truthy (dget kvs ''usage'' JNull) \<Longrightarrow>
       \<exists>us. dget kvs ''usage'' JNull = JObj us \<and> (\<forall>k n. map_of us k = Some n \<longrightarrow> count_ok n)"
    by (auto simp: event_ok_def)
  have u: "capture_ok d \<Longrightarrow> capture_ok (fst (capture_usage (dget kvs ''usage'' JNull) d))" for d
  proof (cases "truthy (dget kvs ''usage'' JNull)")
    case True
    then show "capture_ok d \<Longrightarrow> ?thesis" using v(3) used by auto
  qed (simp add: capture_usage_def)
  show ?thesis
  proof (cases "truthy (dget kvs ''choices'' (JList []))")
    case True
    then obtain s where "choice_text (dget kvs ''choices'' (JList [])) = Inr (JStr s)" using v(2) by blast
    moreover have "capture_ok (c\<lparr>full_content := full_content c @ [JStr s]\<rparr>)" using c by (simp add: capture_ok_def)
    ultimately show ?thesis using True u c by (simp add: capture_event_def v(1) Let_def)
  next
    case False
    then show ?thesis using u c by (simp add: capture_event_def v(1) Let_def)
  qed
qed

text \<open>Every event that is read out of a chunk is one of these.\<close>

definition lines_ok :: "(string \<Rightarrow> json option) \<Rightarrow> string \<Rightarrow> bool" where
  "lines_ok loads ch \<longleftrightarrow> (\<forall>l\<in>set (splitlines ch). \<forall>v.
     starts_with l ''data: '' \<and> loads (strip (drop 6 l)) = Some v \<longrightarrow> event_ok v)"

lemma capture_lines_ok:
  "\<forall>l\<in>set ls. \<forall>v. starts_with l ''data: '' \<and> loads (strip (drop 6 l)) = Some v \<longrightarrow> event_ok v \<Longrightarrow>
   capture_ok c \<Longrightarrow> capture_ok (capture_lines loads ls c)"
proof (induction ls arbitrary: c)
  case (Cons l ls)
  then show ?case
    using capture_event_ok [of _ c] by (auto simp: Let_def split: option.splits prod.splits) (metis fst_conv)+
qed simp

lemma pass_chunks_ok:
  "\<forall>ch\<in>set chs. lines_ok loads ch \<Longrightarrow> capture_ok (captured p) \<Longrightarrow> capture_ok (captured (pass_chunks loads look chs p))"
proof (induction chs arbitrary: look p)
  case (Cons ch chs)
  have "capture_ok (capture_lines loads (splitlines ch) (captured p))"
    using Cons.prems by (intro capture_lines_ok) (simp_all add: lines_ok_def)
  then show ?case using Cons by (auto split: sum.splits)
qed simp

lemma joined_ok: "\<forall>v\<in>set vs. \<exists>s. v = JStr s \<Longrightarrow> \<exists>s. joined vs = Inr s"
  by (induction vs) auto

text \<open>
  C32: With a backend that keeps to the protocol, so that every event in its chunks has texts as content and
  numbers that are not negative as counts, the slot lock is released and the request counted as finished at
  the end of every stream that was begun: one read to its end, one that broke, and one whose client went
  away in the middle. Counters take numbers that are not negative.
\<close>

theorem stream_releases:
  assumes "\<forall>ch\<in>set chunks. lines_ok loads ch" and "\<forall>i \<ge> 0. inc (JInt i) = Inr ()" and "e \<noteq> NotStarted"
  shows "f_released (stream_with_timing loads inc has_model chunks e)"
proof -
  have c: "capture_ok (captured (stream_body loads chunks e))"
    unfolding stream_body_sent
    by (rule pass_chunks_ok [OF assms(1)]) (simp add: capture_ok_def capture_init_def count_ok_def)
  then obtain s where "joined (full_content (captured (stream_body loads chunks e))) = Inr s"
    using joined_ok unfolding capture_ok_def by blast
  with c assms(2) have "record_metrics inc (captured (stream_body loads chunks e)) = Inr ()"
    by (auto simp: record_metrics_def output_estimate_def capture_ok_def count_ok_def)
  then show ?thesis using assms(3) by (simp add: stream_with_timing_def Let_def)
qed

definition hello_event :: json where
  "hello_event = JObj [(''choices'', JList [JObj [(''delta'', JObj [(''content'', JStr ''hello'')])]]),
     (''usage'', JObj [(''prompt_tokens'', JInt 3), (''completion_tokens'', JInt 1)])]"

definition hello_loads :: "string \<Rightarrow> json option" where
  "hello_loads s = (if s = ''E'' then Some hello_event else None)"

definition plain_inc :: "json \<Rightarrow> unit result" where
  "plain_inc n = (case n of JInt i \<Rightarrow> if i < 0 then Inl ValueError else Inr () | _ \<Rightarrow> Inl TypeError)"

theorem stream_releases_witness:
  "f_released (stream_with_timing hello_loads plain_inc True [''data: E'', ''data: [DONE]''] SourceDone)
   \<and> captured (stream_body hello_loads [''data: E'', ''data: [DONE]''] SourceDone)
       = \<lparr>full_content = [JStr ''hello''], input_tokens = JInt 3, output_tokens = JInt 1\<rparr>"
proof (rule conjI)
  have "event_ok hello_event" unfolding event_ok_def
    by (rule exI, rule conjI, rule hello_event_def) (simp add: dget_def choice_text_def get_in_def as_obj_def count_ok_def)
  then show "f_released (stream_with_timing hello_loads plain_inc True [''data: E'', ''data: [DONE]''] SourceDone)"
    by (intro stream_releases) (auto simp: hello_loads_def plain_inc_def lines_ok_def)
qed code_simp

text \<open>
  A client that is gone before its response has begun takes the slot with it: the generator is made and never
  started, so nothing releases the lock, and no later request gets past it (\<open>unreleased_slot_blocks\<close>).
\<close>

lemma unstarted_stream_keeps_slot:
  "\<not> f_released (stream_with_timing loads inc has_model chunks NotStarted)"
  by (simp add: stream_with_timing_def)

text \<open>One event whose counts are null is enough for the lock to stay taken.\<close>

definition null_event :: json where
  "null_event = JObj [(''choices'', JList []), (''usage'', JObj [(''prompt_tokens'', JNull), (''completion_tokens'', JInt 1)])]"

lemma null_count_keeps_lock:
  "stream_with_timing (\<lambda>s. if s = ''E'' then Some null_event else None) plain_inc True [''data: E''] SourceDone
     = \<lparr>f_sent = [''data: E''], f_broke = Some TypeError, f_released = False\<rparr>"
  by code_simp

lemma streaming_stays:
  "map_of (p_reqs s) i = Some (PStream, m) \<Longrightarrow> (\<And>st. e \<noteq> StreamEnd i st) \<Longrightarrow>
   map_of (p_reqs (proxy_step e s)) i = Some (PStream, m)"
  by (cases e; simp)
    (auto simp: request_def arbiter_reply_def lock_wake_def lock_cancel_def sent_reply_def stream_end_def
      enter_slot_def finish_req_def send_def set_phase_def decrement_queue_def increment_queue_def llm_request_started_def
      llm_request_finished_def record_request_def record_swap_def Let_def evictor_step_def evictor_wake_def evictor_sleep_def
      unload_next_def verify_next_def split: option.splits phase.splits arb_answer.splits list.splits evictor.splits
      evict_answer.splits)

text \<open>
  And a slot lock that is not released stops the proxy: as long as the end of the stream is not
  reached, whatever else happens, its request keeps the lock and no other request is forwarded.
\<close>

theorem unreleased_slot_blocks:
  assumes "map_of (p_reqs (proxy_run es0 proxy_init)) i = Some (PStream, m)" and "\<forall>st. StreamEnd i st \<notin> set es"
    and "s = proxy_run (es0 @ es) proxy_init"
  shows "p_lock s = Some i \<and> (\<forall>j x. j \<noteq> i \<and> map_of (p_reqs s) j = Some x \<longrightarrow> \<not> active x)"
proof -
  have "map_of (p_reqs t) i = Some (PStream, m) \<Longrightarrow> \<forall>st. StreamEnd i st \<notin> set es
      \<Longrightarrow> map_of (p_reqs (proxy_run es t)) i = Some (PStream, m)" for t
  proof (induction es arbitrary: t)
    case (Cons e es)
    have "map_of (p_reqs (proxy_step e t)) i = Some (PStream, m)"
      using Cons.prems by (intro streaming_stays) auto
    then show ?case using Cons.IH Cons.prems(2) by simp
  qed simp
  then have i: "map_of (p_reqs s) i = Some (PStream, m)" using assms by simp
  obtain k where k: "proxy_inv k s" using proxy_run_inv assms(3) by blast
  have l: "map_of (p_reqs s) j = Some x \<and> active x \<Longrightarrow> p_lock s = Some j" for j x
    using inv_lockD(1) [OF k] by blast
  have "p_lock s = Some i" using l [of i] i by (simp add: active_def)
  then show ?thesis using l by (metis option.inject)
qed

theorem unreleased_slot_blocks_witness:
  "let s = proxy_run ([Request 1 (JStr ''a''), ArbiterReply 1 AGranted, SentReply 1 True]
       @ [Request 2 (JStr ''a''), ArbiterReply 2 AGranted, LockWake]) proxy_init
   in p_lock s = Some 1 \<and> map_of (p_reqs s) 2 = Some (PLock, JStr ''a'')"
proof -
  have "map_of (p_reqs (proxy_run [Request 1 (JStr ''a''), ArbiterReply 1 AGranted, SentReply 1 True] proxy_init)) 1
      = Some (PStream, JStr ''a'')"
    by code_simp
  from unreleased_slot_blocks [OF this _ refl, of "[Request 2 (JStr ''a''), ArbiterReply 2 AGranted, LockWake]"]
  have "p_lock (proxy_run ([Request 1 (JStr ''a''), ArbiterReply 1 AGranted, SentReply 1 True]
       @ [Request 2 (JStr ''a''), ArbiterReply 2 AGranted, LockWake]) proxy_init) = Some 1"
    by simp
  moreover have "map_of (p_reqs (proxy_run ([Request 1 (JStr ''a''), ArbiterReply 1 AGranted, SentReply 1 True]
       @ [Request 2 (JStr ''a''), ArbiterReply 2 AGranted, LockWake]) proxy_init)) 2 = Some (PLock, JStr ''a'')"
    by code_simp
  ultimately show ?thesis unfolding Let_def by blast
qed

end
