(* ===== verification/Docker_Client.thy ===== *)
theory Docker_Client
  imports Arbiter_Scheduler
begin

text \<open>
  \<open>arbiter/docker_client.py\<close>: how the arbiter reads Docker's answers, and what
  \<open>ContainerReclaimer._up\<close> and \<open>kill\<close> make of them, which is where the answers of the scheduler's
  environment come from. The socket is outside the model: a call gives the bytes received, or
  the transport's error. Bytes are characters 0 to 255; the final UTF-8 decoding is left out, so
  a body stays bytes. \<open>json.loads\<close> is a parameter.
\<close>

section \<open>Bytes\<close>

definition crlf :: string where
  "crlf = [CHR 0x0D, CHR 0x0A]"

definition byte_space :: "char \<Rightarrow> bool" where
  "byte_space c \<longleftrightarrow> c \<in> {CHR 0x20, CHR 0x09, CHR 0x0A, CHR 0x0B, CHR 0x0C, CHR 0x0D}"

definition byte_strip :: "string \<Rightarrow> string" where
  "byte_strip s = rev (dropWhile byte_space (rev (dropWhile byte_space s)))"

text \<open>\<open>s.split()\<close>: the maximal runs without white space.\<close>

fun byte_words :: "string \<Rightarrow> string \<Rightarrow> string list" where
  "byte_words w [] = (if w = [] then [] else [w])"
| "byte_words w (c # cs) =
     (if byte_space c then (if w = [] then byte_words [] cs else w # byte_words [] cs)
      else byte_words (w @ [c]) cs)"

definition byte_lower :: "string \<Rightarrow> string" where
  "byte_lower s = map (\<lambda>c. let n = (of_char c :: nat) in if 65 \<le> n \<and> n \<le> 90 then char_of (n + 32) else c) s"

text \<open>\<open>int(s, 16)\<close>: white space, a sign, a prefix \<open>0x\<close>, and single underscores are allowed.\<close>

definition hex_val :: "char \<Rightarrow> int option" where
  "hex_val c = (let n = (of_char c :: int) in
     if 48 \<le> n \<and> n \<le> 57 then Some (n - 48)
     else if 97 \<le> n \<and> n \<le> 102 then Some (n - 87)
     else if 65 \<le> n \<and> n \<le> 70 then Some (n - 55)
     else None)"

fun hex_digits :: "int \<Rightarrow> bool \<Rightarrow> string \<Rightarrow> int result" where
  "hex_digits acc after_digit [] = (if after_digit then Inr acc else Inl ValueError)"
| "hex_digits acc after_digit (c # cs) =
     (if c = CHR ''_'' then (if after_digit then hex_digits acc False cs else Inl ValueError)
      else case hex_val c of
             None \<Rightarrow> Inl ValueError
           | Some d \<Rightarrow> hex_digits (16 * acc + d) True cs)"

definition hex_prefixed :: "string \<Rightarrow> int result" where
  "hex_prefixed cs =
     (case cs of
        c # x # r \<Rightarrow>
          if c = CHR ''0'' \<and> (x = CHR ''x'' \<or> x = CHR ''X'')
          then hex_digits 0 False (if take 1 r = ''_'' then drop 1 r else r)
          else hex_digits 0 False cs
      | _ \<Rightarrow> hex_digits 0 False cs)"

definition int16 :: "string \<Rightarrow> int result" where
  "int16 s =
     (case byte_strip s of
        c # cs \<Rightarrow> if c = CHR ''-'' then bindE (hex_prefixed cs) (\<lambda>i. Inr (- i))
                  else if c = CHR ''+'' then hex_prefixed cs
                  else hex_prefixed (c # cs)
      | [] \<Rightarrow> Inl ValueError)"

section \<open>Responses\<close>

text \<open>\<open>size_line.split(b";")[0]\<close>.\<close>

definition before_semicolon :: "string \<Rightarrow> string" where
  "before_semicolon s = takeWhile (\<lambda>c. c \<noteq> CHR '';'') s"

lemma dechunk_shrinks:
  assumes "cut crlf body = Some (l, rest)"
  shows "length (let b = slice_from n rest in if starts_with b crlf then drop 2 b else b) < length body"
  using cut_length [OF assms] length_slice_from_le [of n rest] by (auto simp: Let_def crlf_def)

function dechunk :: "string \<Rightarrow> string" where
  "dechunk body =
     (if body = [] then []
      else case cut crlf body of
             None \<Rightarrow> []
           | Some (size_line, rest) \<Rightarrow>
              (case int16 (before_semicolon size_line) of
                 Inl e \<Rightarrow> []
               | Inr n \<Rightarrow>
                   if n = 0 then []
                   else slice_to n rest @
                        dechunk (let b = slice_from n rest in
                                 if starts_with b crlf then drop 2 b else b)))"
  by pat_completeness auto
termination
  by (relation "measure length") (simp_all only: wf_measure in_measure, metis dechunk_shrinks)

declare dechunk.simps [simp del]

text \<open>The part of \<open>_request\<close> that reads the response; no error but \<open>DockerError\<close> comes out.\<close>

definition parse_response :: "string \<Rightarrow> (int \<times> string) result" where
  "parse_response raw =
     (let (head, body) = (case cut (crlf @ crlf) raw of None \<Rightarrow> (raw, []) | Some hb \<Rightarrow> hb);
          line = (case cut crlf head of None \<Rightarrow> head | Some (l, _) \<Rightarrow> l);
          ws = byte_words [] line
      in if length ws < 2 then Inl DockerError
         else case int_literal (ws ! 1) of
                Inl e \<Rightarrow> Inl DockerError
              | Inr status \<Rightarrow>
                  Inr (status, if sublist ''transfer-encoding: chunked'' (byte_lower head)
                               then dechunk body else body))"

section \<open>The three operations\<close>

text \<open>\<open>received\<close> is what the socket gave: all bytes up to the close, or an \<open>OSError\<close>.\<close>

definition docker_state :: "(string \<Rightarrow> json result) \<Rightarrow> string result \<Rightarrow> json option result" where
  "docker_state loads received =
     bindE (bindE received parse_response) (\<lambda>(status, body).
       if status = 404 then Inr None
       else if status \<noteq> 200 then Inl DockerError
       else bindE (loads body) (\<lambda>v.
              case v of JObj kvs \<Rightarrow> Inr (Some (dget kvs ''State'' (JObj [])))
                      | _ \<Rightarrow> Inl AttributeError))"

definition docker_kill :: "string result \<Rightarrow> unit result" where
  "docker_kill received =
     bindE (bindE received parse_response) (\<lambda>(status, body).
       if status = 204 \<or> status = 409 then Inr () else Inl DockerError)"

text \<open>\<open>ping\<close> catches \<open>OSError\<close> alone.\<close>

definition docker_ping :: "string result \<Rightarrow> bool result" where
  "docker_ping received =
     (case bindE received parse_response of
        Inl OSError \<Rightarrow> Inr False
      | Inl e \<Rightarrow> Inl e
      | Inr (status, body) \<Rightarrow> Inr (status = 200))"

text \<open>\<open>_up\<close>: \<open>bool(state and state.get("Running"))\<close>.\<close>

definition container_up :: "(string \<Rightarrow> json result) \<Rightarrow> string result \<Rightarrow> bool result" where
  "container_up loads received =
     bindE (docker_state loads received) (\<lambda>st.
       case st of
         None \<Rightarrow> Inr False
       | Some v \<Rightarrow>
           if \<not> truthy v then Inr False
           else case v of JObj kvs \<Rightarrow> Inr (truthy (dget kvs ''Running'' JNull))
                        | _ \<Rightarrow> Inl AttributeError)"

text \<open>What a reclaimer's suspended call receives.\<close>

definition up_answer :: "(string \<Rightarrow> json result) \<Rightarrow> string result \<Rightarrow> answer" where
  "up_answer loads received = (case container_up loads received of Inl e \<Rightarrow> AErr | Inr b \<Rightarrow> AUp b)"

definition kill_answer :: "string result \<Rightarrow> answer" where
  "kill_answer received = (case docker_kill received of Inl e \<Rightarrow> AErr | Inr u \<Rightarrow> AKilled)"

section \<open>Chunked bodies\<close>

text \<open>The encoding a server uses: the size in hexadecimal, the bytes, and a last chunk of size 0.\<close>

definition hex_char :: "nat \<Rightarrow> char" where
  "hex_char d = ''0123456789abcdef'' ! d"

fun to_hex :: "nat \<Rightarrow> string" where
  "to_hex n = (if n < 16 then [hex_char n] else to_hex (n div 16) @ [hex_char (n mod 16)])"

declare to_hex.simps [simp del]

definition chunk :: "string \<Rightarrow> string" where
  "chunk c = to_hex (length c) @ crlf @ c @ crlf"

definition chunked :: "string list \<Rightarrow> string" where
  "chunked cs = concat (map chunk cs) @ ''0'' @ crlf @ crlf"

lemma hex_char_table:
  "list_all (\<lambda>d. hex_val (hex_char d) = Some (int d) \<and> hex_char d \<noteq> CHR ''_''
     \<and> \<not> byte_space (hex_char d) \<and> hex_char d \<noteq> CHR '';'' \<and> hex_char d \<noteq> CHR 0x0D
     \<and> hex_char d \<noteq> CHR ''-'' \<and> hex_char d \<noteq> CHR ''+'' \<and> hex_char d \<noteq> CHR ''x''
     \<and> hex_char d \<noteq> CHR ''X'') [0..<16]"
  by (simp add: upt_rec hex_char_def hex_val_def byte_space_def)

lemma hex_char_facts:
  assumes "d < 16"
  shows "hex_val (hex_char d) = Some (int d)" "hex_char d \<noteq> CHR ''_''" "\<not> byte_space (hex_char d)"
    "hex_char d \<noteq> CHR '';''" "hex_char d \<noteq> CHR 0x0D" "hex_char d \<noteq> CHR ''-''"
    "hex_char d \<noteq> CHR ''+''" "hex_char d \<noteq> CHR ''x''" "hex_char d \<noteq> CHR ''X''"
  using hex_char_table assms unfolding list_all_iff by auto

lemma to_hex_chars: "c \<in> set (to_hex n) \<Longrightarrow> \<exists>d<16. c = hex_char d"
proof (induction n rule: to_hex.induct)
  case (1 n)
  have d: "n mod 16 < 16" by simp
  show ?case
  proof (cases "n < 16")
    case True
    then show ?thesis using 1(2) by (auto simp: to_hex.simps [of n])
  next
    case False
    then have "c \<in> set (to_hex (n div 16)) \<or> c = hex_char (n mod 16)"
      using 1(2) by (auto simp: to_hex.simps [of n])
    then show ?thesis using 1(1) [OF False] d by blast
  qed
qed

lemma hex_digits_append:
  "hex_digits acc a xs = Inr v \<Longrightarrow> xs \<noteq> [] \<Longrightarrow> d < 16
     \<Longrightarrow> hex_digits acc a (xs @ [hex_char d]) = Inr (16 * v + int d)"
proof (induction acc a xs arbitrary: v rule: hex_digits.induct)
  case (2 acc a c cs)
  then show ?case
    by (cases cs) (auto simp: hex_char_facts split: if_splits option.splits)
qed simp

lemma to_hex_nonempty [simp]: "to_hex n \<noteq> []"
  by (simp add: to_hex.simps [of n])

lemma hex_digits_to_hex: "hex_digits 0 False (to_hex n) = Inr (int n)"
proof (induction n rule: to_hex.induct)
  case (1 n)
  show ?case
  proof (cases "n < 16")
    case True
    then show ?thesis by (simp add: to_hex.simps [of n] hex_char_facts)
  next
    case False
    then have "hex_digits 0 False (to_hex (n div 16) @ [hex_char (n mod 16)])
        = Inr (16 * int (n div 16) + int (n mod 16))"
      using 1 by (intro hex_digits_append) simp_all
    also have "16 * int (n div 16) + int (n mod 16) = int n"
      by (metis mult_div_mod_eq of_nat_add of_nat_mult of_nat_numeral)
    finally show ?thesis using False by (simp add: to_hex.simps [of n])
  qed
qed

lemma dropWhile_none: "\<forall>c\<in>set s. \<not> P c \<Longrightarrow> dropWhile P s = s"
  by (cases s) auto

lemma byte_strip_id: "\<forall>c\<in>set s. \<not> byte_space c \<Longrightarrow> byte_strip s = s"
  by (simp add: byte_strip_def dropWhile_none)

lemma int16_to_hex: "int16 (to_hex n) = Inr (int n)"
proof -
  have no: "c \<in> set (to_hex n) \<Longrightarrow> c \<noteq> CHR ''-'' \<and> c \<noteq> CHR ''+'' \<and> c \<noteq> CHR ''x'' \<and> c \<noteq> CHR ''X''
      \<and> \<not> byte_space c" for c
    using to_hex_chars [of c n] by (auto simp: hex_char_facts)
  obtain c cs where h: "to_hex n = c # cs" using to_hex_nonempty by (metis neq_Nil_conv)
  have "hex_prefixed (to_hex n) = hex_digits 0 False (to_hex n)"
    using no by (auto simp: hex_prefixed_def split: list.split)
  moreover have "byte_strip (to_hex n) = to_hex n" using no by (intro byte_strip_id) blast
  moreover have "c \<noteq> CHR ''-''" "c \<noteq> CHR ''+''" using no [of c] h by simp_all
  ultimately show ?thesis
    using h by (simp add: int16_def hex_digits_to_hex [symmetric] del: hex_digits.simps)
qed

lemma to_hex_line: "before_semicolon (to_hex n) = to_hex n" "CHR 0x0D \<notin> set (to_hex n)"
proof -
  have "c \<noteq> CHR '';'' \<and> c \<noteq> CHR 0x0D" if "c \<in> set (to_hex n)" for c
    using to_hex_chars [OF that] hex_char_facts(4,5) by auto
  then show "before_semicolon (to_hex n) = to_hex n" "CHR 0x0D \<notin> set (to_hex n)"
    by (auto simp: before_semicolon_def)
qed

lemma dechunk_chunk:
  assumes "c \<noteq> []" shows "dechunk (chunk c @ rest) = c @ dechunk rest"
proof -
  have "cut crlf (chunk c @ rest) = Some (to_hex (length c), c @ crlf @ rest)"
    using cut_first [OF to_hex_line(2), of "[CHR 0x0A]"] by (simp add: chunk_def crlf_def)
  moreover have "chunk c @ rest \<noteq> []" by (simp add: chunk_def)
  ultimately show ?thesis
    using assms
    by (subst dechunk.simps)
      (simp add: to_hex_line int16_to_hex starts_with_def Let_def, simp add: crlf_def)
qed

lemma dechunk_end: "dechunk (''0'' @ crlf @ crlf) = []"
proof -
  have "cut crlf (''0'' @ crlf @ crlf) = Some (''0'', crlf)" by (simp add: crlf_def)
  moreover have "int16 (before_semicolon ''0'') = Inr 0"
    by (simp add: before_semicolon_def int16_def byte_strip_def byte_space_def hex_prefixed_def hex_val_def)
  ultimately show ?thesis
    unfolding dechunk.simps [of "''0'' @ crlf @ crlf"] by (simp only:) simp
qed

text \<open>
  Reassembling a chunked body gives back the body: for every way of cutting it into non-empty
  chunks, whatever bytes they hold (line ends, digits, bytes above 127), no byte is lost, added
  or moved.
\<close>

theorem dechunk_chunked:
  assumes "\<forall>c\<in>set cs. c \<noteq> []"
  shows "dechunk (chunked cs) = concat cs"
  using assms by (induction cs) (simp_all add: chunked_def dechunk_end [simplified] dechunk_chunk)

theorem dechunk_chunked_witness:
  "dechunk (chunked [''ab'' @ crlf, ''0;'']) = ''ab'' @ crlf @ ''0;''"
  by (subst dechunk_chunked) simp_all

text \<open>
  A container that does not exist is down, not an error; any other failure to read its state is
  an error and never an answer. (So a reclaim never concludes from a failed call.)
\<close>

lemma up_answer_missing:
  assumes "parse_response raw = Inr (404, body)" shows "up_answer loads (Inr raw) = AUp False"
  using assms by (simp add: up_answer_def container_up_def docker_state_def)

lemma up_answer_error:
  assumes "parse_response raw = Inr (status, body)" "status \<noteq> 404" "status \<noteq> 200"
  shows "up_answer loads (Inr raw) = AErr"
  using assms by (simp add: up_answer_def container_up_def docker_state_def)

end
