(* ===== verification/Docker_Requests.thy ===== *)
theory Docker_Requests
  imports Docker_Client
begin

text \<open>
  The asking side of \<open>arbiter/docker_client.py\<close>: where the client connects, what it sends, and the
  loop that receives. The socket is its answers: whether connecting and sending succeed, and what
  each \<open>recv\<close> gives. \<open>urllib.parse.quote\<close> is modelled, with UTF-8 for the code points of the model.
\<close>

section \<open>The address\<close>

datatype address = Tcp string int | UnixSocket string

definition DEFAULT_HOST :: string where "DEFAULT_HOST = ''tcp://docker-socket-proxy:2375''"

text \<open>\<open>__init__\<close> and the choice in \<open>_connect\<close>; a port that is not a number raises.\<close>

definition docker_address :: "string \<Rightarrow> address result" where
  "docker_address host =
     (if starts_with host ''tcp://''
      then let rest = drop 6 host;
               (hostname, port) = (case cut '':'' rest of None \<Rightarrow> (rest, []) | Some hp \<Rightarrow> hp)
           in bindE (if port = [] then Inr 2375 else py_int (JStr port)) (\<lambda>p. Inr (Tcp hostname p))
      else Inr (UnixSocket host))"

section \<open>The request\<close>

definition utf8_char :: "char \<Rightarrow> string" where
  "utf8_char c = (let n = (of_char c :: nat) in
     if n < 128 then [c] else [char_of (192 + n div 64), char_of (128 + n mod 64)])"

definition utf8 :: "string \<Rightarrow> string" where
  "utf8 s = concat (map utf8_char s)"

text \<open>Letters, digits, \<open>_.-~\<close>, and the slash, which is the default of the argument \<open>safe\<close>.\<close>

definition url_safe :: "char \<Rightarrow> bool" where
  "url_safe c \<longleftrightarrow> (let n = (of_char c :: nat) in
     48 \<le> n \<and> n \<le> 57 \<or> 65 \<le> n \<and> n \<le> 90 \<or> 97 \<le> n \<and> n \<le> 122
     \<or> n = 95 \<or> n = 46 \<or> n = 45 \<or> n = 126 \<or> n = 47)"

definition hex_upper :: "nat \<Rightarrow> char" where
  "hex_upper d = ''0123456789ABCDEF'' ! d"

definition quote_byte :: "char \<Rightarrow> string" where
  "quote_byte c = (if url_safe c then [c]
     else let n = (of_char c :: nat) in [CHR ''%'', hex_upper (n div 16), hex_upper (n mod 16)])"

definition url_quote :: "string \<Rightarrow> string" where
  "url_quote s = concat (map quote_byte (utf8 s))"

definition state_path :: "string \<Rightarrow> string" where
  "state_path container = ''/containers/'' @ url_quote container @ ''/json''"

definition kill_path :: "string \<Rightarrow> string \<Rightarrow> string" where
  "kill_path container signal = ''/containers/'' @ url_quote container @ ''/kill?signal='' @ signal"

definition request_text :: "string \<Rightarrow> string \<Rightarrow> string" where
  "request_text meth path =
     meth @ '' '' @ path @ '' HTTP/1.1'' @ crlf @ ''Host: docker'' @ crlf
     @ ''Accept: application/json'' @ crlf @ ''Connection: close'' @ crlf @ crlf"

section \<open>The exchange\<close>

text \<open>The loop around \<open>recv\<close>: up to the empty answer. A peer that says nothing more times out.\<close>

fun recv_all :: "string result list \<Rightarrow> string result" where
  "recv_all [] = Inl OSError"
| "recv_all (Inl e # answers) = Inl e"
| "recv_all (Inr c # answers) =
     (if c = [] then Inr [] else bindE (recv_all answers) (\<lambda>raw. Inr (c @ raw)))"

record network =
  n_connect :: "address \<Rightarrow> unit result"
  n_send :: "string \<Rightarrow> unit result"
  n_recvs :: "string result list"

text \<open>\<open>_connect\<close> and \<open>_request\<close> up to the received bytes.\<close>

definition docker_exchange :: "network \<Rightarrow> address \<Rightarrow> string \<Rightarrow> string \<Rightarrow> string result" where
  "docker_exchange net addr meth path =
     bindE (n_connect net addr) (\<lambda>u.
     bindE (n_send net (request_text meth path)) (\<lambda>u. recv_all (n_recvs net)))"

section \<open>What the daemon reads\<close>

text \<open>The daemon's side of the quoting: percent sequences back to bytes.\<close>

fun unquote :: "string \<Rightarrow> string" where
  "unquote [] = []"
| "unquote (c # cs) =
     (if c = CHR ''%'' then
        (case cs of
           a # b # r \<Rightarrow>
             (case (hex_val a, hex_val b) of
                (Some x, Some y) \<Rightarrow> char_of (nat (16 * x + y)) # unquote r
              | _ \<Rightarrow> c # unquote cs)
         | _ \<Rightarrow> c # unquote cs)
      else c # unquote cs)"

lemma hex_upper_table:
  "list_all (\<lambda>d. hex_val (hex_upper d) = Some (int d) \<and> url_safe (hex_upper d)) [0..<16]"
  by (simp add: upt_rec hex_upper_def hex_val_def url_safe_def)

lemma hex_upper_facts:
  assumes "d < 16" shows "hex_val (hex_upper d) = Some (int d)" "url_safe (hex_upper d)"
  using hex_upper_table assms unfolding list_all_iff by auto

lemma url_safe_not:
  "url_safe c \<Longrightarrow> c \<noteq> CHR ''%'' \<and> \<not> byte_space c \<and> c \<noteq> CHR 0x0D \<and> c \<noteq> CHR ''?''"
  by (auto simp: url_safe_def byte_space_def)

lemma nibbles: "(of_char c :: nat) div 16 < 16" "(of_char c :: nat) mod 16 < 16"
  using nat_of_char_less_256 [of c] less_mult_imp_div_less [of "of_char c" 16 16] by simp_all

lemma unquote_byte: "unquote (quote_byte c @ s) = c # unquote s"
proof (cases "url_safe c")
  case True
  then show ?thesis using url_safe_not [of c] by (simp add: quote_byte_def)
next
  case False
  define n where "n = (of_char c :: nat)"
  have n: "n div 16 < 16" "n mod 16 < 16" using nibbles [of c] by (simp_all add: n_def)
  have "nat (16 * int (n div 16) + int (n mod 16)) = n"
    by (metis mult_div_mod_eq nat_int of_nat_add of_nat_mult of_nat_numeral)
  then show ?thesis
    using False hex_upper_facts(1) [OF n(1)] hex_upper_facts(1) [OF n(2)]
    by (simp add: quote_byte_def Let_def n_def)
qed

lemma unquote_quote: "unquote (url_quote s) = utf8 s"
proof -
  have "unquote (concat (map quote_byte bs)) = bs" for bs
    by (induction bs) (simp_all add: unquote_byte)
  then show ?thesis by (simp add: url_quote_def)
qed

fun un_utf8 :: "string \<Rightarrow> string" where
  "un_utf8 [] = []"
| "un_utf8 [c] = [c]"
| "un_utf8 (c # d # cs) =
     (if (of_char c :: nat) < 128 then c # un_utf8 (d # cs)
      else char_of ((of_char c - 192) * 64 + (of_char d - 128) :: nat) # un_utf8 cs)"

lemma un_utf8_utf8: "un_utf8 (utf8 s) = s"
proof (induction s)
  case (Cons c s)
  define n where "n = (of_char c :: nat)"
  have n: "n < 256" by (simp add: n_def nat_of_char_less_256)
  show ?case
  proof (cases "n < 128")
    case True
    then have "utf8 (c # s) = c # utf8 s" by (simp add: utf8_def utf8_char_def n_def)
    then show ?thesis using Cons True by (cases "utf8 s") (simp_all add: n_def)
  next
    case False
    have b: "(of_char (char_of (192 + n div 64) :: char) :: nat) = 192 + n div 64"
      "(of_char (char_of (128 + n mod 64) :: char) :: nat) = 128 + n mod 64"
      using n by simp_all
    have "utf8 (c # s) = char_of (192 + n div 64) # char_of (128 + n mod 64) # utf8 s"
      using False by (simp add: utf8_def utf8_char_def n_def Let_def)
    moreover have "char_of (n div 64 * 64 + n mod 64) = c" by (simp add: n_def)
    ultimately show ?thesis using Cons by (simp only: un_utf8.simps b) simp
  qed
qed (simp add: utf8_def)

lemma quote_inj: "url_quote m = url_quote n \<longleftrightarrow> m = n"
  by (metis unquote_quote un_utf8_utf8)

lemma quote_chars: "c \<in> set (url_quote s) \<Longrightarrow> c \<noteq> CHR 0x0D \<and> \<not> byte_space c \<and> c \<noteq> CHR ''?''"
proof -
  assume "c \<in> set (url_quote s)"
  then obtain b where "c \<in> set (quote_byte b)" by (auto simp: url_quote_def)
  then have "c = CHR ''%'' \<or> url_safe c"
    using hex_upper_facts(2) [OF nibbles(1) [of b]] hex_upper_facts(2) [OF nibbles(2) [of b]]
    by (auto simp: quote_byte_def Let_def split: if_splits)
  then show ?thesis using url_safe_not [of c] by (auto simp: byte_space_def)
qed

lemma no_cr_cut: "CHR 0x0D \<notin> set l \<Longrightarrow>
    cut (CHR 0x0D # sep) (l @ t) = map_option (\<lambda>(a, b). (l @ a, b)) (cut (CHR 0x0D # sep) t)"
  by (induction l) (auto simp: option.map_comp comp_def case_prod_unfold intro: option.map_ident [symmetric])

lemma take_line: "CHR 0x0D \<notin> set l \<Longrightarrow> takeWhile (\<lambda>c. c \<noteq> CHR 0x0D) (l @ CHR 0x0D # t) = l"
  by (induction l) auto

text \<open>
  The request is one request. Whatever the container is called, its first line has three words, the
  method, the path and the version, the head ends where the client ends it with nothing behind,
  and the path gives the name back: two names never ask for the same container, and a name adds no
  query to the signal.
\<close>

theorem one_request_per_name:
  "byte_words [] (takeWhile (\<lambda>c. c \<noteq> CHR 0x0D) (request_text ''GET'' (state_path n)))
     = [''GET'', state_path n, ''HTTP/1.1'']
   \<and> (\<exists>head. cut (crlf @ crlf) (request_text ''GET'' (state_path n)) = Some (head, []))
   \<and> (state_path m = state_path n \<longleftrightarrow> m = n)
   \<and> cut ''?'' (kill_path n sig) = Some (''/containers/'' @ url_quote n @ ''/kill'', ''signal='' @ sig)"
proof (intro conjI)
  have q: "CHR 0x0D \<notin> set (url_quote n)" "\<forall>c\<in>set (url_quote n). \<not> byte_space c" "CHR ''?'' \<notin> set (url_quote n)"
    using quote_chars by blast+
  have words: "byte_words w (s @ CHR '' '' # t) = (w @ s) # byte_words [] t"
    if "\<forall>c\<in>set s. \<not> byte_space c" "w @ s \<noteq> []" for w s t
    using that by (induction s arbitrary: w) (auto simp: byte_space_def)
  have p: "\<forall>c\<in>set (state_path n). \<not> byte_space c" "CHR 0x0D \<notin> set (state_path n)"
    using q by (auto simp: state_path_def byte_space_def)
  have line: "takeWhile (\<lambda>c. c \<noteq> CHR 0x0D) (request_text ''GET'' (state_path n))
      = ''GET'' @ CHR '' '' # state_path n @ CHR '' '' # ''HTTP/1.1''"
    using p(2) take_line [of "''GET '' @ state_path n @ '' HTTP/1.1''"] by (simp add: request_text_def crlf_def)
  show "byte_words [] (takeWhile (\<lambda>c. c \<noteq> CHR 0x0D) (request_text ''GET'' (state_path n)))
     = [''GET'', state_path n, ''HTTP/1.1'']"
    unfolding line using words [of "''GET''" "[]"] words [OF p(1), of "[]"]
    by (simp add: byte_space_def) (simp add: state_path_def byte_space_def)
  have c: "CHR 0x0D \<notin> set (''GET '' @ state_path n @ '' HTTP/1.1'')" using p(2) by simp
  have "cut (crlf @ crlf) ((''GET '' @ state_path n @ '' HTTP/1.1'') @ crlf @ ''Host: docker'' @ crlf
     @ ''Accept: application/json'' @ crlf @ ''Connection: close'' @ crlf @ crlf)
   = Some ((''GET '' @ state_path n @ '' HTTP/1.1'') @ crlf @ ''Host: docker'' @ crlf
     @ ''Accept: application/json'' @ crlf @ ''Connection: close'', [])"
    using no_cr_cut [OF c, of "[CHR 0x0A, CHR 0x0D, CHR 0x0A]"] by (simp add: crlf_def)
  then show "\<exists>head. cut (crlf @ crlf) (request_text ''GET'' (state_path n)) = Some (head, [])"
    by (auto simp: request_text_def)
  show "state_path m = state_path n \<longleftrightarrow> m = n" by (simp add: state_path_def quote_inj)
  show "cut ''?'' (kill_path n sig) = Some (''/containers/'' @ url_quote n @ ''/kill'', ''signal='' @ sig)"
    using cut_first [of "CHR ''?''" "''/containers/'' @ url_quote n @ ''/kill''" "[]" "''signal='' @ sig"] q(3)
    by (simp add: kill_path_def)
qed

text \<open>But a slash is left as it is, so a name can reach another endpoint.\<close>

lemma slash_not_quoted: "state_path ''../images'' = ''/containers/../images/json''"
  by (simp add: state_path_def url_quote_def utf8_def utf8_char_def quote_byte_def url_safe_def)

section \<open>The answer\<close>

lemma recv_all_segments: "\<forall>g\<in>set segs. g \<noteq> [] \<Longrightarrow> recv_all (map Inr segs @ [Inr []]) = Inr (concat segs)"
  by (induction segs) simp_all

lemma cut_response:
  assumes "lines \<noteq> []" "\<forall>l\<in>set lines. l \<noteq> [] \<and> CHR 0x0D \<notin> set l"
  shows "cut (crlf @ crlf) (join crlf lines @ crlf @ crlf @ body) = Some (join crlf lines, body)"
  using assms
proof (induction crlf lines rule: join.induct)
  case (2 x)
  then show ?case
    using no_cr_cut [of x "[CHR 0x0A, CHR 0x0D, CHR 0x0A]" "crlf @ crlf @ body"] by (simp add: crlf_def)
next
  case (3 x y xs)
  then obtain c cs where y: "y = c # cs" "c \<noteq> CHR 0x0D" by (cases y) auto
  obtain r where r: "join crlf (y # xs) = c # r" using y(1) by (cases xs) simp_all
  have "cut (crlf @ crlf) (crlf @ join crlf (y # xs) @ crlf @ crlf @ body)
      = Some (crlf @ join crlf (y # xs), body)"
    using 3 y(2) unfolding r by (simp add: crlf_def)
  then show ?case
    using no_cr_cut [of x "[CHR 0x0A, CHR 0x0D, CHR 0x0A]" "crlf @ join crlf (y # xs) @ crlf @ crlf @ body"] 3
    by (simp add: crlf_def)
qed simp

lemma first_line:
  assumes "CHR 0x0D \<notin> set l"
  shows "(case cut crlf (join crlf (l # ls)) of None \<Rightarrow> join crlf (l # ls) | Some (a, b) \<Rightarrow> a) = l"
  using assms cut_first [of "CHR 0x0D" l "[CHR 0x0A]"] cut_none [of "CHR 0x0D" l "[CHR 0x0A]"]
  by (cases ls) (simp_all add: crlf_def)

lemma byte_lower_sublist: "sublist a b \<Longrightarrow> sublist (byte_lower a) (byte_lower b)"
  by (auto simp: sublist_def byte_lower_def) blast

lemma parse_chunked_ok:
  assumes h: "h \<in> set headers" "byte_lower h = ''transfer-encoding: chunked''"
    and l: "\<forall>l\<in>set headers. l \<noteq> [] \<and> CHR 0x0D \<notin> set l" and c: "\<forall>c\<in>set cs. c \<noteq> []"
  shows "parse_response (join crlf (''HTTP/1.1 200 OK'' # headers) @ crlf @ crlf @ chunked cs) = Inr (200, concat cs)"
proof -
  let ?lines = "''HTTP/1.1 200 OK'' # headers"
  have k: "cut (crlf @ crlf) (join crlf ?lines @ crlf @ crlf @ chunked cs) = Some (join crlf ?lines, chunked cs)"
    using l by (intro cut_response) auto
  have f: "(case cut crlf (join crlf ?lines) of None \<Rightarrow> join crlf ?lines | Some (a, b) \<Rightarrow> a) = ''HTTP/1.1 200 OK''"
    by (rule first_line) simp
  have w: "byte_words [] ''HTTP/1.1 200 OK'' = [''HTTP/1.1'', ''200'', ''OK'']" "int_literal ''200'' = Inr 200"
    by (simp_all add: byte_space_def digit_val_def)
  have "sublist h (join crlf ?lines)" using h(1) by (intro sublist_join) simp
  then have "sublist ''transfer-encoding: chunked'' (byte_lower (join crlf ?lines))"
    using byte_lower_sublist h(2) by metis
  then show ?thesis
    using k f w dechunk_chunked [OF c] by (simp add: parse_response_def Let_def)
qed

text \<open>
  C10: What the arbiter learns of a container is what the daemon says, however it arrives. The
  daemon answers with a JSON object, cut into any non-empty chunks, with the header spelled in
  any case and among any other headers, and the network delivers the bytes in any segments: then
  the suspended call is told exactly whether the field \<open>Running\<close> of the state is true.
\<close>

theorem container_seen:
  assumes "h \<in> set headers" "byte_lower h = ''transfer-encoding: chunked''"
    and "\<forall>l\<in>set headers. l \<noteq> [] \<and> CHR 0x0D \<notin> set l" and "\<forall>c\<in>set cs. c \<noteq> []"
    and "loads (concat cs) = Inr (JObj kvs)" "map_of kvs ''State'' = Some (JObj st)"
    and "n_connect net addr = Inr ()" "n_send net (request_text ''GET'' (state_path name)) = Inr ()"
    and "\<forall>g\<in>set segs. g \<noteq> []" "n_recvs net = map Inr segs @ [Inr []]"
      "concat segs = join crlf (''HTTP/1.1 200 OK'' # headers) @ crlf @ crlf @ chunked cs"
  shows "up_answer loads (docker_exchange net addr ''GET'' (state_path name)) = AUp (truthy (dget st ''Running'' JNull))"
proof -
  have "docker_exchange net addr ''GET'' (state_path name) = Inr (concat segs)"
    using assms(7,8,10) recv_all_segments [OF assms(9)] by (simp add: docker_exchange_def)
  then have "docker_state loads (docker_exchange net addr ''GET'' (state_path name)) = Inr (Some (JObj st))"
    using parse_chunked_ok [OF assms(1-4)] assms(5,6,11) by (simp add: docker_state_def dget_def)
  then show ?thesis by (auto simp: up_answer_def container_up_def dget_def)
qed

definition example_segments :: "string list" where
  "example_segments =
     [''HTTP/1.1 200 OK'' @ crlf @ ''Server: d'', crlf @ ''transfer-encoding: chunked'' @ crlf @ crlf @ ''2'' @ crlf @ ''{r'' @ crlf @ ''1'',
      crlf @ ''}'' @ crlf @ ''0'' @ crlf @ crlf]"

theorem container_seen_witness:
  "up_answer (\<lambda>s. if s = ''{r}'' then Inr (JObj [(''State'', JObj [(''Running'', JBool True)])]) else Inl ValueError)
     (docker_exchange \<lparr>n_connect = \<lambda>a. Inr (), n_send = \<lambda>t. Inr (), n_recvs = map Inr example_segments @ [Inr []]\<rparr>
        (Tcp ''d'' 2375) ''GET'' (state_path ''trainer'')) = AUp True"
proof -
  let ?loads = "\<lambda>s. if s = ''{r}'' then Inr (JObj [(''State'', JObj [(''Running'', JBool True)])]) else Inl ValueError"
  let ?net = "\<lparr>n_connect = \<lambda>a. Inr (), n_send = \<lambda>t. Inr (), n_recvs = map Inr example_segments @ [Inr []]\<rparr>"
  let ?h = "''transfer-encoding: chunked''" and ?hs = "[''Server: d'', ''transfer-encoding: chunked'']" and ?cs = "[''{r'', ''}'']"
  have h: "?h \<in> set ?hs" "byte_lower ?h = ''transfer-encoding: chunked''" "\<forall>l\<in>set ?hs. l \<noteq> [] \<and> CHR 0x0D \<notin> set l"
    "\<forall>c\<in>set ?cs. c \<noteq> []" "?loads (concat ?cs) = Inr (JObj [(''State'', JObj [(''Running'', JBool True)])])"
    "map_of [(''State'', JObj [(''Running'', JBool True)])] ''State'' = Some (JObj [(''Running'', JBool True)])"
    by (simp_all add: byte_lower_def)
  have g: "\<forall>g\<in>set example_segments. g \<noteq> []" by (simp add: example_segments_def crlf_def)
  have c: "concat example_segments = join crlf (''HTTP/1.1 200 OK'' # ?hs) @ crlf @ crlf @ chunked ?cs"
    by (simp add: example_segments_def chunked_def chunk_def to_hex.simps hex_char_def)
  show ?thesis
    using container_seen [where loads = ?loads and cs = ?cs and headers = ?hs and h = ?h and net = ?net
        and addr = "Tcp ''d'' 2375" and name = "''trainer''" and segs = example_segments,
        OF h(1-4) h(5) h(6) _ _ g _ c]
    by (simp add: dget_def)
qed

text \<open>Whatever goes wrong on the way is an error and never an answer about the container.\<close>

lemma exchange_fails:
  "n_connect net addr = Inl e \<Longrightarrow> up_answer loads (docker_exchange net addr meth path) = AErr"
  "n_connect net addr = Inr () \<Longrightarrow> n_send net (request_text meth path) = Inl e
     \<Longrightarrow> up_answer loads (docker_exchange net addr meth path) = AErr"
  "n_connect net addr = Inr () \<Longrightarrow> n_send net (request_text meth path) = Inr () \<Longrightarrow> \<forall>g\<in>set segs. g \<noteq> []
     \<Longrightarrow> n_recvs net = map Inr segs @ Inl e # rest \<Longrightarrow> up_answer loads (docker_exchange net addr meth path) = AErr"
proof -
  have r: "recv_all (map Inr segs @ Inl e # rest) = Inl e" if "\<forall>g\<in>set segs. g \<noteq> []" for segs rest
    using that by (induction segs) simp_all
  show "n_connect net addr = Inl e \<Longrightarrow> up_answer loads (docker_exchange net addr meth path) = AErr"
    "n_connect net addr = Inr () \<Longrightarrow> n_send net (request_text meth path) = Inl e
     \<Longrightarrow> up_answer loads (docker_exchange net addr meth path) = AErr"
    "n_connect net addr = Inr () \<Longrightarrow> n_send net (request_text meth path) = Inr () \<Longrightarrow> \<forall>g\<in>set segs. g \<noteq> []
     \<Longrightarrow> n_recvs net = map Inr segs @ Inl e # rest \<Longrightarrow> up_answer loads (docker_exchange net addr meth path) = AErr"
    by (simp_all add: docker_exchange_def up_answer_def container_up_def docker_state_def r)
qed

text \<open>
  The deployed address, and two that are refused when the client is made: an IPv6 address is cut
  at its first colon, and a port that is no number raises.
\<close>

lemma addresses:
  "docker_address DEFAULT_HOST = Inr (Tcp ''docker-socket-proxy'' 2375)"
  "docker_address ''tcp://docker'' = Inr (Tcp ''docker'' 2375)"
  "docker_address ''/var/run/docker.sock'' = Inr (UnixSocket ''/var/run/docker.sock'')"
  "docker_address ''tcp://[::1]:2375'' = Inl ValueError"
  by code_simp+

end
