(* ===== verification/Gpu_Handover.thy ===== *)
theory Gpu_Handover
  imports Arbiter_Properties Proxy_Main
begin

text \<open>
  The proxy and the arbiter together. The proxy calls the arbiter over HTTP: what it sends is in
  transit until it arrives (\<open>h_transit\<close>), and two calls in transit may arrive in either order,
  because \<open>_finish\<close> sends its release from a task of its own. The arbiter answers the acquires
  of the llm in the order in which they arrived (\<open>h_calls\<close>).
\<close>

definition llm :: string where "llm = ''llm''"

record handover =
  h_arb :: sched
  h_proxy :: proxy
  h_transit :: "message list"
  h_calls :: "nat list"
  h_read :: nat                 \<comment> \<open>results of the arbiter already looked at\<close>

definition handover_init :: "job list \<Rightarrow> handover" where
  "handover_init js = \<lparr>h_arb = scheduler_init js, h_proxy = proxy_init, h_transit = [],
     h_calls = [], h_read = 0\<rparr>"

text \<open>What \<open>gpu_acquire\<close> of \<open>arbiter/main.py\<close> answers, and what the client makes of it.\<close>

definition acquire_status :: "acq_result \<Rightarrow> int" where
  "acquire_status r = (case r of Granted d \<Rightarrow> 200 | Refused why \<Rightarrow> 503 | Raised e \<Rightarrow> 500)"

definition reply_of :: "acq_result \<Rightarrow> arb_answer" where
  "reply_of r = client_acquire (Some (acquire_status r, Inr (JObj [])))"

lemma reply_of_cases:
  "reply_of r = AGranted \<longleftrightarrow> (\<exists>d. r = Granted d)" "reply_of r \<noteq> ARaised"
  by (cases r; simp add: reply_of_def acquire_status_def client_acquire_def)+

definition in_proxy :: "pevent \<Rightarrow> handover \<Rightarrow> handover" where
  "in_proxy e h =
     (let p = proxy_step e (h_proxy h) in
      h\<lparr>h_proxy := p, h_transit := h_transit h @ drop (length (p_sent (h_proxy h))) (p_sent p)\<rparr>)"

definition in_arbiter :: "event \<Rightarrow> handover \<Rightarrow> handover" where
  "in_arbiter e h = h\<lparr>h_arb := sched_step e (h_arb h)\<rparr>"

text \<open>The \<open>n\<close>-th message in transit arrives.\<close>

definition deliver :: "nat \<Rightarrow> handover \<Rightarrow> handover" where
  "deliver n h =
     (if n < length (h_transit h)
      then let h' = h\<lparr>h_transit := take n (h_transit h) @ drop (Suc n) (h_transit h)\<rparr> in
           case h_transit h ! n of
             MAcquire i \<Rightarrow> in_arbiter (Acquire llm None) (h'\<lparr>h_calls := h_calls h @ [i]\<rparr>)
           | MRelease \<Rightarrow> in_arbiter (Release llm) h'
      else h)"

text \<open>The next result of the arbiter goes back to its caller.\<close>

definition answer_next :: "handover \<Rightarrow> handover" where
  "answer_next h =
     (case drop (h_read h) (s_results (h_arb h)) of
        [] \<Rightarrow> h
      | (n, r) # rs \<Rightarrow>
          let h' = h\<lparr>h_read := Suc (h_read h)\<rparr> in
          if n = llm then
            (case h_calls h of
               [] \<Rightarrow> h'
             | i # is \<Rightarrow> in_proxy (ArbiterReply i (reply_of r)) (h'\<lparr>h_calls := is\<rparr>))
          else h')"

datatype hevent = HProxy pevent | HArb event | HDeliver nat | HAnswer

fun handover_step :: "hevent \<Rightarrow> handover \<Rightarrow> handover" where
  "handover_step (HProxy e) h = in_proxy e h"
| "handover_step (HArb e) h = in_arbiter e h"
| "handover_step (HDeliver n) h = deliver n h"
| "handover_step HAnswer h = answer_next h"

definition handover_run :: "hevent list \<Rightarrow> handover \<Rightarrow> handover" where
  "handover_run es h = fold handover_step es h"

lemma handover_run_simps [simp]:
  "handover_run [] h = h" "handover_run (e # es) h = handover_run es (handover_step e h)"
  by (simp_all add: handover_run_def)

text \<open>Both sides keep their invariants in the composition.\<close>

definition handover_inv :: "handover \<Rightarrow> bool" where
  "handover_inv h \<longleftrightarrow> sched_inv (h_arb h) \<and> (\<exists>k. proxy_inv k (h_proxy h))"

lemma in_arbiter_inv: "handover_inv h \<Longrightarrow> handover_inv (in_arbiter e h)"
  by (simp add: handover_inv_def in_arbiter_def sched_step_inv)

lemma in_proxy_inv: "handover_inv h \<Longrightarrow> handover_inv (in_proxy e h)"
  using proxy.step_inv [of "h_proxy h" e] by (simp add: handover_inv_def in_proxy_def Let_def)

lemma inv_transit: "handover_inv h \<Longrightarrow> handover_inv (h\<lparr>h_transit := x\<rparr>)"
  "handover_inv h \<Longrightarrow> handover_inv (h\<lparr>h_calls := y\<rparr>)"
  "handover_inv h \<Longrightarrow> handover_inv (h\<lparr>h_read := z\<rparr>)"
  by (simp_all add: handover_inv_def)

lemma handover_step_inv: "handover_inv h \<Longrightarrow> handover_inv (handover_step e h)"
  by (cases e) (auto simp: in_arbiter_inv in_proxy_inv inv_transit deliver_def answer_next_def Let_def
      split: message.split list.split)

interpretation handover: machine handover_step handover_inv
    "\<lambda>h. \<exists>file js. load_jobs file = Inr js \<and> h = handover_init js"
proof
  show "handover_inv h" if "\<exists>file js. load_jobs file = Inr js \<and> h = handover_init js" for h
    using that sched_run_inv [of _ _ "[]"] proxy_init_inv
    by (auto simp: handover_inv_def handover_init_def)
qed (rule handover_step_inv)

section \<open>The llm's lease and its requests\<close>

definition served :: "handover \<Rightarrow> bool" where
  "served h \<longleftrightarrow> (\<exists>x\<in>set (p_reqs (h_proxy h)). active (snd x))"

text \<open>
  A request can be left on the card without a lease. The first request ends and its release
  is on its way in a task; a second request arrives, its acquire overtakes the release and is
  answered ``already held''; then the release arrives. The second request is being forwarded to
  the router while the arbiter holds no lease for the llm, and will grant the card to anyone.
\<close>

theorem release_overtaken:
  "let h = handover_run [HProxy (Request 1 (JStr ''m'')), HDeliver 0, HAnswer,
        HProxy (SentReply 1 True), HProxy (StreamEnd 1 200),
        HProxy (Request 2 (JStr ''m'')), HDeliver 1, HAnswer, HDeliver 0] (handover_init example_jobs)
   in served h \<and> \<not> rheld (rec_of (h_arb h) llm) \<and> s_holder (h_arb h) = None
      \<and> s_results (h_arb h) = [(llm, Granted NothingRunning), (llm, Granted AlreadyHeld)]"
  by (simp add: handover_init_def in_proxy_def in_arbiter_def deliver_def answer_next_def
      reply_of_def acquire_status_def client_acquire_def served_def active_def llm_def
      proxy_simps run_simps)

text \<open>
  The same through the idle evictor, with no message overtaken. The evictor finds the llms
  idle and starts to unload; a request arrives and is granted the card the llm still holds; the
  evictor then sees nothing resident and releases the lease under the running request.
\<close>

theorem evictor_releases_under_request:
  "let h = handover_run [HProxy (Request 1 (JStr ''m'')), HDeliver 0, HAnswer,
        HProxy (SentReply 1 True), HProxy (PTick 5), HProxy (StreamEnd 1 200),
        HProxy (PTick 700), HProxy (Evictor AEvictWake), HProxy (Evictor (AResident [''m''])),
        HProxy (Evictor (AUnloaded True)),
        HDeliver 0, HProxy (Request 2 (JStr ''n'')), HDeliver 0, HAnswer,
        HProxy (Evictor (AResident [])), HDeliver 0] (handover_init example_jobs)
   in served h \<and> \<not> rheld (rec_of (h_arb h) llm) \<and> p_current (h_proxy h) = None"
  by (simp add: handover_init_def in_proxy_def in_arbiter_def deliver_def answer_next_def
      reply_of_def acquire_status_def client_acquire_def served_def active_def llm_def
      proxy_simps run_simps)

end
