(* ===== verification/Handover_Order.thy ===== *)
theory Handover_Order
  imports Gpu_Handover Arbiter_Answers
begin

text \<open>
  The two executions at the end of \<open>Gpu_Handover\<close> show all that can go wrong: when the messages
  between proxy and arbiter arrive in the order they were sent, and the idle evictor does not
  release while there is a request, no request of the llm is ever forwarded without the lease.
\<close>

section \<open>The proxy's moves\<close>

text \<open>
  A step that moves request \<open>i\<close>: it is gone, or (when \<open>g\<close>) past its acquire; and a release is
  sent exactly when \<open>i\<close> was the last.
\<close>

definition moved :: "nat \<Rightarrow> bool \<Rightarrow> proxy \<Rightarrow> proxy \<Rightarrow> bool" where
  "moved i g s s' \<longleftrightarrow> (\<forall>j. j \<noteq> i \<longrightarrow> map_of (p_reqs s') j = map_of (p_reqs s) j)
     \<and> (map_of (p_reqs s') i = None
        \<or> g \<and> (\<exists>x. map_of (p_reqs s') i = Some x \<and> fst x \<noteq> PAcquire))
     \<and> (p_sent s' = p_sent s \<or> p_sent s' = p_sent s @ [MRelease] \<and> p_inflight s' = 0)
     \<and> (map_of (p_reqs s') i = None \<and> p_inflight s' = 0 \<and> p_depth s' = 0 \<longrightarrow> p_sent s' = p_sent s @ [MRelease])"

lemma moved_same: "p_reqs t = p_reqs s \<Longrightarrow> p_sent t = p_sent s \<Longrightarrow> moved i g t s' = moved i g s s'"
  by (simp add: moved_def)

lemma finish_moves: "moved i g s (finish_req i out s)"
  by (simp add: moved_def finish_req_def Let_def llm_request_finished_def send_def)

lemma enter_moves: "moved i True s (enter_slot i m s)"
  by (simp add: moved_def enter_slot_def Let_def decrement_queue_def record_swap_def set_phase_def)

lemma phase_moves: "fst x \<noteq> PAcquire \<Longrightarrow> moved i True s (set_phase i x s)"
  by (simp add: moved_def set_phase_def)

lemma reply_moves:
  assumes "map_of (p_reqs s) i = Some (PAcquire, m)"
  shows "moved i (a = AGranted) s (arbiter_reply i a s)"
proof (cases a)
  case AGranted
  then show ?thesis
    using assms enter_moves [of i s m]
      phase_moves [of "(PLock, m)" i "s\<lparr>p_waiters := p_waiters s @ [i]\<rparr>"]
      moved_same [of "s\<lparr>p_waiters := p_waiters s @ [i]\<rparr>" s i True]
    by (simp add: arbiter_reply_def)
next
  case ARefused
  then show ?thesis
    using assms finish_moves [where s = "decrement_queue s" and i = i and g = False and out = Refused503] moved_same [of "decrement_queue s" s i False]
    by (simp add: arbiter_reply_def decrement_queue_def)
next
  case ARaised
  then show ?thesis using assms finish_moves [where s = s and i = i] by (simp add: arbiter_reply_def)
qed

text \<open>
  All a step may do that is not an arrival or an answer: nothing, move a request that is past its
  acquire, or release when there is no request.
\<close>

definition steady :: "proxy \<Rightarrow> proxy \<Rightarrow> bool" where
  "steady s s' \<longleftrightarrow> p_reqs s' = p_reqs s \<and> p_sent s' = p_sent s
     \<or> p_reqs s = [] \<and> p_reqs s' = [] \<and> p_sent s' = p_sent s @ [MRelease]
     \<or> (\<exists>i x. map_of (p_reqs s) i = Some x \<and> fst x \<noteq> PAcquire \<and> moved i True s s')"

lemma steadyI: "map_of (p_reqs s) i = Some x \<Longrightarrow> fst x \<noteq> PAcquire \<Longrightarrow> moved i True s s' \<Longrightarrow> steady s s'"
  unfolding steady_def by blast

lemma steady_refl [simp]: "steady s s"
  by (simp add: steady_def)

lemma lock_steady: "steady s (lock_wake s)" "steady s (lock_cancel n s)"
proof -
  show "steady s (lock_wake s)"
  proof (cases "p_waiters s")
    case (Cons i js)
    have "moved i True s (enter_slot i m (s\<lparr>p_waiters := js\<rparr>))" for m
      using enter_moves [of i "s\<lparr>p_waiters := js\<rparr>" m] moved_same [of "s\<lparr>p_waiters := js\<rparr>" s] by simp
    then show ?thesis
      using Cons steadyI [of s i] by (auto simp: lock_wake_def split: option.split phase.split)
  qed (simp add: lock_wake_def)
  let ?s = "decrement_queue (s\<lparr>p_waiters := removeAll n (p_waiters s)\<rparr>)"
  have "moved n True s (finish_req n Failed ?s)"
    using finish_moves [where s = ?s] moved_same [of ?s s] by (simp add: decrement_queue_def)
  then show "steady s (lock_cancel n s)"
    using steadyI [of s n] by (auto simp: lock_cancel_def split: option.split phase.split)
qed

lemma stream_steady: "steady s (sent_reply n ok s)" "steady s (stream_end n st s)"
proof -
  have "moved n True s (finish_req n out (s\<lparr>p_lock := None\<rparr>))" for out
    using finish_moves [where s = "s\<lparr>p_lock := None\<rparr>"] moved_same [of "s\<lparr>p_lock := None\<rparr>" s] by simp
  then show "steady s (sent_reply n ok s)" "steady s (stream_end n st s)"
    using steadyI [of s n] phase_moves [of "(PStream, _)" n s]
    by (auto simp: sent_reply_def stream_end_def split: option.split phase.split)
qed

lemma evictor_sends:
  "p_reqs (evictor_step a s) = p_reqs s"
  "p_sent (evictor_step a s) = p_sent s \<or> p_sent (evictor_step a s) = p_sent s @ [MRelease]"
  by (cases "p_evictor s"; cases a;
      auto simp: evictor_step_def evictor_sleep_def evictor_wake_def unload_next_def verify_next_def send_def
      split: option.split list.split)+

lemma evictor_steady:
  "(p_sent (evictor_step a s) \<noteq> p_sent s \<longrightarrow> p_reqs s = []) \<Longrightarrow> steady s (evictor_step a s)"
  using evictor_sends [of a s] unfolding steady_def by auto

section \<open>The invariant of an orderly exchange\<close>

text \<open>
  The messages in transit are releases and behind them acquires of requests that wait for their
  answer; those that have arrived are \<open>cs\<close>. While a release is on its way nothing else of the
  llm's is at the arbiter.
\<close>

definition line_ok :: "message list \<Rightarrow> nat list \<Rightarrow> (nat \<times> phase \<times> json) list \<Rightarrow> bool" where
  "line_ok tr cs reqs \<longleftrightarrow> (\<exists>r is. tr = replicate r MRelease @ map MAcquire is \<and> distinct (cs @ is)
     \<and> (\<forall>i\<in>set (cs @ is). \<exists>m. map_of reqs i = Some (PAcquire, m))
     \<and> (r > 0 \<longrightarrow> cs = [] \<and> (\<forall>i x. map_of reqs i = Some x \<longrightarrow> i \<in> set is)))"

definition unread :: "nat \<Rightarrow> sched \<Rightarrow> (string \<times> acq_result) list" where
  "unread rd a = drop rd (s_results a)"

definition claimed :: "nat \<Rightarrow> sched \<Rightarrow> proxy \<Rightarrow> bool" where
  "claimed rd a p \<longleftrightarrow> (\<exists>d. (llm, Granted d) \<in> set (unread rd a))
     \<or> (\<exists>i x. map_of (p_reqs p) i = Some x \<and> fst x \<noteq> PAcquire)"

definition ordered :: "sched \<Rightarrow> proxy \<Rightarrow> message list \<Rightarrow> nat list \<Rightarrow> nat \<Rightarrow> bool" where
  "ordered a p tr cs rd \<longleftrightarrow> sched_inv a \<and> first_rank a llm \<and> proxy_inv 0 p \<and> rd \<le> length (s_results a)
     \<and> line_ok tr cs (p_reqs p)
     \<and> pending llm a + length (filter (\<lambda>x. fst x = llm) (unread rd a)) = length cs
     \<and> (claimed rd a p \<longrightarrow> rheld (rec_of a llm))
     \<and> (rheld (rec_of a llm) \<longrightarrow> p_reqs p \<noteq> [] \<or> MRelease \<in> set tr)"

lemma unread_step:
  assumes i: "sched_inv a" and f: "first_rank a llm" and rd: "rd \<le> length (s_results a)"
  shows "rd \<le> length (s_results (sched_step e a))"
    "pending llm (sched_step e a) + length (filter (\<lambda>x. fst x = llm) (unread rd (sched_step e a)))
       = pending llm a + length (filter (\<lambda>x. fst x = llm) (unread rd a))
         + (case e of Acquire m t \<Rightarrow> if m = llm then 1 else 0 | _ \<Rightarrow> 0)"
    "(llm, Granted d) \<in> set (unread rd (sched_step e a)) \<Longrightarrow>
       (llm, Granted d) \<in> set (unread rd a) \<or> rheld (rec_of (sched_step e a) llm)"
proof -
  obtain rs where rs: "s_results (sched_step e a) = s_results a @ rs"
    "\<forall>n d. (n, Granted d) \<in> set rs \<and> \<not> contained (rec_of a n) \<longrightarrow> rheld (rec_of (sched_step e a) n)"
    using step_results [OF i] by blast
  have u: "unread rd (sched_step e a) = unread rd a @ rs" using rs(1) rd by (simp add: unread_def)
  show "rd \<le> length (s_results (sched_step e a))" using rs(1) rd by simp
  show "pending llm (sched_step e a) + length (filter (\<lambda>x. fst x = llm) (unread rd (sched_step e a)))
       = pending llm a + length (filter (\<lambda>x. fst x = llm) (unread rd a))
         + (case e of Acquire m t \<Rightarrow> if m = llm then 1 else 0 | _ \<Rightarrow> 0)"
    using step_calls [OF i, of llm e] rs(1) u by (simp add: calls_made_def results_for_def)
  show "(llm, Granted d) \<in> set (unread rd (sched_step e a)) \<Longrightarrow>
       (llm, Granted d) \<in> set (unread rd a) \<or> rheld (rec_of (sched_step e a) llm)"
    using u rs(2) first_rank_kind(2) [OF i f] by auto
qed

lemma claimed_step:
  assumes i: "sched_inv a" and f: "first_rank a llm" and rd: "rd \<le> length (s_results a)"
    and c: "claimed rd a p \<longrightarrow> rheld (rec_of a llm)"
    and e: "e \<noteq> Release llm" "\<And>x. e \<noteq> ReleaseReply llm x"
  shows "claimed rd (sched_step e a) p \<longrightarrow> rheld (rec_of (sched_step e a) llm)"
  using unread_step(3) [OF i f rd] c first_rank_keeps [OF i f _ e] unfolding claimed_def by blast

lemma called_reqs: "line_ok tr cs reqs \<Longrightarrow> cs \<noteq> [] \<Longrightarrow> reqs \<noteq> []"
  unfolding line_ok_def by (cases cs) auto

text \<open>A lease that begins was asked for by a request that still waits.\<close>

lemma lease_asked:
  assumes i: "sched_inv a" "first_rank a llm" "rd \<le> length (s_results a)"
    and c: "pending llm (sched_step e a) + length (filter (\<lambda>x. fst x = llm) (unread rd (sched_step e a))) = length cs"
    and g: "\<not> rheld (rec_of a llm)" "rheld (rec_of (sched_step e a) llm)"
  shows "cs \<noteq> []"
proof -
  obtain d where "s_results (sched_step e a) = s_results a @ [(llm, Granted d)]"
    using step_gains [OF i(1) g] by blast
  then have "unread rd (sched_step e a) = unread rd a @ [(llm, Granted d)]" using i(3) by (simp add: unread_def)
  then show ?thesis using c by auto
qed

text \<open>A step of the arbiter that is not about the llm.\<close>

lemma ordered_arbiter:
  assumes o': "ordered a p tr cs rd"
    and e: "\<And>t. e \<noteq> Acquire llm t" "e \<noteq> Release llm" "\<And>x. e \<noteq> ReleaseReply llm x"
  shows "ordered (sched_step e a) p tr cs rd"
proof -
  have i: "sched_inv a" "first_rank a llm" "rd \<le> length (s_results a)"
    and c: "claimed rd a p \<longrightarrow> rheld (rec_of a llm)" using o' by (simp_all add: ordered_def)
  have "(case e of Acquire m t \<Rightarrow> if m = llm then 1 else 0 | _ \<Rightarrow> 0) = (0::nat)"
    using e(1) by (auto split: event.split)
  then have n: "pending llm (sched_step e a) + length (filter (\<lambda>x. fst x = llm) (unread rd (sched_step e a))) = length cs"
    using o' unread_step(2) [OF i, of e] by (simp add: ordered_def)
  have "p_reqs p \<noteq> [] \<or> MRelease \<in> set tr" if "rheld (rec_of (sched_step e a) llm)"
    using that o' lease_asked [OF i n] called_reqs [of tr cs "p_reqs p"] unfolding ordered_def by blast
  then show ?thesis
    using o' n unread_step(1) [OF i, of e] claimed_step [OF i c e(2,3)]
    by (simp add: ordered_def sched_step_inv step_first_rank)
qed

text \<open>An acquire arrives: it was the first in line, so no release is on its way.\<close>

lemma ordered_acquire:
  assumes o': "ordered a p (MAcquire n # tr) cs rd"
  shows "ordered (sched_step (Acquire llm None) a) p tr (cs @ [n]) rd"
proof -
  have i: "sched_inv a" "first_rank a llm" "rd \<le> length (s_results a)"
    and c: "claimed rd a p \<longrightarrow> rheld (rec_of a llm)"
    and l: "line_ok (MAcquire n # tr) cs (p_reqs p)" using o' by (simp_all add: ordered_def)
  obtain r js where r: "MAcquire n # tr = replicate r MRelease @ map MAcquire js" "distinct (cs @ js)"
    "\<forall>i\<in>set (cs @ js). \<exists>m. map_of (p_reqs p) i = Some (PAcquire, m)"
    using l unfolding line_ok_def by blast
  then obtain ks where k: "js = n # ks" "tr = map MAcquire ks" "r = 0"
    by (cases r; cases js) auto
  have "line_ok tr (cs @ [n]) (p_reqs p)"
    unfolding line_ok_def using r(2,3) k by (intro exI [of _ 0] exI [of _ ks]) auto
  moreover have "p_reqs p \<noteq> []" using r(3) k(1) by auto
  ultimately show ?thesis
    using o' unread_step(1,2) [OF i, of "Acquire llm None"] claimed_step [OF i c, of "Acquire llm None"]
    by (simp add: ordered_def sched_step_inv step_first_rank del: sched_step.simps)
qed

text \<open>A release arrives: no request is past its acquire and no grant is unread.\<close>

lemma ordered_release:
  assumes o': "ordered a p (MRelease # tr) cs rd"
  shows "ordered (sched_step (Release llm) a) p tr cs rd"
proof -
  have i: "sched_inv a" "first_rank a llm" "rd \<le> length (s_results a)"
    and n: "pending llm a + length (filter (\<lambda>x. fst x = llm) (unread rd a)) = length cs"
    and l: "line_ok (MRelease # tr) cs (p_reqs p)" using o' by (simp_all add: ordered_def)
  obtain r js where r: "MRelease # tr = replicate r MRelease @ map MAcquire js" "distinct (cs @ js)"
    "\<forall>i\<in>set (cs @ js). \<exists>m. map_of (p_reqs p) i = Some (PAcquire, m)"
    "r > 0 \<longrightarrow> cs = [] \<and> (\<forall>i x. map_of (p_reqs p) i = Some x \<longrightarrow> i \<in> set js)"
    using l unfolding line_ok_def by blast
  then obtain q where q: "r = Suc q" "tr = replicate q MRelease @ map MAcquire js"
    by (cases r; cases js) auto
  then have line: "line_ok tr cs (p_reqs p)" "cs = []"
    unfolding line_ok_def using r by auto
  have s: "s_results (sched_step (Release llm) a) = s_results a"
    using release_quiet(1) [of a llm] by (simp add: quiet_def)
  have "\<not> claimed rd a p"
    using r(3,4) q n line(2) unfolding claimed_def by (fastforce simp: filter_empty_conv)
  then have "\<not> claimed rd (sched_step (Release llm) a) p"
    by (simp add: claimed_def unread_def s del: sched_step.simps)
  moreover have "\<not> rheld (rec_of (sched_step (Release llm) a) llm)"
    using core_ok_lookup(1) [OF sched_inv_core [OF i(1)], of llm] first_rank_kind(2) [OF i(1,2)]
    by (auto simp: release_def Let_def split_beta job_for_same [OF i(1)] let_go_def holds_def
        simp del: job_for_rec_of)
  ultimately show ?thesis
    using o' line(1) unread_step(1,2) [OF i, of "Release llm"]
    by (simp add: ordered_def sched_step_inv step_first_rank del: sched_step.simps)
qed

text \<open>What the proxy sends joins the end of the line.\<close>

lemma new_messages:
  "moved i g s s' \<Longrightarrow> drop (length (p_sent s)) (p_sent s') = []
     \<or> drop (length (p_sent s)) (p_sent s') = [MRelease] \<and> p_inflight s' = 0"
  by (auto simp: moved_def)

lemma no_requests: "proxy_inv k s \<Longrightarrow> p_inflight s = 0 \<Longrightarrow> p_reqs s = []"
  by (cases "p_reqs s") (simp_all add: proxy_inv_def dcount_def)

lemma last_release:
  assumes "moved i g s s'" "proxy_inv 0 s'" "p_reqs s' = []"
  shows "MRelease \<in> set (drop (length (p_sent s)) (p_sent s'))"
proof -
  have "p_inflight s' = 0" "p_depth s' = 0" using assms(2,3) by (simp_all add: proxy_inv_def dcount_def)
  then have "p_sent s' = p_sent s @ [MRelease]" using assms(1,3) by (simp add: moved_def)
  then show ?thesis by simp
qed

lemma line_moved:
  assumes d: "distinct (cs @ js)"
    and q: "\<forall>j\<in>set (cs @ js). \<exists>m. map_of (p_reqs s) j = Some (PAcquire, m)"
    and n: "i \<notin> set (cs @ js)" and m: "moved i g s s'" and k: "proxy_inv k s'"
  shows "line_ok (map MAcquire js @ drop (length (p_sent s)) (p_sent s')) cs (p_reqs s')"
proof -
  have q': "\<forall>j\<in>set (cs @ js). \<exists>m. map_of (p_reqs s') j = Some (PAcquire, m)"
    using q n m unfolding moved_def by metis
  from new_messages [OF m] show ?thesis
  proof
    assume "drop (length (p_sent s)) (p_sent s') = []"
    then show ?thesis
      unfolding line_ok_def using d q' by (intro exI [of _ 0] exI [of _ js]) simp
  next
    assume a: "drop (length (p_sent s)) (p_sent s') = [MRelease] \<and> p_inflight s' = 0"
    then have e: "p_reqs s' = []" using no_requests [OF k] by blast
    then have "cs @ js = []" using q' by (cases "cs @ js") auto
    then show ?thesis
      unfolding line_ok_def using a e by (intro exI [of _ 1] exI [of _ "[]"]) simp
  qed
qed

lemma line_split:
  assumes l: "line_ok tr cs reqs"
    and c: "cs \<noteq> [] \<or> (\<exists>i x. map_of reqs i = Some x \<and> fst x \<noteq> PAcquire)"
  obtains js where "tr = map MAcquire js" "distinct (cs @ js)"
    "\<forall>i\<in>set (cs @ js). \<exists>m. map_of reqs i = Some (PAcquire, m)"
proof -
  obtain r js where r: "tr = replicate r MRelease @ map MAcquire js" "distinct (cs @ js)"
    "\<forall>i\<in>set (cs @ js). \<exists>m. map_of reqs i = Some (PAcquire, m)"
    "r > 0 \<longrightarrow> cs = [] \<and> (\<forall>i x. map_of reqs i = Some x \<longrightarrow> i \<in> set js)"
    using l unfolding line_ok_def by blast
  have "r = 0"
  proof (rule ccontr)
    assume "r \<noteq> 0"
    then have "cs = []" "\<forall>i x. map_of reqs i = Some x \<longrightarrow> i \<in> set js" using r(4) by simp_all
    then show False using c r(3) by fastforce
  qed
  then show thesis using that [of js] r by simp
qed

text \<open>Without a request everything in transit is a release, and another may join.\<close>

lemma line_released:
  assumes l: "line_ok tr cs []" shows "line_ok (tr @ [MRelease]) cs []"
proof -
  obtain r js where r: "tr = replicate r MRelease @ map MAcquire js"
    "\<forall>i\<in>set (cs @ js). \<exists>m. map_of [] i = Some (PAcquire, m :: json)"
    using l unfolding line_ok_def by blast
  then have "cs @ js = []" by (cases "cs @ js") auto
  then show ?thesis
    unfolding line_ok_def using r(1)
    by (intro exI [of _ "Suc r"] exI [of _ "[]"]) (simp add: replicate_append_same)
qed

lemma ordered_steady:
  assumes o': "ordered a p tr cs rd" and t: "steady p p'" and k: "proxy_inv 0 p'"
  shows "ordered a p' (tr @ drop (length (p_sent p)) (p_sent p')) cs rd"
proof (cases "p_reqs p' = p_reqs p \<and> p_sent p' = p_sent p
    \<or> p_reqs p = [] \<and> p_reqs p' = [] \<and> p_sent p' = p_sent p @ [MRelease]")
  case True
  then have q: "p_reqs p' = p_reqs p" by auto
  have "line_ok tr cs (p_reqs p)" using o' by (simp add: ordered_def)
  then have "line_ok (tr @ drop (length (p_sent p)) (p_sent p')) cs (p_reqs p)"
    using True line_released [of tr cs] by auto
  then show ?thesis using o' k by (simp add: ordered_def claimed_def q)
next
  case False
  then obtain i x where i: "map_of (p_reqs p) i = Some x" "fst x \<noteq> PAcquire" "moved i True p p'"
    using t unfolding steady_def by blast
  then have h: "rheld (rec_of a llm)" using o' unfolding ordered_def claimed_def by blast
  have l: "line_ok tr cs (p_reqs p)" using o' by (simp add: ordered_def)
  obtain js where js: "tr = map MAcquire js" "distinct (cs @ js)"
    "\<forall>i\<in>set (cs @ js). \<exists>m. map_of (p_reqs p) i = Some (PAcquire, m)"
    using line_split [OF l] i(1,2) by blast
  have "i \<notin> set (cs @ js)" using js(3) i(1,2) by force
  then show ?thesis
    using line_moved [OF js(2,3) _ i(3) k] last_release [OF i(3) k] o' h k js(1) by (auto simp: ordered_def)
qed

lemma ordered_request:
  assumes o': "ordered a p tr cs rd" and k: "proxy_inv 0 (request i m p)"
  shows "ordered a (request i m p) (tr @ drop (length (p_sent p)) (p_sent (request i m p))) cs rd"
proof (cases "map_of (p_reqs p) i")
  case None
  then have p': "p_reqs (request i m p) = dset i (PAcquire, m) (p_reqs p)"
    "p_sent (request i m p) = p_sent p @ [MAcquire i]"
    by (simp_all add: request_def send_def set_phase_def llm_request_started_def record_request_def
        increment_queue_def)
  obtain r js where r: "tr = replicate r MRelease @ map MAcquire js" "distinct (cs @ js)"
    "\<forall>i\<in>set (cs @ js). \<exists>m. map_of (p_reqs p) i = Some (PAcquire, m)"
    "r > 0 \<longrightarrow> cs = [] \<and> (\<forall>i x. map_of (p_reqs p) i = Some x \<longrightarrow> i \<in> set js)"
    using o' unfolding ordered_def line_ok_def by blast
  have "i \<notin> set (cs @ js)" using r(3) None by force
  then have "line_ok (tr @ [MAcquire i]) cs (p_reqs (request i m p))"
    unfolding line_ok_def p' using r by (intro exI [of _ r] exI [of _ "js @ [i]"]) auto
  moreover have "claimed rd a (request i m p) \<Longrightarrow> claimed rd a p"
    unfolding claimed_def p' by (auto split: if_splits)
  moreover have "p_reqs (request i m p) \<noteq> []" unfolding p' by (cases "p_reqs p") (auto split: if_splits)
  ultimately show ?thesis using o' k p'(2) by (simp add: ordered_def)
next
  case (Some x)
  then show ?thesis using o' by (simp add: request_def)
qed

lemma ordered_skip:
  assumes "ordered a p tr cs rd" "unread rd a = (n, res) # rs" "n \<noteq> llm"
  shows "ordered a p tr cs (Suc rd)"
proof -
  have "unread (Suc rd) a = rs" "rd < length (s_results a)"
    using assms(2) by (simp_all add: unread_def drop_Suc tl_drop [symmetric])
      (metis drop_all list.distinct(1) not_le)
  then show ?thesis using assms by (auto simp: ordered_def claimed_def)
qed

lemma ordered_answer:
  assumes o': "ordered a p tr (i # cs) rd" and u: "unread rd a = (llm, res) # rs"
    and k: "proxy_inv 0 (arbiter_reply i (reply_of res) p)"
  shows "ordered a (arbiter_reply i (reply_of res) p)
    (tr @ drop (length (p_sent p)) (p_sent (arbiter_reply i (reply_of res) p))) cs (Suc rd)"
proof -
  let ?p = "arbiter_reply i (reply_of res) p"
  have u': "unread (Suc rd) a = rs" "rd < length (s_results a)"
    using u by (simp_all add: unread_def drop_Suc tl_drop [symmetric])
      (metis drop_all list.distinct(1) not_le)
  have l: "line_ok tr (i # cs) (p_reqs p)" and c: "claimed rd a p \<longrightarrow> rheld (rec_of a llm)"
    using o' by (simp_all add: ordered_def)
  obtain js where js: "tr = map MAcquire js" "distinct ((i # cs) @ js)"
    "\<forall>j\<in>set ((i # cs) @ js). \<exists>m. map_of (p_reqs p) j = Some (PAcquire, m)"
    using line_split [OF l] by blast
  then obtain m where m: "map_of (p_reqs p) i = Some (PAcquire, m)" by auto
  note v = reply_moves [OF m, of "reply_of res"]
  have line: "line_ok (tr @ drop (length (p_sent p)) (p_sent ?p)) cs (p_reqs ?p)"
    unfolding js(1) by (rule line_moved [OF _ _ _ v k]) (use js(2,3) in auto)
  have "claimed rd a p" if d: "claimed (Suc rd) a ?p"
  proof (cases "(\<exists>d. (llm, Granted d) \<in> set rs) \<or> (\<exists>d. res = Granted d)")
    case True
    then show ?thesis using u unfolding claimed_def by auto
  next
    case False
    then obtain j x where j: "map_of (p_reqs ?p) j = Some x" "fst x \<noteq> PAcquire"
      using d u'(1) unfolding claimed_def by blast
    have "reply_of res \<noteq> AGranted" using False reply_of_cases(1) by blast
    then have "map_of (p_reqs ?p) i = None" "j \<noteq> i \<longrightarrow> map_of (p_reqs ?p) j = map_of (p_reqs p) j"
      using v unfolding moved_def by blast+
    then show ?thesis using j unfolding claimed_def by (metis option.distinct(1))
  qed
  then show ?thesis using o' line c u u' k last_release [OF v k] by (auto simp: ordered_def)
qed

section \<open>Orderly runs\<close>

text \<open>
  Messages arrive first in, first out; the answers to the proxy are the arbiter's; the evictor
  does not release while there is a request; and no one else calls for the llm.
\<close>

fun orderly :: "handover \<Rightarrow> hevent \<Rightarrow> bool" where
  "orderly h (HProxy (ArbiterReply i a)) = False"
| "orderly h (HProxy (Evictor a)) =
     (p_sent (evictor_step a (h_proxy h)) \<noteq> p_sent (h_proxy h) \<longrightarrow> p_reqs (h_proxy h) = [])"
| "orderly h (HProxy e) = True"
| "orderly h (HArb (Acquire n t)) = (n \<noteq> llm)"
| "orderly h (HArb (Release n)) = (n \<noteq> llm)"
| "orderly h (HArb (ReleaseReply n a)) = (n \<noteq> llm)"
| "orderly h (HArb e) = True"
| "orderly h (HDeliver n) = (n = 0)"
| "orderly h HAnswer = True"

fun orderly_run :: "hevent list \<Rightarrow> handover \<Rightarrow> bool" where
  "orderly_run [] h = True"
| "orderly_run (e # es) h = (orderly h e \<and> orderly_run es (handover_step e h))"

definition order_inv :: "handover \<Rightarrow> bool" where
  "order_inv h \<longleftrightarrow> ordered (h_arb h) (h_proxy h) (h_transit h) (h_calls h) (h_read h)"

lemma tick_steady: "steady s (proxy_step (PTick d) s)"
  by (simp add: steady_def)

lemma proxy_step_steady:
  assumes "orderly h (HProxy e)" "\<nexists>i m. e = Request i m"
  shows "steady (h_proxy h) (proxy_step e (h_proxy h))"
proof (cases e)
  case (PTick d)
  then show ?thesis using tick_steady by blast
qed (use assms in \<open>simp_all add: lock_steady stream_steady evictor_steady\<close>)

lemma order_in_proxy:
  assumes o': "order_inv h" and e: "orderly h (HProxy e)"
  shows "order_inv (in_proxy e h)"
proof -
  have o1: "ordered (h_arb h) (h_proxy h) (h_transit h) (h_calls h) (h_read h)"
    using o' by (simp add: order_inv_def)
  have k: "proxy_inv 0 (proxy_step e (h_proxy h))"
    using o1 proxy_step_inv [of 0 "h_proxy h" e] e by (auto simp: ordered_def)
  have "ordered (h_arb h) (proxy_step e (h_proxy h))
      (h_transit h @ drop (length (p_sent (h_proxy h))) (p_sent (proxy_step e (h_proxy h))))
      (h_calls h) (h_read h)"
    using ordered_steady [OF o1 proxy_step_steady k] ordered_request [OF o1] k e
    by (cases "\<exists>i m. e = Request i m") auto
  then show ?thesis by (simp add: order_inv_def in_proxy_def Let_def)
qed

lemma order_in_arbiter:
  assumes "order_inv h" "orderly h (HArb e)" shows "order_inv (in_arbiter e h)"
  using assms ordered_arbiter [of "h_arb h" "h_proxy h" "h_transit h" "h_calls h" "h_read h" e]
  by (cases e) (simp_all add: order_inv_def in_arbiter_def del: sched_step.simps)

lemma order_deliver:
  assumes "order_inv h" shows "order_inv (deliver 0 h)"
proof (cases "h_transit h")
  case (Cons x tr)
  then show ?thesis
    using assms ordered_acquire [of "h_arb h" "h_proxy h" _ tr "h_calls h" "h_read h"]
      ordered_release [of "h_arb h" "h_proxy h" tr "h_calls h" "h_read h"]
    by (cases x) (simp_all add: order_inv_def deliver_def in_arbiter_def del: sched_step.simps)
qed (use assms in \<open>simp add: deliver_def\<close>)

lemma order_answer:
  assumes o': "order_inv h" shows "order_inv (answer_next h)"
proof (cases "unread (h_read h) (h_arb h)")
  case Nil
  then show ?thesis using o' by (simp add: answer_next_def unread_def)
next
  case (Cons x rs)
  obtain n res where x: "x = (n, res)" by force
  have o1: "ordered (h_arb h) (h_proxy h) (h_transit h) (h_calls h) (h_read h)"
    using o' by (simp add: order_inv_def)
  show ?thesis
  proof (cases "n = llm")
    case False
    then show ?thesis
      using ordered_skip [OF o1 Cons [unfolded x]] Cons x
      by (simp add: answer_next_def unread_def order_inv_def)
  next
    case True
    then obtain i cs where c: "h_calls h = i # cs"
      using o1 Cons x by (cases "h_calls h") (simp_all add: ordered_def)
    have "proxy_inv 0 (arbiter_reply i (reply_of res) (h_proxy h))"
      using o1 arbiter_reply_inv [of 0 "h_proxy h" i "reply_of res"] reply_of_cases(2) [of res]
      by (auto simp: ordered_def)
    from ordered_answer [OF o1 [unfolded c] Cons [unfolded x True] this] show ?thesis
      using Cons x True c
      by (simp add: answer_next_def unread_def order_inv_def in_proxy_def Let_def)
  qed
qed

lemma order_step: "order_inv h \<Longrightarrow> orderly h e \<Longrightarrow> order_inv (handover_step e h)"
  using order_in_proxy order_in_arbiter order_deliver order_answer by (cases e) simp_all

lemma order_run: "order_inv h \<Longrightarrow> orderly_run es h \<Longrightarrow> order_inv (handover_run es h)"
  by (induction es arbitrary: h) (simp_all add: order_step)

lemma order_init:
  assumes l: "load_jobs file = Inr js" and r: "first_rank (scheduler_init js) llm"
  shows "order_inv (handover_init js)"
proof -
  have "sched_inv (scheduler_init js)" using sched_run_inv [OF l, of "[]"] by simp
  moreover have "line_ok [] [] (p_reqs proxy_init)"
    unfolding line_ok_def by (intro exI [of _ 0] exI [of _ "[]"]) (simp add: proxy_init_def)
  moreover have "\<not> claimed 0 (scheduler_init js) proxy_init"
    by (simp add: claimed_def unread_def scheduler_init_def proxy_init_def)
  moreover have "\<not> rheld (rec_of (scheduler_init js) llm)"
  proof
    assume "rheld (rec_of (scheduler_init js) llm)"
    then obtain x where x: "map_of (map (\<lambda>j. (jname j, build j)) js) llm = Some x" "rheld x"
      by (auto simp: rec_of_def dget_def scheduler_init_def split: option.splits)
    then show False using map_of_SomeD [OF x(1)] by auto
  qed
  ultimately show ?thesis
    using r proxy_init_inv
    by (simp add: order_inv_def ordered_def handover_init_def)
      (simp add: pending_def unread_def scheduler_init_def runs_for_def)
qed

text \<open>
  C7: With orderly delivery the lease is exactly where it should be. The llm being a job without a
  container that no job of the file outranks (nor an unknown caller, whose priority is 0), messages
  arriving in the order they were sent, each call answered by the arbiter, nobody else calling for the llm, and the
  evictor not releasing under a request: whenever
  a request is being forwarded or streamed, or waits for the slot with its grant, the arbiter's
  table has the llm's lease; and then no other job without a container has one.
\<close>

theorem served_with_lease:
  assumes "load_jobs file = Inr js" and "first_rank (scheduler_init js) llm"
    and "orderly_run es (handover_init js)" and "h = handover_run es (handover_init js)"
    and "map_of (p_reqs (h_proxy h)) i = Some x" "fst x \<noteq> PAcquire"
  shows "rheld (rec_of (h_arb h) llm)
    \<and> (\<forall>n. rheld (rec_of (h_arb h) n) \<and> jkind (rjob (rec_of (h_arb h) n)) \<noteq> KContainer \<longrightarrow> n = llm)"
proof -
  have "ordered (h_arb h) (h_proxy h) (h_transit h) (h_calls h) (h_read h)"
    using order_run [OF order_init [OF assms(1,2)] assms(3)] assms(4) by (simp add: order_inv_def)
  then have i: "sched_inv (h_arb h)" "first_rank (h_arb h) llm" and l: "rheld (rec_of (h_arb h) llm)"
    using assms(5,6) unfolding ordered_def claimed_def by blast+
  have "one_holder (h_arb h)" using sched_inv_core [OF i(1)] by (simp add: core_ok_def)
  moreover have "nc_leased (h_arb h) llm"
    using l first_rank_kind(2) [OF i] by (simp add: nc_leased_def)
  ultimately show ?thesis
    using l unfolding one_holder_def nc_leased_def contained_def by blast
qed

theorem served_with_lease_witness:
  "let h = handover_run [HProxy (Request 1 (JStr ''m'')), HDeliver 0, HAnswer,
        HProxy (SentReply 1 True), HProxy (StreamEnd 1 200),
        HProxy (Request 2 (JStr ''m'')), HDeliver 0, HDeliver 0, HAnswer] (handover_init example_jobs)
   in map_of (p_reqs (h_proxy h)) 2 = Some (PSend, JStr ''m'') \<and> rheld (rec_of (h_arb h) llm)
      \<and> s_results (h_arb h) = [(llm, Granted NothingRunning), (llm, Granted NothingRunning)]"
proof -
  let ?es = "[HProxy (Request 1 (JStr ''m'')), HDeliver 0, HAnswer,
        HProxy (SentReply 1 True), HProxy (StreamEnd 1 200),
        HProxy (Request 2 (JStr ''m'')), HDeliver 0, HDeliver 0, HAnswer]"
  let ?h = "handover_run ?es (handover_init example_jobs)"
  have f: "first_rank (scheduler_init example_jobs) llm"
    by (simp add: first_rank_def init_job_of example_jobs_def example_job_def llm_def unknown_job_def)
  have es: "orderly_run ?es (handover_init example_jobs)" by simp
  have h: "map_of (p_reqs (h_proxy ?h)) 2 = Some (PSend, JStr ''m'')"
    "s_results (h_arb ?h) = [(llm, Granted NothingRunning), (llm, Granted NothingRunning)]"
    by (simp_all add: handover_init_def in_proxy_def in_arbiter_def deliver_def answer_next_def
      reply_of_def acquire_status_def client_acquire_def llm_def proxy_simps run_simps)
  show ?thesis
    unfolding Let_def using served_with_lease [OF example_loads f es refl h(1)] h by simp
qed

text \<open>
  C8: And the card is given back: under the same conditions, in a run in which messages arrive in the order they
  were sent, every call gets the arbiter's own answer, nobody else calls for the llm and the evictor does not
  release under a request, once no request of the llm is left and the releases that were sent have arrived, the
  llm has no lease and no call pending. A call that gives up breaks it (\<open>abandoned_acquire_keeps_card\<close>).
\<close>

theorem lease_given_back:
  assumes "load_jobs file = Inr js" and "first_rank (scheduler_init js) llm"
    and "orderly_run es (handover_init js)" and "h = handover_run es (handover_init js)"
    and "p_reqs (h_proxy h) = []" "h_transit h = []"
  shows "\<not> rheld (rec_of (h_arb h) llm) \<and> pending llm (h_arb h) = 0"
proof -
  have "ordered (h_arb h) (h_proxy h) (h_transit h) (h_calls h) (h_read h)"
    using order_run [OF order_init [OF assms(1,2)] assms(3)] assms(4) by (simp add: order_inv_def)
  moreover from this have "h_calls h = []" using called_reqs assms(5) unfolding ordered_def by metis
  ultimately show ?thesis using assms(5,6) by (auto simp: ordered_def)
qed

lemmas handover_simps = handover_init_def in_proxy_def in_arbiter_def deliver_def answer_next_def
  reply_of_def acquire_status_def client_acquire_def llm_def proxy_simps run_simps

theorem lease_given_back_witness:
  "let h = handover_run [HProxy (Request 1 (JStr ''m'')), HDeliver 0, HAnswer, HProxy (SentReply 1 True),
        HProxy (StreamEnd 1 200), HDeliver 0] (handover_init example_jobs)
   in p_done (h_proxy h) = [(1, Served 200)] \<and> \<not> rheld (rec_of (h_arb h) llm)"
proof -
  let ?es = "[HProxy (Request 1 (JStr ''m'')), HDeliver 0, HAnswer, HProxy (SentReply 1 True),
        HProxy (StreamEnd 1 200), HDeliver 0]"
  let ?h = "handover_run ?es (handover_init example_jobs)"
  have f: "first_rank (scheduler_init example_jobs) llm"
    by (simp add: first_rank_def init_job_of example_jobs_def example_job_def llm_def unknown_job_def)
  have es: "orderly_run ?es (handover_init example_jobs)" by simp
  have h: "p_reqs (h_proxy ?h) = []" "h_transit ?h = []" "p_done (h_proxy ?h) = [(1, Served 200)]"
    by (simp_all add: handover_simps)
  show ?thesis
    unfolding Let_def using lease_given_back [OF example_loads f es refl h(1,2)] h(3) by simp
qed

text \<open>
  Not so when the proxy stops waiting for an answer. Its call of \<open>acquire\<close> times out while the
  arbiter is still stopping the trainer; the request is refused and the release sent at once,
  before there is anything to release. Then the arbiter grants. No request is left and nothing is
  on its way, yet the llm holds the card, a job of lower priority is refused, and the idle
  evictor, which finds no model loaded, does not release either.
\<close>

theorem abandoned_acquire_keeps_card:
  "let h = handover_run [HArb (Acquire ''trainer'' None), HProxy (Request 1 (JStr ''m'')), HDeliver 0,
        HProxy (ArbiterReply 1 ARefused), HDeliver 0,
        HArb (Resume (AUp True)), HArb (Resume AKilled), HArb (Resume (AUp False)), HArb (Resume (AUp False)),
        HAnswer, HAnswer, HArb (Acquire ''video'' None),
        HProxy (PTick 700), HProxy (Evictor AEvictWake), HProxy (Evictor (AResident []))] (handover_init example_jobs)
   in p_done (h_proxy h) = [(1, Refused503)] \<and> p_reqs (h_proxy h) = [] \<and> h_transit h = []
      \<and> rheld (rec_of (h_arb h) llm)
      \<and> last (s_results (h_arb h)) = (''video'', Refused (NotOutranked ''llm'' ''video''))
      \<and> p_evictor (h_proxy h) = ESleep 730"
  by (simp add: handover_simps)

end
