(* ===== verification/Handover_Progress.thy ===== *)
theory Handover_Progress
  imports Handover_Order
begin

text \<open>
  Proxy and arbiter together do not get stuck: from every state of an orderly exchange there are
  events of the environment, none of them new work, that answer every request of the proxy,
  empty the arbiter's queue and leave the llm without a lease.
\<close>

section \<open>The work the proxy has left\<close>

definition work :: "(nat \<times> phase \<times> json) list \<Rightarrow> nat" where
  "work d = dcount (\<lambda>x. True) d + dcount (\<lambda>x. fst x \<noteq> PStream) d + dcount waiting d
     + dcount (\<lambda>x. fst x = PAcquire) d"

definition weight :: "phase \<times> json \<Rightarrow> nat" where
  "weight x = (case fst x of PAcquire \<Rightarrow> 4 | PLock \<Rightarrow> 3 | PSend \<Rightarrow> 2 | PStream \<Rightarrow> 1)"

lemma work_pop:
  assumes "dict_ok d" "map_of d i = Some x" shows "work (dpop i d) < work d"
  using dcount_pop [OF assms, of "\<lambda>x. True"] dcount_pop [OF assms, of "\<lambda>x. fst x \<noteq> PStream"]
    dcount_pop [OF assms, of waiting] dcount_pop [OF assms, of "\<lambda>x. fst x = PAcquire"]
  unfolding work_def by simp

lemma work_set:
  assumes "map_of d i = Some x" "weight y < weight x" shows "work (dset i y d) < work d"
  using dcount_set [OF assms(1), of "\<lambda>x. True" y] dcount_set [OF assms(1), of "\<lambda>x. fst x \<noteq> PStream" y]
    dcount_set [OF assms(1), of waiting y] dcount_set [OF assms(1), of "\<lambda>x. fst x = PAcquire" y] assms(2)
  unfolding work_def weight_def waiting_def by (cases "fst x"; cases "fst y") simp_all

lemma piece_reqs [simp]:
  "p_reqs (finish_req i out s) = dpop i (p_reqs s)" "p_reqs (enter_slot i m s) = dset i (PSend, m) (p_reqs s)"
  "p_reqs (set_phase i x s) = dset i x (p_reqs s)" "p_reqs (decrement_queue s) = p_reqs s"
  by (simp_all add: finish_req_def enter_slot_def set_phase_def decrement_queue_def record_swap_def send_def
      llm_request_finished_def Let_def)

lemma reply_work:
  assumes "proxy_inv k s" "map_of (p_reqs s) i = Some (PAcquire, m)"
  shows "work (p_reqs (arbiter_reply i a s)) < work (p_reqs s)"
proof -
  have "dict_ok (p_reqs s)" using assms(1) by (simp add: proxy_inv_def)
  then show ?thesis
    using work_pop [OF _ assms(2)] work_set [OF assms(2)] assms(2)
    by (simp add: arbiter_reply_def weight_def split: arb_answer.split)
qed

text \<open>While a request is past its acquire, one of the requests can go on without the arbiter.\<close>

fun serving :: "pevent \<Rightarrow> bool" where
  "serving LockWake = True"
| "serving (SentReply i ok) = True"
| "serving (StreamEnd i st) = True"
| "serving e = False"

lemma serving_goes_on:
  assumes i: "proxy_inv k s" and x: "map_of (p_reqs s) j = Some x" "fst x \<noteq> PAcquire"
  shows "\<exists>e. serving e \<and> work (p_reqs (proxy_step e s)) < work (p_reqs s)"
proof (cases "p_lock s")
  case (Some n)
  then obtain ph m where n: "map_of (p_reqs s) n = Some (ph, m)" "ph = PSend \<or> ph = PStream"
    using inv_lockD(2) [OF i Some] by (auto simp: active_def)
  have "dict_ok (p_reqs s)" using i by (simp add: proxy_inv_def)
  then have "ph = PSend \<Longrightarrow> work (p_reqs (proxy_step (SentReply n True) s)) < work (p_reqs s)"
    "ph = PStream \<Longrightarrow> work (p_reqs (proxy_step (StreamEnd n 200) s)) < work (p_reqs s)"
    using work_set [OF n(1)] work_pop [OF _ n(1)] n(1) by (simp_all add: sent_reply_def stream_end_def weight_def)
  then show ?thesis using n(2) serving.simps(2,3) by blast
next
  case None
  then have "\<not> active x" using inv_lockD(1) [OF i x(1)] by auto
  then have "fst x = PLock" using x(2) by (cases "fst x") (simp_all add: active_def)
  then have "j \<in> set (p_waiters s)" using i x(1) by (cases x) (auto simp: proxy_inv_def)
  then obtain w ws where w: "p_waiters s = w # ws" by (cases "p_waiters s") auto
  then obtain m where m: "map_of (p_reqs s) w = Some (PLock, m)" using inv_lockD(3) [OF i, of w] by auto
  have "work (p_reqs (proxy_step LockWake s)) < work (p_reqs s)"
    using work_set [OF m] w m None by (simp add: lock_wake_def weight_def)
  then show ?thesis using serving.simps(1) by blast
qed

section \<open>No request is forgotten\<close>

text \<open>A request that waits for the arbiter has its call there or on the way.\<close>

definition tracked :: "handover \<Rightarrow> bool" where
  "tracked h \<longleftrightarrow> (\<forall>i m. map_of (p_reqs (h_proxy h)) i = Some (PAcquire, m)
     \<longrightarrow> i \<in> set (h_calls h) \<or> MAcquire i \<in> set (h_transit h))"

definition newly :: "proxy \<Rightarrow> proxy \<Rightarrow> bool" where
  "newly s s' \<longleftrightarrow> (\<forall>i m. map_of (p_reqs s') i = Some (PAcquire, m)
     \<longrightarrow> map_of (p_reqs s) i = Some (PAcquire, m) \<or> p_sent s' = p_sent s @ [MAcquire i])"

lemma newly_moved: "moved i g s s' \<Longrightarrow> newly s s'"
  unfolding moved_def newly_def by (metis fst_conv option.distinct(1) option.inject)

lemma newly_steady: "steady s s' \<Longrightarrow> newly s s'"
  unfolding steady_def using newly_moved by (elim disjE exE conjE) (simp_all add: newly_def)

lemma newly_request: "newly s (request n m s)"
  by (simp add: newly_def request_def send_def set_phase_def llm_request_started_def record_request_def increment_queue_def)

lemma tracked_proxy:
  assumes "tracked h" "orderly h (HProxy e)" shows "tracked (in_proxy e h)"
proof -
  have "newly (h_proxy h) (proxy_step e (h_proxy h))"
    using newly_steady [OF proxy_step_steady [OF assms(2)]] newly_request by (cases "\<exists>i m. e = Request i m") auto
  then show ?thesis using assms(1) unfolding tracked_def newly_def in_proxy_def Let_def by fastforce
qed

lemma tracked_step:
  assumes t: "tracked h" and o': "order_inv h" and e: "orderly h e" shows "tracked (handover_step e h)"
proof (cases e)
  case (HProxy pe)
  then show ?thesis using tracked_proxy [OF t] e by simp
next
  case (HArb ae)
  then show ?thesis using t by (simp add: tracked_def in_arbiter_def)
next
  case (HDeliver n)
  then have n: "n = 0" using e by simp
  show ?thesis
  proof (cases "h_transit h")
    case (Cons x tr)
    then show ?thesis
      using t HDeliver n by (cases x) (auto simp: tracked_def deliver_def in_arbiter_def)
  qed (use t HDeliver n in \<open>simp add: deliver_def\<close>)
next
  case HAnswer
  show ?thesis
  proof (cases "\<exists>res rs i cs. drop (h_read h) (s_results (h_arb h)) = (llm, res) # rs \<and> h_calls h = i # cs")
    case False
    then show ?thesis using t HAnswer by (auto simp: answer_next_def tracked_def Let_def split: list.split)
  next
    case True
    then obtain res rs i cs where r: "drop (h_read h) (s_results (h_arb h)) = (llm, res) # rs" "h_calls h = i # cs"
      by blast
    let ?p = "arbiter_reply i (reply_of res) (h_proxy h)"
    obtain m where m: "map_of (p_reqs (h_proxy h)) i = Some (PAcquire, m)"
      using o' r(2) by (auto simp: order_inv_def ordered_def line_ok_def)
    have "moved i (reply_of res = AGranted) (h_proxy h) ?p" by (rule reply_moves [OF m])
    then have "map_of (p_reqs ?p) n = Some (PAcquire, q) \<Longrightarrow> n \<noteq> i \<and> map_of (p_reqs (h_proxy h)) n = Some (PAcquire, q)" for n q
      unfolding moved_def by (metis fst_conv option.distinct(1) option.inject)
    then show ?thesis
      using t HAnswer r unfolding tracked_def by (fastforce simp: answer_next_def in_proxy_def Let_def)
  qed
qed

text \<open>A request that is gone has been answered.\<close>

definition kept :: "proxy \<Rightarrow> proxy \<Rightarrow> bool" where
  "kept s s' \<longleftrightarrow> set (p_done s) \<subseteq> set (p_done s')
     \<and> (\<forall>i. map_of (p_reqs s) i \<noteq> None \<longrightarrow> map_of (p_reqs s') i \<noteq> None \<or> i \<in> fst ` set (p_done s'))"

lemma kept_refl [simp]: "kept s s"
  by (simp add: kept_def)

lemma kept_trans: "kept s t \<Longrightarrow> kept t u \<Longrightarrow> kept s u"
  unfolding kept_def by (meson image_mono subset_iff)

lemma kept_pieces:
  assumes "p_reqs t = p_reqs s" "p_done t = p_done s"
  shows "kept s (finish_req i out t)" "kept s (enter_slot i m t)" "kept s (set_phase i x t)" "kept s t"
  using assms
  by (auto simp: kept_def finish_req_def enter_slot_def set_phase_def decrement_queue_def record_swap_def send_def
      llm_request_finished_def Let_def)

lemma kept_step: "kept s (proxy_step e s)"
proof (cases e)
  case (ArbiterReply i a)
  then show ?thesis
    by (simp add: arbiter_reply_def decrement_queue_def kept_pieces split: option.split phase.split arb_answer.split)
next
  case LockWake
  then show ?thesis by (simp add: lock_wake_def kept_pieces split: list.split option.split phase.split)
next
  case (LockCancel i)
  then show ?thesis by (simp add: lock_cancel_def decrement_queue_def kept_pieces split: option.split phase.split)
next
  case (Request i m)
  then show ?thesis
    by (auto simp: request_def kept_def send_def set_phase_def llm_request_started_def record_request_def increment_queue_def)
next
  case (Evictor a)
  have "p_done (evictor_step a s) = p_done s"
    by (cases "p_evictor s"; cases a;
        simp add: evictor_step_def evictor_sleep_def evictor_wake_def unload_next_def verify_next_def send_def
        split: option.split list.split)
  then show ?thesis using Evictor evictor_sends(1) [of a s] kept_pieces(4) by simp
qed (simp_all add: sent_reply_def stream_end_def kept_pieces split: option.split phase.split)

lemma kept_handover: "kept (h_proxy h) (h_proxy (handover_step e h))"
  by (cases e) (auto simp: in_proxy_def in_arbiter_def deliver_def answer_next_def kept_step Let_def
      simp del: proxy_step.simps split: message.split list.split)

lemma kept_run: "kept (h_proxy h) (h_proxy (handover_run es h))"
  by (induction es arbitrary: h) (auto intro: kept_trans kept_handover)

lemma tracked_run: "tracked h \<Longrightarrow> order_inv h \<Longrightarrow> orderly_run es h \<Longrightarrow> tracked (handover_run es h)"
  by (induction es arbitrary: h) (simp_all add: tracked_step order_step)

section \<open>The arbiter's side\<close>

lemma resume_queue: "s_queue (resume a s) = s_queue s"
proof (cases "s_owner s")
  case (Acq f pc)
  then show ?thesis using acq_resume_carries [OF Acq] by (simp add: resume_def carries_def)
next
  case (DropDead j i)
  have "s_queue (drop_scan n js (drop_lease m s)) = s_queue s" "s_queue (drop_scan n js (check_stale m s)) = s_queue s" for n js m
    using drop_scan_idles [of "drop_lease m s" n js] drop_scan_idles [of "check_stale m s" n js]
    by (simp_all add: idles_def drop_lease_def check_stale_def Let_def split: if_splits)
  then show ?thesis using DropDead by (simp add: resume_def drop_resume_def reap_failed_def split: answer.split bool.split)
next
  case (FindHolder j i)
  then show ?thesis
    using find_scan_idles
    by (simp add: resume_def find_resume_def reap_failed_def reap_done_def idles_def split: answer.split bool.split)
qed (simp add: resume_def)

lemma settling_queue: "list_all settling es \<Longrightarrow> s_queue (sched_run es s) = s_queue s"
proof (induction es arbitrary: s)
  case (Cons e es)
  then have "s_queue (sched_step e s) = s_queue s" by (cases e) (simp_all add: resume_queue)
  then show ?case using Cons by (simp del: sched_step.simps)
qed simp

lemma lock_next_queue:
  assumes "s_owner s = Free" "s_queue s = w # ws" shows "s_queue (lock_next s) = ws"
proof (cases w)
  case (WaitAcquire j t)
  then show ?thesis using assms acq_start_carries [of j "s\<lparr>s_queue := ws\<rparr>" t] by (simp add: lock_next_def carries_def)
next
  case WaitReap
  then show ?thesis
    using assms drop_scan_idles [of "s\<lparr>s_queue := ws\<rparr>" 0 "s_jobs s"] by (simp add: lock_next_def Let_def idles_def)
qed

lemma settling_run:
  "list_all settling es \<Longrightarrow> orderly_run (map HArb es) h
     \<and> handover_run (map HArb es) h = h\<lparr>h_arb := sched_run es (h_arb h)\<rparr>"
proof (induction es arbitrary: h)
  case (Cons e es)
  then have "orderly h (HArb e)" by (cases e) simp_all
  then show ?case using Cons by (simp add: in_arbiter_def del: sched_step.simps)
qed simp

section \<open>At rest\<close>

text \<open>
  Events that bring no new work: a step of a request that has the grant, an answer or reading the
  arbiter waits for, the next turn at its lock, and the messages between the two.
\<close>

fun closing :: "hevent \<Rightarrow> bool" where
  "closing (HProxy e) = serving e"
| "closing (HArb e) = (settling e \<or> e = LockNext)"
| "closing (HDeliver n) = True"
| "closing HAnswer = True"

definition at_rest :: "handover \<Rightarrow> bool" where
  "at_rest h \<longleftrightarrow> p_reqs (h_proxy h) = [] \<and> h_transit h = [] \<and> s_queue (h_arb h) = [] \<and> s_owner (h_arb h) = Free"

definition nearer :: "(handover \<times> handover) set" where
  "nearer = measures [\<lambda>h. work (p_reqs (h_proxy h)), \<lambda>h. length (h_transit h), \<lambda>h. length (s_queue (h_arb h)),
     \<lambda>h. if s_owner (h_arb h) = Free then 0 else 1, \<lambda>h. length (s_results (h_arb h)) - h_read h]"

lemma wf_nearer: "wf nearer"
  by (simp add: nearer_def)

lemma answer_nearer:
  assumes o': "order_inv h" and u: "unread (h_read h) (h_arb h) = (n, res) # rs"
  shows "(answer_next h, h) \<in> nearer"
proof (cases "n = llm \<and> h_calls h \<noteq> []")
  case True
  then obtain i cs where c: "h_calls h = i # cs" by (cases "h_calls h") auto
  then obtain m where m: "map_of (p_reqs (h_proxy h)) i = Some (PAcquire, m)"
    using o' by (auto simp: order_inv_def ordered_def line_ok_def)
  have "proxy_inv 0 (h_proxy h)" using o' by (simp add: order_inv_def ordered_def)
  from reply_work [OF this m] show ?thesis
    using u True c by (simp add: nearer_def answer_next_def unread_def in_proxy_def Let_def)
next
  case False
  have "h_read h < length (s_results (h_arb h))" using u by (auto simp: unread_def dest: arg_cong [of _ _ length])
  then show ?thesis using u False by (auto simp: nearer_def answer_next_def unread_def Let_def split: list.split)
qed

lemma deliver_nearer: "h_transit h = x # tr \<Longrightarrow> (deliver 0 h, h) \<in> nearer"
  by (cases x) (simp_all add: nearer_def deliver_def in_arbiter_def)

lemma order_invD:
  assumes "order_inv h"
  shows "proxy_inv 0 (h_proxy h)"
    "s_owner (h_arb h) = Free \<Longrightarrow> s_queue (h_arb h) = [] \<Longrightarrow> unread (h_read h) (h_arb h) = [] \<Longrightarrow> h_calls h = []"
    "p_reqs (h_proxy h) = [] \<Longrightarrow> h_transit h = [] \<Longrightarrow> \<not> rheld (rec_of (h_arb h) llm)"
  using assms by (auto simp: order_inv_def ordered_def pending_def runs_for_def)

lemma goes_on:
  assumes o': "order_inv h" and t: "tracked h" and n: "\<not> at_rest h"
  shows "\<exists>es. list_all closing es \<and> orderly_run es h \<and> (handover_run es h, h) \<in> nearer"
proof (cases "\<exists>j x. map_of (p_reqs (h_proxy h)) j = Some x \<and> fst x \<noteq> PAcquire")
  case True
  then obtain e where e: "serving e" "work (p_reqs (proxy_step e (h_proxy h))) < work (p_reqs (h_proxy h))"
    using serving_goes_on [OF order_invD(1) [OF o']] by blast
  then have "orderly_run [HProxy e] h" by (cases e) simp_all
  moreover have "(handover_run [HProxy e] h, h) \<in> nearer"
    using e(2) by (simp add: nearer_def in_proxy_def Let_def del: proxy_step.simps)
  ultimately show ?thesis using e(1) by (intro exI [of _ "[HProxy e]"]) simp
next
  case waiting: False
  have acts: "\<exists>es. list_all closing es \<and> orderly_run es h \<and> (handover_run es h, h) \<in> nearer"
    if "closing e" "orderly h e" "(handover_step e h, h) \<in> nearer" for e
    using that by (intro exI [of _ "[e]"]) simp
  consider (answer) y rs where "unread (h_read h) (h_arb h) = y # rs" | (lock) "s_owner (h_arb h) \<noteq> Free"
    | (queue) w ws where "s_owner (h_arb h) = Free" "s_queue (h_arb h) = w # ws" | (message) x tr where "h_transit h = x # tr"
    | (none) "unread (h_read h) (h_arb h) = []" "s_owner (h_arb h) = Free" "s_queue (h_arb h) = []" "h_transit h = []"
    by (metis list.exhaust)
  then show ?thesis
  proof cases
    case answer
    then show ?thesis using acts [of HAnswer] answer_nearer [OF o'] by (cases y) simp
  next
    case lock
    obtain es where es: "list_all settling es" "s_owner (sched_run es (h_arb h)) = Free"
      using free_again_any [of "h_arb h"] by (auto simp: free_again_def)
    then show ?thesis
      using settling_run [OF es(1), of h] settling_queue [OF es(1)] lock
      by (intro exI [of _ "map HArb es"]) (simp add: nearer_def list_all_iff es(1) [unfolded list_all_iff])
  next
    case queue
    then show ?thesis
      using acts [of "HArb LockNext"] lock_next_queue [OF queue] by (simp add: nearer_def in_arbiter_def)
  next
    case message
    then show ?thesis using acts [of "HDeliver 0"] deliver_nearer by simp
  next
    case none
    then have "h_calls h = []" using order_invD(2) [OF o'] by simp
    then have "map_of (p_reqs (h_proxy h)) j = None" for j
      using t waiting none(4) unfolding tracked_def by (cases "map_of (p_reqs (h_proxy h)) j") (force simp: prod_eq_iff)+
    then have "p_reqs (h_proxy h) = []" by (metis list.set_intros(1) map_of_eq_None_iff image_eqI empty_iff list.set_sel(1))
    then show ?thesis using n none by (simp add: at_rest_def)
  qed
qed

lemma orderly_run_append:
  "orderly_run (es @ es') h \<longleftrightarrow> orderly_run es h \<and> orderly_run es' (handover_run es h)"
  "handover_run (es @ es') h = handover_run es' (handover_run es h)"
  by (induction es arbitrary: h) simp_all

lemma comes_to_rest:
  "order_inv h \<Longrightarrow> tracked h \<Longrightarrow> \<exists>es. list_all closing es \<and> orderly_run es h \<and> at_rest (handover_run es h)"
proof (induction h rule: wf_induct_rule [OF wf_nearer])
  case (1 h)
  show ?case
  proof (cases "at_rest h")
    case True
    then show ?thesis by (intro exI [of _ "[]"]) simp
  next
    case False
    then obtain es where es: "orderly_run es h" "(handover_run es h, h) \<in> nearer" "list_all closing es" using goes_on 1 by blast
    from 1(1) [OF es(2) order_run [OF 1(2) es(1)] tracked_run [OF 1(3) 1(2) es(1)]]
    obtain es' where "list_all closing es'" "orderly_run es' (handover_run es h)" "at_rest (handover_run es' (handover_run es h))" by blast
    then show ?thesis using es(1,3) orderly_run_append by (intro exI [of _ "es @ es'"]) simp
  qed
qed



end
