(* ===== verification/Lora_Checkpoints.thy ===== *)
theory Lora_Checkpoints
  imports Arbiter_Config
begin

text \<open>
  \<open>lora-training/checkpoints.py\<close> and the way \<open>train_worker.py\<close> uses it. An output directory is
  the list of its entries in the order \<open>os.listdir\<close> gives them (any order, distinct names);
  \<open>d_complete\<close> is the presence of the marker \<open>COMPLETE\<close>, and \<open>d_whole\<close>, which no code reads, is
  whether the files of the last save into the directory were all written.

  Deletion of a directory is taken to succeed (\<open>ignore_errors=True\<close> hides that it may not).
\<close>

section \<open>checkpoints.py\<close>

record dir_entry =
  d_isdir :: bool
  d_complete :: bool
  d_whole :: bool

type_synonym outdir = "(string \<times> dir_entry) list"

text \<open>
  \<open>^checkpoint-(\d+)$\<close> under \<open>match\<close>: one or more digits, and \<open>$\<close> also matches before a final
  newline.
\<close>

definition step_of :: "string \<Rightarrow> nat option" where
  "step_of name =
     (if \<not> starts_with name ''checkpoint-'' then None
      else let rest = drop 11 name;
               ds = takeWhile is_digit rest;
               after = dropWhile is_digit rest
           in if ds \<noteq> [] \<and> (after = [] \<or> after = [CHR 0x0A]) then Some (dec_val 0 ds) else None)"

definition is_complete :: "outdir \<Rightarrow> string \<Rightarrow> bool" where
  "is_complete fs name = (case map_of fs name of None \<Rightarrow> False | Some e \<Rightarrow> d_complete e)"

definition mark_complete :: "string \<Rightarrow> outdir \<Rightarrow> outdir" where
  "mark_complete name fs = map (\<lambda>(n, e). (n, if n = name then e\<lparr>d_complete := True\<rparr> else e)) fs"

text \<open>\<open>sorted(found)\<close> over pairs of step and path; all paths share the directory.\<close>

definition all_checkpoints :: "outdir \<Rightarrow> (nat \<times> string) list" where
  "all_checkpoints fs =
     sort (concat (map (\<lambda>(n, e). case step_of n of
                                    None \<Rightarrow> []
                                  | Some step \<Rightarrow> if d_isdir e then [(step, n)] else []) fs))"

definition latest :: "outdir \<Rightarrow> string option" where
  "latest fs =
     (let complete = filter (\<lambda>(step, n). is_complete fs n) (all_checkpoints fs) in
      if complete = [] then None else Some (snd (last complete)))"

text \<open>The names removed: all partial ones, and \<open>complete[:-keep]\<close> or all complete ones.\<close>

definition prune_list :: "nat \<Rightarrow> outdir \<Rightarrow> string list" where
  "prune_list keep fs =
     (let complete = filter (\<lambda>(step, n). is_complete fs n) (all_checkpoints fs);
          partial = filter (\<lambda>(step, n). \<not> is_complete fs n) (all_checkpoints fs)
      in map snd partial @ map snd (if keep > 0 then slice_to (- int keep) complete else complete))"

definition prune :: "nat \<Rightarrow> outdir \<Rightarrow> outdir" where
  "prune keep fs = (let removed = prune_list keep fs in filter (\<lambda>(n, e). n \<notin> set removed) fs)"

subsection \<open>What pruning keeps\<close>

definition completed :: "outdir \<Rightarrow> (nat \<times> string) list" where
  "completed fs = filter (\<lambda>(step, n). is_complete fs n) (all_checkpoints fs)"

lemma latest_completed: "latest fs = (if completed fs = [] then None else Some (snd (last (completed fs))))"
  by (simp add: latest_def completed_def Let_def)

lemma set_all_checkpoints:
  "(k, n) \<in> set (all_checkpoints fs) \<longleftrightarrow> (\<exists>e. (n, e) \<in> set fs \<and> step_of n = Some k \<and> d_isdir e)"
  by (auto simp: all_checkpoints_def split: option.splits if_splits) fastforce

lemma set_completed:
  "dict_ok fs \<Longrightarrow> (k, n) \<in> set (completed fs)
     \<longleftrightarrow> (\<exists>e. (n, e) \<in> set fs \<and> step_of n = Some k \<and> d_isdir e \<and> d_complete e)"
  by (auto simp: completed_def set_all_checkpoints is_complete_def map_of_eq_Some_dict_ok)

lemma sorted_completed: "sorted (completed fs)"
  by (simp add: completed_def all_checkpoints_def sorted_wrt_filter)

lemma distinct_pairs:
  "dict_ok fs \<Longrightarrow> distinct (concat (map (\<lambda>(n, e). case step_of n of
     None \<Rightarrow> [] | Some step \<Rightarrow> if d_isdir e then [(step, n)] else []) fs))"
proof (induction fs)
  case (Cons x fs)
  obtain n e where x: "x = (n, e)" by force
  have "(k, n) \<notin> set (concat (map (\<lambda>(n, e). case step_of n of
      None \<Rightarrow> [] | Some step \<Rightarrow> if d_isdir e then [(step, n)] else []) fs))" for k
    using Cons.prems x by (force simp: dict_ok_def split: option.splits if_splits)
  then show ?case
    using Cons x by (auto simp: dict_ok_def split: option.splits)
qed simp

lemma distinct_completed: "dict_ok fs \<Longrightarrow> distinct (completed fs)"
  by (simp add: completed_def all_checkpoints_def distinct_pairs)

lemma last_max: "sorted xs \<Longrightarrow> x \<in> set xs \<Longrightarrow> x \<le> last xs"
  by (induction xs) (auto split: if_splits)

lemma latest_in: "latest fs = Some n \<Longrightarrow> \<exists>k. (k, n) \<in> set (completed fs) \<and> (k, n) = last (completed fs)"
  by (metis latest_completed last_in_set option.inject option.distinct(1) prod.collapse)

lemma prune_list_keeps:
  assumes "x \<in> set (drop (length (completed fs) - keep) (completed fs))" "dict_ok fs" "keep > 0"
  shows "snd x \<notin> set (prune_list keep fs)"
proof -
  let ?c = "completed fs"
  have xc: "x \<in> set ?c" using assms(1) set_drop_subset by fast
  have inj: "y = x" if "y \<in> set (all_checkpoints fs)" "snd y = snd x" for y
  proof -
    have st: "step_of m = Some k" if "(k, m) \<in> set (all_checkpoints fs)" for k m
      using that set_all_checkpoints by blast
    have "x \<in> set (all_checkpoints fs)" using xc by (simp add: completed_def)
    then have "step_of (snd x) = Some (fst x)" "step_of (snd y) = Some (fst y)"
      using st [of "fst x" "snd x"] st [of "fst y" "snd y"] that(1) by simp_all
    then show ?thesis using that(2) by (simp add: prod_eq_iff)
  qed
  have sl: "slice_to (- int keep) ?c = take (length ?c - keep) ?c"
    using assms(3) by (simp add: slice_to_def)
  have "x \<notin> set (take (length ?c - keep) ?c)"
    using set_take_disj_set_drop_if_distinct [OF distinct_completed [OF assms(2)] order_refl] assms(1)
    by blast
  moreover have "set (take (length ?c - keep) ?c) \<subseteq> set ?c" by (rule set_take_subset)
  moreover have "set ?c \<subseteq> set (all_checkpoints fs)" by (auto simp: completed_def)
  ultimately have no: "y \<in> set (take (length ?c - keep) ?c) \<Longrightarrow> snd y \<noteq> snd x" for y
    using inj [of y] by blast
  then have "snd x \<notin> snd ` set (take (length ?c - keep) ?c)" by (metis imageE)
  moreover have "snd x \<notin> snd ` set (filter (\<lambda>(step, n). \<not> is_complete fs n) (all_checkpoints fs))"
  proof
    assume "snd x \<in> snd ` set (filter (\<lambda>(step, n). \<not> is_complete fs n) (all_checkpoints fs))"
    then obtain y where y: "y \<in> set (all_checkpoints fs)" "\<not> is_complete fs (snd y)" "snd y = snd x"
      by auto
    then have "y = x" using inj by blast
    then show False using y(2) xc by (auto simp: completed_def)
  qed
  ultimately show ?thesis
    using assms(3) sl unfolding prune_list_def Let_def completed_def [symmetric] by auto
qed

lemma prune_set: "(n, e) \<in> set (prune keep fs) \<longleftrightarrow> (n, e) \<in> set fs \<and> n \<notin> set (prune_list keep fs)"
  by (auto simp: prune_def Let_def)

lemma prune_dict: "dict_ok fs \<Longrightarrow> dict_ok (prune keep fs)"
  by (simp add: prune_def dict_ok_def Let_def distinct_map_filter)

lemma completed_last_drop:
  assumes "completed fs \<noteq> []" "keep > 0"
  shows "last (completed fs) \<in> set (drop (length (completed fs) - keep) (completed fs))"
proof -
  have "length (completed fs) - keep < length (completed fs)" using assms by simp
  then show ?thesis by (metis last_drop last_in_set drop_eq_Nil not_le)
qed

text \<open>Pruning never changes what a resume would start from, if it keeps anything at all.\<close>

lemma latest_prune:
  assumes d: "dict_ok fs" and k: "keep > 0"
  shows "latest (prune keep fs) = latest fs"
proof (cases "completed fs = []")
  case True
  have "completed (prune keep fs) = []"
  proof (rule ccontr)
    assume "completed (prune keep fs) \<noteq> []"
    then obtain k' n where "(k', n) \<in> set (completed (prune keep fs))" by (metis last_in_set prod.collapse)
    then have "(k', n) \<in> set (completed fs)"
      using set_completed [OF prune_dict [OF d]] set_completed [OF d] prune_set by blast
    then show False using True by simp
  qed
  then show ?thesis using True by (simp add: latest_completed)
next
  case False
  obtain k0 n where l: "last (completed fs) = (k0, n)" by force
  have in_c: "(k0, n) \<in> set (completed fs)" using False l by (metis last_in_set)
  have kept: "n \<notin> set (prune_list keep fs)"
    using prune_list_keeps [OF completed_last_drop [OF False k] d k] l by simp
  have sub: "set (completed (prune keep fs)) \<subseteq> set (completed fs)"
    using set_completed [OF prune_dict [OF d]] set_completed [OF d] prune_set by fast
  have mem: "(k0, n) \<in> set (completed (prune keep fs))"
    using in_c kept set_completed [OF prune_dict [OF d]] set_completed [OF d] prune_set by blast
  have "last (completed (prune keep fs)) \<in> set (completed fs)"
    using sub mem by (metis last_in_set empty_iff empty_set subsetD)
  then have "last (completed (prune keep fs)) \<le> (k0, n)"
    using last_max [OF sorted_completed] l by metis
  moreover have "(k0, n) \<le> last (completed (prune keep fs))"
    using last_max [OF sorted_completed mem] .
  ultimately have "last (completed (prune keep fs)) = (k0, n)" by simp
  then show ?thesis using False l mem by (auto simp: latest_completed)
qed

lemma prune_drops_partial:
  assumes "dict_ok fs" "(n, e) \<in> set (prune keep fs)" "step_of n = Some k" "d_isdir e"
  shows "d_complete e"
proof (rule ccontr)
  assume c: "\<not> d_complete e"
  have m: "(n, e) \<in> set fs" "n \<notin> set (prune_list keep fs)" using assms(2) by (simp_all add: prune_set)
  then have "(k, n) \<in> set (all_checkpoints fs)" using assms(3,4) set_all_checkpoints by blast
  moreover have "\<not> is_complete fs n"
    using c m map_of_eq_Some_dict_ok [OF assms(1) m(1)] by (simp add: is_complete_def)
  ultimately have "n \<in> set (prune_list keep fs)"
    unfolding prune_list_def Let_def by force
  with m show False by simp
qed

text \<open>
  Pruning is safe and thorough. With at least one checkpoint to keep, the newest complete
  checkpoint is the same before and after, its directory untouched; and no directory of a
  half-written checkpoint survives.
\<close>

theorem prune_safe:
  assumes "dict_ok fs" "keep > 0"
  shows "latest (prune keep fs) = latest fs
    \<and> (\<forall>n. latest fs = Some n \<longrightarrow> map_of (prune keep fs) n = map_of fs n)
    \<and> (\<forall>(n, e)\<in>set (prune keep fs). step_of n \<noteq> None \<and> d_isdir e \<longrightarrow> d_complete e)"
proof (intro conjI allI impI)
  show "latest (prune keep fs) = latest fs" by (rule latest_prune [OF assms])
  show "map_of (prune keep fs) n = map_of fs n" if l: "latest fs = Some n" for n
  proof -
    obtain k where k: "(k, n) \<in> set (completed fs)" using latest_in [OF l] by blast
    have c: "completed fs \<noteq> []" using k by auto
    have "n \<notin> set (prune_list keep fs)"
      using prune_list_keeps [OF completed_last_drop [OF c assms(2)] assms] l c
      by (simp add: latest_completed)
    moreover obtain e where e: "(n, e) \<in> set fs" using k set_completed [OF assms(1)] by blast
    ultimately have "(n, e) \<in> set (prune keep fs)" by (simp add: prune_set)
    then show ?thesis
      using e map_of_eq_Some_dict_ok [OF assms(1)] map_of_eq_Some_dict_ok [OF prune_dict [OF assms(1)]]
      by metis
  qed
  show "\<forall>(n, e)\<in>set (prune keep fs). step_of n \<noteq> None \<and> d_isdir e \<longrightarrow> d_complete e"
    using prune_drops_partial [OF assms(1)] by blast
qed

definition example_dir :: outdir where
  "example_dir =
     [(''checkpoint-30'', \<lparr>d_isdir = True, d_complete = False, d_whole = False\<rparr>),
      (''checkpoint-9'', \<lparr>d_isdir = True, d_complete = True, d_whole = True\<rparr>),
      (''final'', \<lparr>d_isdir = True, d_complete = False, d_whole = False\<rparr>),
      (''checkpoint-10'', \<lparr>d_isdir = True, d_complete = True, d_whole = True\<rparr>)]"

lemmas checkpoint_simps = example_dir_def latest_def all_checkpoints_def step_of_def starts_with_def
  is_digit_def digit_val_def is_complete_def

theorem prune_safe_witness:
  "latest (prune 1 example_dir) = Some ''checkpoint-10'' \<and> map_of (prune 1 example_dir) ''checkpoint-10'' \<noteq> None"
proof -
  have l: "latest example_dir = Some ''checkpoint-10''"
    by (simp add: checkpoint_simps)
  have "dict_ok example_dir" by (simp add: dict_ok_def example_dir_def)
  from prune_safe [OF this, of 1] show ?thesis
    using l by (simp add: example_dir_def)
qed

section \<open>A training run\<close>

text \<open>
  \<open>train_worker.py\<close>: on start the worker prunes and resumes from \<open>latest\<close>; \<open>on_save\<close>, called
  after a save has returned, marks the checkpoint and prunes; at the end the adapter goes to
  \<open>final\<close>, which is marked like any other. The worker may be killed at any point, and the
  supervisor starts it again. Pruning is its list of directories and the removal of one after
  the other: \<open>rmtree\<close> first takes files out of a directory, the marker among them at any moment,
  and a kill in the middle leaves what is left; an error of the file system in it, which \<open>rmtree\<close> is told
  to ignore, is not among the events. The trainer itself is outside the model: it takes a
  step, or begins a save into the directory of the current step, at most once per step.
\<close>

datatype worker =
    Stopped
  | Clearing "string list" "nat option"  \<comment> \<open>directories to remove; the step it goes on from\<close>
  | Training nat bool      \<comment> \<open>global step; whether it was saved already\<close>
  | Saving nat
  | SavingFinal
  | Finished

record run_state =
  r_fs :: outdir
  r_worker :: worker
  r_resumed :: "string option"

definition ckpt_name :: "nat \<Rightarrow> string" where
  "ckpt_name k = ''checkpoint-'' @ str_nat k"

definition whole_entry :: "bool \<Rightarrow> dir_entry" where
  "whole_entry w = \<lparr>d_isdir = True, d_complete = False, d_whole = w\<rparr>"

text \<open>A save writes into the directory, new or old; an old marker stays.\<close>

definition write_dir :: "string \<Rightarrow> bool \<Rightarrow> outdir \<Rightarrow> outdir" where
  "write_dir n w fs =
     (case map_of fs n of
        None \<Rightarrow> dset n (whole_entry w) fs
      | Some e \<Rightarrow> dset n (e\<lparr>d_isdir := True, d_whole := w\<rparr>) fs)"

text \<open>A removal that has begun: some files are gone, and the marker may be.\<close>

definition tear :: "string \<Rightarrow> bool \<Rightarrow> outdir \<Rightarrow> outdir" where
  "tear n marked fs =
     map (\<lambda>(m, e). (m, if m = n then e\<lparr>d_complete := d_complete e \<and> marked, d_whole := False\<rparr> else e)) fs"

datatype tevent = TStart | TTear bool | TRemove | TCleared | TStep | TSave | TSaved | TFinish | TFinished | TKill

fun train_step :: "nat \<Rightarrow> tevent \<Rightarrow> run_state \<Rightarrow> run_state" where
  "train_step keep TStart s =
     (if r_worker s \<noteq> Stopped then s else s\<lparr>r_worker := Clearing (prune_list keep (r_fs s)) None\<rparr>)"
| "train_step keep (TTear marked) s =
     (case r_worker s of Clearing (n # ns) next_step \<Rightarrow> s\<lparr>r_fs := tear n marked (r_fs s)\<rparr> | _ \<Rightarrow> s)"
| "train_step keep TRemove s =
     (case r_worker s of
        Clearing (n # ns) next_step \<Rightarrow> s\<lparr>r_fs := dpop n (r_fs s), r_worker := Clearing ns next_step\<rparr>
      | _ \<Rightarrow> s)"
| "train_step keep TCleared s =
     (case r_worker s of
        Clearing [] None \<Rightarrow>
          (let from = latest (r_fs s) in
           s\<lparr>r_resumed := from,
             r_worker := Training (case from of None \<Rightarrow> 0
                                    | Some n \<Rightarrow> (case step_of n of None \<Rightarrow> 0 | Some k \<Rightarrow> k)) True\<rparr>)
      | Clearing [] (Some k) \<Rightarrow> s\<lparr>r_worker := Training k True\<rparr>
      | _ \<Rightarrow> s)"
| "train_step keep TStep s =
     (case r_worker s of Training k saved \<Rightarrow> s\<lparr>r_worker := Training (Suc k) False\<rparr> | _ \<Rightarrow> s)"
| "train_step keep TSave s =
     (case r_worker s of
        Training k False \<Rightarrow> s\<lparr>r_fs := write_dir (ckpt_name k) False (r_fs s), r_worker := Saving k\<rparr>
      | _ \<Rightarrow> s)"
| "train_step keep TSaved s =
     (case r_worker s of
        Saving k \<Rightarrow>
          (let fs = mark_complete (ckpt_name k) (write_dir (ckpt_name k) True (r_fs s)) in
           s\<lparr>r_fs := fs, r_worker := Clearing (prune_list keep fs) (Some k)\<rparr>)
      | _ \<Rightarrow> s)"
| "train_step keep TFinish s =
     (case r_worker s of
        Training k saved \<Rightarrow> s\<lparr>r_fs := write_dir ''final'' False (r_fs s), r_worker := SavingFinal\<rparr>
      | _ \<Rightarrow> s)"
| "train_step keep TFinished s =
     (if r_worker s = SavingFinal
      then s\<lparr>r_fs := mark_complete ''final'' (write_dir ''final'' True (r_fs s)), r_worker := Finished\<rparr>
      else s)"
| "train_step keep TKill s = s\<lparr>r_worker := Stopped\<rparr>"

definition train_run :: "nat \<Rightarrow> tevent list \<Rightarrow> run_state \<Rightarrow> run_state" where
  "train_run keep es s = fold (train_step keep) es s"

definition run_init :: run_state where
  "run_init = \<lparr>r_fs = [], r_worker = Stopped, r_resumed = None\<rparr>"

text \<open>Removing what is listed, one after the other, is what \<open>prune\<close> does.\<close>

lemma clearing_is_prune: "fold dpop (prune_list keep fs) fs = prune keep fs"
proof -
  have "fold dpop ns d = filter (\<lambda>(n, e). n \<notin> set ns) d" for ns :: "string list" and d :: outdir
    by (induction ns arbitrary: d) (auto simp: dpop_def case_prod_unfold intro!: filter_cong)
  then show ?thesis by (simp add: prune_def Let_def)
qed

lemma step_of_name: "step_of (ckpt_name k) = Some k"
proof -
  have t: "takeWhile is_digit (str_nat k) = str_nat k"
    using str_nat_digits [of k] by (simp only: takeWhile_eq_all_conv)
  show ?thesis
    by (simp add: step_of_def ckpt_name_def starts_with_def dec_val_str_nat Let_def t str_nat_digits)
qed

subsection \<open>What is kept\<close>

text \<open>How many complete checkpoints are newer than one.\<close>

definition newer :: "nat \<times> string \<Rightarrow> outdir \<Rightarrow> nat" where
  "newer p fs = card {x \<in> set (completed fs). p < x}"

text \<open>
  A complete checkpoint is whole unless its removal has begun, and then there are newer ones enough; no
  complete checkpoint is newer than the step the worker has reached; the directory being written
  is not marked.
\<close>

definition torn_old :: "nat \<Rightarrow> outdir \<Rightarrow> bool" where
  "torn_old keep fs \<longleftrightarrow> (\<forall>n e k. (n, e) \<in> set fs \<and> step_of n = Some k \<and> d_complete e \<and> \<not> d_whole e
     \<longrightarrow> keep \<le> newer (k, n) fs)"

definition upto_step :: "nat \<Rightarrow> outdir \<Rightarrow> bool" where
  "upto_step k fs \<longleftrightarrow> (\<forall>n e j. (n, e) \<in> set fs \<and> step_of n = Some j \<and> d_complete e \<longrightarrow> j \<le> k)"

definition below_step :: "nat \<Rightarrow> outdir \<Rightarrow> bool" where
  "below_step k fs \<longleftrightarrow> (\<forall>n e j. (n, e) \<in> set fs \<and> step_of n = Some j \<and> d_complete e \<longrightarrow> j < k)"

definition dirs_ok :: "nat \<Rightarrow> outdir \<Rightarrow> bool" where
  "dirs_ok keep fs \<longleftrightarrow> dict_ok fs \<and> torn_old keep fs \<and> (\<forall>n e. (n, e) \<in> set fs \<longrightarrow> d_isdir e)"

text \<open>What is listed for removal is old or not complete, and what is not listed is complete and whole.\<close>

definition clear_ok :: "nat \<Rightarrow> string list \<Rightarrow> outdir \<Rightarrow> bool" where
  "clear_ok keep ns fs \<longleftrightarrow>
     (\<forall>n e k. (n, e) \<in> set fs \<and> step_of n = Some k \<longrightarrow>
        (if n \<in> set ns then d_complete e \<longrightarrow> keep \<le> newer (k, n) fs else d_complete e \<and> d_whole e))"

definition train_inv :: "nat \<Rightarrow> run_state \<Rightarrow> bool" where
  "train_inv keep s \<longleftrightarrow> dirs_ok keep (r_fs s)
     \<and> (case r_worker s of
          Clearing ns next_step \<Rightarrow> clear_ok keep ns (r_fs s)
            \<and> (case next_step of None \<Rightarrow> True | Some k \<Rightarrow> upto_step k (r_fs s))
        | Training k saved \<Rightarrow> (if saved then upto_step k (r_fs s) else below_step k (r_fs s))
        | Saving k \<Rightarrow> below_step k (r_fs s)
        | _ \<Rightarrow> True)"

lemma dirs_okI:
  assumes "dict_ok fs"
    "\<And>n e k. (n, e) \<in> set fs \<Longrightarrow> step_of n = Some k \<Longrightarrow> d_complete e \<Longrightarrow> \<not> d_whole e \<Longrightarrow> keep \<le> newer (k, n) fs"
    "\<And>n e. (n, e) \<in> set fs \<Longrightarrow> d_isdir e"
  shows "dirs_ok keep fs"
  using assms unfolding dirs_ok_def torn_old_def by blast

lemma dirs_okD:
  assumes "dirs_ok keep fs"
  shows "dict_ok fs"
    "(n, e) \<in> set fs \<Longrightarrow> step_of n = Some k \<Longrightarrow> d_complete e \<Longrightarrow> \<not> d_whole e \<Longrightarrow> keep \<le> newer (k, n) fs"
    "(n, e) \<in> set fs \<Longrightarrow> d_isdir e"
  using assms unfolding dirs_ok_def torn_old_def by blast+

lemma completed_iff:
  assumes "dirs_ok keep fs"
  shows "(k, n) \<in> set (completed fs) \<longleftrightarrow> (\<exists>e. (n, e) \<in> set fs \<and> step_of n = Some k \<and> d_complete e)"
  using set_completed [OF dirs_okD(1) [OF assms]] dirs_okD(3) [OF assms] by blast

lemma newer_mono: "set (completed fs) \<subseteq> set (completed fs') \<Longrightarrow> newer p fs \<le> newer p fs'"
  unfolding newer_def by (intro card_mono) auto

text \<open>Losing a checkpoint with enough newer ones leaves enough newer ones to all that had enough.\<close>

lemma newer_drop:
  assumes "set (completed fs) - {x} \<subseteq> set (completed fs')" "x \<in> set (completed fs) \<Longrightarrow> keep \<le> newer x fs"
    "keep \<le> newer p fs"
  shows "keep \<le> newer p fs'"
proof (cases "x \<in> set (completed fs) \<and> p < x")
  case True
  then have "{z \<in> set (completed fs). x < z} \<subseteq> {z \<in> set (completed fs'). p < z}" using assms(1) by auto
  then have "newer x fs \<le> newer p fs'" unfolding newer_def by (intro card_mono) auto
  then show ?thesis using assms(2) True by simp
next
  case False
  then have "{z \<in> set (completed fs). p < z} \<subseteq> {z \<in> set (completed fs'). p < z}" using assms(1) by auto
  then have "newer p fs \<le> newer p fs'" unfolding newer_def by (intro card_mono) auto
  then show ?thesis using assms(3) by simp
qed

lemma sorted_split:
  fixes xs :: "'a :: linorder list"
  assumes "sorted xs" "distinct xs" "x \<in> set (take m xs)" "z \<in> set (drop m xs)" shows "x < z"
proof -
  have "sorted (take m xs @ drop m xs)" "distinct (take m xs @ drop m xs)" using assms(1,2) by simp_all
  then have "x \<le> z" "x \<noteq> z" using assms(3,4) unfolding sorted_append distinct_append by blast+
  then show ?thesis by simp
qed

lemma listed_old:
  assumes d: "dict_ok fs" and n: "n \<in> set (prune_list keep fs)" "(k, n) \<in> set (completed fs)"
  shows "keep \<le> newer (k, n) fs"
proof (cases "keep = 0")
  case False
  let ?c = "completed fs"
  have "(k, n) \<notin> set (drop (length ?c - keep) ?c)" using prune_list_keeps [OF _ d] n(1) False by fastforce
  then have x: "(k, n) \<in> set (take (length ?c - keep) ?c)"
    using n(2) by (metis Un_iff append_take_drop_id set_append)
  then have "set (drop (length ?c - keep) ?c) \<subseteq> {z \<in> set ?c. (k, n) < z}"
    using sorted_split [OF sorted_completed distinct_completed [OF d] x] by (auto dest: in_set_dropD)
  then have "card (set (drop (length ?c - keep) ?c)) \<le> newer (k, n) fs" unfolding newer_def by (intro card_mono) auto
  moreover have "\<not> length ?c \<le> keep" using x by auto
  ultimately show ?thesis
    using distinct_card [OF distinct_drop [OF distinct_completed [OF d]], of "length ?c - keep"] by simp
qed simp

lemma unlisted_new:
  assumes d: "dict_ok fs" and n: "n \<notin> set (prune_list keep fs)" "(k, n) \<in> set (completed fs)"
  shows "newer (k, n) fs < keep"
proof -
  let ?c = "completed fs"
  have l: "n \<notin> snd ` set (if keep > 0 then slice_to (- int keep) ?c else ?c)"
    using n(1) unfolding prune_list_def Let_def completed_def by auto
  then have k: "keep > 0" using n(2) by (force split: if_splits)
  then have "(k, n) \<notin> set (take (length ?c - keep) ?c)" using l by (force simp: slice_to_def)
  then have x: "(k, n) \<in> set (drop (length ?c - keep) ?c)" using n(2) by (metis Un_iff append_take_drop_id set_append)
  have "{z \<in> set ?c. (k, n) < z} \<subseteq> set (drop (length ?c - keep) ?c) - {(k, n)}"
  proof
    fix z assume z: "z \<in> {z \<in> set ?c. (k, n) < z}"
    then have "z \<notin> set (take (length ?c - keep) ?c)"
      using sorted_split [OF sorted_completed distinct_completed [OF d] _ x] by fastforce
    then show "z \<in> set (drop (length ?c - keep) ?c) - {(k, n)}"
      using z by (metis (no_types, lifting) Diff_iff Un_iff append_take_drop_id empty_iff insert_iff less_irrefl mem_Collect_eq set_append)
  qed
  then have "newer (k, n) fs \<le> card (set (drop (length ?c - keep) ?c) - {(k, n)})"
    unfolding newer_def by (intro card_mono) auto
  also have "\<dots> < card (set (drop (length ?c - keep) ?c))" using x by (intro psubset_card_mono) auto
  also have "\<dots> \<le> length (drop (length ?c - keep) ?c)" by (rule card_length)
  finally show ?thesis by simp
qed

lemma prune_list_clear:
  assumes ok: "dirs_ok keep fs" shows "clear_ok keep (prune_list keep fs) fs"
proof -
  have "d_complete e \<and> d_whole e" if e: "(n, e) \<in> set fs" "step_of n = Some k" "n \<notin> set (prune_list keep fs)" for n e k
  proof
    show c: "d_complete e"
      using prune_drops_partial [OF dirs_okD(1) [OF ok], of n e keep k] e dirs_okD(3) [OF ok e(1)] by (simp add: prune_set)
    then show "d_whole e"
      using unlisted_new [OF dirs_okD(1) [OF ok] e(3)] dirs_okD(2) [OF ok e(1,2)] completed_iff [OF ok] e(1,2)
      by (meson leD)
  qed
  moreover have "keep \<le> newer (k, n) fs"
    if "(n, e) \<in> set fs" "step_of n = Some k" "n \<in> set (prune_list keep fs)" "d_complete e" for n e k
    using listed_old [OF dirs_okD(1) [OF ok] that(3)] completed_iff [OF ok] that by blast
  ultimately show ?thesis unfolding clear_ok_def by auto
qed

lemma set_dset: "dict_ok d \<Longrightarrow> set (dset k v d) = insert (k, v) {x \<in> set d. fst x \<noteq> k}"
proof (induction k v d rule: dset.induct)
  case (2 k v k' v' d)
  then show ?case by (force simp: dict_ok_def)
qed simp

lemma set_write_dir:
  assumes "dict_ok fs"
  shows "\<exists>c. set (write_dir n w fs)
      = insert (n, \<lparr>d_isdir = True, d_complete = c, d_whole = w\<rparr>) {x \<in> set fs. fst x \<noteq> n}
    \<and> (c \<longrightarrow> (\<exists>e. (n, e) \<in> set fs \<and> d_complete e))"
proof (cases "map_of fs n")
  case None
  then show ?thesis
    using assms by (intro exI [of _ False]) (simp add: write_dir_def set_dset whole_entry_def)
next
  case (Some e)
  have "e\<lparr>d_isdir := True, d_whole := w\<rparr> = \<lparr>d_isdir = True, d_complete = d_complete e, d_whole = w\<rparr>"
    by simp
  then show ?thesis
    using assms Some map_of_SomeD [OF Some]
    by (intro exI [of _ "d_complete e"]) (auto simp: write_dir_def set_dset)
qed

lemma dict_write_dir: "dict_ok fs \<Longrightarrow> dict_ok (write_dir n w fs)"
  by (auto simp: write_dir_def dict_ok_dset split: option.split)

lemma set_mark: "(m, e) \<in> set (mark_complete n fs)
    \<longleftrightarrow> (\<exists>e0. (m, e0) \<in> set fs \<and> e = (if m = n then e0\<lparr>d_complete := True\<rparr> else e0))"
  by (force simp: mark_complete_def)

lemma dict_mark: "dict_ok fs \<Longrightarrow> dict_ok (mark_complete n fs)"
  by (simp add: dict_ok_def mark_complete_def comp_def case_prod_beta)

text \<open>Beginning a save at a step above every complete checkpoint changes none of them.\<close>

lemma write_new_ok:
  assumes ok: "dirs_ok keep fs" and b: "below_step k fs" and n: "step_of n = Some k"
  shows "dirs_ok keep (write_dir n w fs)" "below_step k (write_dir n w fs)"
proof -
  have d: "dict_ok fs" using dirs_okD(1) [OF ok] .
  obtain c where c: "set (write_dir n w fs)
      = insert (n, \<lparr>d_isdir = True, d_complete = c, d_whole = w\<rparr>) {x \<in> set fs. fst x \<noteq> n}"
    "c \<longrightarrow> (\<exists>e. (n, e) \<in> set fs \<and> d_complete e)"
    using set_write_dir [OF d] by blast
  have nc: "\<not> c" using c(2) b n by (auto simp: below_step_def)
  have "(n, e) \<in> set fs \<Longrightarrow> \<not> d_complete e" for e using b n by (auto simp: below_step_def)
  then have sub: "set (completed fs) \<subseteq> set (completed (write_dir n w fs))"
    using set_completed [OF d] set_completed [OF dict_write_dir [OF d], of _ _ n w] c(1) by fastforce
  have "keep \<le> newer (j, m) (write_dir n w fs)"
    if "(m, e) \<in> set (write_dir n w fs)" "step_of m = Some j" "d_complete e" "\<not> d_whole e" for m e j
  proof -
    have "(m, e) \<in> set fs" using that(1,3) c(1) nc by auto
    then show ?thesis using dirs_okD(2) [OF ok _ that(2-4)] newer_mono [OF sub] le_trans by blast
  qed
  then show "dirs_ok keep (write_dir n w fs)"
    by (intro dirs_okI) (auto simp: c(1) dict_write_dir d dest: dirs_okD(3) [OF ok])
  show "below_step k (write_dir n w fs)"
    using nc b c(1) by (auto simp: below_step_def)
qed

lemma completed_mark:
  assumes "dict_ok fs" shows "set (completed fs) \<subseteq> set (completed (mark_complete n fs))"
proof
  fix x assume "x \<in> set (completed fs)"
  moreover obtain k m where x: "x = (k, m)" by force
  ultimately obtain e where "(m, e) \<in> set fs" "step_of m = Some k" "d_isdir e" "d_complete e"
    using set_completed [OF assms] by blast
  then show "x \<in> set (completed (mark_complete n fs))"
    using x set_completed [OF dict_mark [OF assms], of k m n] set_mark [of m _ n fs] by fastforce
qed

lemma mark_ok:
  assumes ok: "dirs_ok keep fs" and w: "\<And>e. (n, e) \<in> set fs \<Longrightarrow> step_of n \<noteq> None \<Longrightarrow> d_whole e"
  shows "dirs_ok keep (mark_complete n fs)"
proof (rule dirs_okI)
  have d: "dict_ok fs" using dirs_okD(1) [OF ok] .
  show "dict_ok (mark_complete n fs)" by (rule dict_mark [OF d])
  show "d_isdir e" if "(m, e) \<in> set (mark_complete n fs)" for m e
    using that dirs_okD(3) [OF ok] by (auto simp: set_mark)
  show "keep \<le> newer (j, m) (mark_complete n fs)"
    if "(m, e) \<in> set (mark_complete n fs)" "step_of m = Some j" "d_complete e" "\<not> d_whole e" for m e j
  proof -
    have "m \<noteq> n" using that w by (auto simp: set_mark)
    then have "(m, e) \<in> set fs" using that(1) by (auto simp: set_mark)
    then show ?thesis using dirs_okD(2) [OF ok _ that(2-4)] newer_mono [OF completed_mark [OF d]] le_trans by blast
  qed
qed

lemma saved_ok:
  assumes ok: "dirs_ok keep fs" and b: "below_step k fs" and n: "step_of n = Some k"
  shows "dirs_ok keep (mark_complete n (write_dir n True fs))"
    "upto_step k (mark_complete n (write_dir n True fs))"
proof -
  have w: "dirs_ok keep (write_dir n True fs)" "below_step k (write_dir n True fs)"
    by (rule write_new_ok [OF assms])+
  obtain c where c: "set (write_dir n True fs)
      = insert (n, \<lparr>d_isdir = True, d_complete = c, d_whole = True\<rparr>) {x \<in> set fs. fst x \<noteq> n}"
    using set_write_dir [OF dirs_okD(1) [OF ok], of n True] by blast
  show "dirs_ok keep (mark_complete n (write_dir n True fs))" by (rule mark_ok [OF w(1)]) (use c in auto)
  show "upto_step k (mark_complete n (write_dir n True fs))"
    using w(2) n by (fastforce simp: upto_step_def below_step_def set_mark split: if_splits)
qed

lemma final_ok:
  assumes ok: "dirs_ok keep fs"
  shows "dirs_ok keep (write_dir ''final'' w fs)" "dirs_ok keep (mark_complete ''final'' fs)"
proof -
  have d: "dict_ok fs" and f: "step_of ''final'' = None"
    using dirs_okD(1) [OF ok] by (simp_all add: step_of_def starts_with_def)
  obtain c where c: "set (write_dir ''final'' w fs)
      = insert (''final'', \<lparr>d_isdir = True, d_complete = c, d_whole = w\<rparr>) {x \<in> set fs. fst x \<noteq> ''final''}"
    using set_write_dir [OF d] by blast
  have "set (completed fs) \<subseteq> set (completed (write_dir ''final'' w fs))"
    using set_completed [OF d] set_completed [OF dict_write_dir [OF d], of _ _ "''final''" w] c f by fastforce
  then show "dirs_ok keep (write_dir ''final'' w fs)"
    by (intro dirs_okI) (auto simp: c f dict_write_dir d dest: dirs_okD(3) [OF ok]
        intro: le_trans [OF _ newer_mono] dirs_okD(2) [OF ok])
  show "dirs_ok keep (mark_complete ''final'' fs)" by (rule mark_ok [OF ok]) (simp add: f)
qed

lemma below_upto: "upto_step k fs \<Longrightarrow> below_step (Suc k) fs" "below_step k fs \<Longrightarrow> below_step (Suc k) fs"
  by (fastforce simp: upto_step_def below_step_def)+

text \<open>Taking a listed directory apart, or away.\<close>

lemma set_tear: "(m, e) \<in> set (tear n marked fs)
    \<longleftrightarrow> (\<exists>e0. (m, e0) \<in> set fs \<and> e = (if m = n then e0\<lparr>d_complete := d_complete e0 \<and> marked, d_whole := False\<rparr> else e0))"
  by (force simp: tear_def)

lemma set_dpop: "(m, e) \<in> set (dpop n fs) \<longleftrightarrow> (m, e) \<in> set fs \<and> m \<noteq> n"
  by (auto simp: dpop_def)

lemma dict_tear: "dict_ok fs \<Longrightarrow> dict_ok (tear n marked fs)"
  by (simp add: dict_ok_def tear_def comp_def case_prod_beta)

text \<open>What both have in common: only \<open>n\<close>, which is listed, changes, and it gains nothing.\<close>

definition wrecks :: "string \<Rightarrow> outdir \<Rightarrow> outdir \<Rightarrow> bool" where
  "wrecks n fs fs' \<longleftrightarrow> dict_ok fs' \<and> (\<forall>m e. m \<noteq> n \<longrightarrow> (m, e) \<in> set fs' \<longleftrightarrow> (m, e) \<in> set fs)
     \<and> (\<forall>e. (n, e) \<in> set fs' \<longrightarrow> (\<exists>e0. (n, e0) \<in> set fs \<and> (d_complete e \<longrightarrow> d_complete e0) \<and> (d_isdir e0 \<longrightarrow> d_isdir e)))"

lemma clear_wrecks: "dict_ok fs \<Longrightarrow> wrecks n fs (tear n marked fs)" "dict_ok fs \<Longrightarrow> wrecks n fs (dpop n fs)"
  by (auto simp: wrecks_def set_tear set_dpop dict_tear split: if_splits)

lemma wrecks_completed:
  assumes ok: "dirs_ok keep fs" and w: "wrecks n fs fs'"
  shows "set (completed fs') \<subseteq> set (completed fs)" "\<exists>x. snd x = n \<and> set (completed fs) - {x} \<subseteq> set (completed fs')"
proof -
  have d: "dict_ok fs" "dict_ok fs'" using dirs_okD(1) [OF ok] w by (simp_all add: wrecks_def)
  have in': "(k, m) \<in> set (completed fs') \<longleftrightarrow> (\<exists>e. (m, e) \<in> set fs' \<and> step_of m = Some k \<and> d_isdir e \<and> d_complete e)" for k m
    by (rule set_completed [OF d(2)])
  show "set (completed fs') \<subseteq> set (completed fs)"
  proof
    fix x assume x: "x \<in> set (completed fs')"
    obtain k m where km: "x = (k, m)" by force
    then obtain e where e: "(m, e) \<in> set fs'" "step_of m = Some k" "d_complete e" using x in' by blast
    then have "\<exists>e0. (m, e0) \<in> set fs \<and> d_complete e0" using w unfolding wrecks_def by (cases "m = n") blast+
    then show "x \<in> set (completed fs)" using completed_iff [OF ok] e(2) km by blast
  qed
  have "set (completed fs) - {(the (step_of n), n)} \<subseteq> set (completed fs')"
  proof
    fix x assume x: "x \<in> set (completed fs) - {(the (step_of n), n)}"
    obtain k m where km: "x = (k, m)" by force
    then obtain e where e: "(m, e) \<in> set fs" "step_of m = Some k" "d_complete e" using x completed_iff [OF ok] by blast
    then have "m \<noteq> n" using x km by auto
    then have "(m, e) \<in> set fs'" using w e(1) by (simp add: wrecks_def)
    then show "x \<in> set (completed fs')" using in' e dirs_okD(3) [OF ok e(1)] km by blast
  qed
  then show "\<exists>x. snd x = n \<and> set (completed fs) - {x} \<subseteq> set (completed fs')" by (metis snd_conv)
qed

lemma listed_newer:
  assumes "dirs_ok keep fs" "clear_ok keep ns fs" "snd x \<in> set ns" "x \<in> set (completed fs)"
  shows "keep \<le> newer x fs"
proof -
  obtain k n where x: "x = (k, n)" by force
  then obtain e where "(n, e) \<in> set fs" "step_of n = Some k" "d_complete e" using completed_iff [OF assms(1)] assms(4) by blast
  then show ?thesis using assms(2,3) x unfolding clear_ok_def by auto
qed

lemma wrecks_newer:
  assumes ok: "dirs_ok keep fs" and w: "wrecks n fs fs'" and c: "clear_ok keep ns fs" "n \<in> set ns" and p: "keep \<le> newer p fs"
  shows "keep \<le> newer p fs'"
proof -
  obtain x where x: "snd x = n" "set (completed fs) - {x} \<subseteq> set (completed fs')" using wrecks_completed(2) [OF ok w] by blast
  show ?thesis using newer_drop [OF x(2) _ p] listed_newer [OF ok c(1)] x(1) c(2) by blast
qed

lemma wrecks_ok:
  assumes ok: "dirs_ok keep fs" and w: "wrecks n fs fs'" and c: "clear_ok keep ns fs" "n \<in> set ns"
  shows "dirs_ok keep fs'" "clear_ok keep ns fs'" "upto_step k fs \<Longrightarrow> upto_step k fs'"
proof -
  note more = wrecks_newer [OF ok w c]
  have old: "(\<exists>e0. (m, e0) \<in> set fs \<and> d_complete e0 \<and> (m \<noteq> n \<longrightarrow> e0 = e))" if "(m, e) \<in> set fs'" "d_complete e" for m e
    using that w unfolding wrecks_def by (cases "m = n") blast+
  have lots: "keep \<le> newer (j, m) fs'"
    if e: "(m, e) \<in> set fs'" "step_of m = Some j" "d_complete e" and b: "m = n \<or> \<not> d_whole e \<or> m \<in> set ns" for m e j
  proof -
    obtain e0 where e0: "(m, e0) \<in> set fs" "d_complete e0" "m \<noteq> n \<longrightarrow> e0 = e" using old [OF e(1,3)] by blast
    have "keep \<le> newer (j, m) fs"
    proof (cases "m \<in> set ns")
      case True
      then show ?thesis using c(1) e0 e(2) unfolding clear_ok_def by auto
    next
      case False
      then have "e0 = e" "\<not> d_whole e" using b e0(3) c(2) by auto
      then show ?thesis using dirs_okD(2) [OF ok e0(1) e(2)] e(3) by blast
    qed
    then show ?thesis by (rule more)
  qed
  show "dirs_ok keep fs'"
  proof (rule dirs_okI)
    show "dict_ok fs'" using w by (simp add: wrecks_def)
    show "d_isdir e" if "(m, e) \<in> set fs'" for m e
      using that w dirs_okD(3) [OF ok] unfolding wrecks_def by (cases "m = n") blast+
  qed (use lots in blast)
  show "clear_ok keep ns fs'"
    unfolding clear_ok_def
  proof (intro allI impI)
    fix m e j assume e: "(m, e) \<in> set fs' \<and> step_of m = Some j"
    show "if m \<in> set ns then d_complete e \<longrightarrow> keep \<le> newer (j, m) fs' else d_complete e \<and> d_whole e"
    proof (cases "m \<in> set ns")
      case False
      then have "(m, e) \<in> set fs" using e c(2) w by (auto simp: wrecks_def)
      then show ?thesis using c(1) e False by (auto simp: clear_ok_def)
    qed (use lots e in auto)
  qed
  show "upto_step k fs'" if "upto_step k fs" using that old unfolding upto_step_def by blast
qed

lemma clear_remove: "clear_ok keep (n # ns) fs \<Longrightarrow> (\<forall>e. (n, e) \<notin> set fs) \<Longrightarrow> clear_ok keep ns fs"
  unfolding clear_ok_def by (metis insert_iff list.simps(15))

lemma latest_upto:
  assumes ok: "dirs_ok keep fs" and l: "latest fs = Some n"
  shows "\<exists>k e. step_of n = Some k \<and> upto_step k fs \<and> (n, e) \<in> set fs \<and> d_complete e"
proof -
  obtain k where k: "(k, n) \<in> set (completed fs)" "(k, n) = last (completed fs)"
    using latest_in [OF l] by blast
  then obtain e where s: "step_of n = Some k" "(n, e) \<in> set fs" "d_complete e" using completed_iff [OF ok] by blast
  have "j \<le> k" if "(m, e) \<in> set fs" "step_of m = Some j" "d_complete e" for m e j
  proof -
    have "(j, m) \<in> set (completed fs)" using that completed_iff [OF ok] by blast
    then have "(j, m) \<le> (k, n)" using last_max [OF sorted_completed] k(2) by metis
    then show ?thesis by auto
  qed
  then have "upto_step k fs" by (auto simp: upto_step_def)
  then show ?thesis using s by blast
qed

lemma latest_none_upto:
  assumes ok: "dirs_ok keep fs" and l: "latest fs = None" shows "upto_step k fs"
proof -
  have "completed fs = []" using l by (simp add: latest_completed split: if_splits)
  then have "\<not> (step_of m = Some j \<and> d_complete e)" if "(m, e) \<in> set fs" for m e j
    using that completed_iff [OF ok, of j m] by auto
  then show ?thesis by (auto simp: upto_step_def)
qed

lemma clearing_step:
  assumes i: "train_inv keep s" and w: "r_worker s = Clearing (n # ns) a"
  shows "train_inv keep (train_step keep (TTear marked) s)" "train_inv keep (train_step keep TRemove s)"
proof -
  have ok: "dirs_ok keep (r_fs s)" and c: "clear_ok keep (n # ns) (r_fs s)" using i w by (simp_all add: train_inv_def)
  have n: "n \<in> set (n # ns)" by simp
  note t = wrecks_ok [OF ok clear_wrecks(1) [OF dirs_okD(1) [OF ok]] c n]
  note r = wrecks_ok [OF ok clear_wrecks(2) [OF dirs_okD(1) [OF ok]] c n]
  show "train_inv keep (train_step keep (TTear marked) s)"
    using i w t by (auto simp: train_inv_def split: option.splits)
  show "train_inv keep (train_step keep TRemove s)"
    using i w r clear_remove [OF r(2)] by (auto simp: train_inv_def set_dpop split: option.splits)
qed

lemma train_step_inv:
  assumes i: "train_inv keep s" shows "train_inv keep (train_step keep e s)"
proof (cases e)
  case TStart
  then show ?thesis using i prune_list_clear by (auto simp: train_inv_def)
next
  case (TTear marked)
  then show ?thesis using i clearing_step(1) [OF i] by (auto split: worker.split list.split)
next
  case TRemove
  then show ?thesis using i clearing_step(2) [OF i] by (auto split: worker.split list.split)
next
  case TCleared
  have "\<exists>k. r_worker (train_step keep TCleared s) = Training k True \<and> upto_step k (r_fs s)"
    if "r_worker s = Clearing [] None"
  proof (cases "latest (r_fs s)")
    case None
    then show ?thesis using that latest_none_upto i by (auto simp: train_inv_def Let_def)
  next
    case (Some n)
    then show ?thesis using that latest_upto [OF _ Some] i by (fastforce simp: train_inv_def Let_def)
  qed
  then show ?thesis
    using TCleared i by (auto simp: train_inv_def Let_def split: worker.splits list.splits option.splits)
next
  case TStep
  then show ?thesis
    using i below_upto by (auto simp: train_inv_def split: worker.splits if_splits)
next
  case TSave
  then show ?thesis
    using i step_of_name write_new_ok [of keep "r_fs s" _ _ False]
    by (auto simp: train_inv_def split: worker.splits bool.splits)
next
  case TSaved
  then show ?thesis
    using i step_of_name saved_ok [of keep "r_fs s"] prune_list_clear
    by (auto simp: train_inv_def Let_def split: worker.splits)
next
  case TFinish
  then show ?thesis
    using i final_ok by (auto simp: train_inv_def split: worker.splits)
next
  case TFinished
  then show ?thesis
    using i final_ok by (auto simp: train_inv_def)
next
  case TKill
  then show ?thesis using i by (simp add: train_inv_def)
qed

interpretation training: machine "train_step keep" "train_inv keep" "\<lambda>s. s = run_init" for keep
proof
  show "s = run_init \<Longrightarrow> train_inv keep s" for s
    by (simp add: train_inv_def run_init_def dirs_ok_def torn_old_def)
qed (rule train_step_inv)

lemma train_run_inv: "train_inv keep (train_run keep es run_init)"
  unfolding train_run_def by (rule training.run_inv) simp

text \<open>Clearing does not change what a resume starts from.\<close>

lemma latest_same:
  assumes "set (completed fs') \<subseteq> set (completed fs)"
    "completed fs \<noteq> [] \<Longrightarrow> last (completed fs) \<in> set (completed fs')"
  shows "latest fs' = latest fs"
proof (cases "completed fs = []")
  case True
  then show ?thesis using assms(1) by (simp add: latest_completed)
next
  case False
  then have m: "last (completed fs) \<in> set (completed fs')" by (rule assms(2))
  then have ne: "completed fs' \<noteq> []" by auto
  then have "last (completed fs') \<le> last (completed fs)" using assms(1) last_max [OF sorted_completed] by (meson last_in_set subsetD)
  moreover have "last (completed fs) \<le> last (completed fs')" using last_max [OF sorted_completed m] .
  ultimately show ?thesis using False ne by (simp add: latest_completed)
qed

lemma wrecks_latest:
  assumes ok: "dirs_ok keep fs" and w: "wrecks n fs fs'" and c: "clear_ok keep ns fs" "n \<in> set ns" and k: "keep > 0"
  shows "latest fs' = latest fs"
proof (rule latest_same [OF wrecks_completed(1) [OF ok w]])
  assume ne: "completed fs \<noteq> []"
  obtain x where x: "snd x = n" "set (completed fs) - {x} \<subseteq> set (completed fs')" using wrecks_completed(2) [OF ok w] by blast
  have "last (completed fs) \<noteq> x"
  proof
    assume l: "last (completed fs) = x"
    then have "x \<in> set (completed fs)" using ne last_in_set by metis
    then have "keep \<le> newer x fs" using listed_newer [OF ok c(1)] c(2) x(1) by blast
    moreover have "{z \<in> set (completed fs). x < z} = {}" using last_max [OF sorted_completed] l by (auto simp: leD)
    ultimately show False using k by (simp only: newer_def card.empty)
  qed
  then show "last (completed fs) \<in> set (completed fs')" using x(2) last_in_set [OF ne] by blast
qed

fun removing :: "tevent \<Rightarrow> bool" where
  "removing (TTear marked) = True"
| "removing TRemove = True"
| "removing e = False"

lemma removing_run:
  "train_inv keep s \<Longrightarrow> r_worker s = Clearing ns a \<Longrightarrow> list_all removing cs \<Longrightarrow> keep > 0 \<Longrightarrow>
   \<exists>ns'. r_worker (train_run keep cs s) = Clearing ns' a \<and> latest (r_fs (train_run keep cs s)) = latest (r_fs s)
     \<and> train_inv keep (train_run keep cs s)"
proof (induction cs arbitrary: s ns)
  case Nil
  then show ?case by (simp add: train_run_def)
next
  case (Cons c cs)
  have ok: "dirs_ok keep (r_fs s)" "clear_ok keep ns (r_fs s)" using Cons.prems by (simp_all add: train_inv_def)
  have "\<exists>ns'. r_worker (train_step keep c s) = Clearing ns' a \<and> latest (r_fs (train_step keep c s)) = latest (r_fs s)"
    using Cons.prems(2,3) wrecks_latest [OF ok(1) clear_wrecks(1) [OF dirs_okD(1) [OF ok(1)]] ok(2) _ Cons.prems(4)]
      wrecks_latest [OF ok(1) clear_wrecks(2) [OF dirs_okD(1) [OF ok(1)]] ok(2) _ Cons.prems(4)]
    by (cases c; cases ns) simp_all
  then obtain ns' where n: "r_worker (train_step keep c s) = Clearing ns' a"
    "latest (r_fs (train_step keep c s)) = latest (r_fs s)" by blast
  from Cons.IH [OF train_step_inv [OF Cons.prems(1)] n(1)] Cons.prems(3,4) n(2) show ?case by (simp add: train_run_def)
qed

text \<open>
  C11: A resume starts from the newest checkpoint that was finished, and never from a torn one. With
  at least one checkpoint to keep: whatever the worker was doing each time it was killed, the
  removal of an old, marked checkpoint included, a restart that gets through its cleaning resumes
  from the newest checkpoint that was marked when it started; that one is marked and whole, its
  step is the step the worker goes on from, and every checkpoint left is marked and whole. A removal
  that is not cut short by a kill is taken to succeed.
\<close>

theorem resume_whole:
  assumes "keep > 0" and "s = train_run keep es run_init" and "r_worker s = Stopped"
    and "list_all removing cs" and "s' = train_run keep (TStart # cs @ [TCleared]) s" and "r_worker s' = Training k saved"
  shows "r_resumed s' = latest (r_fs s)
    \<and> (\<forall>n. r_resumed s' = Some n \<longrightarrow> step_of n = Some k \<and> (\<exists>e. (n, e) \<in> set (r_fs s') \<and> d_complete e \<and> d_whole e)
          \<and> (\<forall>(m, e)\<in>set (r_fs s). \<forall>j. step_of m = Some j \<and> d_complete e \<longrightarrow> j \<le> k))
    \<and> (\<forall>(m, e)\<in>set (r_fs s'). step_of m \<noteq> None \<longrightarrow> d_complete e \<and> d_whole e)"
proof -
  let ?s = "train_step keep TStart s" and ?t = "train_run keep cs (train_step keep TStart s)"
  have i: "train_inv keep s" using train_run_inv assms(2) by simp
  have "r_worker ?s = Clearing (prune_list keep (r_fs s)) None" "r_fs ?s = r_fs s" using assms(3) by simp_all
  from removing_run [OF train_step_inv [OF i] this(1) assms(4,1)] this(2)
  obtain ns where t: "r_worker ?t = Clearing ns None" "latest (r_fs ?t) = latest (r_fs s)" "train_inv keep ?t" by auto
  have s': "s' = train_step keep TCleared ?t" using assms(5) by (simp add: train_run_def)
  have n: "ns = []" using assms(6) s' t(1) by (cases ns) simp_all
  have f: "r_fs s' = r_fs ?t" "r_resumed s' = latest (r_fs ?t)" using s' t(1) n by (simp_all add: Let_def)
  have c: "clear_ok keep [] (r_fs ?t)" "dirs_ok keep (r_fs ?t)" using t n by (simp_all add: train_inv_def)
  have all: "\<forall>(m, e)\<in>set (r_fs s'). step_of m \<noteq> None \<longrightarrow> d_complete e \<and> d_whole e"
    using c(1) f(1) unfolding clear_ok_def by fastforce
  have "step_of n = Some k \<and> (\<exists>e. (n, e) \<in> set (r_fs s') \<and> d_complete e \<and> d_whole e)
      \<and> (\<forall>(m, e)\<in>set (r_fs s). \<forall>j. step_of m = Some j \<and> d_complete e \<longrightarrow> j \<le> k)" if r: "r_resumed s' = Some n" for n
  proof -
    have l: "latest (r_fs ?t) = Some n" "latest (r_fs s) = Some n" using f(2) t(2) r by simp_all
    obtain j e where j: "step_of n = Some j" "(n, e) \<in> set (r_fs ?t)" "d_complete e" using latest_upto [OF c(2) l(1)] by blast
    have "k = j" using assms(6) s' t(1) n l(1) j(1) by (simp add: Let_def)
    moreover have "upto_step j (r_fs s)" using latest_upto [OF _ l(2)] i j(1) by (auto simp: train_inv_def)
    ultimately show ?thesis using j all f(1) unfolding upto_step_def by fastforce
  qed
  then show ?thesis using all f(2) t(2) by simp
qed

lemmas train_simps = run_init_def ckpt_name_def write_dir_def whole_entry_def mark_complete_def tear_def dpop_def
  prune_def prune_list_def slice_to_def checkpoint_simps str_nat.simps dec_char_def

text \<open>Killed while the oldest of three checkpoints is being removed, and again while the restart removes it.\<close>

definition example_kills :: "tevent list" where
  "example_kills = [TStart, TCleared, TStep, TSave, TSaved, TCleared, TStep, TSave, TSaved, TTear True, TKill, TStart, TTear True, TKill]"

theorem resume_whole_witness:
  "let s = train_run 1 example_kills run_init
   in length (r_fs s) = 2 \<and> is_complete (r_fs s) ''checkpoint-1''
      \<and> r_resumed (train_run 1 (TStart # [TTear False, TRemove] @ [TCleared]) s) = Some ''checkpoint-2''
      \<and> (\<forall>(m, e)\<in>set (r_fs (train_run 1 (TStart # [TTear False, TRemove] @ [TCleared]) s)). step_of m \<noteq> None \<longrightarrow> d_complete e \<and> d_whole e)"
proof -
  let ?s = "train_run 1 example_kills run_init"
  let ?t = "train_run 1 (TStart # [TTear False, TRemove] @ [TCleared]) ?s"
  have h: "r_worker ?s = Stopped" "r_worker ?t = Training 2 True" "length (r_fs ?s) = 2" "is_complete (r_fs ?s) ''checkpoint-1''"
    "latest (r_fs ?s) = Some ''checkpoint-2''"
    by code_simp+
  have c: "list_all removing [TTear False, TRemove]" "(1::nat) > 0" by simp_all
  show ?thesis
    unfolding Let_def using resume_whole [OF c(2) refl h(1) c(1) refl h(2)] h by simp
qed

text \<open>
  The final adapter has no such protection. When a finished run is submitted again into the
  same directory, the second save of \<open>final\<close> writes under the marker the first one left: killed
  in the middle, it leaves an adapter that is marked complete and is not whole, and the exporter,
  which asks only for the marker, will take it.
\<close>

theorem final_torn_but_complete:
  "let s = train_run 2 [TStart, TCleared, TStep, TFinish, TFinished, TKill, TStart, TCleared, TStep, TFinish, TKill] run_init
   in is_complete (r_fs s) ''final'' \<and> map_option d_whole (map_of (r_fs s) ''final'') = Some False"
  by code_simp

text \<open>
  And a marker is no proof while a removal is under way: killed in the middle of one, the worker leaves
  an old checkpoint that is marked and torn. Only the next cleaning takes it away.
\<close>

theorem torn_but_marked:
  "let s = train_run 1 example_kills run_init
   in is_complete (r_fs s) ''checkpoint-1'' \<and> map_option d_whole (map_of (r_fs s) ''checkpoint-1'') = Some False"
  by code_simp

end
