(* ===== verification/Lora_Export.thy ===== *)
theory Lora_Export
  imports Lora_Checkpoints
begin

text \<open>
  \<open>lora-training/personas.py\<close>, \<open>export_adapter.py\<close>, \<open>export_latest.py\<close>, \<open>build_all_datasets.py\<close> and the tally
  of \<open>sample_persona.py\<close>: the roster, which finished run of a persona goes live, and what is remembered
  of it. The outputs are the run directories in the order \<open>glob\<close> gives them; an adapter is a number that
  stands for its weights. The converter's exit codes, the builds and the answers typed in are given; a
  directory named by \<open>--run\<close> is one of the outputs. An exception that ends a script is its exit code 1.
  The example counts that are printed after a build are left out.
\<close>

section \<open>The roster\<close>

datatype roster_error = NoRoster | NotJson py_error | BadEntry string | EmptyRoster | NotInRoster "string list"

type_synonym roster = "(string \<times> jobj) list"

fun roster_entries :: "jobj \<Rightarrow> roster \<Rightarrow> roster_error + roster" where
  "roster_entries [] r = Inr r"
| "roster_entries ((persona, v) # es) r =
     (if starts_with persona ''_'' then roster_entries es r
      else case v of
             JObj e \<Rightarrow>
               if truthy (dget e ''user_ids'' JNull) \<and> truthy (dget e ''display_name'' JNull)
               then roster_entries es (dset persona e r) else Inl (BadEntry persona)
           | _ \<Rightarrow> Inl (BadEntry persona))"

text \<open>\<open>None\<close>: no such file; \<open>Inl\<close>: not JSON.\<close>

definition load_roster :: "json result option \<Rightarrow> roster_error + roster" where
  "load_roster f =
     (case f of
        None \<Rightarrow> Inl NoRoster
      | Some (Inl e) \<Rightarrow> Inl (NotJson e)
      | Some (Inr v) \<Rightarrow>
          (case as_obj v of
             Inl e \<Rightarrow> Inl (NotJson e)
           | Inr es \<Rightarrow>
               (case roster_entries es [] of
                  Inl e \<Rightarrow> Inl e
                | Inr r \<Rightarrow> if r = [] then Inl EmptyRoster else Inr r)))"

text \<open>\<open>wanted.split()\<close>.\<close>

fun words_from :: "string \<Rightarrow> string \<Rightarrow> string list" where
  "words_from cur [] = (if cur = [] then [] else [cur])"
| "words_from cur (c # cs) =
     (if py_space c then (if cur = [] then words_from [] cs else cur # words_from [] cs) else words_from (cur @ [c]) cs)"

definition select_names :: "roster \<Rightarrow> string list \<Rightarrow> roster_error + string list" where
  "select_names r names =
     (let unknown = filter (\<lambda>n. n \<notin> fst ` set r) names in if unknown \<noteq> [] then Inl (NotInRoster unknown) else Inr names)"

definition select_personas :: "roster \<Rightarrow> string \<Rightarrow> roster_error + string list" where
  "select_personas r wanted = (if wanted = [] then Inr (sort (dkeys r)) else select_names r (words_from [] wanted))"

section \<open>Finished runs\<close>

record run_dir =
  r_isdir :: bool
  r_files :: outdir
  r_marked :: real                        \<comment> \<open>time of the marker in \<open>final\<close>\<close>
  r_adapter :: nat                        \<comment> \<open>the weights in \<open>final\<close>\<close>
  r_states :: "(string \<times> real list) list"  \<comment> \<open>\<open>trainer_state.json\<close> of a checkpoint: its evaluation losses\<close>

type_synonym outputs = "(string \<times> run_dir) list"

definition candidate_runs :: "outputs \<Rightarrow> string \<Rightarrow> outputs" where
  "candidate_runs outs persona =
     filter (\<lambda>(base, r). r_isdir r \<and> (base = persona \<or> starts_with base (persona @ ''-''))) outs"

definition finished_at :: "run_dir \<Rightarrow> real option" where
  "finished_at r = (if is_complete (r_files r) ''final'' then Some (r_marked r) else None)"

fun max_run :: "(real \<times> string) list \<Rightarrow> (real \<times> string) option" where
  "max_run [] = None"
| "max_run (x # xs) = (case max_run xs of None \<Rightarrow> Some x | Some y \<Rightarrow> Some (max x y))"

definition newest_finished :: "outputs \<Rightarrow> string \<Rightarrow> string option" where
  "newest_finished outs persona =
     map_option snd (max_run (concat (map (\<lambda>(base, r). case finished_at r of None \<Rightarrow> [] | Some t \<Rightarrow> [(t, base)])
       (candidate_runs outs persona))))"

definition last_eval_loss :: "run_dir \<Rightarrow> real option" where
  "last_eval_loss r =
     (case rev (filter (\<lambda>(step, n). map_of (r_states r) n \<noteq> None) (all_checkpoints (r_files r))) of
        [] \<Rightarrow> None
      | (step, n) # rest \<Rightarrow>
          (case map_of (r_states r) n of
             Some (l # ls) \<Rightarrow> Some (last (l # ls))
           | _ \<Rightarrow> None))"

section \<open>What is live\<close>

text \<open>A manifest that cannot be read is \<open>None\<close>.\<close>

record manifest =
  m_source :: string
  m_loss :: "real option"

record lora_dir =
  l_gguf :: "(string \<times> nat) list"
  l_manifest :: "(string \<times> manifest option) list"

definition exported_from :: "string \<Rightarrow> lora_dir \<Rightarrow> string option" where
  "exported_from persona d =
     (case map_of (l_manifest d) persona of Some (Some m) \<Rightarrow> Some (m_source m) | _ \<Rightarrow> None)"

text \<open>\<open>export\<close>: its exit code and the directory after it; \<open>code\<close> is the converter's.\<close>

definition export :: "run_dir \<Rightarrow> string \<Rightarrow> int \<Rightarrow> lora_dir \<Rightarrow> int \<times> lora_dir" where
  "export r persona code d =
     (if \<not> is_complete (r_files r) ''final'' then (1, d)
      else if code \<noteq> 0 then (code, d)
      else (0, d\<lparr>l_gguf := dset persona (r_adapter r) (l_gguf d)\<rparr>))"

definition write_manifest :: "string \<Rightarrow> string \<Rightarrow> real option \<Rightarrow> lora_dir \<Rightarrow> lora_dir" where
  "write_manifest persona run loss d =
     d\<lparr>l_manifest := dset persona (Some \<lparr>m_source = run, m_loss = loss\<rparr>) (l_manifest d)\<rparr>"

datatype row = NoRun | Incomplete | AlreadyLive | WouldExport | ConversionFailed | Exported

record export_args =
  x_run :: string
  x_force :: bool
  x_dry :: bool

definition chosen_run :: "export_args \<Rightarrow> outputs \<Rightarrow> string \<Rightarrow> string option" where
  "chosen_run x outs persona = (if x_run x \<noteq> [] then Some (x_run x) else newest_finished outs persona)"

text \<open>A persona's round of the loop; a run that is not there is not finished.\<close>

definition export_persona :: "export_args \<Rightarrow> outputs \<Rightarrow> (string \<Rightarrow> int) \<Rightarrow> string \<Rightarrow> lora_dir \<Rightarrow> row \<times> lora_dir" where
  "export_persona x outs conv persona d =
     (case chosen_run x outs persona of
        None \<Rightarrow> (NoRun, d)
      | Some run \<Rightarrow>
          (case map_of outs run of
             None \<Rightarrow> (Incomplete, d)
           | Some r \<Rightarrow>
               if finished_at r = None then (Incomplete, d)
               else if exported_from persona d = Some run \<and> \<not> x_force x then (AlreadyLive, d)
               else if x_dry x then (WouldExport, d)
               else (case export r persona (conv persona) d of
                       (code, d1) \<Rightarrow>
                         if code \<noteq> 0 then (ConversionFailed, d1)
                         else (Exported, write_manifest persona run (last_eval_loss r) d1))))"

fun export_loop :: "export_args \<Rightarrow> outputs \<Rightarrow> (string \<Rightarrow> int) \<Rightarrow> string list \<Rightarrow> lora_dir \<Rightarrow> (string \<times> row) list \<times> lora_dir" where
  "export_loop x outs conv [] d = ([], d)"
| "export_loop x outs conv (n # ns) d =
     (let (r, d1) = export_persona x outs conv n d; (rs, d2) = export_loop x outs conv ns d1 in ((n, r) # rs, d2))"

definition export_latest ::
  "export_args \<Rightarrow> json result option \<Rightarrow> string \<Rightarrow> outputs \<Rightarrow> (string \<Rightarrow> int) \<Rightarrow> lora_dir \<Rightarrow> int \<times> (string \<times> row) list \<times> lora_dir" where
  "export_latest x roster_file wanted outs conv d =
     (case load_roster roster_file of
        Inl e \<Rightarrow> (1, [], d)
      | Inr r \<Rightarrow>
          (case select_personas r wanted of
             Inl e \<Rightarrow> (1, [], d)
           | Inr names \<Rightarrow>
               if x_run x \<noteq> [] \<and> length names \<noteq> 1 then (1, [], d)
               else let (rows, d1) = export_loop x outs conv names d
                    in (if list_ex (\<lambda>(n, s). s = Incomplete \<or> s = ConversionFailed) rows then 1 else 0, rows, d1)))"

text \<open>\<open>preset_problem\<close> on the sections of \<open>models.ini\<close>, each with its \<open>lora\<close>; \<open>None\<close>: no such file.\<close>

datatype preset = NotServed | ServesOther string

definition basename :: "string \<Rightarrow> string" where
  "basename p = last (split_on ''/'' p)"

definition preset_problem :: "(string \<times> string) list option \<Rightarrow> string \<Rightarrow> preset option" where
  "preset_problem ini persona =
     (case ini of
        None \<Rightarrow> None
      | Some sections \<Rightarrow>
          (case map_of sections persona of
             None \<Rightarrow> Some NotServed
           | Some l \<Rightarrow> if basename (strip l) \<noteq> persona @ ''-lora.gguf'' then Some (ServesOther (strip l)) else None))"

section \<open>All datasets\<close>

text \<open>What comes after the first \<open>--\<close> goes to every build.\<close>

definition split_argv :: "string list \<Rightarrow> string list \<times> string list" where
  "split_argv argv = (takeWhile (\<lambda>a. a \<noteq> ''--'') argv, drop 1 (dropWhile (\<lambda>a. a \<noteq> ''--'') argv))"

definition build_command :: "string \<Rightarrow> json \<Rightarrow> json \<Rightarrow> string \<Rightarrow> string \<Rightarrow> string list \<Rightarrow> json list" where
  "build_command persona user_ids display_name excluded out_root passthrough =
     map JStr [''build_dataset.py'', ''--user-id''] @ [user_ids] @ map JStr [''--persona'', persona, ''--display-name'']
       @ [display_name] @ map JStr ([''--exclude-channels'', excluded, ''--out'', out_root @ ''/'' @ persona] @ passthrough)"

text \<open>The builds in order, all of them also after one that fails, and the exit code.\<close>

definition build_all_datasets ::
  "json result option \<Rightarrow> string \<Rightarrow> string \<Rightarrow> string \<Rightarrow> string list \<Rightarrow> (json list \<Rightarrow> int) \<Rightarrow> int \<times> (string \<times> json list \<times> int) list" where
  "build_all_datasets roster_file wanted excluded out_root passthrough build =
     (case load_roster roster_file of
        Inl e \<Rightarrow> (1, [])
      | Inr r \<Rightarrow>
          (case select_personas r wanted of
             Inl e \<Rightarrow> (1, [])
           | Inr names \<Rightarrow>
               let results = map (\<lambda>n. let e = dget r n [];
                                          cmd = build_command n (dget e ''user_ids'' JNull) (dget e ''display_name'' JNull)
                                            excluded out_root passthrough
                                      in (n, cmd, build cmd)) names
               in (if list_ex (\<lambda>(n, cmd, code). code \<noteq> 0) results then 1 else 0, results)))"

section \<open>Blind comparison\<close>

text \<open>Input is asked for until it is one of the four; \<open>None\<close>: the answers are over.\<close>

fun ask_choice :: "string list \<Rightarrow> (string \<times> string list) option" where
  "ask_choice [] = None"
| "ask_choice (a # rest) =
     (let c = map lower_char (strip a) in if c \<in> set [''1'', ''2'', ''t'', ''s''] then Some (c, rest) else ask_choice rest)"

text \<open>One prompt: models in the order shown, the choice, the tally and the recorded winners.\<close>

definition judge_prompt ::
  "string \<times> string \<Rightarrow> string \<Rightarrow> (string \<times> nat) list \<times> string list \<Rightarrow> (string \<times> nat) list \<times> string list" where
  "judge_prompt order choice st =
     (if choice = ''s'' then st
      else let winner = (if choice = ''t'' then ''tie'' else if choice = ''1'' then fst order else snd order);
               (tally, recorded) = st
           in (if winner \<in> fst ` set tally then dset winner (dget tally winner 0 + 1) tally else tally, recorded @ [winner]))"

fun blind_session ::
  "(string \<times> string) list \<Rightarrow> string list \<Rightarrow> (string \<times> nat) list \<times> string list \<Rightarrow> ((string \<times> nat) list \<times> string list) option" where
  "blind_session [] answers st = Some st"
| "blind_session (order # orders) answers st =
     (case ask_choice answers of
        None \<Rightarrow> None
      | Some (c, rest) \<Rightarrow> blind_session orders rest (judge_prompt order c st))"

section \<open>Newest and live\<close>

lemma max_run_max: "max_run xs = Some m \<Longrightarrow> m \<in> set xs \<and> (\<forall>x\<in>set xs. x \<le> m)"
proof (induction xs arbitrary: m)
  case (Cons x xs)
  show ?case
  proof (cases "max_run xs")
    case None
    then have "xs = []" by (cases xs) (auto split: option.splits)
    then show ?thesis using Cons.prems by simp
  next
    case (Some y)
    then have "m = max x y" using Cons.prems by simp
    then show ?thesis using Cons.IH [OF Some] by (auto simp: max_def)
  qed
qed simp

text \<open>The run chosen is a finished one of the persona, and none of the persona's runs finished later.\<close>

lemma newest_finished_newest:
  assumes "newest_finished outs persona = Some run"
  shows "\<exists>r t. (run, r) \<in> set (candidate_runs outs persona) \<and> finished_at r = Some t
     \<and> (\<forall>(b, q)\<in>set (candidate_runs outs persona). \<forall>u. finished_at q = Some u \<longrightarrow> u \<le> t)"
proof -
  let ?xs = "concat (map (\<lambda>(base, r). case finished_at r of None \<Rightarrow> [] | Some t \<Rightarrow> [(t, base)]) (candidate_runs outs persona))"
  have mem: "(u, b) \<in> set ?xs \<longleftrightarrow> (\<exists>q. (b, q) \<in> set (candidate_runs outs persona) \<and> finished_at q = Some u)" for u b
    by (force split: option.splits)
  obtain m where m: "max_run ?xs = Some m" "run = snd m" using assms by (auto simp: newest_finished_def)
  then have "(fst m, run) \<in> set ?xs" and le: "\<forall>x\<in>set ?xs. x \<le> (fst m, run)" using max_run_max [OF m(1)] by simp_all
  then obtain r where "(run, r) \<in> set (candidate_runs outs persona)" "finished_at r = Some (fst m)" using mem by blast
  moreover have "u \<le> fst m" if "(b, q) \<in> set (candidate_runs outs persona)" "finished_at q = Some u" for b q u
    using le mem that by (fastforce simp: less_eq_prod_def)
  ultimately show ?thesis by blast
qed

text \<open>The manifests tell the truth when what they name is what is served.\<close>

definition manifest_true :: "outputs \<Rightarrow> lora_dir \<Rightarrow> bool" where
  "manifest_true outs d \<longleftrightarrow>
     (\<forall>p run r. exported_from p d = Some run \<longrightarrow> map_of outs run = Some r \<longrightarrow> map_of (l_gguf d) p = Some (r_adapter r))"

definition serves :: "export_args \<Rightarrow> outputs \<Rightarrow> string \<Rightarrow> lora_dir \<Rightarrow> bool" where
  "serves x outs p d \<longleftrightarrow>
     (\<exists>run r. chosen_run x outs p = Some run \<and> map_of outs run = Some r \<and> map_of (l_gguf d) p = Some (r_adapter r))"

lemma exported_from_write:
  "exported_from p (write_manifest q run loss d) = (if p = q then Some run else exported_from p d)"
  by (simp add: exported_from_def write_manifest_def)

lemma export_persona_true:
  assumes "export_persona x outs conv n d = (s, d')" and "manifest_true outs d"
  shows "manifest_true outs d'" and "s \<in> {Exported, AlreadyLive} \<Longrightarrow> serves x outs n d'"
    and "serves x outs p d \<Longrightarrow> serves x outs p d'"
proof -
  have "manifest_true outs d' \<and> (s \<in> {Exported, AlreadyLive} \<longrightarrow> serves x outs n d') \<and> (serves x outs p d \<longrightarrow> serves x outs p d')"
  proof (cases "chosen_run x outs n")
    case (Some run)
    show ?thesis
    proof (cases "map_of outs run")
      case (Some r)
      consider "d' = d" "s \<noteq> Exported" "s = AlreadyLive \<Longrightarrow> exported_from n d = Some run"
        | "d' = write_manifest n run (last_eval_loss r) (d\<lparr>l_gguf := dset n (r_adapter r) (l_gguf d)\<rparr>)"
        using assms(1) \<open>chosen_run x outs n = Some run\<close> Some
        by (auto simp: export_persona_def export_def split: if_splits)
      then show ?thesis
      proof cases
        case 1
        then show ?thesis using assms(2) Some \<open>chosen_run x outs n = Some run\<close>
          by (auto simp: manifest_true_def serves_def)
      next
        case 2
        have g: "map_of (l_gguf d') p = (if p = n then Some (r_adapter r) else map_of (l_gguf d) p)"
          "exported_from p d' = (if p = n then Some run else exported_from p d)" for p
          by (simp_all add: 2 exported_from_write) (simp_all add: write_manifest_def exported_from_def)
        show ?thesis using assms(2) Some \<open>chosen_run x outs n = Some run\<close>
          by (auto simp: manifest_true_def serves_def g)
      qed
    qed (use assms Some in \<open>auto simp: export_persona_def\<close>)
  qed (use assms in \<open>auto simp: export_persona_def\<close>)
  then show "manifest_true outs d'" and "s \<in> {Exported, AlreadyLive} \<Longrightarrow> serves x outs n d'"
    and "serves x outs p d \<Longrightarrow> serves x outs p d'" by blast+
qed

lemma export_loop_true:
  "export_loop x outs conv ns d = (rows, d') \<Longrightarrow> manifest_true outs d \<Longrightarrow>
   manifest_true outs d' \<and> (\<forall>p. serves x outs p d \<longrightarrow> serves x outs p d')
     \<and> (\<forall>(p, s)\<in>set rows. s \<in> {Exported, AlreadyLive} \<longrightarrow> serves x outs p d')"
proof (induction ns arbitrary: d rows)
  case (Cons n ns)
  obtain s d1 rs where e: "export_persona x outs conv n d = (s, d1)" "export_loop x outs conv ns d1 = (rs, d')" "rows = (n, s) # rs"
    using Cons.prems(1) by (auto simp: Let_def split: prod.splits)
  note one = export_persona_true [OF e(1) Cons.prems(2)]
  show ?case using Cons.IH [OF e(2) one(1)] one(2,3) e(3) by auto
qed simp

text \<open>
  C33: What \<open>export_latest\<close> reports is so: if the manifests told the truth before and no run is retrained in
  place, then afterwards every persona reported as exported or already live serves the adapter of the run
  that was asked for, or of its newest finished run, and the manifests still tell the truth.
\<close>

theorem reported_is_served:
  assumes "manifest_true outs d" and "export_latest x roster_file wanted outs conv d = (code, rows, d')"
    and "(persona, s) \<in> set rows" and "s = Exported \<or> s = AlreadyLive"
  shows "serves x outs persona d' \<and> manifest_true outs d'"
proof -
  obtain names where "export_loop x outs conv names d = (rows, d')"
    using assms(2,3) by (auto simp: export_latest_def Let_def split: sum.splits prod.splits if_splits)
  from export_loop_true [OF this assms(1)] show ?thesis using assms(3,4) by auto
qed

definition final_of :: outdir where
  "final_of = [(''final'', \<lparr>d_isdir = True, d_complete = True, d_whole = True\<rparr>)]"

definition run_of :: "real \<Rightarrow> nat \<Rightarrow> run_dir" where
  "run_of t a = \<lparr>r_isdir = True, r_files = final_of, r_marked = t, r_adapter = a, r_states = []\<rparr>"

definition bob_roster :: "json result option" where
  "bob_roster = Some (Inr (JObj [(''bob'', JObj [(''user_ids'', JStr ''1''), (''display_name'', JStr ''Bob'')])]))"

definition latest_args :: export_args where
  "latest_args = \<lparr>x_run = [], x_force = False, x_dry = False\<rparr>"

definition two_runs :: outputs where
  "two_runs = [(''bob-a'', run_of 1 11), (''bob-b'', run_of 2 22)]"

theorem reported_is_served_witness:
  "serves latest_args two_runs ''bob''
     (snd (snd (export_latest latest_args bob_roster [] two_runs (\<lambda>p. 0) \<lparr>l_gguf = [], l_manifest = []\<rparr>)))
   \<and> map_of (l_gguf (snd (snd (export_latest latest_args bob_roster [] two_runs (\<lambda>p. 0) \<lparr>l_gguf = [], l_manifest = []\<rparr>)))) ''bob'' = Some 22"
proof (rule conjI)
  have "export_latest latest_args bob_roster [] two_runs (\<lambda>p. 0) \<lparr>l_gguf = [], l_manifest = []\<rparr>
      = (0, [(''bob'', Exported)], \<lparr>l_gguf = [(''bob'', 22)], l_manifest = [(''bob'', Some \<lparr>m_source = ''bob-b'', m_loss = None\<rparr>)]\<rparr>)"
    by code_simp
  from reported_is_served [OF _ this, of "''bob''" Exported]
  show "serves latest_args two_runs ''bob''
     (snd (snd (export_latest latest_args bob_roster [] two_runs (\<lambda>p. 0) \<lparr>l_gguf = [], l_manifest = []\<rparr>)))"
    using \<open>export_latest _ _ _ _ _ _ = _\<close> by (simp add: manifest_true_def exported_from_def)
qed code_simp

text \<open>
  A rollback that is killed between the adapter and its manifest is not seen by the next call: it reports the
  newest run as live while the older one is served.
\<close>

lemma killed_rollback_hides:
  "let d = \<lparr>l_gguf = [(''bob'', 22)], l_manifest = [(''bob'', Some \<lparr>m_source = ''bob-b'', m_loss = None\<rparr>)]\<rparr>;
       killed = snd (export (run_of 1 11) ''bob'' 0 d)
   in export_latest latest_args bob_roster [] two_runs (\<lambda>p. 0) killed = (0, [(''bob'', AlreadyLive)], killed)
      \<and> map_of (l_gguf killed) ''bob'' = Some 11"
  by code_simp

text \<open>A run finished again in its own directory counts as already live, with the adapter of before.\<close>

lemma retrained_run_not_exported:
  "let d = snd (snd (export_latest latest_args bob_roster [] [(''bob'', run_of 1 11)] (\<lambda>p. 0) \<lparr>l_gguf = [], l_manifest = []\<rparr>))
   in export_latest latest_args bob_roster [] [(''bob'', run_of 2 22)] (\<lambda>p. 0) d = (0, [(''bob'', AlreadyLive)], d)
      \<and> map_of (l_gguf d) ''bob'' = Some 11"
  by code_simp

text \<open>The runs of a persona whose name goes on from another's with a hyphen are also that one's.\<close>

lemma foreign_run_chosen:
  "newest_finished [(''bob'', run_of 1 11), (''bob-junior'', run_of 2 22)] ''bob'' = Some ''bob-junior''"
  by code_simp

section \<open>The other scripts\<close>

text \<open>The roster is loaded exactly: every entry that is not a note, and only complete ones.\<close>

lemma roster_entries_exact:
  "roster_entries es r = Inr r' \<Longrightarrow>
   fst ` set r' = fst ` set r \<union> {p. p \<in> fst ` set es \<and> \<not> starts_with p ''_''}"
  by (induction es r rule: roster_entries.induct) (auto split: if_splits json.splits)

text \<open>One build for each persona asked for, in order, with success only if every build succeeded.\<close>

lemma builds_all:
  "build_all_datasets f wanted excluded out passed build = (code, results) \<Longrightarrow> results \<noteq> [] \<Longrightarrow>
   (\<exists>r. load_roster f = Inr r \<and> select_personas r wanted = Inr (map fst results))
   \<and> (code = 0 \<longleftrightarrow> (\<forall>(n, cmd, c)\<in>set results. c = 0))"
  by (auto simp: build_all_datasets_def Let_def list_ex_iff comp_def split: sum.splits if_splits)

text \<open>The tally is the count of the recorded winners.\<close>

lemma judge_prompt_tally:
  assumes "\<forall>m n. map_of tally m = Some n \<longrightarrow> n = count_list recorded m" and "judge_prompt order c (tally, recorded) = (tally', recorded')"
  shows "\<forall>m n. map_of tally' m = Some n \<longrightarrow> n = count_list recorded' m"
proof (cases "c = ''s''")
  case False
  define w where "w = (if c = ''t'' then ''tie'' else if c = ''1'' then fst order else snd order)"
  have j: "tally' = (if w \<in> fst ` set tally then dset w (dget tally w 0 + 1) tally else tally)" "recorded' = recorded @ [w]"
    using assms(2) False unfolding judge_prompt_def w_def [symmetric] by (auto simp: Let_def)
  show ?thesis
  proof (cases "map_of tally w")
    case None
    then have "tally' = tally" using j(1) by (simp add: map_of_eq_None_iff)
    then show ?thesis using assms(1) j(2) None by auto
  next
    case (Some n)
    then have "w \<in> fst ` set tally" by (metis map_of_eq_None_iff option.distinct(1))
    then show ?thesis using assms(1) j Some by (auto simp: dget_def)
  qed
qed (use assms in \<open>auto simp: judge_prompt_def\<close>)

lemma blind_session_tally:
  "blind_session orders answers (tally, recorded) = Some (tally', recorded') \<Longrightarrow>
   \<forall>m n. map_of tally m = Some n \<longrightarrow> n = count_list recorded m \<Longrightarrow>
   \<forall>m n. map_of tally' m = Some n \<longrightarrow> n = count_list recorded' m"
proof (induction orders arbitrary: answers tally recorded)
  case (Cons order orders)
  obtain c rest where a: "ask_choice answers = Some (c, rest)" using Cons.prems(1) by (auto split: option.splits)
  obtain t1 r1 where j: "judge_prompt order c (tally, recorded) = (t1, r1)" by force
  show ?case
    using Cons.IH [of rest t1 r1] judge_prompt_tally [OF Cons.prems(2) j] Cons.prems(1) a j by simp
qed simp

end
