(* ===== verification/Lora_Worker.thy ===== *)
theory Lora_Worker
  imports Prelude
begin

text \<open>
  The data side of \<open>lora-training/train_worker.py\<close>: the configuration, the choice of the examples, when to
  save, and the text an example is trained on. The chat template is the parameter \<open>render\<close>: it gives the
  text of a conversation, with the header of the next turn at the end when the flag is set. Reading a
  split of a file or of the hub is the parameter \<open>load\<close>.
\<close>

section \<open>Configuration\<close>

fun missing_key :: "string list \<Rightarrow> jobj \<Rightarrow> string option" where
  "missing_key [] cfg = None"
| "missing_key (k # ks) cfg = (if k \<in> fst ` set cfg then missing_key ks cfg else Some k)"

text \<open>\<open>required not in cfg\<close> on a file that holds something else than a mapping.\<close>

definition load_config :: "json \<Rightarrow> jobj result" where
  "load_config v =
     (case v of
        JObj cfg \<Rightarrow> if missing_key [''model'', ''dataset'', ''output_dir''] cfg = None then Inr cfg else Inl ValueError
      | JStr s \<Rightarrow> if list_all (\<lambda>k. sublist k s) [''model'', ''dataset'', ''output_dir''] then Inl TypeError else Inl ValueError
      | JList vs \<Rightarrow> if list_all (\<lambda>k. JStr k \<in> set vs) [''model'', ''dataset'', ''output_dir''] then Inl TypeError else Inl ValueError
      | _ \<Rightarrow> Inl TypeError)"

section \<open>Examples\<close>

datatype source = FromFile json | FromHub json json

type_synonym 'a splits = "'a list \<times> 'a list option"

text \<open>A limit of zero, or none, takes all; \<open>range(min(limit, n))\<close> of a negative one is empty.\<close>

definition limited :: "json \<Rightarrow> 'a list \<Rightarrow> 'a list result" where
  "limited limit ds =
     (if \<not> truthy limit then Inr ds
      else case limit of
             JInt n \<Rightarrow> Inr (take (nat (min n (int (length ds)))) ds)
           | JBool b \<Rightarrow> Inr (take 1 ds)
           | _ \<Rightarrow> Inl TypeError)"

definition build_dataset :: "(source \<Rightarrow> 'a list result) \<Rightarrow> jobj \<Rightarrow> 'a splits result" where
  "build_dataset load cfg =
     bindE (case dget cfg ''dataset'' JNull of
              JStr p \<Rightarrow> Inr [(''path'', JStr p)]
            | JObj spec \<Rightarrow> Inr spec
            | _ \<Rightarrow> Inl TypeError) (\<lambda>spec.
     bindE (case map_of spec ''path'' of
              Some p \<Rightarrow> load (FromFile p)
            | None \<Rightarrow> (case map_of spec ''hub'' of
                        Some h \<Rightarrow> load (FromHub h (dget spec ''split'' (JStr ''train'')))
                      | None \<Rightarrow> Inl ValueError)) (\<lambda>ds.
     bindE (limited (dget spec ''limit'' JNull) ds) (\<lambda>train.
     case map_of spec ''eval_path'' of
       None \<Rightarrow> Inr (train, None)
     | Some p \<Rightarrow> bindE (load (FromFile p)) (\<lambda>es. bindE (limited (dget spec ''eval_limit'' JNull) es) (\<lambda>ev.
                  Inr (train, Some ev))))))"

section \<open>Saving by the clock\<close>

record saver =
  v_interval :: real
  v_last :: real

definition saver_init :: "real \<Rightarrow> real \<Rightarrow> saver" where
  "saver_init minutes now = \<lparr>v_interval = minutes * 60, v_last = now\<rparr>"

definition should_save :: "real \<Rightarrow> saver \<Rightarrow> bool" where
  "should_save now v \<longleftrightarrow> now - v_last v \<ge> v_interval v"

text \<open>
  Steps at the given times; a step that is due saves, and the save is over at its second time. The times of
  the saves, newest first.
\<close>

fun save_times :: "(real \<times> real) list \<Rightarrow> saver \<Rightarrow> real list \<Rightarrow> real list" where
  "save_times [] v acc = acc"
| "save_times ((now, saved) # ts) v acc =
     (if should_save now v then save_times ts (v\<lparr>v_last := saved\<rparr>) (saved # acc) else save_times ts v acc)"

section \<open>As served\<close>

type_synonym msg = "string \<times> string"

definition REPLY_SENTINEL :: string where "REPLY_SENTINEL = ''REPLYSENTINEL7f3a9c''"

definition split_as_served :: "(msg list \<Rightarrow> bool \<Rightarrow> string) \<Rightarrow> msg list \<Rightarrow> msg list \<Rightarrow> (string \<times> string) result" where
  "split_as_served render prompt_msgs completion_msgs =
     (let prompt = render prompt_msgs True;
          full = render (prompt_msgs @ completion_msgs) False;
          probe = render (prompt_msgs @ [(''assistant'', REPLY_SENTINEL)]) False
      in case cut REPLY_SENTINEL probe of
           None \<Rightarrow> Inl ValueError
         | Some (header, rest) \<Rightarrow>
             if \<not> starts_with full header then Inl ValueError
             else Inr (prompt, drop (length header) full))"

definition render_as_served ::
  "(msg list \<Rightarrow> bool \<Rightarrow> string) \<Rightarrow> (msg list \<times> msg list) list \<Rightarrow> (string \<times> string) list result" where
  "render_as_served render ds = mapE (\<lambda>(p, c). split_as_served render p c) ds"

subsection \<open>What is trained on\<close>

text \<open>
  A template that puts a reply behind a header that depends on the conversation only, and something after
  it, both whatever the reply is.
\<close>

definition plain_template :: "(msg list \<Rightarrow> bool \<Rightarrow> string) \<Rightarrow> (msg list \<Rightarrow> string) \<Rightarrow> string \<Rightarrow> bool" where
  "plain_template render header after \<longleftrightarrow>
     (\<forall>ms reply. render (ms @ [(''assistant'', reply)]) False = header ms @ reply @ after)"

text \<open>
  With such a template, whatever it ends a prompt for generation with, the text trained on is the prompt
  as it is served followed by the reply and the end of the turn, for every reply. The only condition is that
  the conversation does not hold the sentinel.
\<close>

theorem trained_as_served:
  assumes "plain_template render header after" and "cut REPLY_SENTINEL (header ms @ REPLY_SENTINEL @ after) = Some (header ms, after)"
  shows "split_as_served render ms [(''assistant'', reply)] = Inr (render ms True, reply @ after)"
  using assms by (simp add: split_as_served_def plain_template_def starts_with_def)

definition small_template :: "msg list \<Rightarrow> bool \<Rightarrow> string" where
  "small_template ms gen =
     concat (map (\<lambda>(r, c). ''<'' @ r @ ''>'' @ c @ ''</>'') ms) @ (if gen then ''<assistant><think></think>'' else [])"

theorem trained_as_served_witness:
  "split_as_served small_template [(''user'', ''hi'')] [(''assistant'', ''<3'')]
     = Inr (small_template [(''user'', ''hi'')] True, ''<3'' @ ''</>'')
   \<and> small_template [(''user'', ''hi'')] True = ''<user>hi</><assistant><think></think>''"
proof (rule conjI)
  show "split_as_served small_template [(''user'', ''hi'')] [(''assistant'', ''<3'')]
     = Inr (small_template [(''user'', ''hi'')] True, ''<3'' @ ''</>'')"
    by (rule trained_as_served [where header = "\<lambda>ms. small_template ms False @ ''<assistant>''"])
      (simp add: plain_template_def small_template_def, code_simp)
qed code_simp

text \<open>
  Whatever the template does: if an example is accepted, header and completion together are the joined
  rendering, so no character of the reply is lost.
\<close>

lemma completion_is_rest:
  "split_as_served render ms cs = Inr (p, c) \<Longrightarrow> \<exists>h. render (ms @ cs) False = h @ c \<and> p = render ms True"
  by (auto simp: split_as_served_def starts_with_def Let_def prefix_def split: option.splits if_splits)

text \<open>Between two steps that save nothing because none is due, no more than the interval passes.\<close>

lemma unsaved_work_bounded:
  assumes "\<not> should_save now v" shows "now < v_last v + v_interval v"
  using assms by (simp add: should_save_def)

lemma save_times_spaced:
  assumes "\<forall>(a, b)\<in>set ts. a \<le> b" and "acc \<noteq> [] \<Longrightarrow> hd acc = v_last v" and "sorted_wrt (\<lambda>x y. x \<ge> y + v_interval v) acc"
    and "0 < v_interval v"
  shows "sorted_wrt (\<lambda>x y. x \<ge> y + v_interval v) (save_times ts v acc)"
  using assms
proof (induction ts arbitrary: v acc)
  case (Cons t ts)
  obtain a b where t: "t = (a, b)" "a \<le> b" using Cons.prems(1) by (cases t) auto
  show ?case
  proof (cases "should_save a v")
    case True
    have "y + v_interval v \<le> b" if "y \<in> set acc" for y
    proof -
      have "y \<le> v_last v"
        using that Cons.prems(2,3,4) by (cases acc) fastforce+
      then show ?thesis using True t(2) by (simp add: should_save_def)
    qed
    then show ?thesis using Cons.IH [of "b # acc" "v\<lparr>v_last := b\<rparr>"] Cons.prems True t by simp
  next
    case False
    then show ?thesis using Cons.IH [of acc v] Cons.prems t by simp
  qed
qed simp

text \<open>A conversation that holds the sentinel is cut in its own text: the completion begins there.\<close>

lemma sentinel_in_conversation:
  "split_as_served small_template [(''user'', ''a'' @ REPLY_SENTINEL)] [(''assistant'', ''b'')]
     = Inr (small_template [(''user'', ''a'' @ REPLY_SENTINEL)] True, REPLY_SENTINEL @ ''</><assistant>b</>'')"
  by code_simp

end
