(* ===== verification/Lora_Supervisor.thy ===== *)
theory Lora_Supervisor
  imports Prelude
begin

text \<open>
  \<open>lora-training/supervisor.py\<close>: the process that holds the trainer's lease. The main thread is
  cut where it waits (\<open>sup_pc\<close>); the reclaim-notice thread of the current worker is the flag
  \<open>v_notice\<close> (inside the blocking call) and the shared event \<open>v_wanted\<close>; the worker is a child
  process. Signals arrive at any time. What the arbiter, the child and the clock do are events;
  \<open>v_log\<close> is what the supervisor does to the outside.
\<close>

section \<open>State\<close>

datatype child = Running | Exited int

datatype sup_pc =
    VAsk nat              \<comment> \<open>in \<open>client.acquire()\<close>, refusals so far\<close>
  | VSleep nat            \<comment> \<open>sleeping before the next question\<close>
  | VPoll                 \<comment> \<open>the loop of \<open>run_worker\<close>\<close>
  | VWait                 \<comment> \<open>\<open>child.wait()\<close> after the kill\<close>
  | VRelease int          \<comment> \<open>in \<open>client.release()\<close> after a worker with this exit code\<close>
  | VFinal int            \<comment> \<open>in the last \<open>client.release()\<close>, with the result\<close>
  | VExit int

datatype action = LAsk | LGranted | LSpawn | LKill | LRelease

record sup =
  v_stopping :: bool
  v_child :: "child option"
  v_wanted :: bool
  v_notice :: bool
  v_pc :: sup_pc
  v_codes :: "int list"
  v_log :: "action list"

definition SIGKILLED :: int where
  "SIGKILLED = -9"

definition log_action :: "action \<Rightarrow> sup \<Rightarrow> sup" where
  "log_action a s = s\<lparr>v_log := v_log s @ [a]\<rparr>"

section \<open>The operations\<close>

text \<open>The \<open>finally\<close> of \<open>run\<close>: every way out releases the lease.\<close>

definition leave :: "int \<Rightarrow> sup \<Rightarrow> sup" where
  "leave code s = log_action LRelease (s\<lparr>v_pc := VFinal code\<rparr>)"

text \<open>The head of the loop of \<open>run\<close>, and of the loop of \<open>wait_for_gpu\<close> it enters.\<close>

definition ask :: "nat \<Rightarrow> sup \<Rightarrow> sup" where
  "ask n s = (if v_stopping s then leave 0 s else log_action LAsk (s\<lparr>v_pc := VAsk n\<rparr>))"

definition sup_init :: sup where
  "sup_init = ask 0 \<lparr>v_stopping = False, v_child = None, v_wanted = False, v_notice = False,
     v_pc = VExit 0, v_codes = [], v_log = []\<rparr>"

text \<open>\<open>run_worker\<close> up to its loop; the notice thread checks both flags before its first call.\<close>

definition spawn :: "sup \<Rightarrow> sup" where
  "spawn s = log_action LSpawn
     (s\<lparr>v_child := Some Running, v_wanted := False, v_notice := \<not> v_stopping s, v_pc := VPoll\<rparr>)"

text \<open>\<open>wait_for_gpu\<close>; \<open>None\<close> is an answer that makes the client raise.\<close>

definition acquire_reply :: "bool option \<Rightarrow> sup \<Rightarrow> sup" where
  "acquire_reply granted s =
     (case v_pc s of
        VAsk n \<Rightarrow>
          (case granted of
             None \<Rightarrow> leave 1 s
           | Some True \<Rightarrow> spawn (log_action LGranted s)
           | Some False \<Rightarrow> s\<lparr>v_pc := VSleep (Suc n)\<rparr>)
      | _ \<Rightarrow> s)"

definition slept :: "sup \<Rightarrow> sup" where
  "slept s = (case v_pc s of VSleep n \<Rightarrow> ask n s | _ \<Rightarrow> s)"

text \<open>\<open>watch_for_reclaim\<close>: the blocking call returns.\<close>

definition notice_reply :: "bool \<Rightarrow> sup \<Rightarrow> sup" where
  "notice_reply wanted s =
     (if \<not> v_notice s then s
      else if wanted then s\<lparr>v_wanted := True, v_notice := False\<rparr>
      else s\<lparr>v_notice := \<not> v_wanted s \<and> \<not> v_stopping s\<rparr>)"

definition child_exits :: "int \<Rightarrow> sup \<Rightarrow> sup" where
  "child_exits code s = (if v_child s = Some Running then s\<lparr>v_child := Some (Exited code)\<rparr> else s)"

text \<open>The worker is over: the \<open>finally\<close> of \<open>run_worker\<close> and the release that follows it.\<close>

definition worker_over :: "int \<Rightarrow> sup \<Rightarrow> sup" where
  "worker_over code s =
     log_action LRelease
       (s\<lparr>v_child := None, v_wanted := True, v_pc := VRelease code, v_codes := v_codes s @ [code]\<rparr>)"

text \<open>One turn of the polling loop, or the return of \<open>wait()\<close>.\<close>

definition poll_child :: "sup \<Rightarrow> sup" where
  "poll_child s =
     (case (v_pc s, v_child s) of
        (VPoll, Some (Exited code)) \<Rightarrow> worker_over code s
      | (VPoll, Some Running) \<Rightarrow> if v_wanted s then log_action LKill (s\<lparr>v_pc := VWait\<rparr>) else s
      | (VWait, Some (Exited code)) \<Rightarrow> worker_over code s
      | _ \<Rightarrow> s)"

definition request_shutdown :: "sup \<Rightarrow> sup" where
  "request_shutdown s =
     (let s' = s\<lparr>v_stopping := True\<rparr> in
      if v_child s = Some Running then log_action LKill s' else s')"

text \<open>The release has been sent: what \<open>run\<close> makes of the exit code.\<close>

definition released :: "sup \<Rightarrow> sup" where
  "released s =
     (case v_pc s of
        VRelease code \<Rightarrow>
          if code = 0 then leave 0 s
          else if code = SIGKILLED then ask 0 s
          else if v_stopping s then leave 0 s
          else leave (if code > 0 then code else 1) s
      | VFinal code \<Rightarrow> s\<lparr>v_pc := VExit code\<rparr>
      | _ \<Rightarrow> s)"

datatype sup_event =
    AcquireReply "bool option"
  | Slept
  | NoticeReply bool
  | ChildExits int
  | PollChild
  | Signal
  | Released

fun sup_step :: "sup_event \<Rightarrow> sup \<Rightarrow> sup" where
  "sup_step (AcquireReply g) s = acquire_reply g s"
| "sup_step Slept s = slept s"
| "sup_step (NoticeReply w) s = notice_reply w s"
| "sup_step (ChildExits c) s = child_exits c s"
| "sup_step PollChild s = poll_child s"
| "sup_step Signal s = request_shutdown s"
| "sup_step Released s = released s"

definition sup_run :: "sup_event list \<Rightarrow> sup \<Rightarrow> sup" where
  "sup_run es s = fold sup_step es s"

lemma sup_run_simps [simp]:
  "sup_run [] s = s" "sup_run (e # es) s = sup_run es (sup_step e s)"
  "sup_run (es @ es') s = sup_run es' (sup_run es s)"
  by (simp_all add: sup_run_def)

section \<open>The lease and the worker\<close>

text \<open>What the log says of the lease: granted and not yet released.\<close>

fun lease_after :: "action \<Rightarrow> bool \<Rightarrow> bool" where
  "lease_after LGranted held = True"
| "lease_after LRelease held = False"
| "lease_after a held = held"

definition lease_of :: "action list \<Rightarrow> bool" where
  "lease_of as = fold lease_after as False"

lemma lease_of_append [simp]:
  "lease_of [] = False" "lease_of (as @ bs) = fold lease_after bs (lease_of as)"
  by (simp_all add: lease_of_def)

text \<open>
  There is a worker exactly in the two states of \<open>run_worker\<close>, and then the lease is held; the
  exit codes that can lead out of the loop are those of workers.
\<close>

definition sup_inv :: "sup \<Rightarrow> bool" where
  "sup_inv s \<longleftrightarrow> (v_child s \<noteq> None \<longleftrightarrow> v_pc s = VPoll \<or> v_pc s = VWait)
     \<and> (lease_of (v_log s) \<longleftrightarrow> v_child s \<noteq> None)
     \<and> (case v_pc s of
          VRelease c \<Rightarrow> v_codes s \<noteq> [] \<and> last (v_codes s) = c
        | _ \<Rightarrow> True)"

lemmas sup_defs = acquire_reply_def slept_def notice_reply_def child_exits_def poll_child_def
  request_shutdown_def released_def ask_def leave_def spawn_def worker_over_def log_action_def

lemma sup_step_inv: "sup_inv s \<Longrightarrow> sup_inv (sup_step e s)"
  by (cases e; cases "v_pc s"; cases "v_child s")
    (auto simp: sup_inv_def sup_defs Let_def split: option.splits bool.splits child.splits)

lemma sup_init_inv: "sup_inv sup_init"
  by (simp add: sup_init_def sup_inv_def sup_defs) (simp add: lease_of_def)

interpretation sup: machine sup_step sup_inv "\<lambda>s. s = sup_init"
  by unfold_locales (simp_all add: sup_init_inv sup_step_inv)

lemma sup_run_inv: "sup_inv (sup_run es sup_init)"
  unfolding sup_run_def by (rule sup.run_inv) simp

section \<open>Properties\<close>

text \<open>
  C23: The card is given back only over a dead worker. While the training process runs the lease
  is held; and a step that tells the arbiter to take the lease back happens with no worker, or
  with one whose exit the supervisor has just seen, and leaves none.
\<close>

theorem release_after_exit:
  assumes "s = sup_run es sup_init" and "s' = sup_step e s"
  shows "(v_child s = Some Running \<longrightarrow> lease_of (v_log s))
    \<and> (count_list (v_log s') LRelease \<noteq> count_list (v_log s) LRelease
         \<longrightarrow> v_child s \<noteq> Some Running \<and> v_child s' = None)"
proof -
  have i: "sup_inv s" and i': "sup_inv s'"
    using sup_run_inv [of es] sup_run_inv [of "es @ [e]"] assms by simp_all
  show ?thesis
    using i i' assms(2)
    by (cases e; cases "v_pc s"; cases "v_child s")
      (auto simp: sup_inv_def sup_defs Let_def split: option.splits bool.splits child.splits if_splits)
qed

theorem release_after_exit_witness:
  "let s = sup_run [AcquireReply (Some True), NoticeReply True, PollChild, ChildExits (-9)] sup_init
   in lease_of (v_log s) \<and> count_list (v_log (sup_step PollChild s)) LRelease = 1
      \<and> v_child (sup_step PollChild s) = None"
proof -
  let ?es = "[AcquireReply (Some True), NoticeReply True, PollChild, ChildExits (-9)]"
  let ?s = "sup_run ?es sup_init"
  have h: "lease_of (v_log ?s)" "count_list (v_log ?s) LRelease = 0"
    "count_list (v_log (sup_step PollChild ?s)) LRelease = 1"
    by (simp_all add: sup_init_def sup_defs lease_of_def)
  show ?thesis
    unfolding Let_def using release_after_exit [of ?s ?es "sup_step PollChild ?s" PollChild] h by simp
qed

definition asks_again :: "sup \<Rightarrow> bool" where
  "asks_again s \<longleftrightarrow> v_pc s = VAsk 0"

text \<open>
  A preemption does not end the run, and a failure does. A worker that was killed sends the
  supervisor back to asking (unless it is shutting down); the supervisor ends with a code other
  than 0 only if its last worker failed by itself with that code (1 for a signal), or if an
  answer of the arbiter could not be read.
\<close>

theorem exit_code_meaning:
  assumes "s = sup_run es sup_init" and "s' = sup_step e s"
  shows "(v_pc s = VRelease SIGKILLED \<and> \<not> v_stopping s \<and> e = Released \<longrightarrow> asks_again s')
    \<and> (\<forall>c. v_pc s' = VFinal c \<and> v_pc s \<noteq> VFinal c \<and> c \<noteq> 0 \<longrightarrow>
         e = AcquireReply None \<and> c = 1
         \<or> (\<exists>k. v_codes s \<noteq> [] \<and> last (v_codes s) = k \<and> k \<noteq> 0 \<and> k \<noteq> SIGKILLED
                \<and> c = (if k > 0 then k else 1) \<and> \<not> v_stopping s))"
proof -
  have i: "sup_inv s" using sup_run_inv [of es] assms by simp
  show ?thesis
    using i assms(2)
    by (cases e; cases "v_pc s"; cases "v_child s")
      (auto simp: sup_inv_def sup_defs asks_again_def SIGKILLED_def Let_def
        split: option.splits bool.splits child.splits if_splits)
qed

theorem exit_code_meaning_witness:
  "asks_again (sup_run [AcquireReply (Some True), NoticeReply True, PollChild, ChildExits (-9),
      PollChild, Released] sup_init)"
proof -
  let ?es = "[AcquireReply (Some True), NoticeReply True, PollChild, ChildExits (-9), PollChild]"
  let ?s = "sup_run ?es sup_init"
  have "v_pc ?s = VRelease SIGKILLED" "\<not> v_stopping ?s"
    by (simp_all add: sup_init_def sup_defs SIGKILLED_def)
  then have "asks_again (sup_step Released ?s)"
    using exit_code_meaning [of ?s ?es "sup_step Released ?s" Released] by simp
  then show ?thesis by simp
qed

text \<open>
  A shutdown that arrives while the supervisor is asking for the card is lost. If that
  question is then granted, the worker is started all the same, nobody kills it, and its
  reclaim-notice thread never starts to listen: neither another turn of the loop nor anything the
  arbiter may say stops it.
\<close>

theorem shutdown_lost:
  "let s = sup_run [Signal, AcquireReply (Some True)] sup_init
   in v_stopping s \<and> v_child s = Some Running \<and> LKill \<notin> set (v_log s)
      \<and> sup_step PollChild s = s \<and> sup_step (NoticeReply w) s = s"
  by (simp add: sup_init_def sup_defs)

end
