(* ===== verification/Jsonl_Store.thy ===== *)
theory Jsonl_Store
  imports Prelude
begin

text \<open>
  \<open>history-service/jsonl_store.py\<close>: the per-user archive. A file is the list of its lines; a line
  is a record, or text that is not JSON (\<open>Torn\<close>), which every reader skips. The module's cache of
  known ids is part of the state; it is the very set \<open>append_messages\<close> iterates with, so an id is
  in the cache as soon as its line was handed to \<open>write\<close>. One line holds one record because
  \<open>json.dumps\<close> escapes line ends.

  Writes may fail: \<open>fault\<close> gives the number of writes handed over before the \<open>IOError\<close> and the
  number of those that reached the disk. Message ids are strings, as the parser makes them. The
  lock makes each operation one step.
\<close>

section \<open>State\<close>

datatype line = Rec jobj | Torn

record store =
  st_files :: "(string \<times> line list) list"
  st_cache :: "(string \<times> string list) list"

type_synonym fault = "(nat \<times> nat) option"

text \<open>\<open>record.get("message_id")\<close> when it is a non-empty string.\<close>

definition message_id :: "jobj \<Rightarrow> string option" where
  "message_id r = (case map_of r ''message_id'' of Some (JStr s) \<Rightarrow> if s = [] then None else Some s | _ \<Rightarrow> None)"

fun line_ids :: "line list \<Rightarrow> string list" where
  "line_ids [] = []"
| "line_ids (Torn # ls) = line_ids ls"
| "line_ids (Rec r # ls) = (case message_id r of None \<Rightarrow> line_ids ls | Some i \<Rightarrow> i # line_ids ls)"

definition file_of :: "string \<Rightarrow> store \<Rightarrow> line list" where
  "file_of u s = dget (st_files s) u []"

definition cache_of :: "string \<Rightarrow> store \<Rightarrow> string list" where
  "cache_of u s = dget (st_cache s) u []"

section \<open>Operations\<close>

text \<open>After this the user is in the cache; the cached set is a list in which only membership counts.\<close>

definition load_existing_ids :: "string \<Rightarrow> store \<Rightarrow> store" where
  "load_existing_ids u s =
     (if map_of (st_cache s) u \<noteq> None then s
      else s\<lparr>st_cache := dset u (line_ids (file_of u s)) (st_cache s)\<rparr>)"

definition add_to_cache :: "string \<Rightarrow> string list \<Rightarrow> store \<Rightarrow> store" where
  "add_to_cache u ids s = s\<lparr>st_cache := dset u (cache_of u s @ ids) (st_cache s)\<rparr>"

definition append_lines :: "string \<Rightarrow> line list \<Rightarrow> store \<Rightarrow> store" where
  "append_lines u ls s = s\<lparr>st_files := dset u (file_of u s @ ls) (st_files s)\<rparr>"

definition append_message :: "string \<Rightarrow> jobj \<Rightarrow> fault \<Rightarrow> store \<Rightarrow> store \<times> bool" where
  "append_message u r fault s =
     (case message_id r of
        None \<Rightarrow> (s, False)
      | Some i \<Rightarrow>
          let s1 = load_existing_ids u s in
          if i \<in> set (cache_of u s1) then (s1, False)
          else case fault of
                 None \<Rightarrow> (add_to_cache u [i] (append_lines u [Rec r] s1), True)
               | Some (k, d) \<Rightarrow> (append_lines u (take d [Rec r]) s1, False))"

text \<open>The loop of \<open>append_messages\<close>: the records whose id is not known yet, with the set growing.\<close>

fun fresh_records :: "string list \<Rightarrow> jobj list \<Rightarrow> jobj list" where
  "fresh_records known [] = []"
| "fresh_records known (r # rs) =
     (case message_id r of
        None \<Rightarrow> fresh_records known rs
      | Some i \<Rightarrow> if i \<in> set known then fresh_records known rs
                  else r # fresh_records (known @ [i]) rs)"

definition append_messages :: "string \<Rightarrow> jobj list \<Rightarrow> fault \<Rightarrow> store \<Rightarrow> store \<times> nat" where
  "append_messages u rs fault s =
     (if rs = [] then (s, 0)
      else let s1 = load_existing_ids u s;
               new = fresh_records (cache_of u s1) rs
           in case fault of
                None \<Rightarrow>
                  (add_to_cache u (line_ids (map Rec new)) (append_lines u (map Rec new) s1), length new)
              | Some (k, d) \<Rightarrow>
                  (let done = take k new in
                   (add_to_cache u (line_ids (map Rec done))
                      (append_lines u (map Rec (take (min d k) new)) s1), length done)))"

definition get_message_count :: "string \<Rightarrow> store \<Rightarrow> nat" where
  "get_message_count u s = length (file_of u s)"

fun line_records :: "line list \<Rightarrow> jobj list" where
  "line_records [] = []"
| "line_records (Torn # ls) = line_records ls"
| "line_records (Rec r # ls) = r # line_records ls"

text \<open>A reading error ends the loop with the records read so far.\<close>

definition load_all_records :: "string \<Rightarrow> nat option \<Rightarrow> store \<Rightarrow> jobj list" where
  "load_all_records u fails_after s =
     line_records (case fails_after of None \<Rightarrow> file_of u s | Some n \<Rightarrow> take n (file_of u s))"

text \<open>Write to a temporary file, then rename: all or nothing.\<close>

definition rewrite_archive :: "string \<Rightarrow> jobj list \<Rightarrow> bool \<Rightarrow> store \<Rightarrow> store" where
  "rewrite_archive u rs ok s = (if ok then s\<lparr>st_files := dset u (map Rec rs) (st_files s)\<rparr> else s)"

definition update_records ::
  "string \<Rightarrow> (jobj list \<Rightarrow> jobj list \<times> bool) \<Rightarrow> nat option \<Rightarrow> bool \<Rightarrow> store \<Rightarrow> store \<times> bool" where
  "update_records u apply_fn fails_after ok s =
     (let rs = load_all_records u fails_after s in
      if rs = [] then (s, False)
      else let (rs', changed) = apply_fn rs in
           if changed then (rewrite_archive u rs' ok s, True) else (s, False))"

text \<open>
  \<open>refresh_fields\<close>: one record brought in line with its fresh parse, and whether that changed
  it (values compared structurally, an absent field as \<open>None\<close>).
\<close>

definition refresh_record :: "string list \<Rightarrow> jobj \<Rightarrow> jobj \<Rightarrow> jobj" where
  "refresh_record fs new r =
     fold (\<lambda>f r. case map_of new f of Some v \<Rightarrow> dset f v r | None \<Rightarrow> dpop f r) fs r"

definition record_changed :: "string list \<Rightarrow> jobj \<Rightarrow> jobj \<Rightarrow> bool" where
  "record_changed fs r r' \<longleftrightarrow> (\<exists>f\<in>set fs. dget r f JNull \<noteq> dget r' f JNull)"

definition str_id :: "jobj \<Rightarrow> string" where
  "str_id r = (case map_of r ''message_id'' of Some (JStr s) \<Rightarrow> s | _ \<Rightarrow> ''None'')"

text \<open>The dict \<open>fresh\<close>: a later record of the same id replaces an earlier one.\<close>

definition fresh_by_id :: "jobj list \<Rightarrow> (string \<times> jobj) list" where
  "fresh_by_id parsed = fold (\<lambda>r d. case message_id r of None \<Rightarrow> d | Some i \<Rightarrow> dset i r d) parsed []"

definition refresh_all :: "(string \<times> jobj) list \<Rightarrow> string list \<Rightarrow> jobj list \<Rightarrow> jobj list" where
  "refresh_all fresh fs rs =
     map (\<lambda>r. case map_of fresh (str_id r) of None \<Rightarrow> r | Some new \<Rightarrow> refresh_record fs new r) rs"

definition count_changed :: "(string \<times> jobj) list \<Rightarrow> string list \<Rightarrow> jobj list \<Rightarrow> nat" where
  "count_changed fresh fs rs =
     length (filter (\<lambda>r. case map_of fresh (str_id r) of None \<Rightarrow> False
                       | Some new \<Rightarrow> record_changed fs r (refresh_record fs new r)) rs)"

definition refresh_fields ::
  "string \<Rightarrow> jobj list \<Rightarrow> string list \<Rightarrow> nat option \<Rightarrow> bool \<Rightarrow> store \<Rightarrow> store \<times> nat" where
  "refresh_fields u parsed fs fails_after ok s =
     (let fresh = fresh_by_id parsed in
      (fst (update_records u (\<lambda>rs. (refresh_all fresh fs rs, count_changed fresh fs rs > 0))
              fails_after ok s),
       count_changed fresh fs (load_all_records u fails_after s)))"

definition clear_all :: "store \<Rightarrow> store \<times> nat" where
  "clear_all s = (\<lparr>st_files = [], st_cache = []\<rparr>, length (st_files s))"

text \<open>\<open>get_pending_captions\<close>: user, record, index and attachment, up to a limit of at least 1.\<close>

definition pending_of :: "string \<Rightarrow> jobj \<Rightarrow> (string \<times> jobj \<times> nat \<times> jobj) list" where
  "pending_of u r =
     (case dget r ''attachments'' (JList []) of
        JList as \<Rightarrow>
          concat (map (\<lambda>(i, a). case a of
              JObj kvs \<Rightarrow> if dget kvs ''caption_status'' JNull = JStr ''pending'' then [(u, r, i, kvs)] else []
            | _ \<Rightarrow> []) (enumerate 0 as))
      | _ \<Rightarrow> [])"

definition get_pending_captions :: "nat \<Rightarrow> store \<Rightarrow> (string \<times> jobj \<times> nat \<times> jobj) list" where
  "get_pending_captions limit s =
     take (max 1 limit)
       (concat (map (\<lambda>(u, ls). concat (map (pending_of u) (line_records ls))) (st_files s)))"

section \<open>The archive invariant\<close>

text \<open>
  No user's file holds an id twice, and for every user in the cache, the cached set is the set of
  the ids in the file.
\<close>

definition store_ok :: "store \<Rightarrow> bool" where
  "store_ok s \<longleftrightarrow> (\<forall>u. distinct (line_ids (file_of u s)))
     \<and> (\<forall>u c. map_of (st_cache s) u = Some c \<longrightarrow> set c = set (line_ids (file_of u s)))"

lemma line_ids_append [simp]: "line_ids (xs @ ys) = line_ids xs @ line_ids ys"
  by (induction xs rule: line_ids.induct) (auto split: option.splits)

lemma file_of_simps [simp]:
  "file_of u (append_lines v ls s) = (if u = v then file_of u s @ ls else file_of u s)"
  "file_of u (add_to_cache v ids s) = file_of u s" "file_of u (load_existing_ids v s) = file_of u s"
  by (auto simp: file_of_def append_lines_def add_to_cache_def load_existing_ids_def dget_def)

lemma cache_simps [simp]:
  "st_cache (append_lines v ls s) = st_cache s"
  "map_of (st_cache (add_to_cache v ids s)) u = (if u = v then Some (cache_of v s @ ids) else map_of (st_cache s) u)"
  "cache_of u (append_lines v ls s) = cache_of u s"
  by (auto simp: append_lines_def add_to_cache_def cache_of_def)

lemma load_ok: "store_ok s \<Longrightarrow> store_ok (load_existing_ids u s)"
  by (auto simp: store_ok_def load_existing_ids_def file_of_def split: if_splits)

lemma load_cached:
  assumes "store_ok s" shows "set (cache_of u (load_existing_ids u s)) = set (line_ids (file_of u s))"
  using assms by (cases "map_of (st_cache s) u")
    (auto simp: store_ok_def load_existing_ids_def cache_of_def dget_def)

lemma fresh_records_ids:
  "distinct (line_ids (map Rec (fresh_records known rs)))
   \<and> set (line_ids (map Rec (fresh_records known rs))) \<inter> set known = {}
   \<and> set (line_ids (map Rec (fresh_records known rs))) \<union> set known
      = set (line_ids (map Rec rs)) \<union> set known
   \<and> length (line_ids (map Rec (fresh_records known rs))) = length (fresh_records known rs)"
proof (induction known rs rule: fresh_records.induct)
  case (2 known r rs)
  then show ?case by (cases "message_id r") (auto split: if_splits)
qed simp

lemma append_messages_ok:
  assumes ok: "store_ok s" and r: "append_messages u rs None s = (s', n)"
  shows "store_ok s'" "set (line_ids (file_of u s')) = set (line_ids (file_of u s)) \<union> set (line_ids (map Rec rs))"
    "length (line_ids (file_of u s')) = length (line_ids (file_of u s)) + n"
    "u' \<noteq> u \<Longrightarrow> file_of u' s' = file_of u' s"
proof -
  let ?s1 = "load_existing_ids u s"
  let ?new = "fresh_records (cache_of u ?s1) rs"
  note f = fresh_records_ids [of "cache_of u ?s1" rs]
  have c: "set (cache_of u ?s1) = set (line_ids (file_of u s))" by (rule load_cached [OF ok])
  have s': "rs \<noteq> [] \<Longrightarrow> s' = add_to_cache u (line_ids (map Rec ?new)) (append_lines u (map Rec ?new) ?s1)"
    "rs \<noteq> [] \<Longrightarrow> n = length ?new" "rs = [] \<Longrightarrow> s' = s \<and> n = 0"
    using r by (auto simp: append_messages_def Let_def)
  have d: "distinct (line_ids (file_of u s))" using ok by (simp add: store_ok_def)
  have "store_ok s' \<and> set (line_ids (file_of u s')) = set (line_ids (file_of u s)) \<union> set (line_ids (map Rec rs))
      \<and> length (line_ids (file_of u s')) = length (line_ids (file_of u s)) + n
      \<and> (u' \<noteq> u \<longrightarrow> file_of u' s' = file_of u' s)"
  proof (cases "rs = []")
    case True
    then show ?thesis using s' ok by simp
  next
    case False
    have "store_ok ?s1" by (rule load_ok [OF ok])
    then have "store_ok s'"
      using s' False f c d by (auto simp: store_ok_def)
    then show ?thesis using s' False f c by auto
  qed
  then show "store_ok s'" "set (line_ids (file_of u s')) = set (line_ids (file_of u s)) \<union> set (line_ids (map Rec rs))"
    "length (line_ids (file_of u s')) = length (line_ids (file_of u s)) + n"
    "u' \<noteq> u \<Longrightarrow> file_of u' s' = file_of u' s" by blast+
qed


definition rec_with :: "string \<Rightarrow> jobj" where
  "rec_with i = [(''message_id'', JStr i)]"

lemmas store_simps = append_messages_def load_existing_ids_def add_to_cache_def append_lines_def
  file_of_def cache_of_def dget_def rec_with_def message_id_def Let_def


text \<open>
  A failed write loses messages for the life of the process. The ids of a batch are in the
  cache before its lines are on disk, so when the disk fills up the messages that did not make it
  are taken for archived: the retry, with the disk working again, reports 0 new messages and
  writes nothing, although the file does not hold them.
\<close>

theorem failed_append_forgets:
  "let s = \<lparr>st_files = [], st_cache = []\<rparr>;
       rs = [rec_with ''1'', rec_with ''2''];
       (s1, n1) = append_messages ''u'' rs (Some (2, 0)) s;
       (s2, n2) = append_messages ''u'' rs None s1
   in n1 = 2 \<and> n2 = 0 \<and> file_of ''u'' s2 = []"
  by code_simp

subsection \<open>Refreshing\<close>

lemma refresh_other: "f \<notin> set fs \<Longrightarrow> map_of (refresh_record fs new r) f = map_of r f"
  unfolding refresh_record_def
  by (induction fs arbitrary: r) (auto split: option.splits)

lemma refresh_field: "f \<in> set fs \<Longrightarrow> map_of (refresh_record fs new r) f = map_of new f"
proof (induction fs arbitrary: r)
  case (Cons g fs)
  show ?case
  proof (cases "f \<in> set fs")
    case True
    then show ?thesis using Cons by (simp add: refresh_record_def)
  next
    case False
    then show ?thesis
      using Cons.prems refresh_other [OF False]
      by (auto simp: refresh_record_def split: option.splits)
  qed
qed simp

lemma line_records_Rec [simp]: "line_records (map Rec rs) = rs"
  by (induction rs) auto

lemma file_of_rewrite: "file_of v (rewrite_archive u rs ok s)
    = (if ok \<and> v = u then map Rec rs else file_of v s)"
  by (auto simp: rewrite_archive_def file_of_def dget_def)

text \<open>
  A refresh touches only what the parser owns. Whatever file it finds, the refreshed archive
  has the same records in the same order, and each keeps every field outside the given list,
  attachments and captions above all; a record with a fresh parse has exactly the parse's values
  in the listed fields, and every other record is as it was.
\<close>

theorem refresh_only_owned:
  assumes "refresh_fields u parsed fs None True s = (s', n)" and "''message_id'' \<notin> set fs"
  shows "length (line_records (file_of u s')) = length (line_records (file_of u s))
    \<and> (\<forall>i < length (line_records (file_of u s)).
         let r = line_records (file_of u s) ! i; r' = line_records (file_of u s') ! i in
         message_id r' = message_id r
         \<and> (\<forall>f. f \<notin> set fs \<longrightarrow> map_of r' f = map_of r f)
         \<and> (n > 0 \<longrightarrow> (\<forall>f\<in>set fs. map_of r' f =
               (case map_of (fresh_by_id parsed) (str_id r) of None \<Rightarrow> map_of r f
                | Some new \<Rightarrow> map_of new f))))"
proof -
  let ?fresh = "fresh_by_id parsed" and ?rs = "line_records (file_of u s)"
  have n: "n = count_changed ?fresh fs ?rs"
    using assms(1) by (simp add: refresh_fields_def load_all_records_def Let_def)
  have s': "line_records (file_of u s') = (if n > 0 then refresh_all ?fresh fs ?rs else ?rs)"
    using assms(1) n
    by (auto simp: refresh_fields_def update_records_def load_all_records_def file_of_rewrite Let_def
        count_changed_def)
  have one: "map_of (case map_of ?fresh (str_id r) of None \<Rightarrow> r | Some new \<Rightarrow> refresh_record fs new r) f
      = (if f \<in> set fs then (case map_of ?fresh (str_id r) of None \<Rightarrow> map_of r f | Some new \<Rightarrow> map_of new f)
         else map_of r f)" for r f
    by (simp add: refresh_other refresh_field split: option.split)
  show ?thesis
  proof (cases "n > 0")
    case True
    then have nth: "i < length ?rs \<Longrightarrow> line_records (file_of u s') ! i
        = (case map_of ?fresh (str_id (?rs ! i)) of None \<Rightarrow> ?rs ! i
           | Some new \<Rightarrow> refresh_record fs new (?rs ! i))" for i
      using s' by (simp add: refresh_all_def)
    show ?thesis
      using True s' assms(2)
      by (simp add: Let_def nth one message_id_def refresh_all_def)
  next
    case False
    then show ?thesis using s' by simp
  qed
qed

theorem refresh_only_owned_witness:
  "let s = \<lparr>st_files = [(''u'', [Rec [(''message_id'', JStr ''1''), (''content'', JStr ''c''), (''type'', JStr ''0'')]])],
            st_cache = []\<rparr>;
       (s', n) = refresh_fields ''u'' [[(''message_id'', JStr ''1''), (''type'', JStr ''Reply'')]] [''type''] None True s
   in n = 1 \<and> map_of (line_records (file_of ''u'' s') ! 0) ''content'' = Some (JStr ''c'')"
proof -
  let ?s = "\<lparr>st_files = [(''u'', [Rec [(''message_id'', JStr ''1''), (''content'', JStr ''c''), (''type'', JStr ''0'')]])],
            st_cache = []\<rparr>"
  let ?p = "[[(''message_id'', JStr ''1''), (''type'', JStr ''Reply'')]]"
  obtain s' n where r: "refresh_fields ''u'' ?p [''type''] None True ?s = (s', n)" by force
  then have n: "n = 1"
    by (simp add: refresh_fields_def load_all_records_def store_simps count_changed_def fresh_by_id_def
        str_id_def record_changed_def refresh_record_def)
  from refresh_only_owned [OF r] show ?thesis
    using r n by (simp add: file_of_def dget_def Let_def)
qed

end
