(* ===== verification/Dce_Parser.thy ===== *)
theory Dce_Parser
  imports Jsonl_Store
begin

text \<open>
  \<open>history-service/dce_parser.py\<close> and the \<open>/reparse\<close> endpoint of \<open>main.py\<close>: from a
  DiscordChatExporter file to archive records, grouped per user, and from all past exports to the
  archive. \<open>rep\<close> is \<open>str()\<close> of a float, list or dict. An exception is an \<open>Inl\<close>; since nothing
  catches it between the parser and the endpoint, one bad message ends the whole operation.
\<close>

section \<open>Messages\<close>

definition extract_channel_info :: "(json \<Rightarrow> string) \<Rightarrow> jobj \<Rightarrow> (string \<times> json) result" where
  "extract_channel_info rep data =
     bindE (as_obj (dget data ''channel'' (JObj []))) (\<lambda>channel.
       Inr (py_str rep (dget channel ''id'' (JStr [])), dget channel ''name'' (JStr [])))"

text \<open>\<open>_is_image\<close>: a truthy content type that is not a string has no \<open>startswith\<close>.\<close>

definition is_image :: "json \<Rightarrow> bool result" where
  "is_image ct =
     (if \<not> truthy ct then Inr False
      else case ct of JStr s \<Rightarrow> Inr (starts_with s ''image/'') | _ \<Rightarrow> Inl AttributeError)"

definition parse_attachment :: "json \<Rightarrow> json result" where
  "parse_attachment v =
     bindE (as_obj v) (\<lambda>att.
       let ct = or_else (dget att ''content_type'' (JStr [])) (dget att ''ContentType'' (JStr [])) in
       bindE (py_int (or_else (dget att ''size'' (JInt 0)) (JInt 0))) (\<lambda>sz.
       bindE (is_image ct) (\<lambda>img.
         Inr (JObj
           [(''url'', or_else (dget att ''url'' (JStr [])) (dget att ''URL'' (JStr []))),
            (''content_type'', ct),
            (''filename'', dget att ''filename'' (JStr [])),
            (''file_size_bytes'', JInt sz),
            (''caption_status'', JStr (if img then ''pending'' else ''skipped'')),
            (''caption_excluded_from_training'', JBool True)]))))"

definition parse_attachments :: "json \<Rightarrow> json list result" where
  "parse_attachments v = bindE (as_items v) (mapE parse_attachment)"

text \<open>A comprehension over the three fields; the test is for one of the first two.\<close>

definition parse_reference :: "(json \<Rightarrow> string) \<Rightarrow> json \<Rightarrow> jobj option result" where
  "parse_reference rep v =
     (if \<not> truthy v then Inr None
      else bindE (as_obj v) (\<lambda>src.
        let ref = [(''message_id'', dget src ''messageId'' JNull), (''channel_id'', dget src ''channelId'' JNull),
                   (''type'', dget src ''type'' JNull)];
            kept = map (\<lambda>(k, x). (k, JStr (py_str rep x))) (filter (\<lambda>kv. truthy (snd kv)) ref)
        in Inr (if map_of kept ''message_id'' \<noteq> None \<or> map_of kept ''channel_id'' \<noteq> None
                then Some kept else None)))"

text \<open>\<open>needle in content\<close>: part of a string, member of a list, key of a dict.\<close>

definition occurs_in :: "string \<Rightarrow> json \<Rightarrow> bool result" where
  "occurs_in needle v =
     (case v of
        JStr s \<Rightarrow> Inr (sublist needle s)
      | JList xs \<Rightarrow> Inr (JStr needle \<in> set xs)
      | JObj kvs \<Rightarrow> Inr (needle \<in> fst ` set kvs)
      | _ \<Rightarrow> Inl TypeError)"

definition parse_mention :: "(json \<Rightarrow> string) \<Rightarrow> json \<Rightarrow> json \<Rightarrow> json list result" where
  "parse_mention rep content v =
     bindE (as_obj v) (\<lambda>m.
       let display = or_else (or_else (dget m ''nickname'' JNull) (dget m ''name'' JNull)) (JStr []) in
       if \<not> truthy display then Inr []
       else bindE (occurs_in (CHR ''@'' # py_str rep display) content) (\<lambda>named.
         Inr (if named
              then [JObj [(''user_id'', JStr (py_str rep (dget m ''id'' (JStr [])))),
                          (''username'', dget m ''name'' (JStr [])), (''display'', display)]]
              else [])))"

definition parse_mentions :: "(json \<Rightarrow> string) \<Rightarrow> json \<Rightarrow> json \<Rightarrow> json list result" where
  "parse_mentions rep v content =
     bindE (as_items (or_else v (JList []))) (\<lambda>ms.
       bindE (mapE (parse_mention rep content) ms) (\<lambda>out. Inr (concat out)))"

definition parser_owned_fields :: "string list" where
  "parser_owned_fields = [''type'', ''reference'', ''is_pinned'', ''mentions'']"

text \<open>
  The fields every record has, then the optional ones: \<open>present k v\<close> adds \<open>k\<close> only when the value
  says something.
\<close>

definition present :: "string \<Rightarrow> json \<Rightarrow> jobj \<Rightarrow> jobj" where
  "present k v r = (if truthy v then r @ [(k, v)] else r)"

definition parse_dce_message ::
  "(json \<Rightarrow> string) \<Rightarrow> string \<Rightarrow> json \<Rightarrow> json \<Rightarrow> jobj option result" where
  "parse_dce_message rep channel_id channel_name v =
     bindE (as_obj v) (\<lambda>raw.
       let msg_id = dget raw ''id'' JNull in
       if \<not> truthy msg_id then Inr None
       else bindE (as_obj (or_else (dget raw ''author'' (JObj [])) (JObj []))) (\<lambda>author.
         let user_id = dget author ''id'' (JStr []);
             is_bot = dget author ''isBot'' (JBool False);
             username = or_else (dget author ''name'' (JStr [])) (JStr (py_str rep user_id)) in
         if truthy is_bot then Inr None
         else
           let timestamp = dget raw ''timestamp'' (JStr []);
               content = or_else (dget raw ''content'' (JStr [])) (JStr []) in
           bindE (parse_attachments (dget raw ''attachments'' (JList []))) (\<lambda>attachments.
           bindE (parse_reference rep (dget raw ''reference'' JNull)) (\<lambda>reference.
           bindE (parse_mentions rep (dget raw ''mentions'' JNull) content) (\<lambda>mentions.
             Inr (Some
               (present ''mentions'' (JList mentions)
                 (present ''is_pinned'' (JBool (truthy (dget raw ''isPinned'' JNull)))
                   (present ''reference'' (case reference of None \<Rightarrow> JNull | Some kvs \<Rightarrow> JObj kvs)
                     (present ''attachments'' (JList attachments)
                       [(''message_id'', JStr (py_str rep msg_id)), (''user_id'', JStr (py_str rep user_id)),
                        (''username'', username), (''channel_id'', JStr channel_id),
                        (''channel_name'', channel_name), (''timestamp'', timestamp), (''content'', content),
                        (''is_bot'', is_bot),
                        (''type'', JStr (if dget raw ''type'' JNull = JNull then ''Default''
                                         else py_str rep (dget raw ''type'' JNull)))]))))))))))"

section \<open>Files and directories\<close>

text \<open>\<open>None\<close>: the file cannot be read or is not JSON.\<close>

definition parse_dce_export_file :: "(json \<Rightarrow> string) \<Rightarrow> json option \<Rightarrow> jobj list result" where
  "parse_dce_export_file rep f =
     (case f of
        None \<Rightarrow> Inr []
      | Some data \<Rightarrow>
          let parse = (\<lambda>channel_id channel_name raw_messages.
                bindE (as_items raw_messages) (\<lambda>ms.
                  bindE (mapE (parse_dce_message rep channel_id channel_name) ms) (\<lambda>rs.
                    Inr (concat (map (\<lambda>r. case r of None \<Rightarrow> [] | Some x \<Rightarrow> [x]) rs)))))
          in case data of
               JObj kvs \<Rightarrow>
                 bindE (extract_channel_info rep kvs) (\<lambda>(channel_id, channel_name).
                   parse channel_id channel_name
                     (or_else (dget kvs ''messages'' (JList [])) (dget kvs ''Messages'' (JList []))))
             | JList ms \<Rightarrow> parse [] (JStr []) (JList ms)
             | _ \<Rightarrow> Inr [])"

text \<open>\<open>record["user_id"]\<close>: the parser stores a string.\<close>

definition user_of :: "jobj \<Rightarrow> string" where
  "user_of r = (case map_of r ''user_id'' of Some (JStr u) \<Rightarrow> u | _ \<Rightarrow> [])"

definition add_to_group :: "jobj \<Rightarrow> (string \<times> jobj list) list \<Rightarrow> (string \<times> jobj list) list" where
  "add_to_group r groups = dset (user_of r) (dget groups (user_of r) [] @ [r]) groups"

definition group_by_user :: "jobj list \<Rightarrow> (string \<times> jobj list) list" where
  "group_by_user rs = fold add_to_group rs []"

text \<open>A directory is its files by name, \<open>None\<close> when it does not exist.\<close>

type_synonym export_dir = "(string \<times> json option) list"

definition json_files :: "export_dir \<Rightarrow> export_dir" where
  "json_files d = sort_key fst (filter (\<lambda>f. ends_with (fst f) ''.json'') d)"

definition export_records :: "(json \<Rightarrow> string) \<Rightarrow> export_dir \<Rightarrow> jobj list result" where
  "export_records rep d =
     bindE (mapE (\<lambda>f. parse_dce_export_file rep (snd f)) (json_files d)) (\<lambda>rss. Inr (concat rss))"

definition parse_dce_export_directory ::
  "(json \<Rightarrow> string) \<Rightarrow> export_dir option \<Rightarrow> (string \<times> jobj list) list result" where
  "parse_dce_export_directory rep d =
     (case d of None \<Rightarrow> Inr [] | Some fs \<Rightarrow> bindE (export_records rep fs) (\<lambda>rs. Inr (group_by_user rs)))"

section \<open>Re-parsing every export\<close>

text \<open>\<open>EXCLUDED_CHANNELS\<close> is a list of ids and names.\<close>

definition excluded_record :: "string list \<Rightarrow> jobj \<Rightarrow> bool" where
  "excluded_record excl r \<longleftrightarrow>
     dget r ''channel_id'' JNull \<in> JStr ` set excl \<or> dget r ''channel_name'' JNull \<in> JStr ` set excl"

type_synonym gathered = "(string \<times> (string \<times> jobj) list) list"

text \<open>One record of user \<open>u\<close> and the loop over an export's users.\<close>

definition gather_record :: "string list \<Rightarrow> string \<Rightarrow> jobj \<Rightarrow> gathered \<Rightarrow> gathered" where
  "gather_record excl u r latest =
     (if excluded_record excl r then latest else dset u (dset (str_id r) r (dget latest u [])) latest)"

definition gather_user :: "string list \<Rightarrow> string \<times> jobj list \<Rightarrow> gathered \<Rightarrow> gathered" where
  "gather_user excl g latest =
     (let latest1 = (if map_of latest (fst g) = None then dset (fst g) [] latest else latest)
      in fold (gather_record excl (fst g)) (snd g) latest1)"

fun gather_exports ::
  "(json \<Rightarrow> string) \<Rightarrow> string list \<Rightarrow> export_dir list \<Rightarrow> gathered \<Rightarrow> gathered result" where
  "gather_exports rep excl [] latest = Inr latest"
| "gather_exports rep excl (d # ds) latest =
     bindE (parse_dce_export_directory rep (Some d)) (\<lambda>groups.
       gather_exports rep excl ds (fold (gather_user excl) groups latest))"

text \<open>
  Records sorted by time and id. Comparing time stamps that are not all strings is left to \<open>mixed\<close>;
  DiscordChatExporter writes strings.
\<close>

definition time_of :: "jobj \<Rightarrow> string option" where
  "time_of r = (case dget r ''timestamp'' (JStr []) of JStr t \<Rightarrow> Some t | _ \<Rightarrow> None)"

definition sort_records :: "(jobj list \<Rightarrow> jobj list result) \<Rightarrow> jobj list \<Rightarrow> jobj list result" where
  "sort_records mixed rs =
     (if list_all (\<lambda>r. time_of r \<noteq> None) rs
      then Inr (sort_key (\<lambda>r. (the (time_of r), str_id r)) rs) else mixed rs)"

text \<open>The second loop; no write fails. The result counts what was appended and refreshed.\<close>

fun write_users ::
  "(jobj list \<Rightarrow> jobj list result) \<Rightarrow> gathered \<Rightarrow> store \<times> nat \<times> nat \<Rightarrow> (store \<times> nat \<times> nat) result" where
  "write_users mixed [] acc = Inr acc"
| "write_users mixed ((u, by_id) # ls) (s, a, f) =
     bindE (sort_records mixed (map snd by_id)) (\<lambda>rs.
       let (s1, n) = append_messages u rs None s;
           (s2, k) = refresh_fields u rs parser_owned_fields None True s1
       in write_users mixed ls (s2, a + n, f + k))"

text \<open>The whole endpoint over the export directories by name; \<open>None\<close>: no \<open>raw\<close> directory.\<close>

definition reparse ::
  "(json \<Rightarrow> string) \<Rightarrow> (jobj list \<Rightarrow> jobj list result) \<Rightarrow> string list \<Rightarrow> (string \<times> export_dir) list option
     \<Rightarrow> store \<Rightarrow> (store \<times> nat \<times> nat) result" where
  "reparse rep mixed excl dirs s =
     (case dirs of
        None \<Rightarrow> Inl OSError
      | Some ds \<Rightarrow>
          bindE (gather_exports rep excl (map snd (sort_key fst ds)) []) (\<lambda>latest.
            write_users mixed latest (s, 0, 0)))"

section \<open>Parsed records\<close>

lemma present_map_of: "map_of (present k v r) f
    = (case map_of r f of Some x \<Rightarrow> Some x | None \<Rightarrow> if f = k \<and> truthy v then Some v else None)"
  by (auto simp: present_def map_add_def split: option.split)

lemma present_keys: "map fst (present k v r) = map fst r @ (if truthy v then [k] else [])"
  by (simp add: present_def)

text \<open>What a successful parse says about its input, in one place.\<close>

lemma parse_dce_messageD:
  assumes "parse_dce_message rep cid cname v = Inr (Some r)"
  obtains raw author mentions ref atts where "v = JObj raw" "truthy (dget raw ''id'' JNull)"
    "as_obj (or_else (dget raw ''author'' (JObj [])) (JObj [])) = Inr author"
    "\<not> truthy (dget author ''isBot'' (JBool False))"
    "parse_mentions rep (dget raw ''mentions'' JNull) (or_else (dget raw ''content'' (JStr [])) (JStr []))
       = Inr mentions"
    "r = present ''mentions'' (JList mentions)
          (present ''is_pinned'' (JBool (truthy (dget raw ''isPinned'' JNull)))
            (present ''reference'' ref (present ''attachments'' (JList atts)
              [(''message_id'', JStr (py_str rep (dget raw ''id'' JNull))),
               (''user_id'', JStr (py_str rep (dget author ''id'' (JStr [])))),
               (''username'', or_else (dget author ''name'' (JStr [])) (JStr (py_str rep (dget author ''id'' (JStr []))))),
               (''channel_id'', JStr cid), (''channel_name'', cname),
               (''timestamp'', dget raw ''timestamp'' (JStr [])),
               (''content'', or_else (dget raw ''content'' (JStr [])) (JStr [])),
               (''is_bot'', dget author ''isBot'' (JBool False)),
               (''type'', JStr (if dget raw ''type'' JNull = JNull then ''Default''
                                else py_str rep (dget raw ''type'' JNull)))])))"
proof -
  from assms obtain raw where raw: "v = JObj raw"
    by (cases v) (auto simp: parse_dce_message_def as_obj_def)
  have id: "truthy (dget raw ''id'' JNull)"
    using assms raw by (auto simp: parse_dce_message_def as_obj_def Let_def split: if_splits)
  obtain author where au: "as_obj (or_else (dget raw ''author'' (JObj [])) (JObj [])) = Inr author"
    using assms raw id by (auto simp: parse_dce_message_def as_obj_def [of "JObj raw"] bindE_eq_Inr)
  have nb: "\<not> truthy (dget author ''isBot'' (JBool False))"
    using assms raw id au by (auto simp: parse_dce_message_def as_obj_def [of "JObj raw"] bindE_eq_Inr)
  show thesis
    using assms raw id au nb
    by (auto simp: parse_dce_message_def as_obj_def [of "JObj raw"] bindE_eq_Inr Let_def intro: that)
qed

text \<open>
  What the parser lets through. Every record it makes is a dict with distinct keys, its
  message id is the non-empty text of the raw id, its user id is a string, its author is not a
  bot, and each of the four optional fields is absent unless it says something.
\<close>

theorem parsed_record:
  assumes "parse_dce_message rep cid cname v = Inr (Some r)" and "\<And>x. rep x \<noteq> []"
  shows "dict_ok r
    \<and> (\<exists>raw i. v = JObj raw \<and> map_of raw ''id'' = Some i \<and> message_id r = Some (py_str rep i))
    \<and> map_of r ''user_id'' = Some (JStr (user_of r))
    \<and> \<not> truthy (dget r ''is_bot'' JNull)
    \<and> (\<forall>f\<in>{''attachments'', ''reference'', ''is_pinned'', ''mentions''}. \<forall>x. map_of r f = Some x \<longrightarrow> truthy x)"
  using assms(1)
proof (cases rule: parse_dce_messageD)
  case (1 raw author mentions ref atts)
  have "py_str rep (dget raw ''id'' JNull) \<noteq> []"
    by (rule py_str_truthy) (use assms(2) 1(2) in auto)
  moreover have "\<exists>i. map_of raw ''id'' = Some i \<and> dget raw ''id'' JNull = i"
    using 1(2) by (auto simp: dget_def split: option.splits)
  ultimately show ?thesis
    using 1(1,4)
    by (auto simp: 1(6) dict_ok_def present_keys present_map_of message_id_def user_of_def dget_def [of "present _ _ _"])
qed

definition example_message :: json where
  "example_message = JObj
     [(''id'', JStr ''9''), (''content'', JStr ''hi @Bob Lee!''),
      (''author'', JObj [(''id'', JStr ''7''), (''name'', JStr ''ann'')]),
      (''mentions'', JList [JObj [(''id'', JStr ''8''), (''name'', JStr ''bob''), (''nickname'', JStr ''Bob Lee'')],
                         JObj [(''id'', JStr ''5''), (''name'', JStr ''eve'')]])]"

definition example_record :: jobj where
  "example_record =
     [(''message_id'', JStr ''9''), (''user_id'', JStr ''7''), (''username'', JStr ''ann''),
      (''channel_id'', JStr ''1''), (''channel_name'', JStr ''general''), (''timestamp'', JStr []),
      (''content'', JStr ''hi @Bob Lee!''), (''is_bot'', JBool False), (''type'', JStr ''Default''),
      (''mentions'', JList [JObj [(''user_id'', JStr ''8''), (''username'', JStr ''bob''),
                               (''display'', JStr ''Bob Lee'')]])]"

lemma example_sublists: "sublist ''@Bob Lee'' ''hi @Bob Lee!''" "\<not> sublist ''@eve'' ''hi @Bob Lee!''"
  by code_simp+

lemma parse_example:
  "parse_dce_message (\<lambda>_. ''?'') ''1'' (JStr ''general'') example_message = Inr (Some example_record)"
  by (simp add: example_message_def example_record_def parse_dce_message_def as_obj_def dget_def or_else_def
      parse_attachments_def as_items_def parse_reference_def parse_mentions_def parse_mention_def
      occurs_in_def present_def py_str_def Let_def example_sublists)

theorem parsed_record_witness:
  "dict_ok example_record \<and> message_id example_record = Some ''9'' \<and> user_of example_record = ''7''"
  using parsed_record [OF parse_example]
  by (auto simp: example_message_def user_of_def example_record_def py_str_def)

text \<open>
  Mentions are in the text. Each mention the parser records on a message with text names a
  user the export lists, under a display name that stands in the text after an at sign.
\<close>

theorem mentions_named:
  assumes "parse_dce_message rep cid cname v = Inr (Some r)"
    and "map_of r ''content'' = Some (JStr text)"
    and "map_of r ''mentions'' = Some (JList ms)" and "x \<in> set ms"
  shows "\<exists>raw m u n d. v = JObj raw \<and> JObj m \<in> (case dget raw ''mentions'' JNull of JList ys \<Rightarrow> set ys | _ \<Rightarrow> {})
      \<and> x = JObj [(''user_id'', JStr u), (''username'', n), (''display'', d)]
      \<and> u = py_str rep (dget m ''id'' (JStr []))
      \<and> truthy d \<and> d \<in> {dget m ''nickname'' JNull, dget m ''name'' JNull}
      \<and> sublist (CHR ''@'' # py_str rep d) text"
  using assms(1)
proof (cases rule: parse_dce_messageD)
  case (1 raw author mentions ref atts)
  have content: "or_else (dget raw ''content'' (JStr [])) (JStr []) = JStr text"
    using assms(2) by (simp add: 1(6) present_map_of split: if_splits)
  have ms: "mentions = ms"
    using assms(3) by (simp add: 1(6) present_map_of split: if_splits)
  obtain ys out where ys: "as_items (or_else (dget raw ''mentions'' JNull) (JList [])) = Inr ys"
    "mapE (parse_mention rep (JStr text)) ys = Inr out" "ms = concat out"
    using 1(5) by (auto simp: parse_mentions_def bindE_eq_Inr content ms)
  then obtain z where z: "z \<in> set out" "x \<in> set z" using assms(4) by auto
  obtain y where y: "y \<in> set ys" "parse_mention rep (JStr text) y = Inr z" "x \<in> set z"
    using mapE_Inr_set [OF ys(2) z(1)] z(2) by blast
  obtain m where m: "y = JObj m"
    using y(2) by (cases y) (auto simp: parse_mention_def as_obj_def)
  have "JObj m \<in> (case dget raw ''mentions'' JNull of JList ys \<Rightarrow> set ys | _ \<Rightarrow> {})"
    using ys(1) y(1) m by (cases "dget raw ''mentions'' JNull") (auto simp: as_items_def or_else_def split: if_splits)
  moreover have "\<exists>d. x = JObj [(''user_id'', JStr (py_str rep (dget m ''id'' (JStr [])))),
        (''username'', dget m ''name'' (JStr [])), (''display'', d)]
      \<and> truthy d \<and> d \<in> {dget m ''nickname'' JNull, dget m ''name'' JNull}
      \<and> sublist (CHR ''@'' # py_str rep d) text"
    using y(2,3) by (auto simp: parse_mention_def m as_obj_def occurs_in_def or_else_def Let_def split: if_splits)
  ultimately show ?thesis using 1(1) by blast
qed

theorem mentions_named_witness:
  "\<exists>d. d = JStr ''Bob Lee'' \<and> sublist (CHR ''@'' # py_str (\<lambda>_. ''?'') d) ''hi @Bob Lee!''"
proof -
  let ?x = "JObj [(''user_id'', JStr ''8''), (''username'', JStr ''bob''), (''display'', JStr ''Bob Lee'')]"
  have "map_of example_record ''content'' = Some (JStr ''hi @Bob Lee!'')"
    "map_of example_record ''mentions'' = Some (JList [?x])"
    by (simp_all add: example_record_def)
  from mentions_named [OF parse_example this, of ?x] show ?thesis by auto
qed

section \<open>Grouping\<close>

lemma fold_group:
  assumes "dict_ok g" "\<forall>u. map_of g u \<noteq> Some []"
  shows "dict_ok (fold add_to_group rs g) \<and> (\<forall>u. map_of (fold add_to_group rs g) u \<noteq> Some [])
     \<and> (\<forall>u. dget (fold add_to_group rs g) u [] = dget g u [] @ filter (\<lambda>r. user_of r = u) rs)"
  using assms
proof (induction rs arbitrary: g)
  case (Cons r rs)
  have "dict_ok (add_to_group r g)" "\<forall>u. map_of (add_to_group r g) u \<noteq> Some []"
    using Cons.prems by (auto simp: add_to_group_def)
  from Cons.IH [OF this] show ?case
    by (auto simp: add_to_group_def dget_def)
qed simp

text \<open>
  Grouping loses nothing. Over a directory, each user's list is exactly that user's records
  of all the JSON files, in file-name order and within a file in its order; no user is listed
  twice or with an empty list.
\<close>

theorem grouping_exact:
  assumes "parse_dce_export_directory rep (Some d) = Inr g"
  shows "dict_ok g \<and> (\<forall>u. map_of g u \<noteq> Some [])
    \<and> (\<exists>rss. mapE (\<lambda>f. parse_dce_export_file rep (snd f)) (json_files d) = Inr rss
         \<and> (\<forall>u. dget g u [] = filter (\<lambda>r. user_of r = u) (concat rss)))"
proof -
  obtain rss where rss: "mapE (\<lambda>f. parse_dce_export_file rep (snd f)) (json_files d) = Inr rss"
    "g = group_by_user (concat rss)"
    using assms by (auto simp: parse_dce_export_directory_def export_records_def bindE_eq_Inr)
  have "dget [] u [] = ([] :: jobj list)" for u :: string by (simp add: dget_def)
  then show ?thesis
    using fold_group [of "[]" "concat rss"] rss by (auto simp: group_by_user_def)
qed

definition example_dir :: export_dir where
  "example_dir = [(''b.json'', Some (JList [example_message])), (''notes.txt'', None), (''a.json'', None)]"

lemma example_export: "\<exists>r. export_records (\<lambda>_. ''?'') example_dir = Inr [r] \<and> str_id r = ''9'' \<and> user_of r = ''7''
    \<and> mapE (\<lambda>f. parse_dce_export_file (\<lambda>_. ''?'') (snd f)) (json_files example_dir) = Inr [[], [r]]"
proof -
  have le: "''a.json'' < (''b.json'' :: string)" "\<not> ''b.json'' \<le> (''a.json'' :: string)" by code_simp+
  have f: "json_files example_dir = [(''a.json'', None), (''b.json'', Some (JList [example_message]))]"
    using le by (simp add: json_files_def example_dir_def ends_with_def suffix_def)
  have "\<exists>r. parse_dce_message (\<lambda>_. ''?'') [] (JStr []) example_message = Inr (Some r) \<and> user_of r = ''7'' \<and> str_id r = ''9''"
    by (simp add: example_message_def parse_dce_message_def as_obj_def dget_def or_else_def user_of_def str_id_def
      parse_attachments_def as_items_def parse_reference_def parse_mentions_def parse_mention_def
      occurs_in_def present_def py_str_def Let_def example_sublists)
  then obtain r where r: "parse_dce_message (\<lambda>_. ''?'') [] (JStr []) example_message = Inr (Some r)"
    "user_of r = ''7''" "str_id r = ''9''" by blast
  then have "mapE (\<lambda>f. parse_dce_export_file (\<lambda>_. ''?'') (snd f)) (json_files example_dir) = Inr [[], [r]]"
    by (simp add: f parse_dce_export_file_def as_items_def Let_def)
  then show ?thesis using r by (auto simp: export_records_def)
qed

lemma grouping_example: "\<exists>g. parse_dce_export_directory (\<lambda>_. ''?'') (Some example_dir) = Inr g"
  using example_export by (auto simp: parse_dce_export_directory_def)

theorem grouping_exact_witness:
  "\<exists>g. parse_dce_export_directory (\<lambda>_. ''?'') (Some example_dir) = Inr g
     \<and> dget g ''7'' [] \<noteq> [] \<and> dget g ''8'' [] = []"
proof -
  obtain g where g: "parse_dce_export_directory (\<lambda>_. ''?'') (Some example_dir) = Inr g"
    using grouping_example by blast
  from grouping_exact [OF g] show ?thesis using example_export g by fastforce
qed

section \<open>Re-parsing\<close>

text \<open>What one record, one user's list and one export add to what is known of user \<open>u\<close>.\<close>

definition keeps :: "string list \<Rightarrow> string \<Rightarrow> string \<Rightarrow> jobj \<Rightarrow> bool" where
  "keeps excl u i r \<longleftrightarrow> user_of r = u \<and> str_id r = i \<and> \<not> excluded_record excl r"

definition last_of :: "'a option \<Rightarrow> 'a list \<Rightarrow> 'a option" where
  "last_of z xs = (if xs = [] then z else Some (last xs))"

lemma last_of_simps [simp]: "last_of z [] = z" "last_of z (xs @ ys) = last_of (last_of z xs) ys"
  "last_of z (x # xs) = last_of (Some x) xs"
  by (simp_all add: last_of_def)

lemma gather_record_known:
  "map_of (dget (gather_record excl v r l) u []) i
    = (if v = u \<and> str_id r = i \<and> \<not> excluded_record excl r then Some r else map_of (dget l u []) i)"
  by (simp add: gather_record_def dget_def)

lemma fold_gather_record:
  "map_of (dget (fold (gather_record excl v) rs l) u []) i
    = (if v = u then last_of (map_of (dget l u []) i)
         (filter (\<lambda>r. str_id r = i \<and> \<not> excluded_record excl r) rs)
       else map_of (dget l u []) i)"
  by (induction rs arbitrary: l) (auto simp: gather_record_known)

lemma gather_user_known:
  "map_of (dget (gather_user excl (v, rs) l) u []) i
    = (if v = u then last_of (map_of (dget l u []) i)
         (filter (\<lambda>r. str_id r = i \<and> \<not> excluded_record excl r) rs)
       else map_of (dget l u []) i)"
proof -
  define l1 where "l1 = (if map_of l v = None then dset v [] l else l)"
  have "dget l1 u [] = dget l u []" by (auto simp: dget_def l1_def)
  moreover have "gather_user excl (v, rs) l = fold (gather_record excl v) rs l1"
    by (simp add: gather_user_def l1_def)
  ultimately show ?thesis by (simp add: fold_gather_record)
qed

lemma fold_gather_user:
  assumes "dict_ok g"
  shows "map_of (dget (fold (gather_user excl) g l) u []) i
    = last_of (map_of (dget l u []) i)
        (filter (\<lambda>r. str_id r = i \<and> \<not> excluded_record excl r) (dget g u []))"
  using assms
proof (induction g arbitrary: l)
  case (Cons x g)
  obtain v rs where x: "x = (v, rs)" by force
  have g: "dict_ok g" "v \<notin> fst ` set g" using Cons.prems x by (auto simp: dict_ok_def)
  have "v = u \<Longrightarrow> dget g u [] = []"
    using g(2) by (auto simp: dget_def map_of_eq_None_iff split: option.split)
      (metis map_of_SomeD image_eqI fst_conv)
  then show ?case
    using Cons.IH [OF g(1)] by (auto simp: x gather_user_known dget_def [of "(v, rs) # g"] dget_def [of g])
qed (simp add: dget_def)

text \<open>
  The latest export wins. What \<open>/reparse\<close> holds for a user and a message id is the last
  record of that user and id over all exports in the order of their names, records of excluded
  channels left out; nothing else is held.
\<close>

theorem latest_export_wins:
  assumes "gather_exports rep excl ds [] = Inr latest" and "mapE (export_records rep) ds = Inr rss"
  shows "map_of (dget latest u []) i
     = (let rs = filter (keeps excl u i) (concat rss) in if rs = [] then None else Some (last rs))"
proof -
  have "gather_exports rep excl ds l = Inr latest \<Longrightarrow> mapE (export_records rep) ds = Inr rss \<Longrightarrow>
      map_of (dget latest u []) i = last_of (map_of (dget l u []) i) (filter (keeps excl u i) (concat rss))" for l
  proof (induction ds arbitrary: l rss)
    case (Cons d ds)
    from Cons.prems obtain rs rss' where r: "export_records rep d = Inr rs" "mapE (export_records rep) ds = Inr rss'"
      "rss = rs # rss'" by (auto simp: bindE_eq_Inr)
    let ?g = "group_by_user rs"
    have g: "parse_dce_export_directory rep (Some d) = Inr ?g"
      using r(1) by (simp add: parse_dce_export_directory_def)
    have fg: "dict_ok ?g" "dget ?g u [] = filter (\<lambda>r. user_of r = u) rs"
      using fold_group [of "[]" rs] by (auto simp: group_by_user_def dget_def)
    have k: "keeps excl u i = (\<lambda>r. user_of r = u \<and> str_id r = i \<and> \<not> excluded_record excl r)"
      by (simp add: keeps_def fun_eq_iff)
    have "gather_exports rep excl ds (fold (gather_user excl) ?g l) = Inr latest"
      using Cons.prems(1) g by simp
    from Cons.IH [OF this r(2)] show ?case
      by (simp add: r(3) fold_gather_user [OF fg(1)] fg(2) k)
  qed simp
  from this [OF assms] show ?thesis by (simp add: last_of_def dget_def Let_def)
qed

theorem latest_export_wins_witness:
  "\<exists>latest. gather_exports (\<lambda>_. ''?'') [''spam''] [example_dir, []] [] = Inr latest
     \<and> map_of (dget latest ''7'' []) ''10'' = None"
proof -
  obtain g where g: "parse_dce_export_directory (\<lambda>_. ''?'') (Some example_dir) = Inr g"
    using grouping_example by blast
  have e: "export_records (\<lambda>_. ''?'') [] = Inr []" "parse_dce_export_directory (\<lambda>_. ''?'') (Some []) = Inr []"
    by (simp_all add: export_records_def json_files_def parse_dce_export_directory_def group_by_user_def)
  obtain l where l: "gather_exports (\<lambda>_. ''?'') [''spam''] [example_dir, []] [] = Inr l"
    using g e by simp
  obtain r where r: "export_records (\<lambda>_. ''?'') example_dir = Inr [r]" "str_id r = ''9''"
    using example_export by blast
  from latest_export_wins [OF l, of "[[r], []]" "''7''" "''10''"] show ?thesis
    using l r e by (simp add: keeps_def)
qed

subsection \<open>Running it twice\<close>

lemma line_ids_records: "line_ids (map Rec (line_records ls)) = line_ids ls"
  by (induction ls rule: line_ids.induct) (auto split: option.split)

lemma refresh_keeps_id:
  "''message_id'' \<notin> set fs \<Longrightarrow> message_id (refresh_record fs new r) = message_id r"
  "''message_id'' \<notin> set fs \<Longrightarrow> str_id (refresh_record fs new r) = str_id r"
  by (simp_all add: message_id_def str_id_def refresh_other)

lemma refresh_all_ids:
  "''message_id'' \<notin> set fs \<Longrightarrow> line_ids (map Rec (refresh_all fresh fs rs)) = line_ids (map Rec rs)"
  by (induction rs) (auto simp: refresh_all_def refresh_keeps_id split: option.split)

lemma refreshed_settled:
  assumes "''message_id'' \<notin> set fs"
  shows "count_changed fresh fs (refresh_all fresh fs rs) = 0"
proof -
  have "\<not> record_changed fs (refresh_record fs new r) (refresh_record fs new (refresh_record fs new r))" for new r
    by (simp add: record_changed_def dget_def refresh_field)
  then show ?thesis
    by (auto simp: count_changed_def refresh_all_def filter_empty_conv refresh_keeps_id [OF assms] split: option.split)
qed

lemma refresh_fields_effect:
  assumes "refresh_fields u rs fs None True s = (s', k)"
  shows "k = count_changed (fresh_by_id rs) fs (line_records (file_of u s))"
    "file_of v s' = (if k > 0 \<and> v = u then map Rec (refresh_all (fresh_by_id rs) fs (line_records (file_of u s)))
                     else file_of v s)"
    "st_cache s' = st_cache s" "k = 0 \<Longrightarrow> s' = s"
  using assms
  by (auto simp: refresh_fields_def update_records_def load_all_records_def Let_def file_of_rewrite
      count_changed_def) (auto simp: rewrite_archive_def)

definition settled :: "string \<Rightarrow> jobj list \<Rightarrow> store \<Rightarrow> bool" where
  "settled u rs s \<longleftrightarrow> set (line_ids (map Rec rs)) \<subseteq> set (line_ids (file_of u s))
     \<and> count_changed (fresh_by_id rs) parser_owned_fields (line_records (file_of u s)) = 0"

lemma settled_cong: "file_of u s = file_of u s' \<Longrightarrow> settled u rs s = settled u rs s'"
  by (simp add: settled_def)

lemma not_owned [simp]: "''message_id'' \<notin> set parser_owned_fields"
  by (simp add: parser_owned_fields_def)

lemma write_one:
  assumes "store_ok s" "append_messages u rs None s = (s1, n)"
    "refresh_fields u rs parser_owned_fields None True s1 = (s2, k)"
  shows "store_ok s2" "settled u rs s2" "v \<noteq> u \<Longrightarrow> file_of v s2 = file_of v s"
    "settled u rs s \<Longrightarrow> n = 0 \<and> k = 0 \<and> (\<forall>v. file_of v s2 = file_of v s)"
proof -
  note a = append_messages_ok [OF assms(1,2)]
  note r = refresh_fields_effect [OF assms(3)]
  have ids: "line_ids (file_of v s2) = line_ids (file_of v s1)" for v
    using r(2) by (simp add: refresh_all_ids line_ids_records)
  show "store_ok s2" using a(1) ids r(3) by (simp add: store_ok_def)
  have "count_changed (fresh_by_id rs) parser_owned_fields (line_records (file_of u s2)) = 0"
    using r(1,2) by (cases "k = 0") (simp_all add: refreshed_settled)
  then show "settled u rs s2" using a(2) ids by (auto simp: settled_def)
  show "v \<noteq> u \<Longrightarrow> file_of v s2 = file_of v s" using a(4) r(2) by simp
  assume set: "settled u rs s"
  have "set (line_ids (file_of u s1)) = set (line_ids (file_of u s))"
    using set a(2) by (auto simp: settled_def)
  moreover have "distinct (line_ids (file_of u s1))" "distinct (line_ids (file_of u s))"
    using a(1) assms(1) by (simp_all add: store_ok_def)
  ultimately have n: "n = 0" using a(3) distinct_card by (metis add_cancel_right_right)
  have f1: "file_of v s1 = file_of v s" for v
    using assms(2) n by (auto simp: append_messages_def Let_def split: if_splits)
  then have "k = 0" using r(1) set by (simp add: settled_def)
  then show "n = 0 \<and> k = 0 \<and> (\<forall>v. file_of v s2 = file_of v s)" using n f1 r(2) by simp
qed

lemma write_users_settles:
  assumes "write_users mixed ls (s, a, f) = Inr (s', a', f')" "store_ok s" "dict_ok ls"
  shows "store_ok s' \<and> (\<forall>u b. (u, b) \<in> set ls \<longrightarrow> (\<exists>rs. sort_records mixed (map snd b) = Inr rs \<and> settled u rs s'))
    \<and> (\<forall>u. u \<notin> fst ` set ls \<longrightarrow> file_of u s' = file_of u s)"
  using assms
proof (induction ls arbitrary: s a f)
  case (Cons x ls)
  obtain u b where x: "x = (u, b)" by force
  obtain rs where rs: "sort_records mixed (map snd b) = Inr rs"
    using Cons.prems(1) by (auto simp: x bindE_eq_Inr)
  obtain s1 n where s1: "append_messages u rs None s = (s1, n)" by force
  obtain s2 k where s2: "refresh_fields u rs parser_owned_fields None True s1 = (s2, k)" by force
  note w = write_one [OF Cons.prems(2) s1 s2]
  have r: "write_users mixed ls (s2, a + n, f + k) = Inr (s', a', f')"
    using Cons.prems(1) by (simp add: x rs s1 s2)
  have d: "dict_ok ls" "u \<notin> fst ` set ls" using Cons.prems(3) by (auto simp: x dict_ok_def)
  note IH = Cons.IH [OF r w(1) d(1)]
  then have "settled u rs s'" using settled_cong [of u s2 s'] w(2) d(2) by simp
  then show ?case using IH rs w(3) by (auto simp: x)
qed simp

lemma write_users_again:
  assumes "store_ok s" "\<forall>u b. (u, b) \<in> set ls \<longrightarrow> (\<exists>rs. sort_records mixed (map snd b) = Inr rs \<and> settled u rs s)"
  shows "\<exists>s'. write_users mixed ls (s, a, f) = Inr (s', a, f) \<and> (\<forall>u. file_of u s' = file_of u s)"
  using assms
proof (induction ls arbitrary: s)
  case (Cons x ls)
  obtain u b where x: "x = (u, b)" by force
  obtain rs where rs: "sort_records mixed (map snd b) = Inr rs" "settled u rs s"
    using Cons.prems(2) by (auto simp: x)
  obtain s1 n where s1: "append_messages u rs None s = (s1, n)" by force
  obtain s2 k where s2: "refresh_fields u rs parser_owned_fields None True s1 = (s2, k)" by force
  note w = write_one [OF Cons.prems(1) s1 s2]
  have same: "n = 0" "k = 0" "\<forall>v. file_of v s2 = file_of v s" using w(4) [OF rs(2)] by auto
  have "\<forall>u b. (u, b) \<in> set ls \<longrightarrow> (\<exists>rs. sort_records mixed (map snd b) = Inr rs \<and> settled u rs s2)"
    using Cons.prems(2) same(3) settled_cong by (metis list.set_intros(2))
  from Cons.IH [OF w(1) this] show ?case using same by (auto simp: x rs s1 s2)
qed simp

lemma gather_dict_ok: "gather_exports rep excl ds l = Inr l' \<Longrightarrow> dict_ok l \<Longrightarrow> dict_ok l'"
proof (induction ds arbitrary: l)
  case (Cons d ds)
  have one: "dict_ok l \<Longrightarrow> dict_ok (fold (gather_record excl u) rs l)" for u rs l
    by (induction rs arbitrary: l) (auto simp: gather_record_def)
  have "dict_ok l \<Longrightarrow> dict_ok (fold (gather_user excl) g l)" for g l
    by (induction g arbitrary: l) (auto simp: gather_user_def Let_def intro!: one)
  with Cons show ?case by (auto simp: bindE_eq_Inr)
qed simp

text \<open>
  C12: Re-parsing is idempotent. When \<open>/reparse\<close> has succeeded on an archive without duplicate ids
  and no write failed, running it again on the same exports succeeds, reports nothing appended and
  nothing refreshed, and leaves every user's file as it was.
\<close>

theorem reparse_idempotent:
  assumes "store_ok s" and "reparse rep mixed excl dirs s = Inr (s', a, f)"
  shows "store_ok s' \<and> (\<exists>s''. reparse rep mixed excl dirs s' = Inr (s'', 0, 0)
           \<and> (\<forall>u. file_of u s'' = file_of u s'))"
proof -
  obtain ds latest where l: "dirs = Some ds" "gather_exports rep excl (map snd (sort_key fst ds)) [] = Inr latest"
    "write_users mixed latest (s, 0, 0) = Inr (s', a, f)"
    using assms(2) by (auto simp: reparse_def bindE_eq_Inr split: option.splits)
  have "dict_ok latest" using gather_dict_ok [OF l(2)] by simp
  note w = write_users_settles [OF l(3) assms(1) this]
  then show ?thesis using write_users_again [of s' latest mixed 0 0] by (auto simp: reparse_def l)
qed

theorem reparse_idempotent_witness:
  "\<exists>s' a f. reparse (\<lambda>_. ''?'') Inr [] (Some [(''2026'', example_dir)]) \<lparr>st_files = [], st_cache = []\<rparr> = Inr (s', a, f)
     \<and> store_ok s'"
proof -
  let ?s = "\<lparr>st_files = [], st_cache = []\<rparr> :: store"
  have ok: "store_ok ?s" by (simp add: store_ok_def file_of_def dget_def)
  have "\<exists>x. reparse (\<lambda>_. ''?'') Inr [] (Some [(''2026'', example_dir)]) ?s = Inr x"
  proof -
    have w: "\<exists>x. write_users Inr ls acc = Inr x" for ls acc
      by (induction ls arbitrary: acc) (auto simp: sort_records_def Let_def split: prod.split)
    have w': "\<exists>a aa b. write_users Inr ls acc = Inr (a, aa, b)" for ls acc
      using w [of ls acc] by (metis prod_cases3)
    show ?thesis using grouping_example by (auto simp: reparse_def w')
  qed
  then obtain s' a f where "reparse (\<lambda>_. ''?'') Inr [] (Some [(''2026'', example_dir)]) ?s = Inr (s', a, f)" by force
  from reparse_idempotent [OF ok this] this show ?thesis by blast
qed

end
