(* ===== verification/Channel_State.thy ===== *)
theory Channel_State
  imports Prelude
begin

text \<open>
  \<open>history-service/channel_state.py\<close> and \<open>_fetch_discord_channels\<close> of \<open>main.py\<close>: which channels
  an evaluation exports. A state maps channel ids to records; channels are dicts, as the code
  passes them. ISO time stamps are strings and are compared as strings. \<open>datetime.isoformat\<close> of a
  Discord id is a parameter.
\<close>

section \<open>The state file\<close>

record chan_record =
  c_name :: json
  c_last_export_at :: string
  c_last_message_at :: string
  c_total :: nat

type_synonym chan_state = "(string \<times> chan_record) list"

text \<open>Absent, unreadable (bad JSON or an \<open>IOError\<close>), or a document.\<close>

datatype state_file = NoStateFile | BadStateFile | StateFile chan_state

fun load_state :: "state_file \<Rightarrow> chan_state" where
  "load_state NoStateFile = []"
| "load_state BadStateFile = []"
| "load_state (StateFile st) = st"

text \<open>
  \<open>save_state\<close> opens the file for writing, which empties it, before it writes: a failure before
  the end leaves no JSON.
\<close>

datatype save_fault = SaveOk | OpenFails | WriteFails

fun save_state :: "chan_state \<Rightarrow> save_fault \<Rightarrow> state_file \<Rightarrow> state_file" where
  "save_state st SaveOk f = StateFile st"
| "save_state st OpenFails f = f"
| "save_state st WriteFails f = BadStateFile"

definition get_channel :: "chan_state \<Rightarrow> string \<Rightarrow> chan_record option" where
  "get_channel st i = map_of st i"

definition update_channel ::
  "string \<Rightarrow> json \<Rightarrow> string \<Rightarrow> string option \<Rightarrow> nat \<Rightarrow> chan_state \<Rightarrow> chan_state" where
  "update_channel i name exported last_msg tot st =
     dset i \<lparr>c_name = name, c_last_export_at = exported,
        c_last_message_at = (case last_msg of None \<Rightarrow> exported | Some t \<Rightarrow> if t = [] then exported else t),
        c_total = tot\<rparr> st"

definition reset_state :: "save_fault \<Rightarrow> state_file \<Rightarrow> state_file" where
  "reset_state fault f = save_state [] fault NoStateFile"

section \<open>What needs an export\<close>

datatype export_reason = NewChannel | ActivitySince string

record export_need =
  n_id :: string
  n_name :: json
  n_last_export_at :: "string option"
  n_last_message_at :: json
  n_reason :: export_reason

text \<open>\<open>channel["id"]\<close>: channel ids are strings.\<close>

definition channel_id :: "jobj \<Rightarrow> string result" where
  "channel_id ch = (case map_of ch ''id'' of Some (JStr i) \<Rightarrow> Inr i | None \<Rightarrow> Inl (KeyError ''id'') | _ \<Rightarrow> Inl TypeError)"

text \<open>One turn of the loop: \<open>None\<close> when nothing is to be exported.\<close>

definition channel_need :: "chan_state \<Rightarrow> jobj \<Rightarrow> export_need option result" where
  "channel_need st ch =
     bindE (channel_id ch) (\<lambda>i.
       let name = dget ch ''name'' (JStr i);
           last_msg = dget ch ''last_message_timestamp'' JNull
       in case get_channel st i of
            None \<Rightarrow> Inr (Some \<lparr>n_id = i, n_name = name, n_last_export_at = None,
                               n_last_message_at = last_msg, n_reason = NewChannel\<rparr>)
          | Some r \<Rightarrow>
              if \<not> truthy last_msg then Inr None
              else case last_msg of
                     JStr t \<Rightarrow>
                       if t > c_last_export_at r
                       then Inr (Some \<lparr>n_id = i, n_name = name,
                                  n_last_export_at = Some (c_last_export_at r), n_last_message_at = last_msg,
                                  n_reason = ActivitySince (c_last_export_at r)\<rparr>)
                       else Inr None
                   | _ \<Rightarrow> Inl TypeError)"

definition channels_needing_export :: "chan_state \<Rightarrow> jobj list \<Rightarrow> export_need list result" where
  "channels_needing_export st chs =
     bindE (mapE (channel_need st) chs) (\<lambda>xs. Inr (concat (map (\<lambda>x. case x of None \<Rightarrow> [] | Some n \<Rightarrow> [n]) xs)))"

section \<open>Where the channels come from\<close>

text \<open>\<open>_snowflake_to_timestamp\<close>; the id is a number in a string, the date arithmetic a parameter.\<close>

definition snowflake_ms :: "int \<Rightarrow> int" where
  "snowflake_ms i = i div 4194304 + 1420070400000"

definition snowflake_to_timestamp :: "(int \<Rightarrow> string) \<Rightarrow> json \<Rightarrow> json result" where
  "snowflake_to_timestamp fmt v =
     (if \<not> truthy v then Inr JNull else bindE (py_int v) (\<lambda>i. Inr (JStr (fmt (snowflake_ms i)))))"

text \<open>The channel dict \<open>_fetch_discord_channels\<close> builds, for the types 0, 5 and 15.\<close>

definition fetched_channel :: "(int \<Rightarrow> string) \<Rightarrow> jobj \<Rightarrow> jobj list result" where
  "fetched_channel fmt ch =
     (if dget ch ''type'' (JInt 0) \<notin> {JInt 0, JInt 5, JInt 15} then Inr []
      else case map_of ch ''id'' of
             None \<Rightarrow> Inl (KeyError ''id'')
           | Some i \<Rightarrow>
               bindE (snowflake_to_timestamp fmt (dget ch ''last_message_id'' JNull)) (\<lambda>t.
                 Inr [[(''id'', i), (''name'', dget ch ''name'' (JStr [])), (''last_message_at'', t)]]))"

text \<open>
  The whole call: missing credentials, a transport error (\<open>None\<close>), a status, the body; every
  exception gives the empty list.
\<close>

definition fetch_discord_channels ::
  "(int \<Rightarrow> string) \<Rightarrow> bool \<Rightarrow> (int \<times> jobj list) option \<Rightarrow> jobj list" where
  "fetch_discord_channels fmt configured resp =
     (if \<not> configured then []
      else case resp of
             None \<Rightarrow> []
           | Some (status, raw) \<Rightarrow>
               if status \<noteq> 200 then []
               else case mapE (fetched_channel fmt) raw of Inl e \<Rightarrow> [] | Inr chs \<Rightarrow> concat chs)"

section \<open>Properties\<close>

lemma channels_needing_exportD:
  assumes "channels_needing_export st chs = Inr needs"
  shows "n \<in> set needs \<longleftrightarrow> (\<exists>ch\<in>set chs. channel_need st ch = Inr (Some n))"
proof -
  obtain xs where xs: "mapE (channel_need st) chs = Inr xs"
    "needs = concat (map (\<lambda>x. case x of None \<Rightarrow> [] | Some n \<Rightarrow> [n]) xs)"
    using assms by (auto simp: channels_needing_export_def bindE_eq_Inr)
  have "mapE f ys = Inr zs \<Longrightarrow> (z \<in> set zs) = (\<exists>y\<in>set ys. f y = Inr z)" for f :: "jobj \<Rightarrow> export_need option result" and ys zs z
    by (induction ys arbitrary: zs) (auto simp: bindE_eq_Inr)
  from this [OF xs(1)] show ?thesis
    by (auto simp: xs(2) split: option.splits)
qed

lemma channel_need_timed:
  assumes "map_of ch ''id'' = Some (JStr i)" "dget ch ''last_message_timestamp'' JNull = JStr t" "t \<noteq> []"
  shows "(\<exists>n. channel_need st ch = Inr (Some n))
      \<longleftrightarrow> (case get_channel st i of None \<Rightarrow> True | Some r \<Rightarrow> c_last_export_at r < t)"
    "channel_need st ch = Inr (Some n) \<Longrightarrow>
      n_id n = i \<and> n_last_export_at n = map_option c_last_export_at (get_channel st i)"
  using assms by (auto simp: channel_need_def channel_id_def Let_def split: option.splits if_splits)

text \<open>
  The export rule. When an evaluation succeeds, a channel that carries a message time is
  exported exactly if it has no record yet or that time is later than its last export, and the
  time of that export is what is handed on.
\<close>

theorem export_rule:
  assumes "channels_needing_export st chs = Inr needs" and "ch \<in> set chs"
    and "map_of ch ''id'' = Some (JStr i)" and "dget ch ''last_message_timestamp'' JNull = JStr t" "t \<noteq> []"
  shows "(\<exists>n\<in>set needs. channel_need st ch = Inr (Some n) \<and> n_id n = i
            \<and> n_last_export_at n = map_option c_last_export_at (get_channel st i))
    \<longleftrightarrow> (case get_channel st i of None \<Rightarrow> True | Some r \<Rightarrow> c_last_export_at r < t)"
  using channel_need_timed [OF assms(3-5)] channels_needing_exportD [OF assms(1)] assms(2) by blast

definition example_state :: chan_state where
  "example_state = update_channel ''7'' (JStr ''general'') ''2026-05-01'' None 3 []"

definition example_channel :: jobj where
  "example_channel = [(''id'', JStr ''7''), (''last_message_timestamp'', JStr ''2026-05-14'')]"

theorem export_rule_witness:
  "\<exists>needs. channels_needing_export example_state [example_channel] = Inr needs
     \<and> (\<exists>n\<in>set needs. n_id n = ''7'' \<and> n_last_export_at n = Some ''2026-05-01'')"
proof -
  have g: "get_channel example_state ''7'' = Some \<lparr>c_name = JStr ''general'', c_last_export_at = ''2026-05-01'',
      c_last_message_at = ''2026-05-01'', c_total = 3\<rparr>"
    by (simp add: example_state_def update_channel_def get_channel_def)
  have c: "map_of example_channel ''id'' = Some (JStr ''7'')"
    "dget example_channel ''last_message_timestamp'' JNull = JStr ''2026-05-14''"
    by (simp_all add: example_channel_def dget_def)
  have lt: "''2026-05-01'' < (''2026-05-14'' :: string)" by code_simp
  have "\<exists>n. channel_need example_state example_channel = Inr (Some n)"
    unfolding channel_need_timed(1) [OF c, of example_state, simplified] using g lt by simp
  then obtain n where "channel_need example_state example_channel = Inr (Some n)" ..
  then obtain needs where r: "channels_needing_export example_state [example_channel] = Inr needs"
    by (simp add: channels_needing_export_def)
  from export_rule [OF r _ c] g lt r show ?thesis by auto
qed

lemma fetched_no_timestamp:
  assumes "ch \<in> set (fetch_discord_channels fmt configured resp)"
  shows "map_of ch ''last_message_timestamp'' = None"
proof -
  have one: "fetched_channel fmt raw = Inr chs \<Longrightarrow> ch \<in> set chs \<Longrightarrow> map_of ch ''last_message_timestamp'' = None"
    for raw chs ch
    by (auto simp: fetched_channel_def bindE_eq_Inr split: if_splits option.splits)
  from assms show ?thesis
    by (auto simp: fetch_discord_channels_def split: if_splits option.splits sum.splits
        dest!: mapE_Inr_set [OF sym] intro: one)
qed

text \<open>
  Exported channels are never exported again. The channels the service fetches carry their
  last message time under \<open>last_message_at\<close>, the evaluation reads \<open>last_message_timestamp\<close>: on
  every state and every answer of Discord, what is exported has no record yet, whatever was posted
  since.
\<close>

theorem never_exported_again:
  assumes "channels_needing_export st (fetch_discord_channels fmt configured resp) = Inr needs"
    and "n \<in> set needs"
  shows "get_channel st (n_id n) = None \<and> n_reason n = NewChannel"
proof -
  obtain ch where ch: "ch \<in> set (fetch_discord_channels fmt configured resp)"
    "channel_need st ch = Inr (Some n)"
    using channels_needing_exportD [OF assms(1)] assms(2) by blast
  have "dget ch ''last_message_timestamp'' JNull = JNull"
    using fetched_no_timestamp [OF ch(1)] by (simp add: dget_def)
  then show ?thesis
    using ch(2) by (auto simp: channel_need_def bindE_eq_Inr Let_def split: option.splits)
qed

definition example_raw :: "jobj list" where
  "example_raw = [[(''id'', JStr ''7''), (''last_message_id'', JStr ''1500000000000000000'')],
                  [(''id'', JStr ''8''), (''type'', JInt 5)]]"

theorem never_exported_again_witness:
  "\<exists>n. channels_needing_export example_state (fetch_discord_channels (\<lambda>ms. ''2026-05-14'') True
        (Some (200, example_raw))) = Inr [n] \<and> n_id n = ''8'' \<and> n_reason n = NewChannel"
proof -
  let ?n = "\<lparr>n_id = ''8'', n_name = JStr [], n_last_export_at = None, n_last_message_at = JNull,
    n_reason = NewChannel\<rparr>"
  have f: "fetch_discord_channels (\<lambda>ms. ''2026-05-14'') True (Some (200, example_raw))
      = [[(''id'', JStr ''7''), (''name'', JStr []), (''last_message_at'', JStr ''2026-05-14'')],
         [(''id'', JStr ''8''), (''name'', JStr []), (''last_message_at'', JNull)]]"
    by (simp add: fetch_discord_channels_def fetched_channel_def example_raw_def dget_def
        snowflake_to_timestamp_def strip_def lstrip_def rstrip_def py_space_def digit_val_def)
  have r: "channels_needing_export example_state (fetch_discord_channels (\<lambda>ms. ''2026-05-14'') True
      (Some (200, example_raw))) = Inr [?n]"
    unfolding f by (simp add: channels_needing_export_def channel_need_def channel_id_def dget_def
        get_channel_def example_state_def update_channel_def)
  from never_exported_again [OF r, of ?n] r show ?thesis by simp
qed

end
