(* ===== verification/Dce_Orchestrator.thy ===== *)
theory Dce_Orchestrator
  imports Dce_Parser Channel_State
begin

text \<open>
  \<open>history-service/dce_orchestrator.py\<close>: one evaluation. Each channel that needs it is exported by a
  DiscordChatExporter container, its output merged into the archive, and its record brought up to
  date; the state file is written at the end. What the container did, the directory it left, the
  clock and the faults of the archive are given per channel. \<open>day_of\<close> is the UTC date of an ISO time.
  Log lines, the streaming of the container's output and the closing of its pipes are left out.
\<close>

section \<open>One export\<close>

text \<open>The process timed out and was killed, exited with a code, or running it raised.\<close>

datatype dce_process = TimedOut | Exited int | RunFailed

text \<open>A file of the output directory: its size, and what \<open>json.load\<close> makes of it.\<close>

type_synonym output_dir = "(string \<times> nat \<times> json option) list"

record export_run =
  x_mkdir :: bool            \<comment> \<open>the directory could be made\<close>
  x_today :: string          \<comment> \<open>the date when the export starts\<close>
  x_process :: dce_process
  x_output :: output_dir
  x_done :: string           \<comment> \<open>the time after the merge\<close>
  x_faults :: "string \<Rightarrow> fault"

definition has_export_output :: "output_dir \<Rightarrow> bool" where
  "has_export_output d \<longleftrightarrow> list_ex (\<lambda>(name, bytes, content). ends_with name ''.json'' \<and> bytes > 0) d"

definition export_command :: "string \<Rightarrow> string \<Rightarrow> string \<Rightarrow> string option \<Rightarrow> string option \<Rightarrow> string list" where
  "export_command user channel out after before =
     [''docker'', ''compose'', ''-f'', ''/etc/dce-compose.yml'', ''run'', ''--rm'', ''--user'', user,
      ''discord-chat-exporter'', ''export'', ''--channel'', channel, ''--format'', ''Json'', ''--output'', out]
     @ (case after of None \<Rightarrow> [] | Some a \<Rightarrow> if a = [] then [] else [''--after'', a])
     @ (case before of None \<Rightarrow> [] | Some b \<Rightarrow> if b = [] then [] else [''--before'', b])"

definition export_channel :: "export_run \<Rightarrow> bool result" where
  "export_channel x =
     (if \<not> x_mkdir x then Inl OSError
      else case x_process x of
             TimedOut \<Rightarrow> Inr False
           | RunFailed \<Rightarrow> Inr False
           | Exited code \<Rightarrow> Inr (code = 0 \<or> has_export_output (x_output x)))"

section \<open>The merge\<close>

definition dir_view :: "output_dir \<Rightarrow> export_dir" where
  "dir_view d = map (\<lambda>(name, bytes, content). (name, content)) d"

fun merge_users ::
  "(string \<Rightarrow> fault) \<Rightarrow> (string \<times> jobj list) list \<Rightarrow> store \<Rightarrow> store \<times> (string \<times> nat) list" where
  "merge_users faults [] s = (s, [])"
| "merge_users faults ((u, rs) # gs) s =
     (let (s1, n) = append_messages u rs (faults u) s; (s2, ns) = merge_users faults gs s1 in (s2, (u, n) # ns))"

definition merge_export ::
  "(json \<Rightarrow> string) \<Rightarrow> (string \<Rightarrow> fault) \<Rightarrow> output_dir \<Rightarrow> store \<Rightarrow> (store \<times> (string \<times> nat) list) result" where
  "merge_export rep faults d s =
     bindE (parse_dce_export_directory rep (Some (dir_view d))) (\<lambda>groups. Inr (merge_users faults groups s))"

section \<open>The evaluation\<close>

text \<open>The dates of an export: everything the first time, from the day of the last export after it.\<close>

definition export_window :: "(string \<Rightarrow> string result) \<Rightarrow> string option \<Rightarrow> string \<Rightarrow> (string option \<times> string option) result" where
  "export_window day_of last_export today =
     (case last_export of
        None \<Rightarrow> Inr (None, None)
      | Some t \<Rightarrow> if t = [] then Inr (None, None) else bindE (day_of t) (\<lambda>d. Inr (Some d, Some today)))"

definition add_counts :: "(string \<times> nat) list \<Rightarrow> (string \<times> nat) list \<Rightarrow> (string \<times> nat) list" where
  "add_counts ns totals = fold (\<lambda>(u, n) d. dset u (dget d u 0 + n) d) ns totals"

definition last_message :: "json \<Rightarrow> string option" where
  "last_message v = (case v of JStr t \<Rightarrow> Some t | _ \<Rightarrow> None)"

text \<open>
  The body of the loop. The archive is written as it goes, so an exception leaves it as it was by
  then; the channel records and the totals of an evaluation that raises are lost.
\<close>

definition export_one ::
  "(string \<Rightarrow> string result) \<Rightarrow> (json \<Rightarrow> string) \<Rightarrow> export_run \<Rightarrow> export_need \<Rightarrow> chan_state \<Rightarrow> (string \<times> nat) list
     \<Rightarrow> store \<Rightarrow> store \<times> (chan_state \<times> (string \<times> nat) list) result" where
  "export_one day_of rep x n st totals s =
     (case bindE (export_window day_of (n_last_export_at n) (x_today x)) (\<lambda>w. export_channel x) of
        Inl e \<Rightarrow> (s, Inl e)
      | Inr False \<Rightarrow> (s, Inr (st, totals))
      | Inr True \<Rightarrow>
          (case merge_export rep (x_faults x) (x_output x) s of
             Inl e \<Rightarrow> (s, Inl e)
           | Inr (s', ns) \<Rightarrow>
               let previous = (case get_channel st (n_id n) of None \<Rightarrow> 0 | Some r \<Rightarrow> c_total r)
               in (s', Inr (update_channel (n_id n) (n_name n) (x_done x) (last_message (n_last_message_at n))
                              (previous + sum_list (map snd ns)) st, add_counts ns totals))))"

fun export_all ::
  "(string \<Rightarrow> string result) \<Rightarrow> (json \<Rightarrow> string) \<Rightarrow> (string \<Rightarrow> export_run) \<Rightarrow> export_need list \<Rightarrow> chan_state
     \<Rightarrow> (string \<times> nat) list \<Rightarrow> store \<Rightarrow> store \<times> (chan_state \<times> (string \<times> nat) list) result" where
  "export_all day_of rep runs [] st totals s = (s, Inr (st, totals))"
| "export_all day_of rep runs (n # ns) st totals s =
     (case export_one day_of rep (runs (n_id n)) n st totals s of
        (s1, Inl e) \<Rightarrow> (s1, Inl e)
      | (s1, Inr (st1, totals1)) \<Rightarrow> export_all day_of rep runs ns st1 totals1 s1)"

definition excluded_need :: "string list \<Rightarrow> export_need \<Rightarrow> bool" where
  "excluded_need excl n \<longleftrightarrow> n_id n \<in> set excl \<or> n_name n \<in> JStr ` set excl"

definition evaluate_and_export ::
  "(string \<Rightarrow> string result) \<Rightarrow> (json \<Rightarrow> string) \<Rightarrow> string list \<Rightarrow> (string \<Rightarrow> export_run) \<Rightarrow> save_fault \<Rightarrow> jobj list
     \<Rightarrow> state_file \<Rightarrow> store \<Rightarrow> state_file \<times> store \<times> (string \<times> nat) list result" where
  "evaluate_and_export day_of rep excl runs fault channels f s =
     (let st = load_state f in
      case channels_needing_export st channels of
        Inl e \<Rightarrow> (f, s, Inl e)
      | Inr needs \<Rightarrow>
          (case export_all day_of rep runs (filter (\<lambda>n. \<not> excluded_need excl n) needs) st [] s of
             (s', Inl e) \<Rightarrow> (f, s', Inl e)
           | (s', Inr (st', totals)) \<Rightarrow> (save_state st' fault f, s', Inr totals)))"

section \<open>The archive only grows\<close>

lemma append_messages_prefix: "prefix (file_of v s) (file_of v (fst (append_messages u rs fault s)))"
  by (auto simp: append_messages_def Let_def split: option.split prod.split)

lemma merge_users_prefix: "prefix (file_of v s) (file_of v (fst (merge_users faults gs s)))"
proof (induction faults gs s rule: merge_users.induct)
  case (2 faults u rs gs s)
  obtain s1 n where a: "append_messages u rs (faults u) s = (s1, n)" by force
  have "prefix (file_of v s) (file_of v s1)" using append_messages_prefix [of v s u rs "faults u"] a by simp
  moreover have "prefix (file_of v s1) (file_of v (fst (merge_users faults gs s1)))" using 2 a by simp
  ultimately show ?case using a by (auto simp: case_prod_unfold Let_def intro: prefix_order.trans)
qed simp

lemma export_one_prefix: "prefix (file_of v s) (file_of v (fst (export_one day_of rep x n st totals s)))"
  using merge_users_prefix
  by (auto simp: export_one_def merge_export_def bindE_def split: sum.split bool.split)
    (metis fst_conv)

lemma export_all_prefix: "prefix (file_of v s) (file_of v (fst (export_all day_of rep runs ns st totals s)))"
proof (induction ns arbitrary: st totals s)
  case (Cons n ns)
  obtain s1 r where o: "export_one day_of rep (runs (n_id n)) n st totals s = (s1, r)" by force
  have p: "prefix (file_of v s) (file_of v s1)" using export_one_prefix [of v s] o by (metis fst_conv)
  show ?case
  proof (cases r)
    case (Inr st1)
    then show ?thesis using o p Cons.IH [of s1] by (auto simp: case_prod_unfold intro: prefix_order.trans)
  qed (use o p in simp)
qed simp

text \<open>
  An evaluation loses no line. Whatever the containers do, whatever directories they leave,
  whichever writes fail and whether it raises or returns, every user's file afterwards begins with
  what it was.
\<close>

theorem evaluation_only_appends:
  "prefix (file_of u s) (file_of u (fst (snd (evaluate_and_export day_of rep excl runs fault channels f s))))"
  using export_all_prefix
  by (auto simp: evaluate_and_export_def Let_def split: sum.split prod.split) (metis fst_conv)+

section \<open>The counts\<close>

definition new_of :: "string \<Rightarrow> (string \<times> nat) list \<Rightarrow> nat" where
  "new_of v ns = sum_list (map snd (filter (\<lambda>x. fst x = v) ns))"

lemma merge_users_exact:
  "store_ok s \<Longrightarrow> (\<And>u. faults u = None) \<Longrightarrow> merge_users faults gs s = (s', ns) \<Longrightarrow>
     store_ok s' \<and> length (line_ids (file_of v s')) = length (line_ids (file_of v s)) + new_of v ns"
proof (induction gs arbitrary: s ns)
  case (Cons g gs)
  obtain u rs where g: "g = (u, rs)" by force
  obtain s1 n where a: "append_messages u rs None s = (s1, n)" by force
  have "faults u = None" using Cons.prems(2) .
  then obtain ms where r: "merge_users faults gs s1 = (s', ms)" "ns = (u, n) # ms"
    using Cons.prems(3) a by (auto simp: g Let_def split: prod.splits)
  note o = append_messages_ok [OF Cons.prems(1) a]
  from Cons.IH [OF o(1) Cons.prems(2) r(1)] show ?case
    using o(3,4) by (cases "u = v") (auto simp: r(2) new_of_def)
qed (simp add: new_of_def)

lemma add_counts_dget: "dget (add_counts ns totals) v 0 = dget totals v 0 + new_of v ns"
  unfolding add_counts_def
  by (induction ns arbitrary: totals) (auto simp: new_of_def dget_def)

lemma export_all_exact:
  "store_ok s \<Longrightarrow> (\<And>i u. x_faults (runs i) u = None) \<Longrightarrow> export_all day_of rep runs ns st totals s = (s', Inr (st', totals')) \<Longrightarrow>
     store_ok s' \<and> length (line_ids (file_of v s')) + dget totals v 0 = length (line_ids (file_of v s)) + dget totals' v 0"
proof (induction ns arbitrary: st totals s)
  case (Cons n ns)
  obtain s1 st1 totals1 where one: "export_one day_of rep (runs (n_id n)) n st totals s = (s1, Inr (st1, totals1))"
    and rest: "export_all day_of rep runs ns st1 totals1 s1 = (s', Inr (st', totals'))"
    using Cons.prems(3) by (auto split: prod.splits sum.splits)
  have "store_ok s1 \<and> length (line_ids (file_of v s1)) + dget totals v 0 = length (line_ids (file_of v s)) + dget totals1 v 0"
  proof (cases "s1 = s \<and> totals1 = totals")
    case False
    then obtain ms where m: "merge_export rep (x_faults (runs (n_id n))) (x_output (runs (n_id n))) s = Inr (s1, ms)"
      "totals1 = add_counts ms totals"
      using one by (auto simp: export_one_def Let_def split: sum.splits bool.splits)
    then obtain gs where "merge_users (x_faults (runs (n_id n))) gs s = (s1, ms)"
      by (auto simp: merge_export_def bindE_eq_Inr)
    from merge_users_exact [OF Cons.prems(1,2) this] show ?thesis by (simp add: m(2) add_counts_dget)
  qed (use Cons.prems(1) in simp)
  then show ?case using Cons.IH [OF _ Cons.prems(2) rest] by auto
qed simp

text \<open>
  The report of an evaluation is exact. When no write fails, the number reported for a user is
  the number of messages his archive has gained, nobody else's has changed, and no message is in it
  twice.
\<close>

theorem evaluation_counts:
  assumes "store_ok s" and "\<And>i u. x_faults (runs i) u = None"
    and "evaluate_and_export day_of rep excl runs fault channels f s = (f', s', Inr totals)"
  shows "store_ok s' \<and> length (line_ids (file_of u s')) = length (line_ids (file_of u s)) + dget totals u 0"
proof -
  obtain needs st' where "export_all day_of rep runs needs (load_state f) [] s = (s', Inr (st', totals))"
    using assms(3) by (auto simp: evaluate_and_export_def Let_def split: sum.splits prod.splits)
  from export_all_exact [OF assms(1,2) this, of u] show ?thesis by (simp add: dget_def)
qed

text \<open>One channel with one message, and a second whose container died over a half-written file.\<close>

definition example_export :: json where
  "example_export = JObj [(''channel'', JObj [(''id'', JStr ''1''), (''name'', JStr ''general'')]), (''messages'', JList [example_message])]"

definition example_runs :: "string \<Rightarrow> export_run" where
  "example_runs i =
     \<lparr>x_mkdir = True, x_today = ''2026-05-14'', x_process = Exited (if i = ''1'' then 0 else 1),
      x_output = (if i = ''1'' then [(''a.json'', 700, Some example_export)] else [(''b.json'', 4096, None)]),
      x_done = ''2026-05-14T03:10'', x_faults = (\<lambda>u. None)\<rparr>"

definition example_channels :: "jobj list" where
  "example_channels = [[(''id'', JStr ''1''), (''name'', JStr ''general'')], [(''id'', JStr ''2''), (''name'', JStr ''lounge'')]]"

definition empty_store :: store where "empty_store = \<lparr>st_files = [], st_cache = []\<rparr>"

theorem evaluation_counts_witness:
  "\<exists>f' s'. evaluate_and_export Inr (\<lambda>v. ''?'') [] example_runs SaveOk example_channels NoStateFile empty_store = (f', s', Inr [(''7'', 1)])
     \<and> length (line_ids (file_of ''7'' s')) = 1"
proof -
  let ?r = "evaluate_and_export Inr (\<lambda>v. ''?'') [] example_runs SaveOk example_channels NoStateFile empty_store"
  have "(case snd (snd ?r) of Inr t \<Rightarrow> t = [(''7'', 1)] | Inl e \<Rightarrow> False)" by code_simp
  then obtain f' s' where r: "?r = (f', s', Inr [(''7'', 1)])" by (cases ?r) (auto split: sum.splits)
  have "store_ok empty_store" by (simp add: store_ok_def empty_store_def file_of_def dget_def)
  from evaluation_counts [OF this _ r, of "''7''"] r show ?thesis
    by (simp add: example_runs_def empty_store_def file_of_def dget_def)
qed

section \<open>The channel records\<close>

lemma export_all_records:
  "export_all day_of rep runs ns st totals s = (s', Inr (st', totals')) \<Longrightarrow> get_channel st' i \<noteq> get_channel st i \<Longrightarrow>
     export_channel (runs i) = Inr True \<and> (\<exists>n\<in>set ns. n_id n = i)
     \<and> map_option c_last_export_at (get_channel st' i) = Some (x_done (runs i))"
proof (induction ns arbitrary: st totals s)
  case (Cons n ns)
  obtain s1 st1 totals1 where one: "export_one day_of rep (runs (n_id n)) n st totals s = (s1, Inr (st1, totals1))"
    and rest: "export_all day_of rep runs ns st1 totals1 s1 = (s', Inr (st', totals'))"
    using Cons.prems(1) by (auto split: prod.splits sum.splits)
  show ?case
  proof (cases "get_channel st' i = get_channel st1 i")
    case False
    then show ?thesis using Cons.IH [OF rest] by auto
  next
    case True
    then have d: "get_channel st1 i \<noteq> get_channel st i" using Cons.prems(2) by simp
    then have "st1 \<noteq> st" by auto
    then have "export_channel (runs (n_id n)) = Inr True"
      and u: "\<exists>nm m t. st1 = update_channel (n_id n) nm (x_done (runs (n_id n))) m t st"
      using one by (auto simp: export_one_def bindE_eq_Inr Let_def split: sum.splits bool.splits)
    moreover have "n_id n = i" using u d by (auto simp: update_channel_def get_channel_def split: if_splits)
    ultimately show ?thesis using True by (auto simp: update_channel_def get_channel_def)
  qed
qed simp

text \<open>
  Only an export that counted as one moves a record. After an evaluation whose state was saved, a
  channel whose record changed was to be exported, is not excluded, its export succeeded, and the record
  carries the time of its merge; every other record is as it was, so a failed channel is tried
  again.
\<close>

theorem failed_export_keeps_record:
  assumes "evaluate_and_export day_of rep excl runs SaveOk channels f s = (f', s', Inr totals)"
    and "channels_needing_export (load_state f) channels = Inr needs"
    and "get_channel (load_state f') i \<noteq> get_channel (load_state f) i"
  shows "export_channel (runs i) = Inr True \<and> (\<exists>n\<in>set needs. n_id n = i \<and> \<not> excluded_need excl n)
    \<and> map_option c_last_export_at (get_channel (load_state f') i) = Some (x_done (runs i))"
proof -
  obtain st' where e: "export_all day_of rep runs (filter (\<lambda>n. \<not> excluded_need excl n) needs) (load_state f) [] s = (s', Inr (st', totals))"
    "f' = StateFile st'"
    using assms(1,2) by (auto simp: evaluate_and_export_def Let_def split: sum.splits prod.splits)
  from export_all_records [OF e(1), of i] show ?thesis using assms(3) by (auto simp: e(2))
qed

theorem failed_export_keeps_record_witness:
  "\<exists>f' s' t. evaluate_and_export Inr (\<lambda>v. ''?'') [] (\<lambda>i. (example_runs i)\<lparr>x_output := [(''a.json'', 0, None)]\<rparr>) SaveOk example_channels
       NoStateFile empty_store = (f', s', Inr t)
     \<and> get_channel (load_state f') ''2'' = None \<and> map_option c_last_export_at (get_channel (load_state f') ''1'') = Some ''2026-05-14T03:10''"
proof -
  let ?x = "\<lambda>i. (example_runs i)\<lparr>x_output := [(''a.json'', 0, None)]\<rparr>"
  let ?r = "evaluate_and_export Inr (\<lambda>v. ''?'') [] ?x SaveOk example_channels NoStateFile empty_store"
  have c: "(case snd (snd ?r) of Inr t \<Rightarrow> t = [] | Inl e \<Rightarrow> False) \<and> get_channel (load_state (fst ?r)) ''2'' = None
      \<and> get_channel (load_state (fst ?r)) ''1'' \<noteq> None" by code_simp
  then obtain f' s' where r: "?r = (f', s', Inr [])" by (cases ?r) (auto split: sum.splits)
  obtain needs where n: "channels_needing_export (load_state NoStateFile) example_channels = Inr needs"
    using r by (auto simp: evaluate_and_export_def Let_def split: sum.splits)
  have "get_channel (load_state f') ''1'' \<noteq> get_channel (load_state NoStateFile) ''1''" using c r by (simp add: get_channel_def)
  from failed_export_keeps_record [OF r n this] c r show ?thesis by (auto simp: example_runs_def)
qed

text \<open>
  A container that fails over a half-written file counts as an export: any non-empty JSON file in its
  directory is taken for the whole of it. The file cannot be parsed, nothing is merged, and the channel is
  recorded as exported.
\<close>

theorem torn_export_counts:
  "let (f', s', r) = evaluate_and_export Inr (\<lambda>v. ''?'') [] example_runs SaveOk example_channels NoStateFile empty_store
   in map_option (\<lambda>c. (c_last_export_at c, c_total c)) (get_channel (load_state f') ''2'') = Some (''2026-05-14T03:10'', 0)
      \<and> get_message_count ''7'' s' = 1"
  by code_simp

section \<open>What repeated exports ask for\<close>

text \<open>
  Days are ISO dates, which sort as the days do, and an instant is a day with a time on it. An export
  begins at one instant and is recorded at another, not earlier; the container is asked for the days of
  its window and has the messages sent so far. How the exporter reads \<open>--before\<close> is its own affair: the
  docstring of \<open>export_channel\<close> says inclusive, and \<open>incl\<close> leaves it open.
\<close>

type_synonym instant = "string \<times> nat"

definition covers :: "bool \<Rightarrow> string option \<times> string option \<Rightarrow> string \<Rightarrow> bool" where
  "covers incl w d \<longleftrightarrow> (case fst w of None \<Rightarrow> True | Some a \<Rightarrow> a \<le> d)
     \<and> (case snd w of None \<Rightarrow> True | Some b \<Rightarrow> if incl then d \<le> b else d < b)"

fun windows :: "string option \<Rightarrow> (instant \<times> instant) list \<Rightarrow> ((string option \<times> string option) \<times> instant) list" where
  "windows last_day [] = []"
| "windows last_day ((begun, recorded) # rs) =
     ((case export_window Inr last_day (fst begun) of Inr w \<Rightarrow> w | Inl e \<Rightarrow> (None, None)), begun)
     # windows (Some (fst recorded)) rs"

text \<open>A message sent at \<open>t\<close> is in one of the exports.\<close>

definition message_exported :: "bool \<Rightarrow> string option \<Rightarrow> (instant \<times> instant) list \<Rightarrow> instant \<Rightarrow> bool" where
  "message_exported incl last_day rs t \<longleftrightarrow> list_ex (\<lambda>(w, begun). covers incl w (fst t) \<and> t < begun) (windows last_day rs)"

fun in_order :: "instant \<Rightarrow> (instant \<times> instant) list \<Rightarrow> bool" where
  "in_order l [] \<longleftrightarrow> True"
| "in_order l ((begun, recorded) # rs) \<longleftrightarrow> l \<le> begun \<and> begun \<le> recorded \<and> fst recorded \<noteq> [] \<and> in_order recorded rs"

text \<open>An export that began too early for \<open>t\<close> and was recorded on a later day.\<close>

definition began_before :: "bool \<Rightarrow> instant \<Rightarrow> instant \<Rightarrow> bool" where
  "began_before incl t b \<longleftrightarrow> (if incl then b \<le> t else fst b \<le> fst t)"

lemma instant_order: "(x :: instant) \<le> y \<Longrightarrow> fst x \<le> fst y" "fst x < fst y \<Longrightarrow> x < y"
  by (cases x; cases y; auto)+

lemma began_before_mono: "began_before incl t b' \<Longrightarrow> b \<le> b' \<Longrightarrow> began_before incl t b"
  unfolding began_before_def using instant_order(1) by (meson order_trans)

lemma in_order_later: "in_order l rs \<Longrightarrow> (b, e) \<in> set rs \<Longrightarrow> l \<le> b"
  by (induction l rs rule: in_order.induct) (auto intro: order_trans)

lemma first_window: "fst l \<noteq> [] \<Longrightarrow>
    message_exported incl (Some (fst l)) ((b, e) # rs) t
      \<longleftrightarrow> fst l \<le> fst t \<and> \<not> began_before incl t b \<or> message_exported incl (Some (fst e)) rs t"
  using instant_order [of t b] by (auto simp: message_exported_def export_window_def covers_def began_before_def not_le)

lemma messages_after:
  "in_order l rs \<Longrightarrow> rs \<noteq> [] \<Longrightarrow> fst l \<noteq> [] \<Longrightarrow> fst t < fst (fst (last rs)) \<Longrightarrow>
     message_exported incl (Some (fst l)) rs t
       \<longleftrightarrow> fst l \<le> fst t \<and> \<not> list_ex (\<lambda>(b, e). began_before incl t b \<and> fst t < fst e) (butlast rs)"
proof (induction l rs rule: in_order.induct)
  case (2 l b e rs)
  note w = first_window [OF "2.prems"(3), of incl b e rs t]
  have o': "l \<le> b" "b \<le> e" "fst e \<noteq> []" "in_order e rs" using "2.prems"(1) by simp_all
  show ?case
  proof (cases "rs = []")
    case True
    then have "\<not> began_before incl t b"
      using "2.prems"(4) instant_order(2) [of t b] by (auto simp: began_before_def)
    then show ?thesis using w True by (simp add: message_exported_def)
  next
    case False
    have ih: "message_exported incl (Some (fst e)) rs t
        \<longleftrightarrow> fst e \<le> fst t \<and> \<not> list_ex (\<lambda>(b, e). began_before incl t b \<and> fst t < fst e) (butlast rs)"
      using 2 False by simp
    have none: "\<not> list_ex (\<lambda>(b, e). began_before incl t b \<and> fst t < fst e) (butlast rs)" if "\<not> began_before incl t b"
    proof -
      have "\<not> began_before incl t b'" if "(b', e') \<in> set (butlast rs)" for b' e'
        using \<open>\<not> began_before incl t b\<close> in_order_later [OF o'(4) in_set_butlastD [OF that]] o'(2) began_before_mono
        by (meson order_trans)
      then show ?thesis by (auto simp: list_ex_iff)
    qed
    have "fst l \<le> fst e" using instant_order(1) [of l e] o'(1,2) by (meson order_trans)
    then show ?thesis using w ih none False by (cases "began_before incl t b") (auto simp: not_less)
  qed
qed simp

text \<open>
  C30: No message is missed, except under an export. A channel is exported again and again, the first time
  without dates. A message of a day before that of the last export is in one of the exports, unless it came
  after the first export began, and an export before the last was recorded on a later day than the
  message's and had begun by then: by its instant if it is the first or the exporter takes
  \<open>--before\<close> as inclusive, and by its day otherwise. Those messages, and only those, no export asks for.
\<close>

theorem messages_missed:
  assumes "in_order ([], 0) ((b, e) # rs @ [(b', e')])" and "fst t < fst b'"
  shows "message_exported incl None ((b, e) # rs @ [(b', e')]) t
    \<longleftrightarrow> \<not> (b \<le> t \<and> (fst t < fst e \<or> list_ex (\<lambda>(b, e). (if incl then b \<le> t else fst b \<le> fst t) \<and> fst t < fst e) rs))"
proof -
  have o': "fst e \<noteq> []" "in_order e (rs @ [(b', e')])" using assms(1) by simp_all
  have "message_exported incl None ((b, e) # rs @ [(b', e')]) t
      \<longleftrightarrow> t < b \<or> message_exported incl (Some (fst e)) (rs @ [(b', e')]) t"
    by (auto simp: message_exported_def export_window_def covers_def)
  moreover have "message_exported incl (Some (fst e)) (rs @ [(b', e')]) t
      \<longleftrightarrow> fst e \<le> fst t \<and> \<not> list_ex (\<lambda>(b, e). began_before incl t b \<and> fst t < fst e) rs"
    using messages_after [OF o'(2) _ o'(1), of t incl] assms(2) by simp
  ultimately show ?thesis by (auto simp: not_less not_le began_before_def)
qed

text \<open>
  Three exports, the second of them over midnight: of the day it began on, the messages sent after it
  began are missed however \<open>--before\<close> is read, and those sent before it if it is read as exclusive.
\<close>

definition may :: string where "may = ''2026-05-13''"
definition june :: string where "june = ''2026-06-13''"
definition june_next :: string where "june_next = ''2026-06-14''"
definition july :: string where "july = ''2026-07-13''"

lemma example_days: "may < june" "june < june_next" "june_next < july" "may < june_next" "june < july" "may < july" "june_next \<noteq> []" "may \<noteq> []" "july \<noteq> []" "\<not> june \<le> may" "\<not> june < may"
  by code_simp+

theorem messages_missed_witness:
  "let rs = [((may, 10), (may, 11)), ((june, 80000), (june_next, 5)), ((july, 10), (july, 11))]
   in message_exported True None rs (may, 20) \<and> message_exported False None rs (may, 20)
    \<and> \<not> message_exported True None rs (june, 80001) \<and> \<not> message_exported False None rs (june, 7)
    \<and> message_exported True None rs (june, 7)"
proof -
  let ?rs = "((may, 10), (may, 11)) # [((june, 80000), (june_next, 5))] @ [((july, 10), (july, 11))]"
  have o': "in_order ([], 0) ?rs" using example_days by simp
  have "message_exported incl None ?rs (may, 20)" "\<not> message_exported True None ?rs (june, 80001)"
    "\<not> message_exported False None ?rs (june, 7)" "message_exported True None ?rs (june, 7)" for incl
    using messages_missed [OF o', where t = "(may, 20)" and incl = incl] messages_missed [OF o', where t = "(june, 80001)" and incl = True]
      messages_missed [OF o', where t = "(june, 7)" and incl = False] messages_missed [OF o', where t = "(june, 7)" and incl = True]
      example_days by (cases incl; simp)+
  then show ?thesis by simp
qed

end
