(* ===== verification/History_Service.thy ===== *)
theory History_Service
  imports Dce_Orchestrator
begin

text \<open>
  \<open>history-service/image_captioner.py\<close>, \<open>config.py\<close> and the endpoints of \<open>main.py\<close> that are in no other
  theory: the captioning of pending images, when it may run, \<open>/evaluate\<close>, \<open>/status\<close>, \<open>/clear\<close>. The
  downloads and the answers of the proxy are given. Between the reading of a user's records and their
  rewriting other work may change the store, so both moments have their own.
\<close>

section \<open>Configuration\<close>

text \<open>A flag of the environment; a comma-separated list of ids or names.\<close>

definition env_true :: "string \<Rightarrow> bool" where
  "env_true v \<longleftrightarrow> map lower_char v = ''true''"

definition env_list :: "string \<Rightarrow> string list" where
  "env_list v = map strip (filter (\<lambda>x. strip x \<noteq> []) (split_on '','' v))"

definition missing_settings :: "string \<Rightarrow> string \<Rightarrow> string \<Rightarrow> string list" where
  "missing_settings tok guild url =
     concat (map (\<lambda>(n, v). if v = [] then [n] else [])
       [(''DISCORD_TOKEN'', tok), (''DISCORD_GUILD_ID'', guild), (''PROXY_URL'', url)])"

definition validate_required :: "string \<Rightarrow> string \<Rightarrow> string \<Rightarrow> unit result" where
  "validate_required tok guild url = (if missing_settings tok guild url = [] then Inr () else Inl ValueError)"

definition IMAGE_CAPTION_BATCH_SIZE :: nat where "IMAGE_CAPTION_BATCH_SIZE = 10"
definition IMAGE_CAPTION_WINDOW_START :: int where "IMAGE_CAPTION_WINDOW_START = 3"
definition IMAGE_CAPTION_WINDOW_END :: int where "IMAGE_CAPTION_WINDOW_END = 6"
definition IMAGE_CAPTION_MAX_FILE_SIZE_MB :: int where "IMAGE_CAPTION_MAX_FILE_SIZE_MB = 10"

section \<open>Captions\<close>

text \<open>\<open>None\<close>: the request raised.\<close>

definition proxy_queue_depth :: "(int \<times> json result) option \<Rightarrow> json" where
  "proxy_queue_depth resp =
     (case resp of
        Some (status, Inr body) \<Rightarrow>
          if status = 200 then (case get_in body ''queue_depth'' (JInt 0) of Inr d \<Rightarrow> d | Inl e \<Rightarrow> JInt (- 1)) else JInt (- 1)
      | _ \<Rightarrow> JInt (- 1))"

definition downloaded :: "(int \<times> int) option \<Rightarrow> int \<Rightarrow> bool" where
  "downloaded resp max_mb =
     (case resp of None \<Rightarrow> False | Some (status, bytes) \<Rightarrow> status = 200 \<and> \<not> bytes > max_mb * 1024 * 1024)"

text \<open>The caption in an answer; every exception is \<open>None\<close>.\<close>

definition caption_of :: "(int \<times> json result) option \<Rightarrow> string option" where
  "caption_of resp =
     (case resp of
        Some (status, Inr body) \<Rightarrow>
          if status \<noteq> 200 then None
          else (case bindE (get_in body ''choices'' (JList [])) (\<lambda>choices.
                       if \<not> truthy choices then Inr None
                       else bindE (index_first choices) (\<lambda>c.
                            bindE (get_in c ''message'' (JObj [])) (\<lambda>message.
                            bindE (get_in message ''content'' (JStr [])) (\<lambda>content.
                              if \<not> truthy content then Inr None
                              else case content of JStr s \<Rightarrow> Inr (Some (strip s)) | _ \<Rightarrow> Inl AttributeError)))) of
                  Inl e \<Rightarrow> None | Inr c \<Rightarrow> c)
      | _ \<Rightarrow> None)"

text \<open>The attachment after its turn.\<close>

definition captioned :: "bool \<Rightarrow> string option \<Rightarrow> jobj \<Rightarrow> jobj" where
  "captioned got caption att =
     (if \<not> got then dset ''caption_status'' (JStr ''skipped'') att
      else case caption of
             Some (c # cs) \<Rightarrow> dset ''caption_status'' (JStr ''done'') (dset ''caption'' (JStr (c # cs)) att)
           | _ \<Rightarrow> dset ''caption_status'' (JStr ''error'') att)"

text \<open>\<open>_record_update\<close>: the first record with the id; an index out of range changes nothing.\<close>

definition set_attachment :: "nat \<Rightarrow> jobj \<Rightarrow> jobj \<Rightarrow> jobj" where
  "set_attachment i att r =
     (case map_of r ''attachments'' of
        Some (JList as) \<Rightarrow> dset ''attachments'' (JList (as[i := JObj att])) r
      | _ \<Rightarrow> r)"

fun update_first :: "json \<Rightarrow> nat \<Rightarrow> jobj \<Rightarrow> jobj list \<Rightarrow> jobj list" where
  "update_first k i att [] = []"
| "update_first k i att (r # rs) =
     (if dget r ''message_id'' JNull = k then set_attachment i att r # rs else r # update_first k i att rs)"

type_synonym updates = "(string \<times> jobj list) list"

definition record_update :: "(string \<Rightarrow> jobj list) \<Rightarrow> string \<Rightarrow> jobj \<Rightarrow> nat \<Rightarrow> jobj \<Rightarrow> updates \<Rightarrow> updates" where
  "record_update load u r i att us =
     dset u (update_first (dget r ''message_id'' JNull) i att (case map_of us u of None \<Rightarrow> load u | Some rs \<Rightarrow> rs)) us"

record caption_world =
  w_depth :: "(int \<times> json result) option"
  w_image :: "json \<Rightarrow> (int \<times> int) option"
  w_answer :: "json \<Rightarrow> (int \<times> json result) option"

fun caption_all ::
  "caption_world \<Rightarrow> (string \<Rightarrow> jobj list) \<Rightarrow> (string \<times> jobj \<times> nat \<times> jobj) list \<Rightarrow> updates \<Rightarrow> updates" where
  "caption_all w load [] us = us"
| "caption_all w load ((u, r, i, att) # ps) us =
     (let url = dget att ''url'' (JStr []);
          got = downloaded (w_image w url) IMAGE_CAPTION_MAX_FILE_SIZE_MB
      in caption_all w load ps (record_update load u r i (captioned got (caption_of (w_answer w url)) att) us))"

fun rewrite_all :: "updates \<Rightarrow> store \<Rightarrow> store" where
  "rewrite_all [] s = s"
| "rewrite_all ((u, rs) # us) s = rewrite_all us (rewrite_archive u rs True s)"

text \<open>\<open>queue_depth < 0\<close>, \<open>queue_depth > 0\<close>.\<close>

fun depth_busy :: "json \<Rightarrow> bool result" where
  "depth_busy (JInt d) = Inr (d \<noteq> 0)"
| "depth_busy (JReal d) = Inr (d \<noteq> 0)"
| "depth_busy (JBool b) = Inr b"
| "depth_busy v = Inl TypeError"

text \<open>A batch that starts on the store \<open>s\<close> and finds the store \<open>late\<close> when it writes back.\<close>

definition process_pending_batch :: "caption_world \<Rightarrow> store \<Rightarrow> store \<Rightarrow> (nat \<times> store) result" where
  "process_pending_batch w s late =
     bindE (depth_busy (proxy_queue_depth (w_depth w))) (\<lambda>busy.
       let pending = get_pending_captions IMAGE_CAPTION_BATCH_SIZE s in
       if busy \<or> pending = [] then Inr (0, late)
       else Inr (length pending, rewrite_all (caption_all w (\<lambda>u. load_all_records u None s) pending []) late))"

definition is_within_window :: "int \<Rightarrow> int \<Rightarrow> int \<Rightarrow> bool" where
  "is_within_window first_hour last_hour hour =
     (if first_hour \<le> last_hour then first_hour \<le> hour \<and> hour < last_hour else hour \<ge> first_hour \<or> hour < last_hour)"

text \<open>The job swallows every exception.\<close>

definition caption_batch_job :: "bool \<Rightarrow> int \<Rightarrow> caption_world \<Rightarrow> store \<Rightarrow> store \<Rightarrow> store" where
  "caption_batch_job enabled hour w s late =
     (if \<not> enabled \<or> \<not> is_within_window IMAGE_CAPTION_WINDOW_START IMAGE_CAPTION_WINDOW_END hour then late
      else case process_pending_batch w s late of Inl e \<Rightarrow> late | Inr (n, s') \<Rightarrow> s')"

section \<open>Endpoints\<close>

definition status_counts :: "store \<Rightarrow> nat \<times> (string \<times> nat) list" where
  "status_counts s = (length (st_files s), map (\<lambda>(u, ls). (u, get_message_count u s)) (st_files s))"

datatype evaluation = NoChannels | EvaluationFailed py_error | Evaluated nat nat nat

definition evaluate ::
  "(string \<Rightarrow> string result) \<Rightarrow> (json \<Rightarrow> string) \<Rightarrow> string list \<Rightarrow> (string \<Rightarrow> export_run) \<Rightarrow> save_fault
     \<Rightarrow> (int \<Rightarrow> string) \<Rightarrow> bool \<Rightarrow> (int \<times> jobj list) option \<Rightarrow> state_file \<Rightarrow> store \<Rightarrow> state_file \<times> store \<times> evaluation" where
  "evaluate day_of rep excl runs fault fmt configured resp f s =
     (let channels = fetch_discord_channels fmt configured resp in
      if channels = [] then (f, s, NoChannels)
      else case evaluate_and_export day_of rep excl runs fault channels f s of
             (f', s', Inl e) \<Rightarrow> (f', s', EvaluationFailed e)
           | (f', s', Inr counts) \<Rightarrow> (f', s', Evaluated (length channels) (length counts) (sum_list (map snd counts))))"

text \<open>\<open>/clear\<close>: archives, raw exports (each with whether it can be deleted) and the channel state.\<close>

definition clear_history ::
  "save_fault \<Rightarrow> (string \<times> bool) list \<Rightarrow> state_file \<Rightarrow> store \<Rightarrow> (nat \<times> nat) \<times> (string \<times> bool) list \<times> state_file \<times> store" where
  "clear_history fault raw f s =
     (let (s1, n) = clear_all s
      in ((n, length (filter snd raw)), filter (\<lambda>x. \<not> snd x) raw, reset_state fault f, s1))"

section \<open>What captioning changes\<close>

text \<open>A record with other captions: the same but for the two fields of its attachments.\<close>

definition same_attachment :: "json \<Rightarrow> json \<Rightarrow> bool" where
  "same_attachment a b \<longleftrightarrow> a = b \<or> (\<exists>x y. a = JObj x \<and> b = JObj y
     \<and> (\<forall>k. k \<noteq> ''caption'' \<longrightarrow> k \<noteq> ''caption_status'' \<longrightarrow> map_of y k = map_of x k))"

definition same_message :: "jobj \<Rightarrow> jobj \<Rightarrow> bool" where
  "same_message r r' \<longleftrightarrow> r = r' \<or>
     ((\<forall>k. k \<noteq> ''attachments'' \<longrightarrow> map_of r' k = map_of r k)
      \<and> (\<exists>as bs. map_of r ''attachments'' = Some (JList as) \<and> map_of r' ''attachments'' = Some (JList bs)
           \<and> list_all2 same_attachment as bs))"

lemma same_attachment_refl: "same_attachment a a" by (simp add: same_attachment_def)

lemma same_attachment_trans: "same_attachment a b \<Longrightarrow> same_attachment b c \<Longrightarrow> same_attachment a c"
  unfolding same_attachment_def by (elim disjE exE conjE) simp_all

lemma same_message_refl: "same_message r r" by (simp add: same_message_def)

lemma same_message_trans:
  assumes "same_message a b" "same_message b c" shows "same_message a c"
proof (cases "a = b \<or> b = c")
  case False
  then obtain as bs cs where "map_of a ''attachments'' = Some (JList as)" "map_of b ''attachments'' = Some (JList bs)"
    "map_of c ''attachments'' = Some (JList cs)" "list_all2 same_attachment as bs" "list_all2 same_attachment bs cs"
    using assms by (auto simp: same_message_def)
  moreover from this have "list_all2 same_attachment as cs"
    using list_all2_trans [of same_attachment same_attachment same_attachment as bs cs] same_attachment_trans by blast
  ultimately show ?thesis using assms by (auto simp: same_message_def)
qed (use assms in auto)

lemma captioned_same: "same_attachment (JObj att) (JObj (captioned got c att))"
  by (auto simp: same_attachment_def captioned_def split: option.split list.split)

definition id_of :: "jobj \<Rightarrow> json" where "id_of r = dget r ''message_id'' JNull"

lemma same_message_id: "same_message r r' \<Longrightarrow> id_of r' = id_of r"
  by (auto simp: same_message_def id_of_def dget_def)

lemma set_attachment_same:
  assumes "same_message r c" and "map_of r ''attachments'' = Some (JList as)" and "i < length as" and "as ! i = JObj att"
    and "same_attachment (JObj att) (JObj att')"
  shows "same_message r (set_attachment i att' c)"
proof -
  obtain bs where b: "map_of c ''attachments'' = Some (JList bs)" "list_all2 same_attachment as bs"
    "\<And>k. k \<noteq> ''attachments'' \<Longrightarrow> map_of c k = map_of r k"
    using assms(1,2) same_attachment_refl by (auto simp: same_message_def intro: list.rel_refl)
  have "list_all2 same_attachment (as[i := as ! i]) (bs[i := JObj att'])"
    by (rule list_all2_update_cong [OF b(2)]) (simp add: assms(4,5))
  then have "list_all2 same_attachment as (bs[i := JObj att'])" by simp
  then show ?thesis using b assms(2) by (auto simp: same_message_def set_attachment_def)
qed

lemma update_first_same:
  assumes "list_all2 same_message rs cs" and "distinct (map id_of rs)" and "r \<in> set rs"
    and "map_of r ''attachments'' = Some (JList as)" and "i < length as" and "as ! i = JObj att"
    and "same_attachment (JObj att) (JObj att')"
  shows "list_all2 same_message rs (update_first (id_of r) i att' cs)"
  using assms(1,2,3)
proof (induction rs cs rule: list_all2_induct)
  case (Cons x xs c cs)
  have c: "id_of c = id_of x" using Cons(1) by (rule same_message_id)
  show ?case
  proof (cases "id_of x = id_of r")
    case True
    then have "x = r" using Cons.prems by (cases "x = r") (force, metis distinct.simps(2) image_eqI list.set_map list.simps(9) set_ConsD)
    then show ?thesis using Cons(1,2) c set_attachment_same [OF _ assms(4-7)] by (simp flip: id_of_def)
  next
    case False
    then have "r \<in> set xs" using Cons.prems(2) by auto
    then show ?thesis using Cons False c by (simp flip: id_of_def)
  qed
qed simp

text \<open>Every pending caption is one of an attachment that a record of its user has at that place.\<close>

lemma pending_in_record:
  "(u, r, i, att) \<in> set (get_pending_captions limit s) \<Longrightarrow> dict_ok (st_files s) \<Longrightarrow>
   r \<in> set (line_records (file_of u s)) \<and> (\<exists>as. map_of r ''attachments'' = Some (JList as) \<and> i < length as \<and> as ! i = JObj att)"
proof -
  assume "(u, r, i, att) \<in> set (get_pending_captions limit s)" and d: "dict_ok (st_files s)"
  then obtain v ls q where q: "(v, ls) \<in> set (st_files s)" "q \<in> set (line_records ls)" "(u, r, i, att) \<in> set (pending_of v q)"
    unfolding get_pending_captions_def by (auto dest!: in_set_takeD)
  have p: "u = v \<and> r = q \<and> (\<exists>as. dget q ''attachments'' (JList []) = JList as \<and> i < length as \<and> as ! i = JObj att)"
    using q(3) by (auto simp: pending_of_def in_set_enumerate_eq split: json.splits if_splits) (metis)
  moreover have "file_of v s = ls" using q(1) d by (simp add: file_of_def dget_def map_of_eq_Some_dict_ok)
  ultimately show ?thesis using q(2) by (auto simp: dget_def split: option.splits)
qed

definition updates_same :: "store \<Rightarrow> updates \<Rightarrow> bool" where
  "updates_same s us \<longleftrightarrow> (\<forall>u rs. map_of us u = Some rs \<longrightarrow> list_all2 same_message (line_records (file_of u s)) rs)"

lemma caption_all_same:
  assumes "\<forall>u. distinct (map id_of (line_records (file_of u s)))"
    and "\<forall>(u, r, i, att)\<in>set ps. r \<in> set (line_records (file_of u s))
           \<and> (\<exists>as. map_of r ''attachments'' = Some (JList as) \<and> i < length as \<and> as ! i = JObj att)"
  shows "updates_same s us \<Longrightarrow> updates_same s (caption_all w (\<lambda>u. load_all_records u None s) ps us)"
  using assms(2)
proof (induction ps arbitrary: us)
  case (Cons p ps)
  obtain u r i att where p: "p = (u, r, i, att)" by (cases p)
  then obtain as where a: "r \<in> set (line_records (file_of u s))" "map_of r ''attachments'' = Some (JList as)" "i < length as" "as ! i = JObj att"
    using Cons.prems(2) by auto
  let ?cur = "case map_of us u of None \<Rightarrow> load_all_records u None s | Some rs \<Rightarrow> rs"
  have cur: "list_all2 same_message (line_records (file_of u s)) ?cur"
    using Cons.prems(1) same_message_refl
    by (auto simp: updates_same_def load_all_records_def intro: list.rel_refl split: option.split)
  have "list_all2 same_message (line_records (file_of u s)) (update_first (id_of r) i (captioned got c att) ?cur)" for got c
    using update_first_same [OF cur _ a(1,2,3,4) captioned_same] assms(1) by blast
  then have "updates_same s (record_update (\<lambda>u. load_all_records u None s) u r i (captioned got c att) us)" for got c
    using Cons.prems(1) by (auto simp: updates_same_def record_update_def id_of_def)
  then show ?case using Cons.IH Cons.prems(2) by (auto simp: p Let_def)
qed simp

lemma rewrite_all_file:
  "dict_ok us \<Longrightarrow> file_of v (rewrite_all us s) = (case map_of us v of None \<Rightarrow> file_of v s | Some rs \<Rightarrow> map Rec rs)"
proof (induction us arbitrary: s)
  case (Cons x us)
  then show ?case
    by (cases x) (auto simp: dict_ok_def file_of_rewrite map_of_eq_None_iff [THEN iffD2] split: option.splits)
qed simp

lemma caption_all_dict: "dict_ok us \<Longrightarrow> dict_ok (caption_all w load ps us)"
  by (induction ps arbitrary: us) (auto simp: record_update_def Let_def dict_ok_dset)

text \<open>
  With the store to itself, a caption batch changes nothing but captions: every user keeps the same
  messages in the same order, each the same up to the caption and its status in the attachments.
\<close>

theorem captions_only:
  assumes "dict_ok (st_files s)" and "\<forall>u. distinct (map id_of (line_records (file_of u s)))"
    and "process_pending_batch w s s = Inr (n, s')"
  shows "list_all2 same_message (line_records (file_of u s)) (line_records (file_of u s'))"
proof -
  have same: "updates_same s (caption_all w (\<lambda>u. load_all_records u None s) (get_pending_captions IMAGE_CAPTION_BATCH_SIZE s) [])"
    by (rule caption_all_same [OF assms(2)]) (use pending_in_record [OF _ assms(1)] in \<open>auto simp: updates_same_def\<close>)
  have keep: "list_all2 same_message xs xs" for xs by (simp add: list.rel_refl same_message_refl)
  consider "s' = s" | "s' = rewrite_all (caption_all w (\<lambda>u. load_all_records u None s) (get_pending_captions IMAGE_CAPTION_BATCH_SIZE s) []) s"
    using assms(3) by (auto simp: process_pending_batch_def bindE_eq_Inr Let_def split: if_splits)
  then show ?thesis
  proof cases
    case 2
    then show ?thesis
      using same keep by (auto simp: rewrite_all_file caption_all_dict updates_same_def split: option.splits)
  qed (simp add: keep)
qed

definition pending_message :: "string \<Rightarrow> jobj" where
  "pending_message i = [(''message_id'', JStr i), (''attachments'', JList [JObj [(''url'', JStr ''x''), (''caption_status'', JStr ''pending'')]])]"

definition one_pending :: store where
  "one_pending = \<lparr>st_files = [(''u'', [Rec (pending_message ''1''), Rec [(''message_id'', JStr ''2'')]])], st_cache = []\<rparr>"

definition cat_world :: caption_world where
  "cat_world = \<lparr>w_depth = Some (200, Inr (JObj [(''queue_depth'', JInt 0)])), w_image = (\<lambda>url. Some (200, 5)),
     w_answer = (\<lambda>url. Some (200, Inr (JObj [(''choices'', JList [JObj [(''message'', JObj [(''content'', JStr '' a cat '')])]])])))\<rparr>"

definition captioned_store :: store where
  "captioned_store = \<lparr>st_files = [(''u'', [Rec [(''message_id'', JStr ''1''), (''attachments'', JList [JObj [(''url'', JStr ''x''),
     (''caption_status'', JStr ''done''), (''caption'', JStr ''a cat'')]])], Rec [(''message_id'', JStr ''2'')]])], st_cache = []\<rparr>"

theorem captions_only_witness:
  "process_pending_batch cat_world one_pending one_pending = Inr (1, captioned_store)
   \<and> list_all2 same_message (line_records (file_of ''u'' one_pending)) (line_records (file_of ''u'' captioned_store))"
proof (rule conjI)
  show p: "process_pending_batch cat_world one_pending one_pending = Inr (1, captioned_store)" by code_simp
  have "distinct (map id_of (line_records (file_of u one_pending)))" for u
    by (cases "u = ''u''") (simp_all add: one_pending_def file_of_def dget_def id_of_def pending_message_def)
  then show "list_all2 same_message (line_records (file_of ''u'' one_pending)) (line_records (file_of ''u'' captioned_store))"
    by (intro captions_only [OF _ _ p]) (simp_all add: one_pending_def dict_ok_def)
qed

text \<open>
  A message archived while the batch runs is gone when the batch has written back, and because its id stays
  in the cache, archiving it again does nothing until the service is restarted.
\<close>

lemma message_lost_for_good:
  "let new = [(''message_id'', JStr ''3'')];
       late = fst (append_messages ''u'' [new] None one_pending);
       s' = (case process_pending_batch cat_world one_pending late of Inr (n, x) \<Rightarrow> x | Inl e \<Rightarrow> late)
   in length (file_of ''u'' late) = 3 \<and> length (file_of ''u'' s') = 2 \<and> append_messages ''u'' [new] None s' = (s', 0)"
  by code_simp

section \<open>The window and the endpoints\<close>

text \<open>A window that ends where it begins is empty; every other and its reverse share the day.\<close>

lemma window_split: "a \<noteq> b \<Longrightarrow> is_within_window a b h \<longleftrightarrow> \<not> is_within_window b a h"
  by (auto simp: is_within_window_def)

lemma window_empty: "\<not> is_within_window a a h"
  by (simp add: is_within_window_def)

text \<open>After \<open>/clear\<close>, with the state saved, no message and no id is known and every channel counts as new.\<close>

lemma clear_forgets:
  assumes "clear_history SaveOk raw f s = (counts, left, f', s')" and "channels_needing_export (load_state f') chs = Inr needs"
  shows "file_of u s' = [] \<and> cache_of u s' = [] \<and> length needs = length chs \<and> (\<forall>n\<in>set needs. n_reason n = NewChannel)"
proof -
  have f: "load_state f' = []" and s: "s' = \<lparr>st_files = [], st_cache = []\<rparr>"
    using assms(1) by (auto simp: clear_history_def clear_all_def reset_state_def)
  have new: "channel_need [] ch = Inr x \<Longrightarrow> \<exists>n. x = Some n \<and> n_reason n = NewChannel" for ch x
    by (auto simp: channel_need_def bindE_eq_Inr get_channel_def Let_def)
  have "mapE (channel_need []) cs = Inr xs \<Longrightarrow>
      length (concat (map (\<lambda>x. case x of None \<Rightarrow> [] | Some n \<Rightarrow> [n]) xs)) = length cs
      \<and> (\<forall>n\<in>set (concat (map (\<lambda>x. case x of None \<Rightarrow> [] | Some n \<Rightarrow> [n]) xs)). n_reason n = NewChannel)" for cs xs
    by (induction cs arbitrary: xs) (auto simp: bindE_eq_Inr dest!: new)
  then have "length needs = length chs \<and> (\<forall>n\<in>set needs. n_reason n = NewChannel)"
    using assms(2) f by (auto simp: channels_needing_export_def bindE_eq_Inr)
  then show ?thesis by (simp add: s file_of_def cache_of_def dget_def)
qed

text \<open>A request that answers with success has looked at every channel Discord listed.\<close>

lemma evaluate_reports:
  "evaluate day_of rep excl runs fault fmt configured resp f s = (f', s', Evaluated n users msgs) \<Longrightarrow>
   n = length (fetch_discord_channels fmt configured resp) \<and> n > 0"
  by (auto simp: evaluate_def Let_def split: if_splits prod.splits sum.splits)

end
