(* ===== verification/Discord_Output.thy ===== *)
theory Discord_Output
  imports Prelude
begin

text \<open>
  \<open>discord-bot/formatters.py\<close> and \<open>discord_io.py\<close>: getting text into Discord's size limits.
  The posts are the list of strings handed to \<open>send\<close>; Discord accepts them. A loop that need not
  end is a partial function, so not returning is \<open>None\<close>.
\<close>

definition MAX_MESSAGE_LENGTH :: nat where "MAX_MESSAGE_LENGTH = 2000"
definition MAX_EMBED_DESCRIPTION_LENGTH :: nat where "MAX_EMBED_DESCRIPTION_LENGTH = 4096"

definition nl :: char where "nl = CHR 0x0A"

section \<open>Disclaimers\<close>

text \<open>
  The patterns: line ends, then a phrase in any case and everything after it; one of them also
  asks for a word somewhere behind the phrase. A run of line ends is taken from its beginning.
\<close>

datatype disclaimer = Phrase string | NoteWith "string list"

definition DISCLAIMER_PATTERNS :: "disclaimer list" where
  "DISCLAIMER_PATTERNS =
     [Phrase ''This is general'', Phrase ''This is not legal'', Phrase ''This is not medical'',
      Phrase ''This is not financial'', NoteWith [''disclaimer'', ''advice'', ''professional''],
      Phrase ''Please consult'', Phrase ''Please note'', Phrase ''Please be aware'',
      Phrase ''I'm an AI'', Phrase ''I am an AI'', Phrase ''As an AI'', Phrase ''Remember, I'm'',
      Phrase ''Remember, I am'']"

fun says :: "disclaimer \<Rightarrow> string \<Rightarrow> bool" where
  "says (Phrase p) t = prefix_nocase p t"
| "says (NoteWith ws) t \<longleftrightarrow> prefix_nocase ''Note:'' t \<and> list_ex (\<lambda>w. occurs_nocase w (drop 5 t)) ws"

definition hit :: "disclaimer \<Rightarrow> string \<Rightarrow> bool" where
  "hit d s \<longleftrightarrow> s \<noteq> [] \<and> hd s = nl \<and> says d (dropWhile (\<lambda>c. c = nl) s)"

fun cut_disclaimer :: "disclaimer \<Rightarrow> string \<Rightarrow> string" where
  "cut_disclaimer d [] = []"
| "cut_disclaimer d (c # cs) = (if hit d (c # cs) then [] else c # cut_disclaimer d cs)"

definition strip_disclaimers :: "string \<Rightarrow> string" where
  "strip_disclaimers s = strip (fold cut_disclaimer DISCLAIMER_PATTERNS s)"

definition format_mimic_response :: "string \<Rightarrow> string" where
  "format_mimic_response s = strip_disclaimers s"

section \<open>Splitting\<close>

text \<open>\<open>s.rfind(sep)\<close>: the last place where it occurs.\<close>

definition rfind :: "string \<Rightarrow> string \<Rightarrow> nat option" where
  "rfind sep s = (let is = filter (\<lambda>i. prefix sep (drop i s)) [0..<length s]
                  in if is = [] then None else Some (last is))"

definition find_split_boundary :: "string \<Rightarrow> nat \<Rightarrow> nat" where
  "find_split_boundary s mx =
     (if length s \<le> mx then length s
      else case rfind [nl, nl] (take mx s) of
             Some i \<Rightarrow> i + 2
           | None \<Rightarrow> (case rfind [nl] (take mx s) of Some i \<Rightarrow> i + 1 | None \<Rightarrow> mx))"

text \<open>The loop of \<open>split_message\<close> and \<open>build_lore_embeds\<close>, which differ in boundary and trimming.\<close>

partial_function (option) split_with ::
  "(string \<Rightarrow> nat) \<Rightarrow> (string \<Rightarrow> string) \<Rightarrow> nat \<Rightarrow> string \<Rightarrow> string list option" where
  [code]: "split_with bnd trim mx s =
     (if s = [] then Some []
      else if length s \<le> mx then Some [s]
      else Option.bind (split_with bnd trim mx (trim (drop (bnd s) s)))
             (\<lambda>cs. Some (rstrip (take (bnd s) s) # cs)))"

definition lstrip_nl :: "string \<Rightarrow> string" where
  "lstrip_nl s = dropWhile (\<lambda>c. c = nl) s"

definition split_message :: "nat \<Rightarrow> string \<Rightarrow> string list option" where
  "split_message mx s = split_with (\<lambda>b. find_split_boundary b mx) lstrip_nl mx s"

text \<open>Description and footer of each embed.\<close>

definition embed_boundary :: "string \<Rightarrow> nat" where
  "embed_boundary s =
     (let i = find_split_boundary s MAX_EMBED_DESCRIPTION_LENGTH
      in if i = 0 then MAX_EMBED_DESCRIPTION_LENGTH else i)"

definition part_footer :: "nat \<Rightarrow> nat \<Rightarrow> string" where
  "part_footer i n = ''Part '' @ str_nat (i + 1) @ ''/'' @ str_nat n"

definition build_lore_embeds :: "string \<Rightarrow> (string \<times> string option) list option" where
  "build_lore_embeds s =
     (if s = [] then Some [(''(No results)'', None)]
      else map_option (\<lambda>cs. map (\<lambda>(i, c). (c, if length cs > 1 then Some (part_footer i (length cs)) else None))
                              (enumerate 0 cs))
             (split_with embed_boundary lstrip MAX_EMBED_DESCRIPTION_LENGTH s))"

section \<open>Streaming and posting\<close>

text \<open>The inner loop of \<open>stream_and_send\<close>: buffer and posts.\<close>

partial_function (option) drain :: "nat \<Rightarrow> string \<Rightarrow> string list \<Rightarrow> (string \<times> string list) option" where
  [code]: "drain mx buf sent =
     (if length buf < mx then Some (buf, sent)
      else let k = find_split_boundary buf mx; chunk = rstrip (take k buf)
           in drain mx (lstrip_nl (drop k buf)) (if chunk = [] then sent else sent @ [chunk]))"

fun stream_tokens :: "nat \<Rightarrow> string list \<Rightarrow> string \<times> string list \<Rightarrow> (string \<times> string list) option" where
  "stream_tokens mx [] bs = Some bs"
| "stream_tokens mx (t # ts) (buf, sent) =
     (case drain mx (buf @ t) sent of None \<Rightarrow> None | Some bs \<Rightarrow> stream_tokens mx ts bs)"

text \<open>The response returned and the posts.\<close>

definition stream_and_send :: "string list \<Rightarrow> (string \<times> string list) option" where
  "stream_and_send tokens =
     (case stream_tokens MAX_MESSAGE_LENGTH tokens ([], []) of
        None \<Rightarrow> None
      | Some (buf, sent) \<Rightarrow>
          let last_part = strip (format_mimic_response buf)
          in Some (concat tokens, if last_part = [] then sent else sent @ [last_part]))"

text \<open>\<open>post_lore_answer\<close>: what is posted, in order; the first may be an edit.\<close>

definition post_lore_answer :: "string \<Rightarrow> string \<Rightarrow> string list option" where
  "post_lore_answer answer footer =
     (case split_message MAX_MESSAGE_LENGTH answer of
        None \<Rightarrow> None
      | Some cs \<Rightarrow>
          let chunks = (if cs = [] then [''(empty answer)''] else cs);
              tail = nl # footer
          in Some (if length (last chunks) + length tail \<le> MAX_MESSAGE_LENGTH
                   then butlast chunks @ [last chunks @ tail]
                   else chunks @ [footer]))"

section \<open>The contract of a splitter\<close>

text \<open>The text without white space, which trimming never touches.\<close>

definition inked :: "string \<Rightarrow> string" where
  "inked s = filter (\<lambda>c. \<not> py_space c) s"

lemma inked_append [simp]: "inked (xs @ ys) = inked xs @ inked ys" "inked [] = []"
  by (simp_all add: inked_def)

lemma inked_dropWhile: "(\<And>c. P c \<Longrightarrow> py_space c) \<Longrightarrow> inked (dropWhile P s) = inked s"
  unfolding inked_def by (induction s) auto

lemma inked_rev: "inked (rev s) = rev (inked s)"
  by (simp add: inked_def rev_filter)

lemma nl_space: "py_space nl"
  by (simp add: py_space_def nl_def)

lemma inked_trim [simp]: "inked (lstrip s) = inked s" "inked (rstrip s) = inked s" "inked (lstrip_nl s) = inked s"
proof -
  show "inked (lstrip s) = inked s" by (simp add: lstrip_def inked_dropWhile)
  show "inked (rstrip s) = inked s"
    unfolding rstrip_def inked_rev by (simp add: inked_dropWhile inked_rev)
  show "inked (lstrip_nl s) = inked s"
    unfolding lstrip_nl_def by (rule inked_dropWhile) (simp add: nl_space)
qed

lemma inked_strip [simp]: "inked (strip s) = inked s"
  by (simp add: strip_def)

lemma inked_take_drop: "inked (take n s) @ inked (drop n s) = inked s"
  by (metis append_take_drop_id inked_append(1))

lemma length_lstrip_nl: "length (lstrip_nl s) \<le> length s"
  by (simp add: lstrip_nl_def length_dropWhile_le)

locale splitter =
  fixes bnd :: "string \<Rightarrow> nat" and trim :: "string \<Rightarrow> string" and mx :: nat
  assumes bnd_range: "mx < length s \<Longrightarrow> 0 < bnd s \<and> bnd s \<le> mx"
    and trim_inked: "inked (trim s) = inked s"
    and trim_length: "length (trim s) \<le> length s"
begin

lemma split_total:
  "\<exists>cs. split_with bnd trim mx s = Some cs \<and> (\<forall>c\<in>set cs. length c \<le> mx) \<and> inked (concat cs) = inked s
     \<and> (cs = [] \<longleftrightarrow> s = [])"
proof (induction "length s" arbitrary: s rule: less_induct)
  case less
  show ?case
  proof (cases "length s \<le> mx")
    case True
    then have "split_with bnd trim mx s = Some (if s = [] then [] else [s])"
      by (subst split_with.simps) simp
    then show ?thesis using True by auto
  next
    case False
    then have b: "0 < bnd s" "bnd s \<le> mx" using bnd_range by simp_all
    have "length (trim (drop (bnd s) s)) < length s"
      using trim_length [of "drop (bnd s) s"] b False by auto
    from less [OF this] obtain cs where cs: "split_with bnd trim mx (trim (drop (bnd s) s)) = Some cs"
      "\<forall>c\<in>set cs. length c \<le> mx" "inked (concat cs) = inked (drop (bnd s) s)"
      by (auto simp: trim_inked)
    have "length (rstrip (take (bnd s) s)) \<le> mx"
      using length_rstrip_le [of "take (bnd s) s"] b by auto
    then show ?thesis
      using cs False by (auto simp: split_with.simps [of bnd trim mx s] inked_take_drop)
  qed
qed

end

lemma rfind_bound:
  assumes "rfind sep s = Some i" "sep \<noteq> []" shows "i + length sep \<le> length s"
proof -
  let ?is = "filter (\<lambda>i. prefix sep (drop i s)) [0..<length s]"
  have "?is \<noteq> []" "i = last ?is"
    using assms(1) by (auto simp: rfind_def Let_def simp del: filter_empty_conv split: if_splits)
  then have "i \<in> set ?is" using last_in_set by blast
  then have "i < length s" "length sep \<le> length (drop i s)"
    using prefix_length_le [of sep "drop i s"] by (simp_all only: set_filter set_upt mem_Collect_eq atLeastLessThan_iff)
  then show ?thesis by simp
qed

lemma boundary_range:
  assumes "0 < mx" "mx \<le> length s"
  shows "0 < find_split_boundary s mx \<and> find_split_boundary s mx \<le> mx"
  using assms rfind_bound [of "[nl, nl]" "take mx s"] rfind_bound [of "[nl]" "take mx s"]
  by (auto simp: find_split_boundary_def split: option.split)

interpretation msg: splitter "\<lambda>b. find_split_boundary b MAX_MESSAGE_LENGTH" lstrip_nl MAX_MESSAGE_LENGTH
  by unfold_locales (simp_all add: boundary_range MAX_MESSAGE_LENGTH_def length_lstrip_nl)

interpretation embed: splitter embed_boundary lstrip MAX_EMBED_DESCRIPTION_LENGTH
  by unfold_locales (use boundary_range in \<open>simp_all add: embed_boundary_def MAX_EMBED_DESCRIPTION_LENGTH_def Let_def\<close>)

section \<open>Properties\<close>

text \<open>
  C25: Splitting a message. Whatever the text, splitting for Discord ends, every chunk fits into one
  message, and read in order the chunks hold every character of the text that is not white space,
  in order; the only text without chunks is the empty one.
\<close>

theorem split_message_fits:
  "\<exists>cs. split_message MAX_MESSAGE_LENGTH s = Some cs
     \<and> (\<forall>c\<in>set cs. length c \<le> 2000) \<and> inked (concat cs) = inked s \<and> (cs = [] \<longleftrightarrow> s = [])"
  using msg.split_total [of s] by (simp add: split_message_def MAX_MESSAGE_LENGTH_def)

theorem split_message_fits_witness:
  "\<exists>cs. split_message MAX_MESSAGE_LENGTH ''ab'' = Some cs \<and> inked (concat cs) = ''ab''"
proof -
  obtain cs where "split_message MAX_MESSAGE_LENGTH ''ab'' = Some cs" "inked (concat cs) = inked ''ab''"
    using split_message_fits [of "''ab''"] by blast
  then show ?thesis by (simp add: inked_def py_space_def)
qed

text \<open>
  A chunk can be blank. A text that begins with a message's worth of line ends is split into an
  empty first chunk, which \<open>post_lore_answer\<close> posts as it is; Discord refuses empty messages.
  \<open>stream_and_send\<close> guards against this, \<open>post_lore_answer\<close> does not.
\<close>

theorem blank_chunk_posted:
  "post_lore_answer (replicate 2000 nl @ ''a'') footer \<noteq> None
   \<and> hd (the (post_lore_answer (replicate 2000 nl @ ''a'') footer)) = []"
proof -
  define s where "s = replicate 2000 nl @ ''a''"
  let ?b = "find_split_boundary s 2000"
  have len: "length s = 2001" "s \<noteq> []" by (simp_all add: s_def)
  have b: "0 < ?b" "?b \<le> 2000" using boundary_range [of 2000 s] len by simp_all
  then have "take ?b s = replicate ?b nl" by (simp add: s_def)
  then have first: "rstrip (take ?b s) = []"
    by (simp add: rstrip_def nl_space)
  obtain cs where cs: "split_with (\<lambda>b. find_split_boundary b 2000) lstrip_nl 2000 (lstrip_nl (drop ?b s)) = Some cs"
    "cs \<noteq> []"
  proof -
    obtain ds where ds: "split_with (\<lambda>b. find_split_boundary b 2000) lstrip_nl 2000 (lstrip_nl (drop ?b s)) = Some ds"
      "ds = [] \<longleftrightarrow> lstrip_nl (drop ?b s) = []"
      using msg.split_total by (auto simp: MAX_MESSAGE_LENGTH_def)
    have "inked (lstrip_nl (drop ?b s)) = ''a''"
      using b nl_space by (simp add: s_def, simp add: inked_def py_space_def)
    then have "lstrip_nl (drop ?b s) \<noteq> []" by (metis inked_append(2) list.distinct(1))
    then have "ds \<noteq> []" using ds(2) by blast
    then show ?thesis using ds(1) that by blast
  qed
  have "split_message MAX_MESSAGE_LENGTH s = Some ([] # cs)"
    unfolding split_message_def MAX_MESSAGE_LENGTH_def
    by (subst split_with.simps) (simp add: cs first len)
  then show ?thesis using cs(2) unfolding s_def [symmetric] by (auto simp: post_lore_answer_def Let_def MAX_MESSAGE_LENGTH_def)
qed

lemma drain_total:
  "\<exists>buf' new. drain MAX_MESSAGE_LENGTH buf sent = Some (buf', sent @ new) \<and> length buf' < MAX_MESSAGE_LENGTH
     \<and> (\<forall>c\<in>set new. c \<noteq> [] \<and> length c \<le> MAX_MESSAGE_LENGTH) \<and> inked (concat new) @ inked buf' = inked buf"
proof (induction "length buf" arbitrary: buf sent rule: less_induct)
  case less
  show ?case
  proof (cases "length buf < MAX_MESSAGE_LENGTH")
    case True
    then have "drain MAX_MESSAGE_LENGTH buf sent = Some (buf, sent @ [])" by (subst drain.simps) simp
    with True show ?thesis by (metis append_Nil concat.simps(1) empty_iff empty_set inked_append(2))
  next
    case False
    let ?k = "find_split_boundary buf MAX_MESSAGE_LENGTH"
    let ?c = "rstrip (take ?k buf)" and ?r = "lstrip_nl (drop ?k buf)"
    let ?more = "if ?c = [] then [] else [?c]"
    have k: "0 < ?k" "?k \<le> MAX_MESSAGE_LENGTH"
      using False boundary_range [of MAX_MESSAGE_LENGTH buf] by (simp_all add: MAX_MESSAGE_LENGTH_def)
    have "length ?r < length buf"
      using length_lstrip_nl [of "drop ?k buf"] k False by (auto simp: MAX_MESSAGE_LENGTH_def)
    from less [OF this, of "sent @ ?more"] obtain buf' new where IH:
      "drain MAX_MESSAGE_LENGTH ?r (sent @ ?more) = Some (buf', (sent @ ?more) @ new)"
      "length buf' < MAX_MESSAGE_LENGTH" "\<forall>c\<in>set new. c \<noteq> [] \<and> length c \<le> MAX_MESSAGE_LENGTH"
      "inked (concat new) @ inked buf' = inked ?r" by blast
    have eq: "drain MAX_MESSAGE_LENGTH buf sent = drain MAX_MESSAGE_LENGTH ?r (sent @ ?more)"
      using False by (subst drain.simps) (simp add: Let_def)
    have "inked (concat ?more) = inked (take ?k buf)"
      by (metis concat.simps inked_append(2) inked_trim(2) append_Nil2)
    then have "inked (concat (?more @ new)) @ inked buf' = inked buf"
      using IH(4) by (simp add: inked_take_drop)
    moreover have "length ?c \<le> MAX_MESSAGE_LENGTH"
      using length_rstrip_le [of "take ?k buf"] k by auto
    ultimately show ?thesis
      using IH eq by (intro exI [of _ buf'] exI [of _ "?more @ new"]) auto
  qed
qed

lemma stream_tokens_total:
  "length buf < MAX_MESSAGE_LENGTH \<Longrightarrow> \<forall>c\<in>set sent. c \<noteq> [] \<and> length c \<le> MAX_MESSAGE_LENGTH \<Longrightarrow>
   \<exists>buf' sent'. stream_tokens MAX_MESSAGE_LENGTH ts (buf, sent) = Some (buf', sent') \<and> length buf' < MAX_MESSAGE_LENGTH
     \<and> (\<forall>c\<in>set sent'. c \<noteq> [] \<and> length c \<le> MAX_MESSAGE_LENGTH)
     \<and> inked (concat sent') @ inked buf' = inked (concat sent) @ inked buf @ inked (concat ts)"
proof (induction ts arbitrary: buf sent)
  case (Cons t ts)
  obtain buf1 new where d: "drain MAX_MESSAGE_LENGTH (buf @ t) sent = Some (buf1, sent @ new)"
    "length buf1 < MAX_MESSAGE_LENGTH" "\<forall>c\<in>set new. c \<noteq> [] \<and> length c \<le> MAX_MESSAGE_LENGTH"
    "inked (concat new) @ inked buf1 = inked buf @ inked t"
    using drain_total [of "buf @ t" sent] by auto
  have "\<forall>c\<in>set (sent @ new). c \<noteq> [] \<and> length c \<le> MAX_MESSAGE_LENGTH" using Cons.prems(2) d(3) by auto
  from Cons.IH [OF d(2) this] obtain buf' sent' where
    "stream_tokens MAX_MESSAGE_LENGTH ts (buf1, sent @ new) = Some (buf', sent')" "length buf' < MAX_MESSAGE_LENGTH"
    "\<forall>c\<in>set sent'. c \<noteq> [] \<and> length c \<le> MAX_MESSAGE_LENGTH"
    "inked (concat sent') @ inked buf' = inked (concat sent) @ (inked (concat new) @ inked buf1) @ inked (concat ts)"
    by auto
  then show ?case using d(1) unfolding d(4) by auto
qed auto

subsection \<open>Disclaimers\<close>

lemma cut_prefix: "prefix (cut_disclaimer d s) s"
  by (induction d s rule: cut_disclaimer.induct) auto

lemma prefix_nocase_mono: "prefix_nocase p s \<Longrightarrow> prefix s t \<Longrightarrow> prefix_nocase p t"
  unfolding prefix_nocase_def using map_mono_prefix prefix_order.trans by blast

lemma says_mono: "says d s \<Longrightarrow> prefix s t \<Longrightarrow> says d t"
proof (induction d)
  case (NoteWith ws)
  have "occurs_nocase w (drop 5 s) \<Longrightarrow> occurs_nocase w (drop 5 t)" for w
    using NoteWith.prems(2) unfolding occurs_nocase_def
    by (auto simp: prefix_def drop_map [symmetric] sublist_append)
  then show ?case using NoteWith prefix_nocase_mono by (auto simp: list_ex_iff)
qed (auto intro: prefix_nocase_mono)

lemma says_nonempty: "d \<in> set DISCLAIMER_PATTERNS \<Longrightarrow> \<not> says d []"
  by (auto simp: DISCLAIMER_PATTERNS_def prefix_nocase_def)

lemma hit_mono:
  assumes "hit d s" "prefix s t" "\<not> says d []" shows "hit d t"
proof -
  obtain r where t: "t = s @ r" using assms(2) by (auto simp: prefix_def)
  have ne: "dropWhile (\<lambda>c. c = nl) s \<noteq> []" using assms(1,3) by (auto simp: hit_def simp del: dropWhile_eq_Nil_conv)
  then have "\<exists>x\<in>set s. x \<noteq> nl" by (auto simp: dropWhile_eq_Nil_conv)
  then have "dropWhile (\<lambda>c. c = nl) t = dropWhile (\<lambda>c. c = nl) s @ r"
    using t by (metis (mono_tags, lifting) dropWhile_append1)
  then show ?thesis using assms(1) t says_mono [of d "dropWhile (\<lambda>c. c = nl) s"] by (auto simp: hit_def)
qed

definition has_disclaimer :: "disclaimer \<Rightarrow> string \<Rightarrow> bool" where
  "has_disclaimer d s \<longleftrightarrow> list_ex (hit d) (suffixes s)"

lemma has_iff: "has_disclaimer d s \<longleftrightarrow> (\<exists>t. suffix t s \<and> hit d t)"
  by (auto simp: has_disclaimer_def list_ex_iff in_set_suffixes)

lemma has_mono:
  assumes "has_disclaimer d s" "sublist s t" "\<not> says d []" shows "has_disclaimer d t"
proof -
  obtain u where u: "suffix u s" "hit d u" using assms(1) by (auto simp: has_iff)
  obtain a b where t: "t = a @ s @ b" using assms(2) by (auto simp: sublist_def)
  have "hit d (u @ b)" using hit_mono [OF u(2) _ assms(3), of "u @ b"] by simp
  moreover have "suffix (u @ b) t" using u(1) t by (auto simp: suffix_def)
  ultimately show ?thesis by (auto simp: has_iff)
qed

lemma cut_none_left: "\<not> says d [] \<Longrightarrow> \<not> has_disclaimer d (cut_disclaimer d s)"
proof (induction s)
  case (Cons c cs)
  have "prefix (c # cut_disclaimer d cs) (c # cs)" using cut_prefix [of d cs] by simp
  then have "\<not> hit d (c # cs) \<Longrightarrow> \<not> hit d (c # cut_disclaimer d cs)"
    using hit_mono Cons.prems by blast
  with Cons show ?case by (auto simp: has_iff suffix_Cons hit_def [of d "[]"])
qed (simp add: has_iff hit_def)

lemma fold_cut_prefix: "prefix (fold cut_disclaimer ds s) s"
  by (induction ds arbitrary: s) (auto intro: prefix_order.trans cut_prefix)

lemma fold_cut_none:
  "d \<in> set ds \<Longrightarrow> \<not> says d [] \<Longrightarrow> \<not> has_disclaimer d (fold cut_disclaimer ds s)"
proof (induction ds arbitrary: s)
  case (Cons e ds)
  show ?case
  proof (cases "d \<in> set ds")
    case False
    then have "d = e" using Cons.prems(1) by simp
    then show ?thesis
      using cut_none_left [OF Cons.prems(2), of s] fold_cut_prefix [of ds "cut_disclaimer e s"]
        has_mono [OF _ _ Cons.prems(2)] prefix_imp_sublist by auto
  qed (use Cons in simp)
qed simp

lemma sublist_strip: "sublist (strip s) s"
proof -
  have r: "prefix (rstrip s) s" for s
    unfolding rstrip_def by (metis rev_rev_ident suffix_dropWhile suffix_to_prefix)
  have "suffix (lstrip s) s" by (simp add: lstrip_def suffix_dropWhile)
  then show ?thesis unfolding strip_def
    using r [of "lstrip s"] prefix_imp_sublist suffix_imp_sublist sublist_order.order_trans by blast
qed

lemma strip_disclaimers_take: "\<exists>n. strip_disclaimers s = strip (take n s)"
  unfolding strip_disclaimers_def using fold_cut_prefix by (metis append_eq_conv_conj prefix_def)

text \<open>
  No disclaimer survives. What \<open>strip_disclaimers\<close> returns contains none of the patterns any
  more, wherever the model put them, and it is a beginning of the response, trimmed.
\<close>

theorem disclaimers_gone:
  "(\<forall>d\<in>set DISCLAIMER_PATTERNS. \<not> has_disclaimer d (strip_disclaimers s))
   \<and> (\<exists>n. strip_disclaimers s = strip (take n s))"
  unfolding strip_disclaimers_def
  using fold_cut_none has_mono [OF _ sublist_strip] says_nonempty
    strip_disclaimers_take [of s, unfolded strip_disclaimers_def] by blast

theorem disclaimers_gone_witness:
  "\<not> has_disclaimer (Phrase ''Please note'') (strip_disclaimers (''Yes.'' @ [nl, nl] @ ''please NOTE that''))"
  using disclaimers_gone [of "''Yes.'' @ [nl, nl] @ ''please NOTE that''"]
  by (auto simp: DISCLAIMER_PATTERNS_def)

text \<open>
  Streaming. For every sequence of tokens the loop ends; the value returned is the tokens
  joined; every post is a non-empty text that fits into one message; and the posts hold the
  response's characters other than white space in order, complete but for what the disclaimer
  rules cut off the last part.
\<close>

theorem stream_posts_fit:
  "\<exists>sent buf before. stream_and_send tokens = Some (concat tokens, sent)
     \<and> (\<forall>c\<in>set sent. c \<noteq> [] \<and> length c \<le> 2000)
     \<and> inked (concat tokens) = inked (concat before) @ inked buf
     \<and> inked (concat sent) = inked (concat before) @ inked (format_mimic_response buf)
     \<and> prefix (inked (concat sent)) (inked (concat tokens))"
proof -
  obtain buf sent where s: "stream_tokens MAX_MESSAGE_LENGTH tokens ([], []) = Some (buf, sent)"
    "length buf < MAX_MESSAGE_LENGTH" "\<forall>c\<in>set sent. c \<noteq> [] \<and> length c \<le> MAX_MESSAGE_LENGTH"
    "inked (concat sent) @ inked buf = inked (concat tokens)"
    using stream_tokens_total [of "[]" "[]" tokens] by (auto simp: MAX_MESSAGE_LENGTH_def)
  let ?l = "strip (format_mimic_response buf)"
  have "length (strip (strip x)) \<le> length x" for x
    using length_strip_le [of "strip x"] length_strip_le [of x] by linarith
  then have "length ?l < MAX_MESSAGE_LENGTH"
    using s(2) fold_cut_prefix [of DISCLAIMER_PATTERNS buf, THEN prefix_length_le]
    unfolding format_mimic_response_def strip_disclaimers_def by (meson le_less_trans order_trans)
  then have fits: "length ?l \<le> 2000" by (simp add: MAX_MESSAGE_LENGTH_def)
  obtain n where "format_mimic_response buf = strip (take n buf)"
    using strip_disclaimers_take by (auto simp: format_mimic_response_def)
  then have p: "prefix (inked (format_mimic_response buf)) (inked buf)"
    by (metis inked_strip inked_take_drop prefixI)
  define posts where "posts = (if ?l = [] then sent else sent @ [?l])"
  have r: "stream_and_send tokens = Some (concat tokens, posts)"
    by (simp add: stream_and_send_def s(1) Let_def posts_def)
  have "inked ?l = inked (format_mimic_response buf)" by simp
  then have i: "inked (concat posts) = inked (concat sent) @ inked (format_mimic_response buf)"
    unfolding posts_def by (cases "?l = []") (auto simp del: inked_strip)
  have sz: "\<forall>c\<in>set posts. c \<noteq> [] \<and> length c \<le> 2000"
    using s(3) fits by (auto simp: posts_def MAX_MESSAGE_LENGTH_def)
  have "prefix (inked (concat posts)) (inked (concat tokens))"
    using p unfolding i s(4) [symmetric] by simp
  then show ?thesis using r i sz s(4) [symmetric] by blast
qed

theorem stream_posts_fit_witness:
  "\<exists>sent. stream_and_send [''a'', ''b''] = Some (''ab'', sent) \<and> (\<forall>c\<in>set sent. length c \<le> 2000)"
  using stream_posts_fit [of "[''a'', ''b'']"] by auto

end
