(* ===== verification/Chat_State.thy ===== *)
theory Chat_State
  imports Prelude
begin

text \<open>
  The small stores of the Discord bot: \<open>rate_limiter.py\<close> (a sliding window per user),
  \<open>history.py\<close> (a bounded window of messages per channel and persona), \<open>thread_registry.py\<close> (the
  file of the threads the bot opened).
\<close>

section \<open>Rate limiter\<close>

text \<open>Seconds as reals; \<open>monotonic()\<close> is an argument of each call.\<close>

record limiter =
  max_requests :: nat
  window :: real
  user_timestamps :: "(int \<times> real list) list"

definition RATE_LIMIT_PER_USER :: nat where "RATE_LIMIT_PER_USER = 5"
definition RATE_LIMIT_WINDOW_SECONDS :: real where "RATE_LIMIT_WINDOW_SECONDS = 60"

definition limiter_init :: limiter where
  "limiter_init = \<lparr>max_requests = RATE_LIMIT_PER_USER, window = RATE_LIMIT_WINDOW_SECONDS, user_timestamps = []\<rparr>"

definition is_allowed :: "real \<Rightarrow> int \<Rightarrow> limiter \<Rightarrow> limiter \<times> bool" where
  "is_allowed now u l =
     (let cutoff = now - window l;
          active = filter (\<lambda>t. t > cutoff) (dget (user_timestamps l) u [])
      in if length active \<ge> max_requests l
         then (l\<lparr>user_timestamps := dset u active (user_timestamps l)\<rparr>, False)
         else (l\<lparr>user_timestamps := dset u (active @ [now]) (user_timestamps l)\<rparr>, True))"

definition remaining_requests :: "real \<Rightarrow> int \<Rightarrow> limiter \<Rightarrow> nat" where
  "remaining_requests now u l =
     max_requests l - length (filter (\<lambda>t. t > now - window l) (dget (user_timestamps l) u []))"

definition reset_user :: "int \<Rightarrow> limiter \<Rightarrow> limiter" where
  "reset_user u l = l\<lparr>user_timestamps := dset u [] (user_timestamps l)\<rparr>"

text \<open>A sequence of calls, each with its time and user, and which of them were let through.\<close>

fun limiter_run :: "(real \<times> int) list \<Rightarrow> limiter \<Rightarrow> limiter \<times> (real \<times> int) list" where
  "limiter_run [] l = (l, [])"
| "limiter_run ((now, u) # cs) l =
     (let (l1, ok) = is_allowed now u l; (l2, rest) = limiter_run cs l1
      in (l2, if ok then (now, u) # rest else rest))"

section \<open>Conversation history\<close>

definition HISTORY_MAX_TURNS :: nat where "HISTORY_MAX_TURNS = 20"

type_synonym message = "string \<times> string"
type_synonym history = "((int \<times> string) \<times> message list) list"

text \<open>A deque with \<open>maxlen\<close>: an append drops from the front what does not fit.\<close>

definition last_n :: "nat \<Rightarrow> 'a list \<Rightarrow> 'a list" where
  "last_n n xs = drop (length xs - n) xs"

definition deque_append :: "nat \<Rightarrow> 'a \<Rightarrow> 'a list \<Rightarrow> 'a list" where
  "deque_append n x xs = last_n n (xs @ [x])"

text \<open>Reading creates the entry, as \<open>defaultdict\<close> does.\<close>

definition get_history :: "int \<Rightarrow> string \<Rightarrow> history \<Rightarrow> history \<times> message list" where
  "get_history c m h = (dset (c, m) (dget h (c, m) []) h, dget h (c, m) [])"

definition add_message :: "int \<times> string \<Rightarrow> message \<Rightarrow> history \<Rightarrow> history" where
  "add_message k x h = dset k (deque_append HISTORY_MAX_TURNS x (dget h k [])) h"

definition add_turn :: "int \<Rightarrow> string \<Rightarrow> string \<Rightarrow> string \<Rightarrow> history \<Rightarrow> history" where
  "add_turn c m user_message assistant_message h =
     add_message (c, m) (''assistant'', assistant_message) (add_message (c, m) (''user'', user_message) h)"

definition clear_channel :: "int \<Rightarrow> history \<Rightarrow> history" where
  "clear_channel c h = filter (\<lambda>kv. fst (fst kv) \<noteq> c) h"

definition clear_persona :: "string \<Rightarrow> history \<Rightarrow> history" where
  "clear_persona m h = filter (\<lambda>kv. snd (fst kv) \<noteq> m) h"

datatype history_event =
    AddTurn int string string string
  | GetHistory int string
  | ClearChannel int
  | ClearPersona string
  | ClearAll

fun history_step :: "history_event \<Rightarrow> history \<Rightarrow> history" where
  "history_step (AddTurn c m q a) h = add_turn c m q a h"
| "history_step (GetHistory c m) h = fst (get_history c m h)"
| "history_step (ClearChannel c) h = clear_channel c h"
| "history_step (ClearPersona m) h = clear_persona m h"
| "history_step ClearAll h = []"

text \<open>What was said in a conversation since it was last cleared, without a bound.\<close>

fun said_step :: "history_event \<Rightarrow> (int \<times> string \<Rightarrow> message list) \<Rightarrow> (int \<times> string \<Rightarrow> message list)" where
  "said_step (AddTurn c m q a) f = f((c, m) := f (c, m) @ [(''user'', q), (''assistant'', a)])"
| "said_step (GetHistory c m) f = f"
| "said_step (ClearChannel c) f = (\<lambda>k. if fst k = c then [] else f k)"
| "said_step (ClearPersona m) f = (\<lambda>k. if snd k = m then [] else f k)"
| "said_step ClearAll f = (\<lambda>k. [])"

section \<open>Thread registry\<close>

text \<open>
  A thread's entry; \<open>kind\<close> may be missing in old entries. The registry holds its contents and what
  is on disk: absent, unreadable, or a document. A save that fails leaves the file as it was.
\<close>

record thread_entry =
  t_model :: string
  t_name :: string
  t_created :: string
  t_status :: string
  t_kind :: "string option"

type_synonym threads = "(string \<times> thread_entry) list"

record registry =
  reg_data :: threads
  reg_disk :: "threads option option"

definition load_registry :: "threads option option \<Rightarrow> registry" where
  "load_registry disk =
     \<lparr>reg_data = (case disk of Some (Some d) \<Rightarrow> d | _ \<Rightarrow> []), reg_disk = disk\<rparr>"

definition save_registry :: "bool \<Rightarrow> registry \<Rightarrow> registry" where
  "save_registry ok r = (if ok then r\<lparr>reg_disk := Some (Some (reg_data r))\<rparr> else r)"

definition register :: "bool \<Rightarrow> string \<Rightarrow> int \<Rightarrow> string \<Rightarrow> string \<Rightarrow> string \<Rightarrow> registry \<Rightarrow> registry" where
  "register ok now i model name kind r =
     save_registry ok (r\<lparr>reg_data := dset (str_int i)
       \<lparr>t_model = model, t_name = name, t_created = now, t_status = ''active'', t_kind = Some kind\<rparr>
       (reg_data r)\<rparr>)"

definition get_kind :: "int \<Rightarrow> registry \<Rightarrow> string" where
  "get_kind i r =
     (case map_of (reg_data r) (str_int i) of
        None \<Rightarrow> ''chat''
      | Some e \<Rightarrow> (case t_kind e of None \<Rightarrow> ''chat'' | Some k \<Rightarrow> k))"

definition get_all :: "registry \<Rightarrow> (int \<times> thread_entry) list result" where
  "get_all r = mapE (\<lambda>(k, e). bindE (py_int (JStr k)) (\<lambda>i. Inr (i, e))) (reg_data r)"

definition update_status :: "bool \<Rightarrow> int \<Rightarrow> string \<Rightarrow> registry \<Rightarrow> registry" where
  "update_status ok i status r =
     (case map_of (reg_data r) (str_int i) of
        None \<Rightarrow> r
      | Some e \<Rightarrow> save_registry ok (r\<lparr>reg_data := dset (str_int i) (e\<lparr>t_status := status\<rparr>) (reg_data r)\<rparr>))"

definition remove_thread :: "bool \<Rightarrow> int \<Rightarrow> registry \<Rightarrow> registry" where
  "remove_thread ok i r =
     (if map_of (reg_data r) (str_int i) = None then r
      else save_registry ok (r\<lparr>reg_data := dpop (str_int i) (reg_data r)\<rparr>))"

definition get_model :: "int \<Rightarrow> registry \<Rightarrow> string option" where
  "get_model i r =
     (case map_of (reg_data r) (str_int i) of
        None \<Rightarrow> None
      | Some e \<Rightarrow> if t_status e \<noteq> ''deleted'' then Some (t_model e) else None)"

datatype reg_event =
    Register bool string int string string string
  | UpdateStatus bool int string
  | RemoveThread bool int

fun reg_step :: "reg_event \<Rightarrow> registry \<Rightarrow> registry" where
  "reg_step (Register ok now i model name kind) r = register ok now i model name kind r"
| "reg_step (UpdateStatus ok i status) r = update_status ok i status r"
| "reg_step (RemoveThread ok i) r = remove_thread ok i r"

fun event_saves :: "reg_event \<Rightarrow> bool" where
  "event_saves (Register ok now i model name kind) = ok"
| "event_saves (UpdateStatus ok i status) = ok"
| "event_saves (RemoveThread ok i) = ok"

section \<open>The rate bound\<close>

definition times_of :: "int \<Rightarrow> (real \<times> int) list \<Rightarrow> real list" where
  "times_of u cs = map fst (filter (\<lambda>c. snd c = u) cs)"

definition in_window :: "real \<Rightarrow> real \<Rightarrow> real list \<Rightarrow> real list" where
  "in_window w t xs = filter (\<lambda>x. t - w < x \<and> x \<le> t) xs"

lemma times_of_simps [simp]: "times_of u [] = []"
  "times_of u ((t, v) # cs) = (if v = u then t # times_of u cs else times_of u cs)"
  "times_of u (xs @ ys) = times_of u xs @ times_of u ys"
  by (simp_all add: times_of_def)

text \<open>
  What the stored list of \<open>u\<close> has to do with the requests \<open>past\<close> let through so far: it has all of
  them that can still matter at time \<open>now\<close>, they are in the past, and no window holds too many.
\<close>

definition tracks :: "limiter \<Rightarrow> real \<Rightarrow> (int \<Rightarrow> real list) \<Rightarrow> bool" where
  "tracks l now past \<longleftrightarrow>
     (\<forall>u c. c \<ge> now - window l \<longrightarrow> filter (\<lambda>t. t > c) (dget (user_timestamps l) u []) = filter (\<lambda>t. t > c) (past u))
   \<and> (\<forall>u. \<forall>t\<in>set (past u). t \<le> now)
   \<and> (\<forall>u t. length (in_window (window l) t (past u)) \<le> max_requests l)"

lemma tracks_later: "tracks l now past \<Longrightarrow> now \<le> now' \<Longrightarrow> tracks l now' past"
  unfolding tracks_def by (smt (verit))

lemma is_allowed_tracks:
  assumes tr: "tracks l now past" and r: "is_allowed now u l = (l', ok)"
  shows "tracks l' now (if ok then past(u := past u @ [now]) else past)"
    "max_requests l' = max_requests l" "window l' = window l"
proof -
  let ?a = "filter (\<lambda>t. t > now - window l) (dget (user_timestamps l) u [])"
  have a: "?a = filter (\<lambda>t. t > now - window l) (past u)"
    using tr by (simp add: tracks_def)
  have old: "\<forall>t\<in>set (past u). t \<le> now" using tr by (simp add: tracks_def)
  have l': "l' = l\<lparr>user_timestamps := dset u (if ok then ?a @ [now] else ?a) (user_timestamps l)\<rparr>"
    "ok \<longleftrightarrow> length ?a < max_requests l"
    using r by (auto simp: is_allowed_def Let_def split: if_splits)
  show same: "max_requests l' = max_requests l" "window l' = window l" by (simp_all add: l'(1))
  let ?p = "if ok then past(u := past u @ [now]) else past"
  have "filter (\<lambda>t. t > c) (dget (user_timestamps l') v []) = filter (\<lambda>t. t > c) (?p v)"
    if c: "c \<ge> now - window l" for v c
  proof -
    have f: "filter (\<lambda>t. t > c) ?a = filter (\<lambda>t. t > c) (past u)"
      unfolding a filter_filter using c by (intro filter_cong) auto
    have "dget (user_timestamps l') v [] = (if v = u then if ok then ?a @ [now] else ?a else dget (user_timestamps l) v [])"
      by (simp add: l'(1) dget_def)
    then show ?thesis using tr c f
      by (cases "v = u"; cases ok) (simp_all add: tracks_def del: filter_filter)
  qed
  moreover have "\<forall>t\<in>set (?p v). t \<le> now" for v using tr by (auto simp: tracks_def)
  moreover have "length (in_window (window l) t (?p v)) \<le> max_requests l" for v t
  proof (cases "v = u \<and> ok \<and> t \<ge> now")
    case True
    have "in_window (window l) t (past u) = filter (\<lambda>x. t - window l < x) ?a"
      unfolding a in_window_def filter_filter using old True by (intro filter_cong) auto
    then have "length (in_window (window l) t (past u)) < max_requests l"
      using True l'(2) length_filter_le le_less_trans by metis
    then show ?thesis using True by (auto simp: in_window_def)
  next
    case False
    then have "in_window (window l) t (?p v) = in_window (window l) t (past v)"
      by (auto simp: in_window_def)
    then show ?thesis using tr by (simp add: tracks_def)
  qed
  ultimately show "tracks l' now ?p" unfolding tracks_def same by blast
qed

lemma limiter_run_tracks:
  assumes "tracks l now past" "sorted (now # map fst cs)" "limiter_run cs l = (l', out)"
  shows "length (in_window (window l) t (past u @ times_of u out)) \<le> max_requests l"
  using assms
proof (induction cs arbitrary: l now past out)
  case (Cons c cs)
  obtain n v where c: "c = (n, v)" by force
  obtain l1 ok where a: "is_allowed n v l = (l1, ok)" by force
  obtain rest where rest: "limiter_run cs l1 = (l', rest)" "out = (if ok then (n, v) # rest else rest)"
    using Cons.prems(3) by (auto simp: c a Let_def split: prod.splits)
  have tr: "tracks l n past" using tracks_later Cons.prems(1,2) by (simp add: c)
  note i = is_allowed_tracks [OF tr a]
  have "sorted (n # map fst cs)" using Cons.prems(2) by (simp add: c)
  from Cons.IH [OF i(1) this rest(1)] show ?case
    by (auto simp: rest(2) i(2,3) split: if_splits)
qed (simp add: tracks_def)

text \<open>
  C26: The rate limit. For any sequence of requests at times that never go back, from a fresh
  limiter, the requests of one user that are let through in any span of 60 seconds are at most 5.
\<close>

theorem rate_bound:
  assumes "sorted (map fst cs)" and "limiter_run cs limiter_init = (l, out)"
  shows "length (in_window 60 t (times_of u out)) \<le> 5"
proof (cases cs)
  case (Cons c cs')
  have "tracks limiter_init (fst c) (\<lambda>_. [])"
    by (simp add: tracks_def limiter_init_def dget_def in_window_def)
  from limiter_run_tracks [OF this _ assms(2), of t u] show ?thesis
    using assms(1) Cons by (simp add: limiter_init_def RATE_LIMIT_PER_USER_def RATE_LIMIT_WINDOW_SECONDS_def)
qed (use assms in \<open>simp add: in_window_def\<close>)

theorem rate_bound_witness:
  "length (in_window 60 8 (times_of 7 (snd (limiter_run (map (\<lambda>i. (real i, 7)) [0..<9]) limiter_init)))) \<le> 5"
proof -
  obtain l out where r: "limiter_run (map (\<lambda>i. (real i, 7)) [0..<9]) limiter_init = (l, out)" by force
  have "sorted (map fst (map (\<lambda>i. (real i, 7 :: int)) [0..<9]))"
    by (simp add: upt_rec)
  from rate_bound [OF this r] show ?thesis by (simp add: r)
qed

section \<open>The window of a conversation\<close>

lemma last_n_append: "last_n n (last_n n xs @ ys) = last_n n (xs @ ys)"
proof (cases "length xs \<le> n")
  case False
  then show ?thesis by (cases "length ys \<le> n") (simp_all add: last_n_def add.commute)
qed (simp add: last_n_def)

lemma add_message_get:
  "dget (add_message k x h) k' [] = (if k' = k then last_n HISTORY_MAX_TURNS (dget h k [] @ [x]) else dget h k' [])"
  by (simp add: add_message_def dget_def deque_append_def)

lemma map_of_filter_key: "map_of (filter (\<lambda>kv. P (fst kv)) d) k = (if P k then map_of d k else None)"
  by (induction d) auto

lemma history_step_window:
  assumes "\<And>k. dget h k [] = last_n HISTORY_MAX_TURNS (f k)"
  shows "dget (history_step e h) k [] = last_n HISTORY_MAX_TURNS (said_step e f k)"
proof (cases e)
  case (AddTurn c m q a)
  have "last_n HISTORY_MAX_TURNS (last_n HISTORY_MAX_TURNS (f (c, m) @ [x]) @ [y])
      = last_n HISTORY_MAX_TURNS (f (c, m) @ [x, y])" for x y
    using last_n_append [of HISTORY_MAX_TURNS "f (c, m) @ [x]" "[y]"] by simp
  then show ?thesis using AddTurn assms by (auto simp: add_turn_def add_message_get last_n_append)
next
  case (GetHistory c m)
  then show ?thesis using assms by (simp add: get_history_def dget_def)
next
  case (ClearChannel c)
  then show ?thesis using assms [of k]
    by (simp add: clear_channel_def dget_def map_of_filter_key [of "\<lambda>k. fst k \<noteq> c"] last_n_def)
next
  case (ClearPersona m)
  then show ?thesis using assms [of k]
    by (simp add: clear_persona_def dget_def map_of_filter_key [of "\<lambda>k. snd k \<noteq> m"] last_n_def)
qed (simp add: dget_def last_n_def)

text \<open>
  The conversation window. After any sequence of turns, reads and clearings, what a persona
  sees in a channel is the last 20 of the messages said there since the last clearing that
  covered it, and no other conversation shows in it.
\<close>

theorem history_window:
  "snd (get_history c m (fold history_step es [])) = last_n 20 (fold said_step es (\<lambda>k. []) (c, m))"
proof -
  have "(\<And>k. dget h k [] = last_n HISTORY_MAX_TURNS (f k)) \<Longrightarrow>
      dget (fold history_step es h) k [] = last_n HISTORY_MAX_TURNS (fold said_step es f k)" for h f k
    by (induction es arbitrary: h f) (simp_all add: history_step_window)
  from this [of "[]" "\<lambda>k. []"] show ?thesis
    by (simp add: get_history_def HISTORY_MAX_TURNS_def dget_def last_n_def)
qed

section \<open>The registry survives restarts\<close>

lemma reg_step_saved:
  assumes "event_saves e" "reg_disk r = Some (Some (reg_data r))"
  shows "reg_disk (reg_step e r) = Some (Some (reg_data (reg_step e r)))"
  using assms by (cases e)
    (auto simp: register_def update_status_def remove_thread_def save_registry_def split: option.split)

text \<open>
  Restarts do not change the registry. While saves succeed, after at least one operation that
  saved, a bot that starts anew reads back exactly the registry the old one had; a thread answers
  with its model exactly while it is registered and not marked deleted.
\<close>

theorem registry_survives:
  assumes "\<forall>e\<in>set es. event_saves e"
    and "r = fold reg_step es (register True now i model name kind (load_registry disk))"
  shows "load_registry (reg_disk r) = r
    \<and> (get_model j r \<noteq> None \<longleftrightarrow> (\<exists>e. map_of (reg_data r) (str_int j) = Some e \<and> t_status e \<noteq> ''deleted''))"
proof -
  have "reg_disk r0 = Some (Some (reg_data r0)) \<Longrightarrow>
      reg_disk (fold reg_step es r0) = Some (Some (reg_data (fold reg_step es r0)))" for r0
    using assms(1) by (induction es arbitrary: r0) (simp_all add: reg_step_saved)
  from this [of "register True now i model name kind (load_registry disk)"]
  have "reg_disk r = Some (Some (reg_data r))"
    by (simp add: assms(2) register_def save_registry_def)
  then show ?thesis by (auto simp: load_registry_def get_model_def split: option.split)
qed

theorem registry_survives_witness:
  "let r = reg_step (UpdateStatus True 5 ''deleted'') (register True ''now'' 5 ''m'' ''n'' ''lore'' (load_registry None))
   in load_registry (reg_disk r) = r \<and> get_model 5 r = None"
proof -
  let ?r = "fold reg_step [UpdateStatus True 5 ''deleted''] (register True ''now'' 5 ''m'' ''n'' ''lore'' (load_registry None))"
  have "map_of (reg_data ?r) (str_int 5) = Some \<lparr>t_model = ''m'', t_name = ''n'', t_created = ''now'',
      t_status = ''deleted'', t_kind = Some ''lore''\<rparr>"
    by (simp add: register_def save_registry_def load_registry_def update_status_def)
  with registry_survives [of "[UpdateStatus True 5 ''deleted'']" ?r "''now''" 5 "''m''" "''n''" "''lore''" None 5]
  show ?thesis by (simp add: Let_def)
qed

end
