(* ===== verification/Lore_Session.thy ===== *)
theory Lore_Session
  imports Prelude
begin

text \<open>
  \<open>discord-bot/lore/session.py\<close>: the conversation behind a lore thread and the store of live
  threads and pending offers. Time stamps are strings; \<open>ts\<close> is \<open>datetime.fromisoformat\<close> with the
  UTC default, in seconds, \<open>None\<close> when it raises. \<open>sha\<close> is the truncated SHA-1 of a text.
  Transcript entries are JSON dicts, as they are in the file. Sessions are values: an operation on
  the session of a thread is an operation on the store.
\<close>

definition chunk_key :: "(string \<Rightarrow> string) \<Rightarrow> string \<Rightarrow> string" where
  "chunk_key sha c = sha (strip c)"

section \<open>A session\<close>

record session =
  thread_id :: int
  system_prompt :: json
  original_question :: json
  pinned_now :: json
  offer_message_id :: int
  created_at :: json
  last_active_at :: json
  transcript :: "json list"
  seen_keys :: "string set"
  turns :: int
  searches :: int
  compactions :: int
  last_context_tokens :: int
  peak_context_tokens :: int

definition new_session :: "string \<Rightarrow> int \<Rightarrow> string \<Rightarrow> string \<Rightarrow> string \<Rightarrow> session" where
  "new_session now i prompt question pinned =
     \<lparr>thread_id = i, system_prompt = JStr prompt, original_question = JStr question, pinned_now = JStr pinned,
      offer_message_id = 0, created_at = JStr now, last_active_at = JStr now, transcript = [],
      seen_keys = {}, turns = 0, searches = 0, compactions = 0, last_context_tokens = 0,
      peak_context_tokens = 0\<rparr>"

definition entry :: "string \<Rightarrow> string \<Rightarrow> string \<Rightarrow> json" where
  "entry role text kind = JObj [(''role'', JStr role), (''content'', JStr text), (''kind'', JStr kind)]"

definition key_of :: "jobj \<Rightarrow> string \<Rightarrow> json result" where
  "key_of d k = (case map_of d k of None \<Rightarrow> Inl (KeyError k) | Some v \<Rightarrow> Inr v)"

definition project_entry :: "json \<Rightarrow> json result" where
  "project_entry m =
     bindE (as_obj m) (\<lambda>d. bindE (key_of d ''role'') (\<lambda>r. bindE (key_of d ''content'') (\<lambda>c.
       Inr (JObj [(''role'', r), (''content'', c)]))))"

definition build_messages :: "session \<Rightarrow> json list \<Rightarrow> json list result" where
  "build_messages s extra =
     bindE (mapE project_entry (transcript s)) (\<lambda>ms.
       Inr (JObj [(''role'', JStr ''system''), (''content'', system_prompt s)] # ms @ extra))"

definition touch :: "string \<Rightarrow> session \<Rightarrow> session" where
  "touch now s = s\<lparr>last_active_at := JStr now\<rparr>"

definition append_question :: "string \<Rightarrow> string \<Rightarrow> session \<Rightarrow> session" where
  "append_question now q s = touch now (s\<lparr>transcript := transcript s @ [entry ''user'' q ''question'']\<rparr>)"

definition append_research :: "string \<Rightarrow> session \<Rightarrow> session" where
  "append_research block s =
     s\<lparr>transcript := transcript s @ [entry ''user'' block ''research''], searches := searches s + 1\<rparr>"

definition append_answer :: "string \<Rightarrow> string \<Rightarrow> session \<Rightarrow> session" where
  "append_answer now a s =
     touch now (s\<lparr>transcript := transcript s @ [entry ''assistant'' a ''answer''], turns := turns s + 1\<rparr>)"

text \<open>Seconds since a time stamp, \<open>None\<close> when it cannot be read (the code's infinity).\<close>

definition age :: "(string \<Rightarrow> real option) \<Rightarrow> real \<Rightarrow> json \<Rightarrow> real option" where
  "age ts now v = (case v of JStr s \<Rightarrow> map_option (\<lambda>t. now - t) (ts s) | _ \<Rightarrow> None)"

definition idle_seconds :: "(string \<Rightarrow> real option) \<Rightarrow> real \<Rightarrow> session \<Rightarrow> real option" where
  "idle_seconds ts now s = age ts now (last_active_at s)"

definition field_of :: "json \<Rightarrow> string \<Rightarrow> json" where
  "field_of m k = (case m of JObj d \<Rightarrow> dget d k JNull | _ \<Rightarrow> JNull)"

definition research_indices :: "session \<Rightarrow> nat list" where
  "research_indices s =
     map fst (filter (\<lambda>(i, m). field_of m ''kind'' = JStr ''research'') (enumerate 0 (transcript s)))"

definition record_context :: "int \<Rightarrow> session \<Rightarrow> session" where
  "record_context n s =
     s\<lparr>last_context_tokens := n, peak_context_tokens := max (peak_context_tokens s) n\<rparr>"

text \<open>\<open>len(v)\<close> of a string, list or dict.\<close>

definition json_length :: "json \<Rightarrow> int result" where
  "json_length v =
     (case v of JStr s \<Rightarrow> Inr (int (length s)) | JList xs \<Rightarrow> Inr (int (length xs))
      | JObj kvs \<Rightarrow> Inr (int (length kvs)) | _ \<Rightarrow> Inl TypeError)"

definition estimated_tokens :: "session \<Rightarrow> int result" where
  "estimated_tokens s =
     bindE (json_length (system_prompt s)) (\<lambda>n.
       bindE (mapE (\<lambda>m. json_length (or_else (field_of m ''content'') (JStr []))) (transcript s)) (\<lambda>ns.
         Inr ((n + sum_list ns) div 4)))"

definition pct_of :: "int \<Rightarrow> session \<Rightarrow> real" where
  "pct_of limit s = (if limit = 0 then 0 else real_of_int (last_context_tokens s) / real_of_int limit)"

section \<open>Sessions as JSON\<close>

definition to_dict :: "session \<Rightarrow> jobj" where
  "to_dict s =
     [(''thread_id'', JInt (thread_id s)), (''system_prompt'', system_prompt s),
      (''original_question'', original_question s), (''pinned_now'', pinned_now s),
      (''offer_message_id'', JInt (offer_message_id s)), (''created_at'', created_at s),
      (''last_active_at'', last_active_at s), (''transcript'', JList (transcript s)),
      (''seen_keys'', JList (map JStr (sorted_list_of_set (seen_keys s)))),
      (''turns'', JInt (turns s)), (''searches'', JInt (searches s)), (''compactions'', JInt (compactions s)),
      (''last_context_tokens'', JInt (last_context_tokens s)),
      (''peak_context_tokens'', JInt (peak_context_tokens s))]"

definition int_or_zero :: "jobj \<Rightarrow> string \<Rightarrow> int result" where
  "int_or_zero d k = py_int (or_else (dget d k JNull) (JInt 0))"

text \<open>Keys are strings; a set cannot hold lists or dicts, and other scalars are not keys here.\<close>

definition str_item :: "json \<Rightarrow> string result" where
  "str_item v = (case v of JStr s \<Rightarrow> Inr s | _ \<Rightarrow> Inl TypeError)"

definition from_dict :: "json \<Rightarrow> session result" where
  "from_dict v =
     (case v of
        JObj d \<Rightarrow>
          bindE (bindE (key_of d ''thread_id'') py_int) (\<lambda>tid.
          bindE (int_or_zero d ''offer_message_id'') (\<lambda>offer.
          bindE (as_items (or_else (dget d ''transcript'' JNull) (JList []))) (\<lambda>tr.
          bindE (bindE (as_items (or_else (dget d ''seen_keys'' JNull) (JList []))) (mapE str_item)) (\<lambda>seen.
          bindE (int_or_zero d ''turns'') (\<lambda>tu.
          bindE (int_or_zero d ''searches'') (\<lambda>se.
          bindE (int_or_zero d ''compactions'') (\<lambda>co.
          bindE (int_or_zero d ''last_context_tokens'') (\<lambda>la.
          bindE (int_or_zero d ''peak_context_tokens'') (\<lambda>pe.
            Inr \<lparr>thread_id = tid, system_prompt = dget d ''system_prompt'' (JStr []),
              original_question = dget d ''original_question'' (JStr []),
              pinned_now = dget d ''pinned_now'' (JStr []), offer_message_id = offer,
              created_at = dget d ''created_at'' (JStr []),
              last_active_at = or_else (dget d ''last_active_at'' JNull) (dget d ''created_at'' (JStr [])),
              transcript = tr, seen_keys = set seen, turns = tu, searches = se, compactions = co,
              last_context_tokens = la, peak_context_tokens = pe\<rparr>)))))))))
      | _ \<Rightarrow> Inl TypeError)"

section \<open>The store\<close>

datatype session_file = NoSessions | BadSessions | Sessions json

record lore_store =
  s_threads :: "(int \<times> session) list"
  s_pending :: "(int \<times> session) list"
  s_disk :: session_file

text \<open>The loop over one population; malformed entries are skipped.\<close>

definition skippable :: "py_error \<Rightarrow> bool" where
  "skippable e \<longleftrightarrow> (case e of TypeError \<Rightarrow> True | ValueError \<Rightarrow> True | KeyError k \<Rightarrow> True | _ \<Rightarrow> False)"

fun load_entries :: "jobj \<Rightarrow> (int \<times> session) list \<Rightarrow> (int \<times> session) list result" where
  "load_entries [] acc = Inr acc"
| "load_entries ((k, v) # es) acc =
     (case bindE (py_int (JStr k)) (\<lambda>i. bindE (from_dict v) (\<lambda>s. Inr (i, s))) of
        Inr (i, s) \<Rightarrow> load_entries es (dset i s acc)
      | Inl e \<Rightarrow> if skippable e then load_entries es acc else Inl e)"

definition load_doc :: "json \<Rightarrow> ((int \<times> session) list \<times> (int \<times> session) list) result" where
  "load_doc doc =
     (case or_else doc (JObj []) of
        JObj raw \<Rightarrow>
          (if map_of raw ''threads'' \<noteq> None \<or> map_of raw ''pending'' \<noteq> None
           then bindE (as_obj (or_else (dget raw ''threads'' JNull) (JObj []))) (\<lambda>ths.
                  bindE (load_entries ths []) (\<lambda>t.
                  bindE (as_obj (or_else (dget raw ''pending'' JNull) (JObj []))) (\<lambda>pens.
                  bindE (load_entries pens []) (\<lambda>p. Inr (t, p)))))
           else bindE (load_entries raw []) (\<lambda>t. Inr (t, [])))
      | JInt _ \<Rightarrow> Inl TypeError | JReal _ \<Rightarrow> Inl TypeError | JBool _ \<Rightarrow> Inl TypeError
      | _ \<Rightarrow> Inl AttributeError)"

definition load_store :: "session_file \<Rightarrow> lore_store result" where
  "load_store f =
     (case f of
        Sessions doc \<Rightarrow> bindE (load_doc doc) (\<lambda>(t, p). Inr \<lparr>s_threads = t, s_pending = p, s_disk = f\<rparr>)
      | _ \<Rightarrow> Inr \<lparr>s_threads = [], s_pending = [], s_disk = f\<rparr>)"

definition dump_entries :: "(int \<times> session) list \<Rightarrow> jobj" where
  "dump_entries d = map (\<lambda>(k, s). (str_int k, JObj (to_dict s))) d"

definition dump_store :: "lore_store \<Rightarrow> json" where
  "dump_store st =
     JObj [(''threads'', JObj (dump_entries (s_threads st))), (''pending'', JObj (dump_entries (s_pending st)))]"

text \<open>Write to a temporary file and rename; on an \<open>OSError\<close> the file stays as it was.\<close>

definition save_store :: "bool \<Rightarrow> lore_store \<Rightarrow> lore_store" where
  "save_store ok st = (if ok then st\<lparr>s_disk := Sessions (dump_store st)\<rparr> else st)"

definition get_session :: "int \<Rightarrow> lore_store \<Rightarrow> session option" where
  "get_session i st = map_of (s_threads st) i"

definition put_session :: "bool \<Rightarrow> session \<Rightarrow> lore_store \<Rightarrow> lore_store" where
  "put_session ok s st = save_store ok (st\<lparr>s_threads := dset (thread_id s) s (s_threads st)\<rparr>)"

definition remove_session :: "bool \<Rightarrow> int \<Rightarrow> lore_store \<Rightarrow> lore_store" where
  "remove_session ok i st =
     (if map_of (s_threads st) i = None then st
      else save_store ok (st\<lparr>s_threads := dpop i (s_threads st)\<rparr>))"

definition expired_threads :: "(string \<Rightarrow> real option) \<Rightarrow> real \<Rightarrow> real \<Rightarrow> lore_store \<Rightarrow> int list" where
  "expired_threads ts now ttl st =
     map fst (filter (\<lambda>(i, s). case idle_seconds ts now s of None \<Rightarrow> True | Some x \<Rightarrow> x > ttl) (s_threads st))"

definition stale_offer :: "(string \<Rightarrow> real option) \<Rightarrow> real \<Rightarrow> real \<Rightarrow> session \<Rightarrow> bool" where
  "stale_offer ts now ttl s = (case age ts now (created_at s) of None \<Rightarrow> True | Some x \<Rightarrow> x > ttl)"

definition sweep_offers ::
  "bool \<Rightarrow> (string \<Rightarrow> real option) \<Rightarrow> real \<Rightarrow> real \<Rightarrow> lore_store \<Rightarrow> lore_store \<times> nat" where
  "sweep_offers ok ts now ttl st =
     (let stale = map fst (filter (\<lambda>(i, s). stale_offer ts now ttl s) (s_pending st));
          st1 = st\<lparr>s_pending := fold dpop stale (s_pending st)\<rparr>
      in (if stale = [] then st else save_store ok st1, length stale))"

definition offer ::
  "bool \<Rightarrow> (string \<Rightarrow> real option) \<Rightarrow> real \<Rightarrow> int \<Rightarrow> session \<Rightarrow> real \<Rightarrow> lore_store \<Rightarrow> lore_store" where
  "offer ok ts now m s ttl st =
     (let st1 = (if ttl \<noteq> 0 then fst (sweep_offers ok ts now ttl st) else st)
      in save_store ok (st1\<lparr>s_pending := dset m (s\<lparr>offer_message_id := m\<rparr>) (s_pending st1)\<rparr>))"

definition claim :: "bool \<Rightarrow> int \<Rightarrow> int \<Rightarrow> lore_store \<Rightarrow> lore_store \<times> session option" where
  "claim ok m tid st =
     (case map_of (s_pending st) m of
        None \<Rightarrow> (st, None)
      | Some s \<Rightarrow>
          let s1 = s\<lparr>thread_id := tid\<rparr>
          in (save_store ok (st\<lparr>s_pending := dpop m (s_pending st), s_threads := dset tid s1 (s_threads st)\<rparr>),
              Some s1))"

text \<open>The store under its events; \<open>Mutate\<close> is any change a turn makes to a live session.\<close>

datatype store_event =
    Offer bool real int session real
  | Claim bool int int
  | Sweep bool real real
  | Put bool session
  | Remove bool int
  | Mutate int "session \<Rightarrow> session"

fun store_step :: "(string \<Rightarrow> real option) \<Rightarrow> store_event \<Rightarrow> lore_store \<Rightarrow> lore_store" where
  "store_step ts (Offer ok now m s ttl) st = offer ok ts now m s ttl st"
| "store_step ts (Claim ok m tid) st = fst (claim ok m tid st)"
| "store_step ts (Sweep ok now ttl) st = fst (sweep_offers ok ts now ttl st)"
| "store_step ts (Put ok s) st = put_session ok s st"
| "store_step ts (Remove ok i) st = remove_session ok i st"
| "store_step ts (Mutate i f) st =
     (case map_of (s_threads st) i of
        None \<Rightarrow> st | Some s \<Rightarrow> st\<lparr>s_threads := dset i ((f s)\<lparr>thread_id := thread_id s\<rparr>) (s_threads st)\<rparr>)"

text \<open>How often message \<open>m\<close> was offered, and how often a claim of it succeeded.\<close>

fun offers_of :: "int \<Rightarrow> store_event list \<Rightarrow> nat" where
  "offers_of m [] = 0"
| "offers_of m (Offer ok now m' s ttl # es) = (if m' = m then 1 else 0) + offers_of m es"
| "offers_of m (e # es) = offers_of m es"

fun claims_of :: "(string \<Rightarrow> real option) \<Rightarrow> int \<Rightarrow> store_event list \<Rightarrow> lore_store \<Rightarrow> nat" where
  "claims_of ts m [] st = 0"
| "claims_of ts m (e # es) st =
     (case e of Claim ok m' tid \<Rightarrow> (if m' = m \<and> snd (claim ok m' tid st) \<noteq> None then 1 else 0) | _ \<Rightarrow> 0)
     + claims_of ts m es (store_step ts e st)"

section \<open>Append-only\<close>

datatype turn_op = Question string string | Research string | Answer string string

fun session_step :: "turn_op \<Rightarrow> session \<Rightarrow> session" where
  "session_step (Question now q) s = append_question now q s"
| "session_step (Research b) s = append_research b s"
| "session_step (Answer now a) s = append_answer now a s"

text \<open>The message the backend sees for each.\<close>

fun op_message :: "turn_op \<Rightarrow> json" where
  "op_message (Question now q) = JObj [(''role'', JStr ''user''), (''content'', JStr q)]"
| "op_message (Research b) = JObj [(''role'', JStr ''user''), (''content'', JStr b)]"
| "op_message (Answer now a) = JObj [(''role'', JStr ''assistant''), (''content'', JStr a)]"

lemma mapE_append: "mapE f (xs @ ys) = bindE (mapE f xs) (\<lambda>us. bindE (mapE f ys) (\<lambda>vs. Inr (us @ vs)))"
  by (induction xs) (auto simp: bindE_def split: sum.splits)

lemma build_after:
  "build_messages s [] = Inr ms \<Longrightarrow> build_messages (fold session_step ops s) [] = Inr (ms @ map op_message ops)"
proof (induction ops arbitrary: s ms)
  case (Cons op ops)
  have "build_messages (session_step op s) [] = Inr (ms @ [op_message op])"
    using Cons.prems by (cases op)
      (auto simp: build_messages_def append_question_def append_research_def append_answer_def touch_def
        mapE_append bindE_eq_Inr project_entry_def entry_def as_obj_def key_of_def)
  from Cons.IH [OF this] show ?case by simp
qed simp

text \<open>
  The prefix the backend has cached stays. After any number of questions, research blocks and
  answers, the request is the earlier request followed by exactly the new messages, each reduced
  to role and content, and then the call's own scaffolding.
\<close>

theorem append_only:
  assumes "build_messages s [] = Inr ms"
  shows "build_messages (fold session_step ops s) extra = Inr (ms @ map op_message ops @ extra)"
  using build_after [OF assms, of ops] by (auto simp: build_messages_def bindE_eq_Inr)

theorem append_only_witness:
  "build_messages (fold session_step [Question ''t'' ''who?'', Answer ''t'' ''Bob''] (new_session ''t'' 0 ''p'' ''who?'' ''n'')) []
     = Inr [JObj [(''role'', JStr ''system''), (''content'', JStr ''p'')],
            JObj [(''role'', JStr ''user''), (''content'', JStr ''who?'')],
            JObj [(''role'', JStr ''assistant''), (''content'', JStr ''Bob'')]]"
proof -
  have "build_messages (new_session ''t'' 0 ''p'' ''who?'' ''n'') []
      = Inr [JObj [(''role'', JStr ''system''), (''content'', JStr ''p'')]]"
    by (simp add: build_messages_def new_session_def)
  from append_only [OF this, of "[Question ''t'' ''who?'', Answer ''t'' ''Bob'']" "[]"] show ?thesis by simp
qed

section \<open>The store invariant\<close>

definition lore_ok :: "lore_store \<Rightarrow> bool" where
  "lore_ok st \<longleftrightarrow> dict_ok (s_threads st) \<and> dict_ok (s_pending st)
     \<and> (\<forall>i s. map_of (s_threads st) i = Some s \<longrightarrow> thread_id s = i)
     \<and> (\<forall>m s. map_of (s_pending st) m = Some s \<longrightarrow> offer_message_id s = m)"

lemma fold_dpop_filter: "fold dpop ks d = filter (\<lambda>kv. fst kv \<notin> set ks) d"
  by (induction ks arbitrary: d) (auto simp: dpop_def intro!: filter_cong)

lemma save_store_simps [simp]:
  "s_threads (save_store ok st) = s_threads st" "s_pending (save_store ok st) = s_pending st"
  by (simp_all add: save_store_def)

lemma filter_keys:
  assumes "dict_ok d"
  shows "filter (\<lambda>kv. fst kv \<notin> set (map fst (filter P d))) d = filter (\<lambda>kv. \<not> P kv) d"
proof (intro filter_cong refl)
  fix kv assume kv: "kv \<in> set d"
  have "inj_on fst (set d)" using assms by (simp add: dict_ok_def distinct_map)
  then have "fst kv \<in> fst ` set (filter P d) \<longleftrightarrow> kv \<in> set (filter P d)"
    using kv by (intro inj_on_image_mem_iff) auto
  then show "fst kv \<notin> set (map fst (filter P d)) \<longleftrightarrow> \<not> P kv" using kv by simp
qed

lemma sweep_simps:
  assumes "dict_ok (s_pending st)"
  shows "s_threads (fst (sweep_offers ok ts now ttl st)) = s_threads st"
    "s_pending (fst (sweep_offers ok ts now ttl st)) = filter (\<lambda>(i, s). \<not> stale_offer ts now ttl s) (s_pending st)"
proof -
  let ?st = "map fst (filter (\<lambda>(i, s). stale_offer ts now ttl s) (s_pending st))"
  have f: "filter (\<lambda>kv. fst kv \<notin> set ?st) (s_pending st) = filter (\<lambda>(i, s). \<not> stale_offer ts now ttl s) (s_pending st)"
    using filter_keys [OF assms, of "\<lambda>(i, s). stale_offer ts now ttl s"] by (simp add: case_prod_unfold)
  show "s_threads (fst (sweep_offers ok ts now ttl st)) = s_threads st"
    by (simp add: sweep_offers_def Let_def)
  show "s_pending (fst (sweep_offers ok ts now ttl st)) = filter (\<lambda>(i, s). \<not> stale_offer ts now ttl s) (s_pending st)"
  proof (cases "?st = []")
    case True
    then have "s_pending (fst (sweep_offers ok ts now ttl st)) = filter (\<lambda>kv. fst kv \<notin> set ?st) (s_pending st)"
      by (simp add: sweep_offers_def Let_def)
    then show ?thesis using f by simp
  next
    case False
    then have "s_pending (fst (sweep_offers ok ts now ttl st)) = fold dpop ?st (s_pending st)"
      by (simp add: sweep_offers_def Let_def del: map_is_Nil_conv)
    then show ?thesis using f by (simp add: fold_dpop_filter)
  qed
qed

lemma map_of_filter_dict: "dict_ok d \<Longrightarrow> map_of (filter P d) k = Some v \<Longrightarrow> map_of d k = Some v"
  by (auto simp: dict_ok_def dest!: map_of_SomeD intro: map_of_is_SomeI)

lemma dict_ok_filter: "dict_ok d \<Longrightarrow> dict_ok (filter P d)"
  by (simp add: dict_ok_def distinct_map_filter)

lemma sweep_ok: "lore_ok st \<Longrightarrow> lore_ok (fst (sweep_offers ok ts now ttl st))"
  by (auto simp: lore_ok_def sweep_simps dict_ok_filter dest: map_of_filter_dict)

lemma lore_step_ok: "lore_ok st \<Longrightarrow> lore_ok (store_step ts e st)"
proof (cases e)
  case (Offer ok now m s ttl)
  assume "lore_ok st"
  then have "lore_ok (if ttl \<noteq> 0 then fst (sweep_offers ok ts now ttl st) else st)" by (simp add: sweep_ok)
  then show ?thesis using Offer by (auto simp: offer_def lore_ok_def Let_def)
qed (auto simp: lore_ok_def claim_def put_session_def remove_session_def Let_def
    sweep_simps dict_ok_filter dest: map_of_filter_dict split: option.split)

definition lore_start :: "lore_store \<Rightarrow> bool" where
  "lore_start st \<longleftrightarrow> s_threads st = [] \<and> s_pending st = []"

interpretation lore: machine "store_step ts" lore_ok lore_start for ts
  by unfold_locales (simp add: lore_start_def lore_ok_def, rule lore_step_ok)

text \<open>
  One thread per offer. Over any sequence of offers, claims, sweeps and turns, however many
  people react, the successful claims of a message are at most the offers of it (and one more if
  it was on offer at the beginning); every live session sits under its own thread id.
\<close>

theorem claim_once:
  assumes "lore_ok st"
  shows "claims_of ts m es st \<le> offers_of m es + (if map_of (s_pending st) m = None then 0 else 1)
    \<and> lore_ok (fold (store_step ts) es st)"
proof -
  have "dict_ok (s_pending st) \<Longrightarrow> lore_ok st \<Longrightarrow>
      claims_of ts m es st \<le> offers_of m es + (if map_of (s_pending st) m = None then 0 else 1)" for st
  proof (induction es arbitrary: st)
    case (Cons e es)
    let ?st = "store_step ts e st"
    have ok: "lore_ok ?st" using lore_step_ok Cons.prems(2) by blast
    then have "dict_ok (s_pending ?st)" by (simp add: lore_ok_def)
    note IH = Cons.IH [OF this ok]
    have gone: "map_of (s_pending st) m = None \<Longrightarrow> map_of (filter P (s_pending st)) m = None" for P
      using map_of_filter_dict [OF Cons.prems(1)] by (metis not_Some_eq)
    show ?case
    proof (cases e)
      case (Offer ok now m' s ttl)
      have "map_of (s_pending st) m = None \<Longrightarrow> m' \<noteq> m \<Longrightarrow> map_of (s_pending ?st) m = None"
        using gone by (simp add: Offer offer_def Let_def sweep_simps [OF Cons.prems(1)])
      then show ?thesis using IH Offer by (auto split: if_splits)
    next
      case (Sweep ok now ttl)
      then show ?thesis using IH gone by (auto simp: sweep_simps [OF Cons.prems(1)] split: if_splits)
    qed (use IH in \<open>auto simp: claim_def put_session_def remove_session_def Let_def split: option.splits if_splits\<close>)
  qed simp
  then show ?thesis using assms lore.fold_inv [OF assms] by (simp add: lore_ok_def)
qed

definition example_session :: session where
  "example_session = new_session ''t'' 0 ''p'' ''q'' ''n''"

definition example_store :: lore_store where
  "example_store = \<lparr>s_threads = [], s_pending = [(5, example_session\<lparr>offer_message_id := 5\<rparr>)], s_disk = NoSessions\<rparr>"

theorem claim_once_witness:
  "claims_of (\<lambda>s. None) 5 [Claim True 5 100, Claim True 5 101] example_store \<le> 1
   \<and> snd (claim True 5 100 example_store) \<noteq> None"
proof -
  have "lore_ok example_store" by (simp add: lore_ok_def example_store_def dict_ok_def)
  note c = claim_once [OF this, of "\<lambda>s. None" 5 "[Claim True 5 100, Claim True 5 101]"]
  note conjunct1 [OF c]
  also have "offers_of 5 [Claim True 5 100, Claim True 5 101]
      + (if map_of (s_pending example_store) 5 = None then 0 else 1) \<le> 1" by simp
  finally have "claims_of (\<lambda>s. None) 5 [Claim True 5 100, Claim True 5 101] example_store \<le> 1" .
  moreover have "snd (claim True 5 100 example_store) \<noteq> None"
    by (simp add: example_store_def claim_def Let_def)
  ultimately show ?thesis ..
qed

text \<open>
  Sweeping. A sweep drops exactly the offers whose age is above the limit or cannot be read,
  keeps the others in order, and touches no thread.
\<close>

theorem sweep_exact:
  assumes "lore_ok st" and "sweep_offers ok ts now ttl st = (st', n)"
  shows "s_threads st' = s_threads st
    \<and> s_pending st' = filter (\<lambda>(i, s). \<not> stale_offer ts now ttl s) (s_pending st)
    \<and> length (s_pending st') + n = length (s_pending st)"
proof -
  have st: "st' = fst (sweep_offers ok ts now ttl st)" "n = snd (sweep_offers ok ts now ttl st)"
    using assms(2) by simp_all
  have d: "dict_ok (s_pending st)" using assms(1) by (simp add: lore_ok_def)
  have "n = length (filter (\<lambda>(i, s). stale_offer ts now ttl s) (s_pending st))"
    by (simp add: st(2) sweep_offers_def Let_def)
  moreover have "length (filter (\<lambda>(i, s). \<not> stale_offer ts now ttl s) xs)
      + length (filter (\<lambda>(i, s). stale_offer ts now ttl s) xs) = length xs" for xs :: "(int \<times> session) list"
    by (induction xs) auto
  ultimately show ?thesis unfolding st(1) sweep_simps [OF d] by simp
qed

theorem sweep_exact_witness:
  "s_pending (fst (sweep_offers True (\<lambda>s. Some 0) 10 5 example_store)) = []"
proof -
  have "lore_ok example_store" by (simp add: lore_ok_def example_store_def dict_ok_def)
  from sweep_exact [OF this, of True "\<lambda>s. Some 0" 10 5] show ?thesis
    by (cases "sweep_offers True (\<lambda>s. Some 0) 10 5 example_store")
      (simp add: example_store_def stale_offer_def age_def example_session_def new_session_def)
qed

section \<open>Persistence\<close>

text \<open>Sessions that survive: a finite set of keys, and an activity stamp that is not blank.\<close>

definition saveable :: "session \<Rightarrow> bool" where
  "saveable s \<longleftrightarrow> finite (seen_keys s) \<and> (truthy (last_active_at s) \<or> last_active_at s = created_at s)"

lemma mapE_str_items: "mapE str_item (map JStr xs) = Inr xs"
  by (induction xs) (simp_all add: str_item_def)

lemma from_to_dict: "saveable s \<Longrightarrow> from_dict (JObj (to_dict s)) = Inr s"
proof -
  assume s: "saveable s"
  have i: "py_int (or_else (JInt n) (JInt 0)) = Inr n" for n by (simp add: or_else_def)
  have l: "as_items (or_else (JList xs) (JList [])) = Inr xs" for xs by (simp add: or_else_def as_items_def)
  have t: "or_else (last_active_at s) (created_at s) = last_active_at s"
    using s by (auto simp: saveable_def or_else_def)
  show ?thesis
    using s by (simp add: from_dict_def to_dict_def key_of_def int_or_zero_def dget_def i l t mapE_str_items saveable_def)
qed

lemma load_dump:
  "dict_ok (acc @ d) \<Longrightarrow> \<forall>k s. (k, s) \<in> set d \<longrightarrow> saveable s \<Longrightarrow> load_entries (dump_entries d) acc = Inr (acc @ d)"
proof (induction d arbitrary: acc)
  case (Cons x d)
  obtain k s where x: "x = (k, s)" by force
  have "k \<notin> fst ` set acc" using Cons.prems(1) by (auto simp: x dict_ok_def)
  then have "dset k s acc = acc @ [(k, s)]" by (rule dset_absent)
  moreover have "from_dict (JObj (to_dict s)) = Inr s" using Cons.prems(2) x from_to_dict by simp
  ultimately show ?case
    using Cons by (simp add: x dump_entries_def py_int_str_int del: py_int.simps)
qed (simp add: dump_entries_def)

lemma load_saved:
  assumes "lore_ok st" and "\<forall>k s. (k, s) \<in> set (s_threads st @ s_pending st) \<longrightarrow> saveable s"
  shows "load_store (s_disk (save_store True st)) = Inr (save_store True st)"
proof -
  have "load_entries (dump_entries (s_threads st)) [] = Inr (s_threads st)"
    "load_entries (dump_entries (s_pending st)) [] = Inr (s_pending st)"
    using load_dump [of "[]"] assms by (simp_all add: lore_ok_def)
  moreover have "as_obj (or_else (JObj kvs) (JObj [])) = Inr kvs" for kvs
    by (simp add: or_else_def as_obj_def)
  ultimately show ?thesis
    by (simp add: save_store_def load_store_def load_doc_def dump_store_def or_else_def [of "JObj (_ # _)"] dget_def)
qed

text \<open>
  Nothing is lost over a restart. Whatever the store holds, once it has been saved a bot that
  starts anew loads exactly the same threads and offers, in the same order.
\<close>

theorem sessions_roundtrip:
  assumes "lore_ok st" and "\<forall>k s. (k, s) \<in> set (s_threads st @ s_pending st) \<longrightarrow> saveable s"
  shows "load_store (s_disk (save_store True st)) = Inr (save_store True st)"
  using load_saved [OF assms] .

theorem sessions_roundtrip_witness:
  "\<exists>st. load_store (s_disk (save_store True example_store)) = Inr st \<and> s_pending st = s_pending example_store"
proof -
  have "lore_ok example_store" by (simp add: lore_ok_def example_store_def dict_ok_def)
  moreover have "\<forall>k s. (k, s) \<in> set (s_threads example_store @ s_pending example_store) \<longrightarrow> saveable s"
    by (simp add: example_store_def saveable_def example_session_def new_session_def)
  ultimately show ?thesis using sessions_roundtrip [of example_store] by simp
qed

end
