(* ===== verification/Lore_Research.thy ===== *)
theory Lore_Research
  imports Lore_Session
begin

text \<open>
  \<open>discord-bot/lore/research.py\<close>, \<open>metrics.py\<close> and \<open>compaction.py\<close>: tool results as plain text, the
  token accounting, and the condensing of old research. \<open>loads\<close> is \<open>json.loads\<close>, \<open>rep\<close> is \<open>str()\<close>
  of a float, list or dict. Tool-call ids are strings, as the backend's API has them.

  A message of the running conversation is one of the dicts the code builds; a list of messages
  carries the identity of each dict, which compaction compares. An em dash is written as two hyphens.
\<close>

datatype message =
    Raw json                      \<comment> \<open>a dict of a thread's transcript, without tool calls\<close>
  | Text string string            \<comment> \<open>role and content\<close>
  | Call json string              \<comment> \<open>assistant with one tool call, and its reasoning\<close>
  | Result json string string     \<comment> \<open>tool: name, content, tool-call id\<close>
  | Condensed string              \<comment> \<open>user content tagged \<open>CONDENSED_KIND\<close>\<close>

type_synonym conversation = "(nat \<times> message) list"

definition RAG_CHUNK_SEPARATOR :: string where
  "RAG_CHUNK_SEPARATOR = [nlc, nlc] @ ''---'' @ [nlc, nlc]"

definition SEARCH_NOTE_PREFIX :: string where "SEARCH_NOTE_PREFIX = ''[Search note]''"

section \<open>Chunks\<close>

definition split_chunks :: "string \<Rightarrow> string list" where
  "split_chunks r = filter (\<lambda>c. c \<noteq> []) (map strip (split_on RAG_CHUNK_SEPARATOR r))"

text \<open>The chunks with a key not seen yet, in order, and the keys seen afterwards.\<close>

fun keep_fresh :: "(string \<Rightarrow> string) \<Rightarrow> string list \<Rightarrow> string set \<Rightarrow> string list \<times> string set" where
  "keep_fresh sha [] seen = ([], seen)"
| "keep_fresh sha (c # cs) seen =
     (if chunk_key sha c \<in> seen then keep_fresh sha cs seen
      else let (fresh, seen') = keep_fresh sha cs (insert (chunk_key sha c) seen) in (c # fresh, seen'))"

definition all_shown_note :: "nat \<Rightarrow> string" where
  "all_shown_note n = SEARCH_NOTE_PREFIX @ '' All '' @ str_nat n @
     '' excerpt(s) this search returned were already shown earlier in this conversation'' @
     '' -- it found nothing new. Change the wording, the tool or the scope, or answer'' @
     '' from what you have.''"

definition omitted_note :: "nat \<Rightarrow> nat \<Rightarrow> string" where
  "omitted_note dropped n = SEARCH_NOTE_PREFIX @ '' '' @ str_nat dropped @ '' of '' @ str_nat n @
     '' excerpt(s) omitted -- already shown earlier in this conversation.''"

definition drop_seen_chunks :: "(string \<Rightarrow> string) \<Rightarrow> string \<Rightarrow> string set \<Rightarrow> string \<times> string set" where
  "drop_seen_chunks sha result seen =
     (let chunks = split_chunks result;
          (fresh, seen') = keep_fresh sha chunks seen;
          dropped = length chunks - length fresh
      in if dropped = 0 then (result, seen')
         else if fresh = [] then (all_shown_note (length chunks), seen')
         else (join RAG_CHUNK_SEPARATOR (fresh @ [omitted_note dropped (length chunks)]), seen'))"

section \<open>Rendering\<close>

text \<open>What was searched for, from one tool call.\<close>

definition call_args :: "(string \<Rightarrow> json result) \<Rightarrow> json \<Rightarrow> json" where
  "call_args loads raw =
     (case raw of
        JStr s \<Rightarrow> (case loads s of Inr v \<Rightarrow> v | Inl e \<Rightarrow> JObj [])
      | _ \<Rightarrow> or_else raw (JObj []))"

definition label_text :: "(json \<Rightarrow> string) \<Rightarrow> jobj \<Rightarrow> string" where
  "label_text rep args =
     (let query = dget args ''query'' JNull; channel = dget args ''channel_name'' JNull;
          start = dget args ''start_date'' JNull; end' = dget args ''end_date'' JNull;
          parts = (if truthy query then [''\"'' @ py_str rep query @ ''\"''] else [])
                @ (if truthy channel then [''in '' @ py_str rep channel] else [])
                @ (if truthy start \<or> truthy end'
                   then [''between '' @ py_str rep (or_else start (JStr ''any'')) @ '' and ''
                         @ py_str rep (or_else end' (JStr ''any''))] else [])
      in if parts = [] then ''(unlabelled search)'' else join '' '' parts)"

definition call_id :: "jobj \<Rightarrow> string" where
  "call_id tc = (case dget tc ''id'' (JStr []) of JStr s \<Rightarrow> s | _ \<Rightarrow> [])"

definition call_label ::
  "(json \<Rightarrow> string) \<Rightarrow> (string \<Rightarrow> json result) \<Rightarrow> json \<Rightarrow> (string \<times> string) result" where
  "call_label rep loads tc =
     bindE (as_obj tc) (\<lambda>t.
     bindE (as_obj (or_else (dget t ''function'' (JObj [])) (JObj []))) (\<lambda>f.
     bindE (as_obj (call_args loads (dget f ''arguments'' (JStr [])))) (\<lambda>args.
       Inr (call_id t, label_text rep args))))"

fun search_labels ::
  "(json \<Rightarrow> string) \<Rightarrow> (string \<Rightarrow> json result) \<Rightarrow> conversation \<Rightarrow> (string \<times> string) list \<Rightarrow>
     (string \<times> string) list result" where
  "search_labels rep loads [] labels = Inr labels"
| "search_labels rep loads ((i, Call tc why) # ms) labels =
     bindE (call_label rep loads tc) (\<lambda>(k, l). search_labels rep loads ms (dset k l labels))"
| "search_labels rep loads (m # ms) labels = search_labels rep loads ms labels"

definition block_text :: "nat \<Rightarrow> string \<Rightarrow> string list \<Rightarrow> string" where
  "block_text n label fresh = ''[Search '' @ str_nat n @ ''] '' @ label @ [nlc] @ join RAG_CHUNK_SEPARATOR fresh"

definition is_note :: "string \<Rightarrow> bool" where
  "is_note c \<longleftrightarrow> starts_with c SEARCH_NOTE_PREFIX"

text \<open>The loop over the messages: blocks so far, duplicates so far, keys seen.\<close>

fun render_loop ::
  "(string \<Rightarrow> string) \<Rightarrow> (string \<times> string) list \<Rightarrow> nat \<Rightarrow> conversation \<Rightarrow> string list \<times> nat \<times> string set \<Rightarrow>
     string list \<times> nat \<times> string set" where
  "render_loop sha labels start [] acc = acc"
| "render_loop sha labels start ((i, Condensed c) # ms) (blocks, dropped, seen) =
     render_loop sha labels start ms (blocks @ [c], dropped, seen)"
| "render_loop sha labels start ((i, Result name content tid) # ms) (blocks, dropped, seen) =
     (let chunks = filter (\<lambda>c. \<not> is_note c) (split_chunks (strip content));
          (fresh, seen') = keep_fresh sha chunks seen;
          label = (let l = dget labels tid [] in if l = [] then ''(unlabelled search)'' else l)
      in render_loop sha labels start ms
           (if fresh = [] then blocks
            else blocks @ [block_text (start + length blocks + 1) label fresh],
            dropped + (length chunks - length fresh), seen'))"
| "render_loop sha labels start (m # ms) acc = render_loop sha labels start ms acc"

definition render_research_blocks ::
  "(string \<Rightarrow> string) \<Rightarrow> (json \<Rightarrow> string) \<Rightarrow> (string \<Rightarrow> json result) \<Rightarrow> conversation \<Rightarrow> string set \<Rightarrow> nat \<Rightarrow>
     (string list \<times> nat \<times> string set) result" where
  "render_research_blocks sha rep loads ms seen start =
     bindE (search_labels rep loads ms []) (\<lambda>labels. Inr (render_loop sha labels start ms ([], 0, seen)))"

text \<open>The flat prompt; \<open>prompt\<close> is the synthesis system prompt.\<close>

definition flatten_research_for_synthesis ::
  "(string \<Rightarrow> string) \<Rightarrow> (json \<Rightarrow> string) \<Rightarrow> (string \<Rightarrow> json result) \<Rightarrow> string \<Rightarrow> conversation \<Rightarrow> string \<Rightarrow>
     (string \<times> string) list result" where
  "flatten_research_for_synthesis sha rep loads prompt ms question =
     bindE (render_research_blocks sha rep loads ms {} 0) (\<lambda>(blocks, dropped, seen).
       Inr [(''system'', prompt),
            (''user'', ''Question: '' @ question @ [nlc, nlc] @
               (if blocks \<noteq> []
                then ''Below is everything already retrieved from the Discord archive to '' @
                     ''answer it. No further searching is possible -- write the final '' @
                     ''answer using only what appears here.'' @ [nlc, nlc] @ join [nlc, nlc] blocks
                else ''No usable results came back from the Discord archive. Tell the '' @
                     ''user plainly that you could not find this information.''))])"

section \<open>Metrics\<close>

record metrics =
  total_tool_calls :: nat
  rounds_executed :: nat
  prompt_tokens :: int
  completion_tokens :: int
  cached_tokens :: int
  m_peak_context_tokens :: int
  total_completion_tokens :: int

definition metrics_init :: metrics where
  "metrics_init = \<lparr>total_tool_calls = 0, rounds_executed = 0, prompt_tokens = 0, completion_tokens = 0,
     cached_tokens = 0, m_peak_context_tokens = 0, total_completion_tokens = 0\<rparr>"

text \<open>The usage report is a dict or absent; the fallbacks are character counts.\<close>

definition usage_counts :: "json \<Rightarrow> int \<Rightarrow> int \<Rightarrow> (int \<times> int \<times> int) result" where
  "usage_counts usage fp fc =
     (if truthy usage
      then bindE (as_obj usage) (\<lambda>u.
           bindE (int_or_zero u ''prompt_tokens'') (\<lambda>p.
           bindE (int_or_zero u ''completion_tokens'') (\<lambda>c.
           bindE (as_obj (or_else (dget u ''prompt_tokens_details'' JNull) (JObj []))) (\<lambda>det.
           bindE (int_or_zero det ''cached_tokens'') (\<lambda>k. Inr (p, c, k))))))
      else Inr (fp div 4, fc div 4, 0))"

definition record_usage :: "json \<Rightarrow> int \<Rightarrow> int \<Rightarrow> metrics \<Rightarrow> metrics result" where
  "record_usage usage fp fc m =
     bindE (usage_counts usage fp fc) (\<lambda>(p, c, k).
       Inr (m\<lparr>prompt_tokens := p, completion_tokens := c, cached_tokens := k,
              total_completion_tokens := total_completion_tokens m + c,
              m_peak_context_tokens := max (m_peak_context_tokens m) (p + c)\<rparr>))"

definition context_used :: "metrics \<Rightarrow> int" where
  "context_used m = prompt_tokens m + completion_tokens m"

section \<open>Compaction\<close>

definition TOOL_CHARS_PER_TOKEN :: int where "TOOL_CHARS_PER_TOKEN = 3"

text \<open>
  The summariser's stream: \<open>None\<close> when the proxy fails, else text and usage. The outcome is the
  summary, or nothing, and the metrics.
\<close>

type_synonym completion = "(string \<times> json) option"

definition summarise :: "completion \<Rightarrow> metrics \<Rightarrow> (string option \<times> metrics) result" where
  "summarise r m =
     (case r of
        None \<Rightarrow> Inr (None, m)
      | Some (text, usage) \<Rightarrow>
          if strip text = [] then Inr (None, m)
          else bindE (record_usage usage 0 0 m) (\<lambda>m'. Inr (Some (strip text), m')))"

definition condensed_content :: "nat \<Rightarrow> string \<Rightarrow> string \<Rightarrow> string" where
  "condensed_content n scope summary =
     ''[Condensed research '' @ str_nat n @ ''] '' @ scope @ '', summarised to save context'' @ [nlc] @ summary"

text \<open>The transcript with the oldest half of the research replaced by the condensed entry.\<close>

fun replace_victims :: "nat list \<Rightarrow> json \<Rightarrow> nat \<Rightarrow> json list \<Rightarrow> json list" where
  "replace_victims victims condensed i [] = []"
| "replace_victims victims condensed i (m # ms) =
     (if victims \<noteq> [] \<and> i = hd victims then condensed # replace_victims victims condensed (i + 1) ms
      else if i \<in> set victims then replace_victims victims condensed (i + 1) ms
      else m # replace_victims victims condensed (i + 1) ms)"

definition session_victims :: "session \<Rightarrow> nat list" where
  "session_victims s = (let is = research_indices s in take (max 1 (length is div 2)) is)"

text \<open>\<open>reply\<close> is the summariser's answer to the excerpts joined by blank lines.\<close>

definition compact_session ::
  "(string \<Rightarrow> completion) \<Rightarrow> metrics \<Rightarrow> session \<Rightarrow> (session \<times> bool) result" where
  "compact_session reply m s =
     (if length (research_indices s) < 2 then Inr (s, False)
      else bindE (mapE (\<lambda>i. bindE (as_obj (transcript s ! i)) (\<lambda>d. bindE (key_of d ''content'') str_item))
                   (session_victims s)) (\<lambda>texts.
           bindE (summarise (reply (join [nlc, nlc] texts)) m) (\<lambda>(summary, m').
             case summary of
               None \<Rightarrow> Inr (s, False)
             | Some text \<Rightarrow>
                 Inr (s\<lparr>compactions := compactions s + 1,
                        transcript := replace_victims (session_victims s)
                          (entry ''user'' (condensed_content (nat (compactions s + 1)) ''earlier searches'' text)
                             ''research'') 0 (transcript s)\<rparr>, True))))"

definition AGENT_CTX_SOFT_PCT :: real where "AGENT_CTX_SOFT_PCT = 70 / 100"
definition AGENT_CTX_COMPACT_PCT :: real where "AGENT_CTX_COMPACT_PCT = 75 / 100"
definition AGENT_CTX_HARD_PCT :: real where "AGENT_CTX_HARD_PCT = 85 / 100"

definition maybe_compact_session ::
  "int \<Rightarrow> (string \<Rightarrow> completion) \<Rightarrow> session \<Rightarrow> (session \<times> bool) result" where
  "maybe_compact_session limit reply s =
     (if pct_of limit s < AGENT_CTX_COMPACT_PCT then Inr (s, False) else compact_session reply metrics_init s)"

text \<open>
  In a run: the victims are the older half of the results, each with the message before it.
\<close>

definition is_result :: "message \<Rightarrow> bool" where
  "is_result m = (case m of Result a b c \<Rightarrow> True | _ \<Rightarrow> False)"

definition result_positions :: "conversation \<Rightarrow> nat list" where
  "result_positions tms = filter (\<lambda>i. is_result (snd (tms ! i))) [0..<length tms]"

definition pair_at :: "conversation \<Rightarrow> nat \<Rightarrow> conversation" where
  "pair_at tms i = slice_from (int i - 1) (slice_to (int i + 1) tms)"

definition run_victims :: "conversation \<Rightarrow> conversation" where
  "run_victims tms =
     (let ps = result_positions tms
      in concat (map (pair_at tms) (take (length ps div 2) ps)))"

definition message_chars :: "message \<Rightarrow> nat" where
  "message_chars m = (case m of
     Raw v \<Rightarrow> (case json_length (or_else (field_of v ''content'') (JStr [])) of Inr n \<Rightarrow> nat n | Inl e \<Rightarrow> 0)
   | Text r c \<Rightarrow> length c | Call tc why \<Rightarrow> length why
                      | Result n c i \<Rightarrow> length c | Condensed c \<Rightarrow> length c)"

text \<open>Without the victims, and with the new message where the first of them was.\<close>

definition excise :: "nat list \<Rightarrow> (nat \<times> message) option \<Rightarrow> conversation \<Rightarrow> conversation" where
  "excise ids new ms =
     (let first = length (takeWhile (\<lambda>m. fst m \<notin> set ids) ms);
          kept = filter (\<lambda>m. fst m \<notin> set ids) ms
      in case new of None \<Rightarrow> kept | Some x \<Rightarrow> take first kept @ [x] @ drop first kept)"

definition result_keys :: "(string \<Rightarrow> string) \<Rightarrow> conversation \<Rightarrow> string set" where
  "result_keys sha ms =
     set (concat (map (\<lambda>(i, m). case m of Result n c t \<Rightarrow> map (chunk_key sha) (split_chunks c) | _ \<Rightarrow> []) ms))"

text \<open>
  \<open>fresh\<close> and \<open>fresh + 1\<close> are the identities of the two new dicts. The result: both lists, the keys
  shown, the metrics and the tokens reclaimed.
\<close>

record compacted =
  k_messages :: conversation
  k_tool_messages :: conversation
  k_shown :: "string set"
  k_metrics :: metrics
  k_reclaimed :: int

definition not_compacted :: "conversation \<Rightarrow> conversation \<Rightarrow> string set \<Rightarrow> metrics \<Rightarrow> compacted" where
  "not_compacted ms tms shown m =
     \<lparr>k_messages = ms, k_tool_messages = tms, k_shown = shown, k_metrics = m, k_reclaimed = 0\<rparr>"

text \<open>The two lists rewritten; an empty \<open>text\<close> drops the victims outright.\<close>

definition rewritten ::
  "(string \<Rightarrow> string) \<Rightarrow> nat \<Rightarrow> conversation \<Rightarrow> conversation \<Rightarrow> string set \<Rightarrow> metrics \<Rightarrow> string \<Rightarrow> compacted" where
  "rewritten sha fresh ms tms shown m text =
     (let victims = run_victims tms;
          ids = map fst victims;
          removed = int (sum_list (map (\<lambda>(i, x). message_chars x) victims))
      in \<lparr>k_messages = excise ids (if text = [] then None else Some (fresh, Text ''user'' text)) ms,
          k_tool_messages = excise ids (if text = [] then None else Some (fresh + 1, Condensed text)) tms,
          k_shown = shown - result_keys sha victims,
          k_metrics = m,
          k_reclaimed = max 0 ((removed - int (length text)) div TOOL_CHARS_PER_TOKEN)\<rparr>)"

definition compact_tool_rounds ::
  "(string \<Rightarrow> string) \<Rightarrow> (json \<Rightarrow> string) \<Rightarrow> (string \<Rightarrow> json result) \<Rightarrow> (string \<Rightarrow> completion) \<Rightarrow>
     nat \<Rightarrow> nat \<Rightarrow> conversation \<Rightarrow> conversation \<Rightarrow> metrics \<Rightarrow> string set \<Rightarrow> compacted result" where
  "compact_tool_rounds sha rep loads reply fresh n ms tms m shown =
     (if length (result_positions tms) < 2 then Inr (not_compacted ms tms shown m)
      else bindE (render_research_blocks sha rep loads (run_victims tms) {} 0) (\<lambda>(blocks, dropped, seen).
             if blocks = [] then Inr (rewritten sha fresh ms tms shown m [])
             else bindE (summarise (reply (join [nlc, nlc] blocks)) m) (\<lambda>(summary, m').
                    case summary of
                      None \<Rightarrow> Inr (not_compacted ms tms shown m')
                    | Some text \<Rightarrow>
                        Inr (rewritten sha fresh ms tms shown m'
                               (condensed_content n ''earlier searches from this run'' text)))))"

section \<open>Deduplication\<close>

lemma keep_fresh_spec:
  assumes "keep_fresh sha cs seen = (fresh, seen')"
  shows "seen' = seen \<union> chunk_key sha ` set cs" "subseq fresh cs"
    "distinct (map (chunk_key sha) fresh)" "set (map (chunk_key sha) fresh) = chunk_key sha ` set cs - seen"
proof -
  have "seen' = seen \<union> chunk_key sha ` set cs \<and> subseq fresh cs \<and> distinct (map (chunk_key sha) fresh)
      \<and> set (map (chunk_key sha) fresh) = chunk_key sha ` set cs - seen"
    using assms
  proof (induction sha cs seen arbitrary: fresh seen' rule: keep_fresh.induct)
    case (2 sha c cs seen)
    show ?case
    proof (cases "chunk_key sha c \<in> seen")
      case True
      then show ?thesis using 2 by (auto simp: insert_Diff_if)
    next
      case False
      obtain f where f: "keep_fresh sha cs (insert (chunk_key sha c) seen) = (f, seen')" "fresh = c # f"
        using 2(3) False by (auto split: prod.splits)
      then show ?thesis using 2(2) [OF False f(1)] False by (auto simp del: list.set_map)
    qed
  qed simp
  then show "seen' = seen \<union> chunk_key sha ` set cs" "subseq fresh cs"
    "distinct (map (chunk_key sha) fresh)" "set (map (chunk_key sha) fresh) = chunk_key sha ` set cs - seen"
    by blast+
qed

text \<open>
  Dropping repeats loses nothing. Of a fresh tool result, every chunk whose key was not shown
  before stands in what the model gets, at least through a chunk of the same key; afterwards
  exactly the keys of the result count as shown in addition; and a result without repeats is
  passed on unchanged.
\<close>

theorem drop_seen_complete:
  assumes "drop_seen_chunks sha result seen = (out, seen')"
  shows "seen' = seen \<union> chunk_key sha ` set (split_chunks result)
    \<and> (chunk_key sha ` set (split_chunks result) \<inter> seen = {} \<and> distinct (map (chunk_key sha) (split_chunks result))
         \<longrightarrow> out = result)
    \<and> (\<forall>c\<in>set (split_chunks result). chunk_key sha c \<notin> seen \<longrightarrow>
         out = result \<or> (\<exists>c'\<in>set (split_chunks result). chunk_key sha c' = chunk_key sha c \<and> sublist c' out))"
proof -
  let ?cs = "split_chunks result"
  obtain fresh s where k: "keep_fresh sha ?cs seen = (fresh, s)" by force
  note spec = keep_fresh_spec [OF k]
  have s: "seen' = s" using assms by (auto simp: drop_seen_chunks_def k Let_def split: if_splits)
  have sub: "set fresh \<subseteq> set ?cs" using list_emb_set [OF spec(2)] by blast
  have same: "out = result" if "chunk_key sha ` set ?cs \<inter> seen = {}" "distinct (map (chunk_key sha) ?cs)"
  proof -
    have "card (chunk_key sha ` set ?cs) = length ?cs" using distinct_card [OF that(2)] by simp
    moreover have "card (set (map (chunk_key sha) fresh)) = length fresh" using distinct_card [OF spec(3)] by simp
    moreover have "chunk_key sha ` set ?cs - seen = chunk_key sha ` set ?cs" using that(1) by blast
    ultimately have "length fresh = length ?cs" using spec(4) by simp
    then show ?thesis using assms by (simp add: drop_seen_chunks_def k Let_def)
  qed
  have kept: "out = result \<or> (\<exists>c'\<in>set ?cs. chunk_key sha c' = chunk_key sha c \<and> sublist c' out)"
    if c: "c \<in> set ?cs" "chunk_key sha c \<notin> seen" for c
  proof (cases "out = result")
    case False
    obtain c' where c': "c' \<in> set fresh" "chunk_key sha c' = chunk_key sha c"
      using c spec(4) by (metis (no_types, lifting) DiffI imageE image_eqI list.set_map)
    then have "out = join RAG_CHUNK_SEPARATOR (fresh @ [omitted_note (length ?cs - length fresh) (length ?cs)])"
      using assms False by (auto simp: drop_seen_chunks_def k Let_def split: if_splits)
    then have "sublist c' out" using c'(1) by (simp add: sublist_join)
    then show ?thesis using c' sub by blast
  qed simp
  show ?thesis using same kept spec(1) s by blast
qed

theorem drop_seen_complete_witness:
  "fst (drop_seen_chunks id ''new fact'' {''old''}) = ''new fact''"
proof -
  have c: "split_chunks ''new fact'' = [''new fact'']" by code_simp
  obtain out seen' where r: "drop_seen_chunks id ''new fact'' {''old''} = (out, seen')" by force
  have "chunk_key id ''new fact'' = ''new fact''" by code_simp
  with drop_seen_complete [OF r] c show ?thesis by (simp add: r)
qed

text \<open>What the blocks are made of: every chunk of a result that is not a note.\<close>

definition research_chunks :: "conversation \<Rightarrow> string list" where
  "research_chunks ms =
     concat (map (\<lambda>(i, m). case m of Result n c t \<Rightarrow> filter (\<lambda>c. \<not> is_note c) (split_chunks (strip c)) | _ \<Rightarrow> []) ms)"

lemma research_chunks_simps [simp]:
  "research_chunks [] = []"
  "research_chunks ((i, Result n c t) # ms) = filter (\<lambda>c. \<not> is_note c) (split_chunks (strip c)) @ research_chunks ms"
  "research_chunks ((i, Raw v) # ms) = research_chunks ms"
  "research_chunks ((i, Text r c) # ms) = research_chunks ms"
  "research_chunks ((i, Call tc w) # ms) = research_chunks ms"
  "research_chunks ((i, Condensed c) # ms) = research_chunks ms"
  by (simp_all add: research_chunks_def)

lemma render_loop_grows:
  "\<exists>new. fst (render_loop sha labels start ms acc) = fst acc @ new"
  by (induction sha labels start ms acc rule: render_loop.induct)
    (fastforce simp: Let_def split: prod.splits if_splits)+

lemma sublist_block: "c \<in> set fresh \<Longrightarrow> sublist c (block_text n label fresh)"
proof -
  assume "c \<in> set fresh"
  then have "sublist c (join RAG_CHUNK_SEPARATOR fresh)" by (rule sublist_join)
  moreover have "block_text n label fresh
      = (''[Search '' @ str_nat n @ ''] '' @ label @ [nlc]) @ join RAG_CHUNK_SEPARATOR fresh"
    by (simp add: block_text_def)
  ultimately show ?thesis by (metis sublist_append)
qed

lemma render_loop_complete:
  assumes "render_loop sha labels start ms (blocks, dropped, seen) = (blocks', dropped', seen')"
  shows "seen' = seen \<union> chunk_key sha ` set (research_chunks ms)
    \<and> (\<forall>c\<in>set (research_chunks ms). chunk_key sha c \<notin> seen \<longrightarrow>
         (\<exists>c'\<in>set (research_chunks ms). chunk_key sha c' = chunk_key sha c \<and> (\<exists>b\<in>set blocks'. sublist c' b)))
    \<and> (\<forall>i c. (i, Condensed c) \<in> set ms \<longrightarrow> c \<in> set blocks')"
  using assms
proof (induction ms arbitrary: blocks dropped seen)
  case (Cons im ms)
  obtain i m where im: "im = (i, m)" by force
  show ?case
  proof (cases m)
    case (Condensed c)
  have "\<exists>new. blocks' = (blocks @ [c]) @ new"
    using render_loop_grows [of sha labels start ms "(blocks @ [c], dropped, seen)"] Cons.prems im Condensed by simp
  then have "c \<in> set blocks'" by auto
  then show ?thesis using Cons.IH [of "blocks @ [c]" dropped seen] Cons.prems im Condensed by auto
  next
    case (Result name content tid)
  let ?cs = "filter (\<lambda>c. \<not> is_note c) (split_chunks (strip content))"
  obtain fresh s where k: "keep_fresh sha ?cs seen = (fresh, s)" by force
  note spec = keep_fresh_spec [OF k]
  define label where "label = (let l = dget labels tid [] in if l = [] then ''(unlabelled search)'' else l)"
  define bs where "bs = (if fresh = [] then blocks
      else blocks @ [block_text (start + length blocks + 1) label fresh])"
  have r: "render_loop sha labels start ms (bs, dropped + (length ?cs - length fresh), s) = (blocks', dropped', seen')"
    using Cons.prems im Result by (cases "fresh = []") (simp_all add: k bs_def label_def)
  have IH: "seen' = s \<union> chunk_key sha ` set (research_chunks ms)"
    "\<forall>c\<in>set (research_chunks ms). chunk_key sha c \<notin> s \<longrightarrow>
         (\<exists>c'\<in>set (research_chunks ms). chunk_key sha c' = chunk_key sha c \<and> (\<exists>b\<in>set blocks'. sublist c' b))"
    "\<forall>i c. (i, Condensed c) \<in> set ms \<longrightarrow> c \<in> set blocks'"
    using Cons.IH [OF r] by blast+
  have here: "\<exists>c'\<in>set ?cs. chunk_key sha c' = chunk_key sha c \<and> (\<exists>b\<in>set blocks'. sublist c' b)"
    if c: "chunk_key sha c \<in> chunk_key sha ` set ?cs" "chunk_key sha c \<notin> seen" for c
  proof -
    obtain c' where c': "c' \<in> set fresh" "chunk_key sha c' = chunk_key sha c"
      using c spec(4) by (metis (no_types, lifting) DiffI imageE list.set_map)
    then have bs: "bs = blocks @ [block_text (start + length blocks + 1) label fresh]" by (auto simp: bs_def)
    have "sublist c' (block_text (start + length blocks + 1) label fresh)"
      using c'(1) by (rule sublist_block)
    moreover have "\<exists>new. blocks' = bs @ new"
      using render_loop_grows [of sha labels start ms "(bs, dropped + (length ?cs - length fresh), s)"] r by simp
    ultimately have "\<exists>b\<in>set blocks'. sublist c' b" using bs by auto
    then show ?thesis using c' list_emb_set [OF spec(2)] by blast
  qed
  have "\<exists>c'\<in>set (research_chunks (im # ms)). chunk_key sha c' = chunk_key sha c
      \<and> (\<exists>b\<in>set blocks'. sublist c' b)"
    if "c \<in> set (research_chunks (im # ms))" "chunk_key sha c \<notin> seen" for c
  proof (cases "chunk_key sha c \<in> chunk_key sha ` set ?cs")
    case True
    have "set ?cs \<subseteq> set (research_chunks (im # ms))" by (simp add: im Result)
    then show ?thesis using here [OF True that(2)] by blast
  next
    case False
    then have "c \<in> set (research_chunks ms)" "chunk_key sha c \<notin> s" using that spec(1) by (auto simp: im Result)
    moreover have "set (research_chunks ms) \<subseteq> set (research_chunks (im # ms))" by (simp add: im Result)
    ultimately show ?thesis using IH(2) by blast
  qed
  moreover have "seen' = seen \<union> chunk_key sha ` set (research_chunks (im # ms))"
    using IH(1) spec(1) by (simp add: im Result image_Un Un_assoc)
  ultimately show ?thesis using IH(3) by (auto simp: im Result)
  next
    case (Raw v)
    then show ?thesis using Cons.IH [of blocks dropped seen] Cons.prems im by auto
  next
    case (Text r c)
    then show ?thesis using Cons.IH [of blocks dropped seen] Cons.prems im by auto
  next
    case (Call tc w)
    then show ?thesis using Cons.IH [of blocks dropped seen] Cons.prems im by auto
  qed
qed auto

lemma render_blocks_complete:
  assumes "render_research_blocks sha rep loads ms seen start = Inr (blocks, dropped, seen')"
  shows "seen' = seen \<union> chunk_key sha ` set (research_chunks ms)
    \<and> (\<forall>c\<in>set (research_chunks ms). chunk_key sha c \<notin> seen \<longrightarrow>
         (\<exists>c'\<in>set (research_chunks ms). chunk_key sha c' = chunk_key sha c \<and> (\<exists>b\<in>set blocks. sublist c' b)))
    \<and> (\<forall>i c. (i, Condensed c) \<in> set ms \<longrightarrow> c \<in> set blocks)"
proof -
  obtain labels where "render_loop sha labels start ms ([], 0, seen) = (blocks, dropped, seen')"
    using assms by (auto simp: render_research_blocks_def bindE_eq_Inr)
  from render_loop_complete [OF this] show ?thesis .
qed

text \<open>
  The synthesis sees everything once. The rendered blocks hold, for every chunk of every tool
  result that is neither one of the loop's own notes nor known already, a chunk of the same key,
  and every summary compaction left behind; all those keys count as seen afterwards.
\<close>

theorem render_complete:
  assumes "render_research_blocks sha rep loads ms seen start = Inr (blocks, dropped, seen')"
  shows "seen' = seen \<union> chunk_key sha ` set (research_chunks ms)
    \<and> (\<forall>c\<in>set (research_chunks ms). chunk_key sha c \<notin> seen \<longrightarrow>
         (\<exists>c'\<in>set (research_chunks ms). chunk_key sha c' = chunk_key sha c \<and> (\<exists>b\<in>set blocks. sublist c' b)))
    \<and> (\<forall>i c. (i, Condensed c) \<in> set ms \<longrightarrow> c \<in> set blocks)"
  using assms by (rule render_blocks_complete)

theorem render_complete_witness:
  "\<exists>blocks d s. render_research_blocks id (\<lambda>_. ''?'') (\<lambda>_. Inl ValueError) [(0, Condensed ''sum''), (1, Result JNull ''fact'' ''x'')] {} 0
     = Inr (blocks, d, s) \<and> ''sum'' \<in> set blocks"
proof -
  obtain blocks d s where r: "render_research_blocks id (\<lambda>_. ''?'') (\<lambda>_. Inl ValueError)
      [(0, Condensed ''sum''), (1, Result JNull ''fact'' ''x'')] {} 0 = Inr (blocks, d, s)"
    by (cases "render_loop id [] 0 [(0, Condensed ''sum''), (1, Result JNull ''fact'' ''x'')] ([], 0, {})")
      (simp add: render_research_blocks_def del: render_loop.simps)
  from render_complete [OF r] r show ?thesis by fastforce
qed

section \<open>Calls and their answers\<close>

text \<open>Every tool call is followed by its result, and nothing else is a result.\<close>

fun paired :: "conversation \<Rightarrow> bool" where
  "paired [] = True"
| "paired ((i, Raw v) # ms) = paired ms"
| "paired ((i, Text r c) # ms) = paired ms"
| "paired ((i, Condensed c) # ms) = paired ms"
| "paired ((i, Call tc w) # (j, Result n c t) # ms) = paired ms"
| "paired (m # ms) = False"

fun pair_ids :: "conversation \<Rightarrow> (nat \<times> nat) list" where
  "pair_ids [] = []"
| "pair_ids ((i, Raw v) # ms) = pair_ids ms"
| "pair_ids ((i, Text r c) # ms) = pair_ids ms"
| "pair_ids ((i, Condensed c) # ms) = pair_ids ms"
| "pair_ids ((i, Call tc w) # (j, Result n c t) # ms) = (i, j) # pair_ids ms"
| "pair_ids (m # ms) = pair_ids ms"

lemma paired_append: "paired xs \<Longrightarrow> paired (xs @ ys) = paired ys"
  by (induction xs rule: paired.induct) auto

lemma pair_ids_append: "paired xs \<Longrightarrow> pair_ids (xs @ ys) = pair_ids xs @ pair_ids ys"
  by (induction xs rule: paired.induct) auto

lemma result_positions_simps:
  "result_positions [] = []"
  "result_positions (m # ms) = (if is_result (snd m) then [0] else []) @ map Suc (result_positions ms)"
proof -
  show "result_positions [] = []" by (simp add: result_positions_def)
  have "[0..<length (m # ms)] = 0 # map Suc [0..<length ms]"
    by (metis length_Cons map_Suc_upt upt_conv_Cons zero_less_Suc)
  then show "result_positions (m # ms) = (if is_result (snd m) then [0] else []) @ map Suc (result_positions ms)"
    by (simp add: result_positions_def filter_map o_def)
qed

text \<open>The dict before a result and the result, in a paired conversation.\<close>

lemma position_pos: "paired ms \<Longrightarrow> p \<in> set (result_positions ms) \<Longrightarrow> 0 < p"
  by (cases ms rule: paired.cases) (auto simp: result_positions_simps is_result_def)

lemma pair_shift: "0 < p \<Longrightarrow> pair_at (m # ms) (Suc p) = pair_at ms p"
  by (simp add: pair_at_def slice_from_def slice_to_def nat_add_distrib) (simp add: drop_Cons' nat_diff_distrib)

lemma pair_shift_map:
  "\<forall>p\<in>set ps. 0 < p \<Longrightarrow> map (\<lambda>p. map fst (pair_at (m # ms) (Suc p))) ps = map (\<lambda>p. map fst (pair_at ms p)) ps"
  by (simp add: pair_shift)

lemma victims_pairs:
  "paired ms \<Longrightarrow> map (\<lambda>p. map fst (pair_at ms p)) (result_positions ms) = map (\<lambda>(i, j). [i, j]) (pair_ids ms)"
proof (induction ms rule: paired.induct)
  case (2 i v ms)
  then have pos: "\<forall>p\<in>set (result_positions ms). 0 < p" using position_pos by auto
  show ?case using 2 by (simp add: result_positions_simps is_result_def o_def pair_shift_map [OF pos])
next
  case (3 i r c ms)
  then have pos: "\<forall>p\<in>set (result_positions ms). 0 < p" using position_pos by auto
  show ?case using 3 by (simp add: result_positions_simps is_result_def o_def pair_shift_map [OF pos])
next
  case (4 i c ms)
  then have pos: "\<forall>p\<in>set (result_positions ms). 0 < p" using position_pos by auto
  show ?case using 4 by (simp add: result_positions_simps is_result_def o_def pair_shift_map [OF pos])
next
  case (5 i tc w j n c t ms)
  have ps: "result_positions ((i, Call tc w) # (j, Result n c t) # ms) = 1 # map (\<lambda>p. Suc (Suc p)) (result_positions ms)"
    by (simp add: result_positions_simps is_result_def o_def)
  have "p \<in> set (result_positions ms) \<Longrightarrow> pair_at ((i, Call tc w) # (j, Result n c t) # ms) (Suc (Suc p)) = pair_at ms p" for p
    using position_pos [of ms p] 5 by (simp add: pair_shift)
  then have rest: "map (\<lambda>p. map fst (pair_at ((i, Call tc w) # (j, Result n c t) # ms) (Suc (Suc p)))) (result_positions ms)
      = map (\<lambda>p. map fst (pair_at ms p)) (result_positions ms)" by simp
  have "map fst (pair_at ((i, Call tc w) # (j, Result n c t) # ms) 1) = [i, j]"
    by (simp add: pair_at_def slice_from_def slice_to_def)
  then show ?case using 5 rest by (simp add: ps o_def)
qed (auto simp: result_positions_simps is_result_def)

lemma run_victims_ids:
  assumes "paired tms"
  shows "map fst (run_victims tms)
    = concat (map (\<lambda>(i, j). [i, j]) (take (length (result_positions tms) div 2) (pair_ids tms)))"
proof -
  let ?n = "length (result_positions tms) div 2"
  have "map fst (run_victims tms) = concat (map (\<lambda>p. map fst (pair_at tms p)) (take ?n (result_positions tms)))"
    by (simp add: run_victims_def Let_def map_concat o_def)
  also have "\<dots> = concat (take ?n (map (\<lambda>(i, j). [i, j]) (pair_ids tms)))"
    by (simp add: take_map flip: victims_pairs [OF assms])
  finally show ?thesis by (simp add: take_map)
qed

lemma length_pair_ids: "paired ms \<Longrightarrow> length (pair_ids ms) = length (result_positions ms)"
  using arg_cong [OF victims_pairs, of ms length] by simp

text \<open>Taking out whole pairs, and putting a plain message where the first was.\<close>

definition splits_no_pair :: "nat list \<Rightarrow> conversation \<Rightarrow> bool" where
  "splits_no_pair ids ms \<longleftrightarrow> (\<forall>i j. (i, j) \<in> set (pair_ids ms) \<longrightarrow> (i \<in> set ids \<longleftrightarrow> j \<in> set ids))"

definition plain :: "message \<Rightarrow> bool" where
  "plain m = (case m of Raw v \<Rightarrow> True | Text r c \<Rightarrow> True | Condensed c \<Rightarrow> True | _ \<Rightarrow> False)"

lemma filter_paired:
  assumes "paired ms" "splits_no_pair ids ms"
  shows "paired (filter (\<lambda>m. fst m \<notin> set ids) ms)
    \<and> pair_ids (filter (\<lambda>m. fst m \<notin> set ids) ms) = filter (\<lambda>(i, j). i \<notin> set ids) (pair_ids ms)"
  using assms
  by (induction ms rule: paired.induct) (auto simp: splits_no_pair_def)

lemma excise_simps:
  "excise ids None ms = filter (\<lambda>m. fst m \<notin> set ids) ms"
  "excise ids (Some x) [] = [x]"
  "fst m \<notin> set ids \<Longrightarrow> excise ids (Some x) (m # ms) = m # excise ids (Some x) ms"
  "fst m \<in> set ids \<Longrightarrow> excise ids (Some x) (m # ms) = x # filter (\<lambda>m. fst m \<notin> set ids) ms"
  by (simp_all add: excise_def Let_def)

lemma excise_some_paired:
  assumes "paired ms" "splits_no_pair ids ms" "plain m"
  shows "paired (excise ids (Some (k, m)) ms)
    \<and> pair_ids (excise ids (Some (k, m)) ms) = filter (\<lambda>(i, j). i \<notin> set ids) (pair_ids ms)"
  using assms
proof (induction ms rule: paired.induct)
  case (2 i v ms)
  then show ?case using filter_paired [of ms ids]
    by (cases "i \<in> set ids"; cases m) (auto simp: excise_simps splits_no_pair_def plain_def)
next
  case (3 i r c ms)
  then show ?case using filter_paired [of ms ids]
    by (cases "i \<in> set ids"; cases m) (auto simp: excise_simps splits_no_pair_def plain_def)
next
  case (4 i c ms)
  then show ?case using filter_paired [of ms ids]
    by (cases "i \<in> set ids"; cases m) (auto simp: excise_simps splits_no_pair_def plain_def)
next
  case (5 i tc w j n c t ms)
  then show ?case using filter_paired [of ms ids]
    by (cases "i \<in> set ids"; cases m) (auto simp: excise_simps splits_no_pair_def plain_def)
qed (cases m; simp add: excise_simps plain_def)+

lemma excise_paired:
  assumes "paired ms" "splits_no_pair ids ms" "\<forall>k m. new = Some (k, m) \<longrightarrow> plain m"
  shows "paired (excise ids new ms) \<and> pair_ids (excise ids new ms) = filter (\<lambda>(i, j). i \<notin> set ids) (pair_ids ms)"
  using assms excise_some_paired filter_paired by (cases new) (auto simp: excise_simps)

lemma excise_fst:
  "fst ` set (excise ids new ms) \<subseteq> fst ` set ms \<union> (case new of None \<Rightarrow> {} | Some x \<Rightarrow> {fst x})"
proof -
  have "set (excise ids new ms) \<subseteq> set ms \<union> (case new of None \<Rightarrow> {} | Some x \<Rightarrow> {x})"
    by (auto simp: excise_def Let_def dest: in_set_takeD in_set_dropD split: option.splits)
  from image_mono [OF this, of fst] show ?thesis by (cases new) (auto simp: image_Un)
qed

text \<open>
  What holds between the conversation and the list of tool messages of a run: both are paired,
  the pairs of the second are pairs of the first, and no dict occurs twice.
\<close>

definition run_ok :: "nat \<Rightarrow> conversation \<Rightarrow> conversation \<Rightarrow> bool" where
  "run_ok fresh ms tms \<longleftrightarrow> paired ms \<and> paired tms \<and> set (pair_ids tms) \<subseteq> set (pair_ids ms)
     \<and> distinct (map fst (pair_ids ms)) \<and> distinct (map snd (pair_ids ms))
     \<and> fst ` set (pair_ids ms) \<inter> snd ` set (pair_ids ms) = {}
     \<and> distinct (map fst (pair_ids tms))
     \<and> list_all (\<lambda>(i, j). i < fresh \<and> j < fresh) (pair_ids ms)"

lemma run_ok_fresh: "run_ok fresh ms tms \<Longrightarrow> fresh \<le> fresh' \<Longrightarrow> run_ok fresh' ms tms"
  unfolding run_ok_def list_all_iff by fastforce

lemma run_ok_cross:
  "run_ok fresh ms tms \<Longrightarrow> (i, j) \<in> set (pair_ids ms) \<Longrightarrow> (k, l) \<in> set (pair_ids ms) \<Longrightarrow> i \<noteq> l"
  unfolding run_ok_def by force

lemma run_ok_splits:
  assumes ok: "run_ok fresh ms tms"
    and ids: "ids = concat (map (\<lambda>(i, j). [i, j]) ps)" "set ps \<subseteq> set (pair_ids tms)"
  shows "splits_no_pair ids ms" "splits_no_pair ids tms"
proof -
  have mem: "x \<in> set ids \<longleftrightarrow> (\<exists>i j. (i, j) \<in> set ps \<and> (x = i \<or> x = j))" for x
    unfolding ids(1) by fastforce
  have sub: "set ps \<subseteq> set (pair_ids ms)" using ids(2) ok by (auto simp: run_ok_def)
  have fst: "(i, j) \<in> set (pair_ids ms) \<Longrightarrow> (i, l) \<in> set (pair_ids ms) \<Longrightarrow> j = l" for i j l
    using ok by (auto simp: run_ok_def dest: eq_key_imp_eq_value)
  have snd: "(i, j) \<in> set (pair_ids ms) \<Longrightarrow> (k, j) \<in> set (pair_ids ms) \<Longrightarrow> i = k" for i j k
    using ok unfolding run_ok_def distinct_map inj_on_def by (metis prod.inject snd_conv)
  have cross: "(i, j) \<in> set (pair_ids ms) \<Longrightarrow> (k, l) \<in> set (pair_ids ms) \<Longrightarrow> i \<noteq> l" for i j k l
    by (rule run_ok_cross [OF ok])
  have "splits_no_pair ids ms" unfolding splits_no_pair_def mem
    using sub fst snd cross by (metis subset_iff)
  then show "splits_no_pair ids ms" "splits_no_pair ids tms"
    using ok by (auto simp: run_ok_def splits_no_pair_def)
qed

lemma run_ok_excise:
  assumes ok: "run_ok fresh ms tms" and sp: "splits_no_pair ids ms" "splits_no_pair ids tms"
    and new: "\<forall>k m. a = Some (k, m) \<longrightarrow> plain m" "\<forall>k m. b = Some (k, m) \<longrightarrow> plain m"
  shows "run_ok fresh (excise ids a ms) (excise ids b tms)"
proof -
  have p: "paired ms" "paired tms" using ok by (simp_all add: run_ok_def)
  note m = excise_paired [OF p(1) sp(1) new(1)] and t = excise_paired [OF p(2) sp(2) new(2)]
  have d: "distinct (map f xs) \<Longrightarrow> distinct (map f (filter P xs))" for f :: "nat \<times> nat \<Rightarrow> nat" and P xs
    by (rule distinct_map_filter)
  show ?thesis
    unfolding run_ok_def conjunct2 [OF m] conjunct2 [OF t]
  proof (intro conjI)
    show "fst ` set (filter (\<lambda>(i, j). i \<notin> set ids) (pair_ids ms))
        \<inter> snd ` set (filter (\<lambda>(i, j). i \<notin> set ids) (pair_ids ms)) = {}"
      using run_ok_cross [OF ok] by fastforce
  qed (use ok m t d in \<open>auto simp: run_ok_def list_all_iff\<close>)
qed

text \<open>Which pairs the identities of the victims take out, and how many are left.\<close>

lemma victim_pairs:
  assumes ok: "run_ok fresh ms tms" and ij: "(i, j) \<in> set (pair_ids ms)"
    and ids: "ids = concat (map (\<lambda>(i, j). [i, j]) ps)" "set ps \<subseteq> set (pair_ids tms)"
  shows "i \<in> set ids \<longleftrightarrow> (i, j) \<in> set ps"
proof -
  have sub: "set ps \<subseteq> set (pair_ids ms)" using ids(2) ok by (auto simp: run_ok_def)
  have same: "(i, l) \<in> set (pair_ids ms) \<Longrightarrow> l = j" for l
    using ij ok by (auto simp: run_ok_def dest: eq_key_imp_eq_value)
  have "i \<in> set ids \<longleftrightarrow> (\<exists>k l. (k, l) \<in> set ps \<and> (i = k \<or> i = l))"
    unfolding ids(1) by fastforce
  then show ?thesis using run_ok_cross [OF ok ij] same sub by (metis subset_iff)
qed

lemma filter_drop: "distinct xs \<Longrightarrow> filter (\<lambda>x. x \<notin> set (take n xs)) xs = drop n xs"
proof -
  assume "distinct xs"
  then have "filter (\<lambda>x. x \<notin> set us) (us @ vs) = vs" if "us @ vs = xs" for us vs
    using that by (auto simp: filter_id_conv)
  from this [of "take n xs" "drop n xs"] show ?thesis by simp
qed

lemma filter_count: "distinct xs \<Longrightarrow> X \<subseteq> set xs \<Longrightarrow> length (filter (\<lambda>x. x \<notin> X) xs) + card X = length xs"
proof -
  assume a: "distinct xs" "X \<subseteq> set xs"
  have "length (filter (\<lambda>x. x \<notin> X) xs) = card (set xs - X)"
    using distinct_card [OF distinct_filter [OF a(1)], of "\<lambda>x. x \<notin> X"] by (simp add: set_diff_eq)
  also have "\<dots> + card X = card (set xs)"
    using a(2) by (simp add: card_Diff_subset card_mono finite_subset)
  finally show ?thesis using distinct_card [OF a(1)] by simp
qed

lemma victims_left:
  assumes ok: "run_ok fresh ms tms" and ids: "ids = concat (map (\<lambda>(i, j). [i, j]) (take n (pair_ids tms)))"
    and n: "n \<le> length (pair_ids tms)"
  shows "filter (\<lambda>(i, j). i \<notin> set ids) (pair_ids tms) = drop n (pair_ids tms)"
    "length (filter (\<lambda>(i, j). i \<notin> set ids) (pair_ids ms)) + n = length (pair_ids ms)"
proof -
  have p: "set (pair_ids tms) \<subseteq> set (pair_ids ms)" "distinct (pair_ids tms)" "distinct (pair_ids ms)"
    using ok by (auto simp: run_ok_def distinct_map)
  note v = victim_pairs [OF ok _ ids set_take_subset]
  have "filter (\<lambda>(i, j). i \<notin> set ids) (pair_ids tms) = filter (\<lambda>x. x \<notin> set (take n (pair_ids tms))) (pair_ids tms)"
    using v p(1) by (intro filter_cong) auto
  then show "filter (\<lambda>(i, j). i \<notin> set ids) (pair_ids tms) = drop n (pair_ids tms)"
    using filter_drop [OF p(2)] by simp
  have "filter (\<lambda>(i, j). i \<notin> set ids) (pair_ids ms) = filter (\<lambda>x. x \<notin> set (take n (pair_ids tms))) (pair_ids ms)"
    using v by (intro filter_cong) auto
  moreover have "set (take n (pair_ids tms)) \<subseteq> set (pair_ids ms)" using p(1) set_take_subset by fast
  moreover have "card (set (take n (pair_ids tms))) = n"
    using distinct_card [OF distinct_take [OF p(2)], of n] n by simp
  ultimately show "length (filter (\<lambda>(i, j). i \<notin> set ids) (pair_ids ms)) + n = length (pair_ids ms)"
    using filter_count [OF p(3)] by metis
qed

lemma compact_cases:
  assumes "compact_tool_rounds sha rep loads reply fresh n ms tms m seen = Inr k"
  obtains (same) m' where "k = not_compacted ms tms seen m'"
    | (cut) m' t where "k = rewritten sha fresh ms tms seen m' t"
  using assms
  by (auto simp: compact_tool_rounds_def bindE_eq_Inr split: if_splits option.splits)

lemma compacted_run_ok:
  assumes ok: "run_ok fresh ms tms" and k: "compact_tool_rounds sha rep loads reply fresh n ms tms m seen = Inr k"
  shows "run_ok fresh (k_messages k) (k_tool_messages k)"
  using k
proof (cases rule: compact_cases)
  case (cut m' t)
  have "paired tms" using ok by (simp add: run_ok_def)
  note sp = run_ok_splits [OF ok run_victims_ids [OF this] set_take_subset]
  show ?thesis by (simp add: cut rewritten_def Let_def run_ok_excise [OF ok sp] plain_def)
qed (use ok in \<open>simp add: not_compacted_def\<close>)

text \<open>
  C14: Compaction keeps calls and answers together. Condensing the older half of a run's results
  takes each call out together with its result, from the conversation and from the record of the
  run alike; what is left is paired again, the older half of the results is gone or nothing
  changed, the estimate of what was reclaimed is not negative, and chunks that were condensed no
  longer count as shown.
\<close>

theorem compaction_pairs:
  assumes "run_ok fresh ms tms" and "compact_tool_rounds sha rep loads reply fresh n ms tms m seen = Inr k"
  shows "run_ok fresh (k_messages k) (k_tool_messages k) \<and> k_reclaimed k \<ge> 0
    \<and> (k_messages k = ms \<and> k_tool_messages k = tms \<and> k_shown k = seen
       \<or> (let p = length (pair_ids tms) in
          pair_ids (k_tool_messages k) = drop (p div 2) (pair_ids tms)
          \<and> length (pair_ids (k_messages k)) + p div 2 = length (pair_ids ms))
         \<and> k_shown k = seen - result_keys sha (run_victims tms))"
  using assms(2)
proof (cases rule: compact_cases)
  case same
  then show ?thesis using assms(1) by (simp add: not_compacted_def)
next
  case (cut m' t)
  let ?n = "length (result_positions tms) div 2"
  let ?a = "if t = [] then None else Some (fresh, Text ''user'' t)"
  let ?b = "if t = [] then None else Some (fresh + 1, Condensed t)"
  have k: "k_messages k = excise (map fst (run_victims tms)) ?a ms"
    "k_tool_messages k = excise (map fst (run_victims tms)) ?b tms"
    "k_shown k = seen - result_keys sha (run_victims tms)" "k_reclaimed k \<ge> 0"
    by (simp_all add: cut rewritten_def Let_def)
  have new: "\<forall>i m. ?a = Some (i, m) \<longrightarrow> plain m" "\<forall>i m. ?b = Some (i, m) \<longrightarrow> plain m"
    by (simp_all add: plain_def)
  have p: "paired ms" "paired tms" using assms(1) by (simp_all add: run_ok_def)
  note ids = run_victims_ids [OF p(2)]
  note sp = run_ok_splits [OF assms(1) ids set_take_subset]
  have len: "length (pair_ids tms) = length (result_positions tms)" by (rule length_pair_ids [OF p(2)])
  then have n: "?n \<le> length (pair_ids tms)" by simp
  note left = victims_left [OF assms(1) ids n]
  have "run_ok fresh (k_messages k) (k_tool_messages k)" by (rule compacted_run_ok [OF assms])
  moreover have "pair_ids (k_tool_messages k) = drop ?n (pair_ids tms)"
    unfolding k(2) using excise_paired [OF p(2) sp(2) new(2)] left(1) by simp
  moreover have "length (pair_ids (k_messages k)) + ?n = length (pair_ids ms)"
    unfolding k(1) using excise_paired [OF p(1) sp(1) new(1)] left(2) by simp
  ultimately show ?thesis using k(3,4) len by (simp add: Let_def)
qed

definition example_run :: conversation where
  "example_run = [(0, Call (JObj []) ''why''), (1, Result JNull ''a'' ''x''),
                  (2, Call (JObj []) []), (3, Result JNull ''b'' ''y'')]"

theorem compaction_pairs_witness:
  "\<exists>k. compact_tool_rounds id (\<lambda>_. ''?'') (\<lambda>_. Inl ValueError) (\<lambda>_. Some (''s'', JNull)) 9 1
         ((8, Text ''user'' ''q'') # example_run) example_run metrics_init {''a'', ''b''} = Inr k
     \<and> pair_ids (k_tool_messages k) = [(2, 3)] \<and> pair_ids (k_messages k) = [(2, 3)] \<and> k_shown k = {''b''}"
proof -
  let ?c = "compact_tool_rounds id (\<lambda>_. ''?'') (\<lambda>_. Inl ValueError) (\<lambda>_. Some (''s'', JNull)) 9 1
         ((8, Text ''user'' ''q'') # example_run) example_run metrics_init {''a'', ''b''}"
  have ok: "run_ok 9 ((8, Text ''user'' ''q'') # example_run) example_run" by code_simp
  have "\<not> isl ?c \<and> pair_ids (k_tool_messages (projr ?c)) = [(2, 3)]
      \<and> pair_ids (k_messages (projr ?c)) = [(2, 3)]"
    by code_simp
  then obtain k where k: "?c = Inr k" "pair_ids (k_tool_messages k) = [(2, 3)]" "pair_ids (k_messages k) = [(2, 3)]"
    by (cases ?c) auto
  have keys: "result_keys id (run_victims example_run) = {''a''}" by code_simp
  have "pair_ids example_run = [(0, 1), (2, 3)]" by (simp add: example_run_def)
  then have "k_tool_messages k \<noteq> example_run" using k(2) by auto
  then have "k_shown k = {''a'', ''b''} - {''a''}"
    using compaction_pairs [OF ok k(1)] keys by metis
  then show ?thesis using k by auto
qed

section \<open>Compacting a thread\<close>

lemma entry_kind: "field_of (entry r c k) ''kind'' = JStr k"
  by (simp add: entry_def field_of_def dget_def)

lemma replace_victims_dialogue:
  assumes "field_of c ''kind'' = JStr ''research''"
    and "\<forall>v\<in>set vs. i \<le> v \<longrightarrow> v < i + length ms \<longrightarrow> field_of (ms ! (v - i)) ''kind'' = JStr ''research''"
  shows "filter (\<lambda>m. field_of m ''kind'' \<noteq> JStr ''research'') (replace_victims vs c i ms)
    = filter (\<lambda>m. field_of m ''kind'' \<noteq> JStr ''research'') ms"
  using assms(2)
proof (induction ms arbitrary: i)
  case (Cons m ms)
  have rest: "\<forall>v\<in>set vs. i + 1 \<le> v \<longrightarrow> v < i + 1 + length ms \<longrightarrow> field_of (ms ! (v - (i + 1))) ''kind'' = JStr ''research''"
  proof (intro ballI impI)
    fix v assume v: "v \<in> set vs" "i + 1 \<le> v" "v < i + 1 + length ms"
    then have "v - i = Suc (v - (i + 1))" by simp
    then have "(m # ms) ! (v - i) = ms ! (v - (i + 1))" by (metis nth_Cons_Suc)
    moreover have "field_of ((m # ms) ! (v - i)) ''kind'' = JStr ''research''"
      by (rule Cons.prems [rule_format]) (use v in simp_all)
    ultimately show "field_of (ms ! (v - (i + 1))) ''kind'' = JStr ''research''" by simp
  qed
  have "i \<in> set vs \<Longrightarrow> field_of m ''kind'' = JStr ''research''"
    using Cons.prems [rule_format, of i] by simp
  then show ?case using Cons.IH [OF rest] assms(1) by (cases vs) auto
qed simp

lemma research_index_kind:
  "v \<in> set (research_indices s) \<Longrightarrow> v < length (transcript s) \<and> field_of (transcript s ! v) ''kind'' = JStr ''research''"
  by (auto simp: research_indices_def in_set_enumerate_eq)

text \<open>
  Compacting a thread keeps the dialogue. Whatever the summariser does, the questions and
  answers of the transcript stay as they are and in order; a summary that came back empty, or a
  failed call, changes nothing at all.
\<close>

theorem compaction_keeps_dialogue:
  assumes "maybe_compact_session limit reply s = Inr (s', changed)"
  shows "filter (\<lambda>m. field_of m ''kind'' \<noteq> JStr ''research'') (transcript s')
       = filter (\<lambda>m. field_of m ''kind'' \<noteq> JStr ''research'') (transcript s)
    \<and> (\<not> changed \<longrightarrow> s' = s)
    \<and> (changed \<longrightarrow> pct_of limit s \<ge> AGENT_CTX_COMPACT_PCT \<and> compactions s' = compactions s + 1)"
proof (cases changed)
  case True
  obtain t where t: "transcript s' = replace_victims (session_victims s)
        (entry ''user'' (condensed_content (nat (compactions s + 1)) ''earlier searches'' t) ''research'') 0 (transcript s)"
    "compactions s' = compactions s + 1" "\<not> pct_of limit s < AGENT_CTX_COMPACT_PCT"
    using assms True
    by (auto simp: maybe_compact_session_def compact_session_def bindE_eq_Inr split: if_splits option.splits)
  then obtain c where c: "field_of c ''kind'' = JStr ''research''" "transcript s' = replace_victims (session_victims s) c 0 (transcript s)"
    "compactions s' = compactions s + 1" "\<not> pct_of limit s < AGENT_CTX_COMPACT_PCT"
    using entry_kind by blast
  have "set (session_victims s) \<subseteq> set (research_indices s)"
    by (auto simp: session_victims_def Let_def dest: in_set_takeD)
  then have "\<forall>v\<in>set (session_victims s). 0 \<le> v \<longrightarrow> v < 0 + length (transcript s) \<longrightarrow>
      field_of (transcript s ! (v - 0)) ''kind'' = JStr ''research''"
    using research_index_kind by auto
  from replace_victims_dialogue [OF c(1) this] c show ?thesis using True by simp
next
  case False
  then show ?thesis using assms
    by (auto simp: maybe_compact_session_def compact_session_def bindE_eq_Inr split: if_splits option.splits)
qed

theorem compaction_keeps_dialogue_witness:
  "\<exists>s'. maybe_compact_session 100 (\<lambda>_. None) (record_context 90 (fold session_step
      [Question ''t'' ''q'', Research ''r1'', Answer ''t'' ''a'', Research ''r2''] (new_session ''t'' 0 ''p'' ''q'' ''n'')))
     = Inr (s', False) \<and> length (filter (\<lambda>m. field_of m ''kind'' \<noteq> JStr ''research'') (transcript s')) = 2"
proof -
  define s where "s = record_context 90 (fold session_step
      [Question ''t'' ''q'', Research ''r1'', Answer ''t'' ''a'', Research ''r2''] (new_session ''t'' 0 ''p'' ''q'' ''n''))"
  have tr: "transcript s = [entry ''user'' ''q'' ''question'', entry ''user'' ''r1'' ''research'',
      entry ''assistant'' ''a'' ''answer'', entry ''user'' ''r2'' ''research'']"
    by (simp add: s_def record_context_def append_question_def append_research_def append_answer_def touch_def
        new_session_def)
  have ri: "research_indices s = [1, 3]"
    unfolding research_indices_def tr by (simp add: entry_kind)
  have "maybe_compact_session 100 (\<lambda>_. None) s = Inr (s, False)"
    unfolding maybe_compact_session_def compact_session_def session_victims_def ri Let_def tr
    by (simp add: summarise_def entry_def as_obj_def key_of_def str_item_def)
  from compaction_keeps_dialogue [OF this] this show ?thesis
    unfolding s_def [symmetric] by (simp add: tr entry_kind)
qed

end
