(* ===== verification/Lore_Agent.thy ===== *)
theory Lore_Agent
  imports Lore_Research
begin

text \<open>
  \<open>discord-bot/lore/agent.py\<close> with \<open>execute_tool\<close> of \<open>tools.py\<close>: the tool-calling loop, the opening
  run, a follow-up turn and the session a finished run seeds.

  The world outside is a record of functions: what the backend answers to a conversation, what a
  tool's handler returns, what the streamed completions give. A call gets the number of calls made
  before it, so that the same request may be answered differently later. \<open>json.dumps\<close> with sorted
  keys is the JSON value with its keys sorted. Progress messages, timings and logs are left out.
\<close>

section \<open>The world\<close>

text \<open>The message \<open>chat_with_tools\<close> returns.\<close>

record reply =
  r_content :: json
  r_tool_calls :: json
  r_usage :: json
  r_reasoning :: json

record world =
  w_chat :: "nat \<Rightarrow> message list \<Rightarrow> string + reply"     \<comment> \<open>\<open>Inl\<close>: a \<open>ProxyError\<close> and its text\<close>
  w_stream :: "bool \<Rightarrow> message list \<Rightarrow> string + (string \<times> json)"   \<comment> \<open>with tools or not; text and usage\<close>
  w_handler :: "string \<Rightarrow> (nat \<Rightarrow> jobj \<Rightarrow> string result) option"   \<comment> \<open>\<open>HANDLERS.get\<close>\<close>
  w_error_text :: "string \<Rightarrow> py_error \<Rightarrow> string"
  w_summary :: "string \<Rightarrow> completion"
  w_sha :: "string \<Rightarrow> string"
  w_rep :: "json \<Rightarrow> string"
  w_loads :: "string \<Rightarrow> json result"
  w_limit :: int

definition AGENT_MAX_ROUNDS :: int where "AGENT_MAX_ROUNDS = 10"
definition AGENT_MAX_ROUNDS_HARD_CAP :: int where "AGENT_MAX_ROUNDS_HARD_CAP = 25"
definition AGENT_MAX_REPEATED_SEARCHES :: nat where "AGENT_MAX_REPEATED_SEARCHES = 2"
definition LORE_FOLLOWUP_MAX_ROUNDS :: int where "LORE_FOLLOWUP_MAX_ROUNDS = 5"

definition clamp_rounds :: "int \<Rightarrow> int option \<Rightarrow> nat" where
  "clamp_rounds dflt r =
     nat (max 1 (min (case r of None \<Rightarrow> dflt | Some n \<Rightarrow> n) AGENT_MAX_ROUNDS_HARD_CAP))"

section \<open>One tool call\<close>

fun sort_json :: "json \<Rightarrow> json" where
  "sort_json (JList xs) = JList (map sort_json xs)"
| "sort_json (JObj kvs) = JObj (sort_key fst (map (\<lambda>(k, v). (k, sort_json v)) kvs))"
| "sort_json v = v"

text \<open>
  \<open>execute_tool\<close>: the log line reads \<open>tool_args.items()\<close> before the \<open>try\<close>, and the table lookup needs
  a hashable name; after that an exception of the handler becomes a text.
\<close>

definition execute_tool :: "world \<Rightarrow> nat \<Rightarrow> json \<Rightarrow> json \<Rightarrow> string result" where
  "execute_tool w n name args =
     bindE (as_obj args) (\<lambda>a.
       case name of
         JStr f \<Rightarrow>
           (case w_handler w f of
              None \<Rightarrow> Inr (''Error: Unknown tool '' @ [CHR 0x27] @ f @ [CHR 0x27] @ ''.'')
            | Some h \<Rightarrow> (case h n a of Inl e \<Rightarrow> Inr (w_error_text w f e) | Inr t \<Rightarrow> Inr t))
       | JList _ \<Rightarrow> Inl TypeError
       | JObj _ \<Rightarrow> Inl TypeError
       | _ \<Rightarrow> Inr (''Error: Unknown tool '' @ [CHR 0x27] @ py_str (w_rep w) name @ [CHR 0x27] @ ''.''))"

definition call_function :: "json \<Rightarrow> jobj result" where
  "call_function tc = bindE (as_obj tc) (\<lambda>t. as_obj (dget t ''function'' (JObj [])))"

text \<open>Name, arguments and id of a call; arguments that are not JSON count as none.\<close>

definition parse_call :: "world \<Rightarrow> json \<Rightarrow> (json \<times> json \<times> string) result" where
  "parse_call w tc =
     bindE (as_obj tc) (\<lambda>t.
     bindE (call_function tc) (\<lambda>f.
       let raw = dget f ''arguments'' (JStr ''{}'');
           args = (case raw of
                     JStr s \<Rightarrow> (case w_loads w s of Inr v \<Rightarrow> v | Inl e \<Rightarrow> JObj [])
                   | _ \<Rightarrow> raw)
       in Inr (dget f ''name'' (JStr []), args, call_id t)))"

record loop =
  l_messages :: conversation
  l_tools :: conversation
  l_shown :: "string set"
  l_ran :: "(json \<times> nat) list"
  l_repeats :: nat
  l_compactions :: nat
  l_metrics :: metrics
  l_fresh :: nat
  l_executed :: "json list"      \<comment> \<open>the signatures that were run, for the statements\<close>

definition repeat_note :: "nat \<Rightarrow> string" where
  "repeat_note r = SEARCH_NOTE_PREFIX @ '' You already ran this exact search in round '' @ str_nat r @
     '', and its results are above. Running it again returns the same thing. Change the wording, the tool or'' @
     '' the scope (a channel or date range), or answer from what you have.''"

text \<open>One call of a round: refused or run, then both messages appended to both lists.\<close>

definition do_call :: "world \<Rightarrow> nat \<Rightarrow> json \<Rightarrow> string \<Rightarrow> loop \<Rightarrow> (loop \<times> nat) result" where
  "do_call w rnd tc reasoning l =
     bindE (parse_call w tc) (\<lambda>(name, args, tid).
       let sig = JList [name, sort_json args];
           l1 = l\<lparr>l_metrics := (l_metrics l)\<lparr>total_tool_calls := total_tool_calls (l_metrics l) + 1\<rparr>\<rparr>
       in bindE
            (case map_of (l_ran l) sig of
               Some r \<Rightarrow> Inr (repeat_note r, l1\<lparr>l_repeats := l_repeats l + 1\<rparr>)
             | None \<Rightarrow>
                 bindE (execute_tool w (length (l_executed l)) name args) (\<lambda>raw.
                   let (out, seen) = drop_seen_chunks (w_sha w) raw (l_shown l)
                   in Inr (out, l1\<lparr>l_ran := dset sig rnd (l_ran l), l_shown := seen,
                                    l_executed := l_executed l @ [sig]\<rparr>)))
            (\<lambda>(out, l2).
              let pair = [(l_fresh l, Call tc reasoning), (l_fresh l + 1, Result name out tid)]
              in Inr (l2\<lparr>l_messages := l_messages l @ pair, l_tools := l_tools l @ pair, l_fresh := l_fresh l + 2\<rparr>,
                      length out)))"

text \<open>The reasoning rides on the first call only. The number is the characters of the results.\<close>

fun do_calls :: "world \<Rightarrow> nat \<Rightarrow> json list \<Rightarrow> string \<Rightarrow> loop \<Rightarrow> nat \<Rightarrow> (loop \<times> nat) result" where
  "do_calls w rnd [] reasoning l chars = Inr (l, chars)"
| "do_calls w rnd (tc # tcs) reasoning l chars =
     bindE (do_call w rnd tc reasoning l) (\<lambda>(l', n). do_calls w rnd tcs [] l' (chars + n))"

section \<open>One round\<close>

text \<open>What a round leads to: an answer, the end of searching, or the next round.\<close>

datatype round_end = Answered string | Stopped | Continue

definition nudge :: message where
  "nudge = Text ''assistant'' ''I didn't find enough information. Let me try a different search.''"

definition projected_tokens :: "loop \<Rightarrow> nat \<Rightarrow> int" where
  "projected_tokens l chars = context_used (l_metrics l) + int chars div TOOL_CHARS_PER_TOKEN"

text \<open>
  After the results are in: repeats, then the projected size of the next request. The log line
  before the compaction divides by the limit.
\<close>

definition after_calls :: "world \<Rightarrow> loop \<Rightarrow> nat \<Rightarrow> (round_end \<times> loop) result" where
  "after_calls w l chars =
     (if l_repeats l \<ge> AGENT_MAX_REPEATED_SEARCHES then Inr (Stopped, l)
      else let projected = projected_tokens l chars in
           if real_of_int projected < AGENT_CTX_COMPACT_PCT * real_of_int (w_limit w) then Inr (Continue, l)
           else if w_limit w = 0 then Inl ZeroDivisionError
           else bindE (compact_tool_rounds (w_sha w) (w_rep w) (w_loads w) (w_summary w) (l_fresh l)
                         (l_compactions l + 1) (l_messages l) (l_tools l) (l_metrics l) (l_shown l)) (\<lambda>k.
                  let l' = l\<lparr>l_compactions := l_compactions l + 1, l_messages := k_messages k,
                             l_tools := k_tool_messages k, l_shown := k_shown k, l_metrics := k_metrics k,
                             l_fresh := l_fresh l + 2\<rparr>
                  in Inr (if real_of_int (projected - k_reclaimed k) \<ge> AGENT_CTX_HARD_PCT * real_of_int (w_limit w)
                          then Stopped else Continue, l')))"

text \<open>\<open>ProxyError\<close> and other exceptions leave the loop.\<close>

datatype agent_error = Proxy string | Raised py_error

type_synonym 'a agent = "agent_error + 'a"

definition lift_err :: "'a result \<Rightarrow> 'a agent" where
  "lift_err r = (case r of Inl e \<Rightarrow> Inl (Raised e) | Inr x \<Rightarrow> Inr x)"

definition bindA :: "'a agent \<Rightarrow> ('a \<Rightarrow> 'b agent) \<Rightarrow> 'b agent" where
  "bindA m f = (case m of Inl e \<Rightarrow> Inl e | Inr x \<Rightarrow> f x)"

text \<open>A text field of the reply; \<open>strip()\<close> of anything but a string raises.\<close>

definition text_or_empty :: "json \<Rightarrow> string result" where
  "text_or_empty v = (if \<not> truthy v then Inr [] else case v of JStr s \<Rightarrow> Inr s | _ \<Rightarrow> Inl AttributeError)"

definition agent_round :: "world \<Rightarrow> nat \<Rightarrow> loop \<Rightarrow> (round_end \<times> loop) agent" where
  "agent_round w rnd l =
     (let l0 = l\<lparr>l_metrics := (l_metrics l)\<lparr>rounds_executed := rounds_executed (l_metrics l) + 1\<rparr>\<rparr> in
      case w_chat w rnd (map snd (l_messages l)) of
        Inl e \<Rightarrow> Inl (Proxy e)
      | Inr r \<Rightarrow>
          lift_err (
            bindE (record_usage (r_usage r) 0 0 (l_metrics l0)) (\<lambda>m.
            bindE (text_or_empty (r_reasoning r)) (\<lambda>reasoning.
              let l1 = l0\<lparr>l_metrics := m\<rparr> in
              if \<not> truthy (r_tool_calls r)
              then bindE (text_or_empty (r_content r)) (\<lambda>content.
                     if strip content \<noteq> [] then Inr (Answered (strip content), l1)
                     else Inr (Continue, l1\<lparr>l_messages := l_messages l1 @ [(l_fresh l1, nudge)],
                                            l_fresh := l_fresh l1 + 1\<rparr>))
              else bindE (as_items (r_tool_calls r)) (\<lambda>tcs.
                   bindE (mapE call_function tcs) (\<lambda>fs.
                   bindE (do_calls w (rnd + 1) tcs (strip reasoning) l1 0) (\<lambda>(l2, chars).
                     after_calls w l2 chars)))))))"

section \<open>The loop\<close>

text \<open>\<open>left\<close> rounds remain; the result is the direct answer, if any, and the state.\<close>

fun run_rounds :: "world \<Rightarrow> nat \<Rightarrow> nat \<Rightarrow> loop \<Rightarrow> (string option \<times> loop) agent" where
  "run_rounds w 0 rnd l = Inr (None, l)"
| "run_rounds w (Suc left) rnd l =
     bindA (agent_round w rnd l) (\<lambda>(out, l').
       case out of
         Answered a \<Rightarrow> Inr (Some a, l')
       | Stopped \<Rightarrow> Inr (None, l')
       | Continue \<Rightarrow> run_rounds w left (rnd + 1) l')"

definition loop_init :: "conversation \<Rightarrow> nat \<Rightarrow> string set \<Rightarrow> loop" where
  "loop_init ms fresh seen =
     \<lparr>l_messages = ms, l_tools = [], l_shown = seen, l_ran = [], l_repeats = 0, l_compactions = 0,
      l_metrics = metrics_init, l_fresh = fresh, l_executed = []\<rparr>"

definition run_tool_rounds :: "world \<Rightarrow> message list \<Rightarrow> nat \<Rightarrow> string set \<Rightarrow> (string option \<times> loop) agent" where
  "run_tool_rounds w ms max_rounds seen =
     run_rounds w max_rounds 0 (loop_init (enumerate 0 ms) (length ms) seen)"

section \<open>The opening run\<close>

record run_result =
  run_answer :: string
  run_metrics :: "metrics option"   \<comment> \<open>\<open>None\<close> after a \<open>ProxyError\<close> in the rounds, whose counts are read by nobody\<close>
  run_tools :: conversation
  run_good :: bool

definition message_length :: "message \<Rightarrow> nat" where
  "message_length m = (case m of Text r c \<Rightarrow> length c | _ \<Rightarrow> 0)"

text \<open>
  \<open>prompt\<close> and \<open>synthesis\<close> are the two system prompts. The warning sign that opens the two error
  texts is written \<open>[!]\<close>. A \<open>ProxyError\<close> is an answer of its own; anything else is raised.
\<close>

definition synthesise :: "world \<Rightarrow> string \<Rightarrow> string \<Rightarrow> loop \<Rightarrow> run_result agent" where
  "synthesise w synthesis question l =
     bindA (lift_err (flatten_research_for_synthesis (w_sha w) (w_rep w) (w_loads w) synthesis (l_tools l) question))
       (\<lambda>pairs.
          let ms = map (\<lambda>(r, c). Text r c) pairs in
          case w_stream w False ms of
            Inl e \<Rightarrow> Inr \<lparr>run_answer = ''[!] Failed to generate final answer: '' @ e, run_metrics = Some (l_metrics l),
                         run_tools = l_tools l, run_good = False\<rparr>
          | Inr (answer, usage) \<Rightarrow>
              bindA (lift_err (record_usage usage (int (sum_list (map message_length ms))) (int (length answer)) (l_metrics l)))
                (\<lambda>m. Inr \<lparr>run_answer = strip (if answer = []
                            then ''I've exhausted my search rounds. Please try rephrasing your question.'' else answer),
                          run_metrics = Some m, run_tools = l_tools l, run_good = True\<rparr>))"

definition run_agent_loop :: "world \<Rightarrow> string \<Rightarrow> string \<Rightarrow> string \<Rightarrow> int option \<Rightarrow> run_result agent" where
  "run_agent_loop w prompt synthesis question max_rounds =
     (case run_tool_rounds w [Text ''system'' prompt, Text ''user'' question]
             (clamp_rounds AGENT_MAX_ROUNDS max_rounds) {} of
        Inl (Proxy e) \<Rightarrow> Inr \<lparr>run_answer = ''[!] Backend error: '' @ e, run_metrics = None,
                             run_tools = [], run_good = False\<rparr>
      | Inl (Raised e) \<Rightarrow> Inl (Raised e)
      | Inr (Some a, l) \<Rightarrow> Inr \<lparr>run_answer = a, run_metrics = Some (l_metrics l), run_tools = l_tools l, run_good = True\<rparr>
      | Inr (None, l) \<Rightarrow> synthesise w synthesis question l)"

section \<open>A follow-up turn\<close>

fun group3 :: "string \<Rightarrow> string" where
  "group3 (a # b # c # d # r) = a # b # c # CHR '','' # group3 (d # r)"
| "group3 xs = xs"

definition commas :: "int \<Rightarrow> string" where
  "commas n = (if n < 0 then ''-'' else []) @ rev (group3 (rev (str_int \<bar>n\<bar>)))"

text \<open>The percentage, rounded half to even, as \<open>:.0f\<close> prints it.\<close>

definition percent :: "int \<Rightarrow> int \<Rightarrow> int" where
  "percent used limit =
     (if limit = 0 then 0
      else let q = (100 * used) div limit; r = 2 * ((100 * used) mod limit)
           in if r < limit \<or> (r = limit \<and> even q) then q else q + 1)"

definition budget_notice :: "int \<Rightarrow> int \<Rightarrow> json" where
  "budget_notice used limit =
     JObj [(''role'', JStr ''user''), (''content'', JStr (
       ''CONTEXT BUDGET: this thread has used '' @ commas used @ '' of '' @ commas limit @ '' tokens ('' @
       str_int (percent used limit) @ ''%); about '' @ commas (max 0 (limit - used)) @
       '' remain. Prefer answering from the material already gathered. Search again only if the question truly '' @
       ''cannot be answered without it, and keep any new search narrow.''))]"

definition ANSWER_NUDGE :: json where
  "ANSWER_NUDGE = JObj [(''role'', JStr ''user''), (''content'', JStr (
     ''Now write the answer to the most recent question, using the material '' @
     ''above. Do NOT call any tool, and do NOT output any tool calls, '' @
     ''function names, or XML tags -- searching is finished for this turn. '' @
     ''Reply with the answer itself, as prose.''))]"

text \<open>The tool rounds of a turn; above the hard limit there are none.\<close>

definition turn_rounds :: "world \<Rightarrow> nat \<Rightarrow> session \<Rightarrow> (string option \<times> conversation \<times> metrics) agent" where
  "turn_rounds w max_rounds s =
     (let pct = pct_of (w_limit w) s in
      if pct < AGENT_CTX_HARD_PCT
      then let extra = (if pct \<ge> AGENT_CTX_SOFT_PCT then [budget_notice (last_context_tokens s) (w_limit w)] else [])
           in bindA (lift_err (build_messages s extra)) (\<lambda>work.
              bindA (run_tool_rounds w (map Raw work) max_rounds (seen_keys s)) (\<lambda>(a, l).
                Inr (a, l_tools l, l_metrics l)))
      else Inr (None, [], metrics_init))"

text \<open>The turn's results as one block; chunks an earlier turn had are skipped.\<close>

definition note_research :: "world \<Rightarrow> conversation \<Rightarrow> session \<Rightarrow> session agent" where
  "note_research w tms s =
     (if tms = [] then Inr s
      else bindA (lift_err (render_research_blocks (w_sha w) (w_rep w) (w_loads w) tms (seen_keys s) (nat (searches s))))
        (\<lambda>(blocks, dropped, seen).
          let s1 = s\<lparr>seen_keys := seen\<rparr>
          in Inr (if blocks = [] then s1 else append_research (join [nlc, nlc] blocks) s1)))"

text \<open>The streamed answer; an empty one is asked for again without the tools.\<close>

definition stream_turn :: "world \<Rightarrow> session \<Rightarrow> metrics \<Rightarrow> (string \<times> metrics) agent" where
  "stream_turn w s m =
     bindA (lift_err (build_messages s [ANSWER_NUDGE])) (\<lambda>ms.
     bindA (case w_stream w True (map Raw ms) of Inl e \<Rightarrow> Inl (Proxy e) | Inr r \<Rightarrow> Inr r) (\<lambda>(text1, usage1).
     bindA (if strip text1 \<noteq> [] then Inr (text1, usage1)
            else case w_stream w False (map Raw ms) of Inl e \<Rightarrow> Inl (Proxy e) | Inr r \<Rightarrow> Inr r) (\<lambda>(text2, usage2).
     bindA (lift_err (record_usage usage2 0 0 m)) (\<lambda>m'. Inr (strip text2, m')))))"

definition give_answer :: "world \<Rightarrow> string option \<Rightarrow> session \<Rightarrow> metrics \<Rightarrow> (string \<times> metrics) agent" where
  "give_answer w direct s m = (case direct of Some a \<Rightarrow> Inr (a, m) | None \<Rightarrow> stream_turn w s m)"

text \<open>
  The session is changed as the turn goes, so an exception leaves what was appended by then. The
  result is the answer, the metrics and whether a tool ran.
\<close>

definition run_lore_turn ::
  "world \<Rightarrow> string \<Rightarrow> string \<Rightarrow> string \<Rightarrow> int option \<Rightarrow> session \<Rightarrow> session \<times> (string \<times> metrics \<times> bool) agent" where
  "run_lore_turn w asked answered question max_rounds s =
     (let s1 = append_question asked question s in
      case turn_rounds w (clamp_rounds LORE_FOLLOWUP_MAX_ROUNDS max_rounds) s1 of
        Inl e \<Rightarrow> (s1, Inl e)
      | Inr (direct, tms, m) \<Rightarrow>
          (case note_research w tms s1 of
             Inl e \<Rightarrow> (s1, Inl e)
           | Inr s2 \<Rightarrow>
               (case give_answer w direct s2 m of
                  Inl e \<Rightarrow> (s2, Inl e)
                | Inr (a, m') \<Rightarrow>
                    let answer = (if a = [] then ''I wasn't able to produce an answer for that. Try rephrasing?'' else a)
                    in (record_context (context_used m') (append_answer answered answer s2),
                        Inr (answer, m', tms \<noteq> [])))))"

text \<open>\<open>now\<close> stamps the session, \<open>pinned\<close> is the time in its prompt.\<close>

definition seed_session_from_run ::
  "world \<Rightarrow> string \<Rightarrow> string \<Rightarrow> int \<Rightarrow> string \<Rightarrow> string \<Rightarrow> run_result \<Rightarrow> session result" where
  "seed_session_from_run w now pinned tid prompt question r =
     (let s0 = append_question now question (new_session now tid prompt question pinned) in
      bindE (render_research_blocks (w_sha w) (w_rep w) (w_loads w) (run_tools r) (seen_keys s0) 0)
        (\<lambda>(blocks, dropped, seen).
          let s1 = s0\<lparr>seen_keys := seen\<rparr>;
              s2 = (if blocks = [] then s1 else append_research (join [nlc, nlc] blocks) s1);
              s3 = append_answer now (run_answer r) s2
          in bindE (estimated_tokens s3) (\<lambda>n. Inr (record_context n s3))))"

section \<open>The invariant of a run\<close>

lemma paired_snd: "paired xs \<Longrightarrow> map snd xs = map snd ys \<Longrightarrow> paired ys"
proof (induction xs arbitrary: ys rule: paired.induct)
  case (5 i tc w j n c t ms)
  then obtain a b zs where "ys = (a, Call tc w) # (b, Result n c t) # zs" "map snd ms = map snd zs"
    by (auto simp: Cons_eq_map_conv)
  then show ?case using 5 by simp
qed (auto simp: Cons_eq_map_conv)

lemma run_ok_append:
  assumes "run_ok f ms tms"
  shows "run_ok (f + 2) (ms @ [(f, Call tc w), (f + 1, Result n c t)]) (tms @ [(f, Call tc w), (f + 1, Result n c t)])"
proof -
  have p: "paired ms" "paired tms" and lt: "list_all (\<lambda>(i, j). i < f \<and> j < f) (pair_ids ms)"
    and sub: "set (pair_ids tms) \<subseteq> set (pair_ids ms)"
    using assms by (simp_all add: run_ok_def)
  have new: "f \<notin> fst ` set (pair_ids ms)" "f + 1 \<notin> fst ` set (pair_ids ms)" "f \<notin> snd ` set (pair_ids ms)"
    "f + 1 \<notin> snd ` set (pair_ids ms)"
    using lt by (force simp: list_all_iff)+
  moreover have "f \<notin> fst ` set (pair_ids tms)" using new(1) sub by blast
  moreover have "list_all (\<lambda>(i, j). i < f + 2 \<and> j < f + 2) (pair_ids ms)"
    using lt by (auto simp: list_all_iff)
  ultimately show ?thesis
    using assms by (auto simp: run_ok_def paired_append [OF p(1)] paired_append [OF p(2)]
        pair_ids_append [OF p(1)] pair_ids_append [OF p(2)])
qed

lemma run_ok_text: "run_ok f ms tms \<Longrightarrow> run_ok (f + 1) (ms @ [(f, Text r c)]) tms"
proof -
  assume ok: "run_ok f ms tms"
  then have p: "paired ms" by (simp add: run_ok_def)
  have "run_ok (f + 1) ms tms" using ok by (rule run_ok_fresh) simp
  then show ?thesis by (simp add: run_ok_def paired_append [OF p] pair_ids_append [OF p])
qed

text \<open>
  The result behind a call answers this call: it carries the call's own id and function name. With
  the pairing this is what the backend checks of the tool messages of a request.
\<close>

definition answers :: "json \<Rightarrow> json \<Rightarrow> string \<Rightarrow> bool" where
  "answers tc n t = (case (as_obj tc, call_function tc) of
     (Inr call, Inr f) \<Rightarrow> t = call_id call \<and> n = dget f ''name'' (JStr [])
   | _ \<Rightarrow> False)"

lemma parse_call_answers: "parse_call w tc = Inr (name, args, tid) \<Longrightarrow> answers tc name tid"
  by (auto simp: parse_call_def answers_def bindE_eq_Inr Let_def)

fun ids_match :: "message list \<Rightarrow> bool" where
  "ids_match [] = True"
| "ids_match (Call tc w # Result n c t # ms) = (answers tc n t \<and> ids_match ms)"
| "ids_match (m # ms) = ids_match ms"

lemma ids_match_append:
  "paired xs \<Longrightarrow> ids_match (map snd xs @ ys) = (ids_match (map snd xs) \<and> ids_match ys)"
  by (induction xs rule: paired.induct) auto

lemma ids_match_plain_Cons: "plain m \<Longrightarrow> ids_match (m # ms) = ids_match ms"
  by (cases m) (simp_all add: plain_def)

lemma ids_match_plain: "list_all plain ms \<Longrightarrow> ids_match ms"
  by (induction ms) (simp_all add: ids_match_plain_Cons)

lemma ids_match_filter:
  "paired ms \<Longrightarrow> splits_no_pair ids ms \<Longrightarrow> ids_match (map snd ms) \<Longrightarrow>
     ids_match (map snd (filter (\<lambda>m. fst m \<notin> set ids) ms))"
  by (induction ms rule: paired.induct) (auto simp: splits_no_pair_def)

lemma ids_match_excise_some:
  assumes "paired ms" "splits_no_pair ids ms" "plain m" "ids_match (map snd ms)"
  shows "ids_match (map snd (excise ids (Some (k, m)) ms))"
  using assms
proof (induction ms rule: paired.induct)
  case (2 i v ms)
  then show ?case using ids_match_filter [of ms ids]
    by (cases "i \<in> set ids") (auto simp: excise_simps splits_no_pair_def ids_match_plain_Cons)
next
  case (3 i r c ms)
  then show ?case using ids_match_filter [of ms ids]
    by (cases "i \<in> set ids") (auto simp: excise_simps splits_no_pair_def ids_match_plain_Cons)
next
  case (4 i c ms)
  then show ?case using ids_match_filter [of ms ids]
    by (cases "i \<in> set ids") (auto simp: excise_simps splits_no_pair_def ids_match_plain_Cons)
next
  case (5 i tc w j n c t ms)
  then show ?case using ids_match_filter [of ms ids]
    by (cases "i \<in> set ids") (auto simp: excise_simps splits_no_pair_def ids_match_plain_Cons)
qed (auto simp: excise_simps ids_match_plain_Cons)

lemma compacted_ids_match:
  assumes ok: "run_ok fresh ms tms" and m: "ids_match (map snd ms)"
    and k: "compact_tool_rounds sha rep loads reply fresh n ms tms x seen = Inr k"
  shows "ids_match (map snd (k_messages k))"
  using k
proof (cases rule: compact_cases)
  case (cut m' t)
  have p: "paired ms" "paired tms" using ok by (simp_all add: run_ok_def)
  note sp = run_ok_splits(1) [OF ok run_victims_ids [OF p(2)] set_take_subset]
  show ?thesis using ids_match_excise_some [OF p(1) sp _ m] ids_match_filter [OF p(1) sp m]
    by (simp add: cut rewritten_def Let_def plain_def excise_simps(1))
qed (use m in \<open>simp add: not_compacted_def\<close>)

definition counts_ok :: "loop \<Rightarrow> bool" where
  "counts_ok l \<longleftrightarrow> distinct (l_executed l) \<and> set (l_executed l) = fst ` set (l_ran l)
     \<and> total_tool_calls (l_metrics l) = length (l_executed l) + l_repeats l"

definition loop_ok :: "loop \<Rightarrow> bool" where
  "loop_ok l \<longleftrightarrow> run_ok (l_fresh l) (l_messages l) (l_tools l) \<and> counts_ok l"

lemma record_usage_counts:
  "record_usage u a b m = Inr m' \<Longrightarrow> total_tool_calls m' = total_tool_calls m \<and> rounds_executed m' = rounds_executed m"
  by (auto simp: record_usage_def bindE_eq_Inr)

lemma summarise_counts:
  "summarise r m = Inr (x, m') \<Longrightarrow> total_tool_calls m' = total_tool_calls m \<and> rounds_executed m' = rounds_executed m"
  by (auto simp: summarise_def bindE_eq_Inr dest: record_usage_counts split: option.splits if_splits)

lemma k_metrics_simps [simp]:
  "k_metrics (rewritten sha fresh ms tms seen m t) = m" "k_metrics (not_compacted ms tms seen m) = m"
  by (simp_all add: rewritten_def not_compacted_def Let_def)

lemma compact_counts:
  assumes "compact_tool_rounds sha rep loads reply fresh n ms tms m seen = Inr k"
  shows "total_tool_calls (k_metrics k) = total_tool_calls m \<and> rounds_executed (k_metrics k) = rounds_executed m"
proof -
  have "k_metrics k = m \<or> (\<exists>r x. summarise r m = Inr (x, k_metrics k))"
    using assms by (auto simp: compact_tool_rounds_def bindE_eq_Inr split: if_splits option.splits)
  then show ?thesis using summarise_counts by blast
qed

lemma fst_dset: "fst ` set (dset k v d) = insert k (fst ` set d)"
  by (induction d) auto

lemma do_call_ok:
  assumes ok: "loop_ok l" and r: "do_call w rnd tc why l = Inr (l', n)"
  shows "loop_ok l' \<and> rounds_executed (l_metrics l') = rounds_executed (l_metrics l)
    \<and> l_repeats l \<le> l_repeats l'"
proof -
  obtain name args tid where p: "parse_call w tc = Inr (name, args, tid)"
    using r by (auto simp: do_call_def bindE_eq_Inr)
  define sig where "sig = JList [name, sort_json args]"
  define l1 where "l1 = l\<lparr>l_metrics := (l_metrics l)\<lparr>total_tool_calls := total_tool_calls (l_metrics l) + 1\<rparr>\<rparr>"
  obtain out l2 where c: "counts_ok l2" "l_repeats l \<le> l_repeats l2"
      "rounds_executed (l_metrics l2) = rounds_executed (l_metrics l)"
    and l': "l' = l2\<lparr>l_messages := l_messages l @ [(l_fresh l, Call tc why), (l_fresh l + 1, Result name out tid)],
        l_tools := l_tools l @ [(l_fresh l, Call tc why), (l_fresh l + 1, Result name out tid)], l_fresh := l_fresh l + 2\<rparr>"
  proof (cases "map_of (l_ran l) sig")
    case (Some r0)
    let ?l = "l1\<lparr>l_repeats := l_repeats l + 1\<rparr>"
    have "counts_ok ?l" using ok by (simp add: loop_ok_def counts_ok_def l1_def)
    then show ?thesis using that [of ?l "repeat_note r0"] r p Some
      by (simp add: do_call_def sig_def l1_def Let_def)
  next
    case None
    obtain raw where e: "execute_tool w (length (l_executed l)) name args = Inr raw"
      using r p None by (auto simp: do_call_def sig_def Let_def bindE_eq_Inr)
    obtain out seen where d: "drop_seen_chunks (w_sha w) raw (l_shown l) = (out, seen)" by force
    let ?l = "l1\<lparr>l_ran := dset sig rnd (l_ran l), l_shown := seen, l_executed := l_executed l @ [sig]\<rparr>"
    have "sig \<notin> set (l_executed l)" using ok None by (simp add: loop_ok_def counts_ok_def map_of_eq_None_iff)
    then have "counts_ok ?l" using ok by (simp add: loop_ok_def counts_ok_def l1_def fst_dset)
    then show ?thesis using that [of ?l out] r p None e d
      by (simp add: do_call_def sig_def l1_def Let_def)
  qed
  have "run_ok (l_fresh l') (l_messages l') (l_tools l')"
    using ok run_ok_append by (simp add: l' loop_ok_def)
  then show ?thesis using c by (simp add: loop_ok_def l' counts_ok_def)
qed

lemma do_calls_ok:
  "loop_ok l \<Longrightarrow> do_calls w rnd tcs why l n = Inr (l', n') \<Longrightarrow>
     loop_ok l' \<and> rounds_executed (l_metrics l') = rounds_executed (l_metrics l)"
proof (induction tcs arbitrary: why l n)
  case (Cons tc tcs)
  then obtain l1 n1 where r: "do_call w rnd tc why l = Inr (l1, n1)" "do_calls w rnd tcs [] l1 (n + n1) = Inr (l', n')"
    by (auto simp: bindE_eq_Inr)
  note c = do_call_ok [OF Cons.prems(1) r(1)]
  from Cons.IH [OF conjunct1 [OF c] r(2)] c show ?case by simp
qed simp

lemma after_calls_ok:
  assumes ok: "loop_ok l" and r: "after_calls w l chars = Inr (out, l')"
  shows "loop_ok l' \<and> rounds_executed (l_metrics l') = rounds_executed (l_metrics l)"
proof (cases "l_repeats l \<ge> AGENT_MAX_REPEATED_SEARCHES
    \<or> real_of_int (projected_tokens l chars) < AGENT_CTX_COMPACT_PCT * real_of_int (w_limit w)")
  case True
  then show ?thesis using assms by (auto simp: after_calls_def Let_def split: if_splits)
next
  case False
  then obtain k where k: "compact_tool_rounds (w_sha w) (w_rep w) (w_loads w) (w_summary w) (l_fresh l)
        (l_compactions l + 1) (l_messages l) (l_tools l) (l_metrics l) (l_shown l) = Inr k"
    and l': "l' = l\<lparr>l_compactions := l_compactions l + 1, l_messages := k_messages k, l_tools := k_tool_messages k,
        l_shown := k_shown k, l_metrics := k_metrics k, l_fresh := l_fresh l + 2\<rparr>"
    using r by (auto simp: after_calls_def Let_def bindE_eq_Inr split: if_splits)
  have ro: "run_ok (l_fresh l) (l_messages l) (l_tools l)" using ok by (simp add: loop_ok_def)
  have "run_ok (l_fresh l) (k_messages k) (k_tool_messages k)" using compacted_run_ok [OF ro k] .
  then have "run_ok (l_fresh l + 2) (k_messages k) (k_tool_messages k)" by (rule run_ok_fresh) simp
  then show ?thesis using ok compact_counts [OF k] by (simp add: l' loop_ok_def counts_ok_def)
qed

lemma lift_err_Inr [simp]: "lift_err r = Inr x \<longleftrightarrow> r = Inr x"
  by (simp add: lift_err_def split: sum.split)

lemma bindA_eq_Inr: "bindA m f = Inr y \<longleftrightarrow> (\<exists>x. m = Inr x \<and> f x = Inr y)"
  by (simp add: bindA_def split: sum.split)

lemma agent_round_ok:
  assumes ok: "loop_ok l" and r: "agent_round w rnd l = Inr (out, l')"
  shows "loop_ok l' \<and> rounds_executed (l_metrics l') = rounds_executed (l_metrics l) + 1"
proof -
  define l0 where "l0 = l\<lparr>l_metrics := (l_metrics l)\<lparr>rounds_executed := rounds_executed (l_metrics l) + 1\<rparr>\<rparr>"
  obtain rp where rp: "w_chat w rnd (map snd (l_messages l)) = Inr rp"
    using r by (cases "w_chat w rnd (map snd (l_messages l))") (simp_all add: agent_round_def Let_def)
  obtain m why where m: "record_usage (r_usage rp) 0 0 (l_metrics l0) = Inr m" "text_or_empty (r_reasoning rp) = Inr why"
    using r by (auto simp: agent_round_def Let_def rp l0_def bindE_eq_Inr)
  define l1 where "l1 = l0\<lparr>l_metrics := m\<rparr>"
  have l1: "loop_ok l1" "rounds_executed (l_metrics l1) = rounds_executed (l_metrics l) + 1"
    using ok record_usage_counts [OF m(1)] by (simp_all add: l1_def l0_def loop_ok_def counts_ok_def)
  show ?thesis
  proof (cases "truthy (r_tool_calls rp)")
    case True
    have "\<exists>tcs l2 chars. do_calls w (rnd + 1) tcs (strip why) l1 0 = Inr (l2, chars)
        \<and> after_calls w l2 chars = Inr (out, l')"
      using r [unfolded agent_round_def l0_def [symmetric]] m True
      by (auto simp: Let_def rp bindE_eq_Inr l1_def)
    then obtain tcs l2 chars where "do_calls w (rnd + 1) tcs (strip why) l1 0 = Inr (l2, chars)"
        "after_calls w l2 chars = Inr (out, l')" by blast
    then show ?thesis using do_calls_ok [OF l1(1)] after_calls_ok l1(2) by fastforce
  next
    case False
    then have "l' = l1 \<or> l' = l1\<lparr>l_messages := l_messages l1 @ [(l_fresh l1, nudge)], l_fresh := l_fresh l1 + 1\<rparr>"
      using r [unfolded agent_round_def l0_def [symmetric]] m
      by (auto simp: Let_def rp bindE_eq_Inr l1_def split: if_splits)
    then show ?thesis
    proof
      assume l': "l' = l1\<lparr>l_messages := l_messages l1 @ [(l_fresh l1, nudge)], l_fresh := l_fresh l1 + 1\<rparr>"
      have "run_ok (l_fresh l') (l_messages l') (l_tools l')"
        using l1(1) run_ok_text by (simp add: loop_ok_def l' nudge_def)
      moreover have "counts_ok l'" using l1(1) by (simp add: loop_ok_def counts_ok_def l')
      ultimately show ?thesis using l1(2) by (simp add: loop_ok_def l')
    qed (use l1 in simp)
  qed
qed

lemma run_rounds_ok:
  "loop_ok l \<Longrightarrow> run_rounds w n rnd l = Inr (a, l') \<Longrightarrow>
     loop_ok l' \<and> rounds_executed (l_metrics l') \<le> rounds_executed (l_metrics l) + n"
proof (induction n arbitrary: rnd l)
  case (Suc n)
  then obtain out l1 where r: "agent_round w rnd l = Inr (out, l1)" by (auto simp: bindA_eq_Inr)
  note k = agent_round_ok [OF Suc.prems(1) r]
  show ?case
  proof (cases out)
    case Continue
    then have "run_rounds w n (rnd + 1) l1 = Inr (a, l')" using Suc.prems(2) r by (simp add: bindA_def)
    from Suc.IH [OF conjunct1 [OF k] this] k show ?thesis by simp
  qed (use Suc.prems(2) r k in \<open>auto simp: bindA_def\<close>)
qed simp

lemma do_call_ids:
  assumes "loop_ok l" "ids_match (map snd (l_messages l))" and r: "do_call w rnd tc why l = Inr (l', n)"
  shows "ids_match (map snd (l_messages l'))"
proof -
  obtain name args tid where p: "parse_call w tc = Inr (name, args, tid)"
    using r by (auto simp: do_call_def bindE_eq_Inr)
  obtain out where "l_messages l' = l_messages l @ [(l_fresh l, Call tc why), (l_fresh l + 1, Result name out tid)]"
    using r by (auto simp: do_call_def p Let_def bindE_eq_Inr split: option.splits prod.splits)
  then show ?thesis using assms(1,2) parse_call_answers [OF p]
    by (simp add: loop_ok_def run_ok_def ids_match_append)
qed

lemma do_calls_ids:
  "loop_ok l \<Longrightarrow> ids_match (map snd (l_messages l)) \<Longrightarrow> do_calls w rnd tcs why l n = Inr (l', n') \<Longrightarrow> ids_match (map snd (l_messages l'))"
proof (induction tcs arbitrary: why l n)
  case (Cons tc tcs)
  then obtain l1 n1 where r: "do_call w rnd tc why l = Inr (l1, n1)" "do_calls w rnd tcs [] l1 (n + n1) = Inr (l', n')"
    by (auto simp: bindE_eq_Inr)
  have "loop_ok l1" using do_call_ok [OF Cons.prems(1) r(1)] by blast
  from Cons.IH [OF this do_call_ids [OF Cons.prems(1,2) r(1)] r(2)] show ?case .
qed simp

lemma after_calls_ids:
  assumes ok: "loop_ok l" "ids_match (map snd (l_messages l))" and r: "after_calls w l chars = Inr (out, l')"
  shows "ids_match (map snd (l_messages l'))"
proof (cases "l_repeats l \<ge> AGENT_MAX_REPEATED_SEARCHES
    \<or> real_of_int (projected_tokens l chars) < AGENT_CTX_COMPACT_PCT * real_of_int (w_limit w)")
  case True
  then show ?thesis using assms by (auto simp: after_calls_def Let_def split: if_splits)
next
  case False
  then obtain k where k: "compact_tool_rounds (w_sha w) (w_rep w) (w_loads w) (w_summary w) (l_fresh l)
        (l_compactions l + 1) (l_messages l) (l_tools l) (l_metrics l) (l_shown l) = Inr k"
    and l': "l_messages l' = k_messages k"
    using r by (auto simp: after_calls_def Let_def bindE_eq_Inr split: if_splits)
  have ro: "run_ok (l_fresh l) (l_messages l) (l_tools l)" using ok by (simp add: loop_ok_def)
  show ?thesis using compacted_ids_match [OF ro ok(2) k] by (simp add: l')
qed

lemma agent_round_ids:
  assumes ok: "loop_ok l" "ids_match (map snd (l_messages l))" and r: "agent_round w rnd l = Inr (out, l')"
  shows "ids_match (map snd (l_messages l'))"
proof -
  obtain rp where rp: "w_chat w rnd (map snd (l_messages l)) = Inr rp"
    using r by (cases "w_chat w rnd (map snd (l_messages l))") (simp_all add: agent_round_def Let_def)
  define l0 where "l0 = l\<lparr>l_metrics := (l_metrics l)\<lparr>rounds_executed := rounds_executed (l_metrics l) + 1\<rparr>\<rparr>"
  obtain m why where m: "record_usage (r_usage rp) 0 0 (l_metrics l0) = Inr m" "text_or_empty (r_reasoning rp) = Inr why"
    using r by (auto simp: agent_round_def Let_def rp l0_def bindE_eq_Inr)
  define l1 where "l1 = l0\<lparr>l_metrics := m\<rparr>"
  have l1: "loop_ok l1" "ids_match (map snd (l_messages l1))"
    using ok record_usage_counts [OF m(1)] by (simp_all add: l1_def l0_def loop_ok_def counts_ok_def)
  show ?thesis
  proof (cases "truthy (r_tool_calls rp)")
    case True
    have "\<exists>tcs l2 chars. do_calls w (rnd + 1) tcs (strip why) l1 0 = Inr (l2, chars)
        \<and> after_calls w l2 chars = Inr (out, l')"
      using r [unfolded agent_round_def l0_def [symmetric]] m True
      by (auto simp: Let_def rp bindE_eq_Inr l1_def)
    then obtain tcs l2 chars where c: "do_calls w (rnd + 1) tcs (strip why) l1 0 = Inr (l2, chars)"
        "after_calls w l2 chars = Inr (out, l')" by blast
    show ?thesis
      using after_calls_ids [OF conjunct1 [OF do_calls_ok [OF l1(1) c(1)]] do_calls_ids [OF l1 c(1)] c(2)] .
  next
    case False
    then have "l' = l1 \<or> l' = l1\<lparr>l_messages := l_messages l1 @ [(l_fresh l1, nudge)], l_fresh := l_fresh l1 + 1\<rparr>"
      using r [unfolded agent_round_def l0_def [symmetric]] m
      by (auto simp: Let_def rp bindE_eq_Inr l1_def split: if_splits)
    then show ?thesis using l1
      by (auto simp: loop_ok_def run_ok_def ids_match_append nudge_def)
  qed
qed

section \<open>What the backend is sent\<close>

text \<open>The requests of a run, in order.\<close>

fun requests :: "world \<Rightarrow> nat \<Rightarrow> nat \<Rightarrow> loop \<Rightarrow> message list list" where
  "requests w 0 rnd l = []"
| "requests w (Suc n) rnd l =
     map snd (l_messages l) #
     (case agent_round w rnd l of Inr (Continue, l') \<Rightarrow> requests w n (rnd + 1) l' | _ \<Rightarrow> [])"

text \<open>
  A request is well formed when each call is directly followed by a result, nothing else is a
  result, and each result carries the id and the function name of the call before it.
\<close>

definition request_ok :: "message list \<Rightarrow> bool" where
  "request_ok ms \<longleftrightarrow> paired (enumerate 0 ms) \<and> ids_match ms"

lemma loop_init_ok:
  assumes "list_all plain ms"
  shows "loop_ok (loop_init (enumerate 0 ms) (length ms) seen)"
proof -
  have "list_all plain ms \<Longrightarrow> paired (enumerate n ms) \<and> pair_ids (enumerate n ms) = []" for n
  proof (induction ms arbitrary: n)
    case (Cons m ms)
    then show ?case by (cases m) (simp_all add: plain_def)
  qed simp
  then show ?thesis using assms
    by (simp add: loop_ok_def loop_init_def run_ok_def counts_ok_def metrics_init_def)
qed

lemma requests_ok:
  "loop_ok l \<Longrightarrow> ids_match (map snd (l_messages l)) \<Longrightarrow>
     list_all request_ok (requests w n rnd l) \<and> length (requests w n rnd l) \<le> n"
proof (induction n arbitrary: rnd l)
  case (Suc n)
  have p: "paired (l_messages l)" using Suc.prems(1) by (simp add: loop_ok_def run_ok_def)
  have "request_ok (map snd (l_messages l))"
    unfolding request_ok_def
    using paired_snd [OF p] Suc.prems(2) by simp
  moreover have "list_all request_ok (requests w n (rnd + 1) l') \<and> length (requests w n (rnd + 1) l') \<le> n"
    if "agent_round w rnd l = Inr (Continue, l')" for l'
    using Suc.IH agent_round_ok [OF Suc.prems(1) that] agent_round_ids [OF Suc.prems that] by blast
  ultimately show ?case by (auto split: sum.splits round_end.splits prod.splits)
qed simp

text \<open>
  C15: The backend only sees well-formed conversations. A run over any plain opening sends at most as
  many requests as it has rounds, whatever the model and the tools answer and however often the
  research was condensed, and in each one every tool call is directly followed by its own result: the
  message behind it is a result that carries the id and the function name of this call.
\<close>

theorem requests_well_formed:
  assumes "list_all plain ms"
  shows "list_all request_ok (requests w n 0 (loop_init (enumerate 0 ms) (length ms) seen))
    \<and> length (requests w n 0 (loop_init (enumerate 0 ms) (length ms) seen)) \<le> n"
  using requests_ok [OF loop_init_ok [OF assms]] ids_match_plain [OF assms]
  by (simp add: loop_init_def)

text \<open>A world whose model repeats one search for ever.\<close>

definition again :: reply where
  "again = \<lparr>r_content = JNull,
     r_tool_calls = JList [JObj [(''id'', JStr ''c''), (''function'', JObj [(''name'', JStr ''find''), (''arguments'', JObj [])])]],
     r_usage = JNull, r_reasoning = JNull\<rparr>"

definition stubborn :: world where
  "stubborn = \<lparr>w_chat = (\<lambda>n ms. Inr again), w_stream = (\<lambda>t ms. Inl ''down''),
     w_handler = (\<lambda>f. Some (\<lambda>n a. Inr ''found'')), w_error_text = (\<lambda>f e. f), w_summary = (\<lambda>s. None),
     w_sha = (\<lambda>s. s), w_rep = (\<lambda>v. ''?''), w_loads = (\<lambda>s. Inl ValueError), w_limit = 96000\<rparr>"

theorem requests_well_formed_witness:
  "list_all request_ok (requests stubborn 10 0 (loop_init (enumerate 0 [Text ''user'' ''q'']) 1 {}))"
  using requests_well_formed [of "[Text ''user'' ''q'']" stubborn 10 "{}"] by (simp add: plain_def)

text \<open>
  C21: No search is run twice. In a run the tool calls that reached a handler all differ in name or
  arguments, every other call was refused as a repeat, and the rounds stay within the cap, itself
  never above the hard one.
\<close>

theorem searches_distinct:
  assumes "list_all plain ms" and "run_tool_rounds w ms (clamp_rounds dflt r) seen = Inr (a, l)"
  shows "distinct (l_executed l) \<and> total_tool_calls (l_metrics l) = length (l_executed l) + l_repeats l
    \<and> rounds_executed (l_metrics l) \<le> clamp_rounds dflt r \<and> clamp_rounds dflt r \<le> 25"
proof -
  have "loop_ok l \<and> rounds_executed (l_metrics l)
      \<le> rounds_executed (l_metrics (loop_init (enumerate 0 ms) (length ms) seen)) + clamp_rounds dflt r"
    using run_rounds_ok [OF loop_init_ok [OF assms(1)]] assms(2) by (simp add: run_tool_rounds_def)
  then show ?thesis
    by (simp add: loop_ok_def counts_ok_def loop_init_def metrics_init_def clamp_rounds_def AGENT_MAX_ROUNDS_HARD_CAP_def)
qed

theorem searches_distinct_witness:
  "\<exists>l. run_tool_rounds stubborn [Text ''user'' ''q''] (clamp_rounds 10 None) {} = Inr (None, l)
     \<and> l_repeats l = 2 \<and> total_tool_calls (l_metrics l) = 3"
proof -
  let ?r = "run_tool_rounds stubborn [Text ''user'' ''q''] (clamp_rounds 10 None) {}"
  have "case ?r of Inr (None, l) \<Rightarrow> l_repeats l = 2 \<and> length (l_executed l) = 1 | _ \<Rightarrow> False" by code_simp
  then obtain l where l: "?r = Inr (None, l)" "l_repeats l = 2" "length (l_executed l) = 1"
    by (auto split: sum.splits prod.splits option.splits)
  have "list_all plain [Text ''user'' ''q'']" by (simp add: plain_def)
  from searches_distinct [OF this l(1)] l show ?thesis by simp
qed

text \<open>
  The loop stops in time. When it goes on after a round with calls, fewer than two repeats were
  refused, and the next request is projected below the hard share of the window: below the soft
  one with nothing changed, or below the hard one once the tokens compaction reclaimed are off.
\<close>

theorem goes_on_with_room:
  assumes "after_calls w l chars = Inr (Continue, l')" and "w_limit w \<ge> 0" and "loop_ok l"
  shows "l_repeats l' < 2 \<and> loop_ok l'
    \<and> (\<exists>reclaimed \<ge> 0. (reclaimed = 0 \<or> l_compactions l' = l_compactions l + 1)
         \<and> real_of_int (projected_tokens l chars - reclaimed) < AGENT_CTX_HARD_PCT * real_of_int (w_limit w))"
proof (cases "real_of_int (projected_tokens l chars) < AGENT_CTX_COMPACT_PCT * real_of_int (w_limit w)")
  case True
  moreover have "AGENT_CTX_COMPACT_PCT * real_of_int (w_limit w) \<le> AGENT_CTX_HARD_PCT * real_of_int (w_limit w)"
    using assms(2) by (simp add: AGENT_CTX_COMPACT_PCT_def AGENT_CTX_HARD_PCT_def)
  ultimately have "real_of_int (projected_tokens l chars - 0) < AGENT_CTX_HARD_PCT * real_of_int (w_limit w)" by simp
  moreover have "l_repeats l' < 2" using assms(1) True
    by (auto simp: after_calls_def Let_def AGENT_MAX_REPEATED_SEARCHES_def split: if_splits)
  ultimately show ?thesis using after_calls_ok [OF assms(3,1)] by blast
next
  case False
  have "l_repeats l < 2" using assms(1) by (auto simp: after_calls_def AGENT_MAX_REPEATED_SEARCHES_def split: if_splits)
  then obtain k where k: "compact_tool_rounds (w_sha w) (w_rep w) (w_loads w) (w_summary w) (l_fresh l)
        (l_compactions l + 1) (l_messages l) (l_tools l) (l_metrics l) (l_shown l) = Inr k"
      "l_compactions l' = l_compactions l + 1" "l_repeats l' = l_repeats l"
      "real_of_int (projected_tokens l chars - k_reclaimed k) < AGENT_CTX_HARD_PCT * real_of_int (w_limit w)"
    using assms(1) False by (auto simp: after_calls_def Let_def bindE_eq_Inr AGENT_MAX_REPEATED_SEARCHES_def split: if_splits)
  have "k_reclaimed k \<ge> 0" using k(1)
    by (cases rule: compact_cases) (simp_all add: not_compacted_def rewritten_def Let_def)
  then show ?thesis using k \<open>l_repeats l < 2\<close> after_calls_ok [OF assms(3,1)] by metis
qed

theorem goes_on_with_room_witness:
  "after_calls stubborn (loop_init (enumerate 0 [Text ''user'' ''q'']) 1 {}) 30
     = Inr (Continue, loop_init (enumerate 0 [Text ''user'' ''q'']) 1 {})
   \<and> l_repeats (loop_init (enumerate 0 [Text ''user'' ''q'']) 1 {}) < 2"
proof -
  let ?l = "loop_init (enumerate 0 [Text ''user'' ''q'']) 1 {}"
  have r: "after_calls stubborn ?l 30 = Inr (Continue, ?l)"
    by (simp add: after_calls_def loop_init_def projected_tokens_def context_used_def metrics_init_def stubborn_def
        AGENT_MAX_REPEATED_SEARCHES_def AGENT_CTX_COMPACT_PCT_def TOOL_CHARS_PER_TOKEN_def)
  have "loop_ok ?l" using loop_init_ok [of "[Text ''user'' ''q'']" "{}"] by (simp add: plain_def)
  from goes_on_with_room [OF r _ this] r show ?thesis by (simp add: stubborn_def)
qed

text \<open>
  Arguments that are JSON but not an object end the run. The model answers with the argument text
  \<open>[]\<close>; no handler is reached and the exception leaves the run, where a text for the model was
  meant to come back.
\<close>

definition listed :: world where
  "listed = stubborn\<lparr>w_chat := (\<lambda>n ms. Inr (again\<lparr>r_tool_calls :=
     JList [JObj [(''id'', JStr ''c''), (''function'', JObj [(''name'', JStr ''find''), (''arguments'', JStr ''[]'')])]]\<rparr>)),
     w_loads := (\<lambda>s. if s = ''[]'' then Inr (JList []) else Inl ValueError)\<rparr>"

theorem list_arguments_end_the_run:
  "run_agent_loop listed ''p'' ''s'' ''q'' None = Inl (Raised AttributeError)"
proof -
  have "case run_tool_rounds listed [Text ''system'' ''p'', Text ''user'' ''q''] (clamp_rounds AGENT_MAX_ROUNDS None) {} of
      Inl (Raised AttributeError) \<Rightarrow> True | _ \<Rightarrow> False" by code_simp
  then have "run_tool_rounds listed [Text ''system'' ''p'', Text ''user'' ''q''] (clamp_rounds AGENT_MAX_ROUNDS None) {}
      = Inl (Raised AttributeError)" by (auto split: sum.splits agent_error.splits py_error.splits)
  then show ?thesis by (simp add: run_agent_loop_def)
qed

section \<open>Turns of a thread\<close>

lemma note_research_shape:
  assumes "note_research w tms s = Inr s'"
  shows "seen_keys s \<subseteq> seen_keys s' \<and> system_prompt s' = system_prompt s
    \<and> (transcript s' = transcript s \<or> tms \<noteq> [] \<and> (\<exists>b. transcript s' = transcript s @ [entry ''user'' b ''research'']))"
proof (cases "tms = []")
  case False
  then obtain blocks dropped seen where r: "render_research_blocks (w_sha w) (w_rep w) (w_loads w) tms (seen_keys s)
        (nat (searches s)) = Inr (blocks, dropped, seen)"
      and s': "s' = (if blocks = [] then s\<lparr>seen_keys := seen\<rparr>
        else append_research (join [nlc, nlc] blocks) (s\<lparr>seen_keys := seen\<rparr>))"
    using assms by (auto simp: note_research_def bindA_eq_Inr Let_def)
  show ?thesis using render_blocks_complete [OF r] False by (auto simp: s' append_research_def)
qed (use assms in \<open>simp add: note_research_def\<close>)

text \<open>
  C16: A turn only appends, and always answers. What the backend is sent for the thread afterwards is
  what it was sent before, then the question, then the turn's research as one block if a tool ran
  and found something new, then the answer, which is never empty; chunks seen stay seen. A turn
  that failed leaves its question, and the research it had, in the live session.
\<close>

theorem turn_appends:
  assumes "build_messages s [] = Inr ms" and "run_lore_turn w t1 t2 q rounds s = (s', r)"
  shows "\<exists>found. build_messages s' [] = Inr (ms @ map op_message (Question t1 q # map Research found
           @ (case r of Inl e \<Rightarrow> [] | Inr (a, m, searched) \<Rightarrow> [Answer t2 a])))
    \<and> length found \<le> 1 \<and> seen_keys s \<subseteq> seen_keys s'
    \<and> (case r of Inl e \<Rightarrow> True | Inr (a, m, searched) \<Rightarrow> a \<noteq> [] \<and> (found \<noteq> [] \<longrightarrow> searched))"
proof -
  define s1 where "s1 = append_question t1 q s"
  have same: "build_messages u [] = build_messages v []"
    if "transcript u = transcript v" "system_prompt u = system_prompt v" for u v
    using that by (simp add: build_messages_def)
  have q: "build_messages s1 [] = Inr (ms @ map op_message [Question t1 q])"
    using build_after [OF assms(1), of "[Question t1 q]"] by (simp add: s1_def)
  have s1: "seen_keys s1 = seen_keys s" by (simp add: s1_def append_question_def touch_def)
  show ?thesis
  proof (cases "turn_rounds w (clamp_rounds LORE_FOLLOWUP_MAX_ROUNDS rounds) s1")
    case (Inl e)
    then show ?thesis using assms(2) q s1 by (intro exI [of _ "[]"]) (auto simp: run_lore_turn_def s1_def [symmetric])
  next
    case (Inr x)
    then obtain direct tms m where t: "turn_rounds w (clamp_rounds LORE_FOLLOWUP_MAX_ROUNDS rounds) s1 = Inr (direct, tms, m)"
      by (cases x) auto
    show ?thesis
    proof (cases "note_research w tms s1")
      case (Inl e)
      then show ?thesis using assms(2) q s1 t
        by (intro exI [of _ "[]"]) (auto simp: run_lore_turn_def s1_def [symmetric])
    next
      case (Inr s2)
      note n = note_research_shape [OF Inr]
      obtain found where f: "length found \<le> 1" "found \<noteq> [] \<longrightarrow> tms \<noteq> []"
          and s2: "transcript s2 = transcript (fold session_step (map Research found) s1)"
        using n by (fastforce simp: append_research_def intro: that [of "[]"] that [of "[_]"])
      have "system_prompt (fold session_step (map Research xs) s1) = system_prompt s1" for xs
        by (induction xs arbitrary: s1) (simp_all add: append_research_def)
      then have b2: "build_messages s2 [] = Inr (ms @ map op_message (Question t1 q # map Research found))"
        using build_after [OF q, of "map Research found"] same [OF s2] n by simp
      show ?thesis
      proof (cases "give_answer w direct s2 m")
        case (Inl e)
        then show ?thesis using assms(2) b2 s1 n f t Inr
          by (intro exI [of _ found]) (auto simp: run_lore_turn_def s1_def [symmetric])
      next
        case g: (Inr y)
        obtain a m' where y: "y = (a, m')" by force
        define answer where "answer = (if a = [] then ''I wasn't able to produce an answer for that. Try rephrasing?'' else a)"
        have s': "s' = record_context (context_used m') (append_answer t2 answer s2)" "r = Inr (answer, m', tms \<noteq> [])"
          using assms(2) t Inr g y by (simp_all add: run_lore_turn_def s1_def [symmetric] answer_def [symmetric] Let_def)
        have "build_messages s' [] = build_messages (append_answer t2 answer s2) []"
          by (rule same) (simp_all add: s' record_context_def)
        also have "\<dots> = Inr (ms @ map op_message (Question t1 q # map Research found) @ [op_message (Answer t2 answer)])"
          using build_after [OF b2, of "[Answer t2 answer]"] by simp
        finally have "build_messages s' [] = Inr (ms @ map op_message (Question t1 q # map Research found @ [Answer t2 answer]))"
          by simp
        moreover have "answer \<noteq> []" by (simp add: answer_def)
        moreover have "seen_keys s' = seen_keys s2" by (simp add: s' record_context_def append_answer_def touch_def)
        ultimately show ?thesis using n f s1 by (intro exI [of _ found]) (simp add: s'(2))
      qed
    qed
  qed
qed

definition quiet :: world where
  "quiet = stubborn\<lparr>w_chat := (\<lambda>n ms. Inr (again\<lparr>r_content := JStr ''Bob.'', r_tool_calls := JNull\<rparr>))\<rparr>"

theorem turn_appends_witness:
  "\<exists>s' r. run_lore_turn quiet ''t'' ''t'' ''who?'' None (new_session ''t'' 0 ''p'' ''q'' ''n'') = (s', r)
     \<and> build_messages s' [] = Inr [JObj [(''role'', JStr ''system''), (''content'', JStr ''p'')],
          JObj [(''role'', JStr ''user''), (''content'', JStr ''who?'')],
          JObj [(''role'', JStr ''assistant''), (''content'', JStr ''Bob.'')]]"
proof -
  have b: "build_messages (new_session ''t'' 0 ''p'' ''q'' ''n'') []
      = Inr [JObj [(''role'', JStr ''system''), (''content'', JStr ''p'')]]"
    by (simp add: build_messages_def new_session_def)
  obtain s' r where r: "run_lore_turn quiet ''t'' ''t'' ''who?'' None (new_session ''t'' 0 ''p'' ''q'' ''n'') = (s', r)"
    by force
  have "case snd (run_lore_turn quiet ''t'' ''t'' ''who?'' None (new_session ''t'' 0 ''p'' ''q'' ''n'')) of
      Inr (a, m, searched) \<Rightarrow> a = ''Bob.'' \<and> \<not> searched | Inl e \<Rightarrow> False" by code_simp
  then obtain m where "r = Inr (''Bob.'', m, False)" using r by (auto split: sum.splits)
  with turn_appends [OF b r] r show ?thesis by auto
qed

text \<open>
  A nearly full thread searches no more. From the hard share of the window on, a turn neither asks
  the model for tool calls nor runs any: whatever the model and the tools would have answered, the
  turn comes out the same, and it reports that nothing was searched.
\<close>

theorem full_thread_answers_only:
  assumes "pct_of (w_limit w) s \<ge> AGENT_CTX_HARD_PCT"
  shows "run_lore_turn (w\<lparr>w_chat := c, w_handler := h\<rparr>) t1 t2 q rounds s = run_lore_turn w t1 t2 q rounds s
    \<and> (case snd (run_lore_turn w t1 t2 q rounds s) of Inl e \<Rightarrow> True | Inr (a, m, searched) \<Rightarrow> \<not> searched)"
proof -
  have p: "pct_of (w_limit w) (append_question t1 q s) = pct_of (w_limit w) s"
    by (simp add: pct_of_def append_question_def touch_def)
  then have t: "turn_rounds w n (append_question t1 q s) = Inr (None, [], metrics_init)"
    "turn_rounds (w\<lparr>w_chat := c, w_handler := h\<rparr>) n (append_question t1 q s) = Inr (None, [], metrics_init)" for n
    using assms by (simp_all add: turn_rounds_def)
  have "give_answer (w\<lparr>w_chat := c, w_handler := h\<rparr>) d u m = give_answer w d u m" for d u m
    by (cases d) (simp_all add: give_answer_def stream_turn_def cong: if_cong)
  then show ?thesis
    by (auto simp: run_lore_turn_def t note_research_def Let_def split: sum.split)
qed

theorem full_thread_answers_only_witness:
  "run_lore_turn (stubborn\<lparr>w_chat := (\<lambda>n ms. Inl ''down''), w_handler := (\<lambda>f. None)\<rparr>) ''t'' ''t'' ''who?'' None
       (record_context 90000 example_session)
     = run_lore_turn stubborn ''t'' ''t'' ''who?'' None (record_context 90000 example_session)"
proof -
  have "pct_of (w_limit stubborn) (record_context 90000 example_session) \<ge> AGENT_CTX_HARD_PCT"
    by (simp add: pct_of_def record_context_def stubborn_def AGENT_CTX_HARD_PCT_def)
  from full_thread_answers_only [OF this] show ?thesis by blast
qed

section \<open>From the opening run to the thread\<close>

text \<open>
  A thread opens knowing what its run found. The session's transcript is the question, the
  research if there was any, and the answer; every chunk the run's tools returned (the loop's own
  notes apart) stands in the research, at least through a chunk of the same key, and is on the
  list of chunks no later turn shows again.
\<close>

theorem thread_knows_the_run:
  assumes "seed_session_from_run w now pinned tid prompt q r = Inr s"
  shows "\<exists>found. transcript s = entry ''user'' q ''question'' # map (\<lambda>b. entry ''user'' b ''research'') found
          @ [entry ''assistant'' (run_answer r) ''answer'']
    \<and> length found \<le> 1 \<and> searches s = int (length found) \<and> turns s = 1
    \<and> seen_keys s = chunk_key (w_sha w) ` set (research_chunks (run_tools r))
    \<and> (\<forall>c\<in>set (research_chunks (run_tools r)). \<exists>c'\<in>set (research_chunks (run_tools r)).
         chunk_key (w_sha w) c' = chunk_key (w_sha w) c \<and> (\<exists>b\<in>set found. sublist c' b))"
proof -
  have none: "seen_keys (append_question now q (new_session now tid prompt q pinned)) = {}"
    by (simp add: append_question_def touch_def new_session_def)
  obtain blocks dropped seen n where r: "render_research_blocks (w_sha w) (w_rep w) (w_loads w) (run_tools r) {} 0
        = Inr (blocks, dropped, seen)"
      and s: "s = record_context n (append_answer now (run_answer r)
        (if blocks = [] then append_question now q (new_session now tid prompt q pinned)\<lparr>seen_keys := seen\<rparr>
         else append_research (join [nlc, nlc] blocks)
           (append_question now q (new_session now tid prompt q pinned)\<lparr>seen_keys := seen\<rparr>)))"
    using assms by (auto simp: seed_session_from_run_def bindE_eq_Inr Let_def none)
  note c = render_blocks_complete [OF r]
  define found where "found = (if blocks = [] then [] else [join [nlc, nlc] blocks])"
  have "\<exists>b\<in>set found. sublist c' b" if "b \<in> set blocks" "sublist c' b" for c' b
  proof -
    have "sublist b (join [nlc, nlc] blocks)" using that(1) by (rule sublist_join)
    then have "sublist c' (join [nlc, nlc] blocks)" using that(2) sublist_order.order_trans by blast
    then show ?thesis using that(1) by (auto simp: found_def)
  qed
  then have "\<forall>c\<in>set (research_chunks (run_tools r)). \<exists>c'\<in>set (research_chunks (run_tools r)).
      chunk_key (w_sha w) c' = chunk_key (w_sha w) c \<and> (\<exists>b\<in>set found. sublist c' b)"
    using c by (metis empty_iff)
  moreover have "transcript s = entry ''user'' q ''question'' # map (\<lambda>b. entry ''user'' b ''research'') found
          @ [entry ''assistant'' (run_answer r) ''answer'']"
    "searches s = int (length found)" "turns s = 1" "seen_keys s = seen"
    by (simp_all add: s found_def record_context_def append_answer_def append_research_def append_question_def
        touch_def new_session_def)
  moreover have "length found \<le> 1" by (simp add: found_def)
  ultimately show ?thesis using c by (intro exI [of _ found]) simp
qed

definition example_result :: run_result where
  "example_result = \<lparr>run_answer = ''Bob.'', run_metrics = None,
     run_tools = [(0, Call (JObj [(''id'', JStr ''c'')]) []), (1, Result (JStr ''find'') ''Bob did it'' ''c'')], run_good = True\<rparr>"

theorem thread_knows_the_run_witness:
  "\<exists>s. seed_session_from_run stubborn ''t'' ''n'' 0 ''p'' ''who?'' example_result = Inr s
     \<and> seen_keys s = {''Bob did it''} \<and> searches s = 1"
proof -
  let ?s = "seed_session_from_run stubborn ''t'' ''n'' 0 ''p'' ''who?'' example_result"
  have "case ?s of Inr s \<Rightarrow> searches s = 1 | Inl e \<Rightarrow> False" by code_simp
  then obtain s where s: "?s = Inr s" "searches s = 1" by (auto split: sum.splits)
  have c: "research_chunks (run_tools example_result) = [''Bob did it'']" by code_simp
  have "chunk_key (w_sha stubborn) ''Bob did it'' = ''Bob did it''" by code_simp
  with thread_knows_the_run [OF s(1)] s c show ?thesis by auto
qed

end
