(* ===== verification/Rag_Ingest.thy ===== *)
theory Rag_Ingest
  imports Prelude
begin

text \<open>
  \<open>rag/ingest.py\<close>: from the archive's JSONL lines to messages, conversation chunks, their text and
  metadata, and the collection they are upserted into.

  Parameters: \<open>loads\<close> is \<open>json.loads\<close>, \<open>dt\<close> is \<open>datetime.fromisoformat\<close> (after the \<open>Z\<close> is
  replaced), \<open>fmt\<close> is the header's \<open>strftime\<close>, \<open>sha\<close> the SHA-256 digest, \<open>rep\<close> is \<open>str()\<close> of a
  float, list or dict. A time is an instant in seconds and whether it carries an offset; Python
  refuses to compare one that does with one that does not. The embedding model and the HTTP client
  of the vector store are not part of the program: the collection is a dictionary from ids.
\<close>

section \<open>Messages\<close>

record moment =
  instant :: real
  aware :: bool

record rag_message =
  g_id :: string
  g_user :: string
  g_username :: json
  g_channel :: string
  g_channel_name :: json
  g_time :: moment
  g_content :: string
  g_caption :: "json option"

text \<open>\<open>s.replace("Z", "+00:00")\<close>.\<close>

definition utc_suffix :: "string \<Rightarrow> string" where
  "utc_suffix s = concat (map (\<lambda>c. if c = CHR ''Z'' then ''+00:00'' else [c]) s)"

text \<open>
  \<open>ValueError\<close> and \<open>TypeError\<close> count as no time stamp; a value without \<open>replace\<close> raises.
\<close>

definition parse_timestamp :: "(string \<Rightarrow> moment option) \<Rightarrow> json \<Rightarrow> moment option result" where
  "parse_timestamp dt v =
     (if \<not> truthy v then Inr None
      else case v of JStr s \<Rightarrow> Inr (dt (utc_suffix s)) | _ \<Rightarrow> Inl AttributeError)"

fun first_caption :: "json list \<Rightarrow> json option result" where
  "first_caption [] = Inr None"
| "first_caption (a # as) =
     bindE (as_obj a) (\<lambda>att.
       if dget att ''caption_status'' JNull = JStr ''done'' \<and> truthy (dget att ''caption'' JNull)
       then Inr (Some (dget att ''caption'' JNull)) else first_caption as)"

definition extract_caption :: "jobj \<Rightarrow> json option result" where
  "extract_caption r = bindE (as_items (dget r ''attachments'' (JList []))) first_caption"

text \<open>\<open>str.strip\<close> of the content raises on anything but a string.\<close>

definition as_str :: "json \<Rightarrow> string result" where
  "as_str v = (case v of JStr s \<Rightarrow> Inr s | _ \<Rightarrow> Inl AttributeError)"

definition record_to_message ::
  "(string \<Rightarrow> moment option) \<Rightarrow> (json \<Rightarrow> string) \<Rightarrow> json \<Rightarrow> rag_message option result" where
  "record_to_message dt rep v =
     bindE (as_obj v) (\<lambda>r.
     bindE (parse_timestamp dt (dget r ''timestamp'' (JStr []))) (\<lambda>ts.
       case ts of
         None \<Rightarrow> Inr None
       | Some t \<Rightarrow>
           let content = or_else (dget r ''content'' (JStr [])) (JStr []) in
           bindE (extract_caption r) (\<lambda>caption.
           bindE (as_str content) (\<lambda>text.
             if strip text = [] \<and> caption = None then Inr None
             else Inr (Some \<lparr>g_id = py_str rep (dget r ''message_id'' (JStr [])),
                    g_user = py_str rep (dget r ''user_id'' (JStr [])),
                    g_username = dget r ''username'' (JStr []),
                    g_channel = py_str rep (dget r ''channel_id'' (JStr [])),
                    g_channel_name = dget r ''channel_name'' (JStr []),
                    g_time = t, g_content = text, g_caption = caption\<rparr>)))))"

section \<open>Loading\<close>

text \<open>\<open>a < b\<close> on datetimes.\<close>

definition before :: "moment \<Rightarrow> moment \<Rightarrow> bool result" where
  "before a b = (if aware a = aware b then Inr (instant a < instant b) else Inl TypeError)"

text \<open>One line: nothing for a blank, unreadable, empty or too old one.\<close>

definition load_line ::
  "(string \<Rightarrow> json result) \<Rightarrow> (string \<Rightarrow> moment option) \<Rightarrow> (json \<Rightarrow> string) \<Rightarrow> moment option \<Rightarrow> string \<Rightarrow>
     rag_message list result" where
  "load_line loads dt rep since line =
     (if strip line = [] then Inr []
      else case loads (strip line) of
        Inl e \<Rightarrow> Inr []
      | Inr v \<Rightarrow>
          bindE (record_to_message dt rep v) (\<lambda>msg.
            case msg of
              None \<Rightarrow> Inr []
            | Some g \<Rightarrow>
                (case since of
                   None \<Rightarrow> Inr [g]
                 | Some s \<Rightarrow> bindE (before (g_time g) s) (\<lambda>old. Inr (if old then [] else [g])))))"

text \<open>
  The files of the directory with the lines that could be read; an \<open>IOError\<close> in the middle ends
  that file only, so the lines before it count.
\<close>

definition load_file ::
  "(string \<Rightarrow> json result) \<Rightarrow> (string \<Rightarrow> moment option) \<Rightarrow> (json \<Rightarrow> string) \<Rightarrow> moment option \<Rightarrow> string list \<Rightarrow>
     rag_message list result" where
  "load_file loads dt rep since lines = bindE (mapE (load_line loads dt rep since) lines) (\<lambda>ms. Inr (concat ms))"

text \<open>
  The sort compares channel and time. Two messages of one channel of which one carries an offset
  and one does not cannot be ordered: some comparison of the sort meets such a pair.
\<close>

definition comparable :: "rag_message list \<Rightarrow> bool" where
  "comparable ms \<longleftrightarrow>
     list_all (\<lambda>a. list_all (\<lambda>b. g_channel a = g_channel b \<longrightarrow> aware (g_time a) = aware (g_time b)) ms) ms"

definition sort_messages :: "rag_message list \<Rightarrow> rag_message list result" where
  "sort_messages ms =
     (if comparable ms then Inr (sort_key (\<lambda>g. (g_channel g, instant (g_time g))) ms) else Inl TypeError)"

definition load_archive ::
  "(string \<Rightarrow> json result) \<Rightarrow> (string \<Rightarrow> moment option) \<Rightarrow> (json \<Rightarrow> string) \<Rightarrow> (string \<times> string list) list option \<Rightarrow>
     string option \<Rightarrow> rag_message list result" where
  "load_archive loads dt rep dir since =
     bindE (parse_timestamp dt (case since of None \<Rightarrow> JNull | Some s \<Rightarrow> JStr s)) (\<lambda>since_dt.
       case dir of
         None \<Rightarrow> Inr []
       | Some files \<Rightarrow>
           bindE (mapE (\<lambda>(name, lines). load_file loads dt rep since_dt lines)
                   (filter (\<lambda>(name, lines). ends_with name ''.jsonl'') (sort_key fst files))) (\<lambda>ms.
             sort_messages (concat ms)))"

section \<open>Chunks\<close>

type_synonym rag_chunk = "rag_message list"

definition DEFAULT_GAP_MINUTES :: real where "DEFAULT_GAP_MINUTES = 60"
definition DEFAULT_MAX_TOKENS :: nat where "DEFAULT_MAX_TOKENS = 512"

definition message_line :: "(json \<Rightarrow> string) \<Rightarrow> rag_message \<Rightarrow> string" where
  "message_line rep g =
     py_str rep (g_username g) @ '': '' @
       (case g_caption g of
          None \<Rightarrow> g_content g
        | Some c \<Rightarrow> g_content g @ '' [image: '' @ py_str rep c @ '']'')"

definition header_line :: "(json \<Rightarrow> string) \<Rightarrow> (moment \<Rightarrow> string) \<Rightarrow> rag_message \<Rightarrow> string" where
  "header_line rep fmt g = ''[#'' @ py_str rep (g_channel_name g) @ '' | '' @ fmt (g_time g) @ '']''"

definition format_chunk_text :: "(json \<Rightarrow> string) \<Rightarrow> (moment \<Rightarrow> string) \<Rightarrow> rag_chunk \<Rightarrow> string" where
  "format_chunk_text rep fmt c =
     (if c = [] then [] else join [nlc] (header_line rep fmt (hd c) # map (message_line rep) c))"

definition estimate_tokens :: "(json \<Rightarrow> string) \<Rightarrow> (moment \<Rightarrow> string) \<Rightarrow> rag_chunk \<Rightarrow> nat" where
  "estimate_tokens rep fmt c = length (format_chunk_text rep fmt c) div 4"

definition breaks :: "real \<Rightarrow> rag_chunk \<Rightarrow> rag_message \<Rightarrow> bool" where
  "breaks gap cur g \<longleftrightarrow>
     cur \<noteq> [] \<and> (g_channel (hd cur) \<noteq> g_channel g \<or> instant (g_time g) - instant (g_time (last cur)) > gap)"

fun group_by_gap :: "real \<Rightarrow> rag_chunk \<Rightarrow> rag_message list \<Rightarrow> rag_chunk list" where
  "group_by_gap gap cur [] = [cur]"
| "group_by_gap gap cur (g # gs) =
     (if breaks gap cur g then cur # group_by_gap gap [g] gs else group_by_gap gap (cur @ [g]) gs)"

fun split_chunk :: "(rag_chunk \<Rightarrow> nat) \<Rightarrow> nat \<Rightarrow> rag_chunk \<Rightarrow> rag_message list \<Rightarrow> rag_chunk list" where
  "split_chunk tokens m cur [] = (if cur = [] then [] else [cur])"
| "split_chunk tokens m cur (g # gs) =
     (if tokens (cur @ [g]) > m \<and> cur \<noteq> [] then cur # split_chunk tokens m [g] gs
      else split_chunk tokens m (cur @ [g]) gs)"

definition split_oversized :: "(rag_chunk \<Rightarrow> nat) \<Rightarrow> nat \<Rightarrow> rag_chunk \<Rightarrow> rag_chunk list" where
  "split_oversized tokens m c = (if tokens c \<le> m then [c] else split_chunk tokens m [] c)"

text \<open>\<open>gap\<close> in seconds.\<close>

definition chunk_by_conversation :: "(rag_chunk \<Rightarrow> nat) \<Rightarrow> real \<Rightarrow> nat \<Rightarrow> rag_message list \<Rightarrow> rag_chunk list" where
  "chunk_by_conversation tokens gap m ms =
     (if ms = [] then []
      else filter (\<lambda>c. c \<noteq> []) (concat (map (split_oversized tokens m) (group_by_gap gap [] ms))))"

section \<open>The collection\<close>

definition chunk_id :: "(string \<Rightarrow> string) \<Rightarrow> rag_chunk \<Rightarrow> string" where
  "chunk_id sha c = sha (case c of [] \<Rightarrow> [] | g # gs \<Rightarrow> g_channel g @ '':'' @ g_id g)"

text \<open>\<open>list(dict.fromkeys(...))\<close>; joining needs strings.\<close>

definition authors :: "rag_chunk \<Rightarrow> json list" where
  "authors c = rev (remdups (rev (map g_username c)))"

definition str_of :: "json \<Rightarrow> string result" where
  "str_of v = (case v of JStr s \<Rightarrow> Inr s | _ \<Rightarrow> Inl TypeError)"

definition message_ids :: "rag_chunk \<Rightarrow> string list" where
  "message_ids c = map g_id c"

text \<open>\<open>int(dt.timestamp())\<close> truncates towards zero.\<close>

definition epoch :: "moment \<Rightarrow> int" where
  "epoch t = (if instant t < 0 then - \<lfloor>- instant t\<rfloor> else \<lfloor>instant t\<rfloor>)"

definition build_metadata :: "(string \<Rightarrow> string) \<Rightarrow> rag_chunk \<Rightarrow> jobj result" where
  "build_metadata sha c =
     bindE (mapE str_of (authors c)) (\<lambda>names.
       Inr [(''chunk_id'', JStr (chunk_id sha c)), (''channel_id'', JStr (g_channel (hd c))),
            (''channel_name'', g_channel_name (hd c)),
            (''timestamp_start'', JInt (epoch (g_time (hd c)))), (''timestamp_end'', JInt (epoch (g_time (last c)))),
            (''authors'', JStr (join '','' names)), (''message_count'', JStr (str_nat (length c))),
            (''message_ids'', JStr (join '','' (message_ids c)))])"

type_synonym collection = "(string \<times> (string \<times> jobj)) list"

text \<open>The batches go in one after the other, so the upserts are those of all chunks in order.\<close>

definition CHROMA_MAX_BATCH_SIZE :: nat where "CHROMA_MAX_BATCH_SIZE = 5000"

definition upsert :: "(string \<times> string \<times> jobj) list \<Rightarrow> collection \<Rightarrow> collection" where
  "upsert es col = fold (\<lambda>(k, d, m). dset k (d, m)) es col"

function upsert_batches :: "nat \<Rightarrow> (string \<times> string \<times> jobj) list \<Rightarrow> collection \<Rightarrow> collection" where
  "upsert_batches n es col =
     (if es = [] \<or> n = 0 then col else upsert_batches n (drop n es) (upsert (take n es) col))"
  by pat_completeness auto
termination by (relation "measure (\<lambda>(n, es, col). length es)") auto

declare upsert_batches.simps [simp del]

text \<open>What one run reads and knows, and its three steps.\<close>

record ingest_world =
  i_loads :: "string \<Rightarrow> json result"
  i_dt :: "string \<Rightarrow> moment option"
  i_rep :: "json \<Rightarrow> string"
  i_fmt :: "moment \<Rightarrow> string"
  i_sha :: "string \<Rightarrow> string"

definition entry_of :: "ingest_world \<Rightarrow> rag_chunk \<Rightarrow> (string \<times> string \<times> jobj) result" where
  "entry_of w c =
     bindE (build_metadata (i_sha w) c) (\<lambda>m. Inr (chunk_id (i_sha w) c, format_chunk_text (i_rep w) (i_fmt w) c, m))"

definition embed_and_upsert :: "ingest_world \<Rightarrow> rag_chunk list \<Rightarrow> collection \<Rightarrow> (collection \<times> nat) result" where
  "embed_and_upsert w cs col =
     (if cs = [] then Inr (col, 0)
      else bindE (mapE (entry_of w) cs) (\<lambda>es. Inr (upsert_batches CHROMA_MAX_BATCH_SIZE es col, length cs)))"

definition run_ingest ::
  "ingest_world \<Rightarrow> (string \<times> string list) list option \<Rightarrow> string option \<Rightarrow> real \<Rightarrow> nat \<Rightarrow> collection \<Rightarrow>
     (collection \<times> nat \<times> nat \<times> nat) result" where
  "run_ingest w dir since gap_minutes m col =
     bindE (load_archive (i_loads w) (i_dt w) (i_rep w) dir since) (\<lambda>ms.
       if ms = [] then Inr (col, 0, 0, 0)
       else let cs = chunk_by_conversation (estimate_tokens (i_rep w) (i_fmt w)) (gap_minutes * 60) m ms in
            if cs = [] then Inr (col, length ms, 0, 0)
            else bindE (embed_and_upsert w cs col) (\<lambda>(col', n). Inr (col', length ms, length cs, n)))"

section \<open>What chunking does\<close>

text \<open>One channel throughout, and no silence longer than the gap.\<close>

fun flows :: "real \<Rightarrow> rag_chunk \<Rightarrow> bool" where
  "flows gap (a # b # gs) \<longleftrightarrow>
     g_channel a = g_channel b \<and> instant (g_time b) - instant (g_time a) \<le> gap \<and> flows gap (b # gs)"
| "flows gap gs = True"

definition chunk_ok :: "(rag_chunk \<Rightarrow> nat) \<Rightarrow> real \<Rightarrow> nat \<Rightarrow> rag_chunk \<Rightarrow> bool" where
  "chunk_ok tokens gap m c \<longleftrightarrow> c \<noteq> [] \<and> flows gap c \<and> (tokens c \<le> m \<or> length c = 1)"

text \<open>Why one chunk ends where the next begins.\<close>

definition boundary :: "(rag_chunk \<Rightarrow> nat) \<Rightarrow> real \<Rightarrow> nat \<Rightarrow> rag_chunk \<Rightarrow> rag_chunk \<Rightarrow> bool" where
  "boundary tokens gap m c d \<longleftrightarrow> breaks gap c (hd d) \<or> tokens (c @ [hd d]) > m"

lemma flows_append: "flows gap (xs @ [a]) \<Longrightarrow> g_channel a = g_channel g \<Longrightarrow>
    instant (g_time g) - instant (g_time a) \<le> gap \<Longrightarrow> flows gap (xs @ [a, g])"
  by (induction gap xs rule: flows.induct) auto

lemma flows_snoc:
  assumes "flows gap c" "c = [] \<or> g_channel (last c) = g_channel g \<and> instant (g_time g) - instant (g_time (last c)) \<le> gap"
  shows "flows gap (c @ [g])"
  using assms by (cases c rule: rev_cases) (auto intro: flows_append)

lemma flows_channel: "flows gap c \<Longrightarrow> a \<in> set c \<Longrightarrow> g_channel a = g_channel (hd c)"
proof (induction c arbitrary: a)
  case (Cons x c)
  show ?case
  proof (cases c)
    case (Cons y gs)
    then have "flows gap c" "g_channel x = g_channel (hd c)" using Cons.prems(1) by simp_all
    then show ?thesis using Cons.IH [of a] Cons.prems(2) by (metis list.sel(1) set_ConsD)
  qed (use Cons.prems(2) in simp)
qed simp

lemma flows_no_break: "flows gap c \<Longrightarrow> \<not> breaks gap c g \<Longrightarrow> flows gap (c @ [g])"
  by (rule flows_snoc) (auto simp: breaks_def flows_channel [of gap c "last c"])

lemma flows_split: "flows gap (xs @ ys) \<Longrightarrow> flows gap xs \<and> flows gap ys"
proof (induction xs)
  case (Cons x xs)
  have "flows gap (xs @ ys)" using Cons.prems by (cases "xs @ ys") auto
  then have "flows gap xs" "flows gap ys" using Cons.IH by auto
  then show ?case using Cons.prems by (cases xs) auto
qed simp

lemma group_by_gap_spec:
  "flows gap cur \<Longrightarrow> concat (group_by_gap gap cur gs) = cur @ gs \<and> list_all (flows gap) (group_by_gap gap cur gs)"
proof (induction gs arbitrary: cur)
  case (Cons g gs)
  show ?case
  proof (cases "breaks gap cur g")
    case True
    then show ?thesis using Cons.IH [of "[g]"] Cons.prems by simp
  next
    case False
    then show ?thesis using Cons.IH [of "cur @ [g]"] Cons.prems flows_no_break by simp
  qed
qed simp

lemma group_by_gap_hd: "\<exists>t rest. group_by_gap gap (g # cur) gs = (g # t) # rest"
proof (induction gs arbitrary: cur)
  case (Cons h gs)
  then show ?case using Cons.IH [of "cur @ [h]"] by auto
qed simp

lemma group_by_gap_breaks:
  "cur \<noteq> [] \<Longrightarrow> [] \<notin> set (group_by_gap gap cur gs) \<and> successively (\<lambda>c d. breaks gap c (hd d)) (group_by_gap gap cur gs)"
proof (induction gs arbitrary: cur)
  case (Cons g gs)
  obtain t rest where "group_by_gap gap [g] gs = (g # t) # rest" using group_by_gap_hd by metis
  then show ?case using Cons.IH [of "[g]"] Cons.IH [of "cur @ [g]"] Cons.prems by auto
qed simp

lemma split_chunk_spec:
  "flows gap (cur @ gs) \<Longrightarrow> cur = [] \<or> tokens cur \<le> m \<or> length cur = 1 \<Longrightarrow>
     concat (split_chunk tokens m cur gs) = cur @ gs \<and> list_all (chunk_ok tokens gap m) (split_chunk tokens m cur gs)"
proof (induction gs arbitrary: cur)
  case Nil
  then show ?case by (auto simp: chunk_ok_def)
next
  case (Cons g gs)
  show ?case
  proof (cases "tokens (cur @ [g]) > m \<and> cur \<noteq> []")
    case True
    have "flows gap cur" "flows gap ([g] @ gs)" using flows_split [of gap cur "g # gs"] Cons.prems(1) by auto
    then show ?thesis using True Cons.IH [of "[g]"] Cons.prems(2) by (simp add: chunk_ok_def)
  next
    case False
    then have "split_chunk tokens m cur (g # gs) = split_chunk tokens m (cur @ [g]) gs" by auto
    then show ?thesis using False Cons.IH [of "cur @ [g]"] Cons.prems by (auto simp: not_less)
  qed
qed

lemma split_chunk_hd: "\<exists>t rest. split_chunk tokens m (g # cur) gs = (g # t) # rest"
proof (induction gs arbitrary: cur)
  case (Cons h gs)
  then show ?case using Cons.IH [of "cur @ [h]"] by auto
qed simp

lemma split_chunk_boundary:
  "cur \<noteq> [] \<Longrightarrow> successively (\<lambda>c d. tokens (c @ [hd d]) > m) (split_chunk tokens m cur gs)"
proof (induction gs arbitrary: cur)
  case (Cons g gs)
  obtain t rest where "split_chunk tokens m [g] gs = (g # t) # rest" using split_chunk_hd by metis
  then show ?case using Cons.IH [of "[g]"] Cons.IH [of "cur @ [g]"] Cons.prems by auto
qed simp

lemma split_oversized_spec:
  assumes "flows gap c" "c \<noteq> []"
  shows "concat (split_oversized tokens m c) = c" "list_all (chunk_ok tokens gap m) (split_oversized tokens m c)"
    "successively (\<lambda>c d. tokens (c @ [hd d]) > m) (split_oversized tokens m c)"
    "split_oversized tokens m c \<noteq> []" "hd (hd (split_oversized tokens m c)) = hd c"
proof -
  obtain g gs where c: "c = g # gs" using assms(2) by (cases c) auto
  have "split_chunk tokens m [] c = split_chunk tokens m [g] gs" by (simp add: c)
  moreover obtain t rest where "split_chunk tokens m [g] gs = (g # t) # rest" using split_chunk_hd by metis
  ultimately show "concat (split_oversized tokens m c) = c" "list_all (chunk_ok tokens gap m) (split_oversized tokens m c)"
      "successively (\<lambda>c d. tokens (c @ [hd d]) > m) (split_oversized tokens m c)"
      "split_oversized tokens m c \<noteq> []" "hd (hd (split_oversized tokens m c)) = hd c"
    using split_chunk_spec [of gap "[]" c tokens m] split_chunk_boundary [where cur = "[g]" and gs = gs and tokens = tokens and m = m] assms
    by (auto simp: split_oversized_def chunk_ok_def c)
qed

text \<open>Joining the splits of several groups keeps every boundary justified.\<close>

lemma concat_boundaries:
  assumes "\<forall>c\<in>set cs. c \<noteq> [] \<and> flows gap c" and "successively (\<lambda>c d. breaks gap c (hd d)) cs"
  shows "successively (boundary tokens gap m) (concat (map (split_oversized tokens m) cs))"
  using assms
proof (induction cs)
  case (Cons c cs)
  let ?s = "split_oversized tokens m"
  have c: "flows gap c" "c \<noteq> []" using Cons.prems(1) by auto
  note sp = split_oversized_spec [OF c, where tokens = tokens and m = m]
  have one: "successively (boundary tokens gap m) (?s c)"
    by (rule successively_mono [OF sp(3)]) (simp add: boundary_def)
  have rest: "successively (boundary tokens gap m) (concat (map ?s cs))"
    using Cons by (cases cs) auto
  have link: "boundary tokens gap m (last (?s c)) (hd (concat (map ?s cs)))" if ne: "cs \<noteq> []"
  proof -
    obtain d ds where cs: "cs = d # ds" using ne by (cases cs) auto
    have d: "flows gap d" "d \<noteq> []" using Cons.prems(1) cs by auto
    note sd = split_oversized_spec [OF d, where tokens = tokens and m = m]
    have hd: "hd (hd (concat (map ?s cs))) = hd d" using sd(4,5) by (simp add: cs)
    have l: "last (?s c) \<in> set (?s c)" using sp(4) by simp
    then have lne: "last (?s c) \<noteq> []" using sp(2) by (auto simp: list_all_iff chunk_ok_def)
    have "c = concat (butlast (?s c)) @ last (?s c)"
      using sp(1,4) by (metis append_butlast_last_id concat.simps concat_append append_Nil2)
    then have "last c = last (last (?s c))" "hd (last (?s c)) \<in> set c"
      using lne by (metis last_append, metis Un_iff hd_in_set set_append)
    moreover have "breaks gap c (hd d)" using Cons.prems(2) by (simp add: cs)
    ultimately have "breaks gap (last (?s c)) (hd d)"
      using lne flows_channel [OF c(1), of "hd (last (?s c))"] by (simp add: breaks_def)
    then show ?thesis by (simp add: boundary_def hd)
  qed
  show ?case using one rest link sp(4) by (cases "cs = []") (auto simp: successively_append_iff)
qed simp

lemma chunking_facts:
  "concat (chunk_by_conversation tokens gap m ms) = ms
   \<and> list_all (chunk_ok tokens gap m) (chunk_by_conversation tokens gap m ms)
   \<and> successively (boundary tokens gap m) (chunk_by_conversation tokens gap m ms)"
proof (cases ms)
  case (Cons g gs)
  let ?groups = "group_by_gap gap [g] gs"
  have eq: "group_by_gap gap [] ms = ?groups" by (simp add: Cons breaks_def)
  have spec: "concat ?groups = ms" "list_all (flows gap) ?groups"
    using group_by_gap_spec [of gap "[g]" gs] by (simp_all add: Cons)
  have ok: "\<forall>c\<in>set ?groups. c \<noteq> [] \<and> flows gap c"
    and br: "successively (\<lambda>c d. breaks gap c (hd d)) ?groups"
    using spec(2) group_by_gap_breaks [of "[g]" gap gs] by (auto simp: list_all_iff)
  let ?cs = "concat (map (split_oversized tokens m) ?groups)"
  have all: "list_all (chunk_ok tokens gap m) ?cs"
    using ok split_oversized_spec(2) by (fastforce simp: list_all_iff)
  then have "filter (\<lambda>c. c \<noteq> []) ?cs = ?cs" by (auto simp: filter_id_conv list_all_iff chunk_ok_def)
  then have res: "chunk_by_conversation tokens gap m ms = ?cs"
    by (simp only: chunk_by_conversation_def eq) (simp add: Cons)
  have "concat (concat (map (split_oversized tokens m) cs)) = concat cs" if "\<forall>c\<in>set cs. c \<noteq> [] \<and> flows gap c" for cs
    using that by (induction cs) (auto simp: split_oversized_spec(1))
  then show ?thesis using all spec(1) ok concat_boundaries [OF ok br] by (simp add: res)
qed (simp add: chunk_by_conversation_def)

text \<open>
  C17: Chunking is lossless and no finer than it must be. The chunks in order are exactly the messages;
  each holds one channel, has no silence longer than the gap and is within the token budget unless
  it is a single message; and wherever one ends and the next begins, the channel changed, the
  silence was too long, or the next message would have gone over the budget.
\<close>

theorem chunking_exact:
  "concat (chunk_by_conversation tokens gap m ms) = ms
   \<and> list_all (chunk_ok tokens gap m) (chunk_by_conversation tokens gap m ms)
   \<and> successively (boundary tokens gap m) (chunk_by_conversation tokens gap m ms)"
  by (rule chunking_facts)

section \<open>Running the ingest again\<close>

text \<open>What the id of a chunk is made of.\<close>

definition message_key :: "rag_message \<Rightarrow> string" where
  "message_key g = g_channel g @ '':'' @ g_id g"

lemma upsert_batches_all: "n > 0 \<Longrightarrow> upsert_batches n es col = upsert es col"
proof (induction n es col rule: upsert_batches.induct)
  case (1 n es col)
  show ?case
  proof (cases "es = []")
    case True
    then show ?thesis by (simp add: upsert_batches.simps upsert_def)
  next
    case False
    have "upsert es col = upsert (drop n es) (upsert (take n es) col)"
      by (simp add: upsert_def flip: fold_append [THEN fun_cong, unfolded comp_def])
    then show ?thesis using 1 False by (simp add: upsert_batches.simps [of n es])
  qed
qed

lemma dset_same: "map_of d k = Some v \<Longrightarrow> dset k v d = d"
  by (induction k v d rule: dset.induct) (auto split: if_splits)

lemma upsert_map_of:
  "distinct (map fst es) \<Longrightarrow> map_of (upsert es col) = map_of col ++ map_of es"
proof (induction es arbitrary: col)
  case (Cons e es)
  obtain k d m where e: "e = (k, d, m)" by (cases e) auto
  have "map_of (upsert (e # es) col) = (map_of col)(k \<mapsto> (d, m)) ++ map_of es"
    using Cons by (simp add: upsert_def e)
  moreover have "map_of es k = None" using Cons.prems by (auto simp: e map_of_eq_None_iff)
  ultimately show ?case by (auto simp: e fun_eq_iff map_add_def split: option.split)
qed (simp add: upsert_def)

lemma upsert_present: "\<forall>(k, x)\<in>set es. map_of col k = Some x \<Longrightarrow> upsert es col = col"
  by (induction es) (auto simp: upsert_def dset_same)

lemma upsert_again: "distinct (map fst es) \<Longrightarrow> upsert es (upsert es col) = upsert es col"
proof (rule upsert_present)
  assume d: "distinct (map fst es)"
  show "\<forall>(k, x)\<in>set es. map_of (upsert es col) k = Some x"
    using d by (auto simp: upsert_map_of map_add_Some_iff)
qed

lemma entries_ids: "mapE (entry_of w) cs = Inr es \<Longrightarrow> map fst es = map (chunk_id (i_sha w)) cs"
  by (induction cs arbitrary: es) (auto simp: bindE_eq_Inr entry_of_def)

lemma entries_texts: "mapE (entry_of w) cs = Inr es \<Longrightarrow>
    map (\<lambda>e. fst (snd e)) es = map (format_chunk_text (i_rep w) (i_fmt w)) cs"
  by (induction cs arbitrary: es) (auto simp: bindE_eq_Inr entry_of_def)

lemma distinct_heads: "\<forall>c\<in>set cs. c \<noteq> [] \<Longrightarrow> distinct (map f (concat cs)) \<Longrightarrow> distinct (map (\<lambda>c. f (hd c)) cs)"
proof (induction cs)
  case (Cons c cs)
  obtain g gs where c: "c = g # gs" using Cons.prems(1) by (cases c) auto
  have d: "distinct (map f (concat cs))" and new: "f g \<notin> f ` set (concat cs)"
    using Cons.prems(2) by (simp_all add: c)
  have "f g \<noteq> f (hd d)" if "d \<in> set cs" for d
  proof -
    have "hd d \<in> set d" using Cons.prems(1) that by simp
    then have "hd d \<in> set (concat cs)" unfolding set_concat using that by blast
    then show ?thesis using new by (metis image_eqI)
  qed
  moreover have "distinct (map (\<lambda>c. f (hd c)) cs)" using Cons.IH [OF _ d] Cons.prems(1) by simp
  ultimately show ?case by (auto simp: c)
qed simp

lemma chunk_id_key: "c \<noteq> [] \<Longrightarrow> chunk_id sha c = sha (message_key (hd c))"
  by (cases c) (simp_all add: chunk_id_def message_key_def)

lemma chunk_ids_distinct:
  assumes "distinct (map message_key ms)" "inj_on sha (message_key ` set ms)"
  shows "distinct (map (chunk_id sha) (chunk_by_conversation tokens gap m ms))"
proof -
  let ?cs = "chunk_by_conversation tokens gap m ms"
  have ne: "\<forall>c\<in>set ?cs. c \<noteq> []" and cc: "concat ?cs = ms"
    using chunking_facts [of tokens gap m ms] by (auto simp: list_all_iff chunk_ok_def)
  have "distinct (map (\<lambda>c. message_key (hd c)) ?cs)"
    by (rule distinct_heads [OF ne]) (simp add: cc assms(1))
  moreover have "set (map (\<lambda>c. message_key (hd c)) ?cs) \<subseteq> message_key ` set ms"
  proof -
    have "hd c \<in> set (concat ?cs)" if "c \<in> set ?cs" for c using ne that by (auto intro: bexI [of _ c])
    then show ?thesis unfolding cc by auto
  qed
  ultimately have "distinct (map sha (map (\<lambda>c. message_key (hd c)) ?cs))"
    using assms(2) by (metis distinct_map inj_on_subset)
  moreover have "map sha (map (\<lambda>c. message_key (hd c)) ?cs) = map (chunk_id sha) ?cs"
    using ne by (simp add: chunk_id_key)
  ultimately show ?thesis by metis
qed

lemma line_in_text: "g \<in> set c \<Longrightarrow> sublist (message_line rep g) (format_chunk_text rep fmt c)"
proof -
  assume g: "g \<in> set c"
  then have "sublist (message_line rep g) (join [nlc] (header_line rep fmt (hd c) # map (message_line rep) c))"
    by (intro sublist_join) simp
  then show ?thesis using g by (auto simp: format_chunk_text_def)
qed

text \<open>The chunk a loaded message is in, and its entry after a run.\<close>

lemma ingested_chunk:
  assumes ms: "load_archive (i_loads w) (i_dt w) (i_rep w) dir since = Inr ms"
    and keys: "distinct (map message_key ms)" "inj_on (i_sha w) (message_key ` set ms)"
    and run: "run_ingest w dir since gap m col = Inr (col', counts)" and g: "g \<in> set ms"
  obtains c meta where "c \<in> set (chunk_by_conversation (estimate_tokens (i_rep w) (i_fmt w)) (gap * 60) m ms)" "g \<in> set c"
    "build_metadata (i_sha w) c = Inr meta" "map_of col' (chunk_id (i_sha w) c) = Some (format_chunk_text (i_rep w) (i_fmt w) c, meta)"
proof -
  define cs where "cs = chunk_by_conversation (estimate_tokens (i_rep w) (i_fmt w)) (gap * 60) m ms"
  have cc: "concat cs = ms" using chunking_facts [of "estimate_tokens (i_rep w) (i_fmt w)" "gap * 60" m ms] by (simp add: cs_def)
  have ne: "ms \<noteq> []" "cs \<noteq> []" using cc g by auto
  obtain es where es: "mapE (entry_of w) cs = Inr es" and col': "col' = upsert es col"
    using run ne by (auto simp: run_ingest_def ms embed_and_upsert_def Let_def bindE_eq_Inr upsert_batches_all
        CHROMA_MAX_BATCH_SIZE_def simp flip: cs_def)
  have d: "distinct (map fst es)" using chunk_ids_distinct [OF keys] by (simp add: entries_ids [OF es] cs_def)
  have "g \<in> set (concat cs)" using g by (simp only: cc)
  then obtain c where c: "c \<in> set cs" "g \<in> set c" by auto
  obtain e where e: "entry_of w c = Inr e" "e \<in> set es"
    using c(1) es by (induction cs arbitrary: es) (auto simp: bindE_eq_Inr)
  obtain meta where meta: "build_metadata (i_sha w) c = Inr meta"
      "e = (chunk_id (i_sha w) c, format_chunk_text (i_rep w) (i_fmt w) c, meta)"
    using e(1) by (auto simp: entry_of_def bindE_eq_Inr)
  have "map_of es (chunk_id (i_sha w) c) = Some (format_chunk_text (i_rep w) (i_fmt w) c, meta)"
    using d e(2) meta(2) by simp
  then have "map_of col' (chunk_id (i_sha w) c) = Some (format_chunk_text (i_rep w) (i_fmt w) c, meta)"
    unfolding col' upsert_map_of [OF d] by simp
  then show thesis using that c meta(1) by (simp add: cs_def)
qed

text \<open>
  C18: Ingesting is complete and can be repeated. When no two loaded messages have the same channel and
  id, every message that was loaded stands in a document of the collection, the documents of other
  ids are untouched, and a second run over the same archive changes nothing.
\<close>

theorem ingest_repeatable:
  assumes ms: "load_archive (i_loads w) (i_dt w) (i_rep w) dir since = Inr ms"
    and keys: "distinct (map message_key ms)" "inj_on (i_sha w) (message_key ` set ms)"
    and run: "run_ingest w dir since gap m col = Inr (col', counts)"
  shows "run_ingest w dir since gap m col' = Inr (col', counts)
    \<and> (\<forall>g\<in>set ms. \<exists>k d meta. map_of col' k = Some (d, meta) \<and> sublist (message_line (i_rep w) g) d)
    \<and> (\<forall>k. k \<notin> i_sha w ` message_key ` set ms \<longrightarrow> map_of col' k = map_of col k)"
proof (cases "ms = []")
  case True
  then show ?thesis using ms run by (simp add: run_ingest_def)
next
  case False
  define cs where "cs = chunk_by_conversation (estimate_tokens (i_rep w) (i_fmt w)) (gap * 60) m ms"
  have cc: "concat cs = ms" and ne: "\<forall>c\<in>set cs. c \<noteq> []"
    using chunking_facts [of "estimate_tokens (i_rep w) (i_fmt w)" "gap * 60" m ms]
    by (auto simp: cs_def list_all_iff chunk_ok_def)
  have cs: "cs \<noteq> []" using cc False by auto
  obtain es where es: "mapE (entry_of w) cs = Inr es" and col': "col' = upsert es col"
    and counts: "counts = (length ms, length cs, length cs)"
    using run False cs
    by (auto simp: run_ingest_def ms embed_and_upsert_def Let_def bindE_eq_Inr upsert_batches_all
        CHROMA_MAX_BATCH_SIZE_def simp flip: cs_def)
  have d: "distinct (map fst es)"
    using chunk_ids_distinct [OF keys] by (simp add: entries_ids [OF es] cs_def)
  have again: "run_ingest w dir since gap m col' = Inr (col', counts)"
    using False cs es counts d
    by (simp add: run_ingest_def ms embed_and_upsert_def Let_def upsert_batches_all CHROMA_MAX_BATCH_SIZE_def
        upsert_again col' flip: cs_def)
  have found: "\<exists>k dd meta. map_of col' k = Some (dd, meta) \<and> sublist (message_line (i_rep w) g) dd" if "g \<in> set ms" for g
    using ingested_chunk [OF ms keys run that] line_in_text by metis
  have other: "map_of col' k = map_of col k" if k: "k \<notin> i_sha w ` message_key ` set ms" for k
  proof -
    have "fst ` set es = chunk_id (i_sha w) ` set cs"
      using arg_cong [OF entries_ids [OF es], of set] by simp
    also have "\<dots> \<subseteq> i_sha w ` message_key ` set ms"
    proof -
      have "hd c \<in> set (concat cs)" if "c \<in> set cs" for c using ne that by (auto intro: bexI [of _ c])
      then show ?thesis using ne unfolding cc by (auto simp: chunk_id_key)
    qed
    finally have "map_of es k = None" using k by (auto simp: map_of_eq_None_iff)
    then show ?thesis by (simp add: col' upsert_map_of [OF d] map_add_def)
  qed
  show ?thesis using again found other by blast
qed

text \<open>Two messages ten minutes apart, and a file that holds them.\<close>

definition example_record :: "string \<Rightarrow> string \<Rightarrow> string \<Rightarrow> string \<Rightarrow> json" where
  "example_record i stamp name body =
     JObj [(''message_id'', JStr i), (''user_id'', JStr ''9''), (''username'', JStr name), (''channel_id'', JStr ''7''),
           (''channel_name'', JStr ''lore''), (''timestamp'', JStr stamp), (''content'', JStr body)]"

definition example_world :: ingest_world where
  "example_world =
     \<lparr>i_loads = (\<lambda>s. if s = ''a'' then Inr (example_record ''1'' ''12:00'' ''ann'' ''one'')
                     else if s = ''b'' then Inr (example_record ''2'' ''12:10'' ''bob'' ''two'') else Inl ValueError),
      i_dt = (\<lambda>s. if s = ''12:00'' then Some \<lparr>instant = 0, aware = True\<rparr>
                  else if s = ''12:10'' then Some \<lparr>instant = 600, aware = True\<rparr>
                  else if s = ''2024-01-01'' then Some \<lparr>instant = 0, aware = False\<rparr> else None),
      i_rep = (\<lambda>v. ''?''), i_fmt = (\<lambda>t. ''date''), i_sha = (\<lambda>s. s)\<rparr>"

definition example_dir :: "(string \<times> string list) list option" where
  "example_dir = Some [(''9.jsonl'', [''a'', ''b'', ''torn''])]"

theorem ingest_repeatable_witness:
  "\<exists>col counts. run_ingest example_world example_dir None 60 512 [] = Inr (col, counts)
     \<and> run_ingest example_world example_dir None 60 512 col = Inr (col, counts) \<and> length col = 1"
proof -
  let ?l = "load_archive (i_loads example_world) (i_dt example_world) (i_rep example_world) example_dir None"
  let ?r = "run_ingest example_world example_dir None 60 512 []"
  have "case ?l of Inr ms \<Rightarrow> map message_key ms = [''7:1'', ''7:2''] | Inl e \<Rightarrow> False" by code_simp
  then obtain ms where ms: "?l = Inr ms" "map message_key ms = [''7:1'', ''7:2'']" by (auto split: sum.splits)
  have "case ?r of Inr (col, counts) \<Rightarrow> length col = 1 | Inl e \<Rightarrow> False" by code_simp
  then obtain col counts where r: "?r = Inr (col, counts)" "length col = 1" by (auto split: sum.splits)
  have "distinct (map message_key ms)" "inj_on (i_sha example_world) (message_key ` set ms)"
    by (simp_all add: ms(2) example_world_def)
  from ingest_repeatable [OF ms(1) this r(1)] r show ?thesis by blast
qed

text \<open>
  An incremental run duplicates. A run with \<open>since\<close> in the middle of a conversation starts a chunk
  at another message, so under another id: afterwards the message is in two documents.
\<close>

theorem since_duplicates:
  "\<exists>col1 n1 col2 n2. run_ingest example_world example_dir None 60 512 [] = Inr (col1, n1)
     \<and> run_ingest example_world example_dir (Some ''12:10'') 60 512 col1 = Inr (col2, n2)
     \<and> map fst col1 = [''7:1''] \<and> map fst col2 = [''7:1'', ''7:2'']
     \<and> list_all (\<lambda>(k, d, meta). sublist ''bob: two'' d) col2"
proof -
  let ?r = "run_ingest example_world example_dir None 60 512 []"
  have "case ?r of Inr (col1, n1) \<Rightarrow> map fst col1 = [''7:1'']
      \<and> (case run_ingest example_world example_dir (Some ''12:10'') 60 512 col1 of
           Inr (col2, n2) \<Rightarrow> map fst col2 = [''7:1'', ''7:2''] \<and> list_all (\<lambda>(k, d, meta). sublist ''bob: two'' d) col2
         | Inl e \<Rightarrow> False)
    | Inl e \<Rightarrow> False" by code_simp
  then show ?thesis by (auto split: sum.splits)
qed

text \<open>
  A date without an offset ends the run. The archive's time stamps carry one, and comparing the two
  raises, so nothing is ingested.
\<close>

theorem plain_date_refused:
  "run_ingest example_world example_dir (Some ''2024-01-01'') 60 512 col = Inl TypeError"
proof -
  have "case load_archive (i_loads example_world) (i_dt example_world) (i_rep example_world) example_dir
      (Some ''2024-01-01'') of Inl TypeError \<Rightarrow> True | _ \<Rightarrow> False" by code_simp
  then have "load_archive (i_loads example_world) (i_dt example_world) (i_rep example_world) example_dir
      (Some ''2024-01-01'') = Inl TypeError" by (auto split: sum.splits py_error.splits)
  then show ?thesis by (simp add: run_ingest_def)
qed

end
