(* ===== verification/Rag_Retrieve.thy ===== *)
theory Rag_Retrieve
  imports Rag_Ingest
begin

text \<open>
  \<open>rag/retrieve.py\<close> and the endpoints of \<open>rag/main.py\<close>: filters, the parser of chunk documents, literal
  search and the counting report.

  The vector store is a parameter: whether a client can be had, what \<open>get\<close> returns for a metadata
  filter, a document filter and a limit, what \<open>query\<close> returns, \<open>None\<close> when a call raises; so is
  whether the embedding model can encode. \<open>rep\<close> is \<open>str()\<close> of a float, list or dict and \<open>repr\<close> of a
  string. Metadata is what the ingest writes: a start time is an integer. Regular expressions are
  written out as what they match; an em dash is two hyphens.
\<close>

section \<open>Filters\<close>

definition is_set :: "string option \<Rightarrow> bool" where
  "is_set x \<longleftrightarrow> x \<noteq> None \<and> x \<noteq> Some []"

definition lstrip_char :: "char \<Rightarrow> string \<Rightarrow> string" where
  "lstrip_char x s = dropWhile (\<lambda>c. c = x) s"

definition iso_to_epoch :: "(string \<Rightarrow> moment option) \<Rightarrow> string \<Rightarrow> int result" where
  "iso_to_epoch dt s = (case dt (utc_suffix s) of None \<Rightarrow> Inl ValueError | Some t \<Rightarrow> Inr (epoch t))"

definition clause :: "string \<Rightarrow> string \<Rightarrow> json \<Rightarrow> json" where
  "clause field cmp v = JObj [(field, JObj [(cmp, v)])]"

definition cleaned_channels :: "string list \<Rightarrow> string list" where
  "cleaned_channels cs = map (\<lambda>c. strip (lstrip_char (CHR ''#'') c)) (filter (\<lambda>c. c \<noteq> [] \<and> strip c \<noteq> []) cs)"

definition date_clause :: "(string \<Rightarrow> moment option) \<Rightarrow> string \<Rightarrow> string \<Rightarrow> string option \<Rightarrow> json list result" where
  "date_clause dt field cmp d =
     (case d of
        None \<Rightarrow> Inr []
      | Some s \<Rightarrow> if s = [] then Inr [] else bindE (iso_to_epoch dt s) (\<lambda>n. Inr [clause field cmp (JInt n)]))"

definition build_where_clause ::
  "(string \<Rightarrow> moment option) \<Rightarrow> string option \<Rightarrow> string option \<Rightarrow> string option \<Rightarrow> string list \<Rightarrow> json option result" where
  "build_where_clause dt channel start end' exclude =
     bindE (date_clause dt ''timestamp_start'' ''$gte'' start) (\<lambda>s.
     bindE (date_clause dt ''timestamp_end'' ''$lte'' end') (\<lambda>e.
       let cs = (case channel of None \<Rightarrow> []
                 | Some c \<Rightarrow> if c = [] then [] else [clause ''channel_name'' ''$eq'' (JStr c)])
              @ (if cleaned_channels exclude = [] then []
                 else [clause ''channel_name'' ''$nin'' (JList (map JStr (cleaned_channels exclude)))])
              @ s @ e
       in Inr (case cs of [] \<Rightarrow> None | [c] \<Rightarrow> Some c | _ \<Rightarrow> Some (JObj [(''$and'', JList cs)]))))"

text \<open>\<open>re.escape\<close>.\<close>

definition re_escape :: "string \<Rightarrow> string" where
  "re_escape s = concat (map (\<lambda>c.
     if c \<in> set (''()[]{}?*+-|^$'' @ [CHR 0x5C] @ ''.&~# '' @ [CHR 0x09, CHR 0x0A, CHR 0x0D, CHR 0x0B, CHR 0x0C])
     then [CHR 0x5C, c] else [c]) s)"

definition author_regex :: "string \<Rightarrow> string" where
  "author_regex a = ''(?im)^'' @ re_escape (lstrip_char (CHR ''@'') a) @ '':''"

definition term_regex :: "string \<Rightarrow> bool \<Rightarrow> string" where
  "term_regex t whole = (if whole then ''(?i)'' @ [CHR 0x5C] @ ''b'' @ re_escape t else ''(?i)'' @ re_escape t)"

definition build_document_filter :: "string option \<Rightarrow> string option \<Rightarrow> bool \<Rightarrow> json option" where
  "build_document_filter t a whole =
     (let cs = (if is_set t then [JObj [(''$regex'', JStr (term_regex (the t) whole))]] else [])
             @ (if is_set a then [JObj [(''$regex'', JStr (author_regex (the a)))]] else [])
      in case cs of [] \<Rightarrow> None | [c] \<Rightarrow> Some c | _ \<Rightarrow> Some (JObj [(''$and'', JList cs)]))"

section \<open>Messages of a document\<close>

text \<open>\<open>str.casefold\<close>.\<close>

definition casefold :: "string \<Rightarrow> string" where
  "casefold s = concat (map (\<lambda>c. if c = CHR 0xDF then ''ss'' else [lower_char c]) s)"

text \<open>\<open>_LINE_RE\<close>: up to the first colon, which a space must follow.\<close>

definition match_line :: "string \<Rightarrow> (string \<times> string) option" where
  "match_line l =
     (case cut '':'' l of
        None \<Rightarrow> None
      | Some (u, r) \<Rightarrow> if u \<noteq> [] \<and> r \<noteq> [] \<and> hd r = CHR '' '' then Some (u, tl r) else None)"

definition known_authors :: "(json \<Rightarrow> string) \<Rightarrow> jobj \<Rightarrow> string set" where
  "known_authors rep meta =
     set (map (\<lambda>a. casefold (strip a))
       (filter (\<lambda>a. strip a \<noteq> []) (split_on '','' (py_str rep (dget meta ''authors'' (JStr []))))))"

text \<open>The speaker and the text when a line begins a message.\<close>

definition speaker_line :: "string set \<Rightarrow> string \<Rightarrow> (string \<times> string) option" where
  "speaker_line known l =
     (case match_line l of
        None \<Rightarrow> None
      | Some (u, t) \<Rightarrow> if known = {} \<or> casefold (strip u) \<in> known then Some (strip u, t) else None)"

fun parse_lines :: "string set \<Rightarrow> (string \<times> string) list \<Rightarrow> string list \<Rightarrow> (string \<times> string) list" where
  "parse_lines known acc [] = acc"
| "parse_lines known acc (l # ls) =
     (case speaker_line known l of
        Some m \<Rightarrow> parse_lines known (acc @ [m]) ls
      | None \<Rightarrow>
          if acc = [] then parse_lines known acc ls
          else parse_lines known (butlast acc @ [(fst (last acc), snd (last acc) @ nlc # l)]) ls)"

definition parse_chunk_messages :: "(json \<Rightarrow> string) \<Rightarrow> string \<Rightarrow> jobj \<Rightarrow> (string \<times> string) list" where
  "parse_chunk_messages rep doc meta = parse_lines (known_authors rep meta) [] (splitlines doc)"

section \<open>Which messages match\<close>

text \<open>The word boundary before a position.\<close>

definition word_start :: "char option \<Rightarrow> string \<Rightarrow> bool" where
  "word_start prev s \<longleftrightarrow>
     (case prev of None \<Rightarrow> False | Some p \<Rightarrow> word_char p) \<noteq> (case s of [] \<Rightarrow> False | c # cs \<Rightarrow> word_char c)"

fun find_term :: "bool \<Rightarrow> string \<Rightarrow> char option \<Rightarrow> string \<Rightarrow> bool" where
  "find_term whole t prev [] \<longleftrightarrow> prefix_nocase t [] \<and> (whole \<longrightarrow> word_start prev [])"
| "find_term whole t prev (c # cs) \<longleftrightarrow>
     prefix_nocase t (c # cs) \<and> (whole \<longrightarrow> word_start prev (c # cs)) \<or> find_term whole t (Some c) cs"

definition term_in :: "string option \<Rightarrow> bool \<Rightarrow> string \<Rightarrow> bool" where
  "term_in t whole s \<longleftrightarrow> (is_set t \<longrightarrow> find_term whole (the t) None s)"

text \<open>The author asked for, folded; empty when none is.\<close>

definition want_author :: "string option \<Rightarrow> string" where
  "want_author a = (case a of None \<Rightarrow> [] | Some s \<Rightarrow> casefold (lstrip_char (CHR ''@'') s))"

definition wanted :: "string option \<Rightarrow> string option \<Rightarrow> bool \<Rightarrow> string \<times> string \<Rightarrow> bool" where
  "wanted t a whole m \<longleftrightarrow> (want_author a \<noteq> [] \<longrightarrow> casefold (fst m) = want_author a) \<and> term_in t whole (snd m)"

section \<open>The store\<close>

definition MAX_SCAN :: nat where "MAX_SCAN = 5000"

record chroma =
  c_up :: bool
  c_encodes :: bool
  c_get :: "json option \<Rightarrow> json option \<Rightarrow> nat \<Rightarrow> (string \<times> jobj) list option"
  c_query :: "string \<Rightarrow> int \<Rightarrow> json option \<Rightarrow> string list option"
  c_dt :: "string \<Rightarrow> moment option"
  c_rep :: "json \<Rightarrow> string"

definition chunk_separator :: string where
  "chunk_separator = [nlc, nlc] @ ''---'' @ [nlc, nlc]"

definition format_context_block :: "string list \<Rightarrow> string" where
  "format_context_block ds = join chunk_separator (map strip ds)"

definition build_lore_context ::
  "chroma \<Rightarrow> string \<Rightarrow> int \<Rightarrow> string option \<Rightarrow> string option \<Rightarrow> string option \<Rightarrow> (string \<times> nat) result" where
  "build_lore_context w q top_k channel start end' =
     (if \<not> c_up w \<or> \<not> c_encodes w then Inr ([], 0)
      else bindE (build_where_clause (c_dt w) channel start end' []) (\<lambda>wh.
        case c_query w q top_k wh of
          None \<Rightarrow> Inr ([], 0)
        | Some ds \<Rightarrow> Inr (if ds = [] then ([], 0) else (format_context_block ds, length ds))))"

section \<open>Literal search\<close>

definition stamp :: "jobj \<Rightarrow> int" where
  "stamp meta = (case dget meta ''timestamp_start'' JNull of JInt i \<Rightarrow> i | _ \<Rightarrow> 0)"

definition hits_of ::
  "(json \<Rightarrow> string) \<Rightarrow> string option \<Rightarrow> string option \<Rightarrow> bool \<Rightarrow> string \<times> jobj \<Rightarrow> string list" where
  "hits_of rep t a whole d =
     (if is_set t \<or> want_author a \<noteq> []
      then map (\<lambda>(u, x). u @ '': '' @ x) (filter (wanted t a whole) (parse_chunk_messages rep (fst d) (snd d)))
      else [])"

definition keeps_document :: "(json \<Rightarrow> string) \<Rightarrow> string option \<Rightarrow> string option \<Rightarrow> bool \<Rightarrow> string \<times> jobj \<Rightarrow> bool" where
  "keeps_document rep t a whole d \<longleftrightarrow> \<not> is_set t \<and> want_author a = [] \<or> hits_of rep t a whole d \<noteq> []"

text \<open>The matching documents in the order asked for; equal times keep the order of the store.\<close>

definition kept_documents ::
  "(json \<Rightarrow> string) \<Rightarrow> string option \<Rightarrow> string option \<Rightarrow> bool \<Rightarrow> string \<Rightarrow> (string \<times> jobj) list \<Rightarrow>
     (string \<times> jobj) list" where
  "kept_documents rep t a whole order ds =
     sort_key (\<lambda>d. if order = ''latest'' then - stamp (snd d) else stamp (snd d)) (filter (keeps_document rep t a whole) ds)"

definition match_block :: "string list \<Rightarrow> string \<Rightarrow> string" where
  "match_block hits doc =
     (if hits = [] then strip doc
      else join [nlc] (map (\<lambda>h. ''>>> MATCH -- '' @ h) (take 5 hits))
         @ (if length hits > 5
            then nlc # ''>>> ... and '' @ str_nat (length hits - 5) @ '' more matching message(s) in this chunk'' else [])
         @ nlc # ''--- full conversation ---'' @ nlc # strip doc)"

definition search_literal ::
  "chroma \<Rightarrow> string option \<Rightarrow> string option \<Rightarrow> string option \<Rightarrow> string option \<Rightarrow> string option \<Rightarrow> string \<Rightarrow> int \<Rightarrow>
     bool \<Rightarrow> (string \<times> nat) result" where
  "search_literal w t a channel start end' order limit whole =
     (if \<not> is_set t \<and> \<not> is_set a then Inr ([], 0)
      else if \<not> c_up w then Inr ([], 0)
      else bindE (build_where_clause (c_dt w) channel start end' []) (\<lambda>wh.
        case c_get w wh (build_document_filter t a whole) MAX_SCAN of
          None \<Rightarrow> Inr ([], 0)
        | Some ds \<Rightarrow>
            let kept = kept_documents (c_rep w) t a whole order ds
            in Inr (if kept = [] then ([], 0)
                    else (join chunk_separator
                            (map (\<lambda>d. match_block (hits_of (c_rep w) t a whole d) (fst d)) (slice_to limit kept)),
                          length kept))))"

section \<open>Counting\<close>

text \<open>The month of an epoch second, in UTC, as \<open>%Y-%m\<close>.\<close>

definition month_of :: "int \<Rightarrow> string" where
  "month_of ts =
     (let z = ts div 86400 + 719468; era = z div 146097; doe = z mod 146097;
          yoe = (doe - doe div 1460 + doe div 36524 - doe div 146096) div 365;
          doy = doe - (365 * yoe + yoe div 4 - yoe div 100);
          mp = (5 * doy + 2) div 153;
          m = (if mp < 10 then mp + 3 else mp - 9);
          y = yoe + era * 400 + (if m \<le> 2 then 1 else 0)
      in str_int y @ ''-'' @ (if m < 10 then ''0'' else []) @ str_int m)"

definition group_key :: "(json \<Rightarrow> string) \<Rightarrow> string \<Rightarrow> jobj \<Rightarrow> string \<Rightarrow> string" where
  "group_key rep group_by meta speaker =
     (if group_by = ''channel'' then CHR ''#'' # py_str rep (dget meta ''channel_name'' (JStr ''unknown''))
      else if group_by = ''month'' then (if stamp meta = 0 then ''unknown'' else month_of (stamp meta))
      else speaker)"

text \<open>The key of every matching message, in order, and the counts of the keys.\<close>

definition matched_keys ::
  "(json \<Rightarrow> string) \<Rightarrow> string option \<Rightarrow> string option \<Rightarrow> bool \<Rightarrow> string \<Rightarrow> (string \<times> jobj) list \<Rightarrow> string list" where
  "matched_keys rep t a whole group_by ds =
     concat (map (\<lambda>(doc, meta). map (\<lambda>m. group_key rep group_by meta (fst m))
       (filter (wanted t a whole) (parse_chunk_messages rep doc meta))) ds)"

fun count_keys :: "string list \<Rightarrow> (string \<times> nat) list \<Rightarrow> (string \<times> nat) list" where
  "count_keys [] counts = counts"
| "count_keys (k # ks) counts = count_keys ks (dset k (dget counts k 0 + 1) counts)"

definition ordered_counts :: "string \<Rightarrow> (string \<times> nat) list \<Rightarrow> (string \<times> nat) list" where
  "ordered_counts group_by counts =
     (if group_by = ''month'' then sort_key (\<lambda>kv. kv) counts else sort_key (\<lambda>(k, n). (- int n, k)) counts)"

definition scope_text ::
  "(json \<Rightarrow> string) \<Rightarrow> string option \<Rightarrow> string option \<Rightarrow> string option \<Rightarrow> string option \<Rightarrow> string option \<Rightarrow>
     string list \<Rightarrow> string" where
  "scope_text rep t a channel start end' exclude =
     join '' '' ([if is_set t then ''messages containing '' @ rep (JStr (the t)) else ''messages'']
       @ (if is_set a then [''by '' @ the a] else [])
       @ (if is_set channel then [''in '' @ the channel] else [])
       @ (if exclude \<noteq> []
          then [''excluding '' @ join '', '' (map (\<lambda>c. CHR ''#'' # strip (lstrip_char (CHR ''#'') c)) exclude)] else [])
       @ (if is_set start \<or> is_set end'
          then [''between '' @ (if is_set start then the start else ''any'') @ '' and ''
                @ (if is_set end' then the end' else ''any'')] else []))"

definition report_text :: "string \<Rightarrow> string \<Rightarrow> nat \<Rightarrow> (string \<times> nat) list \<Rightarrow> nat \<Rightarrow> string" where
  "report_text scope group_by n best all =
     ''Counts of '' @ scope @ '' -- grouped by '' @ group_by @ '', '' @ str_nat n @ '' total:'' @ nlc #
       join [nlc] (map (\<lambda>(k, c). ''  '' @ k @ '': '' @ str_nat c) best
         @ (if all > length best then [''  ... and '' @ str_nat (all - length best) @ '' more '' @ group_by @ ''(s)''] else []))"

definition aggregate_stats ::
  "chroma \<Rightarrow> string option \<Rightarrow> string option \<Rightarrow> string option \<Rightarrow> string option \<Rightarrow> string option \<Rightarrow> string \<Rightarrow> int \<Rightarrow>
     bool \<Rightarrow> string list \<Rightarrow> (string \<times> nat) result" where
  "aggregate_stats w t a channel start end' group_by top_n whole exclude =
     (if \<not> c_up w then Inr ([], 0)
      else bindE (build_where_clause (c_dt w) channel start end' exclude) (\<lambda>wh.
        case c_get w wh (build_document_filter t a whole) MAX_SCAN of
          None \<Rightarrow> Inr ([], 0)
        | Some ds \<Rightarrow>
            let ks = matched_keys (c_rep w) t a whole group_by ds;
                counts = count_keys ks []
            in Inr (if ks = [] then ([], 0)
                    else (report_text (scope_text (c_rep w) t a channel start end' exclude) group_by (length ks)
                            (slice_to top_n (ordered_counts group_by counts)) (length counts),
                          length ks))))"

section \<open>Endpoints\<close>

text \<open>A status other than 200, or the two fields of the response; an exception is a 500.\<close>

datatype response = Status nat | Found string nat

definition respond :: "(string \<times> nat) result \<Rightarrow> response" where
  "respond r = (case r of Inl e \<Rightarrow> Status 500 | Inr (c, n) \<Rightarrow> Found c n)"

definition retrieve_endpoint ::
  "chroma \<Rightarrow> string \<Rightarrow> int \<Rightarrow> string option \<Rightarrow> string option \<Rightarrow> string option \<Rightarrow> response" where
  "retrieve_endpoint w q top_k channel start end' =
     (if strip q = [] then Status 400 else respond (build_lore_context w q top_k channel start end'))"

definition search_literal_endpoint ::
  "chroma \<Rightarrow> string option \<Rightarrow> string option \<Rightarrow> string option \<Rightarrow> string option \<Rightarrow> string option \<Rightarrow> string \<Rightarrow> int \<Rightarrow>
     bool \<Rightarrow> response" where
  "search_literal_endpoint w t a channel start end' order limit whole =
     (if \<not> is_set t \<and> \<not> is_set a then Status 400
      else if order \<noteq> ''earliest'' \<and> order \<noteq> ''latest'' then Status 400
      else respond (search_literal w t a channel start end' order limit whole))"

definition aggregate_endpoint ::
  "chroma \<Rightarrow> string option \<Rightarrow> string option \<Rightarrow> string option \<Rightarrow> string option \<Rightarrow> string option \<Rightarrow> string \<Rightarrow> int \<Rightarrow>
     bool \<Rightarrow> string list \<Rightarrow> response" where
  "aggregate_endpoint w t a channel start end' group_by top_n whole exclude =
     (if group_by \<noteq> ''author'' \<and> group_by \<noteq> ''channel'' \<and> group_by \<noteq> ''month'' then Status 400
      else respond (aggregate_stats w t a channel start end' group_by top_n whole exclude))"

section \<open>Reading a document back\<close>

definition message_body :: "(json \<Rightarrow> string) \<Rightarrow> rag_message \<Rightarrow> string" where
  "message_body rep g =
     (case g_caption g of None \<Rightarrow> g_content g | Some c \<Rightarrow> g_content g @ '' [image: '' @ py_str rep c @ '']'')"

definition name_ok :: "string \<Rightarrow> bool" where
  "name_ok u \<longleftrightarrow> u \<noteq> [] \<and> strip u = u \<and> list_all (\<lambda>c. c \<noteq> CHR '':'' \<and> c \<noteq> CHR '','' \<and> \<not> line_break c) u"

text \<open>
  A body that can be told apart: line feeds are its only breaks, no line after the first looks like
  a message of one of the chunk's authors, and it does not end in a line feed.
\<close>

definition body_ok :: "string set \<Rightarrow> string \<Rightarrow> bool" where
  "body_ok known b \<longleftrightarrow>
     list_all (\<lambda>c. line_break c \<longrightarrow> c = nlc) b
     \<and> list_all (\<lambda>l. speaker_line known l = None) (tl (split_on [nlc] b))
     \<and> (tl (split_on [nlc] b) = [] \<or> last (split_on [nlc] b) \<noteq> [])"

definition readable :: "(json \<Rightarrow> string) \<Rightarrow> (moment \<Rightarrow> string) \<Rightarrow> string set \<Rightarrow> rag_chunk \<Rightarrow> bool" where
  "readable rep fmt known c \<longleftrightarrow>
     list_all (\<lambda>g. case g_username g of JStr u \<Rightarrow> name_ok u | _ \<Rightarrow> False) c
     \<and> list_all (\<lambda>g. body_ok known (message_body rep g)) c
     \<and> speaker_line known (header_line rep fmt (hd c)) = None
     \<and> list_all (\<lambda>x. \<not> line_break x) (header_line rep fmt (hd c))"

lemma split_on_not_Nil [simp]: "split_on sep s \<noteq> []"
  by (simp add: split_on.simps [of sep s] split: option.split)

lemma join_Cons: "xs \<noteq> [] \<Longrightarrow> join sep (x # xs) = x @ sep @ join sep xs"
  by (cases xs) simp_all

lemma join_split_on: "sep \<noteq> [] \<Longrightarrow> join sep (split_on sep s) = s"
proof (induction sep s rule: split_on.induct)
  case (1 sep s)
  then show ?case
    by (cases "cut sep s") (auto simp: split_on.simps [of sep s] join_Cons dest!: cut_eq)
qed

lemma cut_single: "cut [x] s = Some (a, b) \<Longrightarrow> x \<notin> set a"
proof (induction s arbitrary: a)
  case (Cons c cs)
  then show ?case by (cases "c = x") auto
qed simp

lemma cut_single_none: "cut [x] s = None \<Longrightarrow> x \<notin> set s"
  by (induction s) (auto split: if_splits)

lemma split_on_pieces: "l \<in> set (split_on [x] s) \<Longrightarrow> x \<notin> set l \<and> set l \<subseteq> set s"
proof (induction s rule: length_induct)
  case (1 s)
  show ?case
  proof (cases "cut [x] s")
    case None
    then show ?thesis using 1(2) cut_single_none [of x s] by (simp add: split_on.simps [of "[x]" s])
  next
    case (Some ab)
    obtain a b where c: "cut [x] s = Some (a, b)" using Some by (cases ab) auto
    have s: "s = a @ x # b" "x \<notin> set a" using cut_eq [OF c] cut_single [OF c] by simp_all
    have "l = a \<or> l \<in> set (split_on [x] b)" using 1(2) c by (simp add: split_on.simps [of "[x]" s])
    moreover have "length b < length s" "set b \<subseteq> set s" "set a \<subseteq> set s" using s by auto
    moreover have "l \<in> set (split_on [x] b) \<Longrightarrow> x \<notin> set l \<and> set l \<subseteq> set b" using 1(1) \<open>length b < length s\<close> by blast
    ultimately show ?thesis using s(2) by blast
  qed
qed

lemma split_on_join: "us \<noteq> [] \<Longrightarrow> \<forall>u\<in>set us. x \<notin> set u \<Longrightarrow> split_on [x] (join [x] us) = us"
proof (induction us rule: induct_list012)
  case (2 u)
  then show ?case by (simp add: split_on.simps cut_none)
next
  case (3 u v us)
  have "cut [x] (u @ x # join [x] (v # us)) = Some (u, join [x] (v # us))"
    using cut_first [of x u "[]"] 3(4) by simp
  then show ?case using 3 by (simp add: split_on.simps [of "[x]" "u @ x # join [x] (v # us)"])
qed simp

lemma lines_from_line:
  "list_all (\<lambda>c. \<not> line_break c) l \<Longrightarrow> lines_from cur (l @ nlc # rest) = (cur @ l) # lines_from [] rest"
proof (induction l arbitrary: cur)
  case Nil
  have "line_break nlc" "nlc \<noteq> CHR 0x0D" by (simp_all add: line_break_def nlc_def Let_def)
  then show ?case by simp
qed simp

lemma lines_from_last: "list_all (\<lambda>c. \<not> line_break c) l \<Longrightarrow> cur @ l \<noteq> [] \<Longrightarrow> lines_from cur l = [cur @ l]"
  by (induction l arbitrary: cur) auto

lemma splitlines_join:
  "ls \<noteq> [] \<Longrightarrow> last ls \<noteq> [] \<Longrightarrow> \<forall>l\<in>set ls. list_all (\<lambda>c. \<not> line_break c) l \<Longrightarrow> splitlines (join [nlc] ls) = ls"
  unfolding splitlines_def
proof (induction ls rule: induct_list012)
  case (2 l)
  then show ?case by (simp add: lines_from_last)
next
  case (3 l l' ls)
  then show ?case by (simp add: lines_from_line)
qed simp

lemma join_concat: "\<forall>ls\<in>set lss. ls \<noteq> [] \<Longrightarrow> join sep (map (join sep) lss) = join sep (concat lss)"
proof (induction lss)
  case (Cons ls lss)
  have app: "join sep (xs @ ys) = join sep xs @ sep @ join sep ys" if "xs \<noteq> []" "ys \<noteq> []" for xs ys
    using that by (induction xs rule: induct_list012) (auto simp: join_Cons)
  show ?case
  proof (cases lss)
    case (Cons ms mss)
    then have "concat lss \<noteq> []" using Cons.prems by auto
    then show ?thesis using Cons.prems Cons.IH Cons by (simp add: app)
  qed simp
qed simp

lemma parse_more:
  "list_all (\<lambda>l. speaker_line known l = None) ls \<Longrightarrow>
     parse_lines known (acc @ [(u, join [nlc] (l0 # ks))]) (ls @ rest)
       = parse_lines known (acc @ [(u, join [nlc] (l0 # ks @ ls))]) rest"
proof (induction ls arbitrary: ks)
  case (Cons l ls)
  have "join [nlc] (l0 # ks @ [l]) = join [nlc] (l0 # ks) @ nlc # l"
    by (induction ks arbitrary: l0) (auto simp: join_Cons)
  then have "parse_lines known (acc @ [(u, join [nlc] (l0 # ks))]) ((l # ls) @ rest)
      = parse_lines known (acc @ [(u, join [nlc] (l0 # ks @ [l]))]) (ls @ rest)"
    using Cons.prems by simp
  then show ?case using Cons by simp
qed simp

text \<open>The lines of one message, and of all.\<close>

definition body_lines :: "(json \<Rightarrow> string) \<Rightarrow> rag_message \<Rightarrow> string list" where
  "body_lines rep g =
     (case split_on [nlc] (message_body rep g) of
        [] \<Rightarrow> [] | l # ls \<Rightarrow> (py_str rep (g_username g) @ '': '' @ l) # ls)"

lemma body_lines_join: "join [nlc] (body_lines rep g) = message_line rep g"
proof -
  obtain l ls where s: "split_on [nlc] (message_body rep g) = l # ls" by (cases "split_on [nlc] (message_body rep g)") auto
  have "message_body rep g = join [nlc] (l # ls)" using join_split_on [of "[nlc]" "message_body rep g"] s by simp
  moreover have "join [nlc] ((x @ l) # ls) = x @ join [nlc] (l # ls)" for x by (cases ls) simp_all
  from this [of "py_str rep (g_username g) @ '': ''"]
  have "join [nlc] (body_lines rep g) = py_str rep (g_username g) @ '': '' @ join [nlc] (l # ls)"
    by (simp add: body_lines_def s)
  moreover have "message_line rep g = py_str rep (g_username g) @ '': '' @ message_body rep g"
    by (simp add: message_line_def message_body_def split: option.split)
  ultimately show ?thesis by simp
qed

lemma speaker_first:
  assumes "name_ok u" "casefold u \<in> known"
  shows "speaker_line known (u @ '': '' @ l) = Some (u, l)"
proof -
  have x: "CHR '':'' \<notin> set u" using assms(1) unfolding name_ok_def list_all_iff by blast
  have u: "u \<noteq> []" "strip u = u" using assms(1) unfolding name_ok_def by blast+
  have "cut '':'' (u @ '': '' @ l) = Some (u, '' '' @ l)"
    using cut_first [OF x, of "[]" "'' '' @ l"] by simp
  then have "match_line (u @ '': '' @ l) = Some (u, l)" using u(1) by (simp add: match_line_def)
  then show ?thesis using u assms(2) by (simp add: speaker_line_def)
qed

lemma parse_messages:
  assumes "\<forall>g\<in>set c. \<exists>u. g_username g = JStr u \<and> name_ok u \<and> casefold u \<in> known \<and> body_ok known (message_body rep g)"
  shows "parse_lines known acc (concat (map (body_lines rep) c))
    = acc @ map (\<lambda>g. (py_str rep (g_username g), message_body rep g)) c"
  using assms
proof (induction c arbitrary: acc)
  case (Cons g c)
  obtain u where u: "g_username g = JStr u" "name_ok u" "casefold u \<in> known" "body_ok known (message_body rep g)"
    using Cons.prems by auto
  obtain l ls where s: "split_on [nlc] (message_body rep g) = l # ls" by (cases "split_on [nlc] (message_body rep g)") auto
  have b: "join [nlc] (l # ls) = message_body rep g" using join_split_on [of "[nlc]" "message_body rep g"] s by simp
  have "parse_lines known acc (concat (map (body_lines rep) (g # c)))
      = parse_lines known (acc @ [(u, l)]) (ls @ concat (map (body_lines rep) c))"
    using u speaker_first [OF u(2,3), of l] by (simp add: body_lines_def s py_str_def)
  also have "\<dots> = parse_lines known (acc @ [(u, message_body rep g)]) (concat (map (body_lines rep) c))"
    using parse_more [of known ls acc u l "[]"] u(4) b by (simp add: body_ok_def s)
  finally show ?case using Cons by (simp add: u(1) py_str_def)
qed simp

lemma body_lines_facts:
  assumes "name_ok u" "g_username g = JStr u" "body_ok known (message_body rep g)"
  shows "body_lines rep g \<noteq> []" "last (body_lines rep g) \<noteq> []"
    "\<forall>l\<in>set (body_lines rep g). list_all (\<lambda>c. \<not> line_break c) l"
proof -
  obtain l ls where s: "split_on [nlc] (message_body rep g) = l # ls" by (cases "split_on [nlc] (message_body rep g)") auto
  have b: "body_lines rep g = (u @ '': '' @ l) # ls" by (simp add: body_lines_def s assms(2) py_str_def)
  show "body_lines rep g \<noteq> []" by (simp add: b)
  show "last (body_lines rep g) \<noteq> []" using assms(3) by (auto simp: b body_ok_def s)
  have "list_all (\<lambda>c. \<not> line_break c) k" if "k \<in> set (l # ls)" for k
  proof -
    have "nlc \<notin> set k \<and> set k \<subseteq> set (message_body rep g)" using split_on_pieces [of k nlc] that s by metis
    then show ?thesis using assms(3) by (auto simp: body_ok_def list_all_iff)
  qed
  moreover have "list_all (\<lambda>c. \<not> line_break c) ('': '')" by (simp add: line_break_def)
  moreover have "list_all (\<lambda>c. \<not> line_break c) u" using assms(1) by (simp add: name_ok_def list_all_iff)
  ultimately show "\<forall>l\<in>set (body_lines rep g). list_all (\<lambda>c. \<not> line_break c) l" by (simp add: b)
qed

lemma known_of_metadata:
  assumes "build_metadata sha c = Inr meta" "c \<noteq> []"
    and "\<forall>g\<in>set c. \<exists>u. g_username g = JStr u \<and> name_ok u"
  shows "g \<in> set c \<Longrightarrow> g_username g = JStr u \<Longrightarrow> casefold u \<in> known_authors rep meta"
proof -
  assume g: "g \<in> set c" "g_username g = JStr u"
  obtain names where names: "mapE str_of (authors c) = Inr names" and m: "dget meta ''authors'' (JStr []) = JStr (join '','' names)"
    using assms(1) by (auto simp: build_metadata_def bindE_eq_Inr dget_def)
  have conv: "mapE str_of vs = Inr ns \<Longrightarrow> vs = map JStr ns" for vs ns
    by (induction vs arbitrary: ns) (auto simp: bindE_eq_Inr str_of_def split: json.splits)
  have vs: "authors c = map JStr names" by (rule conv [OF names])
  have set: "set (authors c) = g_username ` set c" by (simp add: authors_def)
  have u: "u \<in> set names" using g set unfolding vs by (metis (no_types, lifting) image_eqI image_iff json.inject(4) list.set_map)
  have ok: "name_ok v" if "v \<in> set names" for v
  proof -
    have "JStr v \<in> g_username ` set c" using set vs that by (metis image_eqI list.set_map)
    then show ?thesis using assms(3) by auto
  qed
  have comma: "\<forall>v\<in>set names. CHR '','' \<notin> set v" using ok by (auto simp: name_ok_def list_all_iff)
  have "split_on '','' (join '','' names) = names" by (rule split_on_join) (use u comma in auto)
  moreover have "strip u = u" "u \<noteq> []" using ok [OF u] by (simp_all add: name_ok_def)
  ultimately show ?thesis using u unfolding known_authors_def m py_str_def by force
qed

lemma chunk_read_back:
  assumes "build_metadata sha c = Inr meta" and "c \<noteq> []" and "readable rep fmt (known_authors rep meta) c"
  shows "parse_chunk_messages rep (format_chunk_text rep fmt c) meta
    = map (\<lambda>g. (py_str rep (g_username g), message_body rep g)) c"
proof -
  let ?known = "known_authors rep meta"
  have names: "\<forall>g\<in>set c. \<exists>u. g_username g = JStr u \<and> name_ok u"
  proof
    fix g assume "g \<in> set c"
    then have "case g_username g of JStr u \<Rightarrow> name_ok u | _ \<Rightarrow> False" using assms(3) by (simp add: readable_def list_all_iff)
    then show "\<exists>u. g_username g = JStr u \<and> name_ok u" by (cases "g_username g") simp_all
  qed
  have bodies: "\<forall>g\<in>set c. body_ok ?known (message_body rep g)"
    using assms(3) by (simp add: readable_def list_all_iff)
  have all: "\<forall>g\<in>set c. \<exists>u. g_username g = JStr u \<and> name_ok u \<and> casefold u \<in> ?known \<and> body_ok ?known (message_body rep g)"
    using names bodies known_of_metadata [OF assms(1,2) names] by blast
  let ?h = "header_line rep fmt (hd c)"
  have h: "speaker_line ?known ?h = None" "list_all (\<lambda>x. \<not> line_break x) ?h" using assms(3) by (simp_all add: readable_def)
  have ne: "\<forall>ls\<in>set ([?h] # map (body_lines rep) c). ls \<noteq> []" using all body_lines_facts(1) by fastforce
  have "join [nlc] (map (join [nlc]) ([?h] # map (body_lines rep) c)) = format_chunk_text rep fmt c"
    using assms(2) by (simp add: format_chunk_text_def body_lines_join comp_def)
  then have doc: "format_chunk_text rep fmt c = join [nlc] (?h # concat (map (body_lines rep) c))"
    using join_concat [OF ne, of "[nlc]"] by simp
  have cne: "concat (map (body_lines rep) c) \<noteq> []" using assms(2) ne by (cases c) simp_all
  moreover have "last (concat (map (body_lines rep) c)) = last (body_lines rep (last c))"
    using assms(2) ne by (cases c rule: rev_cases) simp_all
  moreover have "last (body_lines rep (last c)) \<noteq> []"
    using all assms(2) body_lines_facts(2) by (metis last_in_set)
  moreover have "\<forall>l\<in>set (?h # concat (map (body_lines rep) c)). list_all (\<lambda>c. \<not> line_break c) l"
    using h(2) all body_lines_facts(3) by fastforce
  ultimately have "splitlines (format_chunk_text rep fmt c) = ?h # concat (map (body_lines rep) c)"
    unfolding doc by (intro splitlines_join) auto
  then show ?thesis
    unfolding parse_chunk_messages_def using parse_messages [OF all, of "[]"] h(1) by simp
qed

text \<open>
  C19: A document is read back as it was written. For a chunk whose names are plain, whose texts break lines by
  line feeds only and do not end in one, and none of whose later lines looks like a message of one of its own
  authors, splitting its document gives exactly its messages: each speaker with his whole text, caption included,
  in order.
\<close>

theorem document_roundtrip:
  assumes "build_metadata sha c = Inr meta" and "c \<noteq> []" and "readable rep fmt (known_authors rep meta) c"
  shows "parse_chunk_messages rep (format_chunk_text rep fmt c) meta
    = map (\<lambda>g. (py_str rep (g_username g), message_body rep g)) c"
  using assms by (rule chunk_read_back)

definition example_message :: "string \<Rightarrow> string \<Rightarrow> rag_message" where
  "example_message name body =
     \<lparr>g_id = ''1'', g_user = ''9'', g_username = JStr name, g_channel = ''7'', g_channel_name = JStr ''lore'',
      g_time = \<lparr>instant = 5, aware = True\<rparr>, g_content = body, g_caption = None\<rparr>"

definition example_chunk :: rag_chunk where
  "example_chunk = [example_message ''ann'' (''well: yes'' @ [nlc] @ ''note: no''), example_message ''bob'' ''me too'']"

theorem document_roundtrip_witness:
  "\<exists>meta. build_metadata (\<lambda>s. s) example_chunk = Inr meta
     \<and> parse_chunk_messages (\<lambda>v. ''?'') (format_chunk_text (\<lambda>v. ''?'') (\<lambda>t. ''12:00'') example_chunk) meta
       = [(''ann'', ''well: yes'' @ [nlc] @ ''note: no''), (''bob'', ''me too'')]"
proof -
  have "case build_metadata (\<lambda>s. s) example_chunk of Inr meta \<Rightarrow>
      readable (\<lambda>v. ''?'') (\<lambda>t. ''12:00'') (known_authors (\<lambda>v. ''?'') meta) example_chunk | Inl e \<Rightarrow> False" by code_simp
  then obtain meta where m: "build_metadata (\<lambda>s. s) example_chunk = Inr meta"
      "readable (\<lambda>v. ''?'') (\<lambda>t. ''12:00'') (known_authors (\<lambda>v. ''?'') meta) example_chunk"
    by (auto split: sum.splits)
  have "map (\<lambda>g. (py_str (\<lambda>v. ''?'') (g_username g), message_body (\<lambda>v. ''?'') g)) example_chunk
      = [(''ann'', ''well: yes'' @ [nlc] @ ''note: no''), (''bob'', ''me too'')]" by code_simp
  with document_roundtrip [OF m(1) _ m(2)] m(1) show ?thesis by (simp add: example_chunk_def)
qed

text \<open>
  A quoted line is taken for its author's. When a message of ann carries a line that reads
  like bob's, and bob speaks in the chunk, that line is counted and quoted as bob's message.
\<close>

definition quoting_chunk :: rag_chunk where
  "quoting_chunk = [example_message ''ann'' (''he said'' @ [nlc] @ ''bob: cheese''), example_message ''bob'' ''no'']"

theorem quoted_line_misattributed:
  "\<exists>meta. build_metadata (\<lambda>s. s) quoting_chunk = Inr meta
     \<and> matched_keys (\<lambda>v. ''?'') (Some ''cheese'') None False ''author''
         [(format_chunk_text (\<lambda>v. ''?'') (\<lambda>t. ''12:00'') quoting_chunk, meta)] = [''bob'']"
proof -
  have "case build_metadata (\<lambda>s. s) quoting_chunk of Inr meta \<Rightarrow>
      matched_keys (\<lambda>v. ''?'') (Some ''cheese'') None False ''author''
         [(format_chunk_text (\<lambda>v. ''?'') (\<lambda>t. ''12:00'') quoting_chunk, meta)] = [''bob''] | Inl e \<Rightarrow> False" by code_simp
  then show ?thesis by (auto split: sum.splits)
qed

section \<open>First is first\<close>

lemma sorted_take_min:
  "sorted (map f xs) \<Longrightarrow> x \<in> set (take n xs) \<Longrightarrow> y \<in> set (drop n xs) \<Longrightarrow> f x \<le> f y"
proof -
  assume "sorted (map f xs)" "x \<in> set (take n xs)" "y \<in> set (drop n xs)"
  moreover have "map f xs = map f (take n xs) @ map f (drop n xs)" by (simp flip: map_append)
  ultimately show ?thesis by (metis (no_types, lifting) image_eqI list.set_map sorted_append)
qed

text \<open>
  C20: The oldest match is really the oldest of those scanned. Of the documents the store returned, exactly those with
  a message of the wanted author that contains the term are kept, each once; and a document that
  is shown is no younger (for \<open>latest\<close>: no older) than one that matched and is left out.
\<close>

theorem first_is_first:
  assumes "is_set t \<or> want_author a \<noteq> []" and "limit \<ge> 0"
    and "kept = kept_documents rep t a whole order ds"
  shows "mset kept = filter_mset (\<lambda>d. \<exists>m\<in>set (parse_chunk_messages rep (fst d) (snd d)). wanted t a whole m) (mset ds)
    \<and> (\<forall>d\<in>set (slice_to limit kept). \<forall>e\<in>set (slice_from limit kept).
         if order = ''latest'' then stamp (snd e) \<le> stamp (snd d) else stamp (snd d) \<le> stamp (snd e))"
proof -
  have k: "keeps_document rep t a whole d \<longleftrightarrow> (\<exists>m\<in>set (parse_chunk_messages rep (fst d) (snd d)). wanted t a whole m)" for d
    using assms(1) by (auto simp: keeps_document_def hits_of_def filter_empty_conv)
  let ?f = "\<lambda>d. if order = ''latest'' then - stamp (snd d) else stamp (snd d)"
  have "sorted (map ?f kept)" by (simp add: assms(3) kept_documents_def)
  from sorted_take_min [OF this] have
    "\<forall>d\<in>set (slice_to limit kept). \<forall>e\<in>set (slice_from limit kept). ?f d \<le> ?f e"
    using assms(2) by (auto simp: slice_to_def slice_from_def)
  moreover have "mset kept = filter_mset (keeps_document rep t a whole) (mset ds)"
    by (simp add: assms(3) kept_documents_def)
  ultimately show ?thesis unfolding k by (auto split: if_splits)
qed

definition dated :: "int \<Rightarrow> string \<Rightarrow> string \<times> jobj" where
  "dated n s = (s, [(''timestamp_start'', JInt n), (''authors'', JStr ''ann'')])"

theorem first_is_first_witness:
  "slice_to 1 (kept_documents (\<lambda>v. ''?'') (Some ''oink'') None False ''earliest''
     [dated 9 ''ann: oink'', dated 3 ''ann: OINKING'', dated 1 ''ann: moo'']) = [dated 3 ''ann: OINKING'']
   \<and> slice_from 1 (kept_documents (\<lambda>v. ''?'') (Some ''oink'') None False ''earliest''
     [dated 9 ''ann: oink'', dated 3 ''ann: OINKING'', dated 1 ''ann: moo'']) = [dated 9 ''ann: oink'']
   \<and> stamp (snd (dated 3 ''ann: OINKING'')) \<le> stamp (snd (dated 9 ''ann: oink''))"
proof -
  let ?k = "kept_documents (\<lambda>v. ''?'') (Some ''oink'') None False ''earliest''
     [dated 9 ''ann: oink'', dated 3 ''ann: OINKING'', dated 1 ''ann: moo'']"
  have "is_set (Some ''oink'')" by (simp add: is_set_def)
  note f = first_is_first [OF disjI1 [OF this], of 1 ?k "\<lambda>v. ''?''" None False "''earliest''", OF _ refl]
  have s: "slice_to 1 ?k = [dated 3 ''ann: OINKING'']" "slice_from 1 ?k = [dated 9 ''ann: oink'']" by code_simp+
  from f s show ?thesis by simp
qed

section \<open>The counts\<close>

lemma count_keys_spec:
  "dget (count_keys ks counts) k 0 = dget counts k 0 + count_list ks k"
  by (induction ks counts rule: count_keys.induct) (auto simp: dget_def)

lemma count_keys_ok: "dict_ok counts \<Longrightarrow> dict_ok (count_keys ks counts) \<and> fst ` set (count_keys ks counts) = fst ` set counts \<union> set ks"
  by (induction ks counts rule: count_keys.induct) auto

lemma sum_dset: "sum_list (map snd (dset k v d)) + dget d k 0 = sum_list (map snd d) + (v :: nat)"
  by (induction k v d rule: dset.induct) (auto simp: dget_def)

lemma sum_counts: "dict_ok counts \<Longrightarrow> sum_list (map snd (count_keys ks counts)) = sum_list (map snd counts) + length ks"
proof (induction ks counts rule: count_keys.induct)
  case (2 k ks counts)
  have "sum_list (map snd (dset k (dget counts k 0 + 1) counts)) = sum_list (map snd counts) + 1"
    using sum_dset [of k "dget counts k 0 + 1" counts] by simp
  then show ?case using 2 by auto
qed simp

text \<open>
  Counting is exact. Each group is reported once and with the number of matching messages that
  belong to it, the groups are all those that occur, their counts add up to the total of the
  report, and for authors and channels no group stands above one with more messages.
\<close>

theorem counts_exact:
  fixes rep t a whole group_by ds
  defines "ks \<equiv> matched_keys rep t a whole group_by ds"
  shows "mset (ordered_counts group_by (count_keys ks [])) = mset (map (\<lambda>k. (k, count_list ks k)) (map fst (count_keys ks [])))
    \<and> distinct (map fst (count_keys ks [])) \<and> set (map fst (count_keys ks [])) = set ks
    \<and> sum_list (map snd (ordered_counts group_by (count_keys ks []))) = length ks
    \<and> (group_by \<noteq> ''month'' \<longrightarrow> sorted (map (\<lambda>kv. - int (snd kv)) (ordered_counts group_by (count_keys ks []))))"
proof -
  let ?c = "count_keys ks []"
  have ok: "dict_ok ?c" "fst ` set ?c = set ks" using count_keys_ok [of "[]" ks] by simp_all
  have v: "kv = (fst kv, count_list ks (fst kv))" if "kv \<in> set ?c" for kv
  proof -
    have "map_of ?c (fst kv) = Some (snd kv)" using ok(1) that by (simp add: dict_ok_def)
    then have "dget ?c (fst kv) 0 = snd kv" by (simp add: dget_def)
    then show ?thesis using count_keys_spec [of ks "[]" "fst kv"] by (simp add: dget_def prod_eq_iff)
  qed
  have m: "mset (ordered_counts group_by ?c) = mset ?c" by (simp add: ordered_counts_def)
  have "map (\<lambda>k. (k, count_list ks k)) (map fst ?c) = map (\<lambda>kv. kv) ?c"
    unfolding map_map by (rule map_cong [OF refl]) (use v in simp)
  then have one: "mset (ordered_counts group_by ?c) = mset (map (\<lambda>k. (k, count_list ks k)) (map fst ?c))"
    using m by (simp only: list.map_ident)
  have "mset (map snd (ordered_counts group_by ?c)) = mset (map snd ?c)" using m by (metis mset_map)
  then have total: "sum_list (map snd (ordered_counts group_by ?c)) = length ks"
    using sum_counts [of "[]" ks] by (metis dict_ok_Nil list.simps(8) plus_nat.add_0 sum_list.Nil sum_mset_sum_list)
  have "sorted (map (\<lambda>kv. - int (snd kv)) (ordered_counts group_by ?c))" if "group_by \<noteq> ''month''"
  proof -
    have "sorted (map (\<lambda>(k, n). (- int n, k)) (ordered_counts group_by ?c))" using that by (simp add: ordered_counts_def)
    then show ?thesis by (auto simp: sorted_map less_eq_prod_def case_prod_unfold elim!: sorted_wrt_mono_rel [rotated])
  qed
  then show ?thesis using one total ok by (simp add: dict_ok_def)
qed

definition said_in :: "string \<Rightarrow> string \<Rightarrow> string \<times> jobj" where
  "said_in c s = (s, [(''channel_name'', JStr c), (''authors'', JStr ''ann'')])"

theorem counts_exact_witness:
  "ordered_counts ''channel'' (count_keys (matched_keys (\<lambda>v. ''?'') (Some ''oink'') None False ''channel''
     [said_in ''a'' ''ann: oink'', said_in ''b'' ''ann: OINKING'', said_in ''b'' ''ann: oink'', said_in ''c'' ''ann: moo'']) [])
     = [(''#b'', 2), (''#a'', 1)]
   \<and> sorted (map (\<lambda>kv. - int (snd kv)) (ordered_counts ''channel'' (count_keys (matched_keys (\<lambda>v. ''?'') (Some ''oink'') None False ''channel''
     [said_in ''a'' ''ann: oink'', said_in ''b'' ''ann: OINKING'', said_in ''b'' ''ann: oink'', said_in ''c'' ''ann: moo'']) [])))"
proof -
  let ?c = "count_keys (matched_keys (\<lambda>v. ''?'') (Some ''oink'') None False ''channel''
     [said_in ''a'' ''ann: oink'', said_in ''b'' ''ann: OINKING'', said_in ''b'' ''ann: oink'', said_in ''c'' ''ann: moo'']) []"
  have "ordered_counts ''channel'' ?c = [(''#b'', 2), (''#a'', 1)]" by code_simp
  with counts_exact [of "''channel''" "\<lambda>v. ''?''" "Some ''oink''" None False
     "[said_in ''a'' ''ann: oink'', said_in ''b'' ''ann: OINKING'', said_in ''b'' ''ann: oink'', said_in ''c'' ''ann: moo'']"]
  show ?thesis by simp
qed

section \<open>The limits of a scan\<close>

text \<open>
  The scan is capped. When the store honours its limit, a literal search reports at most 5000
  matches however many there are, so a total of 5000 is no count of the archive.
\<close>

theorem scan_capped:
  assumes "\<forall>wh d n ds. c_get w wh d n = Some ds \<longrightarrow> length ds \<le> n"
    and "search_literal w t a channel start end' order limit whole = Inr (ctx, n)"
  shows "n \<le> 5000"
proof -
  have "length (kept_documents rep t a whole order ds) \<le> length ds" for rep ds
    by (simp add: kept_documents_def)
  then show ?thesis using assms
    by (fastforce simp: search_literal_def bindE_eq_Inr Let_def MAX_SCAN_def split: if_splits option.splits
        intro: order_trans)
qed

definition example_chroma :: chroma where
  "example_chroma = \<lparr>c_up = True, c_encodes = True, c_get = (\<lambda>wh d n. Some (take n [dated 3 ''ann: oink''])),
     c_query = (\<lambda>q k wh. None), c_dt = (\<lambda>s. None), c_rep = (\<lambda>v. ''?'')\<rparr>"

theorem scan_capped_witness:
  "\<exists>ctx. search_literal example_chroma (Some ''oink'') None None None None ''earliest'' 20 False = Inr (ctx, 1) \<and> (1::nat) \<le> 5000"
proof -
  let ?r = "search_literal example_chroma (Some ''oink'') None None None None ''earliest'' 20 False"
  have "case ?r of Inr (ctx, n) \<Rightarrow> n = 1 | Inl e \<Rightarrow> False" by code_simp
  then obtain ctx where r: "?r = Inr (ctx, 1)" by (auto split: sum.splits)
  have "\<forall>wh d n ds. c_get example_chroma wh d n = Some ds \<longrightarrow> length ds \<le> n" by (auto simp: example_chroma_def)
  from scan_capped [OF this r] r show ?thesis by simp
qed

text \<open>
  What a store's filter means: an equality clause on a field holds for the records that have that
  value there, a conjunction when all its members do.
\<close>

definition filter_meaning :: "(json \<Rightarrow> jobj \<Rightarrow> bool) \<Rightarrow> bool" where
  "filter_meaning holds \<longleftrightarrow>
     (\<forall>f v m. holds (clause f ''$eq'' v) m \<longleftrightarrow> map_of m f = Some v)
     \<and> (\<forall>cs m. holds (JObj [(''$and'', JList cs)]) m \<longleftrightarrow> (\<forall>c\<in>set cs. holds c m))"

text \<open>
  A channel written as Discord shows it finds nothing. The excluded channels lose their number
  sign, the one searched does not: with it, no record whose channel is a bare name passes the
  filter.
\<close>

theorem hash_channel_finds_nothing:
  assumes "filter_meaning holds" and "build_where_clause dt (Some (CHR ''#'' # name)) start end' exclude = Inr wh"
    and "map_of meta ''channel_name'' = Some (JStr other)" and "other \<noteq> CHR ''#'' # name"
  shows "\<exists>c. wh = Some c \<and> \<not> holds c meta"
proof -
  let ?c = "clause ''channel_name'' ''$eq'' (JStr (CHR ''#'' # name))"
  obtain cs where "wh = (case ?c # cs of [] \<Rightarrow> None | [c] \<Rightarrow> Some c | _ \<Rightarrow> Some (JObj [(''$and'', JList (?c # cs))]))"
    using assms(2) by (auto simp: build_where_clause_def bindE_eq_Inr Let_def)
  then have wh: "wh = Some ?c \<or> wh = Some (JObj [(''$and'', JList (?c # cs))])" by (cases cs) simp_all
  have "\<not> holds ?c meta" using assms by (simp add: filter_meaning_def)
  then show ?thesis using wh assms(1) by (auto simp: filter_meaning_def)
qed

fun plain_filter :: "json \<Rightarrow> jobj \<Rightarrow> bool" where
  "plain_filter (JObj [(f, JObj [(cmp, v)])]) m \<longleftrightarrow> map_of m f = Some v"
| "plain_filter (JObj [(f, JList cs)]) m \<longleftrightarrow> list_all (\<lambda>c. plain_filter c m) cs"
| "plain_filter v m \<longleftrightarrow> False"

theorem hash_channel_finds_nothing_witness:
  "\<exists>c. build_where_clause (\<lambda>s. None) (Some ''#lore'') None None [] = Inr (Some c)
     \<and> \<not> plain_filter c [(''channel_name'', JStr ''lore'')]"
proof -
  have m: "filter_meaning plain_filter" by (auto simp: filter_meaning_def clause_def list_all_iff)
  obtain wh where w: "build_where_clause (\<lambda>s. None) (Some ''#lore'') None None [] = Inr wh"
    by (simp add: build_where_clause_def date_clause_def)
  from hash_channel_finds_nothing [OF m w, of "[(''channel_name'', JStr ''lore'')]" "''lore''"] w
  show ?thesis by auto
qed

end
