(* ===== verification/Lore_Tools.thy ===== *)
theory Lore_Tools
  imports Lore_Agent Rag_Retrieve
begin

text \<open>
  \<open>discord-bot/lore/tools.py\<close> and \<open>rag_client.py\<close>: the handlers of the five tools, the client that
  turns every failure into an empty answer, and the service behind it.

  \<open>post\<close> is one HTTP exchange: a path and a JSON body go out, and the answer is a response of the
  service or a failure. \<open>rep\<close> is \<open>str()\<close> of a float, list or dict. An em dash is two hyphens.
\<close>

section \<open>The client\<close>

datatype exchange = Unreachable | TimedOut | Garbled | Answer response

type_synonym post = "string \<Rightarrow> jobj \<Rightarrow> exchange"

text \<open>Every branch but a good response gives an empty context and a count of zero.\<close>

definition degrade :: "exchange \<Rightarrow> string \<times> nat" where
  "degrade x = (case x of Answer (Found c n) \<Rightarrow> (c, n) | _ \<Rightarrow> ([], 0))"

definition rag_retrieve :: "post \<Rightarrow> json \<Rightarrow> json \<Rightarrow> json \<Rightarrow> json \<Rightarrow> json \<Rightarrow> string \<times> nat" where
  "rag_retrieve post q top_k channel start end' =
     degrade (post ''/retrieve''
       ([(''query'', q), (''top_k'', top_k)]
        @ (if truthy channel then [(''channel_name'', channel)] else [])
        @ (if truthy start then [(''start_date'', start)] else [])
        @ (if truthy end' then [(''end_date'', end')] else [])))"

text \<open>\<open>_post\<close>: entries that are \<open>None\<close> are left out.\<close>

definition rag_post :: "post \<Rightarrow> string \<Rightarrow> jobj \<Rightarrow> string \<times> nat" where
  "rag_post post path payload = degrade (post path (filter (\<lambda>kv. snd kv \<noteq> JNull) payload))"

definition rag_search_literal ::
  "post \<Rightarrow> json \<Rightarrow> json \<Rightarrow> json \<Rightarrow> json \<Rightarrow> json \<Rightarrow> json \<Rightarrow> json \<Rightarrow> bool \<Rightarrow> string \<times> nat" where
  "rag_search_literal post t a channel start end' order limit whole =
     rag_post post ''/search_literal''
       [(''term'', t), (''author'', a), (''channel_name'', channel), (''start_date'', start), (''end_date'', end'),
        (''order'', order), (''limit'', limit), (''whole_word'', JBool whole)]"

definition rag_aggregate ::
  "post \<Rightarrow> json \<Rightarrow> json \<Rightarrow> json \<Rightarrow> json \<Rightarrow> json \<Rightarrow> json \<Rightarrow> json \<Rightarrow> bool \<Rightarrow> json \<Rightarrow> string \<times> nat" where
  "rag_aggregate post t a channel start end' group_by top_n whole exclude =
     rag_post post ''/aggregate''
       [(''term'', t), (''author'', a), (''channel_name'', channel), (''start_date'', start), (''end_date'', end'),
        (''group_by'', group_by), (''top_n'', top_n), (''whole_word'', JBool whole), (''exclude_channels'', exclude)]"

section \<open>The handlers\<close>

definition AGENT_TOP_K :: int where "AGENT_TOP_K = 10"

definition quote :: "string \<Rightarrow> string" where
  "quote s = CHR 0x27 # s @ [CHR 0x27]"

definition date_scope :: "(json \<Rightarrow> string) \<Rightarrow> json \<Rightarrow> json \<Rightarrow> string" where
  "date_scope rep start end' =
     (if truthy start \<or> truthy end' then '' between '' @ py_str rep start @ '' and '' @ py_str rep end' else [])"

definition semantic_miss :: "(json \<Rightarrow> string) \<Rightarrow> json \<Rightarrow> json \<Rightarrow> json \<Rightarrow> json \<Rightarrow> string" where
  "semantic_miss rep q channel start end' =
     ''No results found for query '' @ quote (py_str rep q) @
     (if truthy channel then '' in channel '' @ quote (py_str rep channel) else []) @ date_scope rep start end' @
     ''. This may mean: (a) the topic was never discussed, (b) the date range is too narrow, '' @
     ''or (c) the query terms don't match how users phrased things. Try broadening the search '' @
     ''by removing date filters, using different keywords, or searching without a channel filter.''"

definition search_discord_history :: "post \<Rightarrow> (json \<Rightarrow> string) \<Rightarrow> jobj \<Rightarrow> string result" where
  "search_discord_history post rep args =
     (let q = dget args ''query'' (JStr []); channel = or_else (dget args ''channel_name'' JNull) JNull;
          start = dget args ''start_date'' JNull; end' = dget args ''end_date'' JNull;
          (ctx, n) = rag_retrieve post q (dget args ''top_k'' (JInt AGENT_TOP_K)) channel start end'
      in Inr (if n = 0 then semantic_miss rep q channel start end' else ctx))"

definition search_channel_history :: "post \<Rightarrow> (json \<Rightarrow> string) \<Rightarrow> jobj \<Rightarrow> string result" where
  "search_channel_history post rep args =
     (let q = dget args ''query'' (JStr []); channel = dget args ''channel_name'' (JStr []);
          start = dget args ''start_date'' JNull; end' = dget args ''end_date'' JNull;
          (ctx, n) = rag_retrieve post q (dget args ''top_k'' (JInt AGENT_TOP_K)) channel start end'
      in Inr (if n = 0
              then ''No results found for query '' @ quote (py_str rep q) @ '' in channel '' @
                   quote (py_str rep channel) @ date_scope rep start end' @
                   ''. This may mean the topic wasn't discussed in this channel, the date range is too narrow, '' @
                   ''or the query terms don't match. Try a different channel, broader date range, or different keywords.''
              else ctx))"

definition summarize_channel :: "post \<Rightarrow> (json \<Rightarrow> string) \<Rightarrow> jobj \<Rightarrow> string result" where
  "summarize_channel post rep args =
     (let channel = dget args ''channel_name'' (JStr []);
          start = dget args ''start_date'' JNull; end' = dget args ''end_date'' JNull;
          q = JStr (''Recent conversations and discussions in '' @ py_str rep channel);
          (ctx, n) = rag_retrieve post q (dget args ''top_k'' (JInt 20)) channel start end'
      in Inr (if n = 0
              then ''No message history found for channel '' @ quote (py_str rep channel) @ date_scope rep start end' @
                   ''. The channel may not exist, has no ingested messages, or the date range has no activity.''
              else ctx))"

definition literal_miss :: "(json \<Rightarrow> string) \<Rightarrow> json \<Rightarrow> json \<Rightarrow> string" where
  "literal_miss rep t a =
     (let term' = (if truthy t then quote (py_str rep t) else []);
          scope = (if truthy a then strip (term' @ '' by '' @ py_str rep a) else term')
      in ''No messages anywhere in the archive literally contain '' @ scope @ ''. '' @
         ''This is an exact-text search over everything, so this result is conclusive '' @
         ''for that exact wording -- do not repeat it. Either the phrasing differs '' @
         ''(try search_discord_history for the concept, or a shorter/simpler term), '' @
         ''or it genuinely was never said.'')"

definition partial_warning :: "nat \<Rightarrow> string" where
  "partial_warning missing =
     ''WARNING: '' @ str_nat missing @ '' further match(es) exist and are NOT shown, '' @
     ''so this is a partial view. Do NOT treat it as the full picture. '' @
     ''For a per-person or 'everyone' question, call count_messages with '' @
     ''group_by='author' to get the complete roster of who said it, then '' @
     ''call this tool once per person with author=<name> and limit=5, '' @
     ''picking the earliest result that genuinely matches the intent rather '' @
     ''than the first row. '' @
     ''To page through time instead, repeat with start_date set just after '' @
     ''the last result shown.'' @ [nlc]"

text \<open>\<open>context.count(sep)\<close> is one less than the pieces \<open>split\<close> gives.\<close>

definition search_exact_chronological :: "post \<Rightarrow> (json \<Rightarrow> string) \<Rightarrow> jobj \<Rightarrow> string result" where
  "search_exact_chronological post rep args =
     (let t = or_else (dget args ''term'' JNull) JNull; a = or_else (dget args ''author'' JNull) JNull;
          order = or_else (dget args ''order'' JNull) (JStr ''earliest'') in
      if \<not> truthy t \<and> \<not> truthy a
      then Inr (''Error: search_exact_chronological needs at least one of 'term' or 'author'. '' @
                ''If you do not know the exact wording, use search_discord_history instead.'')
      else let (ctx, n) = rag_search_literal post t a (dget args ''channel_name'' JNull) (dget args ''start_date'' JNull)
                 (dget args ''end_date'' JNull) order (dget args ''limit'' (JInt 20))
                 (truthy (dget args ''whole_word'' (JBool False)));
               shown' = length (split_on RAG_CHUNK_SEPARATOR ctx)
           in Inr (if n = 0 then literal_miss rep t a
                   else ''Found '' @ str_nat n @ '' matching chunk(s); showing the '' @ str_nat shown' @ '' '' @
                        (if order = JStr ''earliest'' then ''oldest'' else ''newest'') @ '' in time order.'' @ [nlc] @
                        (if n > shown' then partial_warning (n - shown') else []) @ [nlc] @ ctx))"

text \<open>The channels to leave out; a string counts as one channel.\<close>

definition bare_channel :: "json \<Rightarrow> string option result" where
  "bare_channel v =
     (if \<not> truthy v then Inr None
      else bindE (as_str v) (\<lambda>c. Inr (if strip c = [] then None else Some (strip (lstrip_char (CHR ''#'') c)))))"

definition excluded_channels :: "json \<Rightarrow> string list result" where
  "excluded_channels v =
     (let raw = or_else v (JList []) in
      bindE (case raw of JStr s \<Rightarrow> Inr [JStr s] | _ \<Rightarrow> as_items raw) (\<lambda>cs.
      bindE (mapE bare_channel cs) (\<lambda>xs. Inr (map the (filter (\<lambda>x. x \<noteq> None) xs)))))"

definition count_messages :: "post \<Rightarrow> (json \<Rightarrow> string) \<Rightarrow> jobj \<Rightarrow> string result" where
  "count_messages post rep args =
     (let t = or_else (dget args ''term'' JNull) JNull; a = or_else (dget args ''author'' JNull) JNull;
          group_by = or_else (dget args ''group_by'' JNull) (JStr ''author'') in
      bindE (excluded_channels (dget args ''exclude_channels'' JNull)) (\<lambda>ex.
        let (report, n) = rag_aggregate post t a (dget args ''channel_name'' JNull) (dget args ''start_date'' JNull)
              (dget args ''end_date'' JNull) group_by (dget args ''top_n'' (JInt 25))
              (truthy (dget args ''whole_word'' (JBool False)))
              (if ex = [] then JNull else JList (map JStr ex))
        in Inr (if n = 0
                then ''No messages matched, so there is nothing to count. This counted over the '' @
                     ''whole archive, so the answer is zero for that exact wording -- do not repeat '' @
                     ''this search.''
                else report)))"

definition HANDLERS :: "post \<Rightarrow> (json \<Rightarrow> string) \<Rightarrow> string \<Rightarrow> (jobj \<Rightarrow> string result) option" where
  "HANDLERS post rep name =
     (if name = ''search_discord_history'' then Some (search_discord_history post rep)
      else if name = ''search_channel_history'' then Some (search_channel_history post rep)
      else if name = ''summarize_channel'' then Some (summarize_channel post rep)
      else if name = ''search_exact_chronological'' then Some (search_exact_chronological post rep)
      else if name = ''count_messages'' then Some (count_messages post rep)
      else None)"

text \<open>A world of the agent whose tools are these, over a service that may change between calls.\<close>

definition equip :: "(nat \<Rightarrow> post) \<Rightarrow> world \<Rightarrow> world" where
  "equip posts w =
     w\<lparr>w_handler := (\<lambda>name. if HANDLERS (posts 0) (w_rep w) name = None then None
                          else Some (\<lambda>n args. (case HANDLERS (posts n) (w_rep w) name of
                                 None \<Rightarrow> Inl (KeyError name) | Some h \<Rightarrow> h args)))\<rparr>"

section \<open>The service behind the client\<close>

text \<open>
  The request models: a body of the declared types reaches the endpoint; what the framework makes
  of any other body is \<open>coerced\<close>.
\<close>

definition opt_str :: "jobj \<Rightarrow> string \<Rightarrow> string option option" where
  "opt_str d k = (case dget d k JNull of JNull \<Rightarrow> Some None | JStr s \<Rightarrow> Some (Some s) | _ \<Rightarrow> None)"

definition num_field :: "jobj \<Rightarrow> string \<Rightarrow> int \<Rightarrow> int option" where
  "num_field d k n = (case dget d k (JInt n) of JInt i \<Rightarrow> Some i | _ \<Rightarrow> None)"

definition str_field :: "jobj \<Rightarrow> string \<Rightarrow> string \<Rightarrow> string option" where
  "str_field d k s = (case dget d k (JStr s) of JStr x \<Rightarrow> Some x | _ \<Rightarrow> None)"

definition bool_field :: "jobj \<Rightarrow> string \<Rightarrow> bool option" where
  "bool_field d k = (case dget d k (JBool False) of JBool b \<Rightarrow> Some b | _ \<Rightarrow> None)"

definition list_field :: "jobj \<Rightarrow> string \<Rightarrow> string list option" where
  "list_field d k =
     (case dget d k JNull of
        JNull \<Rightarrow> Some []
      | JList xs \<Rightarrow> (case mapE str_item xs of Inr ss \<Rightarrow> Some ss | Inl e \<Rightarrow> None)
      | _ \<Rightarrow> None)"

definition serve_literal :: "chroma \<Rightarrow> (string \<Rightarrow> jobj \<Rightarrow> exchange) \<Rightarrow> jobj \<Rightarrow> exchange" where
  "serve_literal w coerced d =
     (case (opt_str d ''term'', opt_str d ''author'', opt_str d ''channel_name'', opt_str d ''start_date'',
            opt_str d ''end_date'', str_field d ''order'' ''earliest'', num_field d ''limit'' 20, bool_field d ''whole_word'') of
        (Some t, Some a, Some c, Some s, Some e, Some ord, Some lmt, Some whole) \<Rightarrow>
          Answer (search_literal_endpoint w t a c s e ord lmt whole)
      | _ \<Rightarrow> coerced ''/search_literal'' d)"

definition serve_retrieve :: "chroma \<Rightarrow> (string \<Rightarrow> jobj \<Rightarrow> exchange) \<Rightarrow> jobj \<Rightarrow> exchange" where
  "serve_retrieve w coerced d =
     (case (map_of d ''query'', num_field d ''top_k'' 5, opt_str d ''channel_name'', opt_str d ''start_date'', opt_str d ''end_date'') of
        (Some (JStr q), Some k, Some c, Some s, Some e) \<Rightarrow> Answer (retrieve_endpoint w q k c s e)
      | _ \<Rightarrow> coerced ''/retrieve'' d)"

definition serve_aggregate :: "chroma \<Rightarrow> (string \<Rightarrow> jobj \<Rightarrow> exchange) \<Rightarrow> jobj \<Rightarrow> exchange" where
  "serve_aggregate w coerced d =
     (case (opt_str d ''term'', opt_str d ''author'', opt_str d ''channel_name'', opt_str d ''start_date'',
            opt_str d ''end_date'', str_field d ''group_by'' ''author'', num_field d ''top_n'' 25, bool_field d ''whole_word'',
            list_field d ''exclude_channels'') of
        (Some t, Some a, Some c, Some s, Some e, Some g, Some n, Some whole, Some ex) \<Rightarrow>
          Answer (aggregate_endpoint w t a c s e g n whole ex)
      | _ \<Rightarrow> coerced ''/aggregate'' d)"

definition serve :: "chroma \<Rightarrow> (string \<Rightarrow> jobj \<Rightarrow> exchange) \<Rightarrow> post" where
  "serve w coerced path d =
     (if path = ''/retrieve'' then serve_retrieve w coerced d
      else if path = ''/search_literal'' then serve_literal w coerced d
      else if path = ''/aggregate'' then serve_aggregate w coerced d
      else coerced path d)"

section \<open>What a failure looks like\<close>

text \<open>A service that answers every request with nothing found.\<close>

definition empty_service :: post where
  "empty_service path d = Answer (Found [] 0)"

definition fails :: "exchange \<Rightarrow> bool" where
  "fails x = (case x of Answer (Found c n) \<Rightarrow> False | _ \<Rightarrow> True)"

lemma degrade_fails: "fails x \<Longrightarrow> degrade x = ([], 0)"
  by (simp add: fails_def degrade_def split: exchange.splits response.splits)

lemma degrade_empty: "degrade (empty_service path d) = ([], 0)"
  by (simp add: degrade_def empty_service_def)

text \<open>
  C22: An outage reads as an absence. While the service cannot be reached, times out or answers with
  an error, every tool returns word for word what it returns when the archive has no match; for
  the exact search that is the text which calls itself conclusive.
\<close>

theorem outage_reads_as_absence:
  assumes "\<forall>path d. fails (post path d)" and "HANDLERS post rep name = Some h"
  shows "\<exists>h'. HANDLERS empty_service rep name = Some h' \<and> h args = h' args
    \<and> (name = ''search_exact_chronological'' \<and> truthy (dget args ''term'' JNull) \<longrightarrow>
         h args = Inr (literal_miss rep (dget args ''term'' JNull) (or_else (dget args ''author'' JNull) JNull)))"
proof -
  have d: "degrade (post path e) = ([], 0)" for path e using assms(1) degrade_fails by blast
  have r: "rag_retrieve post = rag_retrieve empty_service" "rag_search_literal post = rag_search_literal empty_service"
    "rag_aggregate post = rag_aggregate empty_service" "snd (rag_search_literal post u v x y z o' l b) = 0"
    for u v x y z o' l b
    by (simp_all add: fun_eq_iff rag_retrieve_def rag_search_literal_def rag_aggregate_def rag_post_def d degrade_empty)
  have same: "search_discord_history post = search_discord_history empty_service"
    "search_channel_history post = search_channel_history empty_service"
    "summarize_channel post = summarize_channel empty_service"
    "search_exact_chronological post = search_exact_chronological empty_service"
    "count_messages post = count_messages empty_service"
    by (intro ext; unfold search_discord_history_def search_channel_history_def summarize_channel_def
        search_exact_chronological_def count_messages_def r(1-3); rule refl)+
  then have "HANDLERS empty_service rep name = Some h" using assms(2) by (simp add: HANDLERS_def split: if_splits)
  moreover have "h args = Inr (literal_miss rep (dget args ''term'' JNull) (or_else (dget args ''author'' JNull) JNull))"
    if "name = ''search_exact_chronological'' \<and> truthy (dget args ''term'' JNull)"
    using that assms(2) by (auto simp: HANDLERS_def search_exact_chronological_def Let_def or_else_def r(4) case_prod_unfold)
  ultimately show ?thesis by blast
qed

theorem outage_reads_as_absence_witness:
  "\<exists>h. HANDLERS (\<lambda>p d. Unreachable) (\<lambda>v. ''?'') ''search_exact_chronological'' = Some h
     \<and> h [(''term'', JStr ''oink'')] = Inr (literal_miss (\<lambda>v. ''?'') (JStr ''oink'') JNull)"
proof -
  obtain h where h: "HANDLERS (\<lambda>p d. Unreachable) (\<lambda>v. ''?'') ''search_exact_chronological'' = Some h"
    by (simp add: HANDLERS_def)
  have f: "\<forall>path d. fails ((\<lambda>p d. Unreachable) path d)" by (simp add: fails_def)
  have t: "dget [(''term'', JStr ''oink'')] ''term'' JNull = JStr ''oink''" "truthy (JStr ''oink'')"
    "or_else (dget [(''term'', JStr ''oink'')] ''author'' JNull) JNull = JNull"
    by (simp_all add: dget_def or_else_def)
  from outage_reads_as_absence [OF f h, of "[(''term'', JStr ''oink'')]"] h t show ?thesis by auto
qed

text \<open>
  A date that cannot be read ends in the same words. The service answers such a request with an
  internal error, because the date is converted outside its error handling, and the agent is told
  that the word was never said.
\<close>

theorem bad_date_reads_as_absence:
  assumes "c_up w" and "c_dt w (utc_suffix d) = None" and "d \<noteq> []" and "t \<noteq> []"
  shows "search_exact_chronological (serve w coerced) rep [(''term'', JStr t), (''start_date'', JStr d)]
    = Inr (literal_miss rep (JStr t) JNull)"
proof -
  have "search_literal w (Some t) None None (Some d) None ''earliest'' 20 False = Inl ValueError"
    using assms by (simp add: search_literal_def is_set_def build_where_clause_def date_clause_def iso_to_epoch_def)
  then have "search_literal_endpoint w (Some t) None None (Some d) None ''earliest'' 20 False = Status 500"
    using assms(4) by (simp add: search_literal_endpoint_def is_set_def respond_def)
  then have "serve w coerced ''/search_literal'' [(''term'', JStr t), (''start_date'', JStr d),
      (''order'', JStr ''earliest''), (''limit'', JInt 20), (''whole_word'', JBool False)] = Answer (Status 500)"
    by (simp add: serve_def serve_literal_def opt_str_def str_field_def num_field_def bool_field_def dget_def)
  then have "rag_search_literal (serve w coerced) (JStr t) JNull JNull (JStr d) JNull (JStr ''earliest'') (JInt 20) False = ([], 0)"
    by (simp add: rag_search_literal_def rag_post_def degrade_def)
  then show ?thesis using assms(4)
    by (simp add: search_exact_chronological_def Let_def dget_def or_else_def)
qed

theorem bad_date_reads_as_absence_witness:
  "search_exact_chronological (serve example_chroma (\<lambda>p d. Garbled)) (\<lambda>v. ''?'')
      [(''term'', JStr ''oink''), (''start_date'', JStr ''May 2024'')] = Inr (literal_miss (\<lambda>v. ''?'') (JStr ''oink'') JNull)"
  by (rule bad_date_reads_as_absence) (simp_all add: example_chroma_def)

section \<open>Errors for the model to read\<close>

text \<open>
  A tool call with an argument object never ends the run. Whatever the name, the arguments and the
  service do, the model gets a text back: the result, a sentence about the miss, the error of the
  handler, or that there is no such tool.
\<close>

theorem tools_answer:
  "\<exists>out. execute_tool (equip posts w) n (JStr name) (JObj args) = Inr out
     \<and> (HANDLERS (posts n) (w_rep w) name = None \<longrightarrow> out = ''Error: Unknown tool '' @ [CHR 0x27] @ name @ [CHR 0x27] @ ''.'')
     \<and> (\<forall>h. HANDLERS (posts n) (w_rep w) name = Some h \<longrightarrow>
          out = (case h args of Inl e \<Rightarrow> w_error_text w name e | Inr t \<Rightarrow> t))"
proof -
  have same: "HANDLERS (posts 0) (w_rep w) name = None \<longleftrightarrow> HANDLERS (posts n) (w_rep w) name = None"
    by (simp add: HANDLERS_def)
  show ?thesis
    by (cases "HANDLERS (posts n) (w_rep w) name")
      (auto simp: execute_tool_def equip_def as_obj_def same split: sum.splits)
qed

theorem tools_answer_witness:
  "\<exists>out. execute_tool (equip (\<lambda>n p d. Unreachable) stubborn) 0 (JStr ''count_messages'') (JObj [(''exclude_channels'', JInt 3)]) = Inr out
     \<and> out = ''count_messages''"
proof -
  have h: "HANDLERS (\<lambda>p d. Unreachable) (w_rep stubborn) ''count_messages'' = Some (count_messages (\<lambda>p d. Unreachable) (w_rep stubborn))"
    by (simp add: HANDLERS_def)
  have c: "count_messages (\<lambda>p d. Unreachable) (w_rep stubborn) [(''exclude_channels'', JInt 3)] = Inl TypeError"
    by (simp add: count_messages_def excluded_channels_def dget_def or_else_def as_items_def)
  from tools_answer [of "\<lambda>n p d. Unreachable" stubborn 0 "''count_messages''" "[(''exclude_channels'', JInt 3)]"] h c
  show ?thesis by (auto simp: stubborn_def)
qed

end
