(* ===== verification/Proxy_Client.thy ===== *)
theory Proxy_Client
  imports Lore_Agent
begin

text \<open>
  \<open>discord-bot/proxy_client.py\<close> and \<open>lore/context_window.py\<close>: what the bot makes of the proxy's
  answers, and the context window it works with.

  One request is a parameter: the connection fails, times out, or an answer with a status, its text
  and what \<open>json()\<close> makes of it. A streamed answer is its lines and how it ended. \<open>loads\<close> is
  \<open>json.loads\<close>. The payload that goes out is not modelled.
\<close>

section \<open>Answers\<close>

datatype http_reply = ConnectFailed | ReadTimeout | Reply nat string "json result"

definition unreachable :: string where
  "unreachable = ''The AI backend is currently unreachable. Try again in a moment.''"

definition busy :: string where "busy = ''Request timed out. The model may be busy.''"

definition no_answer :: string where "no_answer = ''The model returned an empty response.''"

definition status_error :: "nat \<Rightarrow> string \<Rightarrow> string" where
  "status_error n body = ''Proxy returned error '' @ str_nat n @ '': '' @ take 200 body"

text \<open>\<open>choices[0]\<close> of a truthy value.\<close>

definition first_of :: "json \<Rightarrow> json result" where
  "first_of v =
     (case v of
        JList (x # xs) \<Rightarrow> Inr x | JList [] \<Rightarrow> Inl IndexError
      | JStr (c # cs) \<Rightarrow> Inr (JStr [c]) | JStr [] \<Rightarrow> Inl IndexError
      | JObj kvs \<Rightarrow> Inl (KeyError ''0'') | _ \<Rightarrow> Inl TypeError)"

definition reply_data :: "http_reply \<Rightarrow> jobj agent" where
  "reply_data r =
     (case r of
        ConnectFailed \<Rightarrow> Inl (Proxy unreachable)
      | ReadTimeout \<Rightarrow> Inl (Proxy busy)
      | Reply n body data \<Rightarrow>
          if n \<noteq> 200 then Inl (Proxy (status_error n body)) else lift_err (bindE data as_obj))"

definition first_message :: "jobj \<Rightarrow> jobj agent" where
  "first_message d =
     (let choices = dget d ''choices'' (JList []) in
      if \<not> truthy choices then Inl (Proxy no_answer)
      else lift_err (bindE (first_of choices) (\<lambda>c. bindE (as_obj c) (\<lambda>ch. as_obj (dget ch ''message'' (JObj []))))))"

definition py_strip :: "json \<Rightarrow> string result" where
  "py_strip v = (case v of JStr s \<Rightarrow> Inr (strip s) | _ \<Rightarrow> Inl AttributeError)"

definition chat :: "http_reply \<Rightarrow> string agent" where
  "chat r =
     bindA (reply_data r) (\<lambda>d.
     bindA (first_message d) (\<lambda>m.
     bindA (lift_err (py_strip (dget m ''content'' (JStr [])))) (\<lambda>s.
       if s = [] then Inl (Proxy no_answer) else Inr s)))"

definition chat_with_tools :: "http_reply \<Rightarrow> reply agent" where
  "chat_with_tools r =
     bindA (reply_data r) (\<lambda>d.
     bindA (first_message d) (\<lambda>m.
       Inr \<lparr>r_content = dget m ''content'' JNull, r_tool_calls = dget m ''tool_calls'' JNull,
            r_usage = dget d ''usage'' JNull, r_reasoning = dget m ''reasoning_content'' JNull\<rparr>))"

section \<open>Streams\<close>

datatype sse_end = Finished | StreamConnect | StreamTimeout

record stream_state =
  s_tokens :: "json list"
  s_usage :: jobj

text \<open>The usage of a chunk is laid over what the sink has.\<close>

definition merge_usage :: "jobj \<Rightarrow> jobj \<Rightarrow> jobj" where
  "merge_usage u sink = fold (\<lambda>(k, v). dset k v) u sink"

definition take_chunk :: "json \<Rightarrow> stream_state \<Rightarrow> stream_state result" where
  "take_chunk v st =
     bindE (as_obj v) (\<lambda>d.
     bindE (if truthy (dget d ''usage'' JNull)
            then bindE (as_obj (dget d ''usage'' JNull)) (\<lambda>u. Inr (st\<lparr>s_usage := merge_usage u (s_usage st)\<rparr>))
            else Inr st) (\<lambda>st1.
       if \<not> truthy (dget d ''choices'' (JList [])) then Inr st1
       else bindE (first_of (dget d ''choices'' (JList []))) (\<lambda>c.
            bindE (as_obj c) (\<lambda>ch.
            bindE (as_obj (dget ch ''delta'' (JObj []))) (\<lambda>delta.
              let content = dget delta ''content'' (JStr []) in
              Inr (if truthy content then st1\<lparr>s_tokens := s_tokens st1 @ [content]\<rparr> else st1))))))"

text \<open>One line: anything but a data line with JSON in it is passed over, the closing mark too.\<close>

definition take_line :: "(string \<Rightarrow> json result) \<Rightarrow> string \<Rightarrow> stream_state \<Rightarrow> stream_state result" where
  "take_line loads line st =
     (if \<not> starts_with line ''data: '' then Inr st
      else let data = drop 6 line in
           if data = ''[DONE]'' then Inr st
           else case loads data of Inl e \<Rightarrow> Inr st | Inr v \<Rightarrow> take_chunk v st)"

fun take_lines :: "(string \<Rightarrow> json result) \<Rightarrow> string list \<Rightarrow> stream_state \<Rightarrow> stream_state result" where
  "take_lines loads [] st = Inr st"
| "take_lines loads (l # ls) st = bindE (take_line loads l st) (take_lines loads ls)"

text \<open>
  \<open>stream_answer\<close> over \<open>chat_stream\<close>: the tokens joined, and the usage. Joining needs strings.
\<close>

definition stream_answer ::
  "(string \<Rightarrow> json result) \<Rightarrow> nat \<Rightarrow> string \<Rightarrow> string list \<Rightarrow> sse_end \<Rightarrow> (string \<times> json) agent" where
  "stream_answer loads status body lines fin =
     (if fin = StreamConnect \<and> lines = [] then Inl (Proxy unreachable)
      else if status \<noteq> 200 then Inl (Proxy (status_error status body))
      else bindA (lift_err (take_lines loads lines \<lparr>s_tokens = [], s_usage = []\<rparr>)) (\<lambda>st.
        case fin of
          StreamTimeout \<Rightarrow> Inl (Proxy ''The model stopped sending output. It may be overloaded.'')
        | StreamConnect \<Rightarrow> Inl (Proxy unreachable)
        | Finished \<Rightarrow> lift_err (bindE (mapE str_item (s_tokens st)) (\<lambda>ts. Inr (concat ts, JObj (s_usage st))))))"

section \<open>Models\<close>

definition models_payload :: "http_reply \<Rightarrow> json list result" where
  "models_payload r =
     (case r of
        Reply n body data \<Rightarrow>
          if n \<noteq> 200 then Inr []
          else (case data of
                  Inl e \<Rightarrow> Inr []
                | Inr v \<Rightarrow> bindE (as_obj v) (\<lambda>d.
                    Inr (case dget d ''data'' JNull of JList xs \<Rightarrow> xs | _ \<Rightarrow> [])))
      | _ \<Rightarrow> Inr [])"

definition list_models :: "http_reply \<Rightarrow> json list result" where
  "list_models r =
     bindE (models_payload r) (\<lambda>ms. bindE (mapE as_obj ms) (\<lambda>ds.
       Inr (filter truthy (map (\<lambda>d. dget d ''id'' JNull) ds))))"

text \<open>The entry after the first occurrence of a flag.\<close>

fun after_flag :: "json \<Rightarrow> json list \<Rightarrow> json option" where
  "after_flag flag (x # y # xs) = (if x = flag then Some y else after_flag flag (y # xs))"
| "after_flag flag xs = None"

definition int_of :: "json \<Rightarrow> int option" where
  "int_of v = (case py_int v of Inr n \<Rightarrow> Some n | Inl e \<Rightarrow> None)"

definition size_of_args :: "json list \<Rightarrow> int option" where
  "size_of_args args =
     (if JStr ''--ctx-size'' \<in> set args then Option.bind (after_flag (JStr ''--ctx-size'') args) int_of
      else if JStr ''-c'' \<in> set args then Option.bind (after_flag (JStr ''-c'') args) int_of
      else None)"

definition add_size :: "json \<Rightarrow> (json \<times> int) list \<Rightarrow> (json \<times> int) list result" where
  "add_size ent sizes =
     bindE (as_obj ent) (\<lambda>d.
     bindE (as_obj (or_else (dget d ''status'' JNull) (JObj []))) (\<lambda>st.
       let mid = dget d ''id'' JNull in
       Inr (if \<not> truthy mid then sizes
            else case dget st ''args'' JNull of
                   JList args \<Rightarrow> (case size_of_args args of None \<Rightarrow> sizes | Some n \<Rightarrow> dset mid n sizes)
                 | _ \<Rightarrow> sizes)))"

fun add_sizes :: "json list \<Rightarrow> (json \<times> int) list \<Rightarrow> (json \<times> int) list result" where
  "add_sizes [] sizes = Inr sizes"
| "add_sizes (e # es) sizes = bindE (add_size e sizes) (add_sizes es)"

definition model_context_sizes :: "http_reply \<Rightarrow> (json \<times> int) list result" where
  "model_context_sizes r = bindE (models_payload r) (\<lambda>es. add_sizes es [])"

section \<open>The context window\<close>

definition AGENT_CTX_LIMIT_FALLBACK :: int where "AGENT_CTX_LIMIT_FALLBACK = 96000"
definition AGENT_MODEL :: string where "AGENT_MODEL = ''brain-dense-heretic''"

definition limit_of :: "int option \<Rightarrow> int" where
  "limit_of cached = (case cached of Some n \<Rightarrow> n | None \<Rightarrow> AGENT_CTX_LIMIT_FALLBACK)"

text \<open>The cached value afterwards and whether one was found.\<close>

definition discover :: "http_reply \<Rightarrow> int option \<Rightarrow> (int option \<times> bool) result" where
  "discover r cached =
     bindE (model_context_sizes r) (\<lambda>sizes.
       Inr (if sizes = [] then (cached, False)
            else case map_of sizes (JStr AGENT_MODEL) of
                   None \<Rightarrow> (cached, False) | Some n \<Rightarrow> (Some n, True)))"

definition ensure_discovered :: "http_reply \<Rightarrow> int option \<Rightarrow> int option result" where
  "ensure_discovered r cached =
     (if cached = None then bindE (discover r cached) (\<lambda>(c, ok). Inr c) else Inr cached)"

section \<open>Theorems\<close>

text \<open>A line the reader passes over, and one that carries a piece of text and nothing else.\<close>

definition ignored :: "(string \<Rightarrow> json result) \<Rightarrow> string \<Rightarrow> bool" where
  "ignored loads l \<longleftrightarrow> \<not> starts_with l ''data: '' \<or> l = ''data: [DONE]'' \<or> isl (loads (drop 6 l))"

definition carries :: "(string \<Rightarrow> json result) \<Rightarrow> string \<Rightarrow> string \<Rightarrow> bool" where
  "carries loads t l \<longleftrightarrow> starts_with l ''data: '' \<and> l \<noteq> ''data: [DONE]'' \<and>
     loads (drop 6 l) = Inr (JObj [(''choices'', JList [JObj [(''delta'', JObj [(''content'', JStr t)])]])])"

text \<open>The pieces a list of lines carries.\<close>

inductive carried :: "(string \<Rightarrow> json result) \<Rightarrow> string list \<Rightarrow> string list \<Rightarrow> bool" for loads where
  none: "carried loads [] []"
| skip: "ignored loads l \<Longrightarrow> carried loads ls ts \<Longrightarrow> carried loads (l # ls) ts"
| more: "carries loads t l \<Longrightarrow> carried loads ls ts \<Longrightarrow> carried loads (l # ls) (t # ts)"

lemma ignored_line: "ignored loads l \<Longrightarrow> take_line loads l st = Inr st"
  by (auto simp: take_line_def ignored_def starts_with_def prefix_def Let_def split: sum.splits)

lemma carries_line: "carries loads t l \<Longrightarrow>
    take_line loads l st = Inr (if t = [] then st else st\<lparr>s_tokens := s_tokens st @ [JStr t]\<rparr>)"
proof -
  assume c: "carries loads t l"
  have "drop 6 l \<noteq> ''[DONE]''"
  proof
    assume "drop 6 l = ''[DONE]''"
    moreover have "l = ''data: '' @ drop 6 l" using c by (auto simp: carries_def starts_with_def prefix_def)
    ultimately show False using c by (simp add: carries_def)
  qed
  then show ?thesis using c
    by (simp add: take_line_def carries_def Let_def take_chunk_def as_obj_def dget_def first_of_def)
qed

lemma carried_lines:
  "carried loads ls ts \<Longrightarrow>
     take_lines loads ls st = Inr (st\<lparr>s_tokens := s_tokens st @ map JStr (filter (\<lambda>t. t \<noteq> []) ts)\<rparr>)"
  by (induction arbitrary: st rule: carried.induct) (auto simp: ignored_line carries_line)

text \<open>
  A stream is read completely. Whatever comments, blank lines, unreadable data or closing marks
  stand between them, the text of a stream that ends well is the pieces it carried, joined in
  order; when it ends badly, the run gets an error and no part of the text.
\<close>

theorem stream_complete:
  assumes "carried loads ls ts"
  shows "stream_answer loads 200 body ls Finished = Inr (concat ts, JObj [])
    \<and> (\<forall>fin. fin \<noteq> Finished \<longrightarrow> (\<exists>e. stream_answer loads 200 body ls fin = Inl (Proxy e)))"
proof -
  have items: "mapE str_item (map JStr us) = Inr us" for us
    by (induction us) (simp_all add: str_item_def)
  have cc: "concat (filter (\<lambda>t. t \<noteq> []) ts) = concat ts" by (induction ts) auto
  have l: "take_lines loads ls \<lparr>s_tokens = [], s_usage = []\<rparr>
      = Inr \<lparr>s_tokens = map JStr (filter (\<lambda>t. t \<noteq> []) ts), s_usage = []\<rparr>"
    using carried_lines [OF assms, of "\<lparr>s_tokens = [], s_usage = []\<rparr>"] by simp
  have "stream_answer loads 200 body ls Finished = Inr (concat ts, JObj [])"
    by (simp add: stream_answer_def l bindA_def items cc lift_err_def)
  moreover have "\<exists>e. stream_answer loads 200 body ls fin = Inl (Proxy e)" if "fin \<noteq> Finished" for fin
    using that by (cases fin) (simp_all add: stream_answer_def l bindA_def lift_err_def)
  ultimately show ?thesis by blast
qed

definition sample_loads :: "string \<Rightarrow> json result" where
  "sample_loads s = (if s = ''1'' then Inr (JObj [(''choices'', JList [JObj [(''delta'', JObj [(''content'', JStr ''Hi'')])]])])
     else Inl ValueError)"

theorem stream_complete_witness:
  "stream_answer sample_loads 200 [] ['': ping'', ''data: 1'', ''data: {'', ''data: [DONE]'', ''data: 1''] Finished
     = Inr (''HiHi'', JObj [])"
proof -
  have i: "ignored sample_loads '': ping''" "ignored sample_loads ''data: {''" "ignored sample_loads ''data: [DONE]''"
    by (simp_all add: ignored_def starts_with_def sample_loads_def)
  have c: "carries sample_loads ''Hi'' ''data: 1''" by (simp add: carries_def starts_with_def sample_loads_def)
  have "carried sample_loads ['': ping'', ''data: 1'', ''data: {'', ''data: [DONE]'', ''data: 1''] [''Hi'', ''Hi'']"
    by (rule carried.skip [OF i(1)], rule carried.more [OF c], rule carried.skip [OF i(2)],
        rule carried.skip [OF i(3)], rule carried.more [OF c], rule carried.none)
  from stream_complete [OF this, of "[]"] show ?thesis by simp
qed

text \<open>
  A null content is not an empty answer. A reply whose message has \<open>content\<close> present but null, as
  one that only calls tools or only reasons does, raises instead of the error the caller shows.
\<close>

theorem null_content_raises:
  "chat (Reply 200 body (Inr (JObj [(''choices'', JList [JObj [(''message'', JObj [(''content'', JNull)])]])])))
     = Inl (Raised AttributeError)"
  by (simp add: chat_def reply_data_def first_message_def first_of_def as_obj_def dget_def py_strip_def
      lift_err_def bindA_def Let_def)

text \<open>
  A window of zero ends every run that searches. When the backend reports \<open>--ctx-size 0\<close>, its
  spelling of the model's own size, the limit is zero; after the first results that call for
  compaction the log line divides by it, and the run ends in an exception.
\<close>

theorem zero_window_ends_the_run:
  assumes "discover (Reply 200 body (Inr (JObj [(''data'', JList [JObj [(''id'', JStr AGENT_MODEL),
      (''status'', JObj [(''args'', JList [JStr ''--ctx-size'', JStr ''0''])])]])]))) None = Inr (cached, ok)"
    and "w_limit w = limit_of cached" and "l_repeats l < 2" and "projected_tokens l chars \<ge> 0"
  shows "after_calls w l chars = Inl ZeroDivisionError"
proof -
  have "py_int (JStr ''0'') = Inr 0" by code_simp
  then have "int_of (JStr ''0'') = Some 0" by (simp add: int_of_def)
  then have "cached = Some 0"
    using assms(1) by (simp add: discover_def model_context_sizes_def models_payload_def as_obj_def dget_def add_size_def
        or_else_def size_of_args_def Let_def AGENT_MODEL_def)
  then show ?thesis using assms(2-4)
    by (simp add: limit_of_def after_calls_def AGENT_MAX_REPEATED_SEARCHES_def Let_def)
qed

theorem zero_window_ends_the_run_witness:
  "\<exists>cached ok. discover (Reply 200 [] (Inr (JObj [(''data'', JList [JObj [(''id'', JStr AGENT_MODEL),
      (''status'', JObj [(''args'', JList [JStr ''--ctx-size'', JStr ''0''])])]])]))) None = Inr (cached, ok)
     \<and> after_calls (stubborn\<lparr>w_limit := limit_of cached\<rparr>) (loop_init [] 0 {}) 9 = Inl ZeroDivisionError"
proof -
  let ?d = "discover (Reply 200 [] (Inr (JObj [(''data'', JList [JObj [(''id'', JStr AGENT_MODEL),
      (''status'', JObj [(''args'', JList [JStr ''--ctx-size'', JStr ''0''])])]])]))) None"
  have "\<not> isl ?d" by code_simp
  then obtain cached ok where d: "?d = Inr (cached, ok)" by (cases ?d) auto
  have "l_repeats (loop_init [] 0 {}) < 2" "projected_tokens (loop_init [] 0 {}) 9 \<ge> 0"
    by (simp_all add: loop_init_def projected_tokens_def context_used_def metrics_init_def TOOL_CHARS_PER_TOKEN_def)
  from zero_window_ends_the_run [OF d _ this, of "stubborn\<lparr>w_limit := limit_of cached\<rparr>"] d show ?thesis by simp
qed

text \<open>
  The window is the server's own. After a discovery that found something, the limit is the number
  behind the long flag of the agent model's last entry that has a readable one; a discovery that
  failed leaves the limit as it was.
\<close>

theorem limit_discovered:
  assumes "discover r cached = Inr (cached', ok)"
  shows "(ok \<longrightarrow> (\<exists>sizes. model_context_sizes r = Inr sizes \<and> map_of sizes (JStr AGENT_MODEL) = Some (limit_of cached')))
    \<and> (\<not> ok \<longrightarrow> limit_of cached' = limit_of cached)"
  using assms by (auto simp: discover_def bindE_eq_Inr limit_of_def split: if_splits option.splits)

theorem limit_discovered_witness:
  "\<exists>cached'. discover ConnectFailed (Some 5) = Inr (cached', False) \<and> limit_of cached' = 5"
proof -
  have d: "discover ConnectFailed (Some 5) = Inr (Some 5, False)"
    by (simp add: discover_def model_context_sizes_def models_payload_def)
  from limit_discovered [OF d] d show ?thesis by (simp add: limit_of_def)
qed

end
