(* ===== verification/Lore_Cog.thy ===== *)
theory Lore_Cog
  imports Proxy_Client Chat_State
begin

text \<open>
  \<open>discord-bot/cogs/lore.py\<close>, the thread router of \<open>services.py\<close> and the restoration of threads in
  \<open>cogs/chat.py\<close>: offers claimed by a reaction, follow-up turns under one lock per thread, the sweep
  that retires quiet threads, the restart. Handlers are cut at their suspension points; a run is
  any interleaving of their pieces. Discord, the clock and the model answer through the events. A
  handler's position says which lock it holds and, once it has read it, which session.

  \<open>asyncio.Lock\<close> is modelled as the library has it: a free lock with waiters goes to the first of
  them, who takes it when it wakes. Lock objects are numbered, because a thread's lock is forgotten
  while handlers still use it. Status edits swallow their errors and appear only as suspension
  points; log lines and message texts do not appear.
\<close>

section \<open>State\<close>

record lock =
  k_owner :: "nat option"
  k_waiters :: "nat list"

datatype turn_pc =
    TDiscover                    \<comment> \<open>\<open>ensure_discovered\<close>\<close>
  | TRefused                     \<comment> \<open>telling the author to slow down\<close>
  | TStatus                      \<comment> \<open>opening the status message\<close>
  | TWaiting nat                 \<comment> \<open>\<open>status.waiting()\<close>\<close>
  | TLock nat                    \<comment> \<open>in the queue of the lock\<close>
  | TTyping nat session
  | TRounds nat session
  | TAnswer nat session "string option" conversation metrics
  | TFailing nat                 \<comment> \<open>\<open>status.failed()\<close>\<close>
  | TPost nat session
  | TCompact nat session

record followup =
  u_thread :: int
  u_author :: int
  u_text :: string
  u_pc :: turn_pc

datatype claim_pc = CChannel | CExpired | CFetch session | CCreate | CGreet | CEdit

text \<open>\<open>b_sweep\<close>: the thread being told, and those still to look at. \<open>b_restore\<close>: the registry's
  entries not yet checked. \<open>b_created\<close> and \<open>b_ids\<close> are Discord's: the threads opened from offers, and
  all thread ids it has given out.\<close>

record bot =
  b_store :: lore_store
  b_models :: "(int \<times> string) list"
  b_lore :: "int set"
  b_locks :: "(int \<times> nat) list"
  b_heap :: "lock list"
  b_claiming :: "int set"
  b_registry :: registry
  b_limiter :: limiter
  b_turns :: "(nat \<times> followup) list"
  b_next :: nat
  b_claims :: "(int \<times> claim_pc) list"
  b_sweep :: "(int \<times> int list) option"
  b_restore :: "(int \<times> thread_entry) list"
  b_created :: "(int \<times> int) list"
  b_ids :: "int set"

definition LORE_OFFER_TTL_SECONDS :: real where "LORE_OFFER_TTL_SECONDS = 7 * 24 * 3600"
definition LORE_THREAD_TTL_SECONDS :: real where "LORE_THREAD_TTL_SECONDS = 7 * 24 * 3600"
definition MAX_QUEUE_DEPTH :: int where "MAX_QUEUE_DEPTH = 3"

definition is_lore :: "int \<Rightarrow> registry \<Rightarrow> bool" where
  "is_lore tid r \<longleftrightarrow> get_kind tid r = ''lore''"

section \<open>The command and its offer\<close>

text \<open>
  \<open>/lore\<close>: refused when the queue is long, an unreachable proxy does not refuse. What it posts, and
  whether it goes on to offer a thread.
\<close>

datatype lore_reply = Busy int | Posted "string list" | BackendError string | Unexpected

definition lore_command :: "int option \<Rightarrow> run_result agent \<Rightarrow> (string \<Rightarrow> string list option) \<Rightarrow> lore_reply \<times> bool" where
  "lore_command depth run embeds =
     (if (case depth of None \<Rightarrow> False | Some d \<Rightarrow> d \<ge> MAX_QUEUE_DEPTH) then (Busy (case depth of None \<Rightarrow> 0 | Some d \<Rightarrow> d), False)
      else case run of
             Inl (Proxy e) \<Rightarrow> (BackendError e, False)
           | Inl (Raised e) \<Rightarrow> (Unexpected, False)
           | Inr r \<Rightarrow> (case embeds (run_answer r) of
                         None \<Rightarrow> (Unexpected, False) | Some es \<Rightarrow> (Posted es, run_good r)))"

text \<open>The offer is posted and has its reaction; the session is seeded and parked. A seed that raises
  is logged and there is no offer.\<close>

definition offer_thread ::
  "(string \<Rightarrow> real option) \<Rightarrow> world \<Rightarrow> string \<Rightarrow> string \<Rightarrow> string \<Rightarrow> string \<Rightarrow> run_result \<Rightarrow> int \<Rightarrow> real \<Rightarrow> bool \<Rightarrow> bot \<Rightarrow> bot" where
  "offer_thread ts w stamp_now pinned prompt question r m now ok s =
     (case seed_session_from_run w stamp_now pinned 0 prompt question r of
        Inl e \<Rightarrow> s
      | Inr se \<Rightarrow> s\<lparr>b_store := offer ok ts now m se LORE_OFFER_TTL_SECONDS (b_store s)\<rparr>)"

section \<open>Claiming an offer\<close>

definition set_claim :: "int \<Rightarrow> claim_pc \<Rightarrow> bot \<Rightarrow> bot" where
  "set_claim m pc s = s\<lparr>b_claims := dset m pc (b_claims s)\<rparr>"

definition claim_end :: "int \<Rightarrow> bot \<Rightarrow> bot" where
  "claim_end m s = s\<lparr>b_claims := dpop m (b_claims s), b_claiming := b_claiming s - {m}\<rparr>"

definition peek_offer :: "int \<Rightarrow> lore_store \<Rightarrow> session option" where
  "peek_offer m st = map_of (s_pending st) m"

definition claim_start :: "int \<Rightarrow> bot \<Rightarrow> bot" where
  "claim_start m s =
     set_claim m (case peek_offer m (b_store s) of None \<Rightarrow> CExpired | Some pending \<Rightarrow> CFetch pending) s"

definition reaction :: "bool \<Rightarrow> bool \<Rightarrow> int \<Rightarrow> bool \<Rightarrow> bot \<Rightarrow> bot" where
  "reaction own emoji m cached s =
     (if own \<or> \<not> emoji \<or> peek_offer m (b_store s) = None \<or> m \<in> b_claiming s then s
      else let s1 = s\<lparr>b_claiming := insert m (b_claiming s)\<rparr>
           in if cached then claim_start m s1 else set_claim m CChannel s1)"

text \<open>\<open>question[:60].strip() or 'lore'\<close>; a question that is no string cannot be stripped.\<close>

definition lore_thread_name :: "json \<Rightarrow> string result" where
  "lore_thread_name q =
     (case q of
        JStr t \<Rightarrow> Inr (''lore-'' @ (if strip (take 60 t) = [] then ''lore'' else strip (take 60 t)))
      | JList xs \<Rightarrow> Inl AttributeError
      | _ \<Rightarrow> Inl TypeError)"

datatype claim_answer = CYes | CNo | COpened int string string bool bool

text \<open>The thread exists: the offer is popped and the thread routed and registered.\<close>

definition opened :: "int \<Rightarrow> int \<Rightarrow> string \<Rightarrow> string \<Rightarrow> bool \<Rightarrow> bool \<Rightarrow> bot \<Rightarrow> bot" where
  "opened m tid name now ok1 ok2 s =
     (let s0 = s\<lparr>b_created := b_created s @ [(m, tid)], b_ids := insert tid (b_ids s)\<rparr> in
      case claim ok1 m tid (b_store s0) of
        (st, None) \<Rightarrow> claim_end m (s0\<lparr>b_store := st\<rparr>)
      | (st, Some se) \<Rightarrow>
          set_claim m CGreet
            (s0\<lparr>b_store := st, b_models := dset tid AGENT_MODEL (b_models s0), b_lore := insert tid (b_lore s0),
                b_registry := register ok2 now tid AGENT_MODEL name ''lore'' (b_registry s0)\<rparr>))"

definition claim_reply :: "int \<Rightarrow> claim_answer \<Rightarrow> bot \<Rightarrow> bot" where
  "claim_reply m a s =
     (case map_of (b_claims s) m of
        None \<Rightarrow> s
      | Some pc \<Rightarrow>
          (case (pc, a) of
             (CChannel, CYes) \<Rightarrow> claim_start m s
           | (CFetch pending, CYes) \<Rightarrow>
               (case lore_thread_name (original_question pending) of
                  Inl e \<Rightarrow> claim_end m s | Inr n \<Rightarrow> set_claim m CCreate s)
           | (CCreate, COpened tid name now ok1 ok2) \<Rightarrow> opened m tid name now ok1 ok2 s
           | (CGreet, CYes) \<Rightarrow> set_claim m CEdit s
           | (_, COpened tid name now ok1 ok2) \<Rightarrow> s
           | _ \<Rightarrow> claim_end m s))"

section \<open>Follow-up turns\<close>

definition set_turn :: "nat \<Rightarrow> turn_pc \<Rightarrow> bot \<Rightarrow> bot" where
  "set_turn i pc s =
     (case map_of (b_turns s) i of
        None \<Rightarrow> s | Some u \<Rightarrow> s\<lparr>b_turns := dset i (u\<lparr>u_pc := pc\<rparr>) (b_turns s)\<rparr>)"

definition drop_turn :: "nat \<Rightarrow> bot \<Rightarrow> bot" where
  "drop_turn i s = s\<lparr>b_turns := dpop i (b_turns s)\<rparr>"

definition set_owner :: "nat \<Rightarrow> nat option \<Rightarrow> bot \<Rightarrow> bot" where
  "set_owner k p s = s\<lparr>b_heap := (b_heap s)[k := (b_heap s ! k)\<lparr>k_owner := p\<rparr>]\<rparr>"

definition set_waiters :: "nat \<Rightarrow> nat list \<Rightarrow> bot \<Rightarrow> bot" where
  "set_waiters k is s = s\<lparr>b_heap := (b_heap s)[k := (b_heap s ! k)\<lparr>k_waiters := is\<rparr>]\<rparr>"

text \<open>The end of the \<open>async with lock\<close> block, and of the handler.\<close>

definition end_turn :: "nat \<Rightarrow> nat \<Rightarrow> bot \<Rightarrow> bot" where
  "end_turn i k s = drop_turn i (set_owner k None s)"

definition lock_for :: "int \<Rightarrow> bot \<Rightarrow> bot \<times> nat" where
  "lock_for tid s =
     (case map_of (b_locks s) tid of
        Some k \<Rightarrow> (s, k)
      | None \<Rightarrow> (s\<lparr>b_locks := dset tid (length (b_heap s)) (b_locks s),
                   b_heap := b_heap s @ [\<lparr>k_owner = None, k_waiters = []\<rparr>]\<rparr>, length (b_heap s)))"

text \<open>The message passes the router and a session exists.\<close>

definition message_in :: "int \<Rightarrow> int \<Rightarrow> string \<Rightarrow> bot \<Rightarrow> bot" where
  "message_in author tid text s =
     (if tid \<in> b_lore s \<and> get_session tid (b_store s) \<noteq> None
      then s\<lparr>b_turns := dset (b_next s) \<lparr>u_thread = tid, u_author = author, u_text = text, u_pc = TDiscover\<rparr> (b_turns s),
             b_next := b_next s + 1\<rparr>
      else s)"

text \<open>In the lock: the session is read again.\<close>

definition locked_in :: "nat \<Rightarrow> int \<Rightarrow> nat \<Rightarrow> bot \<Rightarrow> bot" where
  "locked_in i tid k s =
     (let s1 = set_owner k (Some i) s in
      case get_session tid (b_store s1) of
        None \<Rightarrow> end_turn i k s1
      | Some se \<Rightarrow> set_turn i (TTyping k se) s1)"

definition join_lock :: "nat \<Rightarrow> int \<Rightarrow> nat \<Rightarrow> bot \<Rightarrow> bot" where
  "join_lock i tid k s =
     (if k_owner (b_heap s ! k) = None \<and> k_waiters (b_heap s ! k) = [] then locked_in i tid k s
      else set_turn i (TLock k) (set_waiters k (k_waiters (b_heap s ! k) @ [i]) s))"

text \<open>The first waiter of a free lock wakes.\<close>

definition wake_lock :: "nat \<Rightarrow> bot \<Rightarrow> bot" where
  "wake_lock k s =
     (if k < length (b_heap s) \<and> k_owner (b_heap s ! k) = None then
        case k_waiters (b_heap s ! k) of
          [] \<Rightarrow> s
        | i # is \<Rightarrow> (case map_of (b_turns s) i of
                       None \<Rightarrow> s | Some u \<Rightarrow> locked_in i (u_thread u) k (set_waiters k is s))
      else s)"

text \<open>
  The turn works on the object that the store holds, so what it changes is in the store too, as
  long as the store still has it.
\<close>

definition put_live :: "int \<Rightarrow> session \<Rightarrow> bot \<Rightarrow> bot" where
  "put_live tid se s =
     (if get_session tid (b_store s) = None then s
      else s\<lparr>b_store := (b_store s)\<lparr>s_threads := dset tid se (s_threads (b_store s))\<rparr>\<rparr>)"

text \<open>An awaited call returned, where its answer does not matter.\<close>

definition go :: "nat \<Rightarrow> real \<Rightarrow> string \<Rightarrow> bot \<Rightarrow> bot" where
  "go i now stamp_now s =
     (case map_of (b_turns s) i of
        None \<Rightarrow> s
      | Some u \<Rightarrow>
          (case u_pc u of
             TDiscover \<Rightarrow>
               (let (l, ok) = is_allowed now (u_author u) (b_limiter s)
                in set_turn i (if ok then TStatus else TRefused) (s\<lparr>b_limiter := l\<rparr>))
           | TRefused \<Rightarrow> drop_turn i s
           | TStatus \<Rightarrow>
               (let (s1, k) = lock_for (u_thread u) s
                in if k_owner (b_heap s1 ! k) \<noteq> None then set_turn i (TWaiting k) s1
                   else join_lock i (u_thread u) k s1)
           | TWaiting k \<Rightarrow> join_lock i (u_thread u) k s
           | TTyping k se \<Rightarrow>
               (let se1 = append_question stamp_now (u_text u) se
                in set_turn i (TRounds k se1) (put_live (u_thread u) se1 s))
           | TFailing k \<Rightarrow> end_turn i k s
           | _ \<Rightarrow> s))"

text \<open>
  An awaited call raised. Before the lock and after the answer nothing catches it, and the lock is
  released; within the turn it is the failed status.
\<close>

definition raised :: "nat \<Rightarrow> bot \<Rightarrow> bot" where
  "raised i s =
     (case map_of (b_turns s) i of
        None \<Rightarrow> s
      | Some u \<Rightarrow>
          (case u_pc u of
             TDiscover \<Rightarrow> drop_turn i s
           | TRefused \<Rightarrow> drop_turn i s
           | TTyping k se \<Rightarrow> set_turn i (TFailing k) s
           | TPost k se \<Rightarrow> end_turn i k s
           | _ \<Rightarrow> s))"

text \<open>\<open>run_lore_turn\<close> in its three parts: the question, the rounds and their research block, the answer.\<close>

definition rounds_over :: "nat \<Rightarrow> world \<Rightarrow> bot \<Rightarrow> bot" where
  "rounds_over i w s =
     (case map_of (b_turns s) i of
        None \<Rightarrow> s
      | Some u \<Rightarrow>
          (case u_pc u of
             TRounds k se \<Rightarrow>
               (case turn_rounds w (clamp_rounds LORE_FOLLOWUP_MAX_ROUNDS None) se of
                  Inl e \<Rightarrow> set_turn i (TFailing k) s
                | Inr (direct, tms, m) \<Rightarrow>
                    (case note_research w tms se of
                       Inl e \<Rightarrow> set_turn i (TFailing k) s
                     | Inr se1 \<Rightarrow> set_turn i (TAnswer k se1 direct tms m) (put_live (u_thread u) se1 s)))
           | _ \<Rightarrow> s))"

definition answered :: "nat \<Rightarrow> world \<Rightarrow> string \<Rightarrow> bool \<Rightarrow> bot \<Rightarrow> bot" where
  "answered i w stamp_now ok s =
     (case map_of (b_turns s) i of
        None \<Rightarrow> s
      | Some u \<Rightarrow>
          (case u_pc u of
             TAnswer k se direct tms m \<Rightarrow>
               (case give_answer w direct se m of
                  Inl e \<Rightarrow> set_turn i (TFailing k) s
                | Inr (a, m') \<Rightarrow>
                    let answer = (if a = [] then ''I wasn't able to produce an answer for that. Try rephrasing?'' else a);
                        se1 = record_context (context_used m') (append_answer stamp_now answer se);
                        s1 = put_live (u_thread u) se1 s
                    in set_turn i (TPost k se1) (s1\<lparr>b_store := put_session ok se1 (b_store s1)\<rparr>))
           | _ \<Rightarrow> s))"

text \<open>The answer is posted; below the threshold there is nothing to compact.\<close>

definition posted :: "nat \<Rightarrow> int \<Rightarrow> bot \<Rightarrow> bot" where
  "posted i limit s =
     (case map_of (b_turns s) i of
        None \<Rightarrow> s
      | Some u \<Rightarrow>
          (case u_pc u of
             TPost k se \<Rightarrow> if pct_of limit se < AGENT_CTX_COMPACT_PCT then end_turn i k s
                          else set_turn i (TCompact k se) s
           | _ \<Rightarrow> s))"

definition turn_compacted :: "nat \<Rightarrow> int \<Rightarrow> (string \<Rightarrow> completion) \<Rightarrow> bool \<Rightarrow> bot \<Rightarrow> bot" where
  "turn_compacted i limit reply ok s =
     (case map_of (b_turns s) i of
        None \<Rightarrow> s
      | Some u \<Rightarrow>
          (case u_pc u of
             TCompact k se \<Rightarrow>
               (case maybe_compact_session limit reply se of
                  Inl e \<Rightarrow> end_turn i k s
                | Inr (se1, changed) \<Rightarrow>
                    let s1 = put_live (u_thread u) se1 s
                    in end_turn i k (if changed then s1\<lparr>b_store := put_session ok se1 (b_store s1)\<rparr> else s1))
           | _ \<Rightarrow> s))"

section \<open>Retiring threads\<close>

definition forget_thread :: "int \<Rightarrow> bot \<Rightarrow> bot" where
  "forget_thread tid s =
     s\<lparr>b_lore := b_lore s - {tid}, b_models := dpop tid (b_models s), b_locks := dpop tid (b_locks s)\<rparr>"

definition retire_thread :: "bool \<Rightarrow> bool \<Rightarrow> int \<Rightarrow> bot \<Rightarrow> bot" where
  "retire_thread ok1 ok2 tid s =
     (let s1 = forget_thread tid s
      in s1\<lparr>b_registry := remove_thread ok1 tid (b_registry s1), b_store := remove_session ok2 tid (b_store s1)\<rparr>)"

definition mid_answer :: "int \<Rightarrow> bot \<Rightarrow> bool" where
  "mid_answer tid s \<longleftrightarrow>
     (case map_of (b_locks s) tid of None \<Rightarrow> False | Some k \<Rightarrow> k_owner (b_heap s ! k) \<noteq> None)"

fun sweep_next :: "int list \<Rightarrow> bot \<Rightarrow> bot" where
  "sweep_next [] s = s\<lparr>b_sweep := None\<rparr>"
| "sweep_next (tid # rest) s =
     (if mid_answer tid s then sweep_next rest s else s\<lparr>b_sweep := Some (tid, rest)\<rparr>)"

definition sweep_start :: "(string \<Rightarrow> real option) \<Rightarrow> real \<Rightarrow> bot \<Rightarrow> bot" where
  "sweep_start ts now s =
     (if b_sweep s \<noteq> None then s
      else sweep_next (expired_threads ts now LORE_THREAD_TTL_SECONDS (b_store s)) s)"

text \<open>The thread was told, or could not be: both go on to retire it.\<close>

definition sweep_notified :: "bool \<Rightarrow> bool \<Rightarrow> bot \<Rightarrow> bot" where
  "sweep_notified ok1 ok2 s =
     (case b_sweep s of
        None \<Rightarrow> s | Some (tid, rest) \<Rightarrow> sweep_next rest (retire_thread ok1 ok2 tid s))"

section \<open>Starting again\<close>

datatype fetched = FThread bool | FOther | FNotFound | FForbidden | FFailed

text \<open>One entry of the snapshot of the registry: \<open>FThread\<close> says whether the thread is archived.\<close>

definition restore_reply :: "fetched \<Rightarrow> bool \<Rightarrow> bot \<Rightarrow> bot" where
  "restore_reply f ok s =
     (case b_restore s of
        [] \<Rightarrow> s
      | (tid, e) # es \<Rightarrow>
          let s1 = s\<lparr>b_restore := es\<rparr>;
              gone = s1\<lparr>b_registry := update_status ok tid ''deleted'' (b_registry s1)\<rparr>
          in case f of
               FThread archived \<Rightarrow>
                 let r = update_status ok tid (if archived then ''archived'' else ''active'') (b_registry s1)
                 in s1\<lparr>b_registry := r, b_models := dset tid (t_model e) (b_models s1),
                       b_lore := (if is_lore tid r \<and> get_session tid (b_store s1) \<noteq> None
                                  then insert tid (b_lore s1) else b_lore s1)\<rparr>
             | FOther \<Rightarrow> gone
             | FNotFound \<Rightarrow> gone
             | _ \<Rightarrow> s1)"

text \<open>
  The services over the files of the last life: stores loaded, offers swept, nothing routed yet. A
  registry whose keys are no numbers ends \<open>restore_threads\<close> at once.
\<close>

definition boot ::
  "(string \<Rightarrow> real option) \<Rightarrow> real \<Rightarrow> bool \<Rightarrow> threads option option \<Rightarrow> session_file \<Rightarrow> int set \<Rightarrow> bot result" where
  "boot ts now ok reg_file file ids =
     bindE (load_store file) (\<lambda>st.
       Inr \<lparr>b_store = fst (sweep_offers ok ts now LORE_OFFER_TTL_SECONDS st), b_models = [], b_lore = {},
            b_locks = [], b_heap = [], b_claiming = {}, b_registry = load_registry reg_file,
            b_limiter = limiter_init, b_turns = [], b_next = 0, b_claims = [], b_sweep = None,
            b_restore = (case get_all (load_registry reg_file) of Inl e \<Rightarrow> [] | Inr es \<Rightarrow> es),
            b_created = [], b_ids = ids\<rparr>)"

text \<open>\<open>/chat\<close> opens a thread of its own.\<close>

definition chat_opened :: "int \<Rightarrow> string \<Rightarrow> string \<Rightarrow> string \<Rightarrow> bool \<Rightarrow> bot \<Rightarrow> bot" where
  "chat_opened tid model name now ok s =
     s\<lparr>b_models := dset tid model (b_models s), b_registry := register ok now tid model name ''chat'' (b_registry s),
       b_ids := insert tid (b_ids s)\<rparr>"

text \<open>Who answers a message in a thread: the chat cog with a model, or the lore cog.\<close>

definition chat_model :: "int \<Rightarrow> bot \<Rightarrow> string option" where
  "chat_model tid s = (if tid \<in> b_lore s then None else map_of (b_models s) tid)"

section \<open>The machine\<close>

datatype bot_event =
    MessageIn int int string
  | Go nat real string
  | Failed nat
  | WakeLock nat
  | RoundsOver nat world
  | Answered nat world string bool
  | PostedAnswer nat int
  | Compacted nat int "string \<Rightarrow> completion" bool
  | Reaction bool bool int bool
  | ClaimReply int claim_answer
  | OfferThread world string string string string run_result int real bool
  | ChatOpened int string string string bool
  | SweepStart real
  | SweepNotified bool bool
  | RestoreReply fetched bool

fun bot_step :: "(string \<Rightarrow> real option) \<Rightarrow> bot_event \<Rightarrow> bot \<Rightarrow> bot" where
  "bot_step ts (MessageIn author tid text) s = message_in author tid text s"
| "bot_step ts (Go i now stamp_now) s = go i now stamp_now s"
| "bot_step ts (Failed i) s = raised i s"
| "bot_step ts (WakeLock k) s = wake_lock k s"
| "bot_step ts (RoundsOver i w) s = rounds_over i w s"
| "bot_step ts (Answered i w stamp_now ok) s = answered i w stamp_now ok s"
| "bot_step ts (PostedAnswer i limit) s = posted i limit s"
| "bot_step ts (Compacted i limit reply ok) s = turn_compacted i limit reply ok s"
| "bot_step ts (Reaction own emoji m cached) s = reaction own emoji m cached s"
| "bot_step ts (ClaimReply m a) s = claim_reply m a s"
| "bot_step ts (OfferThread w stamp_now pinned prompt q r m now ok) s = offer_thread ts w stamp_now pinned prompt q r m now ok s"
| "bot_step ts (ChatOpened tid model name now ok) s = chat_opened tid model name now ok s"
| "bot_step ts (SweepStart now) s = sweep_start ts now s"
| "bot_step ts (SweepNotified ok1 ok2) s = sweep_notified ok1 ok2 s"
| "bot_step ts (RestoreReply f ok) s = restore_reply f ok s"

definition bot_run :: "(string \<Rightarrow> real option) \<Rightarrow> bot_event list \<Rightarrow> bot \<Rightarrow> bot" where
  "bot_run ts es s = fold (bot_step ts) es s"

text \<open>Discord gives no thread id out twice.\<close>

fun fresh_event :: "bot_event \<Rightarrow> bot \<Rightarrow> bool" where
  "fresh_event (ClaimReply m (COpened tid name now ok1 ok2)) s \<longleftrightarrow> tid \<notin> b_ids s"
| "fresh_event (ChatOpened tid model name now ok) s \<longleftrightarrow> tid \<notin> b_ids s"
| "fresh_event e s \<longleftrightarrow> True"

text \<open>
  One life of the bot: \<open>s0\<close> as it came up from files of its own making, the events since, the
  state now. \<open>ids\<close> are the threads Discord knew before.
\<close>

definition booted :: "(string \<Rightarrow> real option) \<Rightarrow> bot \<Rightarrow> bool" where
  "booted ts s \<longleftrightarrow>
     (\<exists>now ok reg_file file ids. boot ts now ok reg_file file ids = Inr s)
   \<and> lore_ok (b_store s) \<and> (\<forall>tid. is_lore tid (b_registry s) \<longrightarrow> tid \<in> b_ids s)"

inductive bot_life :: "(string \<Rightarrow> real option) \<Rightarrow> bot \<Rightarrow> bot_event list \<Rightarrow> bot \<Rightarrow> bool" for ts s0 where
  start: "booted ts s0 \<Longrightarrow> bot_life ts s0 [] s0"
| step: "bot_life ts s0 es s \<Longrightarrow> fresh_event e s \<Longrightarrow> bot_life ts s0 (es @ [e]) (bot_step ts e s)"

inductive_cases bot_life_last: "bot_life ts s0 (es @ [e]) s"

section \<open>The invariant\<close>

text \<open>The lock a handler has looked up, the one it holds, and the session it works on.\<close>

fun lock_known :: "turn_pc \<Rightarrow> nat option" where
  "lock_known TDiscover = None" | "lock_known TRefused = None" | "lock_known TStatus = None"
| "lock_known (TWaiting k) = Some k" | "lock_known (TLock k) = Some k" | "lock_known (TTyping k se) = Some k"
| "lock_known (TRounds k se) = Some k" | "lock_known (TAnswer k se d tms m) = Some k"
| "lock_known (TFailing k) = Some k" | "lock_known (TPost k se) = Some k" | "lock_known (TCompact k se) = Some k"

fun lock_held :: "turn_pc \<Rightarrow> nat option" where
  "lock_held (TWaiting k) = None" | "lock_held (TLock k) = None" | "lock_held pc = lock_known pc"

fun session_at :: "turn_pc \<Rightarrow> session option" where
  "session_at (TTyping k se) = Some se" | "session_at (TRounds k se) = Some se"
| "session_at (TAnswer k se d tms m) = Some se" | "session_at (TPost k se) = Some se"
| "session_at (TCompact k se) = Some se" | "session_at pc = None"

definition turns_ok :: "bot \<Rightarrow> bool" where
  "turns_ok s \<longleftrightarrow> (\<forall>i u. map_of (b_turns s) i = Some u \<longrightarrow>
     i < b_next s \<and> u_thread u \<in> b_ids s \<and> (is_lore (u_thread u) (b_registry s) \<longrightarrow> u_thread u \<in> b_lore s)
     \<and> (\<forall>se. session_at (u_pc u) = Some se \<longrightarrow> thread_id se = u_thread u
          \<and> (u_thread u \<in> b_lore s \<longrightarrow> get_session (u_thread u) (b_store s) = Some se)))"

definition locks_ok :: "bot \<Rightarrow> bool" where
  "locks_ok s \<longleftrightarrow>
     (\<forall>i u k. map_of (b_turns s) i = Some u \<longrightarrow> lock_known (u_pc u) = Some k \<longrightarrow>
        k < length (b_heap s) \<and> (u_thread u \<in> b_lore s \<longrightarrow> map_of (b_locks s) (u_thread u) = Some k))
   \<and> (\<forall>i u k. map_of (b_turns s) i = Some u \<longrightarrow> lock_held (u_pc u) = Some k \<longrightarrow> k_owner (b_heap s ! k) = Some i)
   \<and> (\<forall>tid k. map_of (b_locks s) tid = Some k \<longrightarrow> k < length (b_heap s))"

definition queues_ok :: "bot \<Rightarrow> bool" where
  "queues_ok s \<longleftrightarrow> (\<forall>k < length (b_heap s). distinct (k_waiters (b_heap s ! k))
     \<and> (\<forall>i\<in>set (k_waiters (b_heap s ! k)). \<exists>u. map_of (b_turns s) i = Some u \<and> u_pc u = TLock k))"

definition routes_ok :: "bot \<Rightarrow> bool" where
  "routes_ok s \<longleftrightarrow> (\<forall>tid. is_lore tid (b_registry s) \<longrightarrow> tid \<in> b_ids s)
   \<and> (\<forall>tid. tid \<in> b_lore s \<longrightarrow> is_lore tid (b_registry s) \<and> get_session tid (b_store s) \<noteq> None
        \<and> map_of (b_models s) tid \<noteq> None)"

definition claims_ok :: "bot \<Rightarrow> bool" where
  "claims_ok s \<longleftrightarrow> (\<forall>m. map_of (b_claims s) m \<noteq> None \<longrightarrow> m \<in> b_claiming s)"

definition bot_ok :: "bot \<Rightarrow> bool" where
  "bot_ok s \<longleftrightarrow> lore_ok (b_store s) \<and> turns_ok s \<and> locks_ok s \<and> queues_ok s \<and> routes_ok s \<and> claims_ok s"

lemma set_turn_Some [simp]:
  "map_of (b_turns s) i = Some u \<Longrightarrow> set_turn i pc s = s\<lparr>b_turns := dset i (u\<lparr>u_pc := pc\<rparr>) (b_turns s)\<rparr>"
  by (simp add: set_turn_def)

lemmas bot_ok_defs = bot_ok_def turns_ok_def locks_ok_def queues_ok_def routes_ok_def claims_ok_def

lemma held_known: "lock_held pc = Some k \<Longrightarrow> lock_known pc = Some k"
  by (cases pc) auto

lemma session_held: "session_at pc = Some se \<Longrightarrow> \<exists>k. lock_held pc = Some k"
  by (cases pc) auto

text \<open>In a routed thread one handler at a time is in the lock.\<close>

lemma holder_unique:
  assumes "bot_ok s" "map_of (b_turns s) i = Some u" "map_of (b_turns s) j = Some v"
    and "lock_held (u_pc u) = Some k" "lock_held (u_pc v) = Some k'"
    and "u_thread u = u_thread v" "u_thread u \<in> b_lore s"
  shows "i = j"
proof -
  have l: "locks_ok s" using assms(1) by (simp add: bot_ok_def)
  have "map_of (b_locks s) (u_thread u) = Some k" "map_of (b_locks s) (u_thread v) = Some k'"
    using l assms held_known unfolding locks_ok_def by metis+
  then have "k = k'" using assms(6) by simp
  moreover have "k_owner (b_heap s ! k) = Some i" "k_owner (b_heap s ! k') = Some j"
    using l assms unfolding locks_ok_def by blast+
  ultimately show ?thesis by simp
qed

text \<open>The pieces the handlers are made of.\<close>

lemma queues_kept:
  assumes "queues_ok s" "map_of (b_turns s) i = Some u" "\<forall>k. u_pc u \<noteq> TLock k"
    and "map k_waiters (b_heap s') = map k_waiters (b_heap s)"
    and t: "\<And>j. j \<noteq> i \<Longrightarrow> map_of (b_turns s') j = map_of (b_turns s) j"
  shows "queues_ok s'"
  unfolding queues_ok_def
proof (intro allI impI conjI ballI)
  fix k assume k: "k < length (b_heap s')"
  have len: "length (b_heap s') = length (b_heap s)" using assms(4) by (metis length_map)
  have w: "k_waiters (b_heap s' ! k) = k_waiters (b_heap s ! k)"
    using assms(4) k len by (metis nth_map)
  show "distinct (k_waiters (b_heap s' ! k))" using assms(1) k by (simp add: w len queues_ok_def)
  fix j assume "j \<in> set (k_waiters (b_heap s' ! k))"
  then obtain v where v: "map_of (b_turns s) j = Some v" "u_pc v = TLock k"
    using assms(1) k unfolding queues_ok_def w len by blast
  then have "j \<noteq> i" using assms(2,3) by auto
  then show "\<exists>v. map_of (b_turns s') j = Some v \<and> u_pc v = TLock k" using v t by simp
qed

lemma advance_ok:
  assumes "bot_ok s" "map_of (b_turns s) i = Some u" "\<forall>k. u_pc u \<noteq> TLock k"
    and "lock_known pc = lock_known (u_pc u)" "lock_held pc = lock_held (u_pc u)"
    and "session_at pc = None \<or> session_at pc = session_at (u_pc u)"
  shows "bot_ok (set_turn i pc s)"
  unfolding bot_ok_def
proof (intro conjI)
  let ?s = "set_turn i pc s"
  show "lore_ok (b_store ?s)" "routes_ok ?s" "claims_ok ?s"
    using assms(1,2) by (simp_all add: bot_ok_def routes_ok_def claims_ok_def)
  show "turns_ok ?s" using assms by (auto simp: bot_ok_def turns_ok_def)
  show "locks_ok ?s" using assms by (auto simp: bot_ok_def locks_ok_def split: if_splits)
  have "queues_ok s" using assms(1) by (simp add: bot_ok_def)
  from queues_kept [OF this assms(2,3)] show "queues_ok ?s" using assms(2) by simp
qed

lemma drop_ok:
  assumes "bot_ok s" "map_of (b_turns s) i = Some u" "\<forall>k. u_pc u \<noteq> TLock k"
  shows "bot_ok (drop_turn i s)"
  unfolding bot_ok_def
proof (intro conjI)
  let ?s = "drop_turn i s"
  show "lore_ok (b_store ?s)" "routes_ok ?s" "claims_ok ?s"
    using assms(1) by (simp_all add: bot_ok_def routes_ok_def claims_ok_def drop_turn_def)
  show "turns_ok ?s" "locks_ok ?s" using assms(1) by (simp_all add: bot_ok_def turns_ok_def locks_ok_def drop_turn_def)
  have "queues_ok s" using assms(1) by (simp add: bot_ok_def)
  from queues_kept [OF this assms(2,3)] show "queues_ok ?s" by (simp add: drop_turn_def)
qed

lemma end_ok:
  assumes "bot_ok s" "map_of (b_turns s) i = Some u" "lock_held (u_pc u) = Some k"
  shows "bot_ok (end_turn i k s)"
  unfolding bot_ok_def
proof (intro conjI)
  let ?s = "end_turn i k s"
  have l: "locks_ok s" "queues_ok s" "turns_ok s" using assms(1) by (simp_all add: bot_ok_def)
  have k: "k < length (b_heap s)" "k_owner (b_heap s ! k) = Some i"
    using l(1) assms(2,3) held_known unfolding locks_ok_def by blast+
  show "lore_ok (b_store ?s)" "routes_ok ?s" "claims_ok ?s"
    using assms(1) by (simp_all add: bot_ok_def routes_ok_def claims_ok_def end_turn_def drop_turn_def set_owner_def)
  show "turns_ok ?s" using l(3) by (simp add: turns_ok_def end_turn_def drop_turn_def set_owner_def)
  show "locks_ok ?s" using l(1) k
    by (auto simp: locks_ok_def end_turn_def drop_turn_def set_owner_def nth_list_update)
  have "\<forall>k'. u_pc u \<noteq> TLock k'" using assms(3) by auto
  from queues_kept [OF l(2) assms(2) this] show "queues_ok ?s" using k(1)
    by (simp add: end_turn_def drop_turn_def set_owner_def map_update list_update_same_conv)
qed

lemma live_ok:
  assumes "bot_ok s" "map_of (b_turns s) i = Some u"
    and "lock_held (u_pc u) = Some k" "session_at (u_pc u) = Some se" "thread_id se1 = thread_id se"
    and "lock_held pc = Some k" "session_at pc = Some se1"
  shows "bot_ok (set_turn i pc (put_live (u_thread u) se1 s))"
  unfolding bot_ok_def
proof (intro conjI)
  let ?s = "set_turn i pc (put_live (u_thread u) se1 s)"
  have l: "lore_ok (b_store s)" "turns_ok s" "locks_ok s" "queues_ok s" "routes_ok s" "claims_ok s"
    using assms(1) by (simp_all add: bot_ok_def)
  have t: "thread_id se1 = u_thread u" using l(2) assms(2,4,5) unfolding turns_ok_def by metis
  have p: "b_turns ?s = dset i (u\<lparr>u_pc := pc\<rparr>) (b_turns s)" using assms(2) by (simp add: put_live_def)
  show "lore_ok (b_store ?s)" using l(1) assms(2) t
    by (auto simp: put_live_def lore_ok_def)
  show "routes_ok ?s" "claims_ok ?s" using l(5,6) assms(2)
    by (auto simp: put_live_def routes_ok_def claims_ok_def get_session_def)
  show "locks_ok ?s" using l(3) assms(2,3,6) held_known
    by (auto simp: put_live_def locks_ok_def split: if_splits)
  have "\<forall>k'. u_pc u \<noteq> TLock k'" using assms(3) by auto
  from queues_kept [OF l(4) assms(2) this] show "queues_ok ?s" using assms(2) by (simp add: put_live_def)
  show "turns_ok ?s"
    unfolding turns_ok_def
  proof (intro allI impI)
    fix j v assume v: "map_of (b_turns ?s) j = Some v"
    show "j < b_next ?s \<and> u_thread v \<in> b_ids ?s \<and> (is_lore (u_thread v) (b_registry ?s) \<longrightarrow> u_thread v \<in> b_lore ?s)
     \<and> (\<forall>se. session_at (u_pc v) = Some se \<longrightarrow> thread_id se = u_thread v
          \<and> (u_thread v \<in> b_lore ?s \<longrightarrow> get_session (u_thread v) (b_store ?s) = Some se))"
    proof (cases "j = i")
      case True
      then have v: "v = u\<lparr>u_pc := pc\<rparr>" using v unfolding p by simp
      have "u_thread u \<in> b_lore s \<Longrightarrow> get_session (u_thread u) (b_store s) \<noteq> None"
        using l(5) by (simp add: routes_ok_def)
      then show ?thesis using l(2) assms(2,7) t True
        by (auto simp: v turns_ok_def put_live_def get_session_def)
    next
      case False
      then have v: "map_of (b_turns s) j = Some v" using v unfolding p by simp
      have "u_thread v \<noteq> u_thread u \<or> u_thread v \<notin> b_lore s \<or> session_at (u_pc v) = None"
        using holder_unique [OF assms(1,2) v assms(3)] session_held False
        by (metis not_Some_eq)
      then show ?thesis using l(2) v assms(2)
        by (auto simp: turns_ok_def put_live_def get_session_def)
    qed
  qed
qed

lemma store_ok:
  assumes "bot_ok s" "lore_ok st" "\<And>tid. tid \<in> b_lore s \<Longrightarrow> map_of (s_threads st) tid = map_of (s_threads (b_store s)) tid"
  shows "bot_ok (s\<lparr>b_store := st\<rparr>)"
  unfolding bot_ok_def
proof (intro conjI)
  let ?s = "s\<lparr>b_store := st\<rparr>"
  have l: "turns_ok s" "locks_ok s" "queues_ok s" "routes_ok s" "claims_ok s"
    using assms(1) by (simp_all add: bot_ok_def)
  show "lore_ok (b_store ?s)" using assms(2) by simp
  show "turns_ok ?s" using l(1) assms(3) by (simp add: turns_ok_def get_session_def)
  show "locks_ok ?s" "queues_ok ?s" "claims_ok ?s" using l by (simp_all add: locks_ok_def queues_ok_def claims_ok_def)
  show "routes_ok ?s" using l(4) assms(3) by (simp add: routes_ok_def get_session_def)
qed

lemma locked_in_ok:
  assumes "bot_ok s" "map_of (b_turns s) i = Some u" "lock_held (u_pc u) = None"
    and "k < length (b_heap s)" "k_owner (b_heap s ! k) = None"
    and w: "\<And>k'. k' < length (b_heap s) \<Longrightarrow> i \<notin> set (k_waiters (b_heap s ! k'))"
    and r: "u_thread u \<in> b_lore s \<Longrightarrow> map_of (b_locks s) (u_thread u) = Some k"
  shows "bot_ok (locked_in i (u_thread u) k s)"
proof -
  have l: "lore_ok (b_store s)" "turns_ok s" "locks_ok s" "queues_ok s" "routes_ok s" "claims_ok s"
    using assms(1) by (simp_all add: bot_ok_def)
  define s1 where "s1 = (set_owner k (Some i) s)\<lparr>b_turns := dset i (u\<lparr>u_pc := TFailing k\<rparr>) (b_turns s)\<rparr>"
  have turn1: "map_of (b_turns s1) i = Some (u\<lparr>u_pc := TFailing k\<rparr>)" by (simp add: s1_def set_owner_def)
  have "\<forall>j v. map_of (b_turns s) j = Some v \<longrightarrow> lock_held (u_pc v) \<noteq> Some k"
    using l(3) assms(5) unfolding locks_ok_def by fastforce
  then have "locks_ok s1" using l(3) assms(4) r
    by (auto simp: locks_ok_def s1_def set_owner_def nth_list_update split: if_splits)
  moreover have "turns_ok s1" using l(2) assms(2) by (auto simp: turns_ok_def s1_def set_owner_def)
  moreover have "routes_ok s1" "claims_ok s1" "lore_ok (b_store s1)" using l
    by (simp_all add: routes_ok_def claims_ok_def s1_def set_owner_def)
  moreover have "queues_ok s1"
    unfolding queues_ok_def
  proof (intro allI impI conjI ballI)
    fix k' assume k': "k' < length (b_heap s1)"
    have e: "length (b_heap s1) = length (b_heap s)" "k_waiters (b_heap s1 ! k') = k_waiters (b_heap s ! k')"
      using assms(4) k' by (simp_all add: s1_def set_owner_def nth_list_update)
    show "distinct (k_waiters (b_heap s1 ! k'))" using l(4) k' unfolding queues_ok_def e by blast
    fix j assume j: "j \<in> set (k_waiters (b_heap s1 ! k'))"
    then have "j \<noteq> i" using w [of k'] k' unfolding e by auto
    then show "\<exists>v. map_of (b_turns s1) j = Some v \<and> u_pc v = TLock k'"
      using l(4) j k' unfolding queues_ok_def e by (simp add: s1_def set_owner_def)
  qed
  ultimately have ok1: "bot_ok s1" by (simp add: bot_ok_def)
  show ?thesis
  proof (cases "get_session (u_thread u) (b_store s)")
    case None
    have "locked_in i (u_thread u) k s = end_turn i k s1"
      using None assms(4) by (simp add: locked_in_def s1_def set_owner_def end_turn_def drop_turn_def)
    then show ?thesis using end_ok [OF ok1 turn1] by simp
  next
    case (Some se)
    have e: "locked_in i (u_thread u) k s = set_turn i (TTyping k se) s1"
      using Some assms(2) by (simp add: locked_in_def s1_def set_owner_def set_turn_def)
    have "thread_id se = u_thread u" using l(1) Some by (simp add: lore_ok_def get_session_def)
    moreover have "set_turn i (TTyping k se) s1 = s1\<lparr>b_turns := dset i (u\<lparr>u_pc := TTyping k se\<rparr>) (b_turns s)\<rparr>"
      by (simp add: set_turn_def s1_def set_owner_def)
    ultimately have "turns_ok (set_turn i (TTyping k se) s1)" using l(2) Some assms(2)
      by (auto simp: turns_ok_def s1_def set_owner_def)
    moreover have "u_thread u \<in> b_lore s1 \<Longrightarrow> map_of (b_locks s1) (u_thread u) = Some k"
      using r by (simp add: s1_def set_owner_def)
    then have "locks_ok (set_turn i (TTyping k se) s1)" using ok1 turn1
      by (auto simp: bot_ok_def locks_ok_def split: if_splits)
    moreover have "queues_ok (set_turn i (TTyping k se) s1)"
      using queues_kept [of s1 i _ "set_turn i (TTyping k se) s1"] ok1 turn1 by (simp add: bot_ok_def)
    ultimately show ?thesis using ok1 turn1 unfolding e by (simp add: bot_ok_def routes_ok_def claims_ok_def)
  qed
qed

lemma waiting_in_queue:
  assumes "bot_ok s" "map_of (b_turns s) i = Some u" "\<forall>k. u_pc u \<noteq> TLock k" "k' < length (b_heap s)"
  shows "i \<notin> set (k_waiters (b_heap s ! k'))"
  using assms unfolding bot_ok_def queues_ok_def by fastforce

lemma join_ok:
  assumes "bot_ok s" "map_of (b_turns s) i = Some u" "lock_held (u_pc u) = None" "\<forall>k. u_pc u \<noteq> TLock k"
    and "k < length (b_heap s)"
    and r: "u_thread u \<in> b_lore s \<Longrightarrow> map_of (b_locks s) (u_thread u) = Some k"
  shows "bot_ok (join_lock i (u_thread u) k s)"
proof (cases "k_owner (b_heap s ! k) = None \<and> k_waiters (b_heap s ! k) = []")
  case True
  then show ?thesis
    using locked_in_ok [OF assms(1-3,5)] waiting_in_queue [OF assms(1,2,4)] r by (simp add: join_lock_def)
next
  case False
  let ?s = "set_turn i (TLock k) (set_waiters k (k_waiters (b_heap s ! k) @ [i]) s)"
  have l: "lore_ok (b_store s)" "turns_ok s" "locks_ok s" "queues_ok s" "routes_ok s" "claims_ok s"
    using assms(1) by (simp_all add: bot_ok_def)
  have e: "?s = s\<lparr>b_heap := (b_heap s)[k := (b_heap s ! k)\<lparr>k_waiters := k_waiters (b_heap s ! k) @ [i]\<rparr>],
      b_turns := dset i (u\<lparr>u_pc := TLock k\<rparr>) (b_turns s)\<rparr>"
    using assms(2) by (simp add: set_turn_def set_waiters_def)
  have "turns_ok ?s" using l(2) assms(2) unfolding e by (auto simp: turns_ok_def)
  moreover have "locks_ok ?s" using l(3) assms(3,5) r unfolding e
    by (auto simp: locks_ok_def nth_list_update split: if_splits)
  moreover have "routes_ok ?s" "claims_ok ?s" "lore_ok (b_store ?s)" using l unfolding e
    by (simp_all add: routes_ok_def claims_ok_def)
  moreover have "queues_ok ?s"
    unfolding queues_ok_def
  proof (intro allI impI conjI ballI)
    fix k' assume k': "k' < length (b_heap ?s)"
    then have k'': "k' < length (b_heap s)" by (simp add: e)
    have w: "k_waiters (b_heap ?s ! k') = (if k' = k then k_waiters (b_heap s ! k) @ [i] else k_waiters (b_heap s ! k'))"
      using assms(5) k'' by (simp add: e nth_list_update)
    note no = waiting_in_queue [OF assms(1,2,4)]
    show "distinct (k_waiters (b_heap ?s ! k'))" using l(4) k'' no [OF k''] by (auto simp: queues_ok_def w)
    fix j assume j: "j \<in> set (k_waiters (b_heap ?s ! k'))"
    show "\<exists>v. map_of (b_turns ?s) j = Some v \<and> u_pc v = TLock k'"
    proof (cases "j = i")
      case True
      then have "k' = k" using j no [OF k''] by (auto simp: w split: if_splits)
      then show ?thesis using True by (simp add: e)
    next
      case False
      then have "j \<in> set (k_waiters (b_heap s ! k'))" using j by (auto simp: w split: if_splits)
      then show ?thesis using False l(4) k'' by (simp add: queues_ok_def e)
    qed
  qed
  ultimately show ?thesis unfolding join_lock_def if_not_P [OF False] by (simp add: bot_ok_def)
qed

lemma lock_for_ok:
  assumes "bot_ok s" "lock_for tid s = (s1, k)"
  shows "bot_ok s1 \<and> b_turns s1 = b_turns s \<and> b_lore s1 = b_lore s \<and> k < length (b_heap s1)
    \<and> map_of (b_locks s1) tid = Some k"
proof (cases "map_of (b_locks s) tid")
  case None
  have s1: "s1 = s\<lparr>b_locks := dset tid (length (b_heap s)) (b_locks s),
      b_heap := b_heap s @ [\<lparr>k_owner = None, k_waiters = []\<rparr>]\<rparr>" "k = length (b_heap s)"
    using assms(2) None by (auto simp: lock_for_def)
  have l: "turns_ok s" "locks_ok s" "queues_ok s" "routes_ok s" "claims_ok s"
    using assms(1) by (simp_all add: bot_ok_def)
  have "locks_ok s1" using l(2) None unfolding s1 locks_ok_def
    by (auto simp: nth_append less_Suc_eq dest: held_known)
  moreover have "queues_ok s1" using l(3) unfolding s1 queues_ok_def by (auto simp: nth_append less_Suc_eq)
  moreover have "turns_ok s1" "routes_ok s1" "claims_ok s1" using l unfolding s1
    by (simp_all add: turns_ok_def routes_ok_def claims_ok_def)
  ultimately show ?thesis using assms(1) by (simp add: bot_ok_def s1)
next
  case (Some k')
  then have "s1 = s" "k = k'" using assms(2) by (simp_all add: lock_for_def)
  then show ?thesis using assms(1) Some by (auto simp: bot_ok_def locks_ok_def)
qed

lemma wake_ok: "bot_ok s \<Longrightarrow> bot_ok (wake_lock k s)"
proof (cases "k < length (b_heap s) \<and> k_owner (b_heap s ! k) = None \<and> k_waiters (b_heap s ! k) \<noteq> []")
  case True
  assume ok: "bot_ok s"
  then obtain i "is" where w: "k_waiters (b_heap s ! k) = i # is" by (metis True neq_Nil_conv)
  have l: "lore_ok (b_store s)" "turns_ok s" "locks_ok s" "queues_ok s" "routes_ok s" "claims_ok s"
    using ok by (simp_all add: bot_ok_def)
  obtain u where u: "map_of (b_turns s) i = Some u" "u_pc u = TLock k"
    using l(4) True w unfolding queues_ok_def by (metis list.set_intros(1))
  let ?s = "set_waiters k is s"
  have wt: "k_waiters (b_heap ?s ! k') = (if k' = k then is else k_waiters (b_heap s ! k'))" if "k' < length (b_heap s)" for k'
    using that by (simp add: set_waiters_def nth_list_update)
  have h: "length (b_heap ?s) = length (b_heap s)" "b_turns ?s = b_turns s" by (simp_all add: set_waiters_def)
  have d: "distinct (i # is)" using l(4) True w unfolding queues_ok_def by metis
  have "queues_ok ?s"
    unfolding queues_ok_def h
  proof (intro allI impI)
    fix k' assume k': "k' < length (b_heap s)"
    then have "distinct (k_waiters (b_heap s ! k')) \<and> (\<forall>j\<in>set (k_waiters (b_heap s ! k')). \<exists>v. map_of (b_turns s) j = Some v \<and> u_pc v = TLock k')"
      using l(4) unfolding queues_ok_def by blast
    then show "distinct (k_waiters (b_heap ?s ! k')) \<and> (\<forall>j\<in>set (k_waiters (b_heap ?s ! k')). \<exists>v. map_of (b_turns s) j = Some v \<and> u_pc v = TLock k')"
      using w by (auto simp: wt [OF k'])
  qed
  moreover have "locks_ok ?s" using l(3) True by (auto simp: locks_ok_def set_waiters_def nth_list_update)
  moreover have "turns_ok ?s" "routes_ok ?s" "claims_ok ?s" "lore_ok (b_store ?s)" using l
    by (simp_all add: turns_ok_def routes_ok_def claims_ok_def set_waiters_def)
  ultimately have ok1: "bot_ok ?s" by (simp add: bot_ok_def)
  have no: "i \<notin> set (k_waiters (b_heap ?s ! k'))" if k': "k' < length (b_heap ?s)" for k'
  proof (cases "k' = k")
    case True then show ?thesis using d k' by (simp add: wt h)
  next
    case False
    then show ?thesis using l(4) k' u unfolding queues_ok_def h by (fastforce simp: wt)
  qed
  have r: "u_thread u \<in> b_lore ?s \<Longrightarrow> map_of (b_locks ?s) (u_thread u) = Some k"
    using l(3) u unfolding locks_ok_def by (simp add: set_waiters_def)
  have "bot_ok (locked_in i (u_thread u) k ?s)"
    by (rule locked_in_ok [OF ok1 _ _ _ _ no r]) (use u True in \<open>simp_all add: set_waiters_def\<close>)
  then show ?thesis using True w u by (simp add: wake_lock_def)
next
  case False
  then show "bot_ok s \<Longrightarrow> bot_ok (wake_lock k s)" by (auto simp: wake_lock_def split: list.split)
qed

lemma put_live_turns [simp]: "b_turns (put_live tid se s) = b_turns s"
  by (simp add: put_live_def)

lemma message_in_ok: "bot_ok s \<Longrightarrow> bot_ok (message_in author tid text s)"
proof (cases "tid \<in> b_lore s \<and> get_session tid (b_store s) \<noteq> None")
  case True
  assume ok: "bot_ok s"
  let ?s = "message_in author tid text s"
  have l: "lore_ok (b_store s)" "turns_ok s" "locks_ok s" "queues_ok s" "routes_ok s" "claims_ok s"
    using ok by (simp_all add: bot_ok_def)
  have e: "?s = s\<lparr>b_turns := dset (b_next s) \<lparr>u_thread = tid, u_author = author, u_text = text, u_pc = TDiscover\<rparr> (b_turns s),
      b_next := b_next s + 1\<rparr>" using True by (simp add: message_in_def)
  have new: "map_of (b_turns s) (b_next s) = None"
    using l(2) unfolding turns_ok_def by (metis less_irrefl not_Some_eq)
  have "turns_ok ?s" using l(2,5) True unfolding e by (auto simp: turns_ok_def routes_ok_def less_Suc_eq)
  moreover have "locks_ok ?s" using l(3) unfolding e by (auto simp: locks_ok_def split: if_splits)
  moreover have "queues_ok ?s" using l(4) new unfolding e queues_ok_def by fastforce
  moreover have "routes_ok ?s" "claims_ok ?s" "lore_ok (b_store ?s)" using l unfolding e
    by (simp_all add: routes_ok_def claims_ok_def)
  ultimately show ?thesis by (simp add: bot_ok_def)
qed (auto simp: message_in_def)

lemma limiter_ok: "bot_ok s \<Longrightarrow> bot_ok (s\<lparr>b_limiter := l\<rparr>)"
  by (simp add: bot_ok_defs)

lemma go_ok: "bot_ok s \<Longrightarrow> bot_ok (go i now stamp_now s)"
proof (cases "map_of (b_turns s) i")
  case (Some u)
  assume ok: "bot_ok s"
  note adv = advance_ok [OF _ Some] and drp = drop_ok [OF ok Some]
  show ?thesis
  proof (cases "u_pc u")
    case TDiscover
    obtain l b where a: "is_allowed now (u_author u) (b_limiter s) = (l, b)" by force
    show ?thesis using advance_ok [OF limiter_ok [OF ok, of l], of i u "if b then TStatus else TRefused"] Some TDiscover
      by (simp add: go_def a)
  next
    case TRefused
    then show ?thesis using drp Some by (simp add: go_def)
  next
    case TStatus
    obtain s1 k where f: "lock_for (u_thread u) s = (s1, k)" by force
    note ok1 = lock_for_ok [OF ok f]
    have turn1: "map_of (b_turns s1) i = Some u" using ok1 Some by simp
    show ?thesis
    proof (cases "k_owner (b_heap s1 ! k) = None")
      case True
      then show ?thesis using join_ok [of s1 i u k] ok1 turn1 Some TStatus f by (simp add: go_def)
    next
      case False
      have l: "turns_ok s1" "locks_ok s1" "queues_ok s1" "routes_ok s1" "claims_ok s1" "lore_ok (b_store s1)"
        using ok1 by (simp_all add: bot_ok_def)
      let ?s = "set_turn i (TWaiting k) s1"
      have "turns_ok ?s" "locks_ok ?s" using l ok1 turn1 by (auto simp: turns_ok_def locks_ok_def split: if_splits)
      moreover have "queues_ok ?s" using queues_kept [OF l(3) turn1, of ?s] TStatus turn1 by simp
      moreover have "routes_ok ?s" "claims_ok ?s" using l turn1 by (simp_all add: routes_ok_def claims_ok_def)
      ultimately have "bot_ok ?s" using l(6) turn1 by (simp add: bot_ok_def)
      then show ?thesis using False Some TStatus f by (simp add: go_def del: set_turn_Some)
    qed
  next
    case (TWaiting k)
    have "locks_ok s" using ok by (simp add: bot_ok_def)
    then have "k < length (b_heap s)" "u_thread u \<in> b_lore s \<Longrightarrow> map_of (b_locks s) (u_thread u) = Some k"
      using Some TWaiting unfolding locks_ok_def by auto
    then show ?thesis using join_ok [OF ok Some, of k] TWaiting Some by (simp add: go_def)
  next
    case (TTyping k se)
    show ?thesis
      using live_ok [OF ok Some, of k se "append_question stamp_now (u_text u) se" "TRounds k (append_question stamp_now (u_text u) se)"] Some TTyping
      by (simp add: go_def append_question_def touch_def Let_def)
  next
    case (TFailing k)
    then show ?thesis using end_ok [OF ok Some] Some by (simp add: go_def)
  qed (use ok Some in \<open>simp_all add: go_def\<close>)
qed (simp add: go_def)

lemma raised_ok: "bot_ok s \<Longrightarrow> bot_ok (raised i s)"
proof (cases "map_of (b_turns s) i")
  case (Some u)
  assume ok: "bot_ok s"
  show ?thesis
    by (cases "u_pc u")
      (use ok Some drop_ok [OF ok Some] end_ok [OF ok Some] advance_ok [OF ok Some] in \<open>simp_all add: raised_def\<close>)
qed (simp add: raised_def)

lemma failing_ok: "bot_ok s \<Longrightarrow> map_of (b_turns s) i = Some u \<Longrightarrow> lock_held (u_pc u) = Some k \<Longrightarrow> bot_ok (set_turn i (TFailing k) s)"
  using advance_ok [of s i u "TFailing k"] by (cases "u_pc u") simp_all

lemma rounds_over_ok: "bot_ok s \<Longrightarrow> bot_ok (rounds_over i w s)"
proof (cases "map_of (b_turns s) i")
  case (Some u)
  assume ok: "bot_ok s"
  show ?thesis
  proof (cases "u_pc u")
    case (TRounds k se)
    have "thread_id se1 = thread_id se" if "note_research w tms se = Inr se1" for tms se1
      using that by (auto simp: note_research_def append_research_def bindA_eq_Inr Let_def split: if_splits sum.splits)
    then show ?thesis
      using ok Some TRounds failing_ok [OF ok Some, of k] live_ok [OF ok Some, of k se]
      by (auto simp: rounds_over_def split: sum.split simp del: set_turn_Some)
  qed (use ok Some in \<open>simp_all add: rounds_over_def\<close>)
qed (simp add: rounds_over_def)

lemma put_ok:
  assumes "bot_ok s" "tid = thread_id se" "tid \<in> b_lore s \<Longrightarrow> get_session tid (b_store s) = Some se"
  shows "bot_ok (s\<lparr>b_store := put_session ok se (b_store s)\<rparr>)"
proof (rule store_ok [OF assms(1)])
  show "lore_ok (put_session ok se (b_store s))" using assms(1)
    by (auto simp: bot_ok_def lore_ok_def put_session_def)
  show "map_of (s_threads (put_session ok se (b_store s))) t = map_of (s_threads (b_store s)) t"
    if "t \<in> b_lore s" for t
    using assms(2,3) that by (cases "t = tid") (simp_all add: put_session_def get_session_def)
qed

lemma turn_session:
  "bot_ok s \<Longrightarrow> map_of (b_turns s) i = Some u \<Longrightarrow> session_at (u_pc u) = Some se \<Longrightarrow>
     thread_id se = u_thread u \<and> (u_thread u \<in> b_lore s \<longrightarrow> get_session (u_thread u) (b_store s) = Some se)"
  unfolding bot_ok_def turns_ok_def by blast

lemma set_turn_store: "set_turn i pc (s\<lparr>b_store := st\<rparr>) = (set_turn i pc s)\<lparr>b_store := st\<rparr>"
  by (simp add: set_turn_def split: option.split)

lemma answered_ok: "bot_ok s \<Longrightarrow> bot_ok (answered i w stamp_now ok s)"
proof (cases "map_of (b_turns s) i")
  case (Some u)
  assume ok: "bot_ok s"
  show ?thesis
  proof (cases "u_pc u")
    case (TAnswer k se direct tms m)
    show ?thesis
    proof (cases "give_answer w direct se m")
      case (Inl e)
      then show ?thesis using ok Some TAnswer failing_ok [OF ok Some, of k]
        by (simp add: answered_def del: set_turn_Some)
    next
      case (Inr r)
      obtain a m' where r: "r = (a, m')" by force
      define se1 where "se1 = record_context (context_used m') (append_answer stamp_now
        (if a = [] then ''I wasn't able to produce an answer for that. Try rephrasing?'' else a) se)"
      let ?s = "set_turn i (TPost k se1) (put_live (u_thread u) se1 s)"
      have t: "thread_id se1 = thread_id se"
        by (simp add: se1_def record_context_def append_answer_def touch_def)
      then have ok1: "bot_ok ?s" using live_ok [OF ok Some, of k se se1 "TPost k se1"] TAnswer by simp
      have "map_of (b_turns ?s) i = Some (u\<lparr>u_pc := TPost k se1\<rparr>)" using Some by simp
      note ts = turn_session [OF ok1 this]
      have "bot_ok (?s\<lparr>b_store := put_session ok se1 (b_store ?s)\<rparr>)"
        by (rule put_ok [OF ok1 refl]) (use ts in simp)
      moreover have "answered i w stamp_now ok s = ?s\<lparr>b_store := put_session ok se1 (b_store ?s)\<rparr>"
        using Some TAnswer Inr r by (simp add: answered_def set_turn_store se1_def Let_def)
      ultimately show ?thesis by simp
    qed
  qed (use ok Some in \<open>simp_all add: answered_def\<close>)
qed (simp add: answered_def)

lemma posted_ok: "bot_ok s \<Longrightarrow> bot_ok (posted i limit s)"
proof (cases "map_of (b_turns s) i")
  case (Some u)
  assume ok: "bot_ok s"
  show ?thesis
  proof (cases "u_pc u")
    case (TPost k se)
    then show ?thesis using ok Some end_ok [OF ok Some, of k] advance_ok [OF ok Some, of "TCompact k se"]
      by (simp add: posted_def)
  qed (use ok Some in \<open>simp_all add: posted_def\<close>)
qed (simp add: posted_def)

lemma compact_same_thread: "maybe_compact_session limit reply se = Inr (se1, c) \<Longrightarrow> thread_id se1 = thread_id se"
  by (auto simp: maybe_compact_session_def compact_session_def bindE_eq_Inr split: if_splits option.splits)

lemma end_turn_store: "end_turn i k (s\<lparr>b_store := st\<rparr>) = (end_turn i k s)\<lparr>b_store := st\<rparr>"
  by (simp add: end_turn_def drop_turn_def set_owner_def)

lemma end_turn_same [simp]:
  "b_store (end_turn i k s) = b_store s" "b_lore (end_turn i k s) = b_lore s"
  by (simp_all add: end_turn_def drop_turn_def set_owner_def)

lemma set_turn_same [simp]: "b_store (set_turn i pc s) = b_store s" "b_lore (set_turn i pc s) = b_lore s"
  by (simp_all add: set_turn_def split: option.split)

lemma put_live_lore [simp]: "b_lore (put_live tid se s) = b_lore s"
  by (simp add: put_live_def)

lemma turn_compacted_ok: "bot_ok s \<Longrightarrow> bot_ok (turn_compacted i limit reply ok s)"
proof (cases "map_of (b_turns s) i")
  case (Some u)
  assume ok: "bot_ok s"
  show ?thesis
  proof (cases "u_pc u")
    case (TCompact k se)
    show ?thesis
    proof (cases "maybe_compact_session limit reply se")
      case (Inl e)
      then show ?thesis using ok Some TCompact end_ok [OF ok Some, of k] by (simp add: turn_compacted_def)
    next
      case (Inr r)
      obtain se1 c where r: "r = (se1, c)" by force
      let ?s = "set_turn i (TCompact k se1) (put_live (u_thread u) se1 s)"
      have t: "thread_id se1 = thread_id se" using compact_same_thread Inr r by blast
      then have ok1: "bot_ok ?s" using live_ok [OF ok Some, of k se se1 "TCompact k se1"] TCompact by simp
      have i: "map_of (b_turns ?s) i = Some (u\<lparr>u_pc := TCompact k se1\<rparr>)" using Some by simp
      note ts = turn_session [OF ok1 this]
      have e: "end_turn i k ?s = end_turn i k (put_live (u_thread u) se1 s)"
        using Some by (simp add: end_turn_def drop_turn_def set_owner_def put_live_def)
      have ok2: "bot_ok (end_turn i k (put_live (u_thread u) se1 s))"
        using end_ok [OF ok1 i, of k] by (simp only: e) simp
      then have "bot_ok ((end_turn i k (put_live (u_thread u) se1 s))\<lparr>b_store := put_session ok se1 (b_store (put_live (u_thread u) se1 s))\<rparr>)"
        using put_ok [OF ok2 refl, of se1 ok] ts by simp
      then show ?thesis using ok2 Some TCompact Inr r by (simp add: turn_compacted_def end_turn_store Let_def)
    qed
  qed (use ok Some in \<open>simp_all add: turn_compacted_def\<close>)
qed (simp add: turn_compacted_def)

lemma claim_state_ok: "bot_ok s \<Longrightarrow> m \<in> b_claiming s \<Longrightarrow> bot_ok (set_claim m pc s)"
  by (simp add: bot_ok_defs set_claim_def)

lemma claim_end_ok: "bot_ok s \<Longrightarrow> bot_ok (claim_end m s)"
  by (simp add: bot_ok_defs claim_end_def)

lemma claim_start_ok: "bot_ok s \<Longrightarrow> m \<in> b_claiming s \<Longrightarrow> bot_ok (claim_start m s)"
  unfolding claim_start_def by (rule claim_state_ok)

lemma reaction_ok: "bot_ok s \<Longrightarrow> bot_ok (reaction own emoji m cached s)"
proof -
  assume ok: "bot_ok s"
  have "bot_ok (s\<lparr>b_claiming := insert m (b_claiming s)\<rparr>)" using ok by (simp add: bot_ok_defs)
  then show ?thesis using ok by (simp add: reaction_def claim_start_ok claim_state_ok Let_def)
qed


lemma get_kind_register: "get_kind i (register ok now j model name kind r) = (if i = j then kind else get_kind i r)"
  by (simp add: get_kind_def register_def save_registry_def)

lemma is_lore_register: "is_lore i (register ok now j model name kind r) \<longleftrightarrow> (if i = j then kind = ''lore'' else is_lore i r)"
  by (simp add: is_lore_def get_kind_register)

lemma is_lore_update [simp]: "is_lore i (update_status ok j status r) \<longleftrightarrow> is_lore i r"
  by (simp add: is_lore_def get_kind_def update_status_def save_registry_def split: option.split)

lemma is_lore_remove: "is_lore i (remove_thread ok j r) \<longleftrightarrow> i \<noteq> j \<and> is_lore i r"
  by (auto simp: is_lore_def get_kind_def remove_thread_def save_registry_def split: option.split)

text \<open>A thread nobody has spoken in yet joins the routed ones.\<close>

lemma opened_ok:
  assumes "bot_ok s" "tid \<notin> b_ids s" "m \<in> b_claiming s"
  shows "bot_ok (opened m tid name now ok1 ok2 s)"
proof -
  have l: "lore_ok (b_store s)" "turns_ok s" "locks_ok s" "queues_ok s" "routes_ok s" "claims_ok s"
    using assms(1) by (simp_all add: bot_ok_def)
  let ?s0 = "s\<lparr>b_created := b_created s @ [(m, tid)], b_ids := insert tid (b_ids s)\<rparr>"
  have ok0: "bot_ok ?s0" using assms(1) by (auto simp: bot_ok_defs)
  obtain st r where c: "claim ok1 m tid (b_store s) = (st, r)" by force
  have st: "lore_ok st" using lore_step_ok [OF l(1), of "\<lambda>s. None" "Claim ok1 m tid"] c by simp
  show ?thesis
  proof (cases r)
    case None
    then have "st = b_store s" using c by (auto simp: claim_def Let_def split: option.splits)
    then show ?thesis using c None claim_end_ok [OF ok0, of m] by (simp add: opened_def Let_def)
  next
    case (Some se)
    then have th: "s_threads st = dset tid se (s_threads (b_store s))"
      using c by (auto simp: claim_def Let_def split: option.splits)
    let ?s = "?s0\<lparr>b_store := st, b_models := dset tid AGENT_MODEL (b_models ?s0), b_lore := insert tid (b_lore ?s0),
                b_registry := register ok2 now tid AGENT_MODEL name ''lore'' (b_registry ?s0)\<rparr>"
    have "tid \<notin> b_lore s" using l(5) assms(2) by (auto simp: routes_ok_def)
    then have "turns_ok ?s" using l(2) assms(2) th
      by (auto simp: turns_ok_def is_lore_register get_session_def split: if_splits)
    moreover have "u_thread u \<noteq> tid" if "map_of (b_turns s) i = Some u" for i u
      using l(2) assms(2) that by (auto simp: turns_ok_def)
    then have "locks_ok ?s" using l(3) by (auto simp: locks_ok_def)
    moreover have "queues_ok ?s" "claims_ok ?s" using l by (simp_all add: queues_ok_def claims_ok_def)
    moreover have "routes_ok ?s" using l(5) assms(2) th
      by (auto simp: routes_ok_def is_lore_register get_session_def)
    ultimately have "bot_ok ?s" using st by (simp add: bot_ok_def)
    then show ?thesis using c Some assms(3) claim_state_ok [of ?s m CGreet] by (simp add: opened_def Let_def)
  qed
qed

lemma claim_reply_ok:
  assumes "bot_ok s" "fresh_event (ClaimReply m a) s"
  shows "bot_ok (claim_reply m a s)"
proof (cases "map_of (b_claims s) m")
  case (Some pc)
  have m: "m \<in> b_claiming s" using assms(1) Some by (auto simp: bot_ok_def claims_ok_def)
  show ?thesis
    using assms claim_state_ok [OF assms(1) m] claim_end_ok [OF assms(1), of m] claim_start_ok [OF assms(1) m]
      opened_ok [OF assms(1) _ m] Some
    by (cases pc; cases a) (auto simp: claim_reply_def split: sum.split)
qed (use assms in \<open>simp add: claim_reply_def\<close>)

lemma offer_thread_ok: "bot_ok s \<Longrightarrow> bot_ok (offer_thread ts w stamp_now pinned prompt q r m now ok s)"
proof (cases "seed_session_from_run w stamp_now pinned 0 prompt q r")
  case (Inr se)
  assume ok: "bot_ok s"
  have l: "lore_ok (b_store s)" using ok by (simp add: bot_ok_def)
  have "s_threads (offer ok ts now m se ttl (b_store s)) = s_threads (b_store s)" for ttl
    using sweep_simps [of "b_store s"] l by (simp add: offer_def Let_def lore_ok_def)
  then show ?thesis using store_ok [OF ok lore_step_ok [OF l, of ts "Offer ok now m se LORE_OFFER_TTL_SECONDS"]] Inr
    by (simp add: offer_thread_def)
qed (simp add: offer_thread_def)

lemma chat_opened_ok: "bot_ok s \<Longrightarrow> tid \<notin> b_ids s \<Longrightarrow> bot_ok (chat_opened tid model name now ok s)"
  unfolding bot_ok_def
proof (elim conjE, intro conjI)
  let ?s = "chat_opened tid model name now ok s"
  assume a: "tid \<notin> b_ids s" "lore_ok (b_store s)" "turns_ok s" "locks_ok s" "queues_ok s" "routes_ok s" "claims_ok s"
  show "lore_ok (b_store ?s)" "locks_ok ?s" "queues_ok ?s" "claims_ok ?s"
    using a by (simp_all add: chat_opened_def locks_ok_def queues_ok_def claims_ok_def)
  show "turns_ok ?s" using a by (auto simp: chat_opened_def turns_ok_def is_lore_register)
  show "routes_ok ?s" using a by (auto simp: chat_opened_def routes_ok_def is_lore_register)
qed

lemma retire_ok: "bot_ok s \<Longrightarrow> bot_ok (retire_thread ok1 ok2 tid s)"
  unfolding bot_ok_def
proof (elim conjE, intro conjI)
  let ?s = "retire_thread ok1 ok2 tid s"
  assume a: "lore_ok (b_store s)" "turns_ok s" "locks_ok s" "queues_ok s" "routes_ok s" "claims_ok s"
  have th: "get_session t (remove_session ok2 tid (b_store s)) = (if t = tid then None else get_session t (b_store s))" for t
    by (simp add: get_session_def remove_session_def)
  show "lore_ok (b_store ?s)"
    using lore_step_ok [OF a(1), of "\<lambda>s. None" "Remove ok2 tid"] by (simp add: retire_thread_def forget_thread_def)
  show "queues_ok ?s" "claims_ok ?s"
    using a by (simp_all add: retire_thread_def forget_thread_def queues_ok_def claims_ok_def)
  show "turns_ok ?s" using a(2) by (auto simp: retire_thread_def forget_thread_def turns_ok_def is_lore_remove th)
  show "locks_ok ?s" using a(3) by (auto simp: retire_thread_def forget_thread_def locks_ok_def split: if_splits)
  show "routes_ok ?s" using a(5) by (auto simp: retire_thread_def forget_thread_def routes_ok_def is_lore_remove th)
qed

lemma sweep_next_ok: "bot_ok s \<Longrightarrow> bot_ok (sweep_next tids s)"
  by (induction tids s rule: sweep_next.induct) (simp_all add: bot_ok_defs)

lemma restore_ok: "bot_ok s \<Longrightarrow> bot_ok (restore_reply f ok s)"
proof (cases "b_restore s")
  case (Cons x es)
  assume ok: "bot_ok s"
  obtain tid e where x: "x = (tid, e)" by force
  have l: "lore_ok (b_store s)" "turns_ok s" "locks_ok s" "queues_ok s" "routes_ok s" "claims_ok s"
    using ok by (simp_all add: bot_ok_def)
  let ?s1 = "s\<lparr>b_restore := es\<rparr>"
  have ok1: "bot_ok ?s1" and reg: "bot_ok (?s1\<lparr>b_registry := update_status ok tid st (b_registry ?s1)\<rparr>)" for st
    using ok by (simp_all add: bot_ok_defs)
  show ?thesis
  proof (cases f)
    case (FThread archived)
    let ?s = "restore_reply f ok s"
    have s: "?s = s\<lparr>b_restore := es, b_registry := update_status ok tid (if archived then ''archived'' else ''active'') (b_registry s),
        b_models := dset tid (t_model e) (b_models s),
        b_lore := (if is_lore tid (b_registry s) \<and> get_session tid (b_store s) \<noteq> None then insert tid (b_lore s) else b_lore s)\<rparr>"
      using Cons x FThread by (auto simp: restore_reply_def Let_def)
    have new: "u_thread u \<noteq> tid" if "map_of (b_turns s) i = Some u" "is_lore tid (b_registry s)" "tid \<notin> b_lore s" for i u
      using l(2) that by (auto simp: turns_ok_def)
    have "turns_ok ?s" using l(2) new unfolding s by (auto simp: turns_ok_def)
    moreover have "locks_ok ?s" using l(3) new unfolding s
      by (auto simp: locks_ok_def) metis
    moreover have "queues_ok ?s" "claims_ok ?s" using l unfolding s by (simp_all add: queues_ok_def claims_ok_def)
    moreover have "routes_ok ?s" using l(5) unfolding s by (auto simp: routes_ok_def)
    ultimately show ?thesis using l(1) by (simp add: bot_ok_def s)
  qed (use Cons x ok1 reg in \<open>simp_all add: restore_reply_def\<close>)
qed (simp add: restore_reply_def)

lemma bot_step_ok: "bot_ok s \<Longrightarrow> fresh_event e s \<Longrightarrow> bot_ok (bot_step ts e s)"
  by (cases e)
    (simp_all add: message_in_ok go_ok raised_ok wake_ok rounds_over_ok answered_ok posted_ok turn_compacted_ok
      reaction_ok claim_reply_ok offer_thread_ok chat_opened_ok restore_ok sweep_next_ok retire_ok
      sweep_start_def sweep_notified_def split: option.split)

lemma booted_ok: "booted ts s \<Longrightarrow> bot_ok s"
  by (auto simp: booted_def boot_def bindE_eq_Inr bot_ok_defs)

lemma bot_life_ok: "bot_life ts s0 es s \<Longrightarrow> bot_ok s"
  by (induction rule: bot_life.induct) (auto intro: booted_ok bot_step_ok)

declare set_turn_Some [simp del]

section \<open>Turns\<close>

text \<open>
  C27: One turn at a time, and none is lost. In a routed thread, whatever runs next to it, only one
  handler is past the lock; and the session it works on is the one in the store, so no answer is
  appended to a stale transcript and none is overwritten.
\<close>

theorem turns_serial:
  assumes "bot_life ts s0 es s" and "map_of (b_turns s) i = Some u" and "lock_held (u_pc u) = Some k"
    and "u_thread u \<in> b_lore s"
  shows "(\<forall>j v k'. map_of (b_turns s) j = Some v \<longrightarrow> lock_held (u_pc v) = Some k' \<longrightarrow> u_thread v = u_thread u \<longrightarrow> j = i)
    \<and> (\<forall>se. session_at (u_pc u) = Some se \<longrightarrow> get_session (u_thread u) (b_store s) = Some se)"
  using holder_unique [OF bot_life_ok [OF assms(1)] assms(2) _ assms(3)] turn_session [OF bot_life_ok [OF assms(1)] assms(2)] assms(4)
  by metis

fun fresh_run :: "(string \<Rightarrow> real option) \<Rightarrow> bot_event list \<Rightarrow> bot \<Rightarrow> bool" where
  "fresh_run ts [] s \<longleftrightarrow> True"
| "fresh_run ts (e # es) s \<longleftrightarrow> fresh_event e s \<and> fresh_run ts es (bot_step ts e s)"

lemma life_run: "bot_life ts s0 es s \<Longrightarrow> fresh_run ts es' s \<Longrightarrow> bot_life ts s0 (es @ es') (bot_run ts es' s)"
proof (induction es' arbitrary: es s)
  case (Cons e es')
  have "bot_life ts s0 (es @ [e]) (bot_step ts e s)" using Cons.prems by (auto intro: bot_life.step)
  from Cons.IH [OF this] Cons.prems(2) show ?case by (simp add: bot_run_def)
qed (simp add: bot_run_def)

text \<open>A life to look at: one offer is claimed, a thread opened, and two people ask at once.\<close>

definition offered_bot :: bot where
  "offered_bot = \<lparr>b_store = example_store\<lparr>s_disk := Sessions (dump_store example_store)\<rparr>, b_models = [], b_lore = {},
     b_locks = [], b_heap = [], b_claiming = {}, b_registry = load_registry None, b_limiter = limiter_init,
     b_turns = [], b_next = 0, b_claims = [], b_sweep = None, b_restore = [], b_created = [], b_ids = {}\<rparr>"

lemma offered_booted: "booted (\<lambda>s. Some 0) offered_bot"
proof -
  have "boot (\<lambda>s. Some 0) 0 True None (Sessions (dump_store example_store)) {} = Inr offered_bot" by code_simp
  moreover have "lore_ok (b_store offered_bot)"
    by (simp add: offered_bot_def lore_ok_def example_store_def dict_ok_def)
  moreover have "\<not> is_lore tid (b_registry offered_bot)" for tid
    by (simp add: offered_bot_def load_registry_def is_lore_def get_kind_def)
  ultimately show ?thesis unfolding booted_def by blast
qed

lemma offered_life: "fresh_run (\<lambda>s. Some 0) es offered_bot \<Longrightarrow> bot_life (\<lambda>s. Some 0) offered_bot es (bot_run (\<lambda>s. Some 0) es offered_bot)"
  using life_run [OF bot_life.start [OF offered_booted], of es] by simp

definition thread_opens :: "bot_event list" where
  "thread_opens = [Reaction False True 5 True, ClaimReply 5 CYes, ClaimReply 5 (COpened 100 ''lore-q'' ''t'' True True),
     ClaimReply 5 CYes, ClaimReply 5 CYes]"

definition two_questions :: "bot_event list" where
  "two_questions = [MessageIn 1 100 ''who?'', MessageIn 2 100 ''when?'', Go 0 0 ''t'', Go 1 0 ''t'', Go 0 0 ''t'', Go 1 0 ''t'',
     Go 1 0 ''t'', Go 0 0 ''t'']"

theorem turns_serial_witness:
  "\<exists>u se. map_of (b_turns (bot_run (\<lambda>s. Some 0) (thread_opens @ two_questions) offered_bot)) 0 = Some u
     \<and> session_at (u_pc u) = Some se
     \<and> get_session 100 (b_store (bot_run (\<lambda>s. Some 0) (thread_opens @ two_questions) offered_bot)) = Some se
     \<and> map_option u_pc (map_of (b_turns (bot_run (\<lambda>s. Some 0) (thread_opens @ two_questions) offered_bot)) 1) = Some (TLock 0)"
proof -
  let ?s = "bot_run (\<lambda>s. Some 0) (thread_opens @ two_questions) offered_bot"
  have life: "bot_life (\<lambda>s. Some 0) offered_bot (thread_opens @ two_questions) ?s"
    by (rule offered_life) code_simp
  have e: "map_option (\<lambda>u. (u_thread u, lock_held (u_pc u))) (map_of (b_turns ?s) 0) = Some (100, Some 0)"
    "map_option u_pc (map_of (b_turns ?s) 1) = Some (TLock 0)" "100 \<in> b_lore ?s"
    "map_option (\<lambda>u. session_at (u_pc u) = None) (map_of (b_turns ?s) 0) = Some False" by code_simp+
  then obtain u se where u: "map_of (b_turns ?s) 0 = Some u" "u_thread u = 100" "lock_held (u_pc u) = Some 0"
    "session_at (u_pc u) = Some se" by auto
  show ?thesis using turns_serial [OF life u(1,3)] u e by auto
qed

section \<open>Offers become threads once\<close>

text \<open>What the claims of offers can see and change.\<close>

definition claim_view :: "bot \<Rightarrow> (int \<times> int) list \<times> (int \<times> claim_pc) list \<times> (int \<times> session) list" where
  "claim_view s = (b_created s, b_claims s, s_pending (b_store s))"

lemma claim_view_pieces [simp]:
  "claim_view (set_turn i pc s) = claim_view s" "claim_view (drop_turn i s) = claim_view s"
  "claim_view (set_owner k p s) = claim_view s" "claim_view (set_waiters k is s) = claim_view s"
  "claim_view (end_turn i k s) = claim_view s" "claim_view (put_live tid se s) = claim_view s"
  "claim_view (locked_in i tid k s) = claim_view s" "claim_view (join_lock i tid k s) = claim_view s"
  "claim_view (sweep_next tids s) = claim_view s" "claim_view (retire_thread ok1 ok2 tid s) = claim_view s"
  "claim_view (s\<lparr>b_limiter := l\<rparr>) = claim_view s"
  "claim_view (s\<lparr>b_store := put_session ok se (b_store s)\<rparr>) = claim_view s"
proof -
  show t: "claim_view (set_turn i pc s) = claim_view s" for s pc
    by (simp add: claim_view_def set_turn_def split: option.split)
  show d: "claim_view (drop_turn i s) = claim_view s" "claim_view (set_owner k p s) = claim_view s"
    "claim_view (set_waiters k is s) = claim_view s" for s p "is"
    by (simp_all add: claim_view_def drop_turn_def set_owner_def set_waiters_def)
  show e: "claim_view (end_turn i k s) = claim_view s" for s by (simp add: end_turn_def d)
  show l: "claim_view (locked_in i tid k s) = claim_view s" for s
    by (simp add: locked_in_def Let_def e t d split: option.split)
  show "claim_view (join_lock i tid k s) = claim_view s" by (simp add: join_lock_def l t d)
  show "claim_view (sweep_next tids s) = claim_view s"
    by (induction tids s rule: sweep_next.induct) (simp_all add: claim_view_def)
qed (simp_all add: claim_view_def put_live_def retire_thread_def forget_thread_def remove_session_def put_session_def Let_def)

lemma claim_view_put [simp]:
  "claim_view ((set_turn i pc s)\<lparr>b_store := put_session ok se (b_store s)\<rparr>) = claim_view s"
  "claim_view ((end_turn i k s)\<lparr>b_store := put_session ok se (b_store s)\<rparr>) = claim_view s"
  by (simp_all add: claim_view_def put_session_def set_turn_def end_turn_def drop_turn_def set_owner_def split: option.split)

lemma claim_view_lock_for: "lock_for tid s = (s1, k) \<Longrightarrow> claim_view s1 = claim_view s"
  by (auto simp: lock_for_def claim_view_def split: option.splits)

fun claims_event :: "bot_event \<Rightarrow> bool" where
  "claims_event (Reaction own emoji m cached) = True"
| "claims_event (ClaimReply m a) = True"
| "claims_event (OfferThread w a b c d r m now ok) = True"
| "claims_event e = False"

lemma claim_view_same: "\<not> claims_event e \<Longrightarrow> claim_view (bot_step ts e s) = claim_view s"
proof (cases e)
  case (Go i now t)
  then show ?thesis using claim_view_lock_for
    by (fastforce simp: go_def Let_def split: option.split turn_pc.split prod.split)
next
  case (RestoreReply f ok)
  then show ?thesis
    by (auto simp: restore_reply_def claim_view_def Let_def split: list.split fetched.split)
next
  case (Answered i w t ok)
  then show ?thesis
    by (auto simp: answered_def Let_def split: option.split turn_pc.split sum.split prod.split)
next
  case (Compacted i l r ok)
  then show ?thesis
    by (auto simp: turn_compacted_def Let_def split: option.split turn_pc.split sum.split prod.split)
next
  case (MessageIn a t x)
  then show ?thesis by (simp add: message_in_def claim_view_def)
next
  case (ChatOpened t m n w ok)
  then show ?thesis by (simp add: chat_opened_def claim_view_def)
qed (auto simp: raised_def wake_lock_def rounds_over_def posted_def
    sweep_start_def sweep_notified_def split: option.split turn_pc.split sum.split prod.split list.split)


definition threads_opened :: "int \<Rightarrow> bot \<Rightarrow> nat" where
  "threads_opened m s = length (filter (\<lambda>c. fst c = m) (b_created s))"

text \<open>An offer that can still become a thread: it is pending, or a claim of it is on its way.\<close>

definition claimable :: "int \<Rightarrow> bot \<Rightarrow> nat" where
  "claimable m s =
     (if map_of (s_pending (b_store s)) m \<noteq> None
        \<or> (case map_of (b_claims s) m of Some (CFetch p) \<Rightarrow> True | Some CCreate \<Rightarrow> True | _ \<Rightarrow> False)
      then 1 else 0)"

fun thread_offers :: "int \<Rightarrow> bot_event list \<Rightarrow> nat" where
  "thread_offers m [] = 0"
| "thread_offers m (OfferThread w a b c d r m' now ok # es) = (if m' = m then 1 else 0) + thread_offers m es"
| "thread_offers m (e # es) = thread_offers m es"

lemma thread_offers_append [simp]: "thread_offers m (es @ es') = thread_offers m es + thread_offers m es'"
  by (induction m es rule: thread_offers.induct) auto

lemma claimable_view: "claim_view s' = claim_view s \<Longrightarrow> threads_opened m s' = threads_opened m s \<and> claimable m s' = claimable m s"
  by (auto simp: claim_view_def threads_opened_def claimable_def)

lemma claimable_step:
  assumes "bot_ok s"
  shows "threads_opened m (bot_step ts e s) + claimable m (bot_step ts e s)
    \<le> threads_opened m s + claimable m s + thread_offers m [e]"
proof (cases "claims_event e")
  case False
  then show ?thesis using claimable_view [OF claim_view_same] by simp
next
  case True
  have l: "dict_ok (s_pending (b_store s))" and c: "claims_ok s" using assms by (simp_all add: bot_ok_def lore_ok_def)
  show ?thesis
  proof (cases e)
    case (Reaction own emoji m' cached)
    show ?thesis using c
      by (auto simp: Reaction reaction_def claim_start_def set_claim_def peek_offer_def claimable_def threads_opened_def
          claims_ok_def Let_def split: option.split)
  next
    case (ClaimReply m' a)
    show ?thesis
    proof (cases "map_of (b_claims s) m'")
      case (Some pc)
      show ?thesis
        by (cases pc; cases a)
          (auto simp: ClaimReply claim_reply_def Some claim_start_def set_claim_def claim_end_def opened_def claim_def
            peek_offer_def claimable_def threads_opened_def Let_def split: option.splits sum.splits)
    qed (simp add: ClaimReply claim_reply_def)
  next
    case (OfferThread w a b p q r m' now ok)
    show ?thesis
      by (auto simp: OfferThread offer_thread_def claimable_def threads_opened_def offer_def Let_def sweep_simps [OF l]
          split: sum.split dest: map_of_filter_dict [OF l])
  qed (use True in simp_all)
qed

lemma claimable_bound:
  "bot_life ts s0 es s \<Longrightarrow> threads_opened m s + claimable m s \<le> thread_offers m es + claimable m s0"
proof (induction rule: bot_life.induct)
  case start
  then have "b_created s0 = []" by (auto simp: booted_def boot_def bindE_eq_Inr)
  then show ?case by (simp add: threads_opened_def)
next
  case (step es s e)
  then show ?case using claimable_step [OF bot_life_ok [OF step(1)], of m ts e] by simp
qed


text \<open>Three people react; two of them while the thread is being opened.\<close>

definition reactions :: "bot_event list" where
  "reactions = [Reaction False True 5 False, Reaction False True 5 True, ClaimReply 5 CYes, ClaimReply 5 CYes, Reaction False True 5 True,
     ClaimReply 5 (COpened 100 ''lore-q'' ''t'' True True), ClaimReply 5 CYes, ClaimReply 5 CYes, Reaction False True 5 True]"


section \<open>Routed threads\<close>

text \<open>
  A routed thread can be answered. At every moment of a life, each thread the lore cog answers in
  has its session, is registered as one and has its model, and the chat cog keeps out of it.
\<close>

theorem routed_answerable:
  assumes "bot_life ts s0 es s" and "tid \<in> b_lore s"
  shows "get_session tid (b_store s) \<noteq> None \<and> is_lore tid (b_registry s) \<and> map_of (b_models s) tid \<noteq> None
    \<and> chat_model tid s = None"
  using bot_life_ok [OF assms(1)] assms(2) by (auto simp: bot_ok_def routes_ok_def chat_model_def)

theorem routed_answerable_witness:
  "get_session 100 (b_store (bot_run (\<lambda>s. Some 0) thread_opens offered_bot)) \<noteq> None
   \<and> chat_model 100 (bot_run (\<lambda>s. Some 0) thread_opens offered_bot) = None"
proof -
  have "bot_life (\<lambda>s. Some 0) offered_bot thread_opens (bot_run (\<lambda>s. Some 0) thread_opens offered_bot)"
    by (rule offered_life) code_simp
  moreover have "100 \<in> b_lore (bot_run (\<lambda>s. Some 0) thread_opens offered_bot)" by code_simp
  ultimately show ?thesis using routed_answerable by blast
qed

section \<open>Restarting\<close>

lemma restore_found:
  assumes "length found = length (b_restore s)"
    and "s' = fold (\<lambda>archived. restore_reply (FThread archived) ok) found s"
  shows "b_store s' = b_store s \<and> (\<forall>tid. is_lore tid (b_registry s') = is_lore tid (b_registry s))
    \<and> b_lore s' = b_lore s \<union> {tid \<in> fst ` set (b_restore s). is_lore tid (b_registry s) \<and> get_session tid (b_store s) \<noteq> None}"
  using assms(1) unfolding assms(2)
proof (induction found arbitrary: s)
  case (Cons a found)
  obtain tid e es where r: "b_restore s = (tid, e) # es"
    using Cons.prems by (cases "b_restore s") auto
  let ?s = "restore_reply (FThread a) ok s"
  have s: "b_restore ?s = es" "b_store ?s = b_store s" "\<And>t. is_lore t (b_registry ?s) = is_lore t (b_registry s)"
    "b_lore ?s = b_lore s \<union> (if is_lore tid (b_registry s) \<and> get_session tid (b_store s) \<noteq> None then {tid} else {})"
    by (simp_all add: restore_reply_def r Let_def del: not_None_eq)
  have "length found = length (b_restore ?s)" using Cons.prems s(1) r by simp
  from Cons.IH [OF this] show ?case using s r by auto
qed simp

lemma restore_models:
  "length found = length (b_restore s) \<Longrightarrow>
   map_of (b_models (fold (\<lambda>archived. restore_reply (FThread archived) ok) found s)) tid
     = (case map_of (rev (b_restore s)) tid of Some e \<Rightarrow> Some (t_model e) | None \<Rightarrow> map_of (b_models s) tid)"
proof (induction found arbitrary: s)
  case (Cons a found)
  obtain k e es where r: "b_restore s = (k, e) # es"
    using Cons.prems by (cases "b_restore s") auto
  let ?s = "restore_reply (FThread a) ok s"
  have s: "b_restore ?s = es" "b_models ?s = dset k (t_model e) (b_models s)"
    by (simp_all add: restore_reply_def r Let_def del: not_None_eq)
  have "length found = length (b_restore ?s)" using Cons.prems s(1) r by simp
  from Cons.IH [OF this] show ?case
    by (cases "map_of (rev es) tid") (simp_all add: s r map_add_def)
qed simp

lemma get_all_keys: "get_all r = Inr es \<Longrightarrow> is_lore tid r \<Longrightarrow> tid \<in> fst ` set es"
proof -
  have "mapE (\<lambda>(k, e). bindE (py_int (JStr k)) (\<lambda>i. Inr (i, e))) d = Inr es \<Longrightarrow> map_of d (str_int tid) = Some e' \<Longrightarrow> tid \<in> fst ` set es"
    for d e'
    by (induction d arbitrary: es) (auto simp: bindE_eq_Inr py_int_str_int simp del: py_int.simps split: if_splits)
  then show "get_all r = Inr es \<Longrightarrow> is_lore tid r \<Longrightarrow> tid \<in> fst ` set es"
    by (auto simp: get_all_def is_lore_def get_kind_def split: option.splits)
qed

text \<open>
  C29: Nothing registered is lost over a restart. When both files hold what is in memory, every session can be
  saved and Discord still has every registered thread, the bot that comes up from the files and has checked the
  registry has the same sessions. It answers as a lore thread in exactly those that are registered so and have a
  session, among them every one the old bot answered in so, and it routes every other registered thread to
  plain chat with the model it is registered with.
\<close>

theorem restart_keeps_threads:
  assumes "bot_life ts s0 es s"
    and "reg_disk (b_registry s) = Some (Some (reg_data (b_registry s)))" and "get_all (b_registry s) = Inr entries"
    and "s_disk (b_store s) = Sessions (dump_store (b_store s))"
    and "\<forall>k se. (k, se) \<in> set (s_threads (b_store s) @ s_pending (b_store s)) \<longrightarrow> saveable se"
    and "boot ts now ok (reg_disk (b_registry s)) (s_disk (b_store s)) (b_ids s) = Inr s1"
    and "length found = length (b_restore s1)"
    and "s2 = fold (\<lambda>archived. restore_reply (FThread archived) ok') found s1"
  shows "b_lore s2 = {tid. is_lore tid (b_registry s) \<and> get_session tid (b_store s) \<noteq> None}
    \<and> b_lore s \<subseteq> b_lore s2 \<and> s_threads (b_store s2) = s_threads (b_store s)
    \<and> (\<forall>tid. chat_model tid s2 = (if tid \<in> b_lore s2 then None else map_option t_model (map_of (rev entries) tid)))"
proof -
  have ok: "bot_ok s" using bot_life_ok [OF assms(1)] .
  then have l: "lore_ok (b_store s)" by (simp add: bot_ok_def)
  have "save_store True (b_store s) = b_store s" using assms(4) by (simp add: save_store_def)
  then have load: "load_store (s_disk (b_store s)) = Inr (b_store s)" using load_saved [OF l assms(5)] by simp
  have reg: "get_all (load_registry (reg_disk (b_registry s))) = Inr entries" "\<And>tid. is_lore tid (load_registry (reg_disk (b_registry s))) = is_lore tid (b_registry s)"
    using assms(2,3) by (simp_all add: load_registry_def get_all_def is_lore_def get_kind_def)
  have s1: "b_restore s1 = entries" "b_lore s1 = {}" "b_models s1 = []" "s_threads (b_store s1) = s_threads (b_store s)"
    "\<And>tid. is_lore tid (b_registry s1) = is_lore tid (b_registry s)"
    using assms(6) load reg sweep_simps(1) [of "b_store s"] l by (auto simp: boot_def lore_ok_def)
  note r = restore_found [OF assms(7,8)]
  have "b_lore s2 = {tid. is_lore tid (b_registry s) \<and> get_session tid (b_store s) \<noteq> None}"
    using r s1 get_all_keys [OF assms(3)] by (auto simp: get_session_def)
  moreover have "b_lore s \<subseteq> {tid. is_lore tid (b_registry s) \<and> get_session tid (b_store s) \<noteq> None}"
    using ok by (auto simp: bot_ok_def routes_ok_def)
  moreover have "chat_model tid s2 = (if tid \<in> b_lore s2 then None else map_option t_model (map_of (rev entries) tid))" for tid
    using restore_models [OF assms(7), of ok' tid] unfolding assms(8) [symmetric] chat_model_def s1(1,3)
    by (cases "map_of (rev entries) tid") simp_all
  ultimately show ?thesis using r s1 by simp
qed

text \<open>The life that opened a thread, and the bot that comes up after it.\<close>

definition opened_bot :: bot where
  "opened_bot = bot_run (\<lambda>s. Some 0) thread_opens offered_bot"

definition next_bot :: bot where
  "next_bot = (case boot (\<lambda>s. Some 0) 0 True (reg_disk (b_registry opened_bot)) (s_disk (b_store opened_bot)) (b_ids opened_bot) of
     Inr s \<Rightarrow> s | Inl e \<Rightarrow> offered_bot)"

theorem restart_keeps_threads_witness:
  "b_lore (restore_reply (FThread True) True next_bot) = {100} \<and> b_lore opened_bot = {100}"
proof -
  have life: "bot_life (\<lambda>s. Some 0) offered_bot thread_opens opened_bot"
    unfolding opened_bot_def by (rule offered_life) code_simp
  have th: "map fst (s_threads (b_store opened_bot)) = [100] \<and> s_pending (b_store opened_bot) = []
      \<and> map (\<lambda>(k, se). (last_active_at se, seen_keys se)) (s_threads (b_store opened_bot)) = [(JStr ''t'', {})]" by code_simp
  then have sv: "\<forall>k se. (k, se) \<in> set (s_threads (b_store opened_bot) @ s_pending (b_store opened_bot)) \<longrightarrow> saveable se"
    by (auto simp: saveable_def)
  have b: "boot (\<lambda>s. Some 0) 0 True (reg_disk (b_registry opened_bot)) (s_disk (b_store opened_bot)) (b_ids opened_bot) = Inr next_bot"
    "length [True] = length (b_restore next_bot)" "b_lore opened_bot = {100}"
    "reg_disk (b_registry opened_bot) = Some (Some (reg_data (b_registry opened_bot)))"
    "s_disk (b_store opened_bot) = Sessions (dump_store (b_store opened_bot))" by code_simp+
  have g: "get_all (b_registry opened_bot) = Inr (b_restore next_bot)" by code_simp
  note r = restart_keeps_threads [OF life b(4) g b(5) sv b(1,2) refl, of True]
  have "b_lore (restore_reply (FThread True) True next_bot) = {100}" by code_simp
  with r b(3) show ?thesis by simp
qed

text \<open>
  A thread that a sweep is about to retire still takes questions. The sweep looks at the lock once,
  tells the thread, and retires it without looking again: the question asked meanwhile is
  answered, its session is back in the store, and nobody answers in the thread any more.
\<close>

theorem sweep_strands_turn:
  "let s = bot_run (\<lambda>t. Some (if t = ''late'' then 700000 else 0))
         [SweepStart 700000, MessageIn 1 100 ''who?'', Go 0 700000 ''late'', Go 0 700000 ''late'', Go 0 700000 ''late''] opened_bot;
       s' = bot_run (\<lambda>t. Some (if t = ''late'' then 700000 else 0))
         [SweepNotified True True, RoundsOver 0 quiet, Answered 0 quiet ''late'' True, PostedAnswer 0 96000] s
   in b_lore s = {100} \<and> mid_answer 100 s \<and> b_lore s' = {} \<and> chat_model 100 s' = None \<and> \<not> is_lore 100 (b_registry s')
      \<and> map_option (\<lambda>se. (turns se, last_active_at se)) (get_session 100 (b_store s')) = Some (1, JStr ''late'')"
  by code_simp

text \<open>
  After a long pause the sweep and the check of the registry run at the same time. A thread that the
  sweep retires before its entry is checked is routed again, now to plain chat.
\<close>

theorem retired_thread_revives:
  "let s = bot_run (\<lambda>t. Some 0) [SweepStart 700000, SweepNotified True True] next_bot;
       s' = bot_run (\<lambda>t. Some 0) [RestoreReply (FThread True) True] s
   in chat_model 100 s = None \<and> get_session 100 (b_store s) = None \<and> reg_data (b_registry s) = []
      \<and> chat_model 100 s' = Some AGENT_MODEL \<and> b_lore s' = {}"
  by code_simp

end
