(* ===== verification/Lora_Dataset.thy ===== *)
theory Lora_Dataset
  imports Prelude
begin

text \<open>
  \<open>lora-training/build_dataset.py\<close>: from the archive to one member's training examples. The regular
  expressions are written with combinators that give, for a text, what can be left after a match, in
  the order a backtracking matcher tries them.

  A record is what the history service writes: ids, names and time stamps are strings. Parameters:
  \<open>ts\<close> is \<open>parse_ts\<close> in seconds and \<open>stamp\<close> is \<open>isoformat\<close> of such a time. Reading the files, the
  command line and the system prompt's template are not modelled.
\<close>

section \<open>Regular expressions\<close>

type_synonym rx = "string \<Rightarrow> string list"

definition cls :: "(char \<Rightarrow> bool) \<Rightarrow> rx" where
  "cls P s = (case s of [] \<Rightarrow> [] | c # r \<Rightarrow> if P c then [r] else [])"

definition lit :: "string \<Rightarrow> rx" where
  "lit w s = (if prefix w s then [drop (length w) s] else [])"

definition lit_nocase :: "string \<Rightarrow> rx" where
  "lit_nocase w s = (if prefix_nocase w s then [drop (length w) s] else [])"

definition seqr :: "rx \<Rightarrow> rx \<Rightarrow> rx" where
  "seqr a b s = concat (map b (a s))"

definition alts :: "rx list \<Rightarrow> rx" where
  "alts rs s = concat (map (\<lambda>r. r s) rs)"

definition opt :: "rx \<Rightarrow> rx" where
  "opt a s = a s @ [s]"

text \<open>A class repeated at least \<open>lo\<close> and at most \<open>hi\<close> times, as often as possible first.\<close>

definition many :: "nat \<Rightarrow> nat option \<Rightarrow> (char \<Rightarrow> bool) \<Rightarrow> rx" where
  "many lo hi P s =
     (let n = length (takeWhile P s); h = (case hi of None \<Rightarrow> n | Some h \<Rightarrow> min h n)
      in map (\<lambda>k. drop k s) (rev [lo..<Suc h]))"

definition not_ahead :: "(char \<Rightarrow> bool) \<Rightarrow> rx" where
  "not_ahead P s = (if s \<noteq> [] \<and> P (hd s) then [] else [s])"

fun chain :: "rx list \<Rightarrow> rx" where
  "chain [] s = [s]"
| "chain (r # rs) s = seqr r (chain rs) s"

text \<open>\<open>re.sub\<close>: a matcher also sees the character before the position.\<close>

type_synonym matcher = "char option \<Rightarrow> rx"

definition anywhere :: "rx \<Rightarrow> matcher" where
  "anywhere r prev s = r s"

function sub :: "matcher \<Rightarrow> (string \<Rightarrow> string) \<Rightarrow> char option \<Rightarrow> string \<Rightarrow> string" where
  "sub m f prev [] = []"
| "sub m f prev (c # cs) =
     (case m prev (c # cs) of
        [] \<Rightarrow> c # sub m f (Some c) cs
      | r # rs \<Rightarrow>
          if length r < length (c # cs)
          then (let w = take (length (c # cs) - length r) (c # cs) in f w @ sub m f (Some (last w)) r)
          else c # sub m f (Some c) cs)"
  by pat_completeness auto
termination by (relation "measure (\<lambda>(m, f, prev, s). length s)") auto

definition substitute :: "matcher \<Rightarrow> (string \<Rightarrow> string) \<Rightarrow> string \<Rightarrow> string" where
  "substitute m f s = sub m f None s"

section \<open>The patterns\<close>

definition nonspace :: "char \<Rightarrow> bool" where "nonspace c \<longleftrightarrow> \<not> py_space c"

definition http :: rx where
  "http = chain [lit ''http'', opt (lit ''s''), lit ''://'']"

definition URL_RE :: rx where
  "URL_RE = chain [http, many 1 None nonspace]"

definition DISCORD_FILE_RE :: rx where
  "DISCORD_FILE_RE = chain [http, alts [lit ''cdn.discordapp.com'', lit ''media.discordapp.net''], lit ''/'', many 1 None nonspace]"

definition DISCORD_LINK_RE :: rx where
  "DISCORD_LINK_RE = chain [http, opt (chain [many 1 None word_char, lit ''.'']), lit ''discord'', opt (lit ''app''),
     lit ''.com/channels/'', many 1 None nonspace]"

definition domain_char :: "char \<Rightarrow> bool" where
  "domain_char c \<longleftrightarrow> nonspace c \<and> c \<notin> set ''/?#:''"

definition URL_DOMAIN_RE :: rx where
  "URL_DOMAIN_RE = chain [http, opt (lit ''www.''), many 1 None domain_char, many 0 None nonspace]"

text \<open>Group 1 of a match: what is before the rest once scheme and \<open>www.\<close> are off.\<close>

definition url_domain :: "string \<Rightarrow> string" where
  "url_domain w =
     (let rest = hd (http w);
          body = (if prefix ''www.'' rest \<and> takeWhile domain_char (drop 4 rest) \<noteq> [] then drop 4 rest else rest)
      in takeWhile domain_char body)"

definition LINK_MARKER_RE :: rx where
  "LINK_MARKER_RE = chain [lit ''['', alts [lit ''attachment'', lit ''message link'',
     chain [lit ''link: '', many 1 None (\<lambda>c. nonspace c \<and> c \<noteq> CHR '']'')]], lit '']'']"

definition LONG_NUMBER_RE :: rx where
  "LONG_NUMBER_RE = many 15 None is_digit"

definition LONG_NUMBER :: string where "LONG_NUMBER = ''[long number]''"

definition USER_MENTION_RE :: rx where
  "USER_MENTION_RE = chain [lit ''<@'', opt (lit ''!''), many 1 None is_digit, lit ''>'']"

definition CHANNEL_MENTION_RE :: rx where
  "CHANNEL_MENTION_RE = chain [lit ''<#'', many 1 None is_digit, lit ''>'']"

definition ROLE_MENTION_RE :: rx where
  "ROLE_MENTION_RE = chain [lit ''<@&'', many 1 None is_digit, lit ''>'']"

definition CUSTOM_EMOJI_RE :: rx where
  "CUSTOM_EMOJI_RE = chain [lit ''<'', opt (lit ''a''), lit '':'', many 1 None word_char, lit '':'', many 1 None is_digit, lit ''>'']"

definition emoji_name :: "string \<Rightarrow> string" where
  "emoji_name w = takeWhile (\<lambda>c. c \<noteq> CHR '':'') (tl (dropWhile (\<lambda>c. c \<noteq> CHR '':'') w))"

definition EMAIL_RE :: rx where
  "EMAIL_RE = chain [many 1 None (\<lambda>c. word_char c \<or> c \<in> set ''.+-''), lit ''@'',
     many 1 None (\<lambda>c. word_char c \<or> c = CHR ''-''), lit ''.'', many 1 None (\<lambda>c. word_char c \<or> c \<in> set ''.-'')]"

definition phone_gap :: rx where
  "phone_gap = cls (\<lambda>c. py_space c \<or> c \<in> set ''.-'')"

definition PHONE_RE :: matcher where
  "PHONE_RE prev s =
     (if (case prev of None \<Rightarrow> False | Some p \<Rightarrow> is_digit p) then []
      else chain [opt (chain [opt (lit ''+''), many 1 (Some 2) is_digit, phone_gap]), opt (lit ''(''),
             many 3 (Some 3) is_digit, opt (lit '')''), phone_gap, many 3 (Some 3) is_digit, phone_gap,
             many 4 (Some 4) is_digit, not_ahead is_digit] s)"

definition upper :: "char \<Rightarrow> bool" where "upper c \<longleftrightarrow> c \<in> set ''ABCDEFGHIJKLMNOPQRSTUVWXYZ''"
definition lower :: "char \<Rightarrow> bool" where "lower c \<longleftrightarrow> c \<in> set ''abcdefghijklmnopqrstuvwxyz''"

definition capital_word :: rx where
  "capital_word = chain [cls upper, many 1 None lower, many 1 None py_space]"

definition ADDRESS_RE :: matcher where
  "ADDRESS_RE prev s =
     (if (case prev of None \<Rightarrow> False | Some p \<Rightarrow> word_char p) then []
      else chain [many 1 (Some 5) is_digit, many 1 None py_space,
             alts [chain [capital_word, capital_word, capital_word], chain [capital_word, capital_word], capital_word],
             alts (map lit [''St'', ''Street'', ''Ave'', ''Avenue'', ''Rd'', ''Road'', ''Blvd'', ''Boulevard'', ''Ln'', ''Lane'',
               ''Dr'', ''Drive'', ''Ct'', ''Court'', ''Way'', ''Pl'', ''Place'', ''Cres'', ''Crescent'']),
             not_ahead word_char, opt (lit ''.'')] s)"

definition COMMAND_RE :: rx where
  "COMMAND_RE = alts
     [chain [alts [cls (\<lambda>c. c \<in> set ''/!''), lit '';;'', chain [cls (\<lambda>c. lower_char c \<in> set ''mtp''), lit ''!'']], cls word_char],
      chain [lit ''-'', opt (lit ''-''),
        alts (map lit_nocase [''p'', ''play'', ''skip'', ''s'', ''leave'', ''np'', ''queue'', ''q'', ''remove'', ''rewind'', ''loop'',
          ''vol'', ''volume'', ''shuffle'', ''fs'', ''ps'']), not_ahead word_char]]"

definition matches :: "rx \<Rightarrow> string \<Rightarrow> bool" where
  "matches r s \<longleftrightarrow> r s \<noteq> []"

section \<open>Normalisation\<close>

definition scrub_pii :: "string \<Rightarrow> string" where
  "scrub_pii s =
     substitute ADDRESS_RE (\<lambda>w. ''[address]'')
       (substitute PHONE_RE (\<lambda>w. ''[phone]'') (substitute (anywhere EMAIL_RE) (\<lambda>w. ''[email]'') s))"

definition replace_links :: "string \<Rightarrow> string" where
  "replace_links s =
     substitute (anywhere URL_DOMAIN_RE) (\<lambda>w. ''[link: '' @ map lower_char (url_domain w) @ '']'')
       (substitute (anywhere DISCORD_LINK_RE) (\<lambda>w. ''[message link]'')
         (substitute (anywhere DISCORD_FILE_RE) (\<lambda>w. ''[attachment]'') s))"

definition normalise :: "(string \<times> string) list \<Rightarrow> (string \<times> string) list \<Rightarrow> string \<Rightarrow> string" where
  "normalise usernames channels s =
     (let s1 = replace_links s;
          s2 = substitute (anywhere USER_MENTION_RE) (\<lambda>w. CHR ''@'' # dget usernames (filter is_digit w) ''someone'') s1;
          s3 = substitute (anywhere CHANNEL_MENTION_RE) (\<lambda>w. CHR ''#'' # dget channels (filter is_digit w) ''channel'') s2;
          s4 = substitute (anywhere ROLE_MENTION_RE) (\<lambda>w. ''@role'') s3;
          s5 = substitute (anywhere CUSTOM_EMOJI_RE) (\<lambda>w. CHR '':'' # emoji_name w @ '':'') s4;
          s6 = substitute (anywhere LONG_NUMBER_RE) (\<lambda>w. LONG_NUMBER) s5
      in strip (scrub_pii s6))"

definition without_urls :: "string \<Rightarrow> string" where
  "without_urls s = strip (substitute (anywhere LINK_MARKER_RE) (\<lambda>w. []) (substitute (anywhere URL_RE) (\<lambda>w. []) s))"

section \<open>Records and mentions\<close>

record mention =
  n_display :: string
  n_user :: string
  n_name :: string          \<comment> \<open>empty when absent\<close>

record archived =
  a_id :: string
  a_user :: string
  a_name :: string          \<comment> \<open>empty when absent\<close>
  a_channel :: string
  a_channel_name :: string
  a_stamp :: string
  a_content :: string
  a_bot :: bool
  a_type :: "string option"
  a_attached :: bool
  a_mentions :: "mention list"

definition MENTION_MIN_COUNT :: nat where "MENTION_MIN_COUNT = 3"

definition mention_shape :: "string \<Rightarrow> bool" where
  "mention_shape t \<longleftrightarrow> starts_with t ''@'' \<and> count_list t (CHR ''@'') = 1 \<and> length t > 1
     \<and> \<not> py_space (t ! 1) \<and> nlc \<notin> set t"

text \<open>The distinct texts in the order they first occur, with how often they do.\<close>

definition mention_candidates :: "archived list \<Rightarrow> string list" where
  "mention_candidates rs =
     (let ts = map (\<lambda>r. strip (a_content r)) rs
      in sort_key length (filter (\<lambda>t. count_list ts t \<ge> MENTION_MIN_COUNT \<and> mention_shape t) (rev (remdups (rev ts)))))"

fun keep_shortest :: "string list \<Rightarrow> string list \<Rightarrow> string list" where
  "keep_shortest [] tokens = tokens"
| "keep_shortest (t # ts) tokens =
     keep_shortest ts (if list_ex (\<lambda>p. starts_with t p) tokens then tokens else tokens @ [t])"

definition mention_tokens :: "archived list \<Rightarrow> string list" where
  "mention_tokens rs = rev (keep_shortest (mention_candidates rs) [])"

text \<open>\<open>text.replace(old, new)\<close>, \<open>old\<close> not empty.\<close>

definition replace_all :: "string \<Rightarrow> string \<Rightarrow> string \<Rightarrow> string" where
  "replace_all old new s = join new (split_on old s)"

definition without_mentions :: "string \<Rightarrow> string list \<Rightarrow> string" where
  "without_mentions s tokens = strip (fold (\<lambda>t u. replace_all t [] u) tokens s)"

definition resolve_mentions :: "archived \<Rightarrow> string" where
  "resolve_mentions r =
     fold (\<lambda>n u. replace_all (CHR ''@'' # n_display n) (''<@'' @ n_user n @ ''>'') u)
       (sort_key (\<lambda>n. - int (length (n_display n))) (a_mentions r)) (a_content r)"

section \<open>Timelines\<close>

record options =
  user_ids :: "string list"
  context_n :: nat
  gap_minutes :: real
  merge_seconds :: real
  min_chars :: nat
  exclude_channels :: "string list"
  aliases :: "(string \<times> string) list"

definition default_options :: "string list \<Rightarrow> options" where
  "default_options ids =
     \<lparr>user_ids = ids, context_n = 12, gap_minutes = 30, merge_seconds = 120, min_chars = 8,
      exclude_channels = [], aliases = []\<rparr>"

definition CONVERSATION_TYPES :: "string option list" where
  "CONVERSATION_TYPES = [None, Some ''Default'', Some ''Reply'', Some ''0'', Some ''19'']"

text \<open>Why a record is left out, in the order the code asks.\<close>

definition drop_reason :: "options \<Rightarrow> archived \<Rightarrow> string option" where
  "drop_reason opts r =
     (let content = strip (a_content r) in
      if a_bot r then Some ''dropped_bot_message''
      else if a_channel r \<in> set (exclude_channels opts) \<or> a_channel_name r \<in> set (exclude_channels opts)
      then Some ''dropped_excluded_channel''
      else if matches COMMAND_RE content then Some ''dropped_command''
      else if a_type r \<notin> set CONVERSATION_TYPES then Some ''dropped_system_message''
      else if content = [] \<and> \<not> a_attached r then Some ''dropped_empty''
      else None)"

definition bump :: "string \<Rightarrow> (string \<times> nat) list \<Rightarrow> (string \<times> nat) list" where
  "bump k stats = dset k (dget stats k 0 + 1) stats"

fun group_channels ::
  "options \<Rightarrow> archived list \<Rightarrow> (string \<times> archived list) list \<Rightarrow> (string \<times> nat) list \<Rightarrow>
     (string \<times> archived list) list \<times> (string \<times> nat) list" where
  "group_channels opts [] by stats = (by, stats)"
| "group_channels opts (r # rs) by stats =
     (case drop_reason opts r of
        Some why \<Rightarrow> group_channels opts rs by (bump why stats)
      | None \<Rightarrow> group_channels opts rs (dset (a_channel r) (dget by (a_channel r) [] @ [r]) by) stats)"

definition channel_timelines ::
  "options \<Rightarrow> archived list \<Rightarrow> (string \<times> nat) list \<Rightarrow> archived list list \<times> (string \<times> nat) list" where
  "channel_timelines opts rs stats =
     (let (by, stats') = group_channels opts rs [] stats
      in (map (\<lambda>(c, ms). sort_key (\<lambda>r. (a_stamp r, a_id r)) ms) by, stats'))"

section \<open>Turns\<close>

record turn =
  t_user :: string
  t_name :: string
  t_start :: real
  t_end :: real
  t_texts :: "string list"
  t_attachment_only :: bool

definition turn_text :: "turn \<Rightarrow> string" where
  "turn_text t = join [nlc] (filter (\<lambda>x. x \<noteq> []) (t_texts t))"

definition same_turn :: "(string \<Rightarrow> real) \<Rightarrow> real \<Rightarrow> turn \<Rightarrow> archived \<Rightarrow> bool" where
  "same_turn ts merge t r \<longleftrightarrow> t_user t = a_user r \<and> ts (a_stamp r) - t_end t \<le> merge"

definition extend_turns ::
  "(string \<Rightarrow> real) \<Rightarrow> (archived \<Rightarrow> string) \<Rightarrow> (string \<Rightarrow> string) \<Rightarrow> real \<Rightarrow> turn list \<Rightarrow> archived \<Rightarrow> turn list" where
  "extend_turns ts clean name merge turns r =
     (let text = clean r; att = (text = [] \<and> a_attached r) in
      if turns \<noteq> [] \<and> same_turn ts merge (last turns) r
      then butlast turns @ [(last turns)\<lparr>t_texts := t_texts (last turns) @ [text], t_end := ts (a_stamp r),
             t_attachment_only := (t_attachment_only (last turns) \<and> att)\<rparr>]
      else turns @ [\<lparr>t_user = a_user r, t_name = name (a_user r), t_start = ts (a_stamp r), t_end = ts (a_stamp r),
             t_texts = [text], t_attachment_only = att\<rparr>])"

definition turns_of ::
  "(string \<Rightarrow> real) \<Rightarrow> (archived \<Rightarrow> string) \<Rightarrow> (string \<Rightarrow> string) \<Rightarrow> real \<Rightarrow> archived list \<Rightarrow> turn list" where
  "turns_of ts clean name merge ms = foldl (extend_turns ts clean name merge) [] ms"

definition context_line :: "turn \<Rightarrow> string" where
  "context_line t =
     ''['' @ t_name t @ '']: '' @ (if turn_text t = [] then ''[attachment]'' else turn_text t)"

section \<open>Examples\<close>

record example =
  e_context :: "turn list"
  e_reply :: string
  e_start :: real

definition user_line :: "example \<Rightarrow> string" where
  "user_line e = join [nlc] (map context_line (e_context e))"

text \<open>The turns before, newest first, as long as no silence is longer than the gap.\<close>

fun take_context :: "real \<Rightarrow> real \<Rightarrow> turn list \<Rightarrow> turn list" where
  "take_context gap start [] = []"
| "take_context gap start (p # ps) =
     (if start - t_end p > gap then [] else p # take_context gap (t_start p) ps)"

definition context_of :: "options \<Rightarrow> turn list \<Rightarrow> nat \<Rightarrow> turn list" where
  "context_of opts turns i =
     rev (take_context (gap_minutes opts * 60) (t_start (turns ! i)) (take (context_n opts) (rev (take i turns))))"

text \<open>What becomes of a turn: not a target, dropped for a reason, or an example.\<close>

datatype verdict = Other | Dropped string | Made example

definition judge :: "options \<Rightarrow> string list \<Rightarrow> turn list \<Rightarrow> nat \<Rightarrow> verdict" where
  "judge opts mentions turns i =
     (let t = turns ! i; reply = turn_text t; context = context_of opts turns i in
      if t_user t \<notin> set (user_ids opts) then Other
      else if t_attachment_only t then Dropped ''dropped_attachment_only''
      else if without_urls reply = [] then Dropped ''dropped_link_only''
      else if length (without_urls reply) < min_chars opts then Dropped ''dropped_too_short''
      else if length (without_urls (without_mentions reply mentions)) < min_chars opts then Dropped ''dropped_mention_only''
      else if sublist LONG_NUMBER reply then Dropped ''dropped_long_number''
      else if context = [] then Dropped ''dropped_no_context''
      else Made \<lparr>e_context = context, e_reply = reply, e_start = t_start t\<rparr>)"

fun count_verdict :: "verdict \<Rightarrow> (string \<times> nat) list \<Rightarrow> (string \<times> nat) list" where
  "count_verdict Other stats = stats"
| "count_verdict (Dropped why) stats = bump why (bump ''target_turns'' stats)"
| "count_verdict (Made e) stats = bump ''examples'' (bump ''target_turns'' stats)"

definition verdicts :: "options \<Rightarrow> string list \<Rightarrow> turn list list \<Rightarrow> verdict list" where
  "verdicts opts mentions tss = concat (map (\<lambda>turns. map (judge opts mentions turns) [0..<length turns]) tss)"

fun made :: "verdict list \<Rightarrow> example list" where
  "made [] = []"
| "made (Made e # vs) = e # made vs"
| "made (v # vs) = made vs"

text \<open>\<open>dict.update\<close> from a list of pairs.\<close>

definition update_all :: "(string \<times> string) list \<Rightarrow> (string \<times> string) list \<Rightarrow> (string \<times> string) list" where
  "update_all kvs d = fold (\<lambda>(k, v). dset k v) kvs d"

definition names_of :: "options \<Rightarrow> archived list \<Rightarrow> (string \<times> string) list" where
  "names_of opts rs =
     update_all (aliases opts)
       (update_all (map (\<lambda>r. (a_user r, if a_name r = [] then a_user r else a_name r)) rs)
         (update_all (concat (map (\<lambda>r. map (\<lambda>n. (n_user n, n_name n)) (filter (\<lambda>n. n_name n \<noteq> []) (a_mentions r))) rs)) []))"

definition channels_of :: "archived list \<Rightarrow> (string \<times> string) list" where
  "channels_of rs =
     update_all (map (\<lambda>r. (a_channel r, if a_channel_name r = [] then a_channel r else a_channel_name r)) rs) []"

text \<open>The code sorts a set; here ties between names of one length keep the order they came in.\<close>

definition mention_names :: "(string \<times> string) list \<Rightarrow> archived list \<Rightarrow> string list" where
  "mention_names names rs =
     sort_key (\<lambda>t. - int (length t))
       (remdups (map (\<lambda>(k, u). CHR ''@'' # u) names @ [''@here'', ''@everyone'', ''@role''] @ mention_tokens rs))"

definition shown_name :: "(string \<times> string) list \<Rightarrow> string \<Rightarrow> string" where
  "shown_name names u = (let n = dget names u [] in if n = [] then u else n)"

definition all_turns :: "(string \<Rightarrow> real) \<Rightarrow> options \<Rightarrow> archived list \<Rightarrow> turn list list" where
  "all_turns ts opts rs =
     (let names = names_of opts rs; channels = channels_of rs
      in map (turns_of ts (\<lambda>r. normalise names channels (resolve_mentions r)) (shown_name names) (merge_seconds opts))
           (fst (channel_timelines opts rs [])))"

definition build_examples ::
  "(string \<Rightarrow> real) \<Rightarrow> (real \<Rightarrow> string) \<Rightarrow> options \<Rightarrow> archived list \<Rightarrow> example list \<times> (string \<times> nat) list" where
  "build_examples ts stamp opts rs =
     (let mentions = mention_names (names_of opts rs) rs;
          vs = verdicts opts mentions (all_turns ts opts rs)
      in (sort_key (\<lambda>e. stamp (e_start e)) (made vs),
          fold count_verdict vs (snd (channel_timelines opts rs []))))"

section \<open>Training and evaluation\<close>

definition split_by_time :: "example list \<Rightarrow> real \<Rightarrow> example list \<times> example list" where
  "split_by_time es part =
     (if es = [] \<or> part \<le> 0 then (es, [])
      else let n = max 1 (nat \<lfloor>real (length es) * part\<rfloor>) in (slice_to (- int n) es, slice_from (- int n) es))"

section \<open>No id survives\<close>

text \<open>No run of fifteen digits, \<open>k\<close> digits standing right before.\<close>

fun short_runs :: "nat \<Rightarrow> string \<Rightarrow> bool" where
  "short_runs k [] \<longleftrightarrow> k < 15"
| "short_runs k (c # cs) \<longleftrightarrow> k < 15 \<and> short_runs (if is_digit c then k + 1 else 0) cs"

lemma short_runs_bound: "short_runs k s \<Longrightarrow> k < 15"
  by (cases s) auto

lemma short_runs_le: "short_runs k s \<Longrightarrow> j \<le> k \<Longrightarrow> short_runs j s"
  by (induction k s arbitrary: j rule: short_runs.induct) auto

lemma short_runs_drop: "short_runs k s \<Longrightarrow> short_runs 0 (drop n s)"
proof (induction n arbitrary: k s)
  case 0
  then show ?case by (auto intro: short_runs_le)
next
  case (Suc n)
  then show ?case by (cases s) (auto intro: Suc.IH)
qed

lemma short_runs_take: "short_runs k s \<Longrightarrow> short_runs k (take n s)"
  by (induction k s arbitrary: n rule: short_runs.induct) (auto simp: take_Cons split: nat.split dest: short_runs_bound)

lemma short_runs_append: "short_runs k xs \<Longrightarrow> xs \<noteq> [] \<Longrightarrow> \<not> is_digit (last xs) \<Longrightarrow> short_runs 0 ys \<Longrightarrow> short_runs k (xs @ ys)"
proof (induction k xs rule: short_runs.induct)
  case (2 k c cs)
  then show ?case by (cases cs) auto
qed simp

text \<open>A text none of whose digit runs is long holds no fifteen digits in a row.\<close>

lemma short_runs_no_run:
  assumes "short_runs k s" "sublist w s" "list_all is_digit w"
  shows "length w < 15"
proof -
  obtain xs ys where s: "s = xs @ w @ ys" using assms(2) by (auto simp: sublist_def)
  have "short_runs 0 (take (length w) (drop (length xs) s))"
    using assms(1) short_runs_drop short_runs_take by blast
  then have "short_runs 0 w" by (simp add: s)
  moreover have "short_runs j w \<Longrightarrow> list_all is_digit w \<Longrightarrow> j + length w < 15" for j
    by (induction j w rule: short_runs.induct) auto
  ultimately show ?thesis using assms(3) by fastforce
qed

text \<open>Replacing matches by a marker without digits makes no run longer, whatever is matched.\<close>

definition marker :: "string \<Rightarrow> bool" where
  "marker w \<longleftrightarrow> w \<noteq> [] \<and> list_all (\<lambda>c. \<not> is_digit c) w"

lemma marker_runs: "marker w \<Longrightarrow> k < 15 \<Longrightarrow> short_runs k w"
proof -
  have "list_all (\<lambda>c. \<not> is_digit c) w \<Longrightarrow> k < 15 \<Longrightarrow> short_runs k w" for k
    by (induction w arbitrary: k) auto
  then show "marker w \<Longrightarrow> k < 15 \<Longrightarrow> short_runs k w" by (simp add: marker_def)
qed

lemma rx_suffix_drop: "length r < length s \<Longrightarrow> suffix r s \<Longrightarrow> r = drop (length s - length r) s"
  by (auto simp: suffix_def)

text \<open>A matcher leaves a suffix of what it was given.\<close>

definition proper :: "matcher \<Rightarrow> bool" where
  "proper m \<longleftrightarrow> (\<forall>prev s r. r \<in> set (m prev s) \<longrightarrow> suffix r s)"

lemma sub_runs:
  assumes "proper m" "marker w" "short_runs k s"
  shows "short_runs k (sub m (\<lambda>v. w) prev s)"
  using assms(3)
proof (induction "length s" arbitrary: k prev s rule: less_induct)
  case less
  show ?case
  proof (cases s)
    case (Cons c cs)
    have step: "short_runs k (c # sub m (\<lambda>v. w) (Some c) cs)"
      using less.hyps [of cs] less.prems Cons by auto
    show ?thesis
    proof (cases "m prev s")
      case Nil
      then show ?thesis using step Cons by simp
    next
      case m: (Cons r rs)
      show ?thesis
      proof (cases "length r < length s")
        case True
        have "suffix r s" using assms(1) m unfolding proper_def by (metis list.set_intros(1))
        then have "r = drop (length s - length r) s" using rx_suffix_drop True by blast
        then have "short_runs 0 r" using short_runs_drop less.prems by metis
        then have "short_runs 0 (sub m (\<lambda>v. w) p r)" for p using less.hyps [OF True] by blast
        moreover have "short_runs k w" using assms(2) short_runs_bound [OF less.prems] by (rule marker_runs)
        moreover have "w \<noteq> []" "\<not> is_digit (last w)" using assms(2) by (auto simp: marker_def list_all_iff)
        ultimately show ?thesis using m Cons True by (simp add: Let_def short_runs_append)
      qed (use step m Cons in simp)
    qed
  qed (use less.prems in simp)
qed

lemma suffix_drop [simp]: "suffix (drop n s) s"
  by (metis append_take_drop_id suffixI)

lemma proper_cls: "proper (anywhere (cls P))"
  by (auto simp: proper_def anywhere_def cls_def suffix_Cons split: list.splits)

lemma proper_lit: "proper (anywhere (lit w))"
  by (auto simp: proper_def anywhere_def lit_def)

lemma proper_many: "proper (anywhere (many lo hi P))"
  by (auto simp: proper_def anywhere_def many_def Let_def)

lemma proper_opt: "proper (anywhere r) \<Longrightarrow> proper (anywhere (opt r))"
  by (auto simp: proper_def anywhere_def opt_def)

lemma proper_alts: "\<forall>r\<in>set rs. proper (anywhere r) \<Longrightarrow> proper (anywhere (alts rs))"
  by (auto simp: proper_def anywhere_def alts_def)

lemma proper_ahead: "proper (anywhere (not_ahead P))"
  by (auto simp: proper_def anywhere_def not_ahead_def)

lemma proper_chain: "\<forall>r\<in>set rs. proper (anywhere r) \<Longrightarrow> proper (anywhere (chain rs))"
proof (induction rs)
  case (Cons r rs)
  then have "suffix u s" if "v \<in> set (r s)" "u \<in> set (chain rs v)" for u v s
    using that suffix_order.order_trans unfolding proper_def anywhere_def by (metis list.set_intros)
  then show ?case by (auto simp: proper_def anywhere_def seqr_def)
qed (simp add: proper_def anywhere_def)

lemmas proper_rules = proper_cls proper_lit proper_many proper_opt proper_alts proper_ahead proper_chain

lemma proper_email: "proper (anywhere EMAIL_RE)"
  unfolding EMAIL_RE_def by (rule proper_chain) (auto intro: proper_rules)

lemma proper_phone: "proper PHONE_RE"
proof -
  have "proper (anywhere (chain [opt (chain [opt (lit ''+''), many 1 (Some 2) is_digit, phone_gap]), opt (lit ''(''),
             many 3 (Some 3) is_digit, opt (lit '')''), phone_gap, many 3 (Some 3) is_digit, phone_gap,
             many 4 (Some 4) is_digit, not_ahead is_digit]))"
    unfolding phone_gap_def by (rule proper_chain) (auto intro!: proper_rules)
  then show ?thesis by (auto simp: proper_def anywhere_def PHONE_RE_def simp del: chain.simps)
qed

lemma proper_address: "proper ADDRESS_RE"
proof -
  have w: "proper (anywhere capital_word)"
    unfolding capital_word_def by (rule proper_chain) (auto intro!: proper_rules)
  have "proper (anywhere (chain [many 1 (Some 5) is_digit, many 1 None py_space,
             alts [chain [capital_word, capital_word, capital_word], chain [capital_word, capital_word], capital_word],
             alts (map lit [''St'', ''Street'', ''Ave'', ''Avenue'', ''Rd'', ''Road'', ''Blvd'', ''Boulevard'', ''Ln'', ''Lane'',
               ''Dr'', ''Drive'', ''Ct'', ''Court'', ''Way'', ''Pl'', ''Place'', ''Cres'', ''Crescent'']),
             not_ahead word_char, opt (lit ''.'')]))"
    by (rule proper_chain) (auto intro!: proper_rules w)
  then show ?thesis by (auto simp: proper_def anywhere_def ADDRESS_RE_def simp del: chain.simps)
qed

lemma many_none: "length (takeWhile P s) < lo \<Longrightarrow> many lo None P s = []"
  by (simp add: many_def Let_def)

lemma many_some:
  "lo \<le> length (takeWhile P s) \<Longrightarrow> \<exists>rs. many lo None P s = dropWhile P s # rs"
proof -
  assume lo: "lo \<le> length (takeWhile P s)"
  then have "[lo..<Suc (length (takeWhile P s))] = [lo..<length (takeWhile P s)] @ [length (takeWhile P s)]" by simp
  then show ?thesis using lo by (simp add: many_def Let_def dropWhile_eq_drop)
qed

lemma long_numbers_gone:
  "k + length (takeWhile is_digit s) < 15 \<or> k = 0 \<Longrightarrow> k < 15 \<Longrightarrow>
     short_runs k (sub (anywhere LONG_NUMBER_RE) (\<lambda>w. LONG_NUMBER) prev s)"
proof (induction "length s" arbitrary: k prev s rule: less_induct)
  case less
  show ?case
  proof (cases s)
    case (Cons c cs)
    show ?thesis
    proof (cases "15 \<le> length (takeWhile is_digit s)")
      case True
      then have k: "k = 0" using less.prems by simp
      obtain rs where m: "anywhere LONG_NUMBER_RE prev s = dropWhile is_digit s # rs"
        using many_some [OF True] by (auto simp: anywhere_def LONG_NUMBER_RE_def)
      have c: "is_digit c" using True by (auto simp: Cons split: if_splits)
      then have len: "length (dropWhile is_digit s) < length s" by (simp add: Cons length_dropWhile_le le_imp_less_Suc)
      have r: "short_runs 0 (sub (anywhere LONG_NUMBER_RE) (\<lambda>w. LONG_NUMBER) p (dropWhile is_digit s))" for p
        using less.hyps [OF len] by simp
      have "short_runs 0 LONG_NUMBER" "LONG_NUMBER \<noteq> []" "\<not> is_digit (last LONG_NUMBER)" by code_simp+
      then show ?thesis using m len r by (simp add: Cons k Let_def short_runs_append)
    next
      case False
      then have m: "anywhere LONG_NUMBER_RE prev s = []"
        by (simp add: anywhere_def LONG_NUMBER_RE_def many_none)
      have "short_runs (if is_digit c then k + 1 else 0) (sub (anywhere LONG_NUMBER_RE) (\<lambda>w. LONG_NUMBER) (Some c) cs)"
        using less.hyps [of cs] less.prems False by (auto simp: Cons)
      then show ?thesis using m less.prems by (simp add: Cons)
    qed
  qed (use less.prems in simp)
qed

lemma strip_runs: "short_runs 0 s \<Longrightarrow> short_runs 0 (strip s)"
proof -
  assume s: "short_runs 0 s"
  have "lstrip s = drop (length (takeWhile py_space s)) s" by (simp add: lstrip_def dropWhile_eq_drop)
  then have l: "short_runs 0 (lstrip s)" using s short_runs_drop by metis
  have "prefix (rstrip u) u" for u
    unfolding rstrip_def by (metis rev_rev_ident suffix_dropWhile suffix_to_prefix)
  then have "strip s = take (length (strip s)) (lstrip s)"
    unfolding strip_def by (metis append_eq_conv_conj prefix_def)
  then show ?thesis using short_runs_take [OF l] by metis
qed

lemma normalise_runs: "short_runs 0 (normalise names channels s)"
proof -
  have m: "marker ''[address]''" "marker ''[phone]''" "marker ''[email]''" by code_simp+
  have "short_runs 0 (scrub_pii (substitute (anywhere LONG_NUMBER_RE) (\<lambda>w. LONG_NUMBER) u))" for u
    unfolding scrub_pii_def substitute_def
    by (intro sub_runs proper_email proper_phone proper_address m long_numbers_gone) simp_all
  then show ?thesis unfolding normalise_def Let_def by (rule strip_runs)
qed

section \<open>Turns are the messages\<close>

text \<open>What holds between a channel's messages and its turns.\<close>

definition turn_ok ::
  "(string \<Rightarrow> real) \<Rightarrow> (archived \<Rightarrow> string) \<Rightarrow> (string \<Rightarrow> string) \<Rightarrow> real \<Rightarrow> archived list \<Rightarrow> turn \<Rightarrow> bool" where
  "turn_ok ts clean name merge ms t \<longleftrightarrow> ms \<noteq> [] \<and> list_all (\<lambda>r. a_user r = t_user t) ms \<and> t_texts t = map clean ms
     \<and> t_name t = name (t_user t) \<and> (t_attachment_only t \<longleftrightarrow> list_all (\<lambda>r. clean r = [] \<and> a_attached r) ms)
     \<and> t_start t = ts (a_stamp (hd ms)) \<and> t_end t = ts (a_stamp (last ms))
     \<and> successively (\<lambda>a b. ts (a_stamp b) - ts (a_stamp a) \<le> merge) ms"

definition turn_break :: "(string \<Rightarrow> real) \<Rightarrow> real \<Rightarrow> archived list \<Rightarrow> archived list \<Rightarrow> bool" where
  "turn_break ts merge us vs \<longleftrightarrow>
     a_user (last us) \<noteq> a_user (hd vs) \<or> ts (a_stamp (hd vs)) - ts (a_stamp (last us)) > merge"

lemma turns_step:
  assumes "list_all2 (turn_ok ts clean name merge) mss turns" "successively (turn_break ts merge) mss"
  shows "\<exists>mss'. list_all2 (turn_ok ts clean name merge) mss' (extend_turns ts clean name merge turns r)
    \<and> successively (turn_break ts merge) mss' \<and> concat mss' = concat mss @ [r]"
proof (cases "turns \<noteq> [] \<and> same_turn ts merge (last turns) r")
  case True
  then obtain us t where t: "turns = us @ [t]" by (cases turns rule: rev_cases) auto
  then obtain mss0 ms where ms: "mss = mss0 @ [ms]" "list_all2 (turn_ok ts clean name merge) mss0 us" "turn_ok ts clean name merge ms t"
    using assms(1) by (auto simp: list_all2_append2 list_all2_Cons2)
  have same: "t_user t = a_user r" "ts (a_stamp r) - t_end t \<le> merge" using True by (simp_all add: t same_turn_def)
  let ?t = "t\<lparr>t_texts := t_texts t @ [clean r], t_end := ts (a_stamp r),
      t_attachment_only := (t_attachment_only t \<and> clean r = [] \<and> a_attached r)\<rparr>"
  have "turn_ok ts clean name merge (ms @ [r]) ?t"
    using ms(3) same by (auto simp: turn_ok_def successively_append_iff)
  moreover have "successively (turn_break ts merge) (mss0 @ [ms @ [r]])"
    using assms(2) ms(1,3) by (cases mss0 rule: rev_cases) (auto simp: successively_append_iff turn_break_def turn_ok_def)
  moreover have "extend_turns ts clean name merge turns r = us @ [?t]"
    using True by (simp add: extend_turns_def Let_def t)
  ultimately show ?thesis using ms by (intro exI [of _ "mss0 @ [ms @ [r]]"]) (auto simp: list_all2_appendI)
next
  case False
  let ?t = "\<lparr>t_user = a_user r, t_name = name (a_user r), t_start = ts (a_stamp r), t_end = ts (a_stamp r),
      t_texts = [clean r], t_attachment_only = (clean r = [] \<and> a_attached r)\<rparr>"
  have new: "extend_turns ts clean name merge turns r = turns @ [?t]" using False by (auto simp: extend_turns_def Let_def)
  have "turn_ok ts clean name merge [r] ?t" by (simp add: turn_ok_def)
  then have "list_all2 (turn_ok ts clean name merge) (mss @ [[r]]) (turns @ [?t])"
    using assms(1) by (simp add: list_all2_appendI)
  moreover have "successively (turn_break ts merge) (mss @ [[r]])"
  proof (cases mss rule: rev_cases)
    case (snoc mss0 ms)
    then obtain us t where t: "turns = us @ [t]" "turn_ok ts clean name merge ms t"
      using assms(1) by (auto simp: list_all2_append1 list_all2_Cons1)
    have "\<not> same_turn ts merge t r" using False t by simp
    then have "turn_break ts merge ms [r]"
      using t(2) by (auto simp: turn_break_def same_turn_def turn_ok_def list_all_iff)
    then show ?thesis using assms(2) snoc by (simp add: successively_append_iff)
  qed simp
  ultimately show ?thesis unfolding new by (intro exI [of _ "mss @ [[r]]"]) simp
qed

lemma turns_facts:
  "\<exists>mss. list_all2 (turn_ok ts clean name merge) mss (turns_of ts clean name merge ms)
     \<and> successively (turn_break ts merge) mss \<and> concat mss = ms"
proof (induction ms rule: rev_induct)
  case (snoc r ms)
  then obtain mss where "list_all2 (turn_ok ts clean name merge) mss (turns_of ts clean name merge ms)"
      "successively (turn_break ts merge) mss" "concat mss = ms" by blast
  from turns_step [OF this(1,2), of r] this(3) show ?case by (simp add: turns_of_def)
qed (simp add: turns_of_def)

text \<open>
  C5: Turns are the messages, merged as far as they may be. A channel's messages fall into consecutive
  groups, one per turn: each turn is one person's and carries that person's name, has the text of every message
  of its group in order, lasts from the first to the last of them, is of attachments only when each of them is,
  and no silence in it is longer than the merge window; two turns next to each other have different authors or a longer silence between them.
\<close>

theorem turns_exact:
  "\<exists>mss. concat mss = ms \<and> list_all2 (turn_ok ts clean name merge) mss (turns_of ts clean name merge ms)
     \<and> successively (turn_break ts merge) mss"
  using turns_facts by blast

section \<open>Examples are replies in their context\<close>

lemma short_runs_join: "\<forall>x\<in>set xs. short_runs 0 x \<Longrightarrow> short_runs 0 (join [nlc] xs)"
proof (induction xs rule: induct_list012)
  case (3 x y xs)
  have "\<not> is_digit nlc" by (simp add: is_digit_def digit_val_def nlc_def)
  then have "short_runs k x \<Longrightarrow> short_runs k (x @ [nlc])" for k
    by (induction k x rule: short_runs.induct) auto
  then have "short_runs 0 ((x @ [nlc]) @ join [nlc] (y # xs))"
    using 3 \<open>\<not> is_digit nlc\<close> by (intro short_runs_append [of 0 "x @ [nlc]"]) simp_all
  then show ?case by simp
qed auto

lemma take_context_take:
  "\<exists>n \<le> length ps. take_context gap start ps = take n ps
     \<and> (\<forall>k<n. (if k = 0 then start else t_start (ps ! (k - 1))) - t_end (ps ! k) \<le> gap)"
proof (induction ps arbitrary: start)
  case (Cons p ps)
  show ?case
  proof (cases "start - t_end p > gap")
    case False
    obtain n where n: "n \<le> length ps" "take_context gap (t_start p) ps = take n ps"
        "\<forall>k<n. (if k = 0 then t_start p else t_start (ps ! (k - 1))) - t_end (ps ! k) \<le> gap"
      using Cons.IH by blast
    have "(if k = 0 then start else t_start ((p # ps) ! (k - 1))) - t_end ((p # ps) ! k) \<le> gap" if "k < Suc n" for k
    proof (cases k)
      case 0
      then show ?thesis using False by simp
    next
      case (Suc j)
      then have "(if j = 0 then t_start p else t_start (ps ! (j - 1))) - t_end (ps ! j) \<le> gap" using n(3) that by simp
      then show ?thesis using Suc by (cases j) simp_all
    qed
    then show ?thesis using n False by (intro exI [of _ "Suc n"]) simp
  qed (intro exI [of _ 0], simp)
qed simp

lemma context_slice:
  assumes "i < length turns"
  shows "\<exists>j \<le> i. i \<le> j + context_n opts \<and> context_of opts turns i = drop j (take i turns)
    \<and> (\<forall>k. j \<le> k \<longrightarrow> k < i \<longrightarrow> t_start (turns ! (k + 1)) - t_end (turns ! k) \<le> gap_minutes opts * 60)"
proof -
  let ?ps = "take (context_n opts) (rev (take i turns))"
  let ?gap = "gap_minutes opts * 60"
  obtain n where n: "n \<le> length ?ps" "take_context ?gap (t_start (turns ! i)) ?ps = take n ?ps"
      "\<forall>k<n. (if k = 0 then t_start (turns ! i) else t_start (?ps ! (k - 1))) - t_end (?ps ! k) \<le> ?gap"
    using take_context_take by blast
  have le: "n \<le> context_n opts" "n \<le> i" using n(1) assms by simp_all
  have at: "?ps ! k = turns ! (i - 1 - k)" if "k < n" for k
    using that le assms by (simp add: rev_nth)
  have c: "context_of opts turns i = drop (i - n) (take i turns)"
  proof -
    have "take n ?ps = take n (rev (take i turns))" using le by (simp add: min_absorb1)
    moreover have "rev (take n (rev xs)) = drop (length xs - n) xs" for xs :: "turn list" by (simp add: rev_take)
    ultimately have "context_of opts turns i = drop (length (take i turns) - n) (take i turns)"
      unfolding context_of_def n(2) by metis
    then show ?thesis using assms by simp
  qed
  have g: "t_start (turns ! (k + 1)) - t_end (turns ! k) \<le> ?gap" if k: "i - n \<le> k" "k < i" for k
  proof -
    let ?m = "i - 1 - k"
    have m: "?m < n" using k le by linarith
    have here: "?ps ! ?m = turns ! k" using at [OF m] k by simp
    show ?thesis
    proof (cases "?m = 0")
      case True
      then have "k + 1 = i" using k by simp
      then show ?thesis using spec [OF n(3), of ?m] m True here by simp
    next
      case False
      then have "?ps ! (?m - 1) = turns ! (k + 1)" using at [of "?m - 1"] m k by simp
      then show ?thesis using spec [OF n(3), of ?m] m False here by simp
    qed
  qed
  show ?thesis
  proof (intro exI conjI allI impI)
    show "i - n \<le> i" "i \<le> i - n + context_n opts" using le by simp_all
    show "context_of opts turns i = drop (i - n) (take i turns)" by (rule c)
    show "t_start (turns ! (k + 1)) - t_end (turns ! k) \<le> ?gap" if "i - n \<le> k" "k < i" for k by (rule g [OF that])
  qed
qed

lemma made_set: "e \<in> set (made vs) \<longleftrightarrow> Made e \<in> set vs"
  by (induction vs rule: made.induct) auto

lemma all_texts_clean:
  assumes "turns \<in> set (all_turns ts opts rs)" "t \<in> set turns"
  shows "short_runs 0 (turn_text t)"
proof -
  obtain ms where "turns = turns_of ts (\<lambda>r. normalise (names_of opts rs) (channels_of rs) (resolve_mentions r))
      (shown_name (names_of opts rs)) (merge_seconds opts) ms"
    using assms(1) by (auto simp: all_turns_def Let_def)
  with turns_facts obtain mss where
    "list_all2 (turn_ok ts (\<lambda>r. normalise (names_of opts rs) (channels_of rs) (resolve_mentions r)) (shown_name (names_of opts rs)) (merge_seconds opts)) mss turns"
    by blast
  then obtain m where "turn_ok ts (\<lambda>r. normalise (names_of opts rs) (channels_of rs) (resolve_mentions r)) (shown_name (names_of opts rs)) (merge_seconds opts) m t"
    using assms(2) by (auto simp: list_all2_conv_all_nth in_set_conv_nth)
  then have "\<forall>x\<in>set (t_texts t). short_runs 0 x" by (auto simp: turn_ok_def normalise_runs)
  then show ?thesis unfolding turn_text_def by (intro short_runs_join) simp
qed

text \<open>
  C24: An example is a reply of the member after the conversation it replied to. Its reply is one whole
  turn of a target account; its context is the run of turns right before it in the same channel,
  not empty, within the limit, each no further from the next than the gap; the reply is as long as
  was asked for; and neither the reply nor the text of a turn of its context holds fifteen digits in a row. The
  names the turns of the context are labelled with are not bounded so (\<open>raw_id_labels\<close>).
\<close>

theorem examples_sound:
  assumes "e \<in> set (fst (build_examples ts stamp opts rs))"
  shows "\<exists>turns\<in>set (all_turns ts opts rs). \<exists>i j. j < i \<and> i < length turns \<and> i \<le> j + context_n opts
    \<and> e_context e = drop j (take i turns) \<and> e_reply e = turn_text (turns ! i) \<and> e_start e = t_start (turns ! i)
    \<and> t_user (turns ! i) \<in> set (user_ids opts) \<and> length (without_urls (e_reply e)) \<ge> min_chars opts
    \<and> (\<forall>k. j \<le> k \<longrightarrow> k < i \<longrightarrow> t_start (turns ! (k + 1)) - t_end (turns ! k) \<le> gap_minutes opts * 60)
    \<and> (\<forall>s\<in>set (e_reply e # map turn_text (e_context e)). \<forall>w. sublist w s \<longrightarrow> list_all is_digit w \<longrightarrow> length w < 15)"
proof -
  define mentions where "mentions = mention_names (names_of opts rs) rs"
  have "Made e \<in> set (verdicts opts mentions (all_turns ts opts rs))"
    using assms by (simp add: build_examples_def Let_def mentions_def made_set)
  then obtain turns i where t: "turns \<in> set (all_turns ts opts rs)" "i < length turns" "judge opts mentions turns i = Made e"
    by (auto simp: verdicts_def)
  have e: "e = \<lparr>e_context = context_of opts turns i, e_reply = turn_text (turns ! i), e_start = t_start (turns ! i)\<rparr>"
    "t_user (turns ! i) \<in> set (user_ids opts)" "context_of opts turns i \<noteq> []"
    "length (without_urls (turn_text (turns ! i))) \<ge> min_chars opts"
    using t(3) by (auto simp: judge_def Let_def split: if_splits)
  obtain j where j: "j \<le> i" "i \<le> j + context_n opts" "context_of opts turns i = drop j (take i turns)"
      "\<forall>k. j \<le> k \<longrightarrow> k < i \<longrightarrow> t_start (turns ! (k + 1)) - t_end (turns ! k) \<le> gap_minutes opts * 60"
    using context_slice [OF t(2)] by blast
  have ji: "j < i" using j(1,3) e(3) t(2) by (cases "j = i") simp_all
  have sub: "set (e_context e) \<subseteq> set turns" unfolding e(1) j(3) by (auto dest: in_set_dropD in_set_takeD)
  have mem: "turns ! i \<in> set turns" using t(2) by simp
  have clean: "\<forall>s\<in>set (e_reply e # map turn_text (e_context e)). short_runs 0 s"
    using all_texts_clean [OF t(1)] sub mem by (auto simp: e(1))
  show ?thesis
  proof (intro bexI [OF _ t(1)] exI conjI)
    show "\<forall>s\<in>set (e_reply e # map turn_text (e_context e)). \<forall>w. sublist w s \<longrightarrow> list_all is_digit w \<longrightarrow> length w < 15"
      using clean short_runs_no_run by blast
  qed (use ji t(2) j e in auto)
qed

text \<open>A small archive: one question and one reply, a command and a picture.\<close>

definition post_at :: "string \<Rightarrow> string \<Rightarrow> string \<Rightarrow> archived" where
  "post_at stamp user body =
     \<lparr>a_id = stamp, a_user = user, a_name = ''u'' @ user, a_channel = ''7'', a_channel_name = ''lore'', a_stamp = stamp,
      a_content = body, a_bot = False, a_type = None, a_attached = False, a_mentions = []\<rparr>"

definition small_archive :: "archived list" where
  "small_archive = [post_at ''10'' ''1'' ''see https://x.org/9'',
     post_at ''20'' ''2'' ''good idea'', post_at ''15'' ''1'' ''!play'']"

definition seconds :: "string \<Rightarrow> real" where
  "seconds s = (if s = ''10'' then 10 else if s = ''20'' then 20 else 500)"

theorem examples_sound_witness:
  "\<exists>e. e \<in> set (fst (build_examples seconds (\<lambda>t. []) (default_options [''2'']) small_archive))
     \<and> e_reply e = ''good idea'' \<and> map turn_text (e_context e) = [''see [link: x.org]'']
     \<and> length (without_urls (e_reply e)) \<ge> 8"
proof -
  let ?b = "fst (build_examples seconds (\<lambda>t. []) (default_options [''2'']) small_archive)"
  have "map (\<lambda>e. (e_reply e, map turn_text (e_context e))) ?b = [(''good idea'', [''see [link: x.org]''])]" by code_simp
  then obtain e where e: "?b = [e]" "e_reply e = ''good idea''" "map turn_text (e_context e) = [''see [link: x.org]'']"
    by auto
  then have mem: "e \<in> set ?b" by simp
  have "length (without_urls (e_reply e)) \<ge> min_chars (default_options [''2''])"
    using examples_sound [OF mem] by (elim bexE exE conjE)
  then have "length (without_urls (e_reply e)) \<ge> 8" by (simp add: default_options_def)
  then show ?thesis using mem e(2,3) by (intro exI [of _ e] conjI)
qed

text \<open>
  An author whose records carry no name is labelled with the raw user id: the context line of the example holds
  its eighteen digits, which the texts are cleaned of.
\<close>

definition unnamed_archive :: "archived list" where
  "unnamed_archive = [(post_at ''10'' ''123456789012345678'' ''an idea'')\<lparr>a_name := []\<rparr>, post_at ''20'' ''2'' ''good idea'']"

lemma raw_id_labels:
  "map user_line (fst (build_examples seconds (\<lambda>t. []) (default_options [''2'']) unnamed_archive))
     = [''[123456789012345678]: an idea'']"
  by code_simp

section \<open>Nothing is counted twice\<close>

definition record_reasons :: "string list" where
  "record_reasons = [''dropped_bot_message'', ''dropped_excluded_channel'', ''dropped_command'',
     ''dropped_system_message'', ''dropped_empty'']"

definition turn_reasons :: "string list" where
  "turn_reasons = [''dropped_attachment_only'', ''dropped_link_only'', ''dropped_too_short'', ''dropped_mention_only'',
     ''dropped_long_number'', ''dropped_no_context'']"

definition tally :: "string list \<Rightarrow> (string \<times> nat) list \<Rightarrow> nat" where
  "tally ks stats = sum_list (map (\<lambda>k. dget stats k 0) ks)"

lemma dget_bump: "dget (bump k stats) x 0 = dget stats x 0 + (if x = k then 1 else 0)"
  by (simp add: bump_def dget_def)

lemma tally_bump: "distinct ks \<Longrightarrow> tally ks (bump k stats) = tally ks stats + (if k \<in> set ks then 1 else 0)"
  by (induction ks) (auto simp: tally_def dget_bump)

lemma drop_reason_listed: "drop_reason opts r = Some why \<Longrightarrow> why \<in> set record_reasons"
  by (auto simp: drop_reason_def record_reasons_def Let_def split: if_splits)

lemma judge_listed: "judge opts mentions turns i = Dropped why \<Longrightarrow> why \<in> set turn_reasons"
  by (auto simp: judge_def turn_reasons_def Let_def split: if_splits)

lemma reasons_distinct: "distinct record_reasons" "distinct turn_reasons"
  "''examples'' \<notin> set turn_reasons" "''target_turns'' \<notin> set turn_reasons"
  "''examples'' \<notin> set record_reasons" "''target_turns'' \<notin> set record_reasons"
  "set record_reasons \<inter> set turn_reasons = {}"
  by (simp_all add: record_reasons_def turn_reasons_def)

lemma disjoint_reason: "k \<in> set record_reasons \<Longrightarrow> k \<notin> set turn_reasons"
  using reasons_distinct(7) by blast

lemma sum_lengths_dset:
  fixes r :: archived
  shows "sum_list (map (\<lambda>(c, ms). length ms) (dset k (dget by k [] @ [r]) by)) = sum_list (map (\<lambda>(c, ms). length ms) by) + 1"
proof -
  have "sum_list (map (\<lambda>(c, ms). length ms) (dset k v d)) + length (dget d k [])
      = sum_list (map (\<lambda>(c, ms). length ms) d) + length v" for v :: "archived list" and d
    by (induction k v d rule: dset.induct) (auto simp: dget_def)
  from this [of "dget by k [] @ [r]" "by"] show ?thesis by simp
qed

lemma group_channels_counts:
  assumes "group_channels opts rs groups stats = (groups', stats')"
  shows "sum_list (map (\<lambda>(c, ms). length ms) groups') + tally record_reasons stats'
      = length rs + sum_list (map (\<lambda>(c, ms). length ms) groups) + tally record_reasons stats
    \<and> tally turn_reasons stats' = tally turn_reasons stats \<and> dget stats' ''examples'' 0 = dget stats ''examples'' 0
    \<and> dget stats' ''target_turns'' 0 = dget stats ''target_turns'' 0"
  using assms
proof (induction rs arbitrary: groups stats)
  case (Cons r rs)
  show ?case
  proof (cases "drop_reason opts r")
    case None
    then show ?thesis using Cons.IH [of "dset (a_channel r) (dget groups (a_channel r) [] @ [r]) groups" stats] Cons.prems
      by (simp add: sum_lengths_dset)
  next
    case (Some why)
    have w: "why \<in> set record_reasons" by (rule drop_reason_listed [OF Some])
    then have "why \<noteq> ''examples''" "why \<noteq> ''target_turns''" using reasons_distinct(5,6) by auto
    then show ?thesis using Cons.IH [of groups "bump why stats"] Cons.prems Some w disjoint_reason [OF w]
      by (simp add: tally_bump [OF reasons_distinct(1)] tally_bump [OF reasons_distinct(2)] dget_bump)
  qed
qed simp

lemma count_verdicts:
  assumes "\<forall>v\<in>set vs. \<forall>why. v = Dropped why \<longrightarrow> why \<in> set turn_reasons"
  shows "dget (fold count_verdict vs stats) ''target_turns'' 0 + dget stats ''examples'' 0 + tally turn_reasons stats
      = dget stats ''target_turns'' 0 + dget (fold count_verdict vs stats) ''examples'' 0 + tally turn_reasons (fold count_verdict vs stats)
    \<and> dget (fold count_verdict vs stats) ''examples'' 0 = dget stats ''examples'' 0 + length (made vs)
    \<and> tally record_reasons (fold count_verdict vs stats) = tally record_reasons stats"
  using assms
proof (induction vs arbitrary: stats)
  case (Cons v vs)
  note t = tally_bump [OF reasons_distinct(1)] tally_bump [OF reasons_distinct(2)]
  show ?case
  proof (cases v)
    case Other
    then show ?thesis using Cons.IH [of stats] Cons.prems by simp
  next
    case (Dropped why)
    then have w: "why \<in> set turn_reasons" using Cons.prems by simp
    then have "why \<noteq> ''examples''" "why \<noteq> ''target_turns''" "why \<notin> set record_reasons"
      using reasons_distinct(3,4,7) by auto
    then show ?thesis using Cons.IH [of "bump why (bump ''target_turns'' stats)"] Cons.prems Dropped w reasons_distinct(3-6)
      by (simp add: t dget_bump)
  next
    case (Made e)
    then show ?thesis using Cons.IH [of "bump ''examples'' (bump ''target_turns'' stats)"] Cons.prems reasons_distinct(3-6)
      by (simp add: t dget_bump)
  qed
qed simp

text \<open>
  Every record and every turn is accounted for. The counts of a build say how many examples there
  are; the target turns are the examples and the turns dropped for one of six reasons; and the
  records of the archive are those in the timelines and those dropped for one of five.
\<close>

theorem counts_balance:
  assumes "build_examples ts stamp opts rs = (es, stats)"
  shows "dget stats ''examples'' 0 = length es
    \<and> dget stats ''target_turns'' 0 = length es + tally turn_reasons stats
    \<and> length rs = sum_list (map length (fst (channel_timelines opts rs []))) + tally record_reasons stats"
proof -
  define mentions where "mentions = mention_names (names_of opts rs) rs"
  define vs where "vs = verdicts opts mentions (all_turns ts opts rs)"
  obtain groups stats0 where g: "group_channels opts rs [] [] = (groups, stats0)" by force
  have tl: "fst (channel_timelines opts rs []) = map (\<lambda>(c, ms). sort_key (\<lambda>r. (a_stamp r, a_id r)) ms) groups"
    "snd (channel_timelines opts rs []) = stats0" by (simp_all add: channel_timelines_def g)
  have es: "es = sort_key (\<lambda>e. stamp (e_start e)) (made vs)" "stats = fold count_verdict vs stats0"
    using assms by (simp_all add: build_examples_def Let_def mentions_def vs_def tl(2))
  have zero: "tally ks [] = 0" for ks by (simp add: tally_def dget_def)
  note c = group_channels_counts [OF g]
  have "\<forall>v\<in>set vs. \<forall>why. v = Dropped why \<longrightarrow> why \<in> set turn_reasons"
    unfolding vs_def verdicts_def using judge_listed by fastforce
  note v = count_verdicts [OF this, of stats0]
  have "map length (fst (channel_timelines opts rs [])) = map (\<lambda>(c, ms). length ms) groups"
    unfolding tl(1) by (simp add: case_prod_unfold)
  then show ?thesis using c v es by (simp add: zero dget_def [of "[]"])
qed

theorem counts_balance_witness:
  "\<exists>es stats. build_examples seconds (\<lambda>t. []) (default_options [''2'']) [post_at ''15'' ''1'' ''!play''] = (es, stats)
     \<and> tally record_reasons stats = 1"
proof -
  obtain es stats where r: "build_examples seconds (\<lambda>t. []) (default_options [''2'']) [post_at ''15'' ''1'' ''!play''] = (es, stats)"
    by force
  have "sum_list (map length (fst (channel_timelines (default_options [''2'']) [post_at ''15'' ''1'' ''!play''] []))) = 0" by code_simp
  with counts_balance [OF r] r show ?thesis by simp
qed

section \<open>The newest are held out\<close>

text \<open>
  Evaluation is on the newest slice. Nothing is lost or doubled by the split, no training example
  is newer than one held out, and the held-out part is the asked share rounded down, but at least
  one example and at most all of them.
\<close>

theorem split_exact:
  assumes "sorted (map key es)" and "0 < part" and "es \<noteq> []" and "split_by_time es part = (train, held)"
  shows "train @ held = es \<and> (\<forall>a\<in>set train. \<forall>b\<in>set held. key a \<le> key b)
    \<and> length held = min (length es) (max 1 (nat \<lfloor>real (length es) * part\<rfloor>))"
proof -
  define n where "n = max 1 (nat \<lfloor>real (length es) * part\<rfloor>)"
  have th: "train = slice_to (- int n) es" "held = slice_from (- int n) es"
    using assms by (simp_all add: split_by_time_def n_def Let_def)
  then have app: "train @ held = es" by (simp add: slice_join)
  have "n > 0" by (simp add: n_def)
  then have "held = drop (length es - n) es" by (simp add: th slice_from_def)
  then have len: "length held = min (length es) n" by simp
  have "sorted (map key train @ map key held)" using assms(1) app by (metis map_append)
  then show ?thesis using app len by (auto simp: sorted_append n_def)
qed

theorem split_exact_witness:
  "\<exists>train held. split_by_time [\<lparr>e_context = [], e_reply = ''a'', e_start = 1\<rparr>] (5 / 100) = (train, held) \<and> train = []"
proof -
  let ?es = "[\<lparr>e_context = [], e_reply = ''a'', e_start = 1\<rparr>]"
  obtain train held where r: "split_by_time ?es (5 / 100) = (train, held)" by force
  have "sorted (map e_start ?es)" "(0::real) < 5 / 100" "?es \<noteq> []" by simp_all
  note s = split_exact [OF this r]
  then have "length held = 1" by simp
  then have "train = []" using s by (metis append_is_Nil_conv length_0_conv length_Cons length_append add_cancel_left_left list.size(3) One_nat_def)
  then show ?thesis using r by blast
qed

end
