(* ===== verification/Bot_Cogs.thy ===== *)
theory Bot_Cogs
  imports Lore_Cog Discord_Output Lora_Dataset
begin

text \<open>
  \<open>discord-bot/member_names.py\<close> and the handlers of \<open>cogs/mimic.py\<close> and \<open>cogs/chat.py\<close>: names and
  markup as the persona adapters were trained on, one-shot persona replies, messages in a chat
  thread. A streamed answer is its pieces and how it ended; posting does not fail. What is said of
  a refusal is reduced to its kind. Resolving a Discord id to a name is a parameter.
\<close>

section \<open>Names\<close>

text \<open>\<open>_read_json\<close> is \<open>None\<close> for a file that is missing, unreadable or not JSON.\<close>

definition alias_of :: "string \<Rightarrow> jobj \<Rightarrow> (string \<times> string) list result" where
  "alias_of uid d =
     bindE (text_or_empty (dget d ''alias'' JNull)) (\<lambda>t. Inr (if strip t = [] then [] else [(uid, strip t)]))"

definition load_aliases :: "json option \<Rightarrow> (string \<times> string) list result" where
  "load_aliases f =
     bindE (as_obj (case f of None \<Rightarrow> JObj [] | Some v \<Rightarrow> or_else v (JObj []))) (\<lambda>es.
     bindE (mapE (\<lambda>(uid, v). if starts_with uid ''_'' then Inr []
                            else case v of JObj d \<Rightarrow> alias_of uid d | _ \<Rightarrow> Inr []) es) (\<lambda>xs. Inr (concat xs)))"

text \<open>The same file as \<open>build_dataset.py\<close> reads it.\<close>

definition training_aliases :: "json \<Rightarrow> (string \<times> string) list result" where
  "training_aliases v =
     bindE (as_obj v) (\<lambda>es.
     bindE (mapE (\<lambda>(uid, v). if starts_with uid ''_'' then Inr [] else bindE (as_obj v) (alias_of uid)) es) (\<lambda>xs. Inr (concat xs)))"

definition member_name :: "string \<Rightarrow> string \<Rightarrow> (string \<times> string) list \<Rightarrow> string" where
  "member_name uid handle names = (let a = dget names uid [] in if a = [] then handle else a)"

definition persona_display_name :: "json option \<Rightarrow> json result" where
  "persona_display_name f =
     bindE (as_obj (case f of None \<Rightarrow> JObj [] | Some v \<Rightarrow> or_else v (JObj []))) (\<lambda>stats.
     bindE (as_obj (or_else (dget stats ''args'' JNull) (JObj []))) (\<lambda>args. Inr (dget args ''display_name'' JNull)))"

definition marked_up :: "(string \<Rightarrow> string) \<Rightarrow> (string \<Rightarrow> string) \<Rightarrow> string \<Rightarrow> string" where
  "marked_up name_for_id channel_name_for_id s =
     (let s1 = substitute (anywhere DISCORD_FILE_RE) (\<lambda>w. ''[attachment]'') s;
          s2 = substitute (anywhere DISCORD_LINK_RE) (\<lambda>w. ''[message link]'') s1;
          s3 = substitute (anywhere URL_DOMAIN_RE) (\<lambda>w. ''[link: '' @ map lower_char (url_domain w) @ '']'') s2;
          s4 = substitute (anywhere USER_MENTION_RE) (\<lambda>w. CHR ''@'' # name_for_id (filter is_digit w)) s3;
          s5 = substitute (anywhere CHANNEL_MENTION_RE) (\<lambda>w. CHR ''#'' # channel_name_for_id (filter is_digit w)) s4;
          s6 = substitute (anywhere ROLE_MENTION_RE) (\<lambda>w. ''@role'') s5;
          s7 = substitute (anywhere CUSTOM_EMOJI_RE) (\<lambda>w. CHR '':'' # emoji_name w @ '':'') s6
      in substitute (anywhere LONG_NUMBER_RE) (\<lambda>w. LONG_NUMBER) s7)"

definition normalise_message :: "(string \<Rightarrow> string) \<Rightarrow> (string \<Rightarrow> string) \<Rightarrow> string \<Rightarrow> string" where
  "normalise_message name_for_id channel_name_for_id s = strip (marked_up name_for_id channel_name_for_id s)"

section \<open>A streamed reply\<close>

datatype reply_end = Complete | BackendFails string | StreamRaises

text \<open>What is posted while the pieces come, and the whole response when the stream is complete.\<close>

definition stream_reply :: "string list \<Rightarrow> reply_end \<Rightarrow> (string list \<times> string option) option" where
  "stream_reply pieces e =
     (case e of
        Complete \<Rightarrow> map_option (\<lambda>(full, posts). (posts, Some full)) (stream_and_send pieces)
      | _ \<Rightarrow> map_option (\<lambda>(buf, sent). (sent, None)) (stream_tokens MAX_MESSAGE_LENGTH pieces ([], [])))"

datatype cog_reply =
    TooFast
  | UnknownPersona
  | QueueFull int
  | Streamed "string list"
  | ProxySays "string list" string      \<comment> \<open>what was posted by then, and the error\<close>
  | UnexpectedError "string list"

text \<open>The end of both handlers: the turn is remembered only if the whole stream came.\<close>

definition finish_reply ::
  "int \<Rightarrow> string \<Rightarrow> string \<Rightarrow> string list \<Rightarrow> reply_end \<Rightarrow> history \<Rightarrow> (cog_reply \<times> history) option" where
  "finish_reply c m labeled pieces e h =
     (case stream_reply pieces e of
        None \<Rightarrow> None
      | Some (posts, full) \<Rightarrow>
          Some (case (full, e) of
                  (Some t, _) \<Rightarrow> (Streamed posts, add_turn c m labeled t h)
                | (None, BackendFails why) \<Rightarrow> (ProxySays posts why, h)
                | _ \<Rightarrow> (UnexpectedError posts, h)))"

section \<open>/mimic\<close>

definition MIMIC_PERSONAS :: "string list" where
  "MIMIC_PERSONAS = map (\<lambda>n. ''mimic_user'' @ str_nat n) [1..<8]"

definition speaker :: "string \<Rightarrow> string \<Rightarrow> string" where
  "speaker name text = ''['' @ name @ '']: '' @ text"

definition mimic_request :: "string \<Rightarrow> (string \<times> string) list \<Rightarrow> string \<Rightarrow> (string \<times> string) list" where
  "mimic_request sysp past labeled = [(''system'', sysp)] @ past @ [(''user'', labeled)]"

text \<open>\<open>_name_for_id\<close>, \<open>_channel_name_for_id\<close>: what the bot's cache knows, a name or nothing.\<close>

definition name_for_id :: "(string \<Rightarrow> string option) \<Rightarrow> (string \<times> string) list \<Rightarrow> string \<Rightarrow> string" where
  "name_for_id get_user names uid =
     member_name uid (case get_user uid of None \<Rightarrow> ''someone'' | Some n \<Rightarrow> n) names"

definition channel_name_for_id :: "(string \<Rightarrow> string option) \<Rightarrow> string \<Rightarrow> string" where
  "channel_name_for_id get_channel cid =
     (case get_channel cid of None \<Rightarrow> ''channel'' | Some n \<Rightarrow> if n = [] then ''channel'' else n)"

definition mimic_label ::
  "(string \<Rightarrow> string option) \<Rightarrow> (string \<Rightarrow> string option) \<Rightarrow> json option \<Rightarrow> string \<Rightarrow> string \<Rightarrow> string \<Rightarrow> string result" where
  "mimic_label get_user get_channel names_file uid handle text =
     bindE (load_aliases names_file) (\<lambda>names.
       Inr (speaker (member_name uid handle names)
              (normalise_message (name_for_id get_user names) (channel_name_for_id get_channel) text)))"

text \<open>
  The command: limiter, persona, queue depth (\<open>None\<close>: the proxy could not be asked), then the stream
  that answers the request. The second result is the request, if one was made.
\<close>

definition mimic ::
  "real \<Rightarrow> int \<Rightarrow> int \<Rightarrow> string \<Rightarrow> string \<Rightarrow> string result \<Rightarrow> int option \<Rightarrow> (string list \<times> reply_end) \<Rightarrow> limiter \<times> history
     \<Rightarrow> (cog_reply \<times> (string \<times> string) list option \<times> limiter \<times> history) option" where
  "mimic now author channel persona sysp label depth answer st =
     (let (l, ok) = is_allowed now author (fst st); h = snd st in
      if \<not> ok then Some (TooFast, None, l, h)
      else if persona \<notin> set MIMIC_PERSONAS then Some (UnknownPersona, None, l, h)
      else if (case depth of None \<Rightarrow> False | Some d \<Rightarrow> d \<ge> MAX_QUEUE_DEPTH) then Some (QueueFull (the depth), None, l, h)
      else let (h1, past) = get_history channel persona h in
           case label of
             Inl e \<Rightarrow> Some (UnexpectedError [], None, l, h1)
           | Inr labeled \<Rightarrow>
               map_option (\<lambda>(r, h2). (r, Some (mimic_request sysp past labeled), l, h2))
                 (finish_reply channel persona labeled (fst answer) (snd answer) h1))"

section \<open>Chat threads\<close>

text \<open>\<open>ChatCog.on_message\<close>; \<open>None\<close>: the message is not this cog's.\<close>

definition chat_message ::
  "real \<Rightarrow> int \<Rightarrow> string \<Rightarrow> int \<Rightarrow> string \<Rightarrow> (string list \<times> reply_end) \<Rightarrow> bot \<Rightarrow> limiter \<times> history
     \<Rightarrow> (cog_reply \<times> (string \<times> string) list option \<times> limiter \<times> history) option" where
  "chat_message now author who tid text answer b st =
     (case chat_model tid b of
        None \<Rightarrow> None
      | Some model \<Rightarrow>
          let (l, ok) = is_allowed now author (fst st); h = snd st in
          if \<not> ok then Some (TooFast, None, l, h)
          else let (h1, past) = get_history tid model h in
               map_option (\<lambda>(r, h2). (r, Some (past @ [(''user'', speaker who text)]), l, h2))
                 (finish_reply tid model (speaker who text) (fst answer) (snd answer) h1))"

text \<open>
  \<open>/chat\<close>: the limiter, a channel that can have threads, then Discord. \<open>created\<close> is Discord's answer
  to the new thread; \<open>told\<close> the failure, if any, of what is posted once the thread is registered.
\<close>

datatype discord_error = Denied | HttpCode int

datatype chat_reply = Slow | NoThreads | NoPermission | CreationDisabled | CreationFailed | Started

definition chat_failure :: "discord_error \<Rightarrow> chat_reply" where
  "chat_failure e =
     (case e of Denied \<Rightarrow> NoPermission | HttpCode c \<Rightarrow> if c = 50035 then CreationDisabled else CreationFailed)"

definition chat_command ::
  "real \<Rightarrow> string \<Rightarrow> bool \<Rightarrow> int \<Rightarrow> bool \<Rightarrow> string \<Rightarrow> discord_error + int \<times> string \<Rightarrow> discord_error option \<Rightarrow> bot
     \<Rightarrow> chat_reply \<times> bot" where
  "chat_command now stamp_now saved author can_thread model created told b =
     (let (l, allowed) = is_allowed now author (b_limiter b); b1 = b\<lparr>b_limiter := l\<rparr> in
      if \<not> allowed then (Slow, b1)
      else if \<not> can_thread then (NoThreads, b1)
      else case created of
             Inl e \<Rightarrow> (chat_failure e, b1)
           | Inr (tid, name) \<Rightarrow>
               (case told of None \<Rightarrow> Started | Some e \<Rightarrow> chat_failure e, chat_opened tid model name stamp_now saved b1))"

text \<open>Both autocompletions: at most 25 choices, in order.\<close>

fun choices :: "('a \<Rightarrow> bool) \<Rightarrow> 'a list \<Rightarrow> 'a list \<Rightarrow> 'a list" where
  "choices wanted [] acc = acc"
| "choices wanted (x # xs) acc =
     (let acc1 = (if wanted x then acc @ [x] else acc) in if length acc1 \<ge> 25 then acc1 else choices wanted xs acc1)"

definition model_choices :: "string \<Rightarrow> string list \<Rightarrow> string list" where
  "model_choices current models = choices (\<lambda>m. sublist (map lower_char current) (map lower_char m)) (sort models) []"

text \<open>A persona is offered under the name its dataset was built with; \<open>label\<close> gives that.\<close>

definition persona_choices :: "string \<Rightarrow> (string \<Rightarrow> string) \<Rightarrow> (string \<times> string) list" where
  "persona_choices current label =
     (let wanted = (\<lambda>p. sublist (map lower_char current) (map lower_char (label p))
                     \<or> sublist (map lower_char current) (map lower_char p))
      in map (\<lambda>p. (label p, p)) (choices wanted (sort MIMIC_PERSONAS) []))"

section \<open>What is remembered\<close>

lemma choices_are_filter: "length acc < 25 \<Longrightarrow> choices wanted xs acc = take 25 (acc @ filter wanted xs)"
proof (induction xs arbitrary: acc)
  case (Cons x xs)
  then show ?case by (cases "wanted x"; cases "length acc = 24") (auto simp: take_Cons' Let_def)
qed simp

lemma model_choices_exact:
  "model_choices current models
     = take 25 (filter (\<lambda>m. sublist (map lower_char current) (map lower_char m)) (sort models))"
  by (simp add: model_choices_def choices_are_filter)

lemma stream_reply_total: "\<exists>posts full. stream_reply pieces e = Some (posts, full) \<and> (full = None \<longleftrightarrow> e \<noteq> Complete)
   \<and> (\<forall>t. full = Some t \<longrightarrow> t = concat pieces)"
  using stream_tokens_total [of "[]" "[]" pieces]
  by (cases e) (auto simp: stream_reply_def stream_and_send_def Let_def MAX_MESSAGE_LENGTH_def)

lemma finish_reply_keeps:
  "finish_reply c m labeled pieces e h
     = Some (r, h') \<Longrightarrow> h' = (if e = Complete then add_turn c m labeled (concat pieces) h else h)"
  using stream_reply_total [of pieces e]
  by (cases e) (auto simp: finish_reply_def split: option.splits)

lemma finish_reply_total: "\<exists>r h'. finish_reply c m labeled pieces e h = Some (r, h')"
  using stream_reply_total [of pieces e] by (auto simp: finish_reply_def)

text \<open>A reply that broke off is forgotten on both sides.\<close>

lemma broken_chat_reply_forgotten:
  assumes "chat_model tid b = Some model" and "snd answer \<noteq> Complete"
  shows "\<exists>r q l h'. chat_message now author who tid text answer b (l0, h) = Some (r, q, l, h')
     \<and> (h' = h \<or> h' = fst (get_history tid model h))"
proof -
  obtain r h' where f: "finish_reply tid model (speaker who text) (fst answer) (snd answer) (fst (get_history tid model h))
      = Some (r, h')"
    using finish_reply_total by blast
  with finish_reply_keeps [OF f] assms show ?thesis
    by (cases "is_allowed now author l0") (auto simp: chat_message_def Let_def get_history_def)
qed

text \<open>
  The answer of \<open>/chat\<close> and the thread: a thread is answered in exactly if Discord made it, also when the
  user is told that it could not be made, because the first message into it failed.
\<close>

lemma chat_command_routes:
  assumes "tid \<notin> b_lore b" and "chat_command now stamp_now saved author True model created told b = (r, b')"
    and "snd (is_allowed now author (b_limiter b))"
  shows "created = Inr (tid, name) \<Longrightarrow> chat_model tid b' = Some model \<and> (r = Started \<longleftrightarrow> told = None)"
    and "created = Inl e \<Longrightarrow> b_models b' = b_models b \<and> r \<noteq> Started"
  using assms
  by (auto simp: chat_command_def chat_model_def chat_opened_def chat_failure_def Let_def
      split: prod.splits option.splits discord_error.splits if_splits)

section \<open>Served as trained\<close>

lemma marked_up_as_built:
  assumes "\<And>i. nf i = dget usernames i ''someone''" and "\<And>i. cf i = dget channels i ''channel''"
  shows "normalise usernames channels s = strip (scrub_pii (marked_up nf cf s))"
  using assms by (simp add: normalise_def marked_up_def replace_links_def Let_def)

text \<open>
  A persona reads the form it was trained on. When names are resolved alike and the text has nothing
  the dataset scrubs, the line \<open>/mimic\<close> sends for a message is the line the dataset builder makes of a
  turn with that message.
\<close>

theorem served_as_trained:
  assumes "\<And>i. nf i = dget usernames i ''someone''" and "\<And>i. cf i = dget channels i ''channel''"
    and "scrub_pii (marked_up nf cf s) = marked_up nf cf s" and "normalise_message nf cf s \<noteq> []"
  shows "speaker who (normalise_message nf cf s)
    = context_line \<lparr>t_user = u, t_name = who, t_start = a, t_end = b, t_texts = [normalise usernames channels s],
                     t_attachment_only = c\<rparr>"
  using assms(3,4) marked_up_as_built [OF assms(1,2), of s]
  by (simp add: context_line_def turn_text_def speaker_def normalise_message_def)

theorem served_as_trained_witness:
  "speaker ''bob'' (normalise_message (\<lambda>i. dget [(''7'', ''Al'')] i ''someone'') (\<lambda>i. dget [] i ''channel'') ''<@7> see https://www.X.org/a '')
    = context_line \<lparr>t_user = ''1'', t_name = ''bob'', t_start = 0, t_end = 0,
        t_texts = [normalise [(''7'', ''Al'')] [] ''<@7> see https://www.X.org/a ''], t_attachment_only = False\<rparr>
   \<and> normalise [(''7'', ''Al'')] [] ''<@7> see https://www.X.org/a '' = ''@Al see [link: x.org]''"
proof (rule conjI, rule served_as_trained, rule refl, rule refl)
qed (code_simp+)

text \<open>The dataset's scrubbing of mail addresses, phone numbers and street addresses is not repeated.\<close>

lemma contacts_served_raw:
  "normalise [] [] ''mail a@b.co'' = ''mail [email]''
   \<and> normalise_message (\<lambda>i. ''someone'') (\<lambda>i. ''channel'') ''mail a@b.co'' = ''mail a@b.co''"
  by code_simp

text \<open>Where the dataset builder accepts the file of names, the bot reads the same names from it.\<close>

lemma mapE_as: "mapE f xs = Inr ys \<Longrightarrow> (\<And>x y. f x = Inr y \<Longrightarrow> g x = Inr y) \<Longrightarrow> mapE g xs = Inr ys"
  by (induction xs arbitrary: ys) (auto simp: bindE_eq_Inr)

lemma aliases_as_built:
  assumes "training_aliases v = Inr names" shows "load_aliases (Some v) = Inr names"
proof -
  obtain es xs where v: "v = JObj es" "names = concat xs"
    "mapE (\<lambda>(uid, v). if starts_with uid ''_'' then Inr [] else bindE (as_obj v) (alias_of uid)) es = Inr xs"
    using assms by (auto simp: training_aliases_def bindE_eq_Inr as_obj_def split: json.splits)
  have "mapE (\<lambda>(uid, v). if starts_with uid ''_'' then Inr []
      else case v of JObj d \<Rightarrow> alias_of uid d | _ \<Rightarrow> Inr []) es = Inr xs"
    by (rule mapE_as [OF v(3)]) (auto simp: as_obj_def split: json.splits if_splits)
  then show ?thesis
    using v by (cases es) (auto simp: load_aliases_def or_else_def as_obj_def)
qed

end
