(* ===== verification/Prompts.thy ===== *)
theory Prompts
  imports Bot_Cogs
begin

text \<open>
  \<open>discord-bot/prompt_loader.py\<close>, \<open>lore/prompts.py\<close>, the persona prompt of \<open>config.py\<close>, and what
  \<open>lora-training/build_dataset.py\<close> makes of the same template, down to the row of an example and its
  \<open>main\<close>. The files are functions that give their text; \<open>None\<close> is an unreadable file. A template's
  fields are plain names, as in all templates of the repository; any other field counts as malformed.
\<close>

section \<open>str.format\<close>

datatype piece = Lit string | Field string

definition field_name :: "string \<Rightarrow> bool" where
  "field_name n \<longleftrightarrow> n \<noteq> [] \<and> list_all word_char n \<and> \<not> is_digit (hd n)"

function pieces :: "string \<Rightarrow> piece list option" where
  "pieces [] = Some []"
| "pieces (c # cs) =
     (if c = CHR ''{'' then
        (if starts_with cs ''{'' then map_option (Cons (Lit ''{'')) (pieces (drop 1 cs))
         else case cut ''}'' cs of
                None \<Rightarrow> None
              | Some (n, r) \<Rightarrow> if field_name n then map_option (Cons (Field n)) (pieces r) else None)
      else if c = CHR ''}'' then
        (if starts_with cs ''}'' then map_option (Cons (Lit ''}'')) (pieces (drop 1 cs)) else None)
      else map_option (Cons (Lit [c])) (pieces cs))"
  by pat_completeness auto
termination
  by (relation "measure length") (auto dest: cut_shorter)

definition fill :: "(string \<times> string) list \<Rightarrow> piece \<Rightarrow> string result" where
  "fill vals p =
     (case p of Lit s \<Rightarrow> Inr s | Field n \<Rightarrow> (case map_of vals n of None \<Rightarrow> Inl (KeyError n) | Some v \<Rightarrow> Inr v))"

definition py_format :: "string \<Rightarrow> (string \<times> string) list \<Rightarrow> string result" where
  "py_format t vals =
     (case pieces t of None \<Rightarrow> Inl ValueError | Some ps \<Rightarrow> bindE (mapE (fill vals) ps) (\<lambda>xs. Inr (concat xs)))"

text \<open>\<open>rstrip("\n")\<close>.\<close>

definition rstrip_nl :: "string \<Rightarrow> string" where
  "rstrip_nl s = rev (dropWhile (\<lambda>c. c = nlc) (rev s))"

section \<open>Templates\<close>

datatype prompt_error = PromptError | FormatError py_error

record prompt_state =
  q_cache :: "(string \<times> string) list"
  q_context :: "string option"

record prompt_files =
  f_template :: "string \<Rightarrow> string option"
  f_context :: "string option"

type_synonym 'a prompt = "prompt_state \<Rightarrow> (prompt_error + 'a) \<times> prompt_state"

definition bindP :: "'a prompt \<Rightarrow> ('a \<Rightarrow> 'b prompt) \<Rightarrow> 'b prompt" where
  "bindP m k q = (case m q of (Inl e, q') \<Rightarrow> (Inl e, q') | (Inr x, q') \<Rightarrow> k x q')"

definition load_template :: "prompt_files \<Rightarrow> string \<Rightarrow> string prompt" where
  "load_template fs name q =
     (case map_of (q_cache q) name of
        Some t \<Rightarrow> (Inr t, q)
      | None \<Rightarrow>
          (case f_template fs name of
             None \<Rightarrow> (Inl PromptError, q)
           | Some raw \<Rightarrow> (Inr (rstrip_nl raw), q\<lparr>q_cache := dset name (rstrip_nl raw) (q_cache q)\<rparr>)))"

definition render_prompt :: "prompt_files \<Rightarrow> string \<Rightarrow> (string \<times> string) list \<Rightarrow> string prompt" where
  "render_prompt fs name vals =
     bindP (load_template fs name) (\<lambda>t q.
       (case py_format t vals of
          Inr s \<Rightarrow> (Inr s, q)
        | Inl (KeyError k) \<Rightarrow> (Inl PromptError, q)
        | Inl e \<Rightarrow> (Inl (FormatError e), q)))"

section \<open>The prompts of /lore\<close>

definition load_lore_context :: "prompt_files \<Rightarrow> string prompt" where
  "load_lore_context fs q =
     (case q_context q of
        Some c \<Rightarrow> (Inr c, q)
      | None \<Rightarrow> let c = (case f_context fs of None \<Rightarrow> [] | Some s \<Rightarrow> strip s) in (Inr c, q\<lparr>q_context := Some c\<rparr>))"

definition background_block :: "prompt_files \<Rightarrow> string prompt" where
  "background_block fs =
     bindP (load_lore_context fs) (\<lambda>c q.
       (Inr (if c = [] then [] else [nlc] @ ''GENERAL BACKGROUND KNOWLEDGE:'' @ [nlc] @ c @ [nlc]), q))"

text \<open>\<open>now or _now()\<close>: the second is the clock's.\<close>

definition build_system_prompt :: "prompt_files \<Rightarrow> string list \<Rightarrow> string \<Rightarrow> string prompt" where
  "build_system_prompt fs channels now =
     bindP (render_prompt fs ''lore_identity'' []) (\<lambda>identity.
     bindP (background_block fs) (\<lambda>background.
     bindP (render_prompt fs ''lore_answer_rules'' []) (\<lambda>rules.
       render_prompt fs ''lore_agent''
         [(''identity'', identity), (''now'', now),
          (''channels'', join [nlc] (map (\<lambda>ch. ''  - '' @ ch) (sort channels))),
          (''background'', background), (''answer_rules'', rules)])))"

definition build_lore_followup_prompt :: "prompt_files \<Rightarrow> string list \<Rightarrow> string \<Rightarrow> string prompt" where
  "build_lore_followup_prompt fs channels now =
     bindP (build_system_prompt fs channels now) (\<lambda>base.
     bindP (render_prompt fs ''lore_followup'' []) (\<lambda>followup q. (Inr (base @ [nlc, nlc] @ followup), q)))"

definition build_synthesis_prompt :: "prompt_files \<Rightarrow> string \<Rightarrow> string prompt" where
  "build_synthesis_prompt fs now =
     bindP (render_prompt fs ''lore_identity'' []) (\<lambda>identity.
     bindP (background_block fs) (\<lambda>background.
     bindP (render_prompt fs ''lore_answer_rules'' []) (\<lambda>rules.
       render_prompt fs ''lore_synthesis''
         [(''identity'', identity), (''now'', now), (''background'', background), (''answer_rules'', rules)])))"

definition build_compaction_messages :: "prompt_files \<Rightarrow> string \<Rightarrow> (string \<times> string) list prompt" where
  "build_compaction_messages fs excerpts =
     bindP (render_prompt fs ''lore_compaction_system'' []) (\<lambda>s.
     bindP (render_prompt fs ''lore_compaction_user'' [(''excerpts'', excerpts)]) (\<lambda>u q.
       (Inr [(''system'', s), (''user'', u)], q)))"

section \<open>The prompt of a persona\<close>

text \<open>
  \<open>name\<close> is what the persona's \<open>stats.json\<close> gives, \<open>label\<close> the entry of \<open>MIMIC_PERSONAS\<close>. A display name
  that is not a text is formatted by \<open>str\<close>.
\<close>

definition mimic_system_prompt :: "prompt_files \<Rightarrow> (json \<Rightarrow> string) \<Rightarrow> string \<Rightarrow> json \<Rightarrow> string option \<Rightarrow> string prompt" where
  "mimic_system_prompt fs rep persona name label =
     render_prompt fs ''mimic_persona''
       [(''persona'', persona),
        (''display_name'', if truthy name then py_str rep name else (case label of None \<Rightarrow> persona | Some l \<Rightarrow> l))]"

text \<open>The dataset builder's own rendering of the template.\<close>

definition render_system_prompt :: "string \<Rightarrow> string \<Rightarrow> string \<Rightarrow> string result" where
  "render_system_prompt template persona display_name =
     py_format (rstrip_nl template) [(''persona'', persona), (''display_name'', display_name)]"

section \<open>Building a dataset\<close>

record build_args =
  g_user_id :: string
  g_persona :: string
  g_display_name :: string
  g_no_system :: bool
  g_context_n :: nat
  g_gap_minutes :: real
  g_merge_seconds :: real
  g_min_chars :: nat
  g_eval_fraction :: real
  g_exclude_channels :: string

definition comma_list :: "string \<Rightarrow> string list" where
  "comma_list s = map strip (filter (\<lambda>x. strip x \<noteq> []) (split_on '','' s))"

definition options_of :: "build_args \<Rightarrow> (string \<times> string) list \<Rightarrow> options" where
  "options_of a names =
     \<lparr>user_ids = comma_list (g_user_id a), context_n = g_context_n a, gap_minutes = g_gap_minutes a,
      merge_seconds = g_merge_seconds a, min_chars = g_min_chars a,
      exclude_channels = comma_list (g_exclude_channels a), aliases = names\<rparr>"

text \<open>A row: prompt and completion as messages.\<close>

definition example_row :: "string option \<Rightarrow> example \<Rightarrow> (string \<times> string) list \<times> (string \<times> string) list" where
  "example_row sysp e =
     ((case sysp of None \<Rightarrow> [] | Some s \<Rightarrow> [(''system'', s)]) @ [(''user'', user_line e)],
      [(''assistant'', e_reply e)])"

type_synonym rows = "((string \<times> string) list \<times> (string \<times> string) list) list"

text \<open>What is written: the two splits and the statistics, here the arguments the bot reads back.\<close>

record dataset =
  d_train :: rows
  d_eval :: rows
  d_stats :: json

definition dataset_main ::
  "(string \<Rightarrow> real) \<Rightarrow> (real \<Rightarrow> string) \<Rightarrow> string option \<Rightarrow> json option \<Rightarrow> build_args \<Rightarrow> archived list \<Rightarrow> dataset option result" where
  "dataset_main ts stamp template names_file a records =
     bindE (case names_file of None \<Rightarrow> Inr [] | Some v \<Rightarrow> training_aliases v) (\<lambda>names.
     bindE (if g_no_system a then Inr None
            else case template of
                   None \<Rightarrow> Inl OSError
                 | Some t \<Rightarrow> bindE (render_system_prompt t (g_persona a) (g_display_name a)) (\<lambda>s. Inr (Some s))) (\<lambda>sysp.
       let es = fst (build_examples ts stamp (options_of a names) records) in
       if es = [] then Inr None
       else let (train, ev) = split_by_time es (g_eval_fraction a)
            in Inr (Some \<lparr>d_train = map (example_row sysp) train, d_eval = map (example_row sysp) ev,
                          d_stats = JObj [(''args'', JObj [(''persona'', JStr (g_persona a)),
                                                             (''display_name'', JStr (g_display_name a))])]\<rparr>)))"

section \<open>Values are not templates\<close>

lemma py_format_holds:
  assumes "py_format t vals = Inr s" and "pieces t = Some ps" and "Field n \<in> set ps" and "map_of vals n = Some v"
  shows "sublist v s"
proof -
  obtain xs where x: "mapE (fill vals) ps = Inr xs" "s = concat xs"
    using assms(1,2) by (auto simp: py_format_def bindE_eq_Inr)
  have "mapE (fill vals) qs = Inr ys \<Longrightarrow> Field n \<in> set qs \<Longrightarrow> v \<in> set ys" for qs ys
    by (induction qs arbitrary: ys) (auto simp: bindE_eq_Inr fill_def assms(4))
  then have "v \<in> set xs" using x(1) assms(3) by blast
  then obtain as bs where "xs = as @ v # bs" by (auto simp: in_set_conv_decomp)
  then have "s = concat as @ v @ concat bs" using x(2) by simp
  then show ?thesis by (auto simp: sublist_def)
qed

lemma bindP_Inr: "bindP m k q = (Inr y, q') \<longleftrightarrow> (\<exists>x q1. m q = (Inr x, q1) \<and> k x q1 = (Inr y, q'))"
  by (auto simp: bindP_def split: prod.splits sum.splits)

lemma fill_result:
  "(case r of Inr s \<Rightarrow> (Inr s, q) | Inl (KeyError k) \<Rightarrow> (Inl PromptError, q) | Inl e \<Rightarrow> (Inl (FormatError e), q)) = (Inr x, q')
     \<longleftrightarrow> r = Inr x \<and> q' = q"
  by (cases r) (auto split: py_error.splits)

lemma render_prompt_Inr:
  "render_prompt fs name vals q = (Inr s, q') \<longleftrightarrow> (\<exists>t. load_template fs name q = (Inr t, q') \<and> py_format t vals = Inr s)"
  unfolding render_prompt_def bindP_Inr fill_result by blast

text \<open>
  Whatever the server's background knowledge holds, braces included, it is in the system prompt word for
  word, and so is the list of channels: neither is read as a template.
\<close>

theorem background_verbatim:
  assumes "build_system_prompt fs channels now q = (Inr prompt, q')" and "q_context q = None" and "f_context fs = Some c"
    and "strip c \<noteq> []" and "load_template fs ''lore_agent'' q = (Inr t, q0)" and "pieces t = Some ps"
    and "{Field ''background'', Field ''channels''} \<subseteq> set ps"
  shows "sublist (strip c) prompt \<and> sublist (join [nlc] (map (\<lambda>ch. ''  - '' @ ch) (sort channels))) prompt"
proof -
  have stable: "load_template fs n p = (Inr x, p') \<Longrightarrow> load_template fs ''lore_agent'' p = (Inr t, p0)
      \<Longrightarrow> \<exists>p1. load_template fs ''lore_agent'' p' = (Inr t, p1)" for n x p p' p0
    by (auto simp: load_template_def split: option.splits if_splits)
  have ctx: "load_template fs n p = (r, p') \<Longrightarrow> q_context p' = q_context p" for n r p p'
    by (auto simp: load_template_def split: option.splits)
  obtain i q1 b q2 r q3 where steps: "render_prompt fs ''lore_identity'' [] q = (Inr i, q1)"
    "background_block fs q1 = (Inr b, q2)" "render_prompt fs ''lore_answer_rules'' [] q2 = (Inr r, q3)"
    "render_prompt fs ''lore_agent''
         [(''identity'', i), (''now'', now), (''channels'', join [nlc] (map (\<lambda>ch. ''  - '' @ ch) (sort channels))),
          (''background'', b), (''answer_rules'', r)] q3 = (Inr prompt, q')"
    using assms(1) by (auto simp: build_system_prompt_def bindP_Inr)
  have b: "b = [nlc] @ ''GENERAL BACKGROUND KNOWLEDGE:'' @ [nlc] @ strip c @ [nlc]" "q_cache q2 = q_cache q1"
    using steps(1,2) ctx assms(2-4)
    by (auto simp: background_block_def bindP_Inr load_lore_context_def render_prompt_Inr Let_def)
  have same_cache: "load_template fs ''lore_agent'' p = (Inr t, p0) \<Longrightarrow> q_cache p = q_cache p'
      \<Longrightarrow> \<exists>p1. load_template fs ''lore_agent'' p' = (Inr t, p1)" for p p' p0
    by (auto simp: load_template_def split: option.splits)
  obtain p1 where "load_template fs ''lore_agent'' q1 = (Inr t, p1)"
    using stable [OF _ assms(5)] steps(1) unfolding render_prompt_Inr by blast
  then obtain p2 where "load_template fs ''lore_agent'' q2 = (Inr t, p2)" using same_cache b(2) by metis
  then obtain p3 where "load_template fs ''lore_agent'' q3 = (Inr t, p3)"
    using stable steps(3) unfolding render_prompt_Inr by blast
  then have f: "py_format t [(''identity'', i), (''now'', now), (''channels'', join [nlc] (map (\<lambda>ch. ''  - '' @ ch) (sort channels))),
          (''background'', b), (''answer_rules'', r)] = Inr prompt"
    using steps(4) by (auto simp: render_prompt_Inr)
  have "sublist b prompt" "sublist (join [nlc] (map (\<lambda>ch. ''  - '' @ ch) (sort channels))) prompt"
    using py_format_holds [OF f assms(6)] assms(7) by auto
  moreover have "sublist (strip c) b" unfolding b(1) by (metis sublist_appendI append_assoc)
  ultimately show ?thesis using sublist_order.order_trans by blast
qed

definition small_files :: prompt_files where
  "small_files =
     \<lparr>f_template = (\<lambda>n. if n = ''lore_agent'' then Some (''{identity} {channels} {background}'' @ [nlc]) else Some ''x''),
      f_context = Some ''uses {braces} ''\<rparr>"

theorem background_verbatim_witness:
  "fst (build_system_prompt small_files [''b'', ''a''] ''now'' \<lparr>q_cache = [], q_context = None\<rparr>)
     = Inr (''x   - a'' @ [nlc] @ ''  - b '' @ [nlc] @ ''GENERAL BACKGROUND KNOWLEDGE:'' @ [nlc] @ ''uses {braces}'' @ [nlc])
   \<and> sublist ''uses {braces}'' (''x   - a'' @ [nlc] @ ''  - b '' @ [nlc] @ ''GENERAL BACKGROUND KNOWLEDGE:'' @ [nlc] @ ''uses {braces}'' @ [nlc])"
proof -
  let ?p = "''x   - a'' @ [nlc] @ ''  - b '' @ [nlc] @ ''GENERAL BACKGROUND KNOWLEDGE:'' @ [nlc] @ ''uses {braces}'' @ [nlc]"
  let ?t = "''{identity} {channels} {background}''"
  let ?q = "\<lparr>q_cache = [], q_context = None\<rparr>"
  have r: "fst (build_system_prompt small_files [''b'', ''a''] ''now'' ?q) = Inr ?p" by code_simp
  then obtain q' where b: "build_system_prompt small_files [''b'', ''a''] ''now'' ?q = (Inr ?p, q')" by (metis prod.collapse)
  have l: "load_template small_files ''lore_agent'' ?q = (Inr ?t, \<lparr>q_cache = [(''lore_agent'', ?t)], q_context = None\<rparr>)" by code_simp
  have ps: "pieces ?t = Some [Field ''identity'', Lit '' '', Field ''channels'', Lit '' '', Field ''background'']" by code_simp
  have c: "strip ''uses {braces} '' = ''uses {braces}''" by code_simp
  show ?thesis
    using r background_verbatim [OF b _ _ _ l ps, of "''uses {braces} ''"] by (simp add: small_files_def c)
qed

section \<open>Served as trained\<close>


definition bob_args :: build_args where
  "bob_args = \<lparr>g_user_id = ''2'', g_persona = ''p'', g_display_name = ''Bob'', g_no_system = False, g_context_n = 12,
     g_gap_minutes = 30, g_merge_seconds = 120, g_min_chars = 8, g_eval_fraction = 0, g_exclude_channels = []\<rparr>"

definition bob_dataset :: dataset where
  "bob_dataset = \<lparr>d_train = [([(''system'', ''You are Bob.''), (''user'', ''[u1]: see [link: x.org]'')], [(''assistant'', ''good idea'')])],
     d_eval = [], d_stats = JObj [(''args'', JObj [(''persona'', JStr ''p''), (''display_name'', JStr ''Bob'')])]\<rparr>"

definition bob_files :: prompt_files where
  "bob_files = \<lparr>f_template = (\<lambda>n. Some (''You are {display_name}.'' @ [nlc])), f_context = None\<rparr>"

lemma bob_built: "dataset_main seconds (\<lambda>t. []) (Some (''You are {display_name}.'' @ [nlc])) None bob_args small_archive = Inr (Some bob_dataset)"
  by code_simp


text \<open>
  A persona trained without the system prompt is served one all the same: what the bot reads back does not say
  how the dataset was built.
\<close>

lemma trained_without_served_with:
  "bindE (dataset_main seconds (\<lambda>t. []) None None (bob_args\<lparr>g_no_system := True\<rparr>) small_archive) (\<lambda>d.
     Inr (map_option (\<lambda>d. (map fst (d_train d), d_stats d)) d))
     = Inr (Some ([[(''user'', ''[u1]: see [link: x.org]'')]], d_stats bob_dataset))"
  by code_simp

end
