(* ===== verification/Model_Downloads.thy ===== *)
theory Model_Downloads
  imports Prelude
begin

text \<open>
  \<open>scripts/download_models.py\<close>: the list of files that is derived from \<open>models.ini\<close>, and the run over it.
  The sections of the file are given in order, each with its \<open>model\<close>; a path is a POSIX path. What is on
  disk already, and how each download ends, is given.
\<close>

section \<open>Paths\<close>

text \<open>The components of \<open>Path(p)\<close>, with whether it is absolute.\<close>

definition components :: "string \<Rightarrow> bool \<times> string list" where
  "components p = (starts_with p ''/'', filter (\<lambda>c. c \<noteq> [] \<and> c \<noteq> ''.'') (split_on ''/'' p))"

definition path_of :: "bool \<times> string list \<Rightarrow> string" where
  "path_of ac = (if fst ac then ''/'' @ join ''/'' (snd ac) else if snd ac = [] then ''.'' else join ''/'' (snd ac))"

text \<open>\<open>relative_to("/srv/models")\<close>.\<close>

definition relative_to_models :: "string \<Rightarrow> string list result" where
  "relative_to_models p =
     (case components p of
        (True, a # b # rest) \<Rightarrow> if a = ''srv'' \<and> b = ''models'' then Inr rest else Inl ValueError
      | _ \<Rightarrow> Inl ValueError)"

section \<open>What to download\<close>

record download =
  d_repo :: string
  d_file :: string
  d_dir :: string
  d_permanent :: bool

definition PERMANENT_MODELS :: "download list" where
  "PERMANENT_MODELS =
     [\<lparr>d_repo = ''unsloth/Qwen3.5-2B-GGUF'', d_file = ''Qwen3.5-2B-IQ4_NL.gguf'', d_dir = ''unsloth/Qwen3.5-2B-GGUF'', d_permanent = True\<rparr>,
      \<lparr>d_repo = ''ggml-org/Qwen2.5-Coder-1.5B-Q8_0-GGUF'', d_file = ''qwen2.5-coder-1.5b-q8_0.gguf'',
       d_dir = ''ggml-org/Qwen2.5-Coder-1.5B-Q8_0-GGUF'', d_permanent = True\<rparr>]"

definition HF_REPO_OVERRIDES :: "(string \<times> string) list" where
  "HF_REPO_OVERRIDES =
     [(''HauhauCS/Qwen3.5-35B-A3B-Uncensored'', ''HauhauCS/Qwen3.5-35B-A3B-Uncensored-HauhauCS-Aggressive'')]"

definition swappable_entry :: "string \<Rightarrow> download result" where
  "swappable_entry p =
     bindE (relative_to_models p) (\<lambda>rel.
       let dir = (if length rel \<le> 1 then ''.'' else join ''/'' (butlast rel))
       in Inr \<lparr>d_repo = dget HF_REPO_OVERRIDES dir dir, d_file = (if rel = [] then [] else last rel), d_dir = dir,
               d_permanent = False\<rparr>)"

fun swappable_from :: "(string \<times> string option) list \<Rightarrow> (string \<times> download) list \<Rightarrow> (string \<times> download) list result" where
  "swappable_from [] seen = Inr seen"
| "swappable_from ((section, model) # ss) seen =
     (case model of
        None \<Rightarrow> swappable_from ss seen
      | Some p \<Rightarrow>
          if p = [] \<or> p \<in> fst ` set seen then swappable_from ss seen
          else bindE (swappable_entry p) (\<lambda>e. swappable_from ss (dset p e seen)))"

definition load_swappable_models :: "(string \<times> string option) list \<Rightarrow> download list result" where
  "load_swappable_models sections = bindE (swappable_from sections []) (\<lambda>seen. Inr (map snd seen))"

text \<open>\<open>sizeof_fmt\<close>: the number shown, and its unit.\<close>

fun size_in :: "string list \<Rightarrow> real \<Rightarrow> real \<times> string" where
  "size_in [] n = (n, ''PB'')"
| "size_in (u # us) n = (if \<bar>n\<bar> < 1024 then (n, u) else size_in us (n / 1024))"

definition sizeof_fmt :: "real \<Rightarrow> real \<times> string" where
  "sizeof_fmt n = size_in [''B'', ''KB'', ''MB'', ''GB'', ''TB''] n"

section \<open>The run\<close>

datatype slot = SPermanent | SSwappable | SAll

definition in_slot :: "slot \<Rightarrow> download \<Rightarrow> bool" where
  "in_slot sl d = (case sl of SAll \<Rightarrow> True | SPermanent \<Rightarrow> d_permanent d | SSwappable \<Rightarrow> \<not> d_permanent d)"

definition target :: "string \<Rightarrow> download \<Rightarrow> string" where
  "target models_dir d = path_of (fst (components models_dir),
     snd (components models_dir) @ snd (components (d_dir d)) @ snd (components (d_file d)))"

text \<open>\<open>hub\<close>: whether the hub delivers the file. The files on disk after it, and success.\<close>

definition download_model :: "string \<Rightarrow> bool \<Rightarrow> (download \<Rightarrow> bool) \<Rightarrow> download \<Rightarrow> string set \<Rightarrow> string set \<times> bool" where
  "download_model models_dir dry hub d disk =
     (let t = target models_dir d in
      if t \<in> disk then (disk, True)
      else if dry then (disk, True)
      else if hub d then (insert t disk, True) else (disk, False))"

fun download_all :: "string \<Rightarrow> bool \<Rightarrow> (download \<Rightarrow> bool) \<Rightarrow> download list \<Rightarrow> string set \<Rightarrow> string set \<times> nat \<times> nat" where
  "download_all models_dir dry hub [] disk = (disk, 0, 0)"
| "download_all models_dir dry hub (d # ds) disk =
     (let (disk1, ok) = download_model models_dir dry hub d disk;
          (disk2, good, bad) = download_all models_dir dry hub ds disk1
      in (disk2, if ok then Suc good else good, if ok then bad else Suc bad))"

text \<open>The whole script: disk, successes, failures, exit code.\<close>

definition download_main ::
  "string \<Rightarrow> bool \<Rightarrow> slot \<Rightarrow> (download \<Rightarrow> bool) \<Rightarrow> (string \<times> string option) list \<Rightarrow> string set \<Rightarrow> (string set \<times> nat \<times> nat \<times> int) result" where
  "download_main models_dir dry sl hub sections disk =
     bindE (load_swappable_models sections) (\<lambda>ms.
       let (disk', good, bad) = download_all models_dir dry hub (filter (in_slot sl) (PERMANENT_MODELS @ ms)) disk
       in Inr (disk', good, bad, if bad > 0 then 1 else 0))"

section \<open>Every model of the configuration is there\<close>

lemma swappable_from_keys:
  "swappable_from ss seen = Inr out \<Longrightarrow>
   fst ` set out = fst ` set seen \<union> {p. \<exists>s. (s, Some p) \<in> set ss \<and> p \<noteq> []}
   \<and> (dict_ok seen \<longrightarrow> dict_ok out)
   \<and> ((\<forall>(p, e)\<in>set seen. swappable_entry p = Inr e) \<longrightarrow> (\<forall>(p, e)\<in>set out. swappable_entry p = Inr e))"
proof (induction ss arbitrary: seen)
  case (Cons x ss)
  obtain s m where x: "x = (s, m)" by force
  show ?case
  proof (cases m)
    case None
    then show ?thesis using Cons x by simp
  next
    case (Some p)
    show ?thesis
    proof (cases "p = [] \<or> p \<in> fst ` set seen")
      case True
      then show ?thesis using Cons.IH [of seen] Cons.prems x Some by auto
    next
      case False
      then obtain e where e: "swappable_entry p = Inr e" "swappable_from ss (dset p e seen) = Inr out"
        using Cons.prems x Some by (auto simp: bindE_eq_Inr)
      have "set (dset p e seen) = insert (p, e) (set seen)" using False by (simp add: dset_absent)
      then show ?thesis using Cons.IH [OF e(2)] e(1) False x Some by auto
    qed
  qed
qed simp

lemma download_all_disk:
  "download_all md dry hub ds disk = (disk', good, bad) \<Longrightarrow>
   disk \<subseteq> disk' \<and> good + bad = length ds \<and> (bad = 0 \<longrightarrow> \<not> dry \<longrightarrow> (\<forall>d\<in>set ds. target md d \<in> disk'))"
proof (induction ds arbitrary: disk disk' good bad)
  case (Cons d ds)
  obtain disk1 ok where one: "download_model md dry hub d disk = (disk1, ok)" by force
  obtain disk2 g b where rest: "download_all md dry hub ds disk1 = (disk2, g, b)" by (metis prod_cases3)
  have "disk \<subseteq> disk1" "ok \<Longrightarrow> \<not> dry \<Longrightarrow> target md d \<in> disk1"
    using one by (auto simp: download_model_def Let_def split: if_splits)
  moreover have "disk' = disk2" "good = (if ok then Suc g else g)" "bad = (if ok then b else Suc b)"
    using Cons.prems one rest by (auto simp: Let_def)
  ultimately show ?case using Cons.IH [OF rest] by (cases ok) auto
qed simp

text \<open>A path under \<open>/srv/models\<close> as it stands in the file, with neither empty components nor dots.\<close>

definition plain_path :: "string list \<Rightarrow> string \<Rightarrow> bool" where
  "plain_path cs p \<longleftrightarrow> p = ''/srv/models/'' @ join ''/'' cs \<and> cs \<noteq> [] \<and> (\<forall>c\<in>set cs. c \<noteq> [] \<and> c \<noteq> ''.'' \<and> CHR ''/'' \<notin> set c)"

lemma split_slash: "CHR ''/'' \<notin> set c \<Longrightarrow> split_on ''/'' (c @ ''/'' @ s) = c # split_on ''/'' s"
  by (subst split_on.simps) (simp add: cut_first [of "CHR ''/''" c "[]", simplified])

lemma split_last: "CHR ''/'' \<notin> set c \<Longrightarrow> split_on ''/'' c = [c]"
  by (subst split_on.simps) (simp add: cut_none)

lemma split_join: "cs \<noteq> [] \<Longrightarrow> \<forall>c\<in>set cs. CHR ''/'' \<notin> set c \<Longrightarrow> split_on ''/'' (join ''/'' cs) = cs"
proof (induction cs)
  case (Cons c cs)
  then show ?case by (cases cs) (simp_all add: split_last split_slash [simplified])
qed simp

lemma components_join:
  assumes "cs \<noteq> []" and "\<forall>c\<in>set cs. c \<noteq> [] \<and> c \<noteq> ''.'' \<and> CHR ''/'' \<notin> set c"
  shows "snd (components (join ''/'' cs)) = cs"
  using assms by (simp add: components_def split_join filter_id_conv)

lemma plain_components: "plain_path cs p \<Longrightarrow> components p = (True, ''srv'' # ''models'' # cs)"
proof -
  assume a: "plain_path cs p"
  then have p: "p = join ''/'' ([] # ''srv'' # ''models'' # cs)"
    by (cases cs) (auto simp: plain_path_def)
  have "split_on ''/'' p = [] # ''srv'' # ''models'' # cs"
    unfolding p by (rule split_join) (use a in \<open>auto simp: plain_path_def\<close>)
  moreover have "filter (\<lambda>c. c \<noteq> [] \<and> c \<noteq> ''.'') cs = cs" using a by (auto simp: plain_path_def filter_id_conv)
  moreover have "starts_with p ''/''" using a by (auto simp: plain_path_def starts_with_def)
  ultimately show ?thesis by (simp add: components_def)
qed

lemma target_is_path:
  assumes "plain_path cs p" shows "\<exists>e. swappable_entry p = Inr e \<and> target ''/srv/models'' e = p \<and> \<not> d_permanent e"
proof -
  have cs: "cs \<noteq> []" "\<forall>c\<in>set cs. c \<noteq> [] \<and> c \<noteq> ''.'' \<and> CHR ''/'' \<notin> set c" using assms by (auto simp: plain_path_def)
  let ?dir = "if length cs \<le> 1 then ''.'' else join ''/'' (butlast cs)"
  let ?e = "\<lparr>d_repo = dget HF_REPO_OVERRIDES ?dir ?dir, d_file = last cs, d_dir = ?dir, d_permanent = False\<rparr>"
  have e: "swappable_entry p = Inr ?e"
    using cs(1) by (simp add: swappable_entry_def relative_to_models_def plain_components [OF assms] Let_def)
  have dir: "snd (components ?dir) = butlast cs"
  proof (cases "length cs \<le> 1")
    case True
    then have "butlast cs = []" by (cases cs) auto
    moreover have "snd (components ''.'') = []" by code_simp
    ultimately show ?thesis using True by simp
  next
    case False
    then have "butlast cs \<noteq> []" by (cases cs) auto
    then show ?thesis using False cs components_join [of "butlast cs"] by (auto dest: in_set_butlastD)
  qed
  have "snd (components (last cs)) = [last cs]" using components_join [of "[last cs]"] cs by simp
  moreover have "components ''/srv/models'' = (True, [''srv'', ''models''])" by code_simp
  ultimately have "target ''/srv/models'' ?e = path_of (True, [''srv'', ''models''] @ butlast cs @ [last cs])"
    using dir by (simp add: target_def)
  also have "\<dots> = p"
    using assms cs(1) by (cases cs) (auto simp: path_of_def plain_path_def)
  finally show ?thesis using e by auto
qed

text \<open>
  A run that reports no failure leaves every model that \<open>models.ini\<close> names on disk, at the very path it is
  named by, whatever aliases share it.
\<close>

theorem models_downloaded:
  assumes "download_main ''/srv/models'' False SAll hub sections disk = Inr (disk', good, 0, code)"
    and "(section, Some p) \<in> set sections" and "plain_path cs p"
  shows "p \<in> disk' \<and> code = 0 \<and> disk \<subseteq> disk'"
proof -
  have every: "filter (in_slot SAll) ds = ds" for ds by (simp add: in_slot_def)
  obtain seen where seen: "swappable_from sections [] = Inr seen"
    and eq: "(let (x, g, b) = download_all ''/srv/models'' False hub (PERMANENT_MODELS @ map snd seen) disk
       in Inr (x, g, b, if b > 0 then 1 else 0)) = (Inr (disk', good, 0, code) :: (string set \<times> nat \<times> nat \<times> int) result)"
    using assms(1) unfolding download_main_def load_swappable_models_def bindE_eq_Inr every by (auto simp: bindE_eq_Inr)
  obtain x g b where r: "download_all ''/srv/models'' False hub (PERMANENT_MODELS @ map snd seen) disk = (x, g, b)"
    by (metis prod_cases3)
  have run: "download_all ''/srv/models'' False hub (PERMANENT_MODELS @ map snd seen) disk = (disk', good, 0)" and code: "code = 0"
    using eq r by auto
  obtain e where e: "swappable_entry p = Inr e" "target ''/srv/models'' e = p" using target_is_path [OF assms(3)] by blast
  have "p \<noteq> []" using assms(3) by (auto simp: plain_path_def)
  then have "p \<in> fst ` set seen" and all: "\<forall>(p, e)\<in>set seen. swappable_entry p = Inr e"
    using swappable_from_keys [OF seen] assms(2) by auto
  then have "e \<in> set (map snd seen)" using e(1) by force
  then show ?thesis using download_all_disk [OF run] e(2) code by auto
qed

definition brain_ini :: "(string \<times> string option) list" where
  "brain_ini = [(''brain'', Some ''/srv/models/a/b/x.gguf''), (''chat'', Some ''/srv/models/a/b/x.gguf''), (''note'', None)]"

theorem models_downloaded_witness:
  "''/srv/models/a/b/x.gguf'' \<in> fst (download_all ''/srv/models'' False (\<lambda>d. True)
      (PERMANENT_MODELS @ [\<lparr>d_repo = ''a/b'', d_file = ''x.gguf'', d_dir = ''a/b'', d_permanent = False\<rparr>]) {})"
proof -
  have l: "load_swappable_models brain_ini = Inr [\<lparr>d_repo = ''a/b'', d_file = ''x.gguf'', d_dir = ''a/b'', d_permanent = False\<rparr>]"
    by code_simp
  let ?r = "download_all ''/srv/models'' False (\<lambda>d. True)
      (PERMANENT_MODELS @ [\<lparr>d_repo = ''a/b'', d_file = ''x.gguf'', d_dir = ''a/b'', d_permanent = False\<rparr>]) {}"
  have "snd (snd ?r) = 0" by (simp add: PERMANENT_MODELS_def download_model_def Let_def)
  then have m: "download_main ''/srv/models'' False SAll (\<lambda>d. True) brain_ini {} = Inr (fst ?r, fst (snd ?r), 0, 0)"
    by (simp add: download_main_def l in_slot_def Let_def case_prod_unfold)
  have s: "(''brain'', Some ''/srv/models/a/b/x.gguf'') \<in> set brain_ini" by (simp add: brain_ini_def)
  have "plain_path [''a'', ''b'', ''x.gguf''] ''/srv/models/a/b/x.gguf''" by (simp add: plain_path_def)
  from models_downloaded [OF m s this] show ?thesis by blast
qed

text \<open>A model elsewhere than under \<open>/srv/models\<close> ends the script, whatever directory it was told to use.\<close>

lemma other_root_raises: "load_swappable_models [(''m'', Some ''/data/models/a/b/x.gguf'')] = Inl ValueError"
  by code_simp

end
