(* ===== verification/Rag_Service.thy ===== *)
theory Rag_Service
  imports Rag_Retrieve
begin

text \<open>
  The ingest endpoint of \<open>rag/main.py\<close> as a state machine, and the service end to end: what an ingest
  puts into the store, a literal search finds.

  A task is what \<open>asyncio.create_task(asyncio.to_thread(_run))\<close> makes; the worker thread reads the
  archive, then upserts batch by batch, then runs its \<open>finally\<close>, and the event loop sees the result
  some time after that. Each of these is an event, so everything may happen between any two of them.
  The archive as it is read, and whether the embedding model and the store can be reached, come with the start.
  \<open>ICancel\<close> is the cancellation of a handler: the task it waits for is cancelled with it, the thread is not.
\<close>

section \<open>One run in its steps\<close>

type_synonym batch = "(string \<times> string \<times> jobj) list"

function batches :: "nat \<Rightarrow> batch \<Rightarrow> batch list" where
  "batches n es = (if es = [] \<or> n = 0 then [] else take n es # batches n (drop n es))"
  by pat_completeness auto
termination by (relation "measure (\<lambda>(n, es). length es)") auto

declare batches.simps [simp del]

text \<open>What a run is about to write, and the counts it will report.\<close>

definition plan_ingest ::
  "ingest_world \<Rightarrow> (string \<times> string list) list option \<Rightarrow> string option \<Rightarrow> (batch list \<times> nat \<times> nat \<times> nat) result" where
  "plan_ingest w dir since =
     bindE (load_archive (i_loads w) (i_dt w) (i_rep w) dir since) (\<lambda>ms.
       if ms = [] then Inr ([], 0, 0, 0)
       else let cs = chunk_by_conversation (estimate_tokens (i_rep w) (i_fmt w)) (DEFAULT_GAP_MINUTES * 60) DEFAULT_MAX_TOKENS ms in
            if cs = [] then Inr ([], length ms, 0, 0)
            else bindE (mapE (entry_of w) cs) (\<lambda>es.
              Inr (batches CHROMA_MAX_BATCH_SIZE es, length ms, length cs, length cs)))"

section \<open>The endpoint\<close>

datatype ingest_pc =
    KNew
  | KWriting "batch list" "nat \<times> nat \<times> nat"
  | KOver "(nat \<times> nat \<times> nat) result"
  | KLeft "(nat \<times> nat \<times> nat) result"

record ingest_task =
  k_request :: nat
  k_since :: "string option"
  k_pc :: ingest_pc
  k_done :: bool

datatype ingest_reply = IRunning | ICompleted "nat \<times> nat \<times> nat" | IFailed

text \<open>\<open>_ingest_task\<close> is an index into the tasks made so far; the store is one collection per name.\<close>

record ingest_service =
  n_current :: "nat option"
  n_tasks :: "ingest_task list"
  n_store :: "string \<Rightarrow> collection"
  n_replies :: "(nat \<times> ingest_reply) list"

definition ingest_init :: "(string \<Rightarrow> collection) \<Rightarrow> ingest_service" where
  "ingest_init store = \<lparr>n_current = None, n_tasks = [], n_store = store, n_replies = []\<rparr>"

datatype ingest_event =
    IPost nat "string option"
  | IStart nat "(string \<times> string list) list option" bool
  | IUpsert nat bool
  | IFinally nat
  | IWake nat
  | ICancel nat

definition under_way :: "ingest_service \<Rightarrow> bool" where
  "under_way s = (case n_current s of None \<Rightarrow> False | Some i \<Rightarrow> \<not> k_done (n_tasks s ! i))"

definition set_pc :: "nat \<Rightarrow> ingest_pc \<Rightarrow> ingest_service \<Rightarrow> ingest_service" where
  "set_pc i p s = s\<lparr>n_tasks := (n_tasks s)[i := (n_tasks s ! i)\<lparr>k_pc := p\<rparr>]\<rparr>"

definition set_done :: "nat \<Rightarrow> ingest_service \<Rightarrow> ingest_service" where
  "set_done i s = s\<lparr>n_tasks := (n_tasks s)[i := (n_tasks s ! i)\<lparr>k_done := True\<rparr>]\<rparr>"

definition ingest_answer :: "nat \<Rightarrow> ingest_reply \<Rightarrow> ingest_service \<Rightarrow> ingest_service" where
  "ingest_answer r a s = s\<lparr>n_replies := n_replies s @ [(r, a)]\<rparr>"

definition post_ingest :: "nat \<Rightarrow> string option \<Rightarrow> ingest_service \<Rightarrow> ingest_service" where
  "post_ingest r since s =
     (if under_way s then ingest_answer r IRunning s
      else s\<lparr>n_tasks := n_tasks s @ [\<lparr>k_request = r, k_since = since, k_pc = KNew, k_done = False\<rparr>],
             n_current := Some (length (n_tasks s))\<rparr>)"

text \<open>\<open>run_ingest\<close> is called without a collection name, so it writes where \<open>embed_and_upsert\<close> does by default.\<close>

definition DEFAULT_COLLECTION :: string where "DEFAULT_COLLECTION = ''lore''"

definition run_step :: "ingest_world \<Rightarrow> ingest_event \<Rightarrow> ingest_service \<Rightarrow> ingest_service" where
  "run_step w e s =
     (case e of
        IStart i dir up \<Rightarrow>
          (case k_pc (n_tasks s ! i) of
             KNew \<Rightarrow>
               (case plan_ingest w dir (k_since (n_tasks s ! i)) of
                  Inl err \<Rightarrow> set_pc i (KOver (Inl err)) s
                | Inr (bs, counts) \<Rightarrow> set_pc i (if bs = [] \<or> up then KWriting bs counts else KOver (Inl OSError)) s)
           | _ \<Rightarrow> s)
      | IUpsert i ok \<Rightarrow>
          (case k_pc (n_tasks s ! i) of
             KWriting [] counts \<Rightarrow> set_pc i (KOver (Inr counts)) s
           | KWriting (b # bs) counts \<Rightarrow>
               if ok then (set_pc i (KWriting bs counts) s)
                      \<lparr>n_store := (n_store s)(DEFAULT_COLLECTION := upsert b (n_store s DEFAULT_COLLECTION))\<rparr>
               else set_pc i (KOver (Inl OSError)) s
           | _ \<Rightarrow> s)
      | IFinally i \<Rightarrow>
          (case k_pc (n_tasks s ! i) of KOver r \<Rightarrow> (set_pc i (KLeft r) s)\<lparr>n_current := None\<rparr> | _ \<Rightarrow> s)
      | IWake i \<Rightarrow>
          (case k_pc (n_tasks s ! i) of
             KLeft r \<Rightarrow>
               if k_done (n_tasks s ! i) then s
               else ingest_answer (k_request (n_tasks s ! i)) (case r of Inl err \<Rightarrow> IFailed | Inr c \<Rightarrow> ICompleted c) (set_done i s)
           | _ \<Rightarrow> s)
      | ICancel i \<Rightarrow>
          (case k_pc (n_tasks s ! i) of
             KNew \<Rightarrow> set_pc i (KLeft (Inl RuntimeError)) (set_done i s)
           | _ \<Rightarrow> set_done i s)
      | IPost r since \<Rightarrow> s)"

definition task_of :: "ingest_event \<Rightarrow> nat option" where
  "task_of e = (case e of IPost r since \<Rightarrow> None | IStart i dir up \<Rightarrow> Some i | IUpsert i ok \<Rightarrow> Some i
     | IFinally i \<Rightarrow> Some i | IWake i \<Rightarrow> Some i | ICancel i \<Rightarrow> Some i)"

definition ingest_step :: "ingest_world \<Rightarrow> ingest_event \<Rightarrow> ingest_service \<Rightarrow> ingest_service" where
  "ingest_step w e s =
     (case e of
        IPost r since \<Rightarrow> post_ingest r since s
      | _ \<Rightarrow> (case task_of e of Some i \<Rightarrow> if i < length (n_tasks s) then run_step w e s else s | None \<Rightarrow> s))"

definition no_cancel :: "ingest_event \<Rightarrow> bool" where
  "no_cancel e = (case e of ICancel i \<Rightarrow> False | _ \<Rightarrow> True)"

section \<open>The steps make up a run\<close>

lemma fold_batches: "n > 0 \<Longrightarrow> fold upsert (batches n es) col = upsert_batches n es col"
proof (induction n es arbitrary: col rule: batches.induct)
  case (1 n es)
  then show ?case by (cases "es = []") (simp_all add: batches.simps [of n "[]"] upsert_batches.simps [of n "[]"] batches.simps [of n es] upsert_batches.simps [of n es])
qed

lemma run_is_plan:
  "run_ingest w dir since DEFAULT_GAP_MINUTES DEFAULT_MAX_TOKENS col
     = bindE (plan_ingest w dir since) (\<lambda>(bs, counts). Inr (fold upsert bs col, counts))"
  by (auto simp: run_ingest_def plan_ingest_def embed_and_upsert_def Let_def bindE_def fold_batches CHROMA_MAX_BATCH_SIZE_def
      split: sum.splits)

section \<open>One after the other\<close>

text \<open>
  An ingest as one piece: the archive it reads, whether the store and the model are reached, and after how many batches
  the store refuses one, if it does. The counts or the error, and the collection afterwards.
\<close>

record attempt =
  x_since :: "string option"
  x_dir :: "(string \<times> string list) list option"
  x_up :: bool
  x_fail :: "nat option"

definition ingest_once :: "ingest_world \<Rightarrow> attempt \<Rightarrow> collection \<Rightarrow> (nat \<times> nat \<times> nat) result \<times> collection" where
  "ingest_once w x col =
     (case plan_ingest w (x_dir x) (x_since x) of
        Inl e \<Rightarrow> (Inl e, col)
      | Inr (bs, counts) \<Rightarrow>
          if bs \<noteq> [] \<and> \<not> x_up x then (Inl OSError, col)
          else case x_fail x of
                 None \<Rightarrow> (Inr counts, fold upsert bs col)
               | Some k \<Rightarrow> (Inl OSError, fold upsert (take k bs) col))"

fun serial :: "ingest_world \<Rightarrow> attempt list \<Rightarrow> collection \<Rightarrow> (nat \<times> nat \<times> nat) result list \<times> collection" where
  "serial w [] col = ([], col)"
| "serial w (x # xs) col =
     (let (r, col1) = ingest_once w x col; (rs, col2) = serial w xs col1 in (r # rs, col2))"

lemma serial_snoc:
  "serial w (xs @ [x]) col =
     (let (rs, col1) = serial w xs col; (r, col2) = ingest_once w x col1 in (rs @ [r], col2))"
  by (induction xs arbitrary: col) (auto simp: case_prod_unfold Let_def)

text \<open>A run that succeeds is the run of the ingest pipeline.\<close>

lemma ingest_once_run:
  "ingest_once w x col = (Inr counts, col') \<Longrightarrow>
   run_ingest w (x_dir x) (x_since x) DEFAULT_GAP_MINUTES DEFAULT_MAX_TOKENS col = Inr (col', counts)"
  by (auto simp: ingest_once_def run_is_plan bindE_def split: sum.splits option.splits if_splits)

definition left :: "ingest_task \<Rightarrow> bool" where
  "left t = (case k_pc t of KLeft r \<Rightarrow> True | _ \<Rightarrow> False)"

definition result_of :: "ingest_task \<Rightarrow> (nat \<times> nat \<times> nat) result" where
  "result_of t = (case k_pc t of KLeft r \<Rightarrow> r | _ \<Rightarrow> Inl RuntimeError)"

text \<open>How far the task at work has come from the collection it found.\<close>

definition run_progress :: "ingest_world \<Rightarrow> collection \<Rightarrow> ingest_task \<Rightarrow> collection \<Rightarrow> bool" where
  "run_progress w col t now =
     (case k_pc t of
        KNew \<Rightarrow> now = col
      | KWriting bs counts \<Rightarrow>
          (\<exists>dir up ds. plan_ingest w dir (k_since t) = Inr (ds @ bs, counts) \<and> (ds @ bs = [] \<or> up) \<and> now = fold upsert ds col)
      | KOver r \<Rightarrow> (\<exists>x. x_since x = k_since t \<and> ingest_once w x col = (r, now))
      | KLeft r \<Rightarrow> False)"

definition history_ok :: "ingest_world \<Rightarrow> collection \<Rightarrow> ingest_task list \<Rightarrow> collection \<Rightarrow> bool" where
  "history_ok w col0 ts col \<longleftrightarrow>
     list_all left ts \<and> (\<exists>xs. map x_since xs = map k_since ts \<and> serial w xs col0 = (map result_of ts, col))"

text \<open>The task at work, as the last of the list.\<close>

definition at_work :: "ingest_world \<Rightarrow> collection \<Rightarrow> ingest_task list \<Rightarrow> ingest_task \<Rightarrow> collection \<Rightarrow> ingest_service \<Rightarrow> bool" where
  "at_work w col0 ts t col s \<longleftrightarrow>
     n_tasks s = ts @ [t] \<and> n_current s = Some (length ts) \<and> \<not> k_done t \<and> history_ok w col0 ts col
     \<and> run_progress w col t (n_store s DEFAULT_COLLECTION)"

definition serial_inv :: "ingest_world \<Rightarrow> collection \<Rightarrow> ingest_service \<Rightarrow> bool" where
  "serial_inv w col0 s \<longleftrightarrow>
     n_current s = None \<and> history_ok w col0 (n_tasks s) (n_store s DEFAULT_COLLECTION) \<or> (\<exists>ts t col. at_work w col0 ts t col s)"

section \<open>Every step keeps the order\<close>

lemma left_pc: "left t \<longleftrightarrow> (\<exists>r. k_pc t = KLeft r)"
  by (auto simp: left_def split: ingest_pc.splits)

lemma map_update_same: "i < length xs \<Longrightarrow> f y = f (xs ! i) \<Longrightarrow> map f (xs[i := y]) = map f xs"
  by (metis list_update_id map_update)

lemma run_step_other:
  assumes "i < length (n_tasks s)" "left (n_tasks s ! i)" "task_of e = Some i" "no_cancel e"
  shows "map k_since (n_tasks (run_step w e s)) = map k_since (n_tasks s)"
    "map k_pc (n_tasks (run_step w e s)) = map k_pc (n_tasks s)"
    "n_store (run_step w e s) = n_store s" "n_current (run_step w e s) = n_current s"
    "\<forall>j. j \<noteq> i \<longrightarrow> n_tasks (run_step w e s) ! j = n_tasks s ! j"
  using assms
  by (auto simp: run_step_def task_of_def left_pc set_done_def ingest_answer_def no_cancel_def map_update_same
      split: ingest_event.splits)

lemma history_pcs:
  assumes "map k_since ts' = map k_since ts" "map k_pc ts' = map k_pc ts"
  shows "history_ok w col0 ts' col = history_ok w col0 ts col"
proof -
  have "map left ts' = map left ts" "map result_of ts' = map result_of ts"
    using assms(2) by (auto simp: left_def result_of_def list_eq_iff_nth_eq)
  moreover have "list_all left xs = list_all (\<lambda>b. b) (map left xs)" for xs by (simp add: list.pred_map comp_def)
  ultimately show ?thesis by (simp add: history_ok_def assms(1))
qed

lemma progress_writing:
  assumes "plan_ingest w dir (k_since t) = Inr (ds @ bs, counts)" "ds @ bs = [] \<or> up"
  shows "run_progress w col (t\<lparr>k_pc := KWriting bs counts\<rparr>) (fold upsert ds col)"
  using assms by (auto simp: run_progress_def)

lemma progress_over:
  assumes "ingest_once w x col = (r, now)" "x_since x = k_since t"
  shows "run_progress w col (t\<lparr>k_pc := KOver r\<rparr>) now"
  using assms by (auto simp: run_progress_def)

text \<open>Where the start, and each batch, take the task at work.\<close>

lemma progress_start:
  assumes "run_progress w col t now" "k_pc t = KNew"
  shows "case plan_ingest w dir (k_since t) of
      Inl err \<Rightarrow> run_progress w col (t\<lparr>k_pc := KOver (Inl err)\<rparr>) now
    | Inr (bs, counts) \<Rightarrow> run_progress w col (t\<lparr>k_pc := if bs = [] \<or> up then KWriting bs counts else KOver (Inl OSError)\<rparr>) now"
proof -
  have now: "now = col" using assms by (simp add: run_progress_def)
  let ?x = "\<lparr>x_since = k_since t, x_dir = dir, x_up = up, x_fail = None\<rparr>"
  show ?thesis
  proof (cases "plan_ingest w dir (k_since t)")
    case (Inl err)
    then show ?thesis using progress_over [of w ?x col "Inl err" col t] by (simp add: now ingest_once_def)
  next
    case (Inr bc)
    obtain bs counts where bc: "bc = (bs, counts)" by (cases bc)
    show ?thesis
    proof (cases "bs = [] \<or> up")
      case True
      then show ?thesis using progress_writing [of w dir t "[]" bs counts up col] Inr bc by (simp add: now)
    next
      case False
      then show ?thesis using progress_over [of w ?x col "Inl OSError" col t] Inr bc by (simp add: now ingest_once_def)
    qed
  qed
qed

lemma progress_batch:
  assumes "run_progress w col t now" "k_pc t = KWriting bs counts"
  shows "case bs of
      [] \<Rightarrow> run_progress w col (t\<lparr>k_pc := KOver (Inr counts)\<rparr>) now
    | b # bs' \<Rightarrow> run_progress w col (t\<lparr>k_pc := KWriting bs' counts\<rparr>) (upsert b now)
        \<and> run_progress w col (t\<lparr>k_pc := KOver (Inl OSError)\<rparr>) now"
proof -
  obtain dir up ds where p: "plan_ingest w dir (k_since t) = Inr (ds @ bs, counts)" "ds @ bs = [] \<or> up" "now = fold upsert ds col"
    using assms by (auto simp: run_progress_def)
  let ?x = "\<lambda>f. \<lparr>x_since = k_since t, x_dir = dir, x_up = up, x_fail = f\<rparr>"
  show ?thesis
  proof (cases bs)
    case Nil
    then show ?thesis using p progress_over [of w "?x None" col "Inr counts" now t] by (auto simp: ingest_once_def)
  next
    case (Cons b bs')
    have "run_progress w col (t\<lparr>k_pc := KWriting bs' counts\<rparr>) (fold upsert (ds @ [b]) col)"
      by (rule progress_writing [where dir = dir and up = up]) (use p Cons in auto)
    moreover have "run_progress w col (t\<lparr>k_pc := KOver (Inl OSError)\<rparr>) now"
      by (rule progress_over [where x = "?x (Some (length ds))"]) (use p Cons in \<open>auto simp: ingest_once_def\<close>)
    ultimately show ?thesis using p(3) Cons by simp
  qed
qed

lemma history_snoc:
  assumes "history_ok w col0 ts col" "run_progress w col t now" "k_pc t = KOver r"
  shows "history_ok w col0 (ts @ [t\<lparr>k_pc := KLeft r\<rparr>]) now"
proof -
  obtain xs where xs: "map x_since xs = map k_since ts" "serial w xs col0 = (map result_of ts, col)"
    and l: "list_all left ts" using assms(1) by (auto simp: history_ok_def)
  obtain x where x: "x_since x = k_since t" "ingest_once w x col = (r, now)" using assms(2,3) by (auto simp: run_progress_def)
  have "map x_since (xs @ [x]) = map k_since (ts @ [t\<lparr>k_pc := KLeft r\<rparr>])" using xs(1) x(1) by simp
  moreover have "serial w (xs @ [x]) col0 = (map result_of (ts @ [t\<lparr>k_pc := KLeft r\<rparr>]), now)"
    using xs(2) x(2) by (simp add: serial_snoc result_of_def)
  moreover have "list_all left (ts @ [t\<lparr>k_pc := KLeft r\<rparr>])" using l by (simp add: left_def)
  ultimately show ?thesis unfolding history_ok_def by blast
qed

lemma at_workI:
  assumes "at_work w col0 ts t col s" "n_tasks s' = ts @ [t\<lparr>k_pc := p\<rparr>]" "n_current s' = n_current s"
    "run_progress w col (t\<lparr>k_pc := p\<rparr>) (n_store s' DEFAULT_COLLECTION)"
  shows "serial_inv w col0 s'"
proof -
  have "at_work w col0 ts (t\<lparr>k_pc := p\<rparr>) col s'" using assms by (simp add: at_work_def)
  then show ?thesis unfolding serial_inv_def by blast
qed

lemma run_step_last:
  assumes a: "at_work w col0 ts t col s" and e: "task_of e = Some (length ts)" "no_cancel e"
  shows "serial_inv w col0 (run_step w e s)"
proof -
  have tasks [simp]: "n_tasks s = ts @ [t]" and now: "run_progress w col t (n_store s DEFAULT_COLLECTION)"
    and hist: "history_ok w col0 ts col" using a by (simp_all add: at_work_def)
  have same: "serial_inv w col0 s" using a unfolding serial_inv_def by blast
  show ?thesis
  proof (cases e)
    case (IStart i dir up)
    show ?thesis
    proof (cases "k_pc t")
      case KNew
      from progress_start [OF now KNew, where dir = dir and up = up] show ?thesis using IStart KNew e(1)
        by (auto simp: run_step_def task_of_def set_pc_def split: sum.splits prod.splits intro!: at_workI [OF a])
    qed (use IStart same e(1) in \<open>simp_all add: run_step_def task_of_def\<close>)
  next
    case (IUpsert i ok)
    show ?thesis
    proof (cases "k_pc t")
      case (KWriting bs counts)
      from progress_batch [OF now KWriting] show ?thesis using IUpsert KWriting e(1)
        by (auto simp: run_step_def task_of_def set_pc_def split: list.splits intro!: at_workI [OF a])
    qed (use IUpsert same e(1) in \<open>simp_all add: run_step_def task_of_def\<close>)
  next
    case (IFinally i)
    show ?thesis
    proof (cases "k_pc t")
      case (KOver r)
      from history_snoc [OF hist now KOver] show ?thesis using IFinally KOver e(1)
        by (simp add: run_step_def task_of_def set_pc_def serial_inv_def)
    qed (use IFinally same e(1) in \<open>simp_all add: run_step_def task_of_def\<close>)
  next
    case (IWake i)
    have "k_pc t \<noteq> KLeft r" for r using now by (auto simp: run_progress_def)
    then show ?thesis using IWake same e(1) by (simp add: run_step_def task_of_def split: ingest_pc.splits)
  qed (use e in \<open>simp_all add: task_of_def no_cancel_def\<close>)
qed

lemma post_serial:
  assumes "serial_inv w col0 s" shows "serial_inv w col0 (post_ingest r since s)"
proof (cases "n_current s")
  case None
  let ?t = "\<lparr>k_request = r, k_since = since, k_pc = KNew, k_done = False\<rparr>"
  have h: "history_ok w col0 (n_tasks s) (n_store s DEFAULT_COLLECTION)" using assms None by (auto simp: serial_inv_def at_work_def)
  have "at_work w col0 (n_tasks s) ?t (n_store s DEFAULT_COLLECTION) (post_ingest r since s)"
    using None h by (simp add: at_work_def post_ingest_def under_way_def run_progress_def)
  then show ?thesis unfolding serial_inv_def by blast
next
  case (Some i)
  then have "under_way s" using assms by (auto simp: serial_inv_def at_work_def under_way_def)
  then show ?thesis using assms by (simp add: post_ingest_def ingest_answer_def serial_inv_def at_work_def)
qed

lemma run_step_serial:
  assumes "serial_inv w col0 s" "task_of e = Some i" "i < length (n_tasks s)" "no_cancel e"
  shows "serial_inv w col0 (run_step w e s)"
proof -
  consider (idle) "n_current s = None" "history_ok w col0 (n_tasks s) (n_store s DEFAULT_COLLECTION)"
    | (busy) ts t col where "at_work w col0 ts t col s"
    using assms(1) unfolding serial_inv_def by metis
  then show ?thesis
  proof cases
    case idle
    then have "left (n_tasks s ! i)" using assms(3) by (simp add: history_ok_def list_all_length)
    note o = run_step_other [OF assms(3) this assms(2,4), where w = w]
    show ?thesis using idle by (simp add: serial_inv_def o history_pcs [OF o(1,2)])
  next
    case busy
    have tasks: "n_tasks s = ts @ [t]" and h: "history_ok w col0 ts col" using busy by (simp_all add: at_work_def)
    show ?thesis
    proof (cases "i = length ts")
      case True
      then show ?thesis using run_step_last [OF busy] assms(2,4) by simp
    next
      case False
      then have i: "i < length ts" using assms(3) tasks by simp
      then have l: "left (n_tasks s ! i)" using h tasks by (simp add: history_ok_def list_all_length nth_append)
      note o = run_step_other [OF assms(3) l assms(2,4), where w = w]
      let ?us = "n_tasks (run_step w e s)"
      have len: "length ?us = Suc (length ts)" using arg_cong [OF o(1), of length] tasks by simp
      then have us: "?us = butlast ?us @ [t]"
        using o(5) i tasks by (metis False append_butlast_last_id last_conv_nth length_0_conv diff_Suc_1 nat.distinct(1) nth_append_length)
      then obtain vs where vs: "?us = vs @ [t]" by blast
      have "map k_since vs = map k_since ts" "map k_pc vs = map k_pc ts" "length vs = length ts"
        using o(1,2) tasks vs len by simp_all
      then have "at_work w col0 vs t col (run_step w e s)"
        using busy history_pcs [of vs ts] by (simp add: at_work_def vs o)
      then show ?thesis unfolding serial_inv_def by blast
    qed
  qed
qed

lemma ingest_step_serial:
  assumes "serial_inv w col0 s" shows "serial_inv w col0 (if no_cancel e then ingest_step w e s else s)"
proof (cases "task_of e")
  case None
  then show ?thesis using post_serial [OF assms] assms by (auto simp: task_of_def ingest_step_def split: ingest_event.splits)
next
  case (Some i)
  then have "ingest_step w e s = (if i < length (n_tasks s) then run_step w e s else s)"
    by (auto simp: ingest_step_def task_of_def split: ingest_event.splits)
  then show ?thesis using run_step_serial [OF assms Some] assms by simp
qed

interpretation ingest: machine "\<lambda>e s. if no_cancel e then ingest_step w e s else s" "serial_inv w (store DEFAULT_COLLECTION)"
  "\<lambda>s. s = ingest_init store" for w store
proof unfold_locales
  fix s assume "s = ingest_init store"
  then show "serial_inv w (store DEFAULT_COLLECTION) s" by (simp add: ingest_init_def serial_inv_def history_ok_def)
next
  fix s e assume "serial_inv w (store DEFAULT_COLLECTION) s"
  then show "serial_inv w (store DEFAULT_COLLECTION) (if no_cancel e then ingest_step w e s else s)"
    by (rule ingest_step_serial)
qed

lemma ingest_run_inv:
  "list_all no_cancel es \<Longrightarrow> serial_inv w (store DEFAULT_COLLECTION) (fold (ingest_step w) es (ingest_init store))"
proof -
  assume "list_all no_cancel es"
  then have "fold (ingest_step w) es s = fold (\<lambda>e s. if no_cancel e then ingest_step w e s else s) es s" for s
    by (induction es arbitrary: s) auto
  then show ?thesis using ingest.run_inv [OF refl] by simp
qed

text \<open>What was reported, some task has as its result; other collections are not touched.\<close>

definition reported :: "ingest_service \<Rightarrow> bool" where
  "reported s \<longleftrightarrow> (\<forall>r c. (r, ICompleted c) \<in> set (n_replies s) \<longrightarrow> (\<exists>t\<in>set (n_tasks s). k_request t = r \<and> k_pc t = KLeft (Inr c)))"

lemma reported_keep:
  assumes "reported s" "n_replies s' = n_replies s"
    "\<And>t c. t \<in> set (n_tasks s) \<Longrightarrow> k_pc t = KLeft (Inr c) \<Longrightarrow> \<exists>t'\<in>set (n_tasks s'). k_request t' = k_request t \<and> k_pc t' = KLeft (Inr c)"
  shows "reported s'"
  using assms unfolding reported_def by metis

lemma keep_update:
  assumes "t \<in> set xs" "k_pc t = q" "i < length xs" "k_pc (xs ! i) = q \<Longrightarrow> k_pc y = q" "k_request y = k_request (xs ! i)"
  shows "\<exists>t'\<in>set (xs[i := y]). k_request t' = k_request t \<and> k_pc t' = q"
proof -
  obtain j where j: "j < length xs" "t = xs ! j" using assms(1) by (auto simp: in_set_conv_nth)
  then have "xs[i := y] ! j \<in> set (xs[i := y])" by simp
  then show ?thesis using assms j by (cases "i = j") (auto intro!: bexI [of _ "xs[i := y] ! j"])
qed

lemma reported_answer:
  assumes "reported s" "\<And>c. a = ICompleted c \<Longrightarrow> \<exists>t\<in>set (n_tasks s). k_request t = r \<and> k_pc t = KLeft (Inr c)"
  shows "reported (ingest_answer r a s)"
  using assms by (auto simp: reported_def ingest_answer_def)

lemma run_step_reported: "reported s \<Longrightarrow> i < length (n_tasks s) \<Longrightarrow> task_of e = Some i \<Longrightarrow> reported (run_step w e s)"
proof (cases "\<exists>r. e = IWake i \<and> k_pc (n_tasks s ! i) = KLeft r \<and> \<not> k_done (n_tasks s ! i)")
  case True
  assume a: "reported s" "i < length (n_tasks s)" "task_of e = Some i"
  obtain r where r: "e = IWake i" "k_pc (n_tasks s ! i) = KLeft r" "\<not> k_done (n_tasks s ! i)" using True by blast
  have k: "reported (set_done i s)"
    by (rule reported_keep [OF a(1)]) (auto simp: set_done_def intro!: keep_update a(2))
  have "(n_tasks s ! i)\<lparr>k_done := True\<rparr> \<in> set (n_tasks (set_done i s))"
    using a(2) by (simp add: set_done_def set_update_memI)
  then have "reported (ingest_answer (k_request (n_tasks s ! i)) (case r of Inl err \<Rightarrow> IFailed | Inr c \<Rightarrow> ICompleted c) (set_done i s))"
    using r(2) by (intro reported_answer [OF k]) (auto split: sum.splits intro!: bexI [of _ "(n_tasks s ! i)\<lparr>k_done := True\<rparr>"])
  then show ?thesis using r by (simp add: run_step_def)
next
  case False
  assume a: "reported s" "i < length (n_tasks s)" "task_of e = Some i"
  show ?thesis
    by (rule reported_keep [OF a(1)])
      (use False a in \<open>auto simp: run_step_def task_of_def set_pc_def set_done_def
         split: ingest_event.splits ingest_pc.splits sum.splits list.splits intro!: keep_update\<close>)
qed

lemma ingest_step_reported: "reported s \<Longrightarrow> reported (ingest_step w e s)"
proof (cases "task_of e")
  case None
  assume a: "reported s"
  have "reported (post_ingest r since s)" for r since
  proof (cases "under_way s")
    case True
    then show ?thesis using reported_answer [OF a, of IRunning r] by (simp add: post_ingest_def)
  next
    case False
    then show ?thesis by (intro reported_keep [OF a]) (auto simp: post_ingest_def)
  qed
  then show ?thesis using None a by (simp add: task_of_def ingest_step_def split: ingest_event.splits)
next
  case (Some i)
  assume a: "reported s"
  have "ingest_step w e s = (if i < length (n_tasks s) then run_step w e s else s)"
    using Some by (auto simp: ingest_step_def task_of_def split: ingest_event.splits)
  then show ?thesis using run_step_reported [OF a _ Some] a by simp
qed

interpretation replies: machine "ingest_step w" reported "\<lambda>s. s = ingest_init store" for w store
  by unfold_locales (simp_all add: ingest_step_reported, simp add: reported_def ingest_init_def)

lemma other_collections: "c \<noteq> DEFAULT_COLLECTION \<Longrightarrow> n_store (ingest_step w e s) c = n_store s c"
  by (simp add: ingest_step_def post_ingest_def run_step_def set_pc_def set_done_def ingest_answer_def task_of_def
      split: ingest_event.splits option.splits ingest_pc.splits sum.splits list.splits prod.splits)

text \<open>
  C35: Ingests never overlap. Whatever requests come while the threads read and write, as long as no
  handler is cancelled: when no run is under way the collection is what the accepted requests, taken
  one after the other, make of it, each task's result is the one it has in that order, and every reply
  \<open>completed\<close> has the counts of a run of its request.
\<close>

theorem ingests_serial:
  assumes "list_all no_cancel es" and "s = fold (ingest_step w) es (ingest_init store)"
  shows "(n_current s = None \<longrightarrow> (\<exists>xs. map x_since xs = map k_since (n_tasks s)
      \<and> serial w xs (store DEFAULT_COLLECTION) = (map result_of (n_tasks s), n_store s DEFAULT_COLLECTION)))
    \<and> (\<forall>r c. (r, ICompleted c) \<in> set (n_replies s) \<longrightarrow>
         (\<exists>t\<in>set (n_tasks s). k_request t = r \<and> result_of t = Inr c))"
proof
  have "serial_inv w (store DEFAULT_COLLECTION) s" using ingest_run_inv [OF assms(1)] assms(2) by simp
  then show "n_current s = None \<longrightarrow> (\<exists>xs. map x_since xs = map k_since (n_tasks s)
      \<and> serial w xs (store DEFAULT_COLLECTION) = (map result_of (n_tasks s), n_store s DEFAULT_COLLECTION))"
    by (auto simp: serial_inv_def at_work_def history_ok_def)
  have "reported s" using replies.run_inv [OF refl] assms(2) by simp
  then show "\<forall>r c. (r, ICompleted c) \<in> set (n_replies s) \<longrightarrow> (\<exists>t\<in>set (n_tasks s). k_request t = r \<and> result_of t = Inr c)"
    by (fastforce simp: reported_def result_of_def)
qed

definition two_posts :: "ingest_event list" where
  "two_posts = [IPost 1 None, IStart 0 example_dir True, IPost 2 None, IUpsert 0 True, IUpsert 0 True, IFinally 0, IWake 0,
     IPost 3 (Some ''2024-01-01''), IStart 1 example_dir True, IFinally 1, IWake 1]"

theorem ingests_serial_witness:
  "let s = fold (ingest_step example_world) two_posts (ingest_init (\<lambda>c. []))
   in n_replies s = [(2, IRunning), (1, ICompleted (2, 1, 1)), (3, IFailed)]
      \<and> (\<exists>xs. map x_since xs = [None, Some ''2024-01-01'']
           \<and> serial example_world xs [] = ([Inr (2, 1, 1), Inl TypeError], n_store s DEFAULT_COLLECTION))"
proof -
  let ?s = "fold (ingest_step example_world) two_posts (ingest_init (\<lambda>c. []))"
  have v: "n_replies ?s = [(2, IRunning), (1, ICompleted (2, 1, 1)), (3, IFailed)]" "n_current ?s = None"
    "map k_since (n_tasks ?s) = [None, Some ''2024-01-01'']" "map result_of (n_tasks ?s) = [Inr (2, 1, 1), Inl TypeError]"
    by code_simp+
  have "list_all no_cancel two_posts" by code_simp
  from ingests_serial [OF this refl, of example_world "\<lambda>c. []"] v show ?thesis by (simp add: Let_def)
qed

text \<open>
  With a cancelled handler they do overlap: its thread goes on, the task counts as done, and the next
  request starts a second thread beside it.
\<close>

lemma cancelled_run_overlaps:
  "let s = fold (ingest_step example_world)
         [IPost 1 None, IStart 0 example_dir True, ICancel 0, IPost 2 None, IStart 1 example_dir True] (ingest_init (\<lambda>c. []))
   in n_replies s = []
      \<and> list_all (\<lambda>t. case k_pc t of KWriting bs counts \<Rightarrow> bs \<noteq> [] | _ \<Rightarrow> False) (n_tasks s) \<and> length (n_tasks s) = 2"
  by code_simp

text \<open>
  A service that is told another collection searches that one, and nothing ever gets into it.
\<close>

lemma configured_collection_stays_empty:
  "c \<noteq> DEFAULT_COLLECTION \<Longrightarrow> n_store (fold (ingest_step w) es (ingest_init store)) c = store c"
proof -
  assume c: "c \<noteq> DEFAULT_COLLECTION"
  have "n_store (fold (ingest_step w) es s) c = n_store s c" for s
    by (induction es arbitrary: s) (simp_all add: other_collections [OF c])
  then show ?thesis by (simp add: ingest_init_def)
qed

section \<open>What was ingested is found\<close>

lemma find_term_append: "find_term whole t prev s \<Longrightarrow> t \<noteq> [] \<Longrightarrow> find_term whole t prev (s @ r)"
proof (induction whole t prev s rule: find_term.induct)
  case (2 whole t prev c cs)
  have "prefix_nocase t (c # cs) \<Longrightarrow> prefix_nocase t ((c # cs) @ r)"
    unfolding prefix_nocase_def map_append by (rule prefix_prefix)
  then show ?case using 2 by (auto simp: word_start_def)
qed (simp add: prefix_nocase_def)

lemma find_term_prepend: "find_term whole t None s \<Longrightarrow> \<not> word_char x \<Longrightarrow> find_term whole t prev (pre @ x # s)"
proof (induction pre arbitrary: prev)
  case Nil
  have "find_term whole t (Some x) s" using Nil by (cases s) (auto simp: word_start_def)
  then show ?case by simp
qed simp

lemma term_in_document:
  assumes "g \<in> set c" "find_term whole t None (message_body rep g)" "t \<noteq> []"
  shows "find_term whole t None (format_chunk_text rep fmt c)"
proof -
  obtain pre post where d: "format_chunk_text rep fmt c = pre @ message_line rep g @ post"
    using line_in_text [OF assms(1), of rep fmt] by (auto simp: sublist_def)
  have "message_line rep g = (py_str rep (g_username g) @ '':'') @ CHR '' '' # message_body rep g"
    by (simp add: message_line_def message_body_def split: option.split)
  then have "format_chunk_text rep fmt c = (pre @ py_str rep (g_username g) @ '':'') @ CHR '' '' # message_body rep g @ post"
    using d by simp
  moreover have "\<not> word_char (CHR '' '')" by code_simp
  ultimately show ?thesis using find_term_prepend [OF find_term_append [OF assms(2,3)]] by metis
qed

text \<open>
  C36: A message that was ingested is found. The messages have distinct keys and hashes, the chunk of the one asked
  for is readable, and the store answers a literal search with every document of the default collection that the
  pattern matches, of which there are no more than its scan takes. Then a search for a term in the text of a loaded message keeps a document that gives that
  message, with its author, as a hit; and when the limit is not below the number of results, the block of
  that document is in the answer.
\<close>

theorem ingested_is_found:
  assumes ms: "load_archive (i_loads w) (i_dt w) (i_rep w) dir since = Inr ms"
    and keys: "distinct (map message_key ms)" "inj_on (i_sha w) (message_key ` set ms)"
    and run: "run_ingest w dir since gap m col = Inr (col', counts)"
    and g: "g \<in> set ms" "t \<noteq> []" "find_term whole t None (message_body (i_rep w) g)"
    and plain: "\<forall>c\<in>set (chunk_by_conversation (estimate_tokens (i_rep w) (i_fmt w)) (gap * 60) m ms). \<forall>meta.
        g \<in> set c \<and> build_metadata (i_sha w) c = Inr meta \<longrightarrow> readable (i_rep w) (i_fmt w) (known_authors (i_rep w) meta) c"
    and store: "c_up st" "c_rep st = i_rep w" "c_get st None (build_document_filter (Some t) None whole) MAX_SCAN = Some ds"
      "\<forall>(k, doc, meta)\<in>set col'. find_term whole t None doc \<longrightarrow> (doc, meta) \<in> set ds"
  shows "\<exists>ctx n d. search_literal st (Some t) None None None None order limit whole = Inr (ctx, n)
    \<and> d \<in> set (kept_documents (i_rep w) (Some t) None whole order ds)
    \<and> py_str (i_rep w) (g_username g) @ '': '' @ message_body (i_rep w) g \<in> set (hits_of (i_rep w) (Some t) None whole d)
    \<and> (int n \<le> limit \<longrightarrow> sublist (match_block (hits_of (i_rep w) (Some t) None whole d) (fst d)) ctx)"
proof -
  obtain c meta where c: "c \<in> set (chunk_by_conversation (estimate_tokens (i_rep w) (i_fmt w)) (gap * 60) m ms)" "g \<in> set c"
    and meta: "build_metadata (i_sha w) c = Inr meta"
    and entry: "map_of col' (chunk_id (i_sha w) c) = Some (format_chunk_text (i_rep w) (i_fmt w) c, meta)"
    by (rule ingested_chunk [OF ms keys run g(1)])
  have r: "readable (i_rep w) (i_fmt w) (known_authors (i_rep w) meta) c" using plain c meta by blast
  let ?d = "(format_chunk_text (i_rep w) (i_fmt w) c, meta)"
  let ?kept = "kept_documents (i_rep w) (Some t) None whole order ds"
  let ?hits = "hits_of (i_rep w) (Some t) None whole"
  have "(chunk_id (i_sha w) c, ?d) \<in> set col'" using entry by (rule map_of_SomeD)
  then have d: "?d \<in> set ds" using store(4) term_in_document [OF c(2) g(3,2)] by blast
  have "(py_str (i_rep w) (g_username g), message_body (i_rep w) g) \<in> set (parse_chunk_messages (i_rep w) (fst ?d) (snd ?d))"
    using chunk_read_back [OF meta _ r] c(2) by force
  then have h: "py_str (i_rep w) (g_username g) @ '': '' @ message_body (i_rep w) g \<in> set (?hits ?d)"
    using g(2,3) by (force simp: hits_of_def is_set_def wanted_def want_author_def term_in_def)
  have k: "?d \<in> set ?kept" using d h by (auto simp: kept_documents_def keeps_document_def)
  let ?ctx = "join chunk_separator (map (\<lambda>d. match_block (?hits d) (fst d)) (slice_to limit ?kept))"
  have s: "search_literal st (Some t) None None None None order limit whole = Inr (?ctx, length ?kept)"
    using k store(1-3) g(2) by (auto simp: search_literal_def is_set_def build_where_clause_def date_clause_def cleaned_channels_def
        bindE_def Let_def)
  have "sublist (match_block (?hits ?d) (fst ?d)) ?ctx" if "int (length ?kept) \<le> limit"
  proof (rule sublist_join)
    have sl: "slice_to limit ?kept = ?kept" using that by (simp add: slice_to_def)
    show "match_block (?hits ?d) (fst ?d) \<in> set (map (\<lambda>d. match_block (?hits d) (fst d)) (slice_to limit ?kept))"
      unfolding sl set_map by (rule image_eqI [OF refl k])
  qed
  then show ?thesis using s k h by blast
qed

text \<open>A store that gives back all it holds.\<close>

definition shelf :: "collection \<Rightarrow> chroma" where
  "shelf col = \<lparr>c_up = True, c_encodes = True, c_get = (\<lambda>wh flt n. Some (map snd col)), c_query = (\<lambda>q k wh. None),
     c_dt = (\<lambda>s. None), c_rep = (\<lambda>v. ''?'')\<rparr>"

theorem ingested_is_found_witness:
  "\<exists>col counts ctx n. run_ingest example_world example_dir None 60 512 [] = Inr (col, counts)
     \<and> search_literal (shelf col) (Some ''TW'') None None None None ''earliest'' 20 False = Inr (ctx, n)
     \<and> (\<exists>d. d \<in> set (kept_documents (\<lambda>v. ''?'') (Some ''TW'') None False ''earliest'' (map snd col))
         \<and> ''bob: two'' \<in> set (hits_of (\<lambda>v. ''?'') (Some ''TW'') None False d))"
proof -
  let ?l = "load_archive (i_loads example_world) (i_dt example_world) (i_rep example_world) example_dir None"
  let ?r = "run_ingest example_world example_dir None 60 512 []"
  let ?chunks = "chunk_by_conversation (estimate_tokens (i_rep example_world) (i_fmt example_world)) (60 * 60) 512"
  have "case ?l of Inr ms \<Rightarrow> map message_key ms = [''7:1'', ''7:2''] \<and> message_body (\<lambda>v. ''?'') (last ms) = ''two''
      \<and> g_username (last ms) = JStr ''bob''
      \<and> list_all (\<lambda>c. case build_metadata (i_sha example_world) c of
           Inr meta \<Rightarrow> readable (\<lambda>v. ''?'') (\<lambda>t. ''date'') (known_authors (\<lambda>v. ''?'') meta) c | Inl e \<Rightarrow> True) (?chunks ms)
    | Inl e \<Rightarrow> False" by code_simp
  then obtain ms where ms: "?l = Inr ms" "map message_key ms = [''7:1'', ''7:2'']" "message_body (\<lambda>v. ''?'') (last ms) = ''two''"
      "g_username (last ms) = JStr ''bob''"
      "list_all (\<lambda>c. case build_metadata (i_sha example_world) c of
         Inr meta \<Rightarrow> readable (\<lambda>v. ''?'') (\<lambda>t. ''date'') (known_authors (\<lambda>v. ''?'') meta) c | Inl e \<Rightarrow> True) (?chunks ms)"
    by (auto split: sum.splits)
  have "case ?r of Inr (col, counts) \<Rightarrow> True | Inl e \<Rightarrow> False" by code_simp
  then obtain col counts where r: "?r = Inr (col, counts)" by (auto split: sum.splits)
  have w: "i_rep example_world = (\<lambda>v. ''?'')" "i_fmt example_world = (\<lambda>t. ''date'')" "i_sha example_world = (\<lambda>s. s)"
    by (simp_all add: example_world_def)
  have keys: "distinct (map message_key ms)" "inj_on (i_sha example_world) (message_key ` set ms)" by (simp_all add: ms(2) w)
  have g1: "last ms \<in> set ms" using ms(2) by (cases ms rule: rev_cases) auto
  have g2: "find_term False ''TW'' None (message_body (i_rep example_world) (last ms))" unfolding w ms(3) by code_simp
  have plain: "\<forall>c\<in>set (?chunks ms). \<forall>meta. last ms \<in> set c \<and> build_metadata (i_sha example_world) c = Inr meta \<longrightarrow>
      readable (i_rep example_world) (i_fmt example_world) (known_authors (i_rep example_world) meta) c"
    using ms(5) unfolding w by (auto simp: list_all_iff)
  have store: "c_up (shelf col)" "c_rep (shelf col) = i_rep example_world"
      "c_get (shelf col) None (build_document_filter (Some ''TW'') None False) MAX_SCAN = Some (map snd col)"
      "\<forall>(k, doc, meta)\<in>set col. find_term False ''TW'' None doc \<longrightarrow> (doc, meta) \<in> set (map snd col)"
    by (simp_all add: shelf_def w) force
  have hit: "py_str (\<lambda>v. ''?'') (g_username (last ms)) @ '': '' @ message_body (\<lambda>v. ''?'') (last ms) = ''bob: two''"
    by (simp add: ms(3,4) py_str_def)
  note f = ingested_is_found [OF ms(1) keys r g1 _ g2 plain store, of "''earliest''" 20]
  from f obtain ctx n d where
    "search_literal (shelf col) (Some ''TW'') None None None None ''earliest'' 20 False = Inr (ctx, n)"
    "d \<in> set (kept_documents (\<lambda>v. ''?'') (Some ''TW'') None False ''earliest'' (map snd col))"
    "''bob: two'' \<in> set (hits_of (\<lambda>v. ''?'') (Some ''TW'') None False d)"
    unfolding w hit by blast
  then show ?thesis using r by blast
qed

end
