(* ===== verification/Tool_Schemas.thy ===== *)
theory Tool_Schemas
  imports Lore_Tools
begin

text \<open>
  The tools as they are advertised to the model, \<open>TOOLS\<close> of \<open>discord-bot/lore/tools.py\<close>, against the
  handlers that run them and the request models of the RAG service. Of a schema the names, types,
  enumerations and required parameters are kept; descriptions are text for the model.
\<close>

section \<open>The schemas\<close>

datatype param_type = PString | PEnum "string list" | PInteger | PBoolean | PStrings

record tool_schema =
  z_name :: string
  z_params :: "(string \<times> param_type) list"
  z_required :: "string list"

definition schema_search_discord_history :: tool_schema where
  "schema_search_discord_history =
     \<lparr>z_name = ''search_discord_history'',
      z_params = [(''query'', PString), (''start_date'', PString), (''end_date'', PString), (''top_k'', PInteger)],
      z_required = [''query'']\<rparr>"

definition schema_search_channel_history :: tool_schema where
  "schema_search_channel_history =
     \<lparr>z_name = ''search_channel_history'',
      z_params = [(''query'', PString), (''channel_name'', PString), (''start_date'', PString), (''end_date'', PString),
        (''top_k'', PInteger)],
      z_required = [''query'', ''channel_name'']\<rparr>"

definition schema_summarize_channel :: tool_schema where
  "schema_summarize_channel =
     \<lparr>z_name = ''summarize_channel'',
      z_params = [(''channel_name'', PString), (''start_date'', PString), (''end_date'', PString), (''top_k'', PInteger)],
      z_required = [''channel_name'']\<rparr>"

definition schema_search_exact_chronological :: tool_schema where
  "schema_search_exact_chronological =
     \<lparr>z_name = ''search_exact_chronological'',
      z_params = [(''term'', PString), (''author'', PString), (''order'', PEnum [''earliest'', ''latest'']),
        (''channel_name'', PString), (''start_date'', PString), (''end_date'', PString),
        (''whole_word'', PBoolean), (''limit'', PInteger)],
      z_required = []\<rparr>"

definition schema_count_messages :: tool_schema where
  "schema_count_messages =
     \<lparr>z_name = ''count_messages'',
      z_params = [(''term'', PString), (''author'', PString), (''group_by'', PEnum [''author'', ''channel'', ''month'']),
        (''channel_name'', PString), (''start_date'', PString), (''end_date'', PString),
        (''whole_word'', PBoolean), (''exclude_channels'', PStrings), (''top_n'', PInteger)],
      z_required = []\<rparr>"

definition TOOLS :: "tool_schema list" where
  "TOOLS =
     [schema_search_discord_history,
      schema_search_channel_history,
      schema_summarize_channel,
      schema_search_exact_chronological,
      schema_count_messages]"

lemmas tools =
  TOOLS_def schema_search_discord_history_def schema_search_channel_history_def schema_summarize_channel_def
  schema_search_exact_chronological_def schema_count_messages_def

text \<open>
  What the schema allows as an argument object: the required parameters are there and each one it lists has its
  type. Like the schemas of the code, which do not set \<open>additionalProperties\<close>, it allows any other property.
\<close>

fun has_type :: "param_type \<Rightarrow> json \<Rightarrow> bool" where
  "has_type PString (JStr s) \<longleftrightarrow> True"
| "has_type (PEnum es) (JStr s) \<longleftrightarrow> s \<in> set es"
| "has_type PInteger (JInt i) \<longleftrightarrow> True"
| "has_type PBoolean (JBool b) \<longleftrightarrow> True"
| "has_type PStrings (JList vs) \<longleftrightarrow> list_all (\<lambda>v. case v of JStr s \<Rightarrow> True | _ \<Rightarrow> False) vs"
| "has_type ty v \<longleftrightarrow> False"

definition conforms :: "tool_schema \<Rightarrow> jobj \<Rightarrow> bool" where
  "conforms z args \<longleftrightarrow>
     list_all (\<lambda>k. map_of args k \<noteq> None) (z_required z)
     \<and> list_all (\<lambda>(k, v). case map_of (z_params z) k of None \<Rightarrow> True | Some ty \<Rightarrow> has_type ty v) args"

lemma conforms_get:
  assumes "conforms z args" and t: "map_of (z_params z) k = Some ty"
  shows "dget args k v0 = v0 \<and> k \<notin> set (z_required z) \<or> has_type ty (dget args k v0)"
proof (cases "map_of args k")
  case None
  then have "k \<notin> set (z_required z)" using assms by (auto simp: conforms_def list_all_iff)
  then show ?thesis using None by (simp add: dget_def)
next
  case (Some v)
  then have "has_type ty v"
    using assms map_of_SomeD [OF Some] by (fastforce simp: conforms_def list_all_iff)
  then show ?thesis using Some by (simp add: dget_def)
qed

text \<open>Texts that may be missing, as the client sends them and as the service reads them.\<close>

definition text_or_null :: "json \<Rightarrow> bool" where
  "text_or_null v \<longleftrightarrow> v = JNull \<or> (\<exists>s. v = JStr s)"

definition read_text :: "json \<Rightarrow> string option" where
  "read_text v = (case v of JStr s \<Rightarrow> Some s | _ \<Rightarrow> None)"

definition sent_text :: "json \<Rightarrow> string option" where
  "sent_text v = (if truthy v then read_text v else None)"

lemma has_type_text [simp]: "has_type PString v \<longleftrightarrow> (\<exists>s. v = JStr s)" "has_type (PEnum es) v \<longleftrightarrow> (\<exists>s\<in>set es. v = JStr s)"
  "has_type PInteger v \<longleftrightarrow> (\<exists>i. v = JInt i)" "has_type PBoolean v \<longleftrightarrow> (\<exists>b. v = JBool b)"
  by (cases v; auto)+

lemma has_type_strings: "has_type PStrings v \<longleftrightarrow> (\<exists>ss. v = JList (map JStr ss))"
proof (cases v)
  case (JList vs)
  have "list_all (\<lambda>v. case v of JStr s \<Rightarrow> True | _ \<Rightarrow> False) vs \<longleftrightarrow> (\<exists>ss. vs = map JStr ss)"
  proof (induction vs)
    case (Cons v vs)
    have "(case v of JStr s \<Rightarrow> True | _ \<Rightarrow> False) \<longleftrightarrow> (\<exists>s. v = JStr s)" by (cases v) auto
    then show ?case using Cons by (auto simp: Cons_eq_map_conv)
  qed simp
  then show ?thesis using JList by simp
qed auto

section \<open>Requests the service takes\<close>

lemma served_retrieve:
  assumes "text_or_null channel" "text_or_null start" "text_or_null end'"
  shows "rag_retrieve (serve w coerced) (JStr q) (JInt k) channel start end' =
    degrade (Answer (retrieve_endpoint w q k (sent_text channel) (sent_text start) (sent_text end')))"
proof -
  have t: "\<not> truthy v \<or> (\<exists>s. v = JStr s \<and> s \<noteq> [])" if "text_or_null v" for v
    using that by (cases v) (auto simp: text_or_null_def)
  show ?thesis
    using t [OF assms(1)] t [OF assms(2)] t [OF assms(3)]
    by (elim disjE exE conjE)
      (simp_all add: rag_retrieve_def serve_def serve_retrieve_def num_field_def opt_str_def dget_def sent_text_def read_text_def)
qed

lemma served_literal:
  assumes "text_or_null t" "text_or_null a" "text_or_null channel" "text_or_null start" "text_or_null end'"
  shows "rag_search_literal (serve w coerced) t a channel start end' (JStr ord) (JInt k) whole =
    degrade (Answer (search_literal_endpoint w (read_text t) (read_text a) (read_text channel) (read_text start)
      (read_text end') ord k whole))"
  using assms unfolding text_or_null_def
  by (elim disjE exE)
    (simp_all add: rag_search_literal_def rag_post_def serve_def serve_literal_def num_field_def opt_str_def str_field_def
      bool_field_def dget_def read_text_def)

definition read_texts :: "json \<Rightarrow> string list" where
  "read_texts v = (case v of JList vs \<Rightarrow> map (\<lambda>x. case x of JStr s \<Rightarrow> s | _ \<Rightarrow> []) vs | _ \<Rightarrow> [])"

lemma served_aggregate:
  assumes "text_or_null t" "text_or_null a" "text_or_null channel" "text_or_null start" "text_or_null end'"
    and "ex = JNull \<or> (\<exists>ss. ex = JList (map JStr ss))"
  shows "rag_aggregate (serve w coerced) t a channel start end' (JStr grp) (JInt n) whole ex =
    degrade (Answer (aggregate_endpoint w (read_text t) (read_text a) (read_text channel) (read_text start)
      (read_text end') grp n whole (read_texts ex)))"
  using assms unfolding text_or_null_def
  by (elim disjE exE)
    (simp_all add: rag_aggregate_def rag_post_def serve_def serve_aggregate_def num_field_def opt_str_def str_field_def
      bool_field_def list_field_def dget_def read_text_def read_texts_def mapE_str_items comp_def)

section \<open>What a conforming call hands to the client\<close>

lemma conforms_text: "conforms z args \<Longrightarrow> map_of (z_params z) k = Some PString \<Longrightarrow> text_or_null (dget args k JNull)"
  using conforms_get [of z args k PString JNull] by (auto simp: text_or_null_def)

lemma conforms_required:
  "conforms z args \<Longrightarrow> map_of (z_params z) k = Some PString \<Longrightarrow> k \<in> set (z_required z) \<Longrightarrow> \<exists>s. dget args k v0 = JStr s"
  using conforms_get [of z args k PString v0] by auto

lemma conforms_int: "conforms z args \<Longrightarrow> map_of (z_params z) k = Some PInteger \<Longrightarrow> \<exists>i. dget args k (JInt d) = JInt i"
  using conforms_get [of z args k PInteger "JInt d"] by auto

lemma conforms_enum:
  "conforms z args \<Longrightarrow> map_of (z_params z) k = Some (PEnum es) \<Longrightarrow> \<exists>s\<in>insert d (set es). or_else (dget args k JNull) (JStr d) = JStr s"
  using conforms_get [of z args k "PEnum es" JNull] by (auto simp: or_else_def)

lemma conforms_strings:
  "conforms z args \<Longrightarrow> map_of (z_params z) k = Some PStrings \<Longrightarrow>
   dget args k JNull = JNull \<or> (\<exists>ss. dget args k JNull = JList (map JStr ss))"
  using conforms_get [of z args k PStrings JNull] by (auto simp: has_type_strings simp del: has_type.simps)

lemma text_or_else: "text_or_null v \<Longrightarrow> text_or_null (or_else v JNull)"
  by (auto simp: text_or_null_def or_else_def)

lemma excluded_texts:
  assumes "v = JNull \<or> (\<exists>ss. v = JList (map JStr ss))" shows "\<exists>xs. excluded_channels v = Inr xs"
proof -
  have m: "\<exists>xs. mapE bare_channel (map JStr ss) = Inr xs" for ss
    by (induction ss) (auto simp: bindE_def bare_channel_def as_str_def)
  have "\<exists>ss. or_else v (JList []) = JList (map JStr ss)" using assms by (auto simp: or_else_def intro: exI [of _ "[]"])
  then obtain ss where "or_else v (JList []) = JList (map JStr ss)" by blast
  moreover obtain xs where "mapE bare_channel (map JStr ss) = Inr xs" using m by blast
  ultimately show ?thesis by (simp add: excluded_channels_def as_items_def bindE_def)
qed

section \<open>Tool by tool\<close>

text \<open>The handler's answer does not depend on what the framework does with a body of other types.\<close>

definition settled :: "(post \<Rightarrow> string result) \<Rightarrow> chroma \<Rightarrow> bool" where
  "settled run w \<longleftrightarrow> (\<exists>out. \<forall>coerced. run (serve w coerced) = Inr out)"

lemma settled_if: "\<exists>out. \<forall>coerced. (if b then Inr x else Inr y) = Inr out"
  by auto

lemma settled_discord:
  assumes "conforms (TOOLS ! 0) args" and c: "text_or_null (dget args ''channel_name'' JNull)"
  shows "settled (\<lambda>p. search_discord_history p rep args) w"
proof -
  note z = tools
  obtain q where q: "dget args ''query'' (JStr []) = JStr q" using conforms_required [OF assms(1), of "''query''"] by (auto simp: z)
  obtain k where k: "dget args ''top_k'' (JInt AGENT_TOP_K) = JInt k" using conforms_int [OF assms(1), of "''top_k''"] by (auto simp: z)
  have t: "text_or_null (dget args ''start_date'' JNull)" "text_or_null (dget args ''end_date'' JNull)"
    "text_or_null (or_else (dget args ''channel_name'' JNull) JNull)"
    using conforms_text [OF assms(1)] text_or_else [OF c] by (auto simp: z)
  show ?thesis unfolding settled_def search_discord_history_def Let_def q k
    by (simp add: served_retrieve [OF t(3,1,2)] case_prod_unfold)
qed

lemma settled_channel:
  assumes "conforms (TOOLS ! 1) args" shows "settled (\<lambda>p. search_channel_history p rep args) w"
proof -
  note z = tools
  obtain q where q: "dget args ''query'' (JStr []) = JStr q" using conforms_required [OF assms, of "''query''"] by (auto simp: z)
  obtain c where c: "dget args ''channel_name'' (JStr []) = JStr c" using conforms_required [OF assms, of "''channel_name''"] by (auto simp: z)
  obtain k where k: "dget args ''top_k'' (JInt AGENT_TOP_K) = JInt k" using conforms_int [OF assms, of "''top_k''"] by (auto simp: z)
  have t: "text_or_null (dget args ''start_date'' JNull)" "text_or_null (dget args ''end_date'' JNull)" "text_or_null (JStr c)"
    using conforms_text [OF assms] by (auto simp: z text_or_null_def)
  show ?thesis unfolding settled_def search_channel_history_def Let_def q c k
    by (simp add: served_retrieve [OF t(3,1,2)] case_prod_unfold)
qed

lemma settled_summary:
  assumes "conforms (TOOLS ! 2) args" shows "settled (\<lambda>p. summarize_channel p rep args) w"
proof -
  note z = tools
  obtain c where c: "dget args ''channel_name'' (JStr []) = JStr c" using conforms_required [OF assms, of "''channel_name''"] by (auto simp: z)
  obtain k where k: "dget args ''top_k'' (JInt 20) = JInt k" using conforms_int [OF assms, of "''top_k''"] by (auto simp: z)
  have t: "text_or_null (dget args ''start_date'' JNull)" "text_or_null (dget args ''end_date'' JNull)" "text_or_null (JStr c)"
    using conforms_text [OF assms] by (auto simp: z text_or_null_def)
  show ?thesis unfolding settled_def summarize_channel_def Let_def c k
    by (simp add: served_retrieve [OF t(3,1,2)] case_prod_unfold)
qed

lemma settled_exact:
  assumes "conforms (TOOLS ! 3) args" shows "settled (\<lambda>p. search_exact_chronological p rep args) w"
proof -
  note z = tools
  obtain ord where o: "or_else (dget args ''order'' JNull) (JStr ''earliest'') = JStr ord"
    using conforms_enum [OF assms, of "''order''"] by (force simp: z)
  obtain k where k: "dget args ''limit'' (JInt 20) = JInt k" using conforms_int [OF assms, of "''limit''"] by (auto simp: z)
  have t: "text_or_null (or_else (dget args ''term'' JNull) JNull)" "text_or_null (or_else (dget args ''author'' JNull) JNull)"
    "text_or_null (dget args ''channel_name'' JNull)" "text_or_null (dget args ''start_date'' JNull)"
    "text_or_null (dget args ''end_date'' JNull)"
    using conforms_text [OF assms] by (auto simp: z intro!: text_or_else)
  show ?thesis unfolding settled_def search_exact_chronological_def Let_def o k served_literal [OF t] case_prod_unfold
    by (rule settled_if)
qed

lemma settled_count:
  assumes "conforms (TOOLS ! 4) args" shows "settled (\<lambda>p. count_messages p rep args) w"
proof -
  note z = tools
  obtain grp where g: "or_else (dget args ''group_by'' JNull) (JStr ''author'') = JStr grp"
    using conforms_enum [OF assms, of "''group_by''"] by (force simp: z)
  obtain n where n: "dget args ''top_n'' (JInt 25) = JInt n" using conforms_int [OF assms, of "''top_n''"] by (auto simp: z)
  obtain xs where x: "excluded_channels (dget args ''exclude_channels'' JNull) = Inr xs"
    using excluded_texts conforms_strings [OF assms, of "''exclude_channels''"] by (auto simp: z)
  have t: "text_or_null (or_else (dget args ''term'' JNull) JNull)" "text_or_null (or_else (dget args ''author'' JNull) JNull)"
    "text_or_null (dget args ''channel_name'' JNull)" "text_or_null (dget args ''start_date'' JNull)"
    "text_or_null (dget args ''end_date'' JNull)"
    using conforms_text [OF assms] by (auto simp: z intro!: text_or_else)
  have e: "(if xs = [] then JNull else JList (map JStr xs)) = JNull \<or> (\<exists>ss. (if xs = [] then JNull else JList (map JStr xs)) = JList (map JStr ss))"
    by auto
  show ?thesis unfolding settled_def count_messages_def Let_def g n x bindE_def sum.case served_aggregate [OF t e]
    by (rule exI, rule allI) (simp add: case_prod_unfold)
qed

section \<open>Advertised tools work\<close>

text \<open>A literal search that names neither a term nor an author conforms too; the tool answers it itself.\<close>

lemma exact_search_of_nothing:
  "conforms (TOOLS ! 3) [] \<and> (\<exists>out. \<forall>post. search_exact_chronological post rep [] = Inr out)"
  by (simp add: conforms_def tools search_exact_chronological_def dget_def or_else_def Let_def)

text \<open>
  C37: What the model is told it may call, it can call. A name is handled when and only when a schema
  advertises it. A call whose arguments conform to that schema, and whose \<open>channel_name\<close>, the one parameter a handler
  reads that its schema may not list, is a text if it is there at all, is answered without an exception; and
  whatever it sends to the service has the types the request model asks for: the answer does not depend on what
  the framework would make of a body of other types.
\<close>

theorem advertised_tools_work:
  assumes "z \<in> set TOOLS" and "conforms z args" and "text_or_null (dget args ''channel_name'' JNull)"
  shows "(HANDLERS post rep name \<noteq> None \<longleftrightarrow> name \<in> z_name ` set TOOLS)
    \<and> (\<exists>out. \<forall>coerced h. HANDLERS (serve w coerced) rep (z_name z) = Some h \<longrightarrow> h args = Inr out)"
proof
  show "HANDLERS post rep name \<noteq> None \<longleftrightarrow> name \<in> z_name ` set TOOLS" by (auto simp: HANDLERS_def tools)
  have "set TOOLS = {TOOLS ! 0, TOOLS ! 1, TOOLS ! 2, TOOLS ! 3, TOOLS ! 4}" by (simp add: tools)
  then consider "z = TOOLS ! 0" | "z = TOOLS ! 1" | "z = TOOLS ! 2" | "z = TOOLS ! 3" | "z = TOOLS ! 4" using assms(1) by blast
  then have "\<exists>out. \<forall>coerced. \<exists>h. HANDLERS (serve w coerced) rep (z_name z) = Some h \<and> h args = Inr out"
  proof cases
    case 1 then show ?thesis using settled_discord [OF _ assms(3)] assms(2) by (simp add: settled_def HANDLERS_def) (simp add: tools)
  next
    case 2 then show ?thesis using settled_channel assms(2) by (simp add: settled_def HANDLERS_def) (simp add: tools)
  next
    case 3 then show ?thesis using settled_summary assms(2) by (simp add: settled_def HANDLERS_def) (simp add: tools)
  next
    case 4 then show ?thesis using settled_exact assms(2) by (simp add: settled_def HANDLERS_def) (simp add: tools)
  next
    case 5 then show ?thesis using settled_count assms(2) by (simp add: settled_def HANDLERS_def) (simp add: tools)
  qed
  then show "\<exists>out. \<forall>coerced h. HANDLERS (serve w coerced) rep (z_name z) = Some h \<longrightarrow> h args = Inr out" by (metis option.inject)
qed

theorem advertised_tools_work_witness:
  "\<exists>out. \<forall>coerced h. HANDLERS (serve example_chroma coerced) (\<lambda>v. ''?'') ''count_messages'' = Some h \<longrightarrow>
     h [(''term'', JStr ''oink''), (''group_by'', JStr ''month''), (''exclude_channels'', JList [JStr ''#log''])] = Inr out"
proof -
  let ?args = "[(''term'', JStr ''oink''), (''group_by'', JStr ''month''), (''exclude_channels'', JList [JStr ''#log''])]"
  have "TOOLS ! 4 \<in> set TOOLS" "z_name (TOOLS ! 4) = ''count_messages''" by (simp_all add: tools)
  moreover have "conforms (TOOLS ! 4) ?args" by code_simp
  moreover have "text_or_null (dget ?args ''channel_name'' JNull)" by (simp add: text_or_null_def dget_def)
  ultimately show ?thesis using advertised_tools_work [where z = "TOOLS ! 4" and args = ?args and w = example_chroma and rep = "\<lambda>v. ''?''"] by simp
qed

text \<open>
  The search over all channels does not list a channel, so the schema allows any value there. The handler takes
  it all the same: a text as the channel to search, and a number goes out as it is, in a body the service's
  request model does not take.
\<close>

lemma undeclared_channel_used:
  "conforms (TOOLS ! 0) [(''query'', JStr q), (''channel_name'', JStr c)]
   \<and> search_discord_history (serve w coerced) rep [(''query'', JStr q), (''channel_name'', JStr c)]
     = search_discord_history (\<lambda>path d. Answer (retrieve_endpoint w q AGENT_TOP_K (if c = [] then None else Some c) None None)) rep
         [(''query'', JStr q), (''channel_name'', JStr c)]"
proof
  show "conforms (TOOLS ! 0) [(''query'', JStr q), (''channel_name'', JStr c)]" by (simp add: conforms_def tools)
  have "rag_retrieve (serve w coerced) (JStr q) (JInt AGENT_TOP_K) (or_else (JStr c) JNull) JNull JNull
      = degrade (Answer (retrieve_endpoint w q AGENT_TOP_K (if c = [] then None else Some c) None None))"
    by (subst served_retrieve) (auto simp: text_or_null_def or_else_def sent_text_def read_text_def)
  then show "search_discord_history (serve w coerced) rep [(''query'', JStr q), (''channel_name'', JStr c)]
     = search_discord_history (\<lambda>path d. Answer (retrieve_endpoint w q AGENT_TOP_K (if c = [] then None else Some c) None None)) rep
         [(''query'', JStr q), (''channel_name'', JStr c)]"
    by (simp add: search_discord_history_def Let_def dget_def) (simp add: rag_retrieve_def)
qed

lemma numeric_channel_sent:
  "conforms (TOOLS ! 0) [(''query'', JStr q), (''channel_name'', JInt 7)]
   \<and> \<not> settled (\<lambda>p. search_discord_history p rep [(''query'', JStr q), (''channel_name'', JInt 7)]) w"
proof
  show "conforms (TOOLS ! 0) [(''query'', JStr q), (''channel_name'', JInt 7)]" by (simp add: conforms_def tools)
  have "search_discord_history (serve w (\<lambda>path d. Answer (Found c 1))) rep [(''query'', JStr q), (''channel_name'', JInt 7)] = Inr c" for c
    by (simp add: search_discord_history_def Let_def dget_def or_else_def rag_retrieve_def serve_def serve_retrieve_def
        num_field_def opt_str_def degrade_def)
  from this [of "''a''"] this [of "''b''"]
  show "\<not> settled (\<lambda>p. search_discord_history p rep [(''query'', JStr q), (''channel_name'', JInt 7)]) w"
    unfolding settled_def by fastforce
qed

end
