(* ===== verification/Archive_Files.thy ===== *)
theory Archive_Files
  imports Jsonl_Store
begin

text \<open>
  The archive directory under \<open>history-service/jsonl_store.py\<close>: \<open>_write_atomically\<close> call by call. Each
  call may raise an \<open>OSError\<close>, and the process may be killed between any two of them, so whatever holds
  after every run of events holds at every such moment. What a write leaves in the temporary file before it
  is closed is arbitrary. A loss of power is not modelled: the code does not force anything to the disk.
\<close>

section \<open>The directory\<close>

record dir_file =
  df_lines :: "line list"
  df_mode :: nat

type_synonym directory = "(string \<times> dir_file) list"

definition user_file_path :: "string \<Rightarrow> string" where
  "user_file_path u = u @ ''.jsonl''"

text \<open>\<open>mkstemp\<close> with that prefix and suffix; it takes a name that does not exist.\<close>

definition temp_path :: "string \<Rightarrow> string \<Rightarrow> string" where
  "temp_path u random = user_file_path u @ random @ ''.tmp''"

definition get_all_user_ids :: "directory \<Rightarrow> string list" where
  "get_all_user_ids d = map (\<lambda>n. take (length n - 6) n) (filter (\<lambda>n. ends_with n ''.jsonl'') (dkeys d))"

section \<open>Writing\<close>

text \<open>A call succeeds or raises; for a write also what is in the file afterwards.\<close>

datatype call = Goes "line list" | Raises

datatype writer = PMk | PWrite nat | PStat | PChmod nat | PReplace | PUnlink | PDone | PFailed

definition write_step ::
  "string \<Rightarrow> string \<Rightarrow> jobj list \<Rightarrow> call \<Rightarrow> writer \<times> directory \<Rightarrow> writer \<times> directory" where
  "write_step path tmp rs e st =
     (case st of (pc, d) \<Rightarrow>
       (case pc of
          PMk \<Rightarrow>
            (case e of Goes ls \<Rightarrow> (PWrite 0, dset tmp \<lparr>df_lines = [], df_mode = 384\<rparr> d) | Raises \<Rightarrow> (PFailed, d))
        | PWrite i \<Rightarrow>
            (case e of
               Goes ls \<Rightarrow>
                 if i < length rs then (PWrite (Suc i), dset tmp \<lparr>df_lines = ls, df_mode = 384\<rparr> d)
                 else (PStat, dset tmp \<lparr>df_lines = map Rec rs, df_mode = 384\<rparr> d)
             | Raises \<Rightarrow> (PUnlink, d))
        | PStat \<Rightarrow>
            (case e of
               Goes ls \<Rightarrow> (PChmod (case map_of d path of None \<Rightarrow> 420 | Some f \<Rightarrow> df_mode f), d)
             | Raises \<Rightarrow> (PUnlink, d))
        | PChmod m \<Rightarrow>
            (case e of
               Goes ls \<Rightarrow> (PReplace, case map_of d tmp of None \<Rightarrow> d | Some f \<Rightarrow> dset tmp (f\<lparr>df_mode := m\<rparr>) d)
             | Raises \<Rightarrow> (PUnlink, d))
        | PReplace \<Rightarrow>
            (case e of
               Goes ls \<Rightarrow> (PDone, case map_of d tmp of None \<Rightarrow> d | Some f \<Rightarrow> dset path f (dpop tmp d))
             | Raises \<Rightarrow> (PUnlink, d))
        | PUnlink \<Rightarrow> (PFailed, case e of Goes ls \<Rightarrow> dpop tmp d | Raises \<Rightarrow> d)
        | PDone \<Rightarrow> st
        | PFailed \<Rightarrow> st))"

section \<open>The archive in the directory\<close>

definition archive_of :: "directory \<Rightarrow> (string \<times> string list) list \<Rightarrow> store" where
  "archive_of d cache =
     \<lparr>st_files = map (\<lambda>(n, f). (take (length n - 6) n, df_lines f)) (filter (\<lambda>(n, f). ends_with n ''.jsonl'') d),
      st_cache = cache\<rparr>"

lemma user_path_eq: "ends_with n ''.jsonl'' \<Longrightarrow> n = user_file_path (take (length n - 6) n)"
  by (auto simp: ends_with_def user_file_path_def suffix_def)

lemma user_path_inj: "user_file_path u = user_file_path v \<longleftrightarrow> u = v"
  by (simp add: user_file_path_def)

lemma file_of_archive:
  "file_of v (archive_of d cache) = (case map_of d (user_file_path v) of None \<Rightarrow> [] | Some f \<Rightarrow> df_lines f)"
proof -
  have e: "ends_with (user_file_path v) ''.jsonl''" by (simp add: ends_with_def user_file_path_def suffix_def)
  have "map_of (map (\<lambda>(n, f). (take (length n - 6) n, df_lines f)) (filter (\<lambda>(n, f). ends_with n ''.jsonl'') d)) v
      = map_option df_lines (map_of d (user_file_path v))"
  proof (induction d)
    case (Cons nf d)
    obtain n f where nf: "nf = (n, f)" by (cases nf)
    have "take (length n - 6) n = v \<longleftrightarrow> n = user_file_path v" if "ends_with n ''.jsonl''"
      using user_path_eq [OF that] user_path_inj by metis
    then show ?case using Cons e nf by auto
  qed simp
  then show ?thesis by (simp add: file_of_def archive_of_def dget_def split: option.splits)
qed

lemma temp_not_user: "temp_path u random \<noteq> user_file_path v"
proof
  assume "temp_path u random = user_file_path v"
  then have "rev (temp_path u random) = rev (user_file_path v)" by simp
  then show False by (simp add: temp_path_def user_file_path_def)
qed

lemma temp_no_user: "\<not> ends_with (temp_path u random) ''.jsonl''"
  using user_path_eq temp_not_user by blast

section \<open>At every moment\<close>

definition kept_mode :: "directory \<Rightarrow> string \<Rightarrow> nat" where
  "kept_mode d path = (case map_of d path of None \<Rightarrow> 420 | Some f \<Rightarrow> df_mode f)"

definition write_inv :: "directory \<Rightarrow> string \<Rightarrow> string \<Rightarrow> jobj list \<Rightarrow> writer \<times> directory \<Rightarrow> bool" where
  "write_inv d0 path tmp rs st \<longleftrightarrow>
     (case st of (pc, d) \<Rightarrow>
        (\<forall>n. n \<noteq> path \<and> n \<noteq> tmp \<longrightarrow> map_of d n = map_of d0 n)
        \<and> map_of d path = (if pc = PDone then Some \<lparr>df_lines = map Rec rs, df_mode = kept_mode d0 path\<rparr> else map_of d0 path)
        \<and> (case pc of
             PMk \<Rightarrow> map_of d tmp = None
           | PStat \<Rightarrow> map_of d tmp = Some \<lparr>df_lines = map Rec rs, df_mode = 384\<rparr>
           | PChmod m \<Rightarrow> map_of d tmp = Some \<lparr>df_lines = map Rec rs, df_mode = 384\<rparr> \<and> m = kept_mode d0 path
           | PReplace \<Rightarrow> map_of d tmp = Some \<lparr>df_lines = map Rec rs, df_mode = kept_mode d0 path\<rparr>
           | PDone \<Rightarrow> map_of d tmp = None
           | _ \<Rightarrow> True))"

lemma write_step_inv:
  assumes "path \<noteq> tmp" "write_inv d0 path tmp rs st" shows "write_inv d0 path tmp rs (write_step path tmp rs e st)"
proof -
  obtain pc d where st: "st = (pc, d)" by (cases st)
  show ?thesis using assms unfolding st
    by (cases pc; cases e) (auto simp: write_inv_def write_step_def kept_mode_def)
qed

interpretation archive_write: machine "write_step (user_file_path u) (temp_path u random) rs"
  "write_inv d0 (user_file_path u) (temp_path u random) rs" "\<lambda>st. st = (PMk, d0) \<and> map_of d0 (temp_path u random) = None"
  for u random rs d0
proof unfold_locales
  fix st assume "st = (PMk, d0) \<and> map_of d0 (temp_path u random) = None"
  then show "write_inv d0 (user_file_path u) (temp_path u random) rs st" by (simp add: write_inv_def)
next
  fix st e assume "write_inv d0 (user_file_path u) (temp_path u random) rs st"
  then show "write_inv d0 (user_file_path u) (temp_path u random) rs (write_step (user_file_path u) (temp_path u random) rs e st)"
    by (intro write_step_inv) (use temp_not_user [of u random u] in auto)
qed

lemma user_ids_of: "set (get_all_user_ids d) = {u. map_of d (user_file_path u) \<noteq> None}"
proof -
  have "u \<in> set (get_all_user_ids d) \<longleftrightarrow> user_file_path u \<in> fst ` set d" for u
  proof -
    have "u = take (length n - 6) n \<longleftrightarrow> n = user_file_path u" if "ends_with n ''.jsonl''" for n
      using user_path_eq [OF that] user_path_inj by metis
    moreover have "ends_with (user_file_path u) ''.jsonl''" by (simp add: ends_with_def user_file_path_def suffix_def)
    ultimately show ?thesis unfolding get_all_user_ids_def dkeys_def by force
  qed
  then show ?thesis by (auto simp: map_of_eq_None_iff)
qed

text \<open>
  C38: A rewrite is atomic. At every moment of it, wherever a call raises or the process is killed, every
  user's archive reads as before, or, once the writer is done and only then, as the whole new archive for
  the one user: no reader ever sees a part. The temporary file is never taken for a user's, it is gone when
  the writer is done, and the archive keeps its mode, or gets 644 when it is new.
\<close>

theorem rewrite_is_atomic:
  fixes u random rs d0 es
  defines "path \<equiv> user_file_path u" and "tmp \<equiv> temp_path u random"
  assumes "map_of d0 tmp = None" and "fold (write_step path tmp rs) es (PMk, d0) = (pc, d)"
  shows "(\<forall>v. file_of v (archive_of d cache) = file_of v (rewrite_archive u rs (pc = PDone) (archive_of d0 cache)))
    \<and> set (get_all_user_ids d) = set (get_all_user_ids d0) \<union> (if pc = PDone then {u} else {})
    \<and> (pc = PDone \<longrightarrow> map_of d tmp = None \<and> map_option df_mode (map_of d path) = Some (kept_mode d0 path))"
proof -
  have i: "write_inv d0 path tmp rs (pc, d)"
    using archive_write.run_inv [of "(PMk, d0)" d0 u random rs es] assms(3,4) by (simp add: path_def tmp_def)
  have v: "map_of d (user_file_path v) = (if v = u \<and> pc = PDone
      then Some \<lparr>df_lines = map Rec rs, df_mode = kept_mode d0 path\<rparr> else map_of d0 (user_file_path v))" for v
    using i temp_not_user [of u random v] user_path_inj [of v u] by (auto simp: write_inv_def path_def tmp_def)
  show ?thesis
  proof (intro conjI)
    show "\<forall>v. file_of v (archive_of d cache) = file_of v (rewrite_archive u rs (pc = PDone) (archive_of d0 cache))"
      by (auto simp: file_of_rewrite file_of_archive v)
    show "set (get_all_user_ids d) = set (get_all_user_ids d0) \<union> (if pc = PDone then {u} else {})"
      by (auto simp: user_ids_of v split: if_splits)
    show "pc = PDone \<longrightarrow> map_of d tmp = None \<and> map_option df_mode (map_of d path) = Some (kept_mode d0 path)"
      using i v [of u] by (auto simp: write_inv_def path_def)
  qed
qed

definition two_files :: directory where
  "two_files = [(''1.jsonl'', \<lparr>df_lines = [Rec [(''message_id'', JStr ''a'')], Torn], df_mode = 436\<rparr>),
                (''2.jsonl'', \<lparr>df_lines = [Rec [(''message_id'', JStr ''b'')]], df_mode = 420\<rparr>)]"

theorem rewrite_is_atomic_witness:
  "(let st = fold (write_step (user_file_path ''1'') (temp_path ''1'' ''x7'') [[]]) [Goes [], Goes [Torn]] (PMk, two_files)
    in fst st = PWrite 1 \<and> map_of (snd st) (temp_path ''1'' ''x7'') \<noteq> None
       \<and> file_of ''1'' (archive_of (snd st) []) = file_of ''1'' (archive_of two_files []))
   \<and> (let st = fold (write_step (user_file_path ''1'') (temp_path ''1'' ''x7'') [[]]) (replicate 6 (Goes [])) (PMk, two_files)
      in fst st = PDone \<and> file_of ''1'' (archive_of (snd st) []) = [Rec []]
         \<and> map_option df_mode (map_of (snd st) ''1.jsonl'') = Some 436)"
proof -
  let ?run = "\<lambda>es. fold (write_step (user_file_path ''1'') (temp_path ''1'' ''x7'') [[]]) es (PMk, two_files)"
  have t: "map_of two_files (temp_path ''1'' ''x7'') = None" by code_simp
  obtain pc d where a: "?run [Goes [], Goes [Torn]] = (pc, d)" by (cases "?run [Goes [], Goes [Torn]]")
  have "fst (?run [Goes [], Goes [Torn]]) = PWrite 1 \<and> map_of (snd (?run [Goes [], Goes [Torn]])) (temp_path ''1'' ''x7'') \<noteq> None"
    by code_simp
  then have a': "pc = PWrite 1" "map_of d (temp_path ''1'' ''x7'') \<noteq> None" unfolding a by simp_all
  obtain pc2 d2 where b: "?run (replicate 6 (Goes [])) = (pc2, d2)" by (cases "?run (replicate 6 (Goes []))")
  have "fst (?run (replicate 6 (Goes []))) = PDone" by code_simp
  then have b': "pc2 = PDone" unfolding b by simp
  have m: "kept_mode two_files (user_file_path ''1'') = 436" by code_simp
  have p: "user_file_path ''1'' = ''1.jsonl''" by (simp add: user_file_path_def)
  show ?thesis
    using rewrite_is_atomic [OF t a, of "[]"] rewrite_is_atomic [OF t b, of "[]"] a' b' m
    unfolding a b Let_def by (simp add: file_of_rewrite p)
qed

text \<open>The writer ends, after one call for each record and at most six more; only a call that raised keeps it from being done.\<close>

fun calls_left :: "nat \<Rightarrow> writer \<Rightarrow> nat" where
  "calls_left n PMk = n + 6"
| "calls_left n (PWrite i) = n - i + 5"
| "calls_left n PStat = 4"
| "calls_left n (PChmod m) = 3"
| "calls_left n PReplace = 2"
| "calls_left n PUnlink = 1"
| "calls_left n PDone = 0"
| "calls_left n PFailed = 0"

lemma step_calls_left:
  "calls_left (length rs) (fst (write_step path tmp rs e st)) \<le> calls_left (length rs) (fst st) - 1
   \<and> (e \<noteq> Raises \<and> fst st \<notin> {PUnlink, PFailed} \<longrightarrow> fst (write_step path tmp rs e st) \<notin> {PUnlink, PFailed})"
  by (cases st; cases "fst st"; cases e) (auto simp: write_step_def)

lemma run_calls_left:
  "calls_left (length rs) (fst (fold (write_step path tmp rs) es st)) \<le> calls_left (length rs) (fst st) - length es
   \<and> (Raises \<notin> set es \<and> fst st \<notin> {PUnlink, PFailed} \<longrightarrow> fst (fold (write_step path tmp rs) es st) \<notin> {PUnlink, PFailed})"
proof (induction es arbitrary: st)
  case (Cons e es)
  show ?case using Cons [of "write_step path tmp rs e st"] step_calls_left [of rs path tmp e st] by auto
qed simp

lemma write_ends:
  assumes "length rs + 6 \<le> length es"
  shows "Raises \<notin> set es \<Longrightarrow> fst (fold (write_step path tmp rs) es (PMk, d)) = PDone"
    "fst (fold (write_step path tmp rs) es (PMk, d)) \<in> {PDone, PFailed}"
proof -
  let ?pc = "fst (fold (write_step path tmp rs) es (PMk, d))"
  have "calls_left (length rs) ?pc = 0" using run_calls_left [of rs path tmp es "(PMk, d)"] assms by simp
  then show e: "?pc \<in> {PDone, PFailed}" by (cases ?pc) auto
  have "Raises \<notin> set es \<longrightarrow> ?pc \<notin> {PUnlink, PFailed}" using run_calls_left [of rs path tmp es "(PMk, d)"] by simp
  then show "Raises \<notin> set es \<Longrightarrow> ?pc = PDone" using e by auto
qed

section \<open>What goes wrong before the write\<close>

text \<open>
  A read that fails half way is taken for the whole archive: the records that were read are brought up to
  date and written back, and the rest of the file is gone, atomically.
\<close>

lemma failed_read_truncates:
  "let r = (\<lambda>i. Rec [(''message_id'', JStr i), (''content'', JStr ''old'')]);
       s = \<lparr>st_files = [(''1'', [r ''a'', r ''b'', r ''c''])], st_cache = []\<rparr>;
       parsed = [[(''message_id'', JStr ''a''), (''content'', JStr ''new'')]];
       s' = fst (refresh_fields ''1'' parsed [''content''] (Some 1) True s)
   in file_of ''1'' s' = [Rec [(''message_id'', JStr ''a''), (''content'', JStr ''new'')]]"
  by code_simp

section \<open>Clearing\<close>

text \<open>\<open>clear_all\<close> over the directory; \<open>stuck\<close> are the files that cannot be deleted.\<close>

definition clear_files :: "string set \<Rightarrow> directory \<Rightarrow> directory \<times> nat" where
  "clear_files stuck d =
     (filter (\<lambda>(n, f). \<not> ends_with n ''.jsonl'' \<or> n \<in> stuck) d,
      length (filter (\<lambda>(n, f). ends_with n ''.jsonl'' \<and> n \<notin> stuck) d))"

lemma clear_files_exact:
  "set (get_all_user_ids (fst (clear_files stuck d))) = {u \<in> set (get_all_user_ids d). user_file_path u \<in> stuck}
   \<and> snd (clear_files stuck d) + length (get_all_user_ids (fst (clear_files stuck d))) = length (get_all_user_ids d)"
proof
  have e: "ends_with (user_file_path u) ''.jsonl''" for u by (simp add: ends_with_def user_file_path_def suffix_def)
  have "user_file_path u \<in> fst ` set (fst (clear_files stuck d)) \<longleftrightarrow> user_file_path u \<in> fst ` set d \<and> user_file_path u \<in> stuck" for u
    by (force simp: clear_files_def e)
  then show "set (get_all_user_ids (fst (clear_files stuck d))) = {u \<in> set (get_all_user_ids d). user_file_path u \<in> stuck}"
    by (simp add: user_ids_of map_of_eq_None_iff)
  show "snd (clear_files stuck d) + length (get_all_user_ids (fst (clear_files stuck d))) = length (get_all_user_ids d)"
    by (induction d) (auto simp: clear_files_def get_all_user_ids_def dkeys_def)
qed

end
