(* ===== verification/Service_Status.thy ===== *)
theory Service_Status
  imports Arbiter_Properties Proxy_Main History_Service
begin

text \<open>
  What the services tell about themselves, and who believes it: \<open>Scheduler.snapshot\<close> with the arbiter's
  \<open>/gpu/status\<close> and \<open>/metrics\<close>, the proxy's \<open>/status\<close>, and the caption job of the history service, which
  asks the latter before it starts. Texts that only a person reads (the driver's description, the
  wording of a reason) are left as they are in the state; rounding for display is a parameter.
\<close>

section \<open>The arbiter\<close>

definition HOLDER_NONE :: string where "HOLDER_NONE = ''none''"

definition holder_name :: "sched \<Rightarrow> string" where
  "holder_name s = (case s_holder s of None \<Rightarrow> HOLDER_NONE | Some h \<Rightarrow> if h = [] then HOLDER_NONE else h)"

record snap =
  sn_holder :: string
  sn_reason :: reason
  sn_free :: "int option"
  sn_jobs :: "(string \<times> kind \<times> int \<times> int) list"

definition snapshot :: "sched \<Rightarrow> snap" where
  "snapshot s =
     \<lparr>sn_holder = holder_name s, sn_reason = s_reason s, sn_free = free_mb s,
      sn_jobs = map (\<lambda>j. (jname j, jkind j, jpriority j, jrequired_mb j)) (s_jobs s)\<rparr>"

text \<open>The gauges: one series for the holder, and the free memory as it was last read.\<close>

record arb_gauges =
  ag_holder :: "(string \<times> int) list"
  ag_free :: int

definition arbiter_metrics :: "snap \<Rightarrow> arb_gauges \<Rightarrow> arb_gauges" where
  "arbiter_metrics sn g =
     \<lparr>ag_holder = [(sn_holder sn, 1)], ag_free = (case sn_free sn of None \<Rightarrow> ag_free g | Some f \<Rightarrow> f)\<rparr>"

text \<open>
  A job that was stopped is still named. The video job takes the card from the trainer, finds too little
  memory, and is refused; the trainer's lease is gone, and until the reaper's next turn the status says
  that the trainer holds the card.
\<close>

lemma status_names_stopped_job:
  "let s = sched_run [Acquire ''trainer'' None, Gpu (Some 8192) (Some 8000), Acquire ''video'' None, Resume (AUp True),
        Resume AKilled, Resume (AUp False), Resume AKilled, Resume (AUp False), Tick 1, Resume AWake] (scheduler_init example_jobs)
   in sn_holder (snapshot s) = ''trainer'' \<and> sn_reason (snapshot s) = NeedsMb ''video'' 4096 192
      \<and> \<not> rheld (rec_of s ''trainer'') \<and> s_owner s = Free"
  by code_simp

text \<open>A driver that stops answering leaves the gauge at the last reading.\<close>

lemma free_gauge_stale:
  "ag_free (arbiter_metrics (snapshot (s\<lparr>s_used := None\<rparr>)) (arbiter_metrics (snapshot s) g)) = ag_free (arbiter_metrics (snapshot s) g)"
  by (simp add: arbiter_metrics_def snapshot_def free_mb_def split: option.splits)

section \<open>The proxy\<close>

definition time_since_swap :: "proxy \<Rightarrow> real option" where
  "time_since_swap s = (case p_last_swap s of None \<Rightarrow> None | Some t \<Rightarrow> Some (p_now s - t))"

definition proxy_status :: "(real \<Rightarrow> real) \<Rightarrow> proxy \<Rightarrow> json" where
  "proxy_status round1 s =
     JObj [(''current_model'', case p_current s of None \<Rightarrow> JNull | Some m \<Rightarrow> m),
           (''queue_depth'', JInt (int (p_depth s))), (''llm_inflight'', JInt (int (p_inflight s))),
           (''model_loaded_seconds_ago'', case time_since_swap s of None \<Rightarrow> JNull | Some t \<Rightarrow> JReal (round1 t))]"

text \<open>The gauges of \<open>/metrics\<close>; the model and the two ages only when there is one.\<close>

record proxy_gauges =
  pg_depth :: int
  pg_inflight :: int
  pg_model :: "(json \<times> int) list"
  pg_idle :: real
  pg_age :: real

definition proxy_metrics :: "proxy \<Rightarrow> proxy_gauges \<Rightarrow> proxy_gauges" where
  "proxy_metrics s g =
     \<lparr>pg_depth = int (p_depth s), pg_inflight = int (p_inflight s),
      pg_model = (case p_current s of None \<Rightarrow> [] | Some m \<Rightarrow> if truthy m then [(m, 1)] else []),
      pg_idle = (case Proxy_Main.idle_seconds s of None \<Rightarrow> pg_idle g | Some t \<Rightarrow> t),
      pg_age = (case time_since_swap s of None \<Rightarrow> pg_age g | Some t \<Rightarrow> t)\<rparr>"

section \<open>The caption job asks the proxy\<close>

text \<open>A batch whose question to the proxy is answered by its status in the state \<open>p\<close>.\<close>

definition asking :: "(real \<Rightarrow> real) \<Rightarrow> proxy \<Rightarrow> caption_world \<Rightarrow> caption_world" where
  "asking round1 p w = w\<lparr>w_depth := Some (200, Inr (proxy_status round1 p))\<rparr>"

lemma depth_read: "proxy_queue_depth (w_depth (asking round1 p w)) = JInt (int (p_depth p))"
  by (simp add: asking_def proxy_queue_depth_def proxy_status_def get_in_def dget_def as_obj_def bindE_def)

text \<open>
  The caption job makes way exactly for waiting requests. While no call of the arbiter has raised, a batch is put
  off if and only if some request waits for the card or for the model slot (or there is nothing to caption); it
  does not see requests that are being answered.
\<close>

lemma captions_make_way:
  assumes "p = proxy_run es proxy_init" and "\<forall>i. ArbiterReply i ARaised \<notin> set es"
    and "get_pending_captions IMAGE_CAPTION_BATCH_SIZE s \<noteq> []"
  shows "(\<exists>late' n. n > 0 \<and> process_pending_batch (asking round1 p w) s late = Inr (n, late')) \<longleftrightarrow> dcount waiting (p_reqs p) = 0"
    and "dcount waiting (p_reqs p) > 0 \<Longrightarrow> process_pending_batch (asking round1 p w) s late = Inr (0, late)"
proof -
  have d: "p_depth p = dcount waiting (p_reqs p)"
    using proxy_run_exact [OF proxy_init_inv assms(2)] assms(1) by (simp add: proxy_inv_def)
  show "(\<exists>late' n. n > 0 \<and> process_pending_batch (asking round1 p w) s late = Inr (n, late')) \<longleftrightarrow> dcount waiting (p_reqs p) = 0"
    using assms(3) by (auto simp: process_pending_batch_def depth_read d Let_def)
  show "dcount waiting (p_reqs p) > 0 \<Longrightarrow> process_pending_batch (asking round1 p w) s late = Inr (0, late)"
    by (simp add: process_pending_batch_def depth_read d Let_def)
qed

text \<open>
  One arbiter call that raised in the proxy stops the captions for good: the depth it leaves behind is read as
  a queue by every later batch, whatever the proxy does meanwhile.
\<close>

lemma captions_starve:
  assumes "p = proxy_run [Request 1 (JStr ''a''), ArbiterReply 1 ARaised] proxy_init"
  shows "process_pending_batch (asking round1 (proxy_run es p) w) s late = Inr (0, late)"
proof -
  have i: "proxy_inv 1 p" "p_evictor p = ESleep 30"
    using proxy_run_inv [of "[Request 1 (JStr ''a''), ArbiterReply 1 ARaised]"] assms
    by (auto simp: proxy_simps proxy_inv_def dcount_def)
  have "p_depth (proxy_run es p) > 0" using leak_run [of 0 p 30 es] i by simp
  then show ?thesis by (simp add: process_pending_batch_def depth_read Let_def)
qed

section \<open>Small answers\<close>

text \<open>\<open>/archive/{user_id}/count\<close>: lines that are not blank, torn ones too.\<close>

definition archive_count :: "string \<Rightarrow> store \<Rightarrow> json" where
  "archive_count u s = JObj [(''user_id'', JStr u), (''message_count'', JInt (int (get_message_count u s)))]"

end
