(* ===== verification/Bot_Main.thy ===== *)
theory Bot_Main
  imports Lore_Agent
begin

text \<open>
  \<open>discord-bot/bot.py\<close>, the clients of \<open>services.py\<close>, \<open>validate_config\<close> of \<open>config.py\<close>, the progress message of
  \<open>cogs/lore_status.py\<close> and the footer of \<open>cogs/lore.py\<close>. discord.py is given by what it calls: \<open>setup_hook\<close>
  once before the login, \<open>on_ready\<close> after every connect, \<open>close\<close> at the end of \<open>main\<close>. Signs outside ASCII
  in the texts are written as words.
\<close>

section \<open>Starting and stopping\<close>

definition validate_config :: "string \<Rightarrow> string \<Rightarrow> unit result" where
  "validate_config tok url = (if tok = [] then Inl ValueError else if url = [] then Inl ValueError else Inr ())"

definition EXTENSIONS :: "string list" where
  "EXTENSIONS = [''cogs.mimic'', ''cogs.chat'', ''cogs.lore'']"

text \<open>The clients: open, closed, or never made; the counts are of the calls that matter.\<close>

record bot_process =
  bp_created :: nat
  bp_proxy_open :: bool
  bp_rag_open :: bool
  bp_loaded :: "string list"
  bp_restored :: bool
  bp_restores :: nat

definition bot_process_init :: bot_process where
  "bot_process_init = \<lparr>bp_created = 0, bp_proxy_open = False, bp_rag_open = False, bp_loaded = [], bp_restored = False,
     bp_restores = 0\<rparr>"

text \<open>The clients open their connections at the first use; from then on they are to be closed.\<close>

definition create_services :: "bool \<Rightarrow> bot_process \<Rightarrow> bot_process" where
  "create_services rag_enabled s = s\<lparr>bp_created := bp_created s + 1, bp_proxy_open := True, bp_rag_open := rag_enabled\<rparr>"

fun load_extensions :: "(string \<Rightarrow> bool) \<Rightarrow> string list \<Rightarrow> bot_process \<Rightarrow> bot_process \<times> bool" where
  "load_extensions loads [] s = (s, True)"
| "load_extensions loads (x # xs) s =
     (if loads x then load_extensions loads xs (s\<lparr>bp_loaded := bp_loaded s @ [x]\<rparr>) else (s, False))"

text \<open>Whether it went through; that the commands could not be synchronised is only logged.\<close>

definition setup_hook :: "string \<Rightarrow> string \<Rightarrow> bool \<Rightarrow> bool \<Rightarrow> (string \<Rightarrow> bool) \<Rightarrow> bot_process \<Rightarrow> bot_process \<times> bool" where
  "setup_hook tok url rag_enabled stores_load loads s =
     (case validate_config tok url of
        Inl e \<Rightarrow> (s, False)
      | Inr u \<Rightarrow> if \<not> stores_load then (s, False) else load_extensions loads EXTENSIONS (create_services rag_enabled s))"

definition on_ready :: "bot_process \<Rightarrow> bot_process" where
  "on_ready s =
     (if bp_restored s then s
      else let s1 = s\<lparr>bp_restored := True\<rparr>
           in if ''cogs.chat'' \<in> set (bp_loaded s1) then s1\<lparr>bp_restores := bp_restores s1 + 1\<rparr> else s1)"

text \<open>\<open>Services.aclose\<close>; a proxy client that raises while it closes leaves the other one open.\<close>

definition aclose :: "bool \<Rightarrow> bool \<Rightarrow> bot_process \<Rightarrow> bot_process" where
  "aclose proxy_closes rag_closes s =
     (if \<not> proxy_closes then s
      else let s1 = s\<lparr>bp_proxy_open := False\<rparr> in if rag_closes then s1\<lparr>bp_rag_open := False\<rparr> else s1)"

definition close_bot :: "bool \<Rightarrow> bool \<Rightarrow> bot_process \<Rightarrow> bot_process" where
  "close_bot proxy_closes rag_closes s = (if bp_created s > 0 then aclose proxy_closes rag_closes s else s)"

text \<open>A life of the process: the start, any number of connects, the end, however it comes.\<close>

definition bot_main :: "string \<Rightarrow> string \<Rightarrow> bool \<Rightarrow> bool \<Rightarrow> (string \<Rightarrow> bool) \<Rightarrow> nat \<Rightarrow> bool \<Rightarrow> bool \<Rightarrow> bot_process" where
  "bot_main tok url rag_enabled stores_load loads connects proxy_closes rag_closes =
     (let (s, ok) = setup_hook tok url rag_enabled stores_load loads bot_process_init;
          s1 = (if ok then (on_ready ^^ connects) s else s)
      in close_bot proxy_closes rag_closes s1)"

lemma load_extensions_spec:
  "fst (load_extensions loads xs s) = s\<lparr>bp_loaded := bp_loaded s @ takeWhile loads xs\<rparr>
   \<and> snd (load_extensions loads xs s) = list_all loads xs"
  by (induction loads xs s rule: load_extensions.induct) auto

lemma on_ready_again:
  "(on_ready ^^ n) s = (if n = 0 then s else on_ready s)"
proof (induction n)
  case (Suc n)
  have "on_ready (on_ready s) = on_ready s" by (simp add: on_ready_def Let_def)
  then show ?case using Suc by simp
qed simp

text \<open>
  However often the gateway reconnects, the services are made once at most and the threads restored once at
  most; a bot that connects answers all three commands; a start that fails leaves nothing half done: no command is
  answered before the configuration is valid, and what was opened is closed again.
\<close>

lemma one_start:
  assumes "s = bot_main tok url rag_enabled stores_load loads connects proxy_closes rag_closes"
  shows "bp_created s \<le> 1" "bp_restores s \<le> 1"
    "bp_restores s = 1 \<Longrightarrow> bp_loaded s = EXTENSIONS \<and> tok \<noteq> [] \<and> url \<noteq> []"
    "proxy_closes \<Longrightarrow> \<not> bp_proxy_open s" "proxy_closes \<Longrightarrow> rag_closes \<Longrightarrow> \<not> bp_rag_open s"
proof -
  obtain t ok where t: "setup_hook tok url rag_enabled stores_load loads bot_process_init = (t, ok)"
    by (cases "setup_hook tok url rag_enabled stores_load loads bot_process_init")
  have w: "list_all loads EXTENSIONS \<Longrightarrow> takeWhile loads EXTENSIONS = EXTENSIONS"
    by (simp add: EXTENSIONS_def)
  have c: "t = bot_process_init \<and> \<not> ok \<or> tok \<noteq> [] \<and> url \<noteq> [] \<and>
      t = (create_services rag_enabled bot_process_init)\<lparr>bp_loaded := takeWhile loads EXTENSIONS\<rparr> \<and> ok = list_all loads EXTENSIONS"
    using t load_extensions_spec [of loads EXTENSIONS "create_services rag_enabled bot_process_init"]
    by (auto simp: setup_hook_def validate_config_def create_services_def bot_process_init_def split: if_splits)
  have s: "s = close_bot proxy_closes rag_closes (if ok \<and> connects > 0 then on_ready t else t)"
    using assms by (simp add: bot_main_def t on_ready_again)
  note defs = s close_bot_def aclose_def on_ready_def Let_def create_services_def bot_process_init_def
  show "bp_created s \<le> 1" "bp_restores s \<le> 1" using c by (auto simp: defs)
  show "bp_restores s = 1 \<Longrightarrow> bp_loaded s = EXTENSIONS \<and> tok \<noteq> [] \<and> url \<noteq> []" using c w by (auto simp: defs split: if_splits)
  show "proxy_closes \<Longrightarrow> \<not> bp_proxy_open s" "proxy_closes \<Longrightarrow> rag_closes \<Longrightarrow> \<not> bp_rag_open s"
    using c by (auto simp: defs)
qed

text \<open>A proxy client that cannot be closed keeps the other one open, and the connection to Discord.\<close>

lemma failed_close_leaks: "bp_rag_open (bot_main ''t'' ''u'' True True (\<lambda>x. True) 1 False True)"
  by code_simp

section \<open>The progress message\<close>

text \<open>What the message shows, if it could be sent; an edit that fails changes nothing and is not seen.\<close>

type_synonym lore_status = "string option"

definition set_status :: "string \<Rightarrow> bool \<Rightarrow> lore_status \<Rightarrow> lore_status" where
  "set_status t ok s = (case s of None \<Rightarrow> None | Some old \<Rightarrow> Some (if ok then t else old))"

definition STATUS_START :: string where "STATUS_START = ''(search) Searching Discord history...''"

definition from_message :: "bool \<Rightarrow> lore_status" where
  "from_message sent = (if sent then Some STATUS_START else None)"

datatype progress =
    GWaiting
  | GThinking int int
  | GSearching int int
  | GAnalyzing int int
  | GCondensing int int
  | GWriting
  | GGenerating "int option"
  | GComplete string
  | GFailed

definition round_of :: "int \<Rightarrow> int \<Rightarrow> string" where
  "round_of n m = str_int n @ ''/'' @ str_int m"

definition status_text :: "progress \<Rightarrow> string" where
  "status_text g =
     (case g of
        GWaiting \<Rightarrow> ''(hourglass) Waiting for the previous question to finish...''
      | GThinking n m \<Rightarrow> ''(search) Thinking... (round '' @ round_of n m @ '')''
      | GSearching n m \<Rightarrow> ''(search) Searching... ('' @ round_of n m @ '')''
      | GAnalyzing n m \<Rightarrow> ''(memo) Analyzing results... (round '' @ round_of n m @ '')''
      | GCondensing n m \<Rightarrow> ''(clamp) Condensing earlier results... (round '' @ round_of n m @ '')''
      | GWriting \<Rightarrow> ''(pen) Writing answer...''
      | GGenerating None \<Rightarrow> ''(memo) Generating final answer...''
      | GGenerating (Some c) \<Rightarrow> ''(memo) Generating final answer... ('' @ commas c @ '' chars)''
      | GComplete q \<Rightarrow> ''(check) Search complete -- '' @ CHR 0x22 # take 100 q @ (if length q > 100 then ''...'' else []) @ [CHR 0x22]
      | GFailed \<Rightarrow> ''(cross) Search failed'')"

definition report :: "(progress \<times> bool) list \<Rightarrow> lore_status \<Rightarrow> lore_status" where
  "report gs s = fold (\<lambda>(g, ok). set_status (status_text g) ok) gs s"

text \<open>The message shows the last edit that went through, and no failure of one stops those that follow.\<close>

lemma report_last:
  "report gs (Some t) = Some (last (t # map (\<lambda>(g, ok). status_text g) (filter snd gs)))" "report gs None = None"
proof -
  show "report gs None = None" by (induction gs) (auto simp: report_def set_status_def)
  show "report gs (Some t) = Some (last (t # map (\<lambda>(g, ok). status_text g) (filter snd gs)))"
    by (induction gs arbitrary: t) (auto simp: report_def set_status_def)
qed

lemma complete_fits: "length (status_text (GComplete q)) \<le> 200"
  by (simp add: status_text_def)

section \<open>The readouts\<close>

definition plural :: "int \<Rightarrow> string \<Rightarrow> string \<Rightarrow> string" where
  "plural n w ending = str_int n @ '' '' @ w @ (if n = 1 then [] else ending)"

definition context_readout :: "int \<Rightarrow> int \<Rightarrow> string" where
  "context_readout used window = commas used @ ''/'' @ commas window @ '' ('' @ str_int (percent used window) @ ''%)''"

definition lore_footer :: "int \<Rightarrow> session \<Rightarrow> metrics option \<Rightarrow> bool \<Rightarrow> string result" where
  "lore_footer window s m searched =
     bindE (if searched then (case m of None \<Rightarrow> Inl AttributeError
              | Some x \<Rightarrow> Inr [plural (int (total_tool_calls x)) ''search'' ''es'', plural (int (rounds_executed x)) ''round'' ''s''])
            else Inr [''answered from thread context'']) (\<lambda>bits.
       Inr (''-# '' @ join '' * '' ((''(brain) '' @ context_readout (last_context_tokens s) window) # bits
            @ (if compactions s \<noteq> 0 then [plural (compactions s) ''compaction'' ''s''] else []))))"

definition context_pct :: "int \<Rightarrow> metrics \<Rightarrow> real" where
  "context_pct window m = (if window = 0 then 0 else real_of_int (m_peak_context_tokens m) / real_of_int window)"

definition context_line_of :: "int \<Rightarrow> metrics \<Rightarrow> string" where
  "context_line_of window m = ''context='' @ context_readout (context_used m) window @ '' cached='' @ commas (cached_tokens m)"

lemma footer_never_fails: "\<not> searched \<or> m \<noteq> None \<Longrightarrow> \<exists>t. lore_footer window s m searched = Inr t"
  by (auto simp: lore_footer_def bindE_def)

end
