(* ===== verification/Bot_Proxy.thy ===== *)
theory Bot_Proxy
  imports Service_Status Proxy_Client Bot_Cogs
begin

text \<open>
  The bot in front of the proxy: \<open>get_queue_depth\<close> of \<open>proxy_client.py\<close>, the queue check of \<open>/lore\<close> and \<open>/mimic\<close>
  and the proxy's \<open>/status\<close> put together.
\<close>

definition get_queue_depth :: "http_reply \<Rightarrow> json agent" where
  "get_queue_depth r =
     (case r of
        ConnectFailed \<Rightarrow> Inl (Proxy ''The AI backend is currently unreachable.'')
      | ReadTimeout \<Rightarrow> Inl (Proxy ''Request to backend timed out.'')
      | Reply n body data \<Rightarrow>
          if n \<noteq> 200 then Inl (Proxy (''Proxy /status returned error '' @ str_nat n))
          else lift_err (bindE (bindE data as_obj) (\<lambda>d. Inr (dget d ''queue_depth'' (JInt 0)))))"

text \<open>What the commands compare; a \<open>ProxyError\<close> is logged and the check left out.\<close>

definition asked_depth :: "(real \<Rightarrow> real) \<Rightarrow> proxy \<Rightarrow> int option" where
  "asked_depth round1 p =
     (case get_queue_depth (Reply 200 [] (Inr (proxy_status round1 p))) of Inr (JInt d) \<Rightarrow> Some d | _ \<Rightarrow> None)"

lemma asked_depth_is: "asked_depth round1 p = Some (int (p_depth p))"
  by (simp add: asked_depth_def get_queue_depth_def proxy_status_def dget_def as_obj_def bindE_def lift_err_def)

text \<open>
  The calls of the arbiter that raised in a run: an answer counts when the request it is for was waiting for it.
\<close>

definition asking_arbiter :: "proxy \<Rightarrow> nat \<Rightarrow> bool" where
  "asking_arbiter s i = (case map_of (p_reqs s) i of Some (PAcquire, m) \<Rightarrow> True | _ \<Rightarrow> False)"

definition raises :: "pevent \<Rightarrow> proxy \<Rightarrow> nat" where
  "raises e s = (case e of ArbiterReply i ARaised \<Rightarrow> if asking_arbiter s i then 1 else 0 | _ \<Rightarrow> 0)"

fun raised_calls :: "pevent list \<Rightarrow> proxy \<Rightarrow> nat" where
  "raised_calls [] s = 0"
| "raised_calls (e # es) s = raises e s + raised_calls es (proxy_step e s)"

lemma raised_calls_append: "raised_calls (es @ es') s = raised_calls es s + raised_calls es' (proxy_run es s)"
  by (induction es arbitrary: s) simp_all

text \<open>Each of them leaves one in the queue counter, and nothing takes it out again.\<close>

lemma raised_adds_one:
  assumes i: "proxy_inv k s" and m: "map_of (p_reqs s) i = Some (PAcquire, m)"
  shows "proxy_inv (Suc k) (arbiter_reply i ARaised s)"
proof -
  let ?s = "arbiter_reply i ARaised s"
  have s: "p_depth ?s = p_depth s" "p_reqs ?s = dpop i (p_reqs s)"
    using m by (simp_all add: arbiter_reply_def finish_req_def llm_request_finished_def send_def Let_def)
  have "dict_ok (p_reqs s)" using i by (simp add: proxy_inv_def)
  from dcount_pop [OF this m, of waiting] have c: "dcount waiting (p_reqs ?s) = dcount waiting (p_reqs s) - 1"
    by (simp add: s waiting_def)
  have "dcount waiting (p_reqs s) > 0" using dcount_pos [OF m, of waiting] by (simp add: waiting_def)
  moreover have "p_depth s = dcount waiting (p_reqs s) + k" using i by (simp add: proxy_inv_def)
  ultimately have "p_depth ?s \<noteq> dcount waiting (p_reqs ?s) + k" using c s(1) by simp
  then have "\<not> proxy_inv k ?s" by (simp add: proxy_inv_def)
  then show ?thesis using arbiter_reply_inv [OF i, of i ARaised] by blast
qed

lemma step_counts_raised:
  assumes "proxy_inv k s" shows "proxy_inv (k + raises e s) (proxy_step e s)"
proof (cases "\<exists>i. e = ArbiterReply i ARaised")
  case True
  then obtain i where e: "e = ArbiterReply i ARaised" by blast
  show ?thesis
  proof (cases "asking_arbiter s i")
    case True
    then obtain m where "map_of (p_reqs s) i = Some (PAcquire, m)"
      by (auto simp: asking_arbiter_def split: option.splits phase.splits)
    then show ?thesis using raised_adds_one [OF assms] True by (simp add: e raises_def)
  next
    case False
    then have "arbiter_reply i ARaised s = s"
      by (auto simp: asking_arbiter_def arbiter_reply_def split: option.splits phase.splits)
    then show ?thesis using assms False by (simp add: e raises_def)
  qed
next
  case False
  then have "raises e s = 0" by (auto simp: raises_def split: pevent.splits arb_answer.splits)
  then show ?thesis using proxy_step_inv [OF assms, of e] False by auto
qed

lemma run_counts_raised: "proxy_inv k s \<Longrightarrow> proxy_inv (k + raised_calls es s) (proxy_run es s)"
proof (induction es arbitrary: k s)
  case (Cons e es)
  from Cons.IH [OF step_counts_raised [OF Cons.prems, of e]] show ?case by (simp add: add.assoc)
qed simp

lemma depth_counts: "p_depth (proxy_run es proxy_init) = dcount waiting (p_reqs (proxy_run es proxy_init)) + raised_calls es proxy_init"
  using run_counts_raised [OF proxy_init_inv, of es] by (simp add: proxy_inv_def)

lemma busy_iff:
  "(\<exists>n. fst (lore_command (Some d) run embeds) = Busy n) \<longleftrightarrow> d \<ge> MAX_QUEUE_DEPTH"
  "fst (lore_command (Some d) run embeds) = Busy n \<Longrightarrow> n = d"
  by (auto simp: lore_command_def split: sum.splits agent_error.splits option.splits if_splits)

text \<open>
  C40: What the queue check of the bot counts. After any run of the proxy since it was started, \<open>/lore\<close> answers
  that the queue is full exactly when the requests that wait in the proxy and the arbiter calls that raised since
  then, however long ago, are together at least \<open>MAX_QUEUE_DEPTH\<close>, and it names that sum; with no such call this is
  the queue. The calls that raised count for good: once there were \<open>MAX_QUEUE_DEPTH\<close> of them, every later
  \<open>/lore\<close> is refused, whatever happens.
\<close>

theorem queue_check_exact:
  assumes "p = proxy_run es proxy_init"
  shows "((\<exists>n. fst (lore_command (asked_depth round1 p) run embeds) = Busy n)
          \<longleftrightarrow> int (dcount waiting (p_reqs p) + raised_calls es proxy_init) \<ge> MAX_QUEUE_DEPTH)
    \<and> (fst (lore_command (asked_depth round1 p) run embeds) = Busy n
          \<longrightarrow> n = int (dcount waiting (p_reqs p) + raised_calls es proxy_init))
    \<and> (int (raised_calls es proxy_init) \<ge> MAX_QUEUE_DEPTH \<longrightarrow>
          (\<exists>n'. fst (lore_command (asked_depth round1 (proxy_run es' p)) run' embeds') = Busy n'))"
proof -
  have p: "proxy_run es' p = proxy_run (es @ es') proxy_init" by (simp add: assms)
  have "int (p_depth (proxy_run es' p)) \<ge> MAX_QUEUE_DEPTH" if "int (raised_calls es proxy_init) \<ge> MAX_QUEUE_DEPTH"
    unfolding p depth_counts using that by (simp add: raised_calls_append del: proxy_run_simps)
  then show ?thesis
    using busy_iff(2) by (auto simp: asked_depth_is busy_iff(1) assms depth_counts simp del: proxy_run_simps)
qed

definition three_raised :: "pevent list" where
  "three_raised = concat (map (\<lambda>i. [Request i (JStr ''a''), ArbiterReply i ARaised]) [1, 2, 3])"

theorem queue_check_exact_witness:
  "\<exists>n. fst (lore_command (asked_depth (\<lambda>t. t) (proxy_run [Request 4 (JStr ''a''), ArbiterReply 4 AGranted,
      SentReply 4 True, StreamEnd 4 200] (proxy_run three_raised proxy_init))) (Inl (Proxy [])) (\<lambda>t. Some [])) = Busy n"
proof -
  have "raised_calls three_raised proxy_init = 3"
    by (simp add: three_raised_def raises_def asking_arbiter_def proxy_simps)
  then show ?thesis
    using queue_check_exact [OF refl, of "\<lambda>t. t" three_raised _ _ _
        "[Request 4 (JStr ''a''), ArbiterReply 4 AGranted, SentReply 4 True, StreamEnd 4 200]"]
    by (simp add: MAX_QUEUE_DEPTH_def)
qed

lemma finish_reply_no_queue: "finish_reply channel persona text posts how h \<noteq> Some (QueueFull n, h')"
  by (auto simp: finish_reply_def split: option.splits reply_end.splits prod.splits)

text \<open>\<open>/mimic\<close> compares the same number.\<close>

lemma mimic_queue_full:
  assumes "p = proxy_run es proxy_init" "\<forall>i. ArbiterReply i ARaised \<notin> set es"
    and "mimic now author channel persona sysp label (asked_depth round1 p) answer st = Some (QueueFull n, req, l, h)"
  shows "n = int (dcount waiting (p_reqs p)) \<and> n \<ge> MAX_QUEUE_DEPTH \<and> req = None"
proof -
  have "p_depth p = dcount waiting (p_reqs p)"
    using proxy_run_exact [OF proxy_init_inv assms(2)] assms(1) by (simp add: proxy_inv_def)
  then show ?thesis using assms(3)
    by (auto simp: mimic_def asked_depth_is Let_def case_prod_unfold finish_reply_no_queue split: if_splits sum.splits)
qed

end
