(* ===== verification/Settings.thy ===== *)
theory Settings
  imports Bot_Proxy History_Service Lore_Tools Bot_Main Docker_Requests Rag_Service
begin

text \<open>
  The \<open>config.py\<close> of the bot, of the proxy, of the history service and of the arbiter, and the settings of the RAG
  service and of the trainer, as functions of the environment, which raise what the import of the module raises. The other theories use the constants under their names with the
  defaults; the lemmas at the end tie the two together. \<open>float()\<close> is a parameter. The emoji of the thread offer is
  left out of the bot's settings.
\<close>

type_synonym env = "string \<Rightarrow> string option"

text \<open>\<open>os.environ.get(name, default)\<close>, and what the modules make of it.\<close>

definition env_get :: "env \<Rightarrow> string \<Rightarrow> string \<Rightarrow> string" where
  "env_get e name d = (case e name of None \<Rightarrow> d | Some v \<Rightarrow> v)"

definition env_int :: "env \<Rightarrow> string \<Rightarrow> string \<Rightarrow> int result" where
  "env_int e name d = py_int (JStr (env_get e name d))"

definition env_on :: "env \<Rightarrow> string \<Rightarrow> string \<Rightarrow> bool" where
  "env_on e name d \<longleftrightarrow> map lower_char (env_get e name d) = ''true''"

definition env_not_off :: "env \<Rightarrow> string \<Rightarrow> string \<Rightarrow> bool" where
  "env_not_off e name d \<longleftrightarrow> map lower_char (env_get e name d) \<notin> {''false'', ''0'', ''no''}"

section \<open>The bot\<close>

record bot_settings =
  b_token :: string
  b_proxy_url :: string
  b_rate_limit :: int
  b_rate_window :: int
  b_queue_depth :: int
  b_history_turns :: int
  b_message_length :: int
  b_embed_length :: int
  b_timeouts :: "int \<times> int \<times> int"       \<comment> \<open>connection, read, total\<close>
  b_registry_path :: string
  b_rag_url :: string
  b_rag_enabled :: bool
  b_model :: string
  b_rounds :: "int \<times> int \<times> int"         \<comment> \<open>default, hard cap, follow-up\<close>
  b_repeats :: int
  b_temperature :: real
  b_top_k :: int
  b_ctx_fallback :: int
  b_ctx_shares :: "real \<times> real \<times> real"   \<comment> \<open>soft, compact, hard\<close>
  b_session_path :: string
  b_offer_ttl :: int
  b_thread_ttl :: int
  b_sweep_interval :: int
  b_context_path :: string
  b_personas :: "(string \<times> string) list"

definition bot_config :: "env \<Rightarrow> bot_settings result" where
  "bot_config e =
     bindE (env_int e ''RATE_LIMIT_PER_USER'' ''5'') (\<lambda>rate.
     bindE (env_int e ''MAX_QUEUE_DEPTH'' ''3'') (\<lambda>depth.
       Inr \<lparr>b_token = env_get e ''DISCORD_TOKEN'' [], b_proxy_url = env_get e ''PROXY_URL'' ''http://proxy:11436'',
            b_rate_limit = rate, b_rate_window = 60, b_queue_depth = depth, b_history_turns = 20,
            b_message_length = 2000, b_embed_length = 4096, b_timeouts = (10, 300, 320),
            b_registry_path = env_get e ''THREAD_REGISTRY_PATH'' ''bot_context/threads.json'',
            b_rag_url = env_get e ''RAG_SERVICE_URL'' ''http://rag-service:8001'', b_rag_enabled = env_on e ''RAG_ENABLED'' ''true'',
            b_model = ''brain-dense-heretic'', b_rounds = (10, 25, 5), b_repeats = 2, b_temperature = 1 / 10, b_top_k = 10,
            b_ctx_fallback = 96000, b_ctx_shares = (70 / 100, 75 / 100, 85 / 100),
            b_session_path = env_get e ''LORE_SESSION_PATH'' ''bot_context/lore/sessions.json'',
            b_offer_ttl = 7 * 24 * 3600, b_thread_ttl = 7 * 24 * 3600, b_sweep_interval = 3600,
            b_context_path = env_get e ''LORE_CONTEXT_PATH'' ''bot_context/lore/context.md'',
            b_personas = [(''mimic_user1'', ''User1''), (''mimic_user2'', ''User2''), (''mimic_user3'', ''User3''),
              (''mimic_user4'', ''User4''), (''mimic_user5'', ''User5''), (''mimic_user6'', ''User6''),
              (''mimic_user7'', ''User7'')]\<rparr>))"

text \<open>The import of the module, and the check \<open>setup_hook\<close> begins with.\<close>

definition bot_checked :: "env \<Rightarrow> bot_settings result" where
  "bot_checked e = bindE (bot_config e) (\<lambda>c. bindE (validate_config (b_token c) (b_proxy_url c)) (\<lambda>u. Inr c))"

section \<open>The proxy\<close>

record proxy_settings =
  x_permanent :: string
  x_swappable :: string
  x_arbiter_url :: string
  x_job :: string
  x_autocomplete :: bool
  x_evict :: bool
  x_idle :: real
  x_poll :: real
  x_unload :: real
  x_permanent_models :: "string set"

definition proxy_config :: "(string \<Rightarrow> real result) \<Rightarrow> env \<Rightarrow> proxy_settings result" where
  "proxy_config float_of e =
     bindE (float_of (env_get e ''IDLE_EVICT_SECONDS'' ''600'')) (\<lambda>idle.
     bindE (float_of (env_get e ''IDLE_EVICT_POLL_SECONDS'' ''30'')) (\<lambda>poll.
     bindE (float_of (env_get e ''IDLE_EVICT_UNLOAD_TIMEOUT'' ''60'')) (\<lambda>unload.
       Inr \<lparr>x_permanent = env_get e ''LLAMA_PERMANENT'' ''http://localhost:11435'',
            x_swappable = env_get e ''LLAMA_SWAPPABLE'' ''http://localhost:11434'',
            x_arbiter_url = env_get e ''ARBITER_URL'' ''http://arbiter:11438'', x_job = env_get e ''ARBITER_JOB_NAME'' ''llm'',
            x_autocomplete = env_not_off e ''AUTOCOMPLETE_ENABLED'' ''true'', x_evict = env_not_off e ''IDLE_EVICT_ENABLED'' ''true'',
            x_idle = idle, x_poll = poll, x_unload = unload, x_permanent_models = {''autocomplete''}\<rparr>)))"

section \<open>The history service\<close>

record history_settings =
  y_token :: string
  y_guild :: string
  y_proxy_url :: string
  y_dirs :: "string \<times> string \<times> string"     \<comment> \<open>raw, archive, state\<close>
  y_excluded :: "string list"
  y_captions :: bool
  y_caption_model :: string
  y_batch :: int
  y_window :: "int \<times> int"
  y_max_mb :: int
  y_host :: string
  y_port :: int

definition history_config :: "env \<Rightarrow> history_settings result" where
  "history_config e =
     bindE (env_int e ''IMAGE_CAPTION_BATCH_SIZE'' ''10'') (\<lambda>batch.
     bindE (env_int e ''IMAGE_CAPTION_WINDOW_START'' ''3'') (\<lambda>first_hour.
     bindE (env_int e ''IMAGE_CAPTION_WINDOW_END'' ''6'') (\<lambda>last_hour.
     bindE (env_int e ''IMAGE_CAPTION_MAX_FILE_SIZE_MB'' ''10'') (\<lambda>mb.
     bindE (env_int e ''PORT'' ''11437'') (\<lambda>port.
       Inr \<lparr>y_token = env_get e ''DISCORD_TOKEN'' [], y_guild = env_get e ''DISCORD_GUILD_ID'' [],
            y_proxy_url = env_get e ''PROXY_URL'' ''http://proxy:11436'',
            y_dirs = (''/archive/raw'', ''/archive/archive'', ''/archive/state''),
            y_excluded = env_list (env_get e ''EXCLUDED_CHANNELS'' []), y_captions = env_on e ''IMAGE_CAPTION_ENABLED'' ''false'',
            y_caption_model = env_get e ''IMAGE_CAPTION_MODEL'' ''image-caption'', y_batch = batch,
            y_window = (first_hour, last_hour), y_max_mb = mb, y_host = env_get e ''HOST'' ''0.0.0.0'', y_port = port\<rparr>)))))"

text \<open>What its \<open>lifespan\<close> does before the first request: the check, and the jobs the scheduler is given.\<close>

definition history_startup :: "history_settings \<Rightarrow> (string \<times> int) list result" where
  "history_startup c =
     bindE (validate_required (y_token c) (y_guild c) (y_proxy_url c)) (\<lambda>u.
       Inr (if y_captions c then [(''caption_batch'', 300)] else []))"

section \<open>The arbiter\<close>

record arbiter_settings =
  ac_jobs_path :: string
  ac_docker_host :: string
  ac_acquire :: real
  ac_reap :: real
  ac_settle :: real
  ac_stale :: real
  ac_notice :: real

definition arbiter_config :: "(string \<Rightarrow> real result) \<Rightarrow> env \<Rightarrow> arbiter_settings result" where
  "arbiter_config float_of e =
     bindE (float_of (env_get e ''ARBITER_ACQUIRE_TIMEOUT'' ''180'')) (\<lambda>acquire.
     bindE (float_of (env_get e ''ARBITER_REAP_INTERVAL'' ''15'')) (\<lambda>reap.
     bindE (float_of (env_get e ''ARBITER_VRAM_SETTLE_TIMEOUT'' ''30'')) (\<lambda>settle.
     bindE (float_of (env_get e ''ARBITER_COOPERATIVE_STALE_AFTER'' ''120'')) (\<lambda>stale.
     bindE (float_of (env_get e ''ARBITER_NOTICE_TIMEOUT'' ''30'')) (\<lambda>notice.
       Inr \<lparr>ac_jobs_path = env_get e ''ARBITER_JOBS_PATH'' ''/config/jobs.yaml'',
            ac_docker_host = env_get e ''DOCKER_HOST'' ''tcp://docker-socket-proxy:2375'', ac_acquire = acquire, ac_reap = reap,
            ac_settle = settle, ac_stale = stale, ac_notice = notice\<rparr>)))))"

text \<open>The import of \<open>arbiter/main.py\<close>: the settings, and the client made of one of them.\<close>

definition arbiter_docker :: "(string \<Rightarrow> real result) \<Rightarrow> env \<Rightarrow> address result" where
  "arbiter_docker float_of e = bindE (arbiter_config float_of e) (\<lambda>c. docker_address (ac_docker_host c))"

section \<open>The RAG service and the trainer\<close>

record rag_settings =
  rs_chroma :: "string \<times> int"
  rs_archive :: string
  rs_collection :: string

definition rag_config :: "env \<Rightarrow> rag_settings result" where
  "rag_config e =
     bindE (env_int e ''CHROMA_PORT'' ''8000'') (\<lambda>port.
       Inr \<lparr>rs_chroma = (env_get e ''CHROMA_HOST'' ''chromadb'', port), rs_archive = env_get e ''ARCHIVE_DIR'' ''/archive'',
            rs_collection = env_get e ''COLLECTION_NAME'' ''lore''\<rparr>)"

record trainer_settings =
  tr_config :: string
  tr_output :: string
  tr_retry :: real

definition trainer_config :: "(string \<Rightarrow> real result) \<Rightarrow> env \<Rightarrow> trainer_settings result" where
  "trainer_config float_of e =
     bindE (float_of (env_get e ''ARBITER_RETRY_SECONDS'' ''30'')) (\<lambda>retry.
       Inr \<lparr>tr_config = env_get e ''TRAIN_CONFIG'' ''configs/smoke.yaml'', tr_output = env_get e ''TRAIN_OUTPUT_DIR'' [],
            tr_retry = retry\<rparr>)"

text \<open>Where its client of the arbiter calls, and under which name: an empty argument counts as none.\<close>

definition trainer_client :: "env \<Rightarrow> string option \<Rightarrow> string option \<Rightarrow> string \<times> string" where
  "trainer_client e base_url job_name =
     (let given = (\<lambda>x d. case x of Some (c # cs) \<Rightarrow> c # cs | _ \<Rightarrow> d) in
      (rev (dropWhile (\<lambda>c. c = CHR ''/'') (rev (given base_url (env_get e ''ARBITER_URL'' ''http://arbiter:11438'')))),
       given job_name (env_get e ''ARBITER_JOB_NAME'' ''lora-trainer'')))"

section \<open>Defaults\<close>

text \<open>An environment that says nothing gives the constants the other theories compute with.\<close>

lemma env_int_default: "e name = None \<Longrightarrow> env_int e name (str_int i) = Inr i"
  using py_int_str_int by (simp add: env_int_def env_get_def)

lemma bot_defaults:
  "\<exists>c. bot_config (\<lambda>n. None) = Inr c \<and> b_rate_limit c = int RATE_LIMIT_PER_USER \<and> b_rate_window c = RATE_LIMIT_WINDOW_SECONDS
     \<and> b_queue_depth c = MAX_QUEUE_DEPTH \<and> b_history_turns c = int HISTORY_MAX_TURNS
     \<and> b_message_length c = int MAX_MESSAGE_LENGTH \<and> b_embed_length c = int MAX_EMBED_DESCRIPTION_LENGTH
     \<and> b_model c = AGENT_MODEL \<and> b_rounds c = (AGENT_MAX_ROUNDS, AGENT_MAX_ROUNDS_HARD_CAP, LORE_FOLLOWUP_MAX_ROUNDS)
     \<and> b_repeats c = int AGENT_MAX_REPEATED_SEARCHES \<and> b_top_k c = AGENT_TOP_K \<and> b_ctx_fallback c = AGENT_CTX_LIMIT_FALLBACK
     \<and> b_ctx_shares c = (AGENT_CTX_SOFT_PCT, AGENT_CTX_COMPACT_PCT, AGENT_CTX_HARD_PCT)
     \<and> b_offer_ttl c = LORE_OFFER_TTL_SECONDS \<and> b_thread_ttl c = LORE_THREAD_TTL_SECONDS
     \<and> map fst (b_personas c) = MIMIC_PERSONAS"
proof -
  have personas: "MIMIC_PERSONAS = [''mimic_user1'', ''mimic_user2'', ''mimic_user3'', ''mimic_user4'', ''mimic_user5'',
      ''mimic_user6'', ''mimic_user7'']"
    by code_simp
  have n: "env_int (\<lambda>n. None) x ''5'' = Inr 5" "env_int (\<lambda>n. None) x ''3'' = Inr 3" for x
    by (simp_all add: env_int_def env_get_def strip_def lstrip_def rstrip_def py_space_def digit_val_def)
  show ?thesis
    unfolding personas
    by (simp add: bot_config_def n RATE_LIMIT_PER_USER_def RATE_LIMIT_WINDOW_SECONDS_def MAX_QUEUE_DEPTH_def
        HISTORY_MAX_TURNS_def MAX_MESSAGE_LENGTH_def MAX_EMBED_DESCRIPTION_LENGTH_def AGENT_MODEL_def AGENT_MAX_ROUNDS_def
        AGENT_MAX_ROUNDS_HARD_CAP_def LORE_FOLLOWUP_MAX_ROUNDS_def AGENT_MAX_REPEATED_SEARCHES_def AGENT_TOP_K_def
        AGENT_CTX_LIMIT_FALLBACK_def AGENT_CTX_SOFT_PCT_def AGENT_CTX_COMPACT_PCT_def AGENT_CTX_HARD_PCT_def
        LORE_OFFER_TTL_SECONDS_def LORE_THREAD_TTL_SECONDS_def)
qed

lemma proxy_defaults:
  assumes "float_of ''600'' = Inr 600" "float_of ''30'' = Inr 30" "float_of ''60'' = Inr 60"
  shows "\<exists>c. proxy_config float_of (\<lambda>n. None) = Inr c \<and> x_idle c = IDLE_EVICT_SECONDS
     \<and> x_poll c = IDLE_EVICT_POLL_SECONDS \<and> x_unload c = IDLE_EVICT_UNLOAD_TIMEOUT \<and> x_evict c \<and> x_job c = ''llm''"
  using assms by (simp add: proxy_config_def env_get_def env_not_off_def lower_char_def IDLE_EVICT_SECONDS_def
      IDLE_EVICT_POLL_SECONDS_def IDLE_EVICT_UNLOAD_TIMEOUT_def)

lemma history_defaults:
  "\<exists>c. history_config (\<lambda>n. None) = Inr c \<and> y_batch c = int IMAGE_CAPTION_BATCH_SIZE
     \<and> y_window c = (IMAGE_CAPTION_WINDOW_START, IMAGE_CAPTION_WINDOW_END) \<and> y_max_mb c = IMAGE_CAPTION_MAX_FILE_SIZE_MB
     \<and> y_excluded c = [] \<and> \<not> y_captions c"
proof -
  have n: "env_int (\<lambda>n. None) x ''10'' = Inr 10" "env_int (\<lambda>n. None) x ''3'' = Inr 3" "env_int (\<lambda>n. None) x ''6'' = Inr 6"
    "env_int (\<lambda>n. None) x ''11437'' = Inr 11437" for x
    by (simp_all add: env_int_def env_get_def strip_def lstrip_def rstrip_def py_space_def digit_val_def)
  show ?thesis
    by (simp add: history_config_def n IMAGE_CAPTION_BATCH_SIZE_def IMAGE_CAPTION_WINDOW_START_def
        IMAGE_CAPTION_WINDOW_END_def IMAGE_CAPTION_MAX_FILE_SIZE_MB_def env_get_def env_on_def env_list_def
        split_on.simps strip_def lstrip_def rstrip_def lower_char_def)
qed

section \<open>What stops a service\<close>

text \<open>
  The bot comes past its checks exactly when there is a token, the proxy's address is not set to
  nothing, and both numbers are integers; a variable that is set but empty counts as a value, so
  an empty number stops the bot where an absent one does not.
\<close>

lemma bot_checked_iff:
  "(\<exists>c. bot_checked e = Inr c) \<longleftrightarrow> env_get e ''DISCORD_TOKEN'' [] \<noteq> [] \<and> e ''PROXY_URL'' \<noteq> Some []
     \<and> (\<exists>i. env_int e ''RATE_LIMIT_PER_USER'' ''5'' = Inr i) \<and> (\<exists>i. env_int e ''MAX_QUEUE_DEPTH'' ''3'' = Inr i)"
  by (cases "env_int e ''RATE_LIMIT_PER_USER'' ''5''"; cases "env_int e ''MAX_QUEUE_DEPTH'' ''3''"; cases "e ''PROXY_URL''")
    (auto simp: bot_checked_def bot_config_def validate_config_def env_get_def)

lemma empty_number_stops: "bot_config ((\<lambda>n. None)(''MAX_QUEUE_DEPTH'' := Some [])) = Inl ValueError"
  by (simp add: bot_config_def env_int_def env_get_def strip_def lstrip_def rstrip_def py_space_def digit_val_def)

text \<open>
  The services read switches in two ways: what is neither on nor off by name (\<open>1\<close>, \<open>yes\<close>) is on
  for the proxy and off for the bot and the history service.
\<close>

lemma switches_differ:
  assumes "map lower_char v \<notin> {''true'', ''false'', ''0'', ''no''}" "e name = Some v"
  shows "env_not_off e name d" "\<not> env_on e name d"
  using assms by (simp_all add: env_not_off_def env_on_def env_get_def)

lemma arbiter_defaults:
  assumes "float_of ''180'' = Inr 180" "float_of ''15'' = Inr 15" "float_of ''30'' = Inr 30" "float_of ''120'' = Inr 120"
  shows "\<exists>c. arbiter_config float_of (\<lambda>n. None) = Inr c \<and> ac_acquire c = ACQUIRE_TIMEOUT \<and> ac_reap c = REAP_INTERVAL
     \<and> ac_settle c = VRAM_SETTLE_TIMEOUT \<and> ac_stale c = COOPERATIVE_STALE_AFTER \<and> ac_notice c = NOTICE_TIMEOUT
     \<and> ac_docker_host c = DEFAULT_HOST"
  using assms by (simp add: arbiter_config_def env_get_def ACQUIRE_TIMEOUT_def REAP_INTERVAL_def VRAM_SETTLE_TIMEOUT_def
      COOPERATIVE_STALE_AFTER_def NOTICE_TIMEOUT_def DEFAULT_HOST_def)

lemma rag_defaults:
  "\<exists>c. rag_config (\<lambda>n. None) = Inr c \<and> rs_chroma c = (''chromadb'', 8000) \<and> rs_collection c = DEFAULT_COLLECTION"
proof -
  have "env_int (\<lambda>n. None) ''CHROMA_PORT'' ''8000'' = Inr 8000"
    by (simp add: env_int_def env_get_def strip_def lstrip_def rstrip_def py_space_def digit_val_def)
  then show ?thesis by (simp add: rag_config_def env_get_def DEFAULT_COLLECTION_def)
qed

text \<open>
  The form Docker itself gives \<open>DOCKER_HOST\<close> for a local daemon is taken for the path of the socket,
  scheme and all, so the arbiter starts and never reaches it.
\<close>

lemma docker_url_taken_for_path:
  assumes "arbiter_config float_of e = Inr c" "e ''DOCKER_HOST'' = Some ''unix:///var/run/docker.sock''"
  shows "arbiter_docker float_of e = Inr (UnixSocket ''unix:///var/run/docker.sock'')"
proof -
  have "ac_docker_host c = ''unix:///var/run/docker.sock''"
    using assms by (auto simp: arbiter_config_def env_get_def bindE_eq_Inr)
  then show ?thesis using assms(1) by (simp add: arbiter_docker_def docker_address_def starts_with_def)
qed

text \<open>The history service does not start without its three settings; the bot asks for two of them only.\<close>

lemma history_startup_iff:
  "history_startup c = Inl ValueError \<longleftrightarrow> y_token c = [] \<or> y_guild c = [] \<or> y_proxy_url c = []"
  by (auto simp: history_startup_def validate_required_def missing_settings_def)

lemma trainer_called:
  "trainer_client (\<lambda>n. None) None None = (''http://arbiter:11438'', ''lora-trainer'')"
  "trainer_client e (Some ''http://a/'') (Some ''x'') = (''http://a'', ''x'')"
  by (simp_all add: trainer_client_def env_get_def)

end
