(* ===== verification/Training_Files.thy ===== *)
theory Training_Files
  imports Archive_Files Lora_Export
begin

text \<open>
  The files of the training side as text: what \<open>build_dataset.py\<close> reads of the archive and writes as a
  dataset, and \<open>sample_persona.py\<close>, which draws prompts from the held-out rows, has them answered by the
  models to compare, and logs which answer was picked. \<open>json.dumps\<close> and \<open>json.loads\<close> are parameters, and so
  are the draw, the shuffle and the model's replies.
\<close>

section \<open>Lines of a text file\<close>

text \<open>Iterating over a file opened in text mode: every kind of line end is read as a line feed.\<close>

function file_lines :: "string \<Rightarrow> string \<Rightarrow> string list" where
  "file_lines cur [] = (if cur = [] then [] else [cur])"
| "file_lines cur (c # cs) =
     (if c = nlc then (cur @ [nlc]) # file_lines [] cs
      else if c = CHR 0x0D then (cur @ [nlc]) # file_lines [] (if cs \<noteq> [] \<and> hd cs = nlc then tl cs else cs)
      else file_lines (cur @ [c]) cs)"
  by pat_completeness auto
termination by (relation "measure (\<lambda>(cur, s). length s)") auto

definition glob_jsonl :: "(string \<times> string) list \<Rightarrow> (string \<times> string) list" where
  "glob_jsonl files = filter (\<lambda>f. ends_with (fst f) ''.jsonl'' \<and> \<not> starts_with (fst f) ''.'') (sort_key fst files)"

text \<open>\<open>load_archive\<close> of \<open>build_dataset.py\<close>.\<close>

definition training_records :: "(string \<Rightarrow> json result) \<Rightarrow> (string \<times> string) list \<Rightarrow> json list result" where
  "training_records loads files =
     bindE (mapE (\<lambda>f. mapE loads (filter (\<lambda>l. l \<noteq> []) (map strip (file_lines [] (snd f))))) (glob_jsonl files))
       (\<lambda>rs. Inr (concat rs))"

definition write_jsonl :: "(json \<Rightarrow> string) \<Rightarrow> json list \<Rightarrow> string" where
  "write_jsonl dumps rows = concat (map (\<lambda>r. dumps r @ [nlc]) rows)"

section \<open>Sampling\<close>

text \<open>\<open>pick_prompts\<close>; \<open>sample xs k\<close> is \<open>rng.sample\<close>.\<close>

definition pick_prompts ::
  "(string \<Rightarrow> json result) \<Rightarrow> (json list \<Rightarrow> nat \<Rightarrow> json list) \<Rightarrow> string \<Rightarrow> nat \<Rightarrow> json list result" where
  "pick_prompts loads sample text k =
     bindE (mapE loads (filter (\<lambda>l. strip l \<noteq> []) (file_lines [] text))) (\<lambda>rows.
       Inr (sample rows (min k (length rows))))"

definition field :: "json \<Rightarrow> string \<Rightarrow> json result" where
  "field v k = (case v of JObj kvs \<Rightarrow> (case map_of kvs k of None \<Rightarrow> Inl (KeyError k) | Some x \<Rightarrow> Inr x) | _ \<Rightarrow> Inl TypeError)"

text \<open>\<open>generate\<close> on what the proxy answered: any status that is not a success raises (an error of \<open>httpx\<close>, here \<open>RuntimeError\<close>).\<close>

definition generate :: "int \<times> json result \<Rightarrow> string result" where
  "generate resp =
     (if fst resp < 200 \<or> fst resp \<ge> 300 then Inl RuntimeError
      else bindE (snd resp) (\<lambda>v. bindE (field v ''choices'') (\<lambda>cs. bindE (index_first cs) (\<lambda>c.
           bindE (field c ''message'') (\<lambda>m. bindE (field m ''content'') (\<lambda>t.
             case t of JStr s \<Rightarrow> Inr (strip s) | _ \<Rightarrow> Inl AttributeError))))))"

text \<open>A row of the log, \<open>record\<close>, and the rows a session appends: one for each pick.\<close>

definition pick_row :: "string \<Rightarrow> string \<Rightarrow> string list \<Rightarrow> int \<Rightarrow> json \<Rightarrow> string \<Rightarrow> json" where
  "pick_row made persona models seed prompt winner =
     JObj [(''at'', JStr made), (''persona'', JStr persona), (''models'', JList (map JStr models)), (''seed'', JInt seed),
           (''prompt_timestamp'', (case prompt of JObj kvs \<Rightarrow> dget kvs ''timestamp'' JNull | _ \<Rightarrow> JNull)), (''winner'', JStr winner)]"

definition record_row :: "(json \<Rightarrow> string) \<Rightarrow> json \<Rightarrow> string \<Rightarrow> string" where
  "record_row dumps row journal = journal @ dumps row @ [nlc]"

definition winner_of :: "string \<times> string \<Rightarrow> string \<Rightarrow> string option" where
  "winner_of order choice =
     (if choice = ''s'' then None else Some (if choice = ''t'' then ''tie'' else if choice = ''1'' then fst order else snd order))"

text \<open>
  The blind loop with its log: the time of each pick, the prompts, the order each is shown in, the
  answers typed. \<open>None\<close>: the
  input is over, and what was logged stays.
\<close>

fun blind_log ::
  "(json \<Rightarrow> string) \<Rightarrow> (string \<Rightarrow> json \<Rightarrow> string \<Rightarrow> json) \<Rightarrow> (string \<times> json \<times> string \<times> string) list
    \<Rightarrow> string list \<Rightarrow> string \<Rightarrow> string" where
  "blind_log dumps row [] answers journal = journal"
| "blind_log dumps row ((made, p, order) # ps) answers journal =
     (case ask_choice answers of
        None \<Rightarrow> journal
      | Some (c, rest) \<Rightarrow>
          blind_log dumps row ps rest
            (case winner_of order c of None \<Rightarrow> journal | Some w \<Rightarrow> record_row dumps (row made p w) journal))"

text \<open>\<open>main\<close>: the replies of every model come first, and one that fails ends the run before any question.
  What is printed is not modelled: the rows are taken to have the fields that are printed.\<close>

datatype sample_end = Usage | Died py_error | NoInput | Finished "(string \<times> nat) list"

definition sample_main ::
  "bool \<Rightarrow> string list \<Rightarrow> json list result \<Rightarrow> (string \<Rightarrow> json \<Rightarrow> int \<times> json result) \<Rightarrow> (string \<times> string) list \<Rightarrow> string list \<Rightarrow> sample_end" where
  "sample_main blind models prompts ask orders answers =
     (if blind \<and> length models \<noteq> 2 then Usage
      else case prompts of
        Inl e \<Rightarrow> Died e
      | Inr ps \<Rightarrow>
          (case mapE (\<lambda>m. mapE (\<lambda>p. bindE (field p ''prompt'') (\<lambda>x. generate (ask m x))) ps) models of
             Inl e \<Rightarrow> Died e
           | Inr outputs \<Rightarrow>
               if \<not> blind then Finished []
               else case blind_session (take (length ps) orders) answers (fold (\<lambda>m d. dset m 0 d) models [], []) of
                      None \<Rightarrow> NoInput
                    | Some (tally, recorded) \<Rightarrow> Finished tally))"

section \<open>What is written is read back\<close>

definition one_line :: "string \<Rightarrow> bool" where
  "one_line s \<longleftrightarrow> s \<noteq> [] \<and> nlc \<notin> set s \<and> CHR 0x0D \<notin> set s \<and> \<not> py_space (hd s) \<and> \<not> py_space (last s)"

lemma one_line_strip:
  assumes "one_line s" shows "strip s = s" "strip (s @ [nlc]) = s"
proof -
  have f: "lstrip (s @ t) = s @ t" for t
    using assms by (cases s) (simp_all add: one_line_def lstrip_def)
  have r: "rstrip s = s"
    using assms by (cases s rule: rev_cases) (simp_all add: one_line_def rstrip_def)
  have "rstrip (s @ [nlc]) = rstrip s" by (simp add: rstrip_def py_space_def nlc_def)
  then show "strip s = s" "strip (s @ [nlc]) = s" using f [of "[]"] f [of "[nlc]"] r by (simp_all add: strip_def)
qed

lemma file_lines_line:
  assumes "nlc \<notin> set l" "CHR 0x0D \<notin> set l" shows "file_lines cur (l @ nlc # t) = (cur @ l @ [nlc]) # file_lines [] t"
  using assms by (induction l arbitrary: cur) auto

lemma file_lines_rows:
  "\<forall>s\<in>set ss. one_line s \<Longrightarrow> file_lines [] (concat (map (\<lambda>s. s @ [nlc]) ss)) = map (\<lambda>s. s @ [nlc]) ss"
  by (induction ss) (simp_all add: file_lines_line one_line_def)

lemma strip_lines:
  "\<forall>s\<in>set ss. one_line s \<Longrightarrow> filter (\<lambda>l. l \<noteq> []) (map strip (map (\<lambda>s. s @ [nlc]) ss)) = ss"
  by (induction ss) (auto simp: one_line_strip one_line_def)

lemma mapE_comp: "mapE f (map g xs) = mapE (\<lambda>x. f (g x)) xs"
  by (induction xs) simp_all

lemma mapE_map: "\<forall>x\<in>set xs. f (g x) = Inr (h x) \<Longrightarrow> mapE f (map g xs) = Inr (map h xs)"
  by (induction xs) simp_all

lemma rows_parse:
  assumes "\<forall>r\<in>set rows. one_line (dumps r) \<and> loads (dumps r) = Inr r"
  shows "mapE loads (filter (\<lambda>l. l \<noteq> []) (map strip (file_lines [] (write_jsonl dumps rows)))) = Inr rows"
proof -
  have o': "\<forall>s\<in>set (map dumps rows). one_line s" using assms by simp
  have "write_jsonl dumps rows = concat (map (\<lambda>s. s @ [nlc]) (map dumps rows))" by (simp add: write_jsonl_def comp_def)
  then have "filter (\<lambda>l. l \<noteq> []) (map strip (file_lines [] (write_jsonl dumps rows))) = map dumps rows"
    using strip_lines [OF o'] file_lines_rows [OF o'] by simp
  then show ?thesis using mapE_map [of rows loads dumps "\<lambda>x. x"] assms by simp
qed

text \<open>
  The rows a dataset is written with are the rows that are read from it: the prompts drawn for a
  comparison are drawn from exactly the held-out rows, at most as many as asked for, and a pick
  that is logged is read back behind those that were there.
\<close>

theorem rows_read_back:
  assumes "\<forall>r\<in>set (row # rows). one_line (dumps r) \<and> loads (dumps r) = Inr r \<and> loads (dumps r @ [nlc]) = Inr r"
  shows "pick_prompts loads sample (write_jsonl dumps rows) k = Inr (sample rows (min k (length rows)))
    \<and> pick_prompts loads (\<lambda>rs n. rs) (record_row dumps row (write_jsonl dumps rows)) k = Inr (rows @ [row])"
proof -
  have pick: "pick_prompts loads f (write_jsonl dumps rs) k = Inr (f rs (min k (length rs)))"
    if a: "\<forall>r\<in>set rs. one_line (dumps r) \<and> loads (dumps r @ [nlc]) = Inr r" for rs f
  proof -
    let ?ls = "map (\<lambda>r. dumps r @ [nlc]) rs"
    have o': "\<forall>s\<in>set (map dumps rs). one_line s" using a by simp
    have "write_jsonl dumps rs = concat (map (\<lambda>s. s @ [nlc]) (map dumps rs))" by (simp add: write_jsonl_def comp_def)
    then have "file_lines [] (write_jsonl dumps rs) = ?ls" using file_lines_rows [OF o'] by (simp add: comp_def)
    moreover have "filter (\<lambda>l. strip l \<noteq> []) ?ls = ?ls"
      using a by (auto simp: one_line_strip one_line_def intro: filter_True)
    moreover have "mapE loads ?ls = Inr rs" using mapE_map [of rs loads "\<lambda>r. dumps r @ [nlc]" "\<lambda>x. x"] a by simp
    ultimately show ?thesis by (simp add: pick_prompts_def)
  qed
  have "record_row dumps row (write_jsonl dumps rows) = write_jsonl dumps (rows @ [row])"
    by (simp add: record_row_def write_jsonl_def)
  then show ?thesis using pick [of rows sample] pick [of "rows @ [row]" "\<lambda>rs n. rs"] assms by simp
qed

section \<open>Picks and the log\<close>

lemma blind_log_rows:
  "blind_session (map (\<lambda>(made, p, order). order) ps) answers (tally, recorded) = Some (tally', recorded') \<Longrightarrow>
   \<exists>picks. blind_log dumps row ps answers journal
       = journal @ write_jsonl dumps (map (\<lambda>(made, p, w). row made p w) picks)
     \<and> recorded' = recorded @ map (\<lambda>(made, p, w). w) picks
     \<and> subseq (map (\<lambda>(made, p, w). (made, p)) picks) (map (\<lambda>(made, p, order). (made, p)) ps)"
proof (induction ps arbitrary: answers tally recorded journal)
  case Nil
  then show ?case by (simp add: write_jsonl_def)
next
  case (Cons q ps)
  obtain made p order where q: "q = (made, p, order)" by (cases q)
  obtain c rest where a: "ask_choice answers = Some (c, rest)" using Cons.prems q by (auto split: option.splits)
  show ?case
  proof (cases "winner_of order c")
    case None
    then have "judge_prompt order c (tally, recorded) = (tally, recorded)"
      by (simp add: winner_of_def judge_prompt_def split: if_splits)
    then show ?thesis using Cons.IH [of rest tally recorded journal] Cons.prems a q None by auto
  next
    case (Some w)
    then obtain t1 where j: "judge_prompt order c (tally, recorded) = (t1, recorded @ [w])"
      by (auto simp: winner_of_def judge_prompt_def Let_def split: if_splits)
    then obtain picks where i: "blind_log dumps row ps rest (record_row dumps (row made p w) journal)
          = record_row dumps (row made p w) journal @ write_jsonl dumps (map (\<lambda>(made, p, w). row made p w) picks)"
        "recorded' = (recorded @ [w]) @ map (\<lambda>(made, p, w). w) picks"
        "subseq (map (\<lambda>(made, p, w). (made, p)) picks) (map (\<lambda>(made, p, order). (made, p)) ps)"
      using Cons.IH [of rest t1 "recorded @ [w]" "record_row dumps (row made p w) journal"] Cons.prems a q by auto
    then have "blind_log dumps row (q # ps) answers journal
        = journal @ write_jsonl dumps (map (\<lambda>(made, p, w). row made p w) ((made, p, w) # picks))"
      using a q Some by (simp add: record_row_def write_jsonl_def)
    then show ?thesis using i(2,3) q by (intro exI [of _ "(made, p, w) # picks"]) simp
  qed
qed

text \<open>
  A blind session that comes to its end has logged exactly its picks, in their order and behind
  what the log held, and what it prints for a model is the number of rows logged for it.
\<close>

theorem tally_is_logged:
  assumes "blind_session (map (\<lambda>(made, p, order). order) ps) answers (fold (\<lambda>m d. dset m 0 d) models [], []) = Some (tally, recorded)"
  shows "\<exists>picks. blind_log dumps row ps answers journal = journal @ write_jsonl dumps (map (\<lambda>(made, p, w). row made p w) picks)
      \<and> recorded = map (\<lambda>(made, p, w). w) picks
      \<and> (\<forall>m n. map_of tally m = Some n \<longrightarrow> n = length (filter (\<lambda>(made, p, w). w = m) picks))"
proof -
  obtain picks where p: "blind_log dumps row ps answers journal = journal @ write_jsonl dumps (map (\<lambda>(made, p, w). row made p w) picks)"
      "recorded = map (\<lambda>(made, p, w). w) picks"
    using blind_log_rows [OF assms, of dumps row journal] by auto
  have zeros: "n = 0" if "map_of (fold (\<lambda>m d. dset m 0 d) ms d) m = Some n" "\<forall>m n. map_of d m = Some n \<longrightarrow> n = 0" for ms d m n
    using that by (induction ms arbitrary: d) (auto simp: map_of_dset split: if_splits)
  have "n = count_list recorded m" if "map_of tally m = Some n" for m n
    using blind_session_tally [OF assms] zeros [of models "[]"] that by (metis count_list.simps(1) map_of.simps(1) option.distinct(1))
  moreover have "count_list (map (\<lambda>(made, p, w). w) picks) m = length (filter (\<lambda>(made, p, w). w = m) picks)" for m
    by (induction picks) auto
  ultimately show ?thesis using p by blast
qed

section \<open>The archive as the builder sees it\<close>

text \<open>The text of a file of the archive; \<open>bad\<close> is what a line holds that is not JSON.\<close>

fun line_text :: "(json \<Rightarrow> string) \<Rightarrow> string \<Rightarrow> line \<Rightarrow> string" where
  "line_text dumps bad (Rec r) = dumps (JObj r)"
| "line_text dumps bad Torn = bad"

definition archive_text :: "(json \<Rightarrow> string) \<Rightarrow> string \<Rightarrow> store \<Rightarrow> (string \<times> string) list" where
  "archive_text dumps bad s =
     map (\<lambda>f. (user_file_path (fst f), concat (map (\<lambda>l. line_text dumps bad l @ [nlc]) (snd f)))) (st_files s)"

lemma sort_key_map: "sort_key f (map g xs) = map g (sort_key (\<lambda>x. f (g x)) xs)"
proof -
  have ins: "insort_key f (g x) (map g ys) = map g (insort_key (\<lambda>x. f (g x)) x ys)" for x ys
    by (induction ys) simp_all
  show ?thesis by (induction xs) (simp_all add: sort_key_def ins)
qed

lemma mapE_lines:
  assumes "\<forall>r. Rec r \<in> set ls \<longrightarrow> loads (dumps (JObj r)) = Inr (JObj r)" "loads bad = Inl ValueError"
  shows "mapE loads (map (line_text dumps bad) ls)
    = (if Torn \<in> set ls then Inl ValueError else Inr (map JObj (line_records ls)))"
  using assms(1)
proof (induction ls)
  case (Cons l ls)
  then show ?case using assms(2) by (cases l) auto
qed simp

lemma mapE_files:
  assumes "\<forall>f\<in>set fs. g f = (if P f then Inl e else Inr (h f))"
  shows "mapE g fs = (if \<exists>f\<in>set fs. P f then Inl e else Inr (map h fs))"
  using assms by (induction fs) auto

text \<open>
  C39: The builder reads the archive whole or not at all. Of the files the history service keeps it
  gets every record, file by file in the order of their names and in the order they were
  appended; but one line that is not JSON anywhere in the archive, which the service's own readers
  and the ingest pass over, ends the build of every dataset.
\<close>

theorem training_sees_archive:
  assumes "\<forall>(u, ls)\<in>set (st_files s). u \<noteq> [] \<and> hd u \<noteq> CHR ''.''
      \<and> (\<forall>r. Rec r \<in> set ls \<longrightarrow> one_line (dumps (JObj r)) \<and> loads (dumps (JObj r)) = Inr (JObj r))"
    and "one_line bad" "loads bad = Inl ValueError"
  shows "training_records loads (archive_text dumps bad s)
    = (if \<exists>(u, ls)\<in>set (st_files s). Torn \<in> set ls then Inl ValueError
       else Inr (concat (map (\<lambda>f. map JObj (line_records (snd f))) (sort_key (\<lambda>f. user_file_path (fst f)) (st_files s)))))"
proof -
  let ?fs = "sort_key (\<lambda>f. user_file_path (fst f)) (st_files s)"
  let ?t = "\<lambda>f. (user_file_path (fst f), concat (map (\<lambda>l. line_text dumps bad l @ [nlc]) (snd f)))"
  have g: "glob_jsonl (archive_text dumps bad s) = map ?t ?fs"
  proof -
    have e: "ends_with (user_file_path u) ''.jsonl''" for u by (simp add: user_file_path_def ends_with_def suffix_def)
    have "ends_with (user_file_path u) ''.jsonl'' \<and> \<not> starts_with (user_file_path u) ''.''" if "u \<noteq> []" "hd u \<noteq> CHR ''.''" for u
      using that e [of u] by (cases u) (auto simp: user_file_path_def starts_with_def)
    then show ?thesis
      using assms(1) unfolding glob_jsonl_def archive_text_def sort_key_map fst_conv
      by (intro filter_True) auto
  qed
  have one: "mapE loads (filter (\<lambda>l. l \<noteq> []) (map strip (file_lines [] (snd (?t f)))))
      = (if Torn \<in> set (snd f) then Inl ValueError else Inr (map JObj (line_records (snd f))))"
    if f: "f \<in> set ?fs" for f
  proof -
    have a: "\<forall>s\<in>set (map (line_text dumps bad) (snd f)). one_line s"
    proof
      fix x assume "x \<in> set (map (line_text dumps bad) (snd f))"
      then obtain l where l: "l \<in> set (snd f)" "x = line_text dumps bad l" by auto
      show "one_line x"
      proof (cases l)
        case (Rec r)
        then have "one_line (dumps (JObj r))" using bspec [OF assms(1), of f] f l(1) by (auto simp: case_prod_unfold)
        then show ?thesis using l(2) Rec by simp
      qed (use l(2) assms(2) in simp)
    qed
    have "snd (?t f) = concat (map (\<lambda>s. s @ [nlc]) (map (line_text dumps bad) (snd f)))" by (simp add: comp_def)
    then have "filter (\<lambda>l. l \<noteq> []) (map strip (file_lines [] (snd (?t f)))) = map (line_text dumps bad) (snd f)"
      using strip_lines [OF a] file_lines_rows [OF a] by simp
    then show ?thesis using mapE_lines [of "snd f" loads dumps bad] assms(1,3) f by (auto simp: case_prod_unfold)
  qed
  have "mapE (\<lambda>f. mapE loads (filter (\<lambda>l. l \<noteq> []) (map strip (file_lines [] (snd f))))) (map ?t ?fs)
      = mapE (\<lambda>f. mapE loads (filter (\<lambda>l. l \<noteq> []) (map strip (file_lines [] (snd (?t f)))))) ?fs"
    by (rule mapE_comp)
  also have "\<dots> = (if \<exists>f\<in>set ?fs. Torn \<in> set (snd f) then Inl ValueError
      else Inr (map (\<lambda>f. map JObj (line_records (snd f))) ?fs))"
    by (rule mapE_files) (use one in blast)
  finally show ?thesis unfolding training_records_def g by (simp add: case_prod_unfold)
qed

definition example_dumps :: "json \<Rightarrow> string" where
  "example_dumps v = (case v of JObj kvs \<Rightarrow> ''{'' @ concat (map fst kvs) @ ''}'' | _ \<Rightarrow> ''null'')"

definition example_loads :: "string \<Rightarrow> json result" where
  "example_loads s = (if s \<noteq> [] \<and> hd s = CHR ''{'' \<and> last s = CHR ''}'' then Inr (JObj [(butlast (tl s), JNull)]) else Inl ValueError)"

definition example_archive :: "line list \<Rightarrow> store" where
  "example_archive ls = \<lparr>st_files = [(''8'', [Rec [(''b'', JNull)], Rec [(''c'', JNull)]]), (''7'', Rec [(''a'', JNull)] # ls)], st_cache = []\<rparr>"

theorem training_sees_archive_witness:
  "training_records example_loads (archive_text example_dumps ''{'' (example_archive [Torn])) = Inl ValueError
   \<and> training_records example_loads (archive_text example_dumps ''{'' (example_archive []))
     = Inr [JObj [(''a'', JNull)], JObj [(''b'', JNull)], JObj [(''c'', JNull)]]"
proof -
  have h: "\<forall>(u, ls)\<in>set (st_files (example_archive xs)). u \<noteq> [] \<and> hd u \<noteq> CHR ''.''
      \<and> (\<forall>r. Rec r \<in> set ls \<longrightarrow> one_line (example_dumps (JObj r)) \<and> example_loads (example_dumps (JObj r)) = Inr (JObj r))"
    if "xs = [] \<or> xs = [Torn]" for xs
    using that by (auto simp: example_archive_def one_line_def example_dumps_def example_loads_def nlc_def py_space_def)
  have b: "one_line ''{''" "example_loads ''{'' = Inl ValueError"
    by (simp_all add: one_line_def example_loads_def nlc_def py_space_def)
  show ?thesis
    using training_sees_archive [OF h b, of "[Torn]"] training_sees_archive [OF h b, of "[]"]
    by (simp add: example_archive_def user_file_path_def sort_key_def)
qed

text \<open>
  A record that is appended behind a line whose line end is missing is lost with it: the two are one line.
\<close>

lemma partial_line_swallows_next:
  assumes "nlc \<notin> set partial" "CHR 0x0D \<notin> set partial" "one_line (dumps r)"
  shows "file_lines [] (partial @ write_jsonl dumps (r # rs)) = (partial @ dumps r @ [nlc]) # file_lines [] (write_jsonl dumps rs)"
  using file_lines_line [of "partial @ dumps r" "[]"] assms by (simp add: write_jsonl_def one_line_def)

end
