(* ===== verification/Spec2Isabelle.thy ===== *)
theory Spec2Isabelle
  imports Arbiter_Progress Arbiter_Gpu Proxy_Forward Docker_Client Docker_Requests Handover_Progress Lora_Export Lora_Worker Lora_Supervisor
    History_Service Discord_Output Chat_State Lore_Tools Prompts Model_Downloads Rag_Service Tool_Schemas
    Archive_Files Service_Status Bot_Main Bot_Proxy
    Proxy_Client Lora_Dataset Settings Training_Files
begin

text \<open>
  A verification library for the local AI server: one GPU shared by a language model, a LoRA trainer
  and other jobs; a proxy in front of the model; a Discord bot with personas, chat threads and an
  assistant that searches the archive of the server; the services that build that archive and make
  it searchable; the scripts that turn it into training data and adapters. Everything modelled is
  Python under \<open>src/\<close>.

  \<^bold>\<open>How the parts work together.\<close> A request of the bot goes through the proxy, which asks the arbiter
  for the GPU before it lets the request on, and gives it back when it is idle. The arbiter knows
  every job's priority and may take the card from a lower one: from a container by killing it, from
  the trainer by answering the notice it waits on, whereupon the trainer's supervisor kills its own
  worker, which later resumes from its last complete checkpoint. The history service exports
  channels, parses the exports and appends the messages to one file per user. The RAG service reads
  those files, cuts them into conversations, stores them in a vector store and answers searches. The
  bot's \<open>/lore\<close> lets a model search through tools, answers with what it found, and offers a thread in
  which the conversation goes on. The dataset builder reads the same files and writes training
  examples for one member's voice.

  \<^bold>\<open>Conventions.\<close> A class is a record, its methods take the state and return it. An exception is
  \<open>Inl\<close> of \<^typ>\<open>py_error\<close>, and \<open>bindE\<close> passes it on as Python does. JSON is \<^typ>\<open>json\<close>, with
  an object as an association list in insertion order (\<open>dget\<close>, \<open>dset\<close>, \<open>dpop\<close> are a Python dict's
  \<open>get\<close>, assignment and \<open>pop\<close>). Python's integers are \<open>int\<close>, seconds are \<open>real\<close>, characters are bytes
  (text outside ASCII behaves like letters of no script; emoji in messages are written as plain
  text). Coroutines are cut at their suspension points: a handler's state is the point it waits
  at, an event resumes one of them with the answer it waited for, and a run is any sequence of
  events. What comes from outside (Docker, the driver, Discord, the model, the vector store, the
  clock, the file system's failures) comes in with the events or as a function that is an argument.

  \<^bold>\<open>The theories.\<close>

  \<open>Prelude\<close>: JSON, dicts, exceptions, Python's strings, slices and numbers, and the locale \<open>machine\<close>
  (an invariant kept by every step holds after every run), which every state machine interprets.

  The GPU. \<open>Arbiter_Config\<close> is \<open>arbiter/config.py\<close>, the job table. \<open>Arbiter_Reclaimers\<close> is
  \<open>reclaimers.py\<close>: jobs that release by themselves, that are told, or whose container is killed, with
  the locale \<open>lease\<close> for what all three promise. \<open>Arbiter_Scheduler\<close> is \<open>scheduler.py\<close>: \<open>acquire\<close>,
  \<open>release\<close> and the reaper, with the lock and its queue. \<open>Arbiter_Leases\<close> proves what each piece does to
  the leases; \<open>Arbiter_Properties\<close> and \<open>Arbiter_Answers\<close> the properties; \<open>Arbiter_Progress\<close> bounds how long an
  \<open>acquire\<close> can hold the lock. \<open>Arbiter_Gpu\<close> is \<open>gpu.py\<close>: what the
  driver's tool prints, and the wait for a process to leave the card. \<open>Docker_Client\<close> is the HTTP client of
  \<open>docker_client.py\<close> on the bytes it gets, \<open>Docker_Requests\<close> its asking side: the address, the request and the
  loop that receives. \<open>Proxy_Main\<close> is the request path of \<open>proxy/main.py\<close>, its
  counters, the slot lock and the idle evictor; \<open>Proxy_Forward\<close> is its forwarding of a response: the
  events of a stream, the metrics they carry, and the cleanup. \<open>Gpu_Handover\<close> joins arbiter and proxy
  by the messages between them, which may overtake each other, and \<open>Handover_Order\<close> shows what holds
  when they do not: who holds the card while a request is served, and when it is given back;
  \<open>Handover_Progress\<close> that the two never lock each other up.
  \<open>Service_Status\<close> is what both report of themselves, and who reads it: the
  snapshot, the status and the metrics. \<open>Lora_Supervisor\<close> and \<open>Lora_Checkpoints\<close> are
  \<open>lora-training/supervisor.py\<close>, \<open>checkpoints.py\<close> and the saving side of \<open>train_worker.py\<close>, where the
  worker may be killed between any two steps, in the middle of a save or of the removal of a checkpoint too.

  The archive. \<open>Jsonl_Store\<close> is \<open>history-service/jsonl_store.py\<close>, with torn lines and failing writes.
  \<open>Dce_Parser\<close> is \<open>dce_parser.py\<close> and the \<open>/reparse\<close> endpoint. \<open>Channel_State\<close> is \<open>channel_state.py\<close> and
  the fetching of channels. \<open>Dce_Orchestrator\<close> is \<open>dce_orchestrator.py\<close>: a whole evaluation.
  \<open>History_Service\<close> is the endpoints and jobs of \<open>history-service/main.py\<close> and the captioning of
  \<open>image_captioner.py\<close>. \<open>Archive_Files\<close> is the atomic rewrite of \<open>jsonl_store.py\<close> call by call, where each
  call may fail and the process may be killed after any of them.

  Retrieval. \<open>Rag_Ingest\<close> is \<open>rag/ingest.py\<close> and \<open>Rag_Retrieve\<close> is \<open>rag/retrieve.py\<close> with the query
  endpoints of \<open>rag/main.py\<close>; \<open>Rag_Service\<close> is its ingest endpoint, whose runs are worker threads.

  The bot. \<open>Discord_Output\<close> is \<open>formatters.py\<close> and \<open>discord_io.py\<close>, with the locale \<open>splitter\<close> for any
  splitting at a boundary. \<open>Chat_State\<close> is \<open>rate_limiter.py\<close>, \<open>history.py\<close> and \<open>thread_registry.py\<close>.
  \<open>Bot_Cogs\<close> is \<open>cogs/chat.py\<close>, \<open>cogs/persona.py\<close> and \<open>member_names.py\<close>; \<open>Prompts\<close> is the texts the
  models are given, in the bot and in training; \<open>Bot_Main\<close> is the start and the shutdown of the bot and
  the reporting of progress; \<open>Bot_Proxy\<close> joins bot and proxy at the check of the queue.
  \<open>Proxy_Client\<close> is \<open>proxy_client.py\<close> and \<open>lore/context_window.py\<close>. \<open>Lore_Session\<close> is \<open>lore/session.py\<close>;
  \<open>Lore_Research\<close> is \<open>lore/research.py\<close>, \<open>metrics.py\<close> and \<open>compaction.py\<close>; \<open>Lore_Agent\<close> is
  \<open>lore/agent.py\<close>: tool rounds, the opening run, the follow-up turn. \<open>Lore_Tools\<close> is \<open>lore/tools.py\<close> and
  \<open>rag_client.py\<close>, joined to the RAG service's endpoints; \<open>Tool_Schemas\<close> is the schemas the model is
  shown of them. \<open>Lore_Cog\<close> is \<open>cogs/lore.py\<close> with the thread
  router of \<open>services.py\<close> and the restoration of threads in \<open>cogs/chat.py\<close>: offers, claims, turns,
  the sweep and the restart, interleaved.

  Training data. \<open>Lora_Dataset\<close> is \<open>lora-training/build_dataset.py\<close>: the patterns as combinators of a
  backtracking matcher, turns, examples, the split. \<open>Lora_Worker\<close> is the rendering of an example in
  \<open>train_worker.py\<close>; \<open>Lora_Export\<close> is \<open>export_adapter.py\<close> and \<open>export_latest.py\<close>. \<open>Model_Downloads\<close> is
  \<open>scripts/download_models.py\<close>. \<open>Training_Files\<close> is the training side's files as text, the archive as the builder
  reads it and the datasets it writes, and \<open>sample_persona.py\<close>, which compares two models blindly.

  \<open>Settings\<close> is the \<open>config.py\<close> of the bot, the proxy, the history service and the arbiter, and what the RAG
  service and the trainer read, as functions of the environment; its lemmas tie their defaults to the constants that the other theories use.

  \<^bold>\<open>What the lemmas show.\<close> For the GPU: one holder at a time, a lease is lost only to a higher
  priority, a new grant has room as far as the driver can be read, an acquire that has the lock ends within a
  stated number of answers; the proxy has one
  request at a time in the slot, gives the slot back after any stream that was begun and releases when idle; between
  the two, a request is served only under the llm's lease, if messages are not overtaken, every call gets the
  arbiter's answer and the evictor does not release under a request, and then the lease is given back once no request is left (not so
  when the proxy gives up on an acquire the arbiter still grants), and from every state such an exchange
  reaches all requests can be answered and both sides come to rest; the arbiter learns of a container what the
  Docker daemon says, in whatever pieces it arrives; a resume starts from the newest checkpoint that was marked, which is whole, wherever the worker was killed; the
  supervisor keeps the lease while its worker may run. For the archive: appending is idempotent and
  complete while no write fails, re-parsing twice changes nothing the second time, exactly which messages repeated exports miss, and a
  rewrite of a file is the old one or the new one at every moment. For retrieval: chunks partition the
  messages, ingest runs do not overlap while no handler is cancelled and what they add is found, a document is split back
  into what it was made of when no line of it looks like another message, the order of what the store returned is
  exact. For the
  bot: messages fit and lose nothing, the rate bound; every request to the model is
  a well-formed conversation, a tool call that conforms to its schema is handled, no search is run
  twice, a failed turn leaves only what it had appended; at most one thread is opened per offer, one turn at a time per thread,
  nothing registered is lost over a restart; a command is refused for the requests that wait and the arbiter calls
  that raised. For training: turns are the messages merged as far as they may be, an example is one whole turn
  after its context, and no long number is in its texts (the names it is labelled with may be raw ids); it is
  trained on as it is served when it has a system prompt; the builder gets the whole archive or, for one torn line, nothing; what an export reports is what is served. Where the code does not do this, the theorem says so on a concrete run, and the manifest lists it.

  \<^bold>\<open>Bounds and fuel.\<close> Loops over data are structural recursion. The regular expression
  substitution and the splitting of texts recurse on the length of what is left and are total functions;
  the streaming of an answer is bounded by its text. The tool loop recurses on the number of rounds,
  which the code bounds by 25. Waiting loops (settling memory, polling a child, verifying an unload)
  are states that an event with the clock moves on, so no fuel is needed; \<open>acquire_ends\<close> counts the events after
  which an acquire has freed the lock. The constants of the \<open>config.py\<close> files have their defaults outside \<open>Settings\<close>.

  \<^bold>\<open>Not modelled.\<close> Log lines and the wording of metrics series; the HTTP servers and clients
  below the answers they give; Discord's library; the embedding model and the vector store, which are
  parameters; model building and the trainer itself in \<open>train_worker.py\<close>; the random draw, the shuffle and
  the printed texts of \<open>sample_persona.py\<close>; sockets, which are given by their answers; the compose and systemd
  files, tests and documents.

  \<^bold>\<open>What is left.\<close> A joined model of bot, proxy and arbiter beyond the check of the queue, and text
  outside ASCII byte by byte.
\<close>

end
